(* ===== verification/Prelude.thy ===== *)
theory Prelude
  imports Main "HOL-Library.Signed_Division"
begin

text \<open>
  Shared material of the development: the collections of rewrite rules the components
  add to, two's complement readings of bounded integers, and small facts on options,
  lists and powers of two that several components use.
\<close>

named_theorems bv_simps \<open>equations of the bit-vector operations\<close>
named_theorems refine_intros \<open>congruence and transitivity rules of refinement\<close>
named_theorems wf_simps \<open>well-formedness of model values\<close>

unbundle bit_operations_syntax

text \<open>The two's complement reading of a \<open>w\<close>-bit value given as an unsigned integer.\<close>

definition sval :: "nat \<Rightarrow> int \<Rightarrow> int" where
  "sval w v = (if v < 2 ^ (w - 1) then v else v - 2 ^ w)"

text \<open>A value fits in \<open>w\<close> bits.\<close>

definition fits :: "nat \<Rightarrow> int \<Rightarrow> bool" where
  "fits w v \<longleftrightarrow> 0 \<le> v \<and> v < 2 ^ w"

lemma fitsI [intro]: "0 \<le> v \<Longrightarrow> v < 2 ^ w \<Longrightarrow> fits w v"
  by (simp add: fits_def)

lemma fits_nonneg [dest]: "fits w v \<Longrightarrow> 0 \<le> v"
  by (simp add: fits_def)

lemma fits_mod [simp]: "fits w (v mod 2 ^ w)"
  by (simp add: fits_def)

lemma fits_mod_eq: "fits w v \<Longrightarrow> v mod 2 ^ w = v"
  by (simp add: fits_def)

lemma fits_zero [simp]: "fits w 0"
  by (simp add: fits_def)

lemma fits_of_bool [simp]: "0 < w \<Longrightarrow> fits w (of_bool b)"
  by (auto simp: fits_def of_bool_def)

lemma fits_one_iff: "fits (Suc 0) v \<longleftrightarrow> v = 0 \<or> v = 1"
  by (auto simp: fits_def)

lemma fits_take_bit: "fits w v \<longleftrightarrow> take_bit w v = v"
  by (auto simp: fits_def take_bit_int_eq_self_iff)

lemma fits_mono: "fits w v \<Longrightarrow> w \<le> w' \<Longrightarrow> fits w' v"
  by (auto simp: fits_def intro: order_less_le_trans power_increasing)

lemma fits_and [simp]: "fits w a \<Longrightarrow> fits w b \<Longrightarrow> fits w (a AND b)"
  by (simp add: fits_take_bit)

lemma fits_or [simp]: "fits w a \<Longrightarrow> fits w b \<Longrightarrow> fits w (a OR b)"
  by (simp add: fits_take_bit)

lemma fits_xor [simp]: "fits w a \<Longrightarrow> fits w b \<Longrightarrow> fits w (a XOR b)"
  by (simp add: fits_take_bit)

lemma fits_div [simp]:
  assumes "fits w a" "0 \<le> b"
  shows "fits w (a div b)"
proof (cases "b = 0")
  case False
  with assms have "a div b \<le> a div 1"
    by (intro zdiv_mono2) (auto simp: fits_def)
  with assms False show ?thesis
    by (auto simp: fits_def pos_imp_zdiv_nonneg_iff)
qed (use assms in auto)

lemma fits_umod [simp]: "fits w a \<Longrightarrow> fits w b \<Longrightarrow> fits w (a mod b)"
  by (cases "b = 0") (auto simp: fits_def intro: order_less_trans [OF pos_mod_bound])

end
