(* ===== verification/ImmutableTree.thy ===== *)
theory ImmutableTree
  imports Prelude
begin

text \<open>
  The persistent balanced search trees of \<open>include/klee/Internal/ADT/ImmutableTree.h\<close> and the maps
  and sets built on them (\<open>ImmutableMap.h\<close>, \<open>ImmutableSet.h\<close>), on which address spaces rest.

  A node is a value of a datatype; the shared sentinel \<open>Node::terminator\<close> is \<open>Terminator\<close>, and
  reference counts, which only decide when a node is freed, have no counterpart. The template
  parameters are arguments: \<open>kov\<close> is \<open>key_of_value\<close> and \<open>lt\<close> is \<open>key_compare\<close>.
\<close>

section \<open>Definitions\<close>

datatype 'v node =
    Terminator
  | Node (nleft: "'v node") (nright: "'v node") (nvalue: 'v) (nheight: nat)
where
  "nleft Terminator = Terminator"
| "nright Terminator = Terminator"
| "nheight Terminator = 0"

definition mkNode :: "'v node \<Rightarrow> 'v node \<Rightarrow> 'v \<Rightarrow> 'v node" where
  "mkNode l r v = Node l r v (max (nheight l) (nheight r) + 1)"

definition balance :: "'v node \<Rightarrow> 'v \<Rightarrow> 'v node \<Rightarrow> 'v node" where
  "balance l v r =
     (if nheight l > nheight r + 2 then
        (let ll = nleft l; lr = nright l
         in if nheight ll \<ge> nheight lr then mkNode ll (mkNode lr r v) (nvalue l)
            else mkNode (mkNode ll (nleft lr) (nvalue l)) (mkNode (nright lr) r v) (nvalue lr))
      else if nheight r > nheight l + 2 then
        (let rl = nleft r; rr = nright r
         in if nheight rr \<ge> nheight rl then mkNode (mkNode l rl v) rr (nvalue r)
            else mkNode (mkNode l (nleft rl) v) (mkNode (nright rl) rr (nvalue r)) (nvalue rl))
      else mkNode l r v)"

fun sizeT :: "'v node \<Rightarrow> nat" where
  "sizeT Terminator = 0"
| "sizeT (Node l r v h) = sizeT l + 1 + sizeT r"

text \<open>
  \<open>popMin\<close> and \<open>popMax\<close> return the value and the remaining tree; the sentinel has no value.
\<close>

fun popMin :: "'v node \<Rightarrow> ('v \<times> 'v node) option" where
  "popMin Terminator = None"
| "popMin (Node l r v h) =
     (if l = Terminator then Some (v, r)
      else map_option (\<lambda>(m, l'). (m, balance l' v r)) (popMin l))"

fun popMax :: "'v node \<Rightarrow> ('v \<times> 'v node) option" where
  "popMax Terminator = None"
| "popMax (Node l r v h) =
     (if r = Terminator then Some (v, l)
      else map_option (\<lambda>(m, r'). (m, balance l v r')) (popMax r))"

fun insertT :: "('v \<Rightarrow> 'k) \<Rightarrow> ('k \<Rightarrow> 'k \<Rightarrow> bool) \<Rightarrow> 'v \<Rightarrow> 'v node \<Rightarrow> 'v node" where
  "insertT kov lt v Terminator = mkNode Terminator Terminator v"
| "insertT kov lt v (Node l r x h) =
     (if lt (kov v) (kov x) then balance (insertT kov lt v l) x r
      else if lt (kov x) (kov v) then balance l x (insertT kov lt v r)
      else Node l r x h)"

fun replaceT :: "('v \<Rightarrow> 'k) \<Rightarrow> ('k \<Rightarrow> 'k \<Rightarrow> bool) \<Rightarrow> 'v \<Rightarrow> 'v node \<Rightarrow> 'v node" where
  "replaceT kov lt v Terminator = mkNode Terminator Terminator v"
| "replaceT kov lt v (Node l r x h) =
     (if lt (kov v) (kov x) then balance (replaceT kov lt v l) x r
      else if lt (kov x) (kov v) then balance l x (replaceT kov lt v r)
      else mkNode l r v)"

fun removeT :: "('v \<Rightarrow> 'k) \<Rightarrow> ('k \<Rightarrow> 'k \<Rightarrow> bool) \<Rightarrow> 'k \<Rightarrow> 'v node \<Rightarrow> 'v node" where
  "removeT kov lt k Terminator = Terminator"
| "removeT kov lt k (Node l r x h) =
     (if lt k (kov x) then balance (removeT kov lt k l) x r
      else if lt (kov x) k then balance l x (removeT kov lt k r)
      else if l = Terminator then r
      else if r = Terminator then l
      else (case popMin r of Some (m, nr) \<Rightarrow> balance l m nr | None \<Rightarrow> l))"

definition emptyT :: "'v node \<Rightarrow> bool" where
  "emptyT t \<longleftrightarrow> t = Terminator"

fun countT :: "('v \<Rightarrow> 'k) \<Rightarrow> ('k \<Rightarrow> 'k \<Rightarrow> bool) \<Rightarrow> 'k \<Rightarrow> 'v node \<Rightarrow> nat" where
  "countT kov lt k Terminator = 0"
| "countT kov lt k (Node l r x h) =
     (if lt k (kov x) then countT kov lt k l
      else if lt (kov x) k then countT kov lt k r
      else 1)"

fun lookupT :: "('v \<Rightarrow> 'k) \<Rightarrow> ('k \<Rightarrow> 'k \<Rightarrow> bool) \<Rightarrow> 'k \<Rightarrow> 'v node \<Rightarrow> 'v option" where
  "lookupT kov lt k Terminator = None"
| "lookupT kov lt k (Node l r x h) =
     (if lt k (kov x) then lookupT kov lt k l
      else if lt (kov x) k then lookupT kov lt k r
      else Some x)"

text \<open>The loop of \<open>lookup_previous\<close>, with its variable \<open>result\<close>.\<close>

fun lookupPreviousLoop :: "('v \<Rightarrow> 'k) \<Rightarrow> ('k \<Rightarrow> 'k \<Rightarrow> bool) \<Rightarrow> 'k \<Rightarrow> 'v option \<Rightarrow> 'v node \<Rightarrow> 'v option" where
  "lookupPreviousLoop kov lt k result Terminator = result"
| "lookupPreviousLoop kov lt k result (Node l r x h) =
     (if lt k (kov x) then lookupPreviousLoop kov lt k result l
      else if lt (kov x) k then lookupPreviousLoop kov lt k (Some x) r
      else Some x)"

definition lookup_previous :: "('v \<Rightarrow> 'k) \<Rightarrow> ('k \<Rightarrow> 'k \<Rightarrow> bool) \<Rightarrow> 'k \<Rightarrow> 'v node \<Rightarrow> 'v option" where
  "lookup_previous kov lt k t = lookupPreviousLoop kov lt k None t"

fun minT :: "'v node \<Rightarrow> 'v option" where
  "minT Terminator = None"
| "minT (Node l r x h) = (if l = Terminator then Some x else minT l)"

fun maxT :: "'v node \<Rightarrow> 'v option" where
  "maxT Terminator = None"
| "maxT (Node l r x h) = (if r = Terminator then Some x else maxT r)"

subsection \<open>Iterators\<close>

text \<open>
  An iterator keeps the root and a stack of nodes, here with its top first. Two nodes of one tree
  with the same content are one node, since the keys of a tree are distinct, so that the pointer
  comparisons are equalities.
\<close>

record 'v iterator =
  root :: "'v node"
  stack :: "'v node list"

fun pushLeft :: "'v node \<Rightarrow> 'v node list \<Rightarrow> 'v node list" where
  "pushLeft Terminator st = st"
| "pushLeft (Node l r x h) st = pushLeft l (Node l r x h # st)"

fun pushRight :: "'v node \<Rightarrow> 'v node list \<Rightarrow> 'v node list" where
  "pushRight Terminator st = st"
| "pushRight (Node l r x h) st = pushRight r (Node l r x h # st)"

definition mkIterator :: "'v node \<Rightarrow> bool \<Rightarrow> 'v iterator" where
  "mkIterator t atBeginning = \<lparr>root = t, stack = (if atBeginning then pushLeft t [] else [])\<rparr>"

text \<open>The loops that pop the stack until the node came from the left, or from the right.\<close>

fun popToLeft :: "'v node \<Rightarrow> 'v node list \<Rightarrow> 'v node list" where
  "popToLeft prev [] = []"
| "popToLeft prev (n # st) = (if prev = nleft n then n # st else popToLeft n st)"

fun popToRight :: "'v node \<Rightarrow> 'v node list \<Rightarrow> 'v node list" where
  "popToRight prev [] = []"
| "popToRight prev (n # st) = (if prev = nright n then n # st else popToRight n st)"

definition iteratorIncr :: "'v iterator \<Rightarrow> 'v iterator option" where
  "iteratorIncr it =
     (case stack it of
        [] \<Rightarrow> None
      | n # st \<Rightarrow>
          Some (it\<lparr>stack :=
            (if nright n = Terminator then popToLeft n st
             else pushLeft (nleft (nright n)) (nright n # n # st))\<rparr>))"

definition iteratorDecr :: "'v iterator \<Rightarrow> 'v iterator" where
  "iteratorDecr it =
     (case stack it of
        [] \<Rightarrow> it\<lparr>stack := pushRight (root it) []\<rparr>
      | n # st \<Rightarrow>
          it\<lparr>stack :=
            (if nleft n = Terminator then popToRight n st
             else pushRight (nright (nleft n)) (nleft n # n # st))\<rparr>)"

definition deref :: "'v iterator \<Rightarrow> 'v option" where
  "deref it = (case stack it of [] \<Rightarrow> None | n # st \<Rightarrow> Some (nvalue n))"

definition beginT :: "'v node \<Rightarrow> 'v iterator" where
  "beginT t = mkIterator t True"

definition endT :: "'v node \<Rightarrow> 'v iterator" where
  "endT t = mkIterator t False"

text \<open>
  The descent of \<open>lower_bound\<close>; the flag tells that the key was found, when the function returns at
  once.
\<close>

fun descend :: "('v \<Rightarrow> 'k) \<Rightarrow> ('k \<Rightarrow> 'k \<Rightarrow> bool) \<Rightarrow> 'k \<Rightarrow> 'v node \<Rightarrow> 'v node list \<Rightarrow> bool \<times> 'v node list" where
  "descend kov lt k Terminator st = (False, st)"
| "descend kov lt k (Node l r x h) st =
     (if lt k (kov x) then descend kov lt k l (Node l r x h # st)
      else if lt (kov x) k then descend kov lt k r (Node l r x h # st)
      else (True, Node l r x h # st))"

definition lower_bound :: "('v \<Rightarrow> 'k) \<Rightarrow> ('k \<Rightarrow> 'k \<Rightarrow> bool) \<Rightarrow> 'k \<Rightarrow> 'v node \<Rightarrow> 'v iterator" where
  "lower_bound kov lt k t =
     (let (found, st) = descend kov lt k t []; it = \<lparr>root = t, stack = st\<rparr>
      in if found then it
         else
           (case st of
              [] \<Rightarrow> it
            | n # st' \<Rightarrow>
                if lt (kov (nvalue n)) k
                then (case iteratorIncr it of Some it' \<Rightarrow> it' | None \<Rightarrow> it)
                else it))"

definition upper_bound :: "('v \<Rightarrow> 'k) \<Rightarrow> ('k \<Rightarrow> 'k \<Rightarrow> bool) \<Rightarrow> 'k \<Rightarrow> 'v node \<Rightarrow> 'v iterator" where
  "upper_bound kov lt k t =
     (let it = lower_bound kov lt k t
      in case stack it of
           [] \<Rightarrow> it
         | n # st \<Rightarrow>
             if \<not> lt k (kov (nvalue n))
             then (case iteratorIncr it of Some it' \<Rightarrow> it' | None \<Rightarrow> it)
             else it)"

definition findT :: "('v \<Rightarrow> 'k) \<Rightarrow> ('k \<Rightarrow> 'k \<Rightarrow> bool) \<Rightarrow> 'k \<Rightarrow> 'v node \<Rightarrow> 'v iterator" where
  "findT kov lt k t =
     (let it = lower_bound kov lt k t
      in case stack it of
           [] \<Rightarrow> endT t
         | n # st \<Rightarrow> if lt k (kov (nvalue n)) then endT t else it)"

section \<open>Contents and balance\<close>

fun inorder :: "'v node \<Rightarrow> 'v list" where
  "inorder Terminator = []"
| "inorder (Node l r x h) = inorder l @ x # inorder r"

text \<open>The height of every node is stored, and the subtrees of a node differ by at most two.\<close>

fun balanced :: "'v node \<Rightarrow> bool" where
  "balanced Terminator \<longleftrightarrow> True"
| "balanced (Node l r x h) \<longleftrightarrow>
     h = max (nheight l) (nheight r) + 1 \<and> nheight l \<le> nheight r + 2 \<and> nheight r \<le> nheight l + 2 \<and>
     balanced l \<and> balanced r"

lemma nheight_pos: "nheight t > 0 \<Longrightarrow> t \<noteq> Terminator"
  by auto

lemma mkNode_simps [simp]:
  "inorder (mkNode l r x) = inorder l @ x # inorder r"
  "nheight (mkNode l r x) = max (nheight l) (nheight r) + 1"
  "balanced (mkNode l r x) \<longleftrightarrow> nheight l \<le> nheight r + 2 \<and> nheight r \<le> nheight l + 2 \<and> balanced l \<and> balanced r"
  by (simp_all add: mkNode_def)

lemma node_eta: "t \<noteq> Terminator \<Longrightarrow> inorder t = inorder (nleft t) @ nvalue t # inorder (nright t)"
  by (cases t) auto

lemma balance_inorder [simp]: 
  assumes "balanced l" "balanced r"
  shows "inorder (balance l x r) = inorder l @ x # inorder r"
proof -
  have "nright l \<noteq> Terminator" if "nheight (nleft l) < nheight (nright l)" using that by (cases "nright l") auto
  moreover have "nleft r \<noteq> Terminator" if "nheight (nright r) < nheight (nleft r)" using that by (cases "nleft r") auto
  moreover have "l \<noteq> Terminator" if "nheight r + 2 < nheight l" using that by (cases l) auto
  moreover have "r \<noteq> Terminator" if "nheight l + 2 < nheight r" using that by (cases r) auto
  ultimately show ?thesis
    by (auto simp: balance_def Let_def node_eta not_le)
qed

lemma balance_balanced:
  assumes "balanced l" "balanced r" "nheight l \<le> nheight r + 3" "nheight r \<le> nheight l + 3"
  shows "balanced (balance l x r)"
proof -
  consider "nheight r + 2 < nheight l" | "nheight l + 2 < nheight r" | "nheight l \<le> nheight r + 2" "nheight r \<le> nheight l + 2"
    by linarith
  then show ?thesis
  proof cases
    case 1
    with assms show ?thesis
      by (cases l; cases "nright l") (auto simp: balance_def Let_def max_def split: if_splits)
  next
    case 2
    with assms show ?thesis
      by (cases r; cases "nleft r") (auto simp: balance_def Let_def max_def split: if_splits)
  next
    case 3
    with assms show ?thesis by (auto simp: balance_def)
  qed
qed

lemma balance_height:
  assumes "balanced l" "balanced r" "nheight l \<le> nheight r + 3" "nheight r \<le> nheight l + 3"
  shows "max (nheight l) (nheight r) \<le> nheight (balance l x r) \<and> nheight (balance l x r) \<le> max (nheight l) (nheight r) + 1"
proof -
  consider "nheight r + 2 < nheight l" | "nheight l + 2 < nheight r" | "nheight l \<le> nheight r + 2" "nheight r \<le> nheight l + 2"
    by linarith
  then show ?thesis
  proof cases
    case 1
    with assms show ?thesis
      by (cases l; cases "nright l") (auto simp: balance_def Let_def max_def split: if_splits)
  next
    case 2
    with assms show ?thesis
      by (cases r; cases "nleft r") (auto simp: balance_def Let_def max_def split: if_splits)
  next
    case 3
    then show ?thesis by (auto simp: balance_def)
  qed
qed

lemma balance_height_eq:
  "nheight l \<le> nheight r + 2 \<Longrightarrow> nheight r \<le> nheight l + 2 \<Longrightarrow> nheight (balance l x r) = max (nheight l) (nheight r) + 1"
  by (simp add: balance_def)

text \<open>
  Rebuilding a node of a balanced tree after one of its subtrees grew or shrank by at most one
  level.
\<close>

definition grown :: "'v node \<Rightarrow> 'v node \<Rightarrow> bool" where
  "grown t t' \<longleftrightarrow> balanced t' \<and> nheight t \<le> nheight t' \<and> nheight t' \<le> nheight t + 1"

definition shrunk :: "'v node \<Rightarrow> 'v node \<Rightarrow> bool" where
  "shrunk t t' \<longleftrightarrow> balanced t' \<and> nheight t' \<le> nheight t \<and> nheight t \<le> nheight t' + 1"

lemma balance_grown:
  assumes "balanced (Node l r x h)" 
  shows "grown l l' \<Longrightarrow> grown (Node l r x h) (balance l' y r)" "grown r r' \<Longrightarrow> grown (Node l r x h) (balance l y r')"
proof -
  assume g: "grown l l'"
  with assms have "balanced l'" "balanced r" "nheight l' \<le> nheight r + 3" "nheight r \<le> nheight l' + 3" by (auto simp: grown_def)
  from balance_balanced [OF this, of y] balance_height [OF this, of y] balance_height_eq [of l' r y] assms g
  show "grown (Node l r x h) (balance l' y r)"
    by (cases "nheight l' \<le> nheight r + 2 \<and> nheight r \<le> nheight l' + 2") (auto simp: grown_def)
next
  assume g: "grown r r'"
  with assms have "balanced l" "balanced r'" "nheight l \<le> nheight r' + 3" "nheight r' \<le> nheight l + 3" by (auto simp: grown_def)
  from balance_balanced [OF this, of y] balance_height [OF this, of y] balance_height_eq [of l r' y] assms g
  show "grown (Node l r x h) (balance l y r')"
    by (cases "nheight l \<le> nheight r' + 2 \<and> nheight r' \<le> nheight l + 2") (auto simp: grown_def)
qed

lemma balance_shrunk:
  assumes "balanced (Node l r x h)" 
  shows "shrunk l l' \<Longrightarrow> shrunk (Node l r x h) (balance l' y r)" "shrunk r r' \<Longrightarrow> shrunk (Node l r x h) (balance l y r')"
proof -
  assume g: "shrunk l l'"
  with assms have "balanced l'" "balanced r" "nheight l' \<le> nheight r + 3" "nheight r \<le> nheight l' + 3" by (auto simp: shrunk_def)
  from balance_balanced [OF this, of y] balance_height [OF this, of y] balance_height_eq [of l' r y] assms g
  show "shrunk (Node l r x h) (balance l' y r)"
    by (cases "nheight l' \<le> nheight r + 2 \<and> nheight r \<le> nheight l' + 2") (auto simp: shrunk_def)
next
  assume g: "shrunk r r'"
  with assms have "balanced l" "balanced r'" "nheight l \<le> nheight r' + 3" "nheight r' \<le> nheight l + 3" by (auto simp: shrunk_def)
  from balance_balanced [OF this, of y] balance_height [OF this, of y] balance_height_eq [of l r' y] assms g
  show "shrunk (Node l r x h) (balance l y r')"
    by (cases "nheight l \<le> nheight r' + 2 \<and> nheight r' \<le> nheight l + 2") (auto simp: shrunk_def)
qed

lemma grown_refl [simp]: "balanced t \<Longrightarrow> grown t t"
  by (simp add: grown_def)

lemma insertT_grown: "balanced t \<Longrightarrow> grown t (insertT kov lt v t)"
proof (induction t)
  case (Node l r x h)
  then show ?case using balance_grown [OF Node.prems] by (simp del: balanced.simps) (simp add: Node.IH)
qed (simp add: grown_def)

lemma replaceT_grown: "balanced t \<Longrightarrow> grown t (replaceT kov lt v t)"
proof (induction t)
  case (Node l r x h)
  then show ?case using balance_grown [OF Node.prems] by (auto simp: grown_def [of _ "mkNode l r v"])
qed (simp add: grown_def)

lemma popMin_shrunk:
  "popMin t = Some (m, t') \<Longrightarrow> balanced t \<Longrightarrow> shrunk t t' \<and> inorder t = m # inorder t'"
proof (induction t arbitrary: t')
  case (Node l r x h)
  show ?case
  proof (cases "l = Terminator")
    case True
    with Node.prems show ?thesis by (auto simp: shrunk_def max_def)
  next
    case False
    with Node.prems(1) obtain l' where l': "popMin l = Some (m, l')" "t' = balance l' x r" by auto
    with Node.IH(1) [OF l'(1)] Node.prems(2) balance_shrunk(1) [OF Node.prems(2), of l' x] show ?thesis
      by (auto simp: shrunk_def [of l])
  qed
qed simp

lemma popMax_shrunk:
  "popMax t = Some (m, t') \<Longrightarrow> balanced t \<Longrightarrow> shrunk t t' \<and> inorder t = inorder t' @ [m]"
proof (induction t arbitrary: t')
  case (Node l r x h)
  show ?case
  proof (cases "r = Terminator")
    case True
    with Node.prems show ?thesis by (auto simp: shrunk_def max_def)
  next
    case False
    with Node.prems(1) obtain r' where r': "popMax r = Some (m, r')" "t' = balance l x r'" by auto
    with Node.IH(2) [OF r'(1)] Node.prems(2) balance_shrunk(2) [OF Node.prems(2), of r' x] show ?thesis
      by (auto simp: shrunk_def [of r])
  qed
qed simp

lemma popMin_None [simp]: "popMin t = None \<longleftrightarrow> t = Terminator"
  by (induction t) auto

lemma popMax_None [simp]: "popMax t = None \<longleftrightarrow> t = Terminator"
  by (induction t) auto

lemma removeT_shrunk: "balanced t \<Longrightarrow> shrunk t (removeT kov lt k t)"
proof (induction t)
  case (Node l r x h)
  have "shrunk (Node l r x h) (balance l m nr)" if "popMin r = Some (m, nr)" for m nr
    using balance_shrunk(2) [OF Node.prems] popMin_shrunk [OF that] Node.prems by simp
  moreover have "l = Terminator \<Longrightarrow> shrunk (Node l r x h) r" "r = Terminator \<Longrightarrow> shrunk (Node l r x h) l"
    using Node.prems by (auto simp: shrunk_def)
  moreover have "balanced l" "balanced r" using Node.prems by simp_all
  ultimately show ?case
    using balance_shrunk [OF Node.prems] Node.IH by (auto split: option.splits)
qed (simp add: shrunk_def)

lemma balanced_ops [simp]:
  "balanced t \<Longrightarrow> balanced (insertT kov lt v t)" "balanced t \<Longrightarrow> balanced (replaceT kov lt v t)"
  "balanced t \<Longrightarrow> balanced (removeT kov lt k t)"
  using insertT_grown [of t kov lt v] replaceT_grown [of t kov lt v] removeT_shrunk [of t kov lt k]
  by (simp_all add: grown_def shrunk_def)

section \<open>Search trees\<close>

text \<open>
  The law of a comparison functor: it compares the ranks of the keys in a linear order. For
  \<open>std::less\<close> the rank is the key itself, and for the memory objects of an address space it is the
  address.
\<close>

locale key_compare =
  fixes kov :: "'v \<Rightarrow> 'k" and lt :: "'k \<Rightarrow> 'k \<Rightarrow> bool" and rank :: "'k \<Rightarrow> 'r::linorder"
  assumes lt_rank: "lt a b \<longleftrightarrow> rank a < rank b"
begin

abbreviation vrank :: "'v \<Rightarrow> 'r" where
  "vrank v \<equiv> rank (kov v)"

definition asc :: "'v list \<Rightarrow> bool" where
  "asc xs \<longleftrightarrow> sorted_wrt (\<lambda>x y. vrank x < vrank y) xs"

definition search :: "'v node \<Rightarrow> bool" where
  "search t \<longleftrightarrow> balanced t \<and> asc (inorder t)"

lemma asc_simps [simp]: "asc []" "asc (x # xs) \<longleftrightarrow> (\<forall>y \<in> set xs. vrank x < vrank y) \<and> asc xs"
  by (simp_all add: asc_def)

lemma asc_append:
  "asc (xs @ x # ys) \<longleftrightarrow> asc xs \<and> asc ys \<and> (\<forall>y \<in> set xs. vrank y < vrank x) \<and> (\<forall>y \<in> set ys. vrank x < vrank y)"
  by (auto simp: asc_def sorted_wrt_append) (meson less_trans)

definition entries :: "'v list \<Rightarrow> 'r \<Rightarrow> 'v option" where
  "entries xs = map_of (map (\<lambda>v. (vrank v, v)) xs)"

abbreviation contents :: "'v node \<Rightarrow> 'r \<Rightarrow> 'v option" where
  "contents t \<equiv> entries (inorder t)"

lemma entries_simps [simp]:
  "entries [] = Map.empty" "entries (x # xs) = (entries xs)(vrank x \<mapsto> x)"
  "entries (xs @ ys) = entries ys ++ entries xs"
  by (simp_all add: entries_def)

lemma entries_None: "entries xs k = None \<longleftrightarrow> (\<forall>x \<in> set xs. vrank x \<noteq> k)"
  by (induction xs) auto

lemma entries_Some: "entries xs k = Some v \<Longrightarrow> v \<in> set xs \<and> vrank v = k"
  by (induction xs) (auto split: if_splits)

text \<open>The operations on the list of values in order.\<close>

fun putList :: "bool \<Rightarrow> 'v \<Rightarrow> 'v list \<Rightarrow> 'v list" where
  "putList keep v [] = [v]"
| "putList keep v (x # xs) =
     (if vrank v < vrank x then v # x # xs
      else if vrank x < vrank v then x # putList keep v xs
      else (if keep then x else v) # xs)"

definition delList :: "'r \<Rightarrow> 'v list \<Rightarrow> 'v list" where
  "delList k xs = filter (\<lambda>x. vrank x \<noteq> k) xs"

lemma putList_append:
  "asc (xs @ x # ys) \<Longrightarrow> vrank v < vrank x \<Longrightarrow> putList keep v (xs @ x # ys) = putList keep v xs @ x # ys"
  "asc (xs @ x # ys) \<Longrightarrow> vrank x < vrank v \<Longrightarrow> putList keep v (xs @ x # ys) = xs @ x # putList keep v ys"
  "asc (xs @ x # ys) \<Longrightarrow> vrank x = vrank v \<Longrightarrow> putList keep v (xs @ x # ys) = xs @ (if keep then x else v) # ys"
  by (induction xs) (auto simp: asc_append not_less dest: less_trans)

lemma set_putList: "y \<in> set (putList keep v xs) \<Longrightarrow> y = v \<or> y \<in> set xs"
  by (induction xs) (auto split: if_splits)

lemma asc_putList: "asc xs \<Longrightarrow> asc (putList keep v xs)"
proof (induction xs)
  case (Cons x xs)
  consider "vrank v < vrank x" | "vrank x < vrank v" | "vrank x = vrank v" by (rule linorder_cases) auto
  then show ?case
    using Cons by cases (auto dest!: set_putList dest: less_trans)
qed simp

lemma entries_putList:
  "asc xs \<Longrightarrow> entries (putList keep v xs) =
     (if keep \<and> entries xs (vrank v) \<noteq> None then entries xs else (entries xs)(vrank v \<mapsto> v))"
proof (induction xs)
  case (Cons x xs)
  consider "vrank v < vrank x" | "vrank x < vrank v" | "vrank x = vrank v" by (rule linorder_cases) auto
  then show ?case
  proof cases
    case 1
    with Cons.prems have "entries (x # xs) (vrank v) = None" unfolding entries_None by auto
    with 1 show ?thesis by simp
  next
    case 2
    with Cons show ?thesis by (auto simp: fun_upd_twist)
  qed (use Cons in auto)
qed auto

lemma asc_delList: "asc xs \<Longrightarrow> asc (delList k xs)"
  by (simp add: delList_def asc_def sorted_wrt_filter)

lemma entries_delList: "entries (delList k xs) = (entries xs)(k := None)"
  by (induction xs) (auto simp: delList_def fun_upd_twist)

lemma delList_append:
  assumes "asc (xs @ x # ys)"
  shows "k < vrank x \<Longrightarrow> delList k (xs @ x # ys) = delList k xs @ x # ys"
    "vrank x < k \<Longrightarrow> delList k (xs @ x # ys) = xs @ x # delList k ys"
    "vrank x = k \<Longrightarrow> delList k (xs @ x # ys) = xs @ ys"
  using assms
  by (auto simp: delList_def asc_append filter_id_conv intro!: arg_cong2 [where f = append]) (metis less_irrefl)+

lemma search_Node:
  "search (Node l r x h) \<Longrightarrow> search l \<and> search r \<and> asc (inorder l @ x # inorder r)"
  by (auto simp: search_def asc_append)

lemmas search_kids = search_Node [THEN conjunct1] search_Node [THEN conjunct2, THEN conjunct1]
  search_Node [THEN conjunct2, THEN conjunct2]

lemma insertT_inorder: "search t \<Longrightarrow> inorder (insertT kov lt v t) = putList True v (inorder t)"
proof (induction t)
  case (Node l r x h)
  note s = search_kids [OF Node.prems]
  then have "balanced l" "balanced r" "balanced (insertT kov lt v l)" "balanced (insertT kov lt v r)"
    by (simp_all add: search_def)
  moreover consider "vrank v < vrank x" | "vrank x < vrank v" | "vrank x = vrank v" by (rule linorder_cases) auto
  ultimately show ?case
    using Node.IH s putList_append [OF s(3)] by cases (simp_all add: lt_rank)
qed simp

lemma replaceT_inorder: "search t \<Longrightarrow> inorder (replaceT kov lt v t) = putList False v (inorder t)"
proof (induction t)
  case (Node l r x h)
  note s = search_kids [OF Node.prems]
  then have "balanced l" "balanced r" "balanced (replaceT kov lt v l)" "balanced (replaceT kov lt v r)"
    by (simp_all add: search_def)
  moreover consider "vrank v < vrank x" | "vrank x < vrank v" | "vrank x = vrank v" by (rule linorder_cases) auto
  ultimately show ?case
    using Node.IH s putList_append [OF s(3)] by cases (simp_all add: lt_rank)
qed simp

lemma removeT_inorder: "search t \<Longrightarrow> inorder (removeT kov lt k t) = delList (rank k) (inorder t)"
proof (induction t)
  case (Node l r x h)
  note s = search_kids [OF Node.prems]
  then have b: "balanced l" "balanced r" "balanced (removeT kov lt k l)" "balanced (removeT kov lt k r)"
    by (simp_all add: search_def)
  have "inorder (balance l m nr) = inorder l @ inorder r" if "popMin r = Some (m, nr)" for m nr
    using popMin_shrunk [OF that b(2)] b(1) by (simp add: shrunk_def)
  moreover consider "rank k < vrank x" | "vrank x < rank k" | "vrank x = rank k" by (rule linorder_cases) auto
  ultimately show ?case
    using Node.IH s b delList_append [OF s(3)] by cases (auto simp: lt_rank split: option.splits)
qed (simp add: delList_def)

lemma lookupT_contents: "search t \<Longrightarrow> lookupT kov lt k t = contents t (rank k)"
proof (induction t)
  case (Node l r x h)
  note s = search_kids [OF Node.prems]
  have "entries (inorder l) (rank k) = None" if "vrank x \<le> rank k" using s(3) that by (auto simp: entries_None asc_append)
  moreover have "entries (inorder r) (rank k) = None" if "rank k \<le> vrank x" using s(3) that by (auto simp: entries_None asc_append)
  ultimately show ?case
    using Node.IH s by (auto simp: lt_rank map_add_def not_less split: option.splits)
qed simp

lemma countT_contents: "search t \<Longrightarrow> countT kov lt k t = (if contents t (rank k) = None then 0 else 1)"
proof -
  have "countT kov lt k t = (if lookupT kov lt k t = None then 0 else 1)" by (induction t) auto
  then show "search t \<Longrightarrow> ?thesis" by (simp add: lookupT_contents)
qed

text \<open>\<open>lookup_previous\<close> gives the last value whose key is not greater.\<close>

definition previous :: "'r \<Rightarrow> 'v list \<Rightarrow> 'v option" where
  "previous k xs = (let ys = filter (\<lambda>x. vrank x \<le> k) xs in if ys = [] then None else Some (last ys))"

lemma previous_simps:
  "previous k [] = None"
  "previous k (xs @ [x]) = (if vrank x \<le> k then Some x else previous k xs)"
  by (auto simp: previous_def Let_def)

lemma previous_append:
  "previous k (xs @ ys) = (case previous k ys of Some y \<Rightarrow> Some y | None \<Rightarrow> previous k xs)"
  by (auto simp: previous_def Let_def)

lemma lookupPreviousLoop_eq:
  "search t \<Longrightarrow> lookupPreviousLoop kov lt k res t =
     (case previous (rank k) (inorder t) of Some v \<Rightarrow> Some v | None \<Rightarrow> res)"
proof (induction t arbitrary: res)
  case (Node l r x h)
  note s = search_kids [OF Node.prems]
  have "previous (rank k) (inorder l @ x # inorder r) = previous (rank k) (inorder l)" if "rank k < vrank x"
  proof -
    have "filter (\<lambda>y. vrank y \<le> rank k) (inorder r) = []" using s(3) that by (auto simp: asc_append filter_empty_conv)
    with that show ?thesis by (auto simp: previous_def Let_def)
  qed
  moreover have "previous (rank k) (inorder l @ x # inorder r) = Some x" if "rank k = vrank x"
    using s(3) that by (auto simp: previous_def asc_append not_le filter_False)
  moreover have "previous (rank k) (inorder l @ x # inorder r) =
      (case previous (rank k) (inorder r) of Some y \<Rightarrow> Some y | None \<Rightarrow> Some x)" if "vrank x < rank k"
    using that previous_append [of "rank k" "inorder l @ [x]" "inorder r"]
    by (cases "previous (rank k) (inorder r)") (simp_all add: previous_simps less_imp_le)
  moreover consider "rank k < vrank x" | "vrank x < rank k" | "vrank x = rank k" by (rule linorder_cases) auto
  ultimately show ?case
    using Node.IH s by cases (auto simp: lt_rank split: option.splits)
qed (simp add: previous_simps)

lemma lookup_previous_eq: "search t \<Longrightarrow> lookup_previous kov lt k t = previous (rank k) (inorder t)"
  by (simp add: lookup_previous_def lookupPreviousLoop_eq split: option.splits)

lemma search_ops:
  assumes "search t"
  shows "search (insertT kov lt v t)" "search (replaceT kov lt v t)" "search (removeT kov lt k t)"
  using assms insertT_inorder [OF assms] replaceT_inorder [OF assms] removeT_inorder [OF assms] asc_putList asc_delList
  by (simp_all add: search_def)

lemma contents_ops:
  assumes "search t"
  shows "contents (insertT kov lt v t) = (if contents t (vrank v) \<noteq> None then contents t else (contents t)(vrank v \<mapsto> v))"
    "contents (replaceT kov lt v t) = (contents t)(vrank v \<mapsto> v)"
    "contents (removeT kov lt k t) = (contents t)(rank k := None)"
  using insertT_inorder [OF assms] replaceT_inorder [OF assms] removeT_inorder [OF assms] assms
  by (simp_all add: entries_putList entries_delList search_def)

end

section \<open>Iterators\<close>

text \<open>
  The values from the position of an iterator on. The stack is a path from the root: each node is
  a child of the next one, and the values before the position are those to the left of the path.
\<close>

fun pathTo :: "'v node \<Rightarrow> 'v node list \<Rightarrow> bool" where
  "pathTo t [] \<longleftrightarrow> True"
| "pathTo t [n] \<longleftrightarrow> n = t \<and> n \<noteq> Terminator"
| "pathTo t (n # p # st) \<longleftrightarrow> n \<noteq> Terminator \<and> (n = nleft p \<or> n = nright p) \<and> pathTo t (p # st)"

fun afterNode :: "'v node \<Rightarrow> 'v node list \<Rightarrow> 'v list" where
  "afterNode n [] = []"
| "afterNode n (p # st) = (if n = nleft p then nvalue p # inorder (nright p) else []) @ afterNode p st"

fun beforeNode :: "'v node \<Rightarrow> 'v node list \<Rightarrow> 'v list" where
  "beforeNode n [] = []"
| "beforeNode n (p # st) = beforeNode p st @ (if n = nleft p then [] else inorder (nleft p) @ [nvalue p])"

fun remaining :: "'v node list \<Rightarrow> 'v list" where
  "remaining [] = []"
| "remaining (n # st) = nvalue n # inorder (nright n) @ afterNode n st"

lemma pathTo_tl: "pathTo t (n # st) \<Longrightarrow> pathTo t st \<and> n \<noteq> Terminator"
  by (cases st) auto

lemma pathTo_inorder: "pathTo t (n # st) \<Longrightarrow> inorder t = beforeNode n st @ inorder n @ afterNode n st"
proof (induction st arbitrary: n)
  case (Cons p st)
  then have "inorder t = beforeNode p st @ inorder p @ afterNode p st" "p \<noteq> Terminator"
    using pathTo_tl [of t p st] by auto
  with Cons.prems show ?case by (cases "n = nleft p") (auto simp: node_eta [of p])
qed auto

lemma kids_differ:
  assumes "distinct (inorder n)" "nright n \<noteq> Terminator"
  shows "nleft n \<noteq> nright n"
proof
  assume eq: "nleft n = nright n"
  from assms(2) have "n \<noteq> Terminator" by auto
  with assms(1) have "set (inorder (nright n)) \<inter> set (inorder (nright n)) = {}" by (auto simp: node_eta eq)
  moreover have "inorder (nright n) \<noteq> []" using assms(2) by (simp add: node_eta)
  ultimately show False by simp
qed

lemma pathTo_distinct: "pathTo t (n # st) \<Longrightarrow> distinct (inorder t) \<Longrightarrow> distinct (inorder n)"
  using pathTo_inorder by fastforce

text \<open>The stack has room for the path: an iterator allocates as many entries as the root is high.\<close>

lemma pathTo_height: "pathTo t (n # st) \<Longrightarrow> balanced t \<Longrightarrow> balanced n \<and> nheight n + length st \<le> nheight t"
proof (induction st arbitrary: n)
  case (Cons p st)
  then have p: "balanced p" "nheight p + length st \<le> nheight t" "p \<noteq> Terminator"
    using pathTo_tl [of t p st] by auto
  with Cons.prems(1) show ?case by (cases p) auto
qed simp

lemma pathTo_capacity: "pathTo t st \<Longrightarrow> balanced t \<Longrightarrow> length st \<le> nheight t"
proof (cases st)
  case (Cons n st')
  assume "pathTo t st" "balanced t"
  with Cons pathTo_height [of t n st'] pathTo_tl [of t n st'] show ?thesis by (cases n) auto
qed simp

lemma pushLeft_path: "pathTo t (p # st) \<Longrightarrow> nleft p = n \<Longrightarrow> pathTo t (pushLeft n (p # st))"
  by (induction n arbitrary: p st) auto

lemma pushRight_path: "pathTo t (p # st) \<Longrightarrow> nright p = n \<Longrightarrow> pathTo t (pushRight n (p # st))"
  by (induction n arbitrary: p st) auto

lemma popToLeft_path: "pathTo t st \<Longrightarrow> pathTo t (popToLeft n st)"
  by (induction st arbitrary: n) (auto dest: pathTo_tl)

lemma popToRight_path: "pathTo t st \<Longrightarrow> pathTo t (popToRight n st)"
  by (induction st arbitrary: n) (auto dest: pathTo_tl)

lemma pushLeft_remaining: "nleft p = n \<Longrightarrow> remaining (pushLeft n (p # st)) = inorder n @ remaining (p # st)"
  by (induction n arbitrary: p st) auto

lemma pushLeft_root: "remaining (pushLeft t []) = inorder t" "pathTo t (pushLeft t [])"
  by (cases t; simp add: pushLeft_remaining pushLeft_path)+

lemma popToLeft_remaining: "remaining (popToLeft n st) = afterNode n st"
  by (induction st arbitrary: n) auto

lemma iteratorIncr_remaining:
  assumes "iteratorIncr it = Some it'" "pathTo (root it) (stack it)" "distinct (inorder (root it))"
  shows "root it' = root it \<and> pathTo (root it) (stack it') \<and> remaining (stack it') = tl (remaining (stack it))"
proof -
  from assms(1) obtain n st where st: "stack it = n # st" by (auto simp: iteratorIncr_def split: list.splits)
  with assms(2) have "n \<noteq> Terminator" "pathTo (root it) st" using pathTo_tl [of "root it" n st] by auto
  show ?thesis
  proof (cases "nright n = Terminator")
    case True
    with assms(1) st have "it' = it\<lparr>stack := popToLeft n st\<rparr>" by (simp add: iteratorIncr_def)
    with True st \<open>pathTo (root it) st\<close> show ?thesis by (simp add: popToLeft_path popToLeft_remaining)
  next
    case False
    let ?m = "nright n"
    have it': "it' = it\<lparr>stack := pushLeft (nleft ?m) (?m # n # st)\<rparr>" using assms(1) st False by (simp add: iteratorIncr_def)
    have "pathTo (root it) (?m # n # st)" using assms(2) st False by simp
    moreover have "nleft n \<noteq> ?m" using kids_differ [of n] pathTo_distinct [of "root it" n st] False assms(2,3) st by simp
    ultimately show ?thesis using st False by (simp add: it' pushLeft_path pushLeft_remaining node_eta [of ?m])
  qed
qed

text \<open>Decrementing moves to the value before the position, and from the end to the last value.\<close>

fun preceding :: "'v node \<Rightarrow> 'v node list \<Rightarrow> 'v list" where
  "preceding t [] = inorder t"
| "preceding t (n # st) = beforeNode n st @ inorder (nleft n)"

lemma preceding_remaining: "pathTo t st \<Longrightarrow> preceding t st @ remaining st = inorder t"
  by (cases st) (auto simp: pathTo_inorder node_eta dest: pathTo_tl)

lemma pushRight_preceding:
  assumes "distinct (inorder t)"
  shows "pathTo t (p # st) \<Longrightarrow> nright p = n \<Longrightarrow> n \<noteq> Terminator \<Longrightarrow>
    preceding t (pushRight n (p # st)) = butlast (beforeNode n (p # st) @ inorder n)"
proof (induction n arbitrary: p st)
  case (Node l r x h)
  let ?n = "Node l r x h"
  have path: "pathTo t (?n # p # st)" using Node.prems by simp
  show ?case
  proof (cases "r = Terminator")
    case True
    then show ?thesis by (simp add: butlast_append)
  next
    case False
    have "l \<noteq> r" using kids_differ [of ?n] pathTo_distinct [OF path assms] False by simp
    with Node.IH(2) [OF path] False show ?thesis by simp
  qed
qed simp

lemma popToRight_preceding:
  assumes "distinct (inorder t)"
  shows "pathTo t (n # st) \<Longrightarrow>
    (if popToRight n st = [] then beforeNode n st = [] else preceding t (popToRight n st) = butlast (beforeNode n st))"
proof (induction st arbitrary: n)
  case (Cons p st)
  from Cons.prems have p: "pathTo t (p # st)" "n \<noteq> Terminator" "n = nleft p \<or> n = nright p" by auto
  show ?case
  proof (cases "n = nright p")
    case True
    with kids_differ [of p] pathTo_distinct [OF p(1) assms] p(2) have "n \<noteq> nleft p" by auto
    with True show ?thesis by (simp add: butlast_append)
  next
    case False
    with Cons.IH [OF p(1)] p(3) show ?thesis by auto
  qed
qed simp

lemma iteratorDecr_preceding:
  assumes "pathTo (root it) (stack it)" "distinct (inorder (root it))" "preceding (root it) (stack it) \<noteq> []"
  shows "root (iteratorDecr it) = root it \<and> pathTo (root it) (stack (iteratorDecr it)) \<and>
    preceding (root it) (stack (iteratorDecr it)) = butlast (preceding (root it) (stack it))"
proof (cases "stack it")
  case Nil
  obtain l r x h where r: "root it = Node l r x h" using assms(3) Nil by (cases "root it") auto
  have "pathTo (root it) [root it]" using r by simp
  then have "preceding (root it) (pushRight (root it) []) = butlast (inorder (root it))"
    using pushRight_preceding [OF assms(2), of "root it" "[]" r] kids_differ [of "root it"] assms(2) r
    by (cases "r = Terminator") (auto simp: butlast_append)
  with Nil r show ?thesis by (simp add: iteratorDecr_def pushRight_path)
next
  case (Cons n st)
  with assms(1) pathTo_tl [of "root it" n st] have n: "pathTo (root it) (n # st)" "pathTo (root it) st" "n \<noteq> Terminator" by auto
  show ?thesis
  proof (cases "nleft n = Terminator")
    case True
    with Cons assms(3) popToRight_preceding [OF assms(2) n(1)] n(2) show ?thesis
      by (auto simp: iteratorDecr_def popToRight_path split: if_splits)
  next
    case False
    let ?m = "nleft n"
    have path: "pathTo (root it) (?m # n # st)" using n False by simp
    have "preceding (root it) (pushRight (nright ?m) (?m # n # st)) = butlast (beforeNode ?m (n # st) @ inorder ?m)"
    proof (cases "nright ?m = Terminator")
      case True
      then show ?thesis using False by (simp add: node_eta [of ?m] butlast_append)
    next
      case r: False
      then have "nright ?m \<noteq> nleft ?m" using kids_differ [of ?m] pathTo_distinct [OF path assms(2)] by auto
      with pushRight_preceding [OF assms(2) path refl r] False show ?thesis by (simp add: node_eta [of ?m])
    qed
    with Cons False path show ?thesis by (simp add: iteratorDecr_def pushRight_path)
  qed
qed

context key_compare
begin

lemma search_distinct: "search t \<Longrightarrow> distinct (inorder t)"
proof -
  have "asc xs \<Longrightarrow> distinct xs" for xs by (induction xs) auto
  then show "search t \<Longrightarrow> distinct (inorder t)" by (simp add: search_def)
qed

text \<open>
  Where the descent of \<open>lower_bound\<close> ends: at the first value not less than the key, or at the one
  before it.
\<close>

abbreviation notBelow :: "'k \<Rightarrow> 'v list \<Rightarrow> 'v list" where
  "notBelow k \<equiv> dropWhile (\<lambda>v. vrank v < rank k)"

lemma descend_spec:
  "n \<noteq> Terminator \<Longrightarrow> search n \<Longrightarrow> pathTo t (n # st) \<Longrightarrow> descend kov lt k n st = (found, st') \<Longrightarrow>
   pathTo t st' \<and> (\<exists>top rest. st' = top # rest \<and>
     (if \<not> found \<and> lt (kov (nvalue top)) k then tl (remaining st') else remaining st') = notBelow k (inorder n) @ afterNode n st)"
proof (induction n arbitrary: st)
  case (Node l r x h)
  let ?n = "Node l r x h"
  note s = search_kids [OF Node.prems(2)]
  consider "rank k < vrank x" | "vrank x < rank k" | "vrank x = rank k" by (rule linorder_cases) auto
  then show ?case
  proof cases
    case 1
    then have drop: "notBelow k (inorder l @ x # inorder r) = notBelow k (inorder l) @ x # inorder r" 
      by (simp add: dropWhile_append3 not_less_iff_gr_or_eq)
    show ?thesis
    proof (cases "l = Terminator")
      case True
      with Node.prems 1 lt_rank [of k "kov x"] have "found = False" "st' = ?n # st" by auto
      with 1 True Node.prems(3) show ?thesis by (auto simp: lt_rank)
    next
      case False
      have "descend kov lt k l (?n # st) = (found, st')" using Node.prems(4) 1 lt_rank [of k "kov x"] lt_rank [of "kov x" k] by auto
      from Node.IH(1) [OF False s(1) _ this] Node.prems(3) False drop show ?thesis by simp
    qed
  next
    case 2
    with s(3) have drop: "notBelow k (inorder l @ x # inorder r) = notBelow k (inorder r)"
      by (subst dropWhile_append2) (auto simp: asc_append intro: less_trans)
    show ?thesis
    proof (cases "r = Terminator")
      case True
      with Node.prems 2 lt_rank [of k "kov x"] lt_rank [of "kov x" k] have "found = False" "st' = ?n # st" by auto
      with 2 True Node.prems(3) drop show ?thesis by (auto simp: lt_rank)
    next
      case False
      with kids_differ [of ?n] search_distinct [OF Node.prems(2)] have "l \<noteq> r" by auto
      have "descend kov lt k r (?n # st) = (found, st')" using Node.prems(4) 2 lt_rank [of k "kov x"] lt_rank [of "kov x" k] by auto
      from Node.IH(2) [OF False s(2) _ this] Node.prems(3) False drop \<open>l \<noteq> r\<close> show ?thesis by simp
    qed
  next
    case 3
    with s(3) have "notBelow k (inorder l @ x # inorder r) = x # inorder r"
      by (auto simp: asc_append dropWhile_append2)
    with 3 Node.prems show ?thesis by (auto simp: lt_rank)
  qed
qed simp

lemma lower_bound_spec:
  assumes "search t"
  shows "root (lower_bound kov lt k t) = t \<and> pathTo t (stack (lower_bound kov lt k t)) \<and>
    remaining (stack (lower_bound kov lt k t)) = notBelow k (inorder t)"
proof (cases "t = Terminator")
  case False
  obtain found st' where d: "descend kov lt k t [] = (found, st')" by (cases "descend kov lt k t []")
  let ?it = "\<lparr>root = t, stack = st'\<rparr>"
  from descend_spec [OF False assms _ d] False obtain top rest where st: "pathTo t st'" "st' = top # rest"
      "(if \<not> found \<and> lt (kov (nvalue top)) k then tl (remaining st') else remaining st') = notBelow k (inorder t)"
    by auto
  show ?thesis
  proof (cases "\<not> found \<and> lt (kov (nvalue top)) k")
    case True
    obtain it' where it': "iteratorIncr ?it = Some it'" using st(2) by (auto simp: iteratorIncr_def)
    from iteratorIncr_remaining [OF this] st True search_distinct [OF assms] it' d show ?thesis
      by (simp add: lower_bound_def Let_def)
  next
    case False
    with d st show ?thesis by (auto simp: lower_bound_def Let_def)
  qed
qed (simp add: lower_bound_def)

lemma upper_bound_spec:
  assumes "search t"
  shows "remaining (stack (upper_bound kov lt k t)) = dropWhile (\<lambda>v. vrank v \<le> rank k) (inorder t)"
proof -
  let ?lb = "lower_bound kov lt k t"
  have asc: "asc (inorder t)" using assms by (simp add: search_def)
  have drop: "dropWhile (\<lambda>v. vrank v \<le> rank k) xs =
      (case notBelow k xs of [] \<Rightarrow> [] | y # ys \<Rightarrow> if rank k < vrank y then y # ys else ys)" if "asc xs" for xs
    using that
  proof (induction xs)
    case (Cons x xs)
    consider "rank k < vrank x" | "vrank x < rank k" | "vrank x = rank k" by (rule linorder_cases) auto
    then show ?case using Cons by cases (auto simp: dropWhile_eq_self_iff not_le split: list.splits)
  qed simp
  note lb = lower_bound_spec [OF assms, of k]
  show ?thesis
  proof (cases "stack ?lb")
    case Nil
    with lb have "notBelow k (inorder t) = []" by simp
    with Nil drop [OF asc] show ?thesis by (simp add: upper_bound_def Let_def eq_commute [of "[]"])
  next
    case (Cons n st)
    then obtain it' where it': "iteratorIncr ?lb = Some it'" by (auto simp: iteratorIncr_def)
    have nb: "notBelow k (inorder t) = nvalue n # inorder (nright n) @ afterNode n st" using lb Cons by (metis remaining.simps(2))
    have "remaining (stack it') = inorder (nright n) @ afterNode n st"
      using iteratorIncr_remaining [OF it'] lb search_distinct [OF assms] Cons by simp
    with it' Cons drop [OF asc, unfolded nb] show ?thesis
      by (simp add: upper_bound_def Let_def lt_rank [of k "kov (nvalue n)"])
  qed
qed

lemma findT_spec:
  assumes "search t"
  shows "deref (findT kov lt k t) = contents t (rank k)"
proof -
  have f: "entries xs (rank k) =
      (case notBelow k xs of [] \<Rightarrow> None | y # ys \<Rightarrow> if rank k < vrank y then None else Some y)" if "asc xs" for xs
    using that
  proof (induction xs)
    case (Cons x xs)
    consider "rank k < vrank x" | "vrank x < rank k" | "vrank x = rank k" by (rule linorder_cases) auto
    then show ?case
    proof cases
      case 1
      with Cons.prems have "entries (x # xs) (rank k) = None" unfolding entries_None by auto
      with 1 show ?thesis by (auto dest: less_asym)
    qed (use Cons in auto)
  qed simp
  note lb = lower_bound_spec [OF assms, of k]
  have asc: "asc (inorder t)" using assms by (simp add: search_def)
  show ?thesis
  proof (cases "stack (lower_bound kov lt k t)")
    case Nil
    with lb have "notBelow k (inorder t) = []" by simp
    with f [OF asc] Nil show ?thesis by (simp add: findT_def Let_def deref_def endT_def mkIterator_def)
  next
    case (Cons n st)
    then have nb: "notBelow k (inorder t) = nvalue n # tl (remaining (n # st))" using lb by (metis list.sel(3) remaining.simps(2))
    from f [OF asc, unfolded nb] Cons show ?thesis
      by (simp add: findT_def Let_def deref_def endT_def mkIterator_def lt_rank [of k "kov (nvalue n)"])
  qed
qed

end

section \<open>The interface of the maps\<close>

text \<open>
  What a client of the trees relies on: a tree stands for a finite map from ranks to values, with
  its values in the order of their ranks.
\<close>

locale immutable_map =
  fixes vrank :: "'v \<Rightarrow> 'r::linorder" and krank :: "'k \<Rightarrow> 'r"
    and inv :: "'t \<Rightarrow> bool" and elems :: "'t \<Rightarrow> 'v list" and abs :: "'t \<Rightarrow> 'r \<Rightarrow> 'v option"
    and empty :: 't and insert :: "'v \<Rightarrow> 't \<Rightarrow> 't" and replace :: "'v \<Rightarrow> 't \<Rightarrow> 't" and remove :: "'k \<Rightarrow> 't \<Rightarrow> 't"
    and lookup :: "'k \<Rightarrow> 't \<Rightarrow> 'v option"
  assumes inv_empty: "inv empty" and abs_empty: "abs empty = Map.empty"
    and inv_insert: "inv t \<Longrightarrow> inv (insert v t)" and inv_replace: "inv t \<Longrightarrow> inv (replace v t)"
    and inv_remove: "inv t \<Longrightarrow> inv (remove k t)"
    and abs_elems: "inv t \<Longrightarrow> abs t r = Some v \<longleftrightarrow> v \<in> set (elems t) \<and> vrank v = r"
    and sorted_elems: "inv t \<Longrightarrow> sorted_wrt (<) (map vrank (elems t))"
    and abs_insert: "inv t \<Longrightarrow> abs (insert v t) = (if abs t (vrank v) = None then (abs t)(vrank v \<mapsto> v) else abs t)"
    and abs_replace: "inv t \<Longrightarrow> abs (replace v t) = (abs t)(vrank v \<mapsto> v)"
    and abs_remove: "inv t \<Longrightarrow> abs (remove k t) = (abs t)(krank k := None)"
    and lookup_abs: "inv t \<Longrightarrow> lookup k t = abs t (krank k)"
begin

lemma lookup_replace: "inv t \<Longrightarrow> lookup k (replace v t) = (if krank k = vrank v then Some v else lookup k t)"
  by (simp add: lookup_abs inv_replace abs_replace)

lemma lookup_remove: "inv t \<Longrightarrow> lookup k (remove k' t) = (if krank k = krank k' then None else lookup k t)"
  by (simp add: lookup_abs inv_remove abs_remove)

lemma elems_replace: "inv t \<Longrightarrow> set (elems (replace v t)) = Set.insert v {x \<in> set (elems t). vrank x \<noteq> vrank v}"
  using abs_elems [of "replace v t"] abs_elems [of t] by (fastforce simp: inv_replace abs_replace split: if_splits)

lemma elems_remove: "inv t \<Longrightarrow> set (elems (remove k t)) = {x \<in> set (elems t). vrank x \<noteq> krank k}"
  using abs_elems [of "remove k t"] abs_elems [of t] by (fastforce simp: inv_remove abs_remove split: if_splits)

lemma elems_unique: "inv t \<Longrightarrow> x \<in> set (elems t) \<Longrightarrow> y \<in> set (elems t) \<Longrightarrow> vrank x = vrank y \<Longrightarrow> x = y"
  using abs_elems by (metis option.inject)

end

context key_compare
begin

lemma entries_iff: "asc xs \<Longrightarrow> entries xs r = Some v \<longleftrightarrow> v \<in> set xs \<and> vrank v = r"
proof (induction xs)
  case (Cons x xs)
  then show ?case by auto
qed simp

lemma asc_map: "asc xs \<longleftrightarrow> sorted_wrt (<) (map vrank xs)"
  by (simp add: asc_def sorted_wrt_map)

end

sublocale key_compare \<subseteq> tree: immutable_map vrank rank search inorder contents Terminator
  "insertT kov lt" "replaceT kov lt" "removeT kov lt" "lookupT kov lt"
  by unfold_locales
     (auto simp: search_ops contents_ops lookupT_contents entries_iff asc_map search_def [of Terminator]
       simp flip: asc_map, auto simp: search_def asc_map entries_iff)

text \<open>Maps and sets ordered by \<open>std::less\<close>.\<close>

interpretation less_map: key_compare fst "(<)" id
  by unfold_locales simp

interpretation less_set: key_compare id "(<)" id
  by unfold_locales simp

section \<open>Properties\<close>

lemma log_step:
  assumes "(2::nat) ^ (a div 3) \<le> x + 1" "2 ^ (b div 3) \<le> y + 1" "a \<le> b + 2" "b \<le> a + 2"
  shows "2 ^ ((max a b + 1) div 3) \<le> x + 1 + y + 1"
proof (cases "max a b < 2")
  case True
  then have "(max a b + 1) div 3 = 0" by simp
  then show ?thesis by simp
next
  case False
  let ?m = "(max a b - 2) div 3"
  have "(max a b + 1) div 3 = Suc ?m" using False by (simp add: div_if)
  have "(2::nat) ^ ?m \<le> 2 ^ (a div 3)" "(2::nat) ^ ?m \<le> 2 ^ (b div 3)"
    using assms(3,4) by (auto intro!: power_increasing div_le_mono)
  then have "(2::nat) ^ ?m \<le> x + 1" "(2::nat) ^ ?m \<le> y + 1" using assms(1,2) by linarith+
  with \<open>(max a b + 1) div 3 = Suc ?m\<close> show ?thesis by simp
qed

lemma balanced_log: "balanced t \<Longrightarrow> 2 ^ (nheight t div 3) \<le> sizeT t + 1"
proof (induction t)
  case (Node l r x h)
  then show ?case using log_step [of "nheight l" "sizeT l" "nheight r" "sizeT r"] by simp
qed simp

lemma sizeT_inorder: "sizeT t = length (inorder t)"
  by (induction t) auto

text \<open>A tree whose keys are in order and whose stored heights are right and balanced.\<close>

definition searchTree :: "('v \<Rightarrow> 'r::linorder) \<Rightarrow> 'v node \<Rightarrow> bool" where
  "searchTree vr t \<longleftrightarrow> balanced t \<and> sorted_wrt (<) (map vr (inorder t))"

fun steps :: "nat \<Rightarrow> 'v iterator \<Rightarrow> 'v iterator option" where
  "steps 0 it = Some it"
| "steps (Suc n) it = Option.bind (iteratorIncr it) (steps n)"

context key_compare
begin

lemma search_iff: "searchTree vrank t \<longleftrightarrow> search t"
  by (simp add: searchTree_def search_def asc_map)

lemma pop_search:
  "search t \<Longrightarrow> popMin t = Some (m, t') \<Longrightarrow> search t' \<and> inorder t = m # inorder t'"
  "search t \<Longrightarrow> popMax t = Some (m, t') \<Longrightarrow> search t' \<and> inorder t = inorder t' @ [m]"
  using popMin_shrunk [of t m t'] popMax_shrunk [of t m t'] asc_append [of "inorder t'" m "[]"]
  by (auto simp: search_def shrunk_def)

lemma previous_Some:
  "asc xs \<Longrightarrow> previous r xs = Some v \<longleftrightarrow>
     v \<in> set xs \<and> vrank v \<le> r \<and> (\<forall>w \<in> set xs. vrank w \<le> r \<longrightarrow> vrank w \<le> vrank v)"
proof (induction xs rule: rev_induct)
  case (snoc x xs)
  then have x: "\<forall>y \<in> set xs. vrank y < vrank x" "asc xs" by (auto simp: asc_append)
  show ?case
  proof (cases "vrank x \<le> r")
    case True
    with x(1) show ?thesis by (auto simp: previous_simps dest: less_imp_le)
  next
    case False
    with x snoc.IH show ?thesis by (auto simp: previous_simps)
  qed
qed (simp add: previous_simps)

text \<open>Advancing an iterator enumerates the values from its position on.\<close>

lemma steps_enumerate:
  assumes "search t"
  shows "root it = t \<Longrightarrow> pathTo t (stack it) \<Longrightarrow> n \<le> length (remaining (stack it)) \<Longrightarrow>
    \<exists>it'. steps n it = Some it' \<and> root it' = t \<and> pathTo t (stack it') \<and> remaining (stack it') = drop n (remaining (stack it))"
proof (induction n arbitrary: it)
  case (Suc n)
  then obtain it1 where it1: "iteratorIncr it = Some it1" by (cases "stack it") (auto simp: iteratorIncr_def)
  from iteratorIncr_remaining [OF it1] Suc.prems search_distinct [OF assms] have "root it1 = t" "pathTo t (stack it1)"
    "remaining (stack it1) = tl (remaining (stack it))" by auto
  with Suc.IH [of it1] Suc.prems(3) it1 show ?case by (auto simp: drop_Suc)
qed simp

lemma lower_bound_enumerates:
  assumes "search t" "n \<le> length (notBelow k (inorder t))"
  shows "\<exists>it. steps n (lower_bound kov lt k t) = Some it \<and> length (stack it) \<le> nheight t \<and>
    deref it = (if n < length (notBelow k (inorder t)) then Some (notBelow k (inorder t) ! n) else None)"
proof -
  note lb = lower_bound_spec [OF assms(1), of k]
  then obtain it where it: "steps n (lower_bound kov lt k t) = Some it" "pathTo t (stack it)"
      "remaining (stack it) = drop n (notBelow k (inorder t))"
    using steps_enumerate [OF assms(1), of "lower_bound kov lt k t" n] assms(2) by auto
  have "deref it = (case remaining (stack it) of [] \<Rightarrow> None | x # xs \<Rightarrow> Some x)"
    by (cases "stack it") (simp_all add: deref_def)
  with it assms pathTo_capacity [OF it(2)] show ?thesis
    by (auto simp: search_def Cons_nth_drop_Suc [symmetric])
qed

end

text \<open>
  C25: every operation of an immutable tree keeps the invariant: the keys are in order, the
  heights stored in the nodes are right and the subtrees of a node differ by at most two levels,
  so that the height is logarithmic in the number of values.
\<close>

theorem ImmutableTree_invariant:
  assumes "\<forall>a b. lt a b \<longleftrightarrow> rank a < rank b" "searchTree (\<lambda>v. rank (kov v)) t"
  shows "searchTree (\<lambda>v. rank (kov v)) (insertT kov lt v t) \<and> searchTree (\<lambda>v. rank (kov v)) (replaceT kov lt v t) \<and>
    searchTree (\<lambda>v. rank (kov v)) (removeT kov lt k t) \<and>
    (\<forall>m t'. popMin t = Some (m, t') \<or> popMax t = Some (m, t') \<longrightarrow> searchTree (\<lambda>v. rank (kov v)) t') \<and>
    2 ^ (nheight t div 3) \<le> sizeT t + 1"
proof -
  have kc: "key_compare lt rank" by unfold_locales (use assms(1) in simp)
  have t: "key_compare.search kov rank t" using assms(2) by (simp add: key_compare.search_iff [OF kc])
  show ?thesis
    using key_compare.search_ops [OF kc t] key_compare.pop_search [OF kc t] balanced_log [of t] assms(2)
      searchTree_def [of "\<lambda>v. rank (kov v)" t]
    by (auto simp: key_compare.search_iff [OF kc])
qed

definition exampleTree :: "(nat \<times> string) node" where
  "exampleTree = foldr (\<lambda>k. insertT fst (<) (k, ''v'')) [5, 4, 3, 2, 1] Terminator"

lemma exampleTree_inorder: "inorder exampleTree = [(1, ''v''), (2, ''v''), (3, ''v''), (4, ''v''), (5, ''v'')]"
  and exampleTree_ok: "searchTree (\<lambda>v. id (fst v)) exampleTree"
  by code_simp+

theorem ImmutableTree_invariant_witness:
  "searchTree (\<lambda>v. id (fst v)) (removeT fst (<) 2 exampleTree)"
  by (rule ImmutableTree_invariant [THEN conjunct2, THEN conjunct2, THEN conjunct1, of "(<)" id fst exampleTree 2, OF _ exampleTree_ok])
     simp

text \<open>
  C26: an immutable tree refines a finite map: a lookup after \<open>insert\<close>, \<open>replace\<close> or \<open>remove\<close>
  gives what the map gives; \<open>insert\<close> keeps an existing value, \<open>replace\<close> overwrites it.
\<close>

theorem ImmutableTree_refines_map:
  assumes "\<forall>a b. lt a b \<longleftrightarrow> rank a < rank b" "searchTree (\<lambda>v. rank (kov v)) t"
  shows "lookupT kov lt k (insertT kov lt v t) =
      (if rank k = rank (kov v) \<and> lookupT kov lt (kov v) t = None then Some v else lookupT kov lt k t) \<and>
    lookupT kov lt k (replaceT kov lt v t) = (if rank k = rank (kov v) then Some v else lookupT kov lt k t) \<and>
    lookupT kov lt k (removeT kov lt k' t) = (if rank k = rank k' then None else lookupT kov lt k t) \<and>
    countT kov lt k t = (if lookupT kov lt k t = None then 0 else 1) \<and>
    deref (findT kov lt k t) = lookupT kov lt k t \<and>
    (lookupT kov lt k t = Some v \<longleftrightarrow> v \<in> set (inorder t) \<and> rank (kov v) = rank k)"
proof -
  have kc: "key_compare lt rank" by unfold_locales (use assms(1) in simp)
  have t: "key_compare.search kov rank t" using assms(2) by (simp add: key_compare.search_iff [OF kc])
  note ops = key_compare.search_ops [OF kc t] and cts = key_compare.contents_ops [OF kc t]
  note look = key_compare.lookupT_contents [OF kc]
  have asc: "key_compare.asc kov rank (inorder t)" using t by (simp add: key_compare.search_def [OF kc])
  show ?thesis
    by (auto simp: look ops cts t key_compare.countT_contents [OF kc t] key_compare.findT_spec [OF kc t]
        key_compare.entries_iff [OF kc asc])
qed

theorem ImmutableTree_refines_map_witness:
  "lookupT fst (<) 3 (replaceT fst (<) (3, ''w'') exampleTree) = Some (3, ''w'') \<and>
   lookupT fst (<) 3 (insertT fst (<) (3, ''w'') exampleTree) = Some (3, ''v'') \<and>
   lookupT fst (<) 3 (removeT fst (<) 3 exampleTree) = None"
  using ImmutableTree_refines_map [of "(<)" id fst exampleTree 3 "(3, ''w'')" 3]
    ImmutableTree_refines_map [of "(<)" id fst exampleTree 3 "(3, ''v'')" 3] exampleTree_ok
  by (simp add: exampleTree_inorder)

text \<open>
  \<open>lookup_previous\<close> returns the value with the greatest key that is not greater than the
  given one, and nothing when there is none.
\<close>

theorem lookup_previous_correct:
  assumes "\<forall>a b. lt a b \<longleftrightarrow> rank a < rank b" "searchTree (\<lambda>v. rank (kov v)) t"
  shows "(lookup_previous kov lt k t = Some v \<longleftrightarrow> v \<in> set (inorder t) \<and> rank (kov v) \<le> rank k \<and>
      (\<forall>w \<in> set (inorder t). rank (kov w) \<le> rank k \<longrightarrow> rank (kov w) \<le> rank (kov v))) \<and>
    (lookup_previous kov lt k t = None \<longleftrightarrow> (\<forall>w \<in> set (inorder t). rank k < rank (kov w)))"
proof -
  have kc: "key_compare lt rank" by unfold_locales (use assms(1) in simp)
  have t: "key_compare.search kov rank t" using assms(2) by (simp add: key_compare.search_iff [OF kc])
  have asc: "key_compare.asc kov rank (inorder t)" using t by (simp add: key_compare.search_def [OF kc])
  have "key_compare.previous kov rank r xs = None \<longleftrightarrow> (\<forall>w \<in> set xs. r < rank (kov w))" for r xs
    by (auto simp: key_compare.previous_def [OF kc] Let_def filter_empty_conv not_le)
  with key_compare.lookup_previous_eq [OF kc t] key_compare.previous_Some [OF kc asc] show ?thesis by simp
qed

theorem lookup_previous_correct_witness:
  "lookup_previous fst (<) 9 exampleTree = Some (5, ''v'') \<and> lookup_previous fst (<) 0 exampleTree = None"
  using lookup_previous_correct [of "(<)" id fst exampleTree 9 "(5, ''v'')"]
    lookup_previous_correct [of "(<)" id fst exampleTree 0 "(5, ''v'')"] exampleTree_ok
  by (simp add: exampleTree_inorder)

text \<open>
  An iterator from \<open>lower_bound\<close> enumerates the values whose key is not less than the given
  one, in order and up to the end, and its stack never outgrows the room it allocates, the height
  of the root.
\<close>

theorem lower_bound_iterates:
  assumes "\<forall>a b. lt a b \<longleftrightarrow> rank a < rank b" "searchTree (\<lambda>v. rank (kov v)) t"
    and "n \<le> length (dropWhile (\<lambda>v. rank (kov v) < rank k) (inorder t))"
  shows "\<exists>it. steps n (lower_bound kov lt k t) = Some it \<and> length (stack it) \<le> nheight t \<and>
    deref it = (if n < length (dropWhile (\<lambda>v. rank (kov v) < rank k) (inorder t))
      then Some (dropWhile (\<lambda>v. rank (kov v) < rank k) (inorder t) ! n) else None)"
proof -
  have kc: "key_compare lt rank" by unfold_locales (use assms(1) in simp)
  have "key_compare.search kov rank t" using assms(2) by (simp add: key_compare.search_iff [OF kc])
  from key_compare.lower_bound_enumerates [OF kc this] assms(3) show ?thesis by blast
qed

theorem lower_bound_iterates_witness:
  "\<exists>it. steps 2 (lower_bound fst (<) 2 exampleTree) = Some it \<and> deref it = Some (4, ''v'')"
  using lower_bound_iterates [of "(<)" id fst exampleTree 2 2] exampleTree_ok
  by (auto simp: exampleTree_inorder)

end
