(* ===== verification/ConstantOps.thy ===== *)
theory ConstantOps
  imports Prelude
begin

text \<open>
  Constants of the expression language (class \<open>ConstantExpr\<close> of \<open>include/klee/Expr/Expr.h\<close>
  and \<open>lib/Expr/Expr.cpp\<close>). A constant holds an \<open>llvm::APInt\<close>, a two's complement integer
  of a width fixed at run time: here a width and the unsigned value, with the wrap-around
  modulo \<open>2 ^ w\<close> written out. The operations that \<open>llvm::APInt\<close> rejects (division and
  remainder by zero) return \<open>None\<close>.
\<close>

section \<open>Kinds of binary expressions\<close>

text \<open>The binary part of \<open>Expr::Kind\<close>, in the order of the enumeration.\<close>

datatype kind =
    Add | Sub | Mul | UDiv | SDiv | URem | SRem
  | And | Or | Xor | Shl | LShr | AShr
  | Eq | Ne | Ult | Ule | Ugt | Uge | Slt | Sle | Sgt | Sge

definition isCmpKind :: "kind \<Rightarrow> bool" where
  "isCmpKind k \<longleftrightarrow> k \<in> {Eq, Ne, Ult, Ule, Ugt, Uge, Slt, Sle, Sgt, Sge}"

definition isDivKind :: "kind \<Rightarrow> bool" where
  "isDivKind k \<longleftrightarrow> k \<in> {UDiv, SDiv, URem, SRem}"

section \<open>Arithmetic on unsigned readings\<close>

text \<open>
  \<open>bvVal k w a b\<close> is the value of the operation on two \<open>w\<close>-bit operands. Shifts by at least
  the width clear the value (or fill it with the sign), as \<open>APInt::shl\<close>, \<open>lshr\<close> and
  \<open>ashr\<close> do after limiting the amount to the width. Division and remainder by zero are
  excluded by \<open>bvOp\<close>.
\<close>

fun bvVal :: "kind \<Rightarrow> nat \<Rightarrow> int \<Rightarrow> int \<Rightarrow> int" where
  "bvVal Add w a b = (a + b) mod 2 ^ w"
| "bvVal Sub w a b = (a - b) mod 2 ^ w"
| "bvVal Mul w a b = (a * b) mod 2 ^ w"
| "bvVal UDiv w a b = a div b"
| "bvVal SDiv w a b = (sval w a sdiv sval w b) mod 2 ^ w"
| "bvVal URem w a b = a mod b"
| "bvVal SRem w a b = (sval w a smod sval w b) mod 2 ^ w"
| "bvVal And w a b = a AND b"
| "bvVal Or w a b = a OR b"
| "bvVal Xor w a b = a XOR b"
| "bvVal Shl w a b = (if b < int w then (a * 2 ^ nat b) mod 2 ^ w else 0)"
| "bvVal LShr w a b = (if b < int w then a div 2 ^ nat b else 0)"
| "bvVal AShr w a b = (sval w a div 2 ^ min (nat b) w) mod 2 ^ w"
| "bvVal Eq w a b = of_bool (a = b)"
| "bvVal Ne w a b = of_bool (a \<noteq> b)"
| "bvVal Ult w a b = of_bool (a < b)"
| "bvVal Ule w a b = of_bool (a \<le> b)"
| "bvVal Ugt w a b = of_bool (a > b)"
| "bvVal Uge w a b = of_bool (a \<ge> b)"
| "bvVal Slt w a b = of_bool (sval w a < sval w b)"
| "bvVal Sle w a b = of_bool (sval w a \<le> sval w b)"
| "bvVal Sgt w a b = of_bool (sval w a > sval w b)"
| "bvVal Sge w a b = of_bool (sval w a \<ge> sval w b)"

definition bvOp :: "kind \<Rightarrow> nat \<Rightarrow> int \<Rightarrow> int \<Rightarrow> int option" where
  "bvOp k w a b = (if isDivKind k \<and> b = 0 then None else Some (bvVal k w a b))"

definition opWidth :: "kind \<Rightarrow> nat \<Rightarrow> nat" where
  "opWidth k w = (if isCmpKind k then 1 else w)"

lemma opWidth_pos [simp]: "0 < w \<Longrightarrow> 0 < opWidth k w"
  by (simp add: opWidth_def)

lemma bvVal_fits:
  assumes "fits w a" "fits w b" "0 < w"
  shows "fits (opWidth k w) (bvVal k w a b)"
  using assms by (cases k) (auto simp: opWidth_def isCmpKind_def)

lemma bvOp_fits:
  assumes "bvOp k w a b = Some v" "fits w a" "fits w b" "0 < w"
  shows "fits (opWidth k w) v"
  using assms bvVal_fits [of w a b k] by (auto simp: bvOp_def split: if_splits)

lemma bvOp_nondiv [simp]: "\<not> isDivKind k \<Longrightarrow> bvOp k w a b = Some (bvVal k w a b)"
  by (simp add: bvOp_def)

section \<open>The class ConstantExpr\<close>

datatype apint = APInt (bitWidth: nat) (apValue: int)

definition alloc :: "int \<Rightarrow> nat \<Rightarrow> apint" where
  "alloc v w = APInt w (v mod 2 ^ w)"

definition wf_const :: "apint \<Rightarrow> bool" where
  "wf_const c \<longleftrightarrow> 0 < bitWidth c \<and> fits (bitWidth c) (apValue c)"

definition isZero :: "apint \<Rightarrow> bool" where
  "isZero c \<longleftrightarrow> apValue c = 0"

text \<open>\<open>getLimitedValue()\<close> caps the value at \<open>2 ^ 64 - 1\<close>, so it is 1 exactly for the value 1.\<close>

definition getLimitedValue :: "apint \<Rightarrow> int" where
  "getLimitedValue c = min (apValue c) (2 ^ 64 - 1)"

definition isOne :: "apint \<Rightarrow> bool" where
  "isOne c \<longleftrightarrow> getLimitedValue c = 1"

definition isTrue :: "apint \<Rightarrow> bool" where
  "isTrue c \<longleftrightarrow> bitWidth c = 1 \<and> apValue c \<noteq> 0"

definition isFalse :: "apint \<Rightarrow> bool" where
  "isFalse c \<longleftrightarrow> bitWidth c = 1 \<and> apValue c = 0"

definition isAllOnes :: "apint \<Rightarrow> bool" where
  "isAllOnes c \<longleftrightarrow> apValue c = 2 ^ bitWidth c - 1"

text \<open>The unary operations: \<open>Concat\<close>, \<open>Extract\<close>, \<open>ZExt\<close>, \<open>SExt\<close>, \<open>Neg\<close>, \<open>Not\<close>.\<close>

definition CE_Concat :: "apint \<Rightarrow> apint \<Rightarrow> apint" where
  "CE_Concat l r =
     (let W = bitWidth l + bitWidth r
      in APInt W (((apValue l * 2 ^ bitWidth r) mod 2 ^ W) OR apValue r))"

definition CE_Extract :: "apint \<Rightarrow> nat \<Rightarrow> nat \<Rightarrow> apint" where
  "CE_Extract c off W =
     alloc ((sval (bitWidth c) (apValue c) div 2 ^ min off (bitWidth c)) mod 2 ^ bitWidth c) W"

definition CE_ZExt :: "apint \<Rightarrow> nat \<Rightarrow> apint" where
  "CE_ZExt c W = alloc (apValue c) W"

definition CE_SExt :: "apint \<Rightarrow> nat \<Rightarrow> apint" where
  "CE_SExt c W = alloc (sval (bitWidth c) (apValue c)) W"

definition CE_Neg :: "apint \<Rightarrow> apint" where
  "CE_Neg c = alloc (- apValue c) (bitWidth c)"

definition CE_Not :: "apint \<Rightarrow> apint" where
  "CE_Not c = alloc (NOT (apValue c)) (bitWidth c)"

text \<open>
  The binary operations and the comparisons of \<open>ConstantExpr\<close>; the width of the receiver is
  the width of the result, except for the comparisons, whose result has width 1.
\<close>

definition CE_op :: "kind \<Rightarrow> apint \<Rightarrow> apint \<Rightarrow> apint" where
  "CE_op k l r = APInt (opWidth k (bitWidth l)) (bvVal k (bitWidth l) (apValue l) (apValue r))"

text \<open>With the divisions: \<open>None\<close> where \<open>llvm::APInt\<close> rejects the zero divisor.\<close>

definition CE_binary :: "kind \<Rightarrow> apint \<Rightarrow> apint \<Rightarrow> apint option" where
  "CE_binary k l r = (if isDivKind k \<and> isZero r then None else Some (CE_op k l r))"

lemma wf_const_alloc [simp]: "0 < w \<Longrightarrow> wf_const (alloc v w)"
  by (simp add: wf_const_def alloc_def)

lemma bitWidth_alloc [simp]: "bitWidth (alloc v w) = w"
  by (simp add: alloc_def)

lemma apValue_alloc [simp]: "apValue (alloc v w) = v mod 2 ^ w"
  by (simp add: alloc_def)

lemma wf_const_CE_op:
  "wf_const l \<Longrightarrow> wf_const r \<Longrightarrow> bitWidth l = bitWidth r \<Longrightarrow> wf_const (CE_op k l r)"
  by (auto simp: wf_const_def CE_op_def intro: bvVal_fits)

lemma bitWidth_CE_op [simp]: "bitWidth (CE_op k l r) = opWidth k (bitWidth l)"
  by (simp add: CE_op_def)

lemma apValue_CE_op [simp]:
  "apValue (CE_op k l r) = bvVal k (bitWidth l) (apValue l) (apValue r)"
  by (simp add: CE_op_def)

end
