(* ===== verification/ExprModel.thy ===== *)
theory ExprModel
  imports ConstantOps "HOL-Library.Monad_Syntax"
begin

text \<open>
  The expression language of \<open>include/klee/Expr/Expr.h\<close>: arrays, update lists and the
  expression classes as one datatype, the width of an expression, its well-formedness (the
  assertions of the constructors), its value under an assignment of the array bytes, and the
  refinement order in which the rewriting constructors are proved sound.
\<close>

section \<open>Arrays and expressions\<close>

text \<open>
  An \<open>Array\<close> object; \<open>address\<close> is the identity of the object (arrays are compared by
  pointer). An array with no constant values is symbolic.
\<close>

record Array =
  address :: nat
  aname :: string
  asize :: nat
  adomain :: nat
  arange :: nat
  constantValues :: "apint list"

definition isSymbolicArray :: "Array \<Rightarrow> bool" where
  "isSymbolicArray A \<longleftrightarrow> constantValues A = []"

definition isConstantArray :: "Array \<Rightarrow> bool" where
  "isConstantArray A \<longleftrightarrow> \<not> isSymbolicArray A"

text \<open>
  The assertions of the constructor \<open>Array::Array\<close>; every byte has an index in the domain. The
  program creates arrays with the default domain of 32 bits, and the evaluators take the index
  as a 32-bit \<open>unsigned\<close>.
\<close>

definition wf_array :: "Array \<Rightarrow> bool" where
  "wf_array A \<longleftrightarrow>
     (isSymbolicArray A \<or> length (constantValues A) = asize A) \<and>
     0 < adomain A \<and> adomain A \<le> 32 \<and> 0 < arange A \<and> asize A \<le> 2 ^ adomain A \<and>
     (\<forall>c \<in> set (constantValues A). wf_const c \<and> bitWidth c = arange A)"

text \<open>
  The expression classes. The classes generated by \<open>ARITHMETIC_EXPR_CLASS\<close> and
  \<open>COMPARISON_EXPR_CLASS\<close> differ in their kind only and are one constructor. A read carries
  its update list: the root array and the updates, most recent first.
\<close>

datatype expr =
    ConstantExpr apint
  | NotOptimizedExpr expr
  | ReadExpr Array "(expr \<times> expr) list" expr
  | SelectExpr expr expr expr
  | ConcatExpr expr expr
  | ExtractExpr expr nat nat
  | ZExtExpr expr nat
  | SExtExpr expr nat
  | NotExpr expr
  | BinaryExpr kind expr expr

type_synonym UpdateList = "Array \<times> (expr \<times> expr) list"

abbreviation "AddExpr \<equiv> BinaryExpr Add"
abbreviation "SubExpr \<equiv> BinaryExpr Sub"
abbreviation "MulExpr \<equiv> BinaryExpr Mul"
abbreviation "AndExpr \<equiv> BinaryExpr And"
abbreviation "OrExpr \<equiv> BinaryExpr Or"
abbreviation "XorExpr \<equiv> BinaryExpr Xor"
abbreviation "EqExpr \<equiv> BinaryExpr Eq"

fun isConstantExpr :: "expr \<Rightarrow> bool" where
  "isConstantExpr (ConstantExpr _) = True"
| "isConstantExpr _ = False"

lemma isConstantExprE:
  assumes "isConstantExpr e" obtains c where "e = ConstantExpr c"
  using assms by (cases e) auto

lemma case_nonconst [simp]:
  "\<not> isConstantExpr e \<Longrightarrow>
     (case e of ConstantExpr c \<Rightarrow> f c | _ \<Rightarrow> d) = d"
  by (cases e) auto

fun getWidth :: "expr \<Rightarrow> nat" where
  "getWidth (ConstantExpr c) = bitWidth c"
| "getWidth (NotOptimizedExpr e) = getWidth e"
| "getWidth (ReadExpr A us i) = arange A"
| "getWidth (SelectExpr c t f) = getWidth t"
| "getWidth (ConcatExpr l r) = getWidth l + getWidth r"
| "getWidth (ExtractExpr e off w) = w"
| "getWidth (ZExtExpr e w) = w"
| "getWidth (SExtExpr e w) = w"
| "getWidth (NotExpr e) = getWidth e"
| "getWidth (BinaryExpr k l r) = opWidth k (getWidth l)"

fun getKids :: "expr \<Rightarrow> expr list" where
  "getKids (ConstantExpr c) = []"
| "getKids (NotOptimizedExpr e) = [e]"
| "getKids (ReadExpr A us i) = [i]"
| "getKids (SelectExpr c t f) = [c, t, f]"
| "getKids (ConcatExpr l r) = [l, r]"
| "getKids (ExtractExpr e off w) = [e]"
| "getKids (ZExtExpr e w) = [e]"
| "getKids (SExtExpr e w) = [e]"
| "getKids (NotExpr e) = [e]"
| "getKids (BinaryExpr k l r) = [l, r]"

text \<open>
  Well-formed expressions: the type assertions of the constructors and of
  \<open>UpdateList::extend\<close>, on every subexpression.
\<close>

fun wf_expr :: "expr \<Rightarrow> bool" where
  "wf_expr (ConstantExpr c) = wf_const c"
| "wf_expr (NotOptimizedExpr e) = wf_expr e"
| "wf_expr (ReadExpr A us i) =
     (wf_array A \<and> wf_expr i \<and> getWidth i = adomain A \<and>
      (\<forall>(ui, uv) \<in> set us. wf_expr ui \<and> wf_expr uv \<and> getWidth ui = adomain A \<and> getWidth uv = arange A))"
| "wf_expr (SelectExpr c t f) =
     (wf_expr c \<and> wf_expr t \<and> wf_expr f \<and> getWidth c = 1 \<and> getWidth t = getWidth f)"
| "wf_expr (ConcatExpr l r) = (wf_expr l \<and> wf_expr r)"
| "wf_expr (ExtractExpr e off w) = (wf_expr e \<and> 0 < w \<and> off + w \<le> getWidth e)"
| "wf_expr (ZExtExpr e w) = (wf_expr e \<and> getWidth e \<le> w)"
| "wf_expr (SExtExpr e w) = (wf_expr e \<and> getWidth e \<le> w)"
| "wf_expr (NotExpr e) = wf_expr e"
| "wf_expr (BinaryExpr k l r) = (wf_expr l \<and> wf_expr r \<and> getWidth l = getWidth r)"

lemma wf_expr_width_pos [simp]: "wf_expr e \<Longrightarrow> 0 < getWidth e"
  by (induction e rule: wf_expr.induct) (auto simp: wf_const_def wf_array_def)

section \<open>Values of expressions\<close>

text \<open>
  An environment gives the initial bytes of the arrays; \<open>None\<close> is a byte with no value. An
  expression has a value when all the bytes it needs do and no division by zero occurs.
\<close>

type_synonym env = "Array \<Rightarrow> int \<Rightarrow> int option"

definition initialValue :: "env \<Rightarrow> Array \<Rightarrow> int \<Rightarrow> int option" where
  "initialValue \<sigma> A i =
     (if isConstantArray A \<and> i < int (asize A) then Some (apValue (constantValues A ! nat i))
      else \<sigma> A i)"

function (sequential) sem :: "env \<Rightarrow> expr \<Rightarrow> int option"
  and semRead :: "env \<Rightarrow> Array \<Rightarrow> (expr \<times> expr) list \<Rightarrow> int \<Rightarrow> int option" where
  "sem \<sigma> (ConstantExpr c) = Some (apValue c)"
| "sem \<sigma> (NotOptimizedExpr e) = sem \<sigma> e"
| "sem \<sigma> (ReadExpr A us ie) = do { i \<leftarrow> sem \<sigma> ie; semRead \<sigma> A us i }"
| "sem \<sigma> (SelectExpr ce te fe) =
     do { c \<leftarrow> sem \<sigma> ce; t \<leftarrow> sem \<sigma> te; f \<leftarrow> sem \<sigma> fe; Some (if c \<noteq> 0 then t else f) }"
| "sem \<sigma> (ConcatExpr le re) =
     do { l \<leftarrow> sem \<sigma> le; r \<leftarrow> sem \<sigma> re; Some (l * 2 ^ getWidth re + r) }"
| "sem \<sigma> (ExtractExpr e off w) = do { v \<leftarrow> sem \<sigma> e; Some ((v div 2 ^ off) mod 2 ^ w) }"
| "sem \<sigma> (ZExtExpr e w) = do { v \<leftarrow> sem \<sigma> e; Some (v mod 2 ^ w) }"
| "sem \<sigma> (SExtExpr e w) = do { v \<leftarrow> sem \<sigma> e; Some (sval (getWidth e) v mod 2 ^ w) }"
| "sem \<sigma> (NotExpr e) = do { v \<leftarrow> sem \<sigma> e; Some (2 ^ getWidth e - 1 - v) }"
| "sem \<sigma> (BinaryExpr k le re) =
     do { l \<leftarrow> sem \<sigma> le; r \<leftarrow> sem \<sigma> re; bvOp k (getWidth le) l r }"
| "semRead \<sigma> A [] i = initialValue \<sigma> A i"
| "semRead \<sigma> A ((ui, uv) # us) i =
     do { k \<leftarrow> sem \<sigma> ui; if k = i then sem \<sigma> uv else semRead \<sigma> A us i }"
  by pat_completeness auto
termination
  by (relation "measure (\<lambda>x. case x of Inl (\<sigma>, e) \<Rightarrow> size e
      | Inr (\<sigma>, A, us, i) \<Rightarrow> size_list (size_prod size size) us)") auto

text \<open>
  Environments that respect the ranges of the arrays. With the option \<open>--const-array-opt\<close>
  (\<open>co\<close>), reads beyond the end of a constant array have no value: that rewriting assumes
  accesses to be within bounds.
\<close>

definition wf_env :: "bool \<Rightarrow> env \<Rightarrow> bool" where
  "wf_env co \<sigma> \<longleftrightarrow>
     (\<forall>A i v. \<sigma> A i = Some v \<longrightarrow> fits (arange A) v) \<and>
     (co \<longrightarrow> (\<forall>A i. isConstantArray A \<longrightarrow> int (asize A) \<le> i \<longrightarrow> \<sigma> A i = None))"


lemma initialValue_fits:
  assumes "wf_array A" "wf_env co \<sigma>" "0 \<le> i" "initialValue \<sigma> A i = Some v"
  shows "fits (arange A) v"
proof (cases "isConstantArray A \<and> i < int (asize A)")
  case True
  with assms have "constantValues A ! nat i \<in> set (constantValues A)"
    by (auto simp: wf_array_def isConstantArray_def)
  with assms True show ?thesis
    by (auto simp: initialValue_def wf_array_def wf_const_def)
next
  case False
  with assms show ?thesis
    by (auto simp: initialValue_def wf_env_def)
qed

lemma fits_concat:
  assumes "fits a l" "fits b r"
  shows "fits (a + b) (l * 2 ^ b + r)"
proof -
  have "l * 2 ^ b + r \<le> (2 ^ a - 1) * 2 ^ b + r"
    using assms by (auto simp: fits_def)
  also have "\<dots> < 2 ^ a * 2 ^ b"
    using assms by (simp add: fits_def algebra_simps)
  finally show ?thesis
    using assms by (auto simp: fits_def power_add)
qed

lemma fits_not: "fits w v \<Longrightarrow> fits w (2 ^ w - 1 - v)"
  by (auto simp: fits_def)

text \<open>The value of a well-formed expression fits in its width.\<close>

lemma sem_fits:
  "sem \<sigma> e = Some v \<Longrightarrow> wf_env co \<sigma> \<Longrightarrow> wf_expr e \<Longrightarrow> fits (getWidth e) v"
  "semRead \<sigma> A us i = Some v \<Longrightarrow> wf_env co \<sigma> \<Longrightarrow> wf_array A \<Longrightarrow> 0 \<le> i \<Longrightarrow>
     \<forall>(ui, uv) \<in> set us. wf_expr uv \<and> wf_expr ui \<and> getWidth uv = arange A \<Longrightarrow> fits (arange A) v"
proof (induction \<sigma> e and \<sigma> A us i arbitrary: v and v rule: sem_semRead.induct)
  case (1 \<sigma> c)
  then show ?case by (simp add: wf_const_def)
next
  case (3 \<sigma> A us ie)
  then obtain i where i: "sem \<sigma> ie = Some i" "semRead \<sigma> A us i = Some v"
    by (auto simp: Option.bind_eq_Some_conv)
  with 3 have "fits (getWidth ie) i" by auto
  with 3 i show ?case by (auto simp: case_prod_beta)
next
  case (5 \<sigma> le re)
  then show ?case by (auto simp: Option.bind_eq_Some_conv intro!: fits_concat)
next
  case (9 \<sigma> e)
  then show ?case by (auto simp: Option.bind_eq_Some_conv intro!: fits_not)
next
  case (10 \<sigma> k le re)
  then show ?case by (auto simp: Option.bind_eq_Some_conv intro: bvOp_fits)
next
  case (11 \<sigma> A i)
  then show ?case by (auto intro: initialValue_fits)
next
  case (12 \<sigma> A ui uv us i)
  then show ?case by (auto simp: Option.bind_eq_Some_conv split: if_splits)
qed (auto simp: Option.bind_eq_Some_conv)

section \<open>Refinement\<close>

text \<open>
  \<open>e'\<close> refines \<open>e\<close>: if \<open>e\<close> is well-formed, so is \<open>e'\<close>, with the same width, and \<open>e'\<close>
  has the value of \<open>e\<close> in every environment in which \<open>e\<close> has one.
\<close>

definition refines :: "bool \<Rightarrow> expr \<Rightarrow> expr \<Rightarrow> bool" where
  "refines co e e' \<longleftrightarrow>
     (wf_expr e \<longrightarrow>
        wf_expr e' \<and> getWidth e' = getWidth e \<and>
        (\<forall>\<sigma> v. wf_env co \<sigma> \<longrightarrow> sem \<sigma> e = Some v \<longrightarrow> sem \<sigma> e' = Some v))"

lemma refinesI:
  assumes "wf_expr e \<Longrightarrow> wf_expr e'" "wf_expr e \<Longrightarrow> getWidth e' = getWidth e"
    and "\<And>\<sigma> v. wf_expr e \<Longrightarrow> wf_env co \<sigma> \<Longrightarrow> sem \<sigma> e = Some v \<Longrightarrow> sem \<sigma> e' = Some v"
  shows "refines co e e'"
  using assms by (auto simp: refines_def)

lemma refinesD:
  assumes "refines co e e'" "wf_expr e"
  shows "wf_expr e'" "getWidth e' = getWidth e"
    "wf_env co \<sigma> \<Longrightarrow> sem \<sigma> e = Some v \<Longrightarrow> sem \<sigma> e' = Some v"
  using assms by (auto simp: refines_def)

lemma refines_refl [simp, intro]: "refines co e e"
  by (simp add: refines_def)

lemma refines_trans [trans]: "refines co a b \<Longrightarrow> refines co b c \<Longrightarrow> refines co a c"
  by (simp add: refines_def)

lemma refines_binary:
  "refines co l l' \<Longrightarrow> refines co r r' \<Longrightarrow> refines co (BinaryExpr k l r) (BinaryExpr k l' r')"
  by (rule refinesI) (auto simp: refines_def Option.bind_eq_Some_conv)

lemma refines_concat:
  "refines co l l' \<Longrightarrow> refines co r r' \<Longrightarrow> refines co (ConcatExpr l r) (ConcatExpr l' r')"
  by (rule refinesI) (fastforce simp: refines_def Option.bind_eq_Some_conv)+

lemma refines_extract:
  "refines co e e' \<Longrightarrow> refines co (ExtractExpr e off w) (ExtractExpr e' off w)"
  by (rule refinesI) (auto simp: refines_def Option.bind_eq_Some_conv)

lemma refines_zext: "refines co e e' \<Longrightarrow> refines co (ZExtExpr e w) (ZExtExpr e' w)"
  by (rule refinesI) (auto simp: refines_def Option.bind_eq_Some_conv)

lemma refines_sext: "refines co e e' \<Longrightarrow> refines co (SExtExpr e w) (SExtExpr e' w)"
  by (rule refinesI) (auto simp: refines_def Option.bind_eq_Some_conv)

lemma refines_not: "refines co e e' \<Longrightarrow> refines co (NotExpr e) (NotExpr e')"
  by (rule refinesI) (auto simp: refines_def Option.bind_eq_Some_conv)

lemma refines_notOptimized:
  "refines co e e' \<Longrightarrow> refines co (NotOptimizedExpr e) (NotOptimizedExpr e')"
  by (rule refinesI) (auto simp: refines_def)

lemma refines_select:
  "refines co c c' \<Longrightarrow> refines co t t' \<Longrightarrow> refines co f f' \<Longrightarrow>
   refines co (SelectExpr c t f) (SelectExpr c' t' f')"
  by (rule refinesI) (fastforce simp: refines_def Option.bind_eq_Some_conv)+

lemma refines_read_index:
  "refines co i i' \<Longrightarrow> refines co (ReadExpr A us i) (ReadExpr A us i')"
  by (rule refinesI) (fastforce simp: refines_def Option.bind_eq_Some_conv)+

lemmas refines_congs = refines_binary refines_concat refines_extract refines_zext refines_sext
  refines_not refines_notOptimized refines_select refines_read_index

end
