(* ===== verification/ExprCreate.thy ===== *)
theory ExprCreate
  imports ExprModel
begin

text \<open>
  The \<open>create\<close> functions of \<open>lib/Expr/Expr.cpp\<close>: each builds an expression of its kind in
  canonical form, folding constants and rewriting on the way. A constructor \<open>alloc\<close> of the
  source is the constructor of the datatype. The flag \<open>co\<close> is the command line option
  \<open>--const-array-opt\<close>. The mutual calls \<open>X::create(constant, e)\<close> and \<open>X::create(e, constant)\<close>
  of the source are functions of their own here (suffixes \<open>C\<close> and \<open>K\<close>), so that every
  recursion descends into a subexpression.
\<close>

section \<open>The macros BCREATE\_R, CMPCREATE\_T, BCREATE and CMPCREATE\<close>

text \<open>
  The body the macros \<open>BCREATE_R\<close> and \<open>CMPCREATE_T\<close> give to \<open>X::create\<close>: two constants are
  folded, one constant operand goes to the partial constructors.
\<close>

definition bcreate_R ::
    "kind \<Rightarrow> (apint \<Rightarrow> expr \<Rightarrow> expr) \<Rightarrow> (expr \<Rightarrow> apint \<Rightarrow> expr) \<Rightarrow> (expr \<Rightarrow> expr \<Rightarrow> expr) \<Rightarrow>
     expr \<Rightarrow> expr \<Rightarrow> expr" where
  "bcreate_R k partialR partialL createNN l r =
     (case l of
        ConstantExpr cl \<Rightarrow>
          (case r of
             ConstantExpr cr \<Rightarrow> ConstantExpr (CE_op k cl cr)
           | _ \<Rightarrow> partialR cl r)
      | _ \<Rightarrow>
          (case r of
             ConstantExpr cr \<Rightarrow> partialL l cr
           | _ \<Rightarrow> createNN l r))"

text \<open>The body of \<open>BCREATE\<close> and \<open>CMPCREATE\<close>: only two constants are treated apart.\<close>

definition bcreate :: "kind \<Rightarrow> (expr \<Rightarrow> expr \<Rightarrow> expr) \<Rightarrow> expr \<Rightarrow> expr \<Rightarrow> expr" where
  "bcreate k createNN l r =
     (case l of
        ConstantExpr cl \<Rightarrow>
          (case r of ConstantExpr cr \<Rightarrow> ConstantExpr (CE_op k cl cr) | _ \<Rightarrow> createNN l r)
      | _ \<Rightarrow> createNN l r)"

section \<open>Bitwise connectives\<close>

definition AndExpr_createPartial :: "expr \<Rightarrow> apint \<Rightarrow> expr" where
  "AndExpr_createPartial l cr =
     (if isAllOnes cr then l
      else if isZero cr then ConstantExpr cr
      else AndExpr l (ConstantExpr cr))"

definition AndExpr_createPartialR :: "apint \<Rightarrow> expr \<Rightarrow> expr" where
  "AndExpr_createPartialR cl r = AndExpr_createPartial r cl"

definition AndExpr_create :: "expr \<Rightarrow> expr \<Rightarrow> expr" where
  "AndExpr_create = bcreate_R And AndExpr_createPartialR AndExpr_createPartial AndExpr"

definition OrExpr_createPartial :: "expr \<Rightarrow> apint \<Rightarrow> expr" where
  "OrExpr_createPartial l cr =
     (if isAllOnes cr then ConstantExpr cr
      else if isZero cr then l
      else OrExpr l (ConstantExpr cr))"

definition OrExpr_createPartialR :: "apint \<Rightarrow> expr \<Rightarrow> expr" where
  "OrExpr_createPartialR cl r = OrExpr_createPartial r cl"

definition OrExpr_create :: "expr \<Rightarrow> expr \<Rightarrow> expr" where
  "OrExpr_create = bcreate_R Or OrExpr_createPartialR OrExpr_createPartial OrExpr"

section \<open>Equality\<close>

text \<open>\<open>EqExpr_create\<close> of the source: both operands are not constant, or no rewriting applies.\<close>

definition EqExpr_createNN :: "expr \<Rightarrow> expr \<Rightarrow> expr" where
  "EqExpr_createNN l r = (if l = r then ConstantExpr (alloc 1 1) else EqExpr l r)"

text \<open>
  The loop of \<open>TryConstArrayOpt\<close> over the constant values; \<open>mkEq i\<close> is
  \<open>EqExpr::create(rd->index, i)\<close> and \<open>dflt\<close> the equality returned after more than 100 matches.
\<close>

fun TryConstArrayOpt_loop ::
    "(int \<Rightarrow> expr) \<Rightarrow> expr \<Rightarrow> apint \<Rightarrow> apint list \<Rightarrow> int \<Rightarrow> nat \<Rightarrow> expr \<Rightarrow> expr" where
  "TryConstArrayOpt_loop mkEq dflt cl [] i numMatches res = res"
| "TryConstArrayOpt_loop mkEq dflt cl (v # vs) i numMatches res =
     (if cl = v
      then if Suc numMatches > 100 then dflt
           else TryConstArrayOpt_loop mkEq dflt cl vs (i + 1) (Suc numMatches)
                  (OrExpr_create res (mkEq i))
      else TryConstArrayOpt_loop mkEq dflt cl vs (i + 1) numMatches res)"

definition TryConstArrayOpt ::
    "(int \<Rightarrow> expr) \<Rightarrow> apint \<Rightarrow> Array \<Rightarrow> (expr \<times> expr) list \<Rightarrow> expr \<Rightarrow> expr" where
  "TryConstArrayOpt mkEq cl A us i =
     (let dflt = EqExpr_createNN (ConstantExpr cl) (ReadExpr A us i)
      in if isSymbolicArray A \<or> us \<noteq> [] then dflt
         else TryConstArrayOpt_loop mkEq dflt cl (constantValues A) 0 0 (ConstantExpr (alloc 0 1)))"

text \<open>A binary expression of kind \<open>k\<close> whose left operand is a constant.\<close>

fun constLeft :: "kind \<Rightarrow> expr \<Rightarrow> (apint \<times> expr) option" where
  "constLeft k (BinaryExpr k' (ConstantExpr c) e) = (if k = k' then Some (c, e) else None)"
| "constLeft k _ = None"

lemma constLeft_SomeD: "constLeft k e = Some (c, b) \<Longrightarrow> e = BinaryExpr k (ConstantExpr c) b"
  by (cases "(k, e)" rule: constLeft.cases) (auto split: if_splits)

lemma constLeft_size: "constLeft k e = Some (c, b) \<Longrightarrow> size b < size e"
  by (auto dest: constLeft_SomeD)

text \<open>
  \<open>EqExpr_createPartialR cl r\<close> builds \<open>cl == r\<close> for a constant \<open>cl\<close>;
  \<open>EqExpr_createK e c\<close> is \<open>EqExpr::create(e, c)\<close> for a constant \<open>c\<close>.
\<close>

function EqExpr_createPartialR :: "bool \<Rightarrow> apint \<Rightarrow> expr \<Rightarrow> expr"
  and EqExpr_createK :: "bool \<Rightarrow> expr \<Rightarrow> apint \<Rightarrow> expr" where
  "EqExpr_createPartialR co cl r =
     (let width = bitWidth cl; dflt = EqExpr_createNN (ConstantExpr cl) r
      in if width = 1 then
           if isTrue cl then r
           else
             (case r of
                BinaryExpr k a b \<Rightarrow>
                  if k = Eq then
                    (case constLeft Eq r of
                       Some (CE, right) \<Rightarrow> if bitWidth CE = 1 \<and> isFalse CE then right else dflt
                     | None \<Rightarrow> dflt)
                  else if k = Or then
                    AndExpr_create (EqExpr_createK co a (alloc 0 (getWidth a)))
                                   (EqExpr_createK co b (alloc 0 (getWidth b)))
                  else dflt
              | _ \<Rightarrow> dflt)
         else
           (case r of
              SExtExpr src w \<Rightarrow>
                (let trunc = CE_ZExt cl (getWidth src)
                 in if CE_SExt trunc width = cl then EqExpr_createK co src trunc
                    else ConstantExpr (alloc 0 1))
            | ZExtExpr src w \<Rightarrow>
                (let trunc = CE_ZExt cl (getWidth src)
                 in if CE_ZExt trunc width = cl then EqExpr_createK co src trunc
                    else ConstantExpr (alloc 0 1))
            | BinaryExpr k a b \<Rightarrow>
                (if k = Add then
                   (case a of
                      ConstantExpr c1 \<Rightarrow> EqExpr_createPartialR co (CE_op Sub cl c1) b
                    | _ \<Rightarrow> dflt)
                 else if k = Sub then
                   (case a of
                      ConstantExpr c1 \<Rightarrow> EqExpr_createPartialR co (CE_op Sub c1 cl) b
                    | _ \<Rightarrow> dflt)
                 else dflt)
            | ReadExpr A us i \<Rightarrow>
                if co then
                  TryConstArrayOpt (\<lambda>n. EqExpr_createK co i (alloc n (getWidth i))) cl A us i
                else dflt
            | _ \<Rightarrow> dflt))"
| "EqExpr_createK co e c =
     (case e of
        ConstantExpr c' \<Rightarrow> ConstantExpr (CE_op Eq c' c)
      | _ \<Rightarrow> EqExpr_createPartialR co c e)"
  by pat_completeness auto
termination
  by (relation "measure (\<lambda>x. case x of Inl (co, cl, r) \<Rightarrow> 2 * size r
      | Inr (co, e, c) \<Rightarrow> 2 * size e + 1)") auto

declare EqExpr_createPartialR.simps [simp del] EqExpr_createK.simps [simp del]

definition EqExpr_create :: "bool \<Rightarrow> expr \<Rightarrow> expr \<Rightarrow> expr" where
  "EqExpr_create co =
     bcreate_R Eq (EqExpr_createPartialR co) (\<lambda>l cr. EqExpr_createPartialR co cr l) EqExpr_createNN"

lemma EqExpr_create_K: "EqExpr_create co e (ConstantExpr c) = EqExpr_createK co e c"
  by (cases e) (auto simp: EqExpr_create_def bcreate_R_def EqExpr_createK.simps)

definition createIsZero :: "bool \<Rightarrow> expr \<Rightarrow> expr" where
  "createIsZero co e = EqExpr_create co e (ConstantExpr (alloc 0 (getWidth e)))"

definition createImplies :: "bool \<Rightarrow> expr \<Rightarrow> expr \<Rightarrow> expr" where
  "createImplies co hyp conc = OrExpr_create (createIsZero co hyp) conc"

definition NeExpr_create :: "bool \<Rightarrow> expr \<Rightarrow> expr \<Rightarrow> expr" where
  "NeExpr_create co l r = EqExpr_create co (ConstantExpr (alloc 0 1)) (EqExpr_create co l r)"

section \<open>Exclusive or, addition and subtraction\<close>

definition XorExpr_createPartialR :: "bool \<Rightarrow> apint \<Rightarrow> expr \<Rightarrow> expr" where
  "XorExpr_createPartialR co cl r =
     (if isZero cl then r
      else if bitWidth cl = 1 then EqExpr_createPartialR co (alloc 0 1) r
      else XorExpr (ConstantExpr cl) r)"

definition XorExpr_createPartial :: "bool \<Rightarrow> expr \<Rightarrow> apint \<Rightarrow> expr" where
  "XorExpr_createPartial co l cr = XorExpr_createPartialR co cr l"

definition XorExpr_create :: "bool \<Rightarrow> expr \<Rightarrow> expr \<Rightarrow> expr" where
  "XorExpr_create co = bcreate_R Xor (XorExpr_createPartialR co) (XorExpr_createPartial co) XorExpr"

text \<open>
  \<open>AddExpr_createC cl r\<close> is \<open>AddExpr::create(cl, r)\<close> for a constant \<open>cl\<close>, and likewise for
  \<open>Sub\<close>.
\<close>

function AddExpr_createPartialR :: "bool \<Rightarrow> apint \<Rightarrow> expr \<Rightarrow> expr"
  and SubExpr_createPartialR :: "bool \<Rightarrow> apint \<Rightarrow> expr \<Rightarrow> expr"
  and AddExpr_createC :: "bool \<Rightarrow> apint \<Rightarrow> expr \<Rightarrow> expr"
  and SubExpr_createC :: "bool \<Rightarrow> apint \<Rightarrow> expr \<Rightarrow> expr" where
  "AddExpr_createPartialR co cl r =
     (if bitWidth cl = 1 then XorExpr_createPartialR co cl r
      else if isZero cl then r
      else
        (case constLeft Add r of
           Some (B, c) \<Rightarrow> AddExpr_createC co (CE_op Add cl B) c
         | None \<Rightarrow>
             (case constLeft Sub r of
                Some (B, c) \<Rightarrow> SubExpr_createC co (CE_op Add cl B) c
              | None \<Rightarrow> AddExpr (ConstantExpr cl) r)))"
| "SubExpr_createPartialR co cl r =
     (if bitWidth cl = 1 then XorExpr_createPartialR co cl r
      else
        (case constLeft Add r of
           Some (B, c) \<Rightarrow> SubExpr_createC co (CE_op Sub cl B) c
         | None \<Rightarrow>
             (case constLeft Sub r of
                Some (B, c) \<Rightarrow> AddExpr_createC co (CE_op Sub cl B) c
              | None \<Rightarrow> SubExpr (ConstantExpr cl) r)))"
| "AddExpr_createC co cl r =
     (case r of
        ConstantExpr cr \<Rightarrow> ConstantExpr (CE_op Add cl cr)
      | _ \<Rightarrow> AddExpr_createPartialR co cl r)"
| "SubExpr_createC co cl r =
     (case r of
        ConstantExpr cr \<Rightarrow> ConstantExpr (CE_op Sub cl cr)
      | _ \<Rightarrow> SubExpr_createPartialR co cl r)"
  by pat_completeness auto
termination
  by (relation "measure (\<lambda>x. case x of
        Inl (Inl (co, cl, r)) \<Rightarrow> 2 * size r | Inl (Inr (co, cl, r)) \<Rightarrow> 2 * size r
      | Inr (Inl (co, cl, r)) \<Rightarrow> 2 * size r + 1 | Inr (Inr (co, cl, r)) \<Rightarrow> 2 * size r + 1)")
     (auto dest: constLeft_size)

declare AddExpr_createPartialR.simps [simp del] SubExpr_createPartialR.simps [simp del]
declare AddExpr_createC.simps [simp del] SubExpr_createC.simps [simp del]

definition AddExpr_createPartial :: "bool \<Rightarrow> expr \<Rightarrow> apint \<Rightarrow> expr" where
  "AddExpr_createPartial co l cr = AddExpr_createPartialR co cr l"

definition SubExpr_createPartial :: "bool \<Rightarrow> expr \<Rightarrow> apint \<Rightarrow> expr" where
  "SubExpr_createPartial co l cr =
     AddExpr_createPartial co l (CE_op Sub (alloc 0 (bitWidth cr)) cr)"

text \<open>\<open>SubExpr_createK l cr\<close> is \<open>SubExpr::create(l, cr)\<close> for a constant \<open>cr\<close>.\<close>

definition SubExpr_createK :: "bool \<Rightarrow> expr \<Rightarrow> apint \<Rightarrow> expr" where
  "SubExpr_createK co l cr =
     (case l of
        ConstantExpr cl \<Rightarrow> ConstantExpr (CE_op Sub cl cr)
      | _ \<Rightarrow> SubExpr_createPartial co l cr)"

function AddExpr_create :: "bool \<Rightarrow> expr \<Rightarrow> expr \<Rightarrow> expr"
  and SubExpr_create :: "bool \<Rightarrow> expr \<Rightarrow> expr \<Rightarrow> expr"
  and AddExpr_createNN :: "bool \<Rightarrow> expr \<Rightarrow> expr \<Rightarrow> expr"
  and SubExpr_createNN :: "bool \<Rightarrow> expr \<Rightarrow> expr \<Rightarrow> expr" where
  "AddExpr_create co l r =
     bcreate_R Add (AddExpr_createPartialR co) (AddExpr_createPartial co)
       (\<lambda>_ _. AddExpr_createNN co l r) l r"
| "SubExpr_create co l r =
     bcreate_R Sub (SubExpr_createPartialR co) (SubExpr_createPartial co)
       (\<lambda>_ _. SubExpr_createNN co l r) l r"
| "AddExpr_createNN co l r =
     (if getWidth l = 1 then XorExpr l r
      else
        (case constLeft Add l of
           Some (k, a) \<Rightarrow> AddExpr_createC co k (AddExpr_create co a r)
         | None \<Rightarrow>
        (case constLeft Sub l of
           Some (k, a) \<Rightarrow> AddExpr_createC co k (SubExpr_create co r a)
         | None \<Rightarrow>
        (case constLeft Add r of
           Some (k, b) \<Rightarrow> AddExpr_createC co k (AddExpr_create co l b)
         | None \<Rightarrow>
        (case constLeft Sub r of
           Some (k, b) \<Rightarrow> AddExpr_createC co k (SubExpr_create co l b)
         | None \<Rightarrow> AddExpr l r)))))"
| "SubExpr_createNN co l r =
     (if getWidth l = 1 then XorExpr l r
      else if l = r then ConstantExpr (alloc 0 (getWidth l))
      else
        (case constLeft Add l of
           Some (k, a) \<Rightarrow> AddExpr_createC co k (SubExpr_create co a r)
         | None \<Rightarrow>
        (case constLeft Sub l of
           Some (k, a) \<Rightarrow> SubExpr_createC co k (AddExpr_create co a r)
         | None \<Rightarrow>
        (case constLeft Add r of
           Some (k, b) \<Rightarrow> SubExpr_createK co (SubExpr_create co l b) k
         | None \<Rightarrow>
        (case constLeft Sub r of
           Some (k, b) \<Rightarrow> SubExpr_createK co (AddExpr_create co l b) k
         | None \<Rightarrow> SubExpr l r)))))"
  by pat_completeness auto
termination
  by (relation "measure (\<lambda>x. case x of
        Inl (Inl (co, l, r)) \<Rightarrow> 2 * (size l + size r) + 1
      | Inl (Inr (co, l, r)) \<Rightarrow> 2 * (size l + size r) + 1
      | Inr (Inl (co, l, r)) \<Rightarrow> 2 * (size l + size r)
      | Inr (Inr (co, l, r)) \<Rightarrow> 2 * (size l + size r))")
     (auto dest!: constLeft_size)

declare AddExpr_create.simps [simp del] SubExpr_create.simps [simp del]
declare AddExpr_createNN.simps [simp del] SubExpr_createNN.simps [simp del]

section \<open>Multiplication, division, shifts\<close>

definition MulExpr_createPartialR :: "apint \<Rightarrow> expr \<Rightarrow> expr" where
  "MulExpr_createPartialR cl r =
     (if bitWidth cl = 1 then AndExpr_createPartialR cl r
      else if isOne cl then r
      else if isZero cl then ConstantExpr cl
      else MulExpr (ConstantExpr cl) r)"

definition MulExpr_createPartial :: "expr \<Rightarrow> apint \<Rightarrow> expr" where
  "MulExpr_createPartial l cr = MulExpr_createPartialR cr l"

definition MulExpr_createNN :: "expr \<Rightarrow> expr \<Rightarrow> expr" where
  "MulExpr_createNN l r = (if getWidth l = 1 then AndExpr l r else MulExpr l r)"

definition MulExpr_create :: "expr \<Rightarrow> expr \<Rightarrow> expr" where
  "MulExpr_create = bcreate_R Mul MulExpr_createPartialR MulExpr_createPartial MulExpr_createNN"

text \<open>
  \<open>UDivExpr_create\<close>, \<open>SDivExpr_create\<close>, \<open>URemExpr_create\<close> and \<open>SRemExpr_create\<close>: at width 1
  the divisor must be 1.
\<close>

definition DivExpr_createNN :: "kind \<Rightarrow> expr \<Rightarrow> expr \<Rightarrow> expr" where
  "DivExpr_createNN k l r =
     (if getWidth l = 1 then (if k = UDiv \<or> k = SDiv then l else ConstantExpr (alloc 0 1))
      else BinaryExpr k l r)"

text \<open>\<open>BCREATE\<close> for the divisions; \<open>None\<close> is the rejected division by a constant zero.\<close>

definition DivExpr_create :: "kind \<Rightarrow> expr \<Rightarrow> expr \<Rightarrow> expr option" where
  "DivExpr_create k l r =
     (case l of
        ConstantExpr cl \<Rightarrow>
          (case r of
             ConstantExpr cr \<Rightarrow> map_option ConstantExpr (CE_binary k cl cr)
           | _ \<Rightarrow> Some (DivExpr_createNN k l r))
      | _ \<Rightarrow> Some (DivExpr_createNN k l r))"

definition ShlExpr_createNN :: "bool \<Rightarrow> expr \<Rightarrow> expr \<Rightarrow> expr" where
  "ShlExpr_createNN co l r =
     (if getWidth l = 1 then AndExpr_create l (createIsZero co r) else BinaryExpr Shl l r)"

definition LShrExpr_createNN :: "bool \<Rightarrow> expr \<Rightarrow> expr \<Rightarrow> expr" where
  "LShrExpr_createNN co l r =
     (if getWidth l = 1 then AndExpr_create l (createIsZero co r) else BinaryExpr LShr l r)"

definition AShrExpr_createNN :: "expr \<Rightarrow> expr \<Rightarrow> expr" where
  "AShrExpr_createNN l r = (if getWidth l = 1 then l else BinaryExpr AShr l r)"

definition ShlExpr_create :: "bool \<Rightarrow> expr \<Rightarrow> expr \<Rightarrow> expr" where
  "ShlExpr_create co = bcreate Shl (ShlExpr_createNN co)"

definition LShrExpr_create :: "bool \<Rightarrow> expr \<Rightarrow> expr \<Rightarrow> expr" where
  "LShrExpr_create co = bcreate LShr (LShrExpr_createNN co)"

definition AShrExpr_create :: "expr \<Rightarrow> expr \<Rightarrow> expr" where
  "AShrExpr_create = bcreate AShr AShrExpr_createNN"

section \<open>Order comparisons\<close>

definition UltExpr_createNN :: "bool \<Rightarrow> expr \<Rightarrow> expr \<Rightarrow> expr" where
  "UltExpr_createNN co l r =
     (if getWidth l = 1 then AndExpr_create (createIsZero co l) r else BinaryExpr Ult l r)"

definition UleExpr_createNN :: "bool \<Rightarrow> expr \<Rightarrow> expr \<Rightarrow> expr" where
  "UleExpr_createNN co l r =
     (if getWidth l = 1 then OrExpr_create (createIsZero co l) r else BinaryExpr Ule l r)"

definition SltExpr_createNN :: "bool \<Rightarrow> expr \<Rightarrow> expr \<Rightarrow> expr" where
  "SltExpr_createNN co l r =
     (if getWidth l = 1 then AndExpr_create l (createIsZero co r) else BinaryExpr Slt l r)"

definition SleExpr_createNN :: "bool \<Rightarrow> expr \<Rightarrow> expr \<Rightarrow> expr" where
  "SleExpr_createNN co l r =
     (if getWidth l = 1 then OrExpr_create l (createIsZero co r) else BinaryExpr Sle l r)"

definition UltExpr_create :: "bool \<Rightarrow> expr \<Rightarrow> expr \<Rightarrow> expr" where
  "UltExpr_create co = bcreate Ult (UltExpr_createNN co)"

definition UleExpr_create :: "bool \<Rightarrow> expr \<Rightarrow> expr \<Rightarrow> expr" where
  "UleExpr_create co = bcreate Ule (UleExpr_createNN co)"

definition SltExpr_create :: "bool \<Rightarrow> expr \<Rightarrow> expr \<Rightarrow> expr" where
  "SltExpr_create co = bcreate Slt (SltExpr_createNN co)"

definition SleExpr_create :: "bool \<Rightarrow> expr \<Rightarrow> expr \<Rightarrow> expr" where
  "SleExpr_create co = bcreate Sle (SleExpr_createNN co)"

definition UgtExpr_create :: "bool \<Rightarrow> expr \<Rightarrow> expr \<Rightarrow> expr" where
  "UgtExpr_create co l r = UltExpr_create co r l"

definition UgeExpr_create :: "bool \<Rightarrow> expr \<Rightarrow> expr \<Rightarrow> expr" where
  "UgeExpr_create co l r = UleExpr_create co r l"

definition SgtExpr_create :: "bool \<Rightarrow> expr \<Rightarrow> expr \<Rightarrow> expr" where
  "SgtExpr_create co l r = SltExpr_create co r l"

definition SgeExpr_create :: "bool \<Rightarrow> expr \<Rightarrow> expr \<Rightarrow> expr" where
  "SgeExpr_create co l r = SleExpr_create co r l"

text \<open>
  \<open>create\<close> by kind, as \<open>createFromKind\<close> and \<open>rebuild\<close> select it. Every binary \<open>create\<close> asserts that its
  operands have the same width.
\<close>

fun createOfKind :: "bool \<Rightarrow> kind \<Rightarrow> expr \<Rightarrow> expr \<Rightarrow> expr option" where
  "createOfKind co Add l r = Some (AddExpr_create co l r)"
| "createOfKind co Sub l r = Some (SubExpr_create co l r)"
| "createOfKind co Mul l r = Some (MulExpr_create l r)"
| "createOfKind co UDiv l r = DivExpr_create UDiv l r"
| "createOfKind co SDiv l r = DivExpr_create SDiv l r"
| "createOfKind co URem l r = DivExpr_create URem l r"
| "createOfKind co SRem l r = DivExpr_create SRem l r"
| "createOfKind co And l r = Some (AndExpr_create l r)"
| "createOfKind co Or l r = Some (OrExpr_create l r)"
| "createOfKind co Xor l r = Some (XorExpr_create co l r)"
| "createOfKind co Shl l r = Some (ShlExpr_create co l r)"
| "createOfKind co LShr l r = Some (LShrExpr_create co l r)"
| "createOfKind co AShr l r = Some (AShrExpr_create l r)"
| "createOfKind co Eq l r = Some (EqExpr_create co l r)"
| "createOfKind co Ne l r = Some (NeExpr_create co l r)"
| "createOfKind co Ult l r = Some (UltExpr_create co l r)"
| "createOfKind co Ule l r = Some (UleExpr_create co l r)"
| "createOfKind co Ugt l r = Some (UgtExpr_create co l r)"
| "createOfKind co Uge l r = Some (UgeExpr_create co l r)"
| "createOfKind co Slt l r = Some (SltExpr_create co l r)"
| "createOfKind co Sle l r = Some (SleExpr_create co l r)"
| "createOfKind co Sgt l r = Some (SgtExpr_create co l r)"
| "createOfKind co Sge l r = Some (SgeExpr_create co l r)"

definition BinaryExpr_create :: "bool \<Rightarrow> kind \<Rightarrow> expr \<Rightarrow> expr \<Rightarrow> expr option" where
  "BinaryExpr_create co k l r = (if getWidth l \<noteq> getWidth r then None else createOfKind co k l r)"

lemma BinaryExpr_create_Some: "BinaryExpr_create co k l r = Some e \<longleftrightarrow> getWidth l = getWidth r \<and> createOfKind co k l r = Some e"
  by (simp add: BinaryExpr_create_def)

end
