(* ===== verification/ExprCreateSound.thy ===== *)
theory ExprCreateSound
  imports ExprCreate
begin

text \<open>
  Soundness of the \<open>create\<close> functions: each result refines the plain expression of its kind,
  that is, it is well-typed, has the same width, and the same value wherever the plain
  expression has one.
\<close>

section \<open>Algebra of bounded integers\<close>

lemma and_all_ones: "fits w a \<Longrightarrow> a AND (2 ^ w - 1) = a"
  by (simp add: fits_take_bit flip: mask_eq_exp_minus_1 take_bit_eq_mask)

lemma or_all_ones: "fits w a \<Longrightarrow> a OR (2 ^ w - 1) = 2 ^ w - 1"
  unfolding fits_take_bit mask_eq_exp_minus_1 [symmetric]
  by (rule bit_eqI) (metis bit_mask_iff bit_or_iff bit_take_bit_iff possible_bit_int)

lemma bvVal_commute: "k \<in> {Add, Mul, And, Or, Xor, Eq} \<Longrightarrow> bvVal k w a b = bvVal k w b a"
  by (auto simp: ac_simps)

lemma sval_mod: "0 < w \<Longrightarrow> fits w a \<Longrightarrow> sval w a mod 2 ^ w = a"
  by (auto simp: sval_def fits_def mod_pos_pos_trivial intro: minus_mod_self2 [THEN trans])

lemma mod_mod_le: "n \<le> (w::nat) \<Longrightarrow> (a mod 2 ^ w) mod 2 ^ n = a mod (2 ^ n :: int)"
  by (simp add: mod_mod_cancel le_imp_power_dvd)

lemma sext_eq_iff:
  assumes "fits n a" "0 < n" "n \<le> w"
  shows "sval n a mod 2 ^ w = c \<longleftrightarrow> c = sval n (c mod 2 ^ n) mod 2 ^ w \<and> a = c mod 2 ^ n"
  using assms sval_mod [of n a] by (auto simp: mod_mod_le)

section \<open>Generic steps\<close>

lemmas kind_simps = opWidth_def isCmpKind_def isDivKind_def

lemma refines_binaryI:
  assumes "wf_expr l \<Longrightarrow> wf_expr r \<Longrightarrow> getWidth r = getWidth l \<Longrightarrow>
      wf_expr e' \<and> getWidth e' = opWidth k (getWidth l)"
    and "\<And>\<sigma> a b v. wf_expr l \<Longrightarrow> wf_expr r \<Longrightarrow> getWidth r = getWidth l \<Longrightarrow> wf_env co \<sigma> \<Longrightarrow>
      sem \<sigma> l = Some a \<Longrightarrow> sem \<sigma> r = Some b \<Longrightarrow> fits (getWidth l) a \<Longrightarrow> fits (getWidth l) b \<Longrightarrow>
      bvOp k (getWidth l) a b = Some v \<Longrightarrow> sem \<sigma> e' = Some v"
  shows "refines co (BinaryExpr k l r) e'"
  using assms by (intro refinesI) (auto simp: Option.bind_eq_Some_conv, metis sem_fits(1))

lemma sem_binaryE:
  assumes "sem \<sigma> (BinaryExpr k l r) = Some v" "wf_expr (BinaryExpr k l r)" "wf_env co \<sigma>"
  obtains a b where "sem \<sigma> l = Some a" "sem \<sigma> r = Some b" "fits (getWidth l) a"
    "fits (getWidth l) b" "bvOp k (getWidth l) a b = Some v"
proof -
  from assms(1) obtain a b where *: "sem \<sigma> l = Some a" "sem \<sigma> r = Some b"
      "bvOp k (getWidth l) a b = Some v"
    by (auto simp: Option.bind_eq_Some_conv)
  with assms(2,3) have "fits (getWidth l) a" "fits (getWidth l) b"
    by (auto dest: sem_fits(1))
  with * show ?thesis by (intro that)
qed

lemma refines_commute:
  "k \<in> {Add, Mul, And, Or, Xor, Eq} \<Longrightarrow> refines co (BinaryExpr k l r) (BinaryExpr k r l)"
  by (rule refinesI)
     (auto simp: Option.bind_eq_Some_conv opWidth_def isCmpKind_def bvOp_def isDivKind_def ac_simps)

lemma refines_fold:
  "\<not> isDivKind k \<Longrightarrow>
   refines co (BinaryExpr k (ConstantExpr a) (ConstantExpr b)) (ConstantExpr (CE_op k a b))"
  by (rule refinesI) (auto simp: wf_const_CE_op)

lemma bcreate_R_sound:
  assumes "\<not> isDivKind k"
    and "\<And>cl. refines co (BinaryExpr k (ConstantExpr cl) r) (pR cl r)"
    and "\<And>cr. refines co (BinaryExpr k l (ConstantExpr cr)) (pL l cr)"
    and "refines co (BinaryExpr k l r) (nn l r)"
  shows "refines co (BinaryExpr k l r) (bcreate_R k pR pL nn l r)"
  using assms by (cases l; cases r) (simp_all add: bcreate_R_def refines_fold)

lemma bcreate_sound:
  assumes "\<not> isDivKind k" "refines co (BinaryExpr k l r) (nn l r)"
  shows "refines co (BinaryExpr k l r) (bcreate k nn l r)"
  using assms by (cases l; cases r) (simp_all add: bcreate_def refines_fold)

section \<open>And, Or\<close>

lemma AndExpr_createPartial_sound:
  "refines co (AndExpr l (ConstantExpr cr)) (AndExpr_createPartial l cr)"
  unfolding AndExpr_createPartial_def
  by (rule refines_binaryI)
     (auto simp: kind_simps isAllOnes_def isZero_def and_all_ones fits_def)

lemma AndExpr_create_sound: "refines co (AndExpr l r) (AndExpr_create l r)"
  unfolding AndExpr_create_def AndExpr_createPartialR_def
  by (rule bcreate_R_sound)
     (auto simp: kind_simps intro: AndExpr_createPartial_sound
        refines_trans [OF refines_commute AndExpr_createPartial_sound])

lemma OrExpr_createPartial_sound:
  "refines co (OrExpr l (ConstantExpr cr)) (OrExpr_createPartial l cr)"
  unfolding OrExpr_createPartial_def
  by (rule refines_binaryI)
     (auto simp: kind_simps isAllOnes_def isZero_def or_all_ones fits_def)

lemma OrExpr_create_sound: "refines co (OrExpr l r) (OrExpr_create l r)"
  unfolding OrExpr_create_def OrExpr_createPartialR_def
  by (rule bcreate_R_sound)
     (auto simp: kind_simps intro: OrExpr_createPartial_sound
        refines_trans [OF refines_commute OrExpr_createPartial_sound])

section \<open>Equality\<close>

lemma EqExpr_createNN_sound: "refines co (EqExpr l r) (EqExpr_createNN l r)"
  unfolding EqExpr_createNN_def
  by (rule refines_binaryI) (auto simp: kind_simps wf_const_def alloc_def)

lemma isTrue_value: "wf_const c \<Longrightarrow> isTrue c \<Longrightarrow> apValue c = 1"
  by (auto simp: wf_const_def isTrue_def fits_one_iff)

lemma not_isTrue_value: "wf_const c \<Longrightarrow> bitWidth c = Suc 0 \<Longrightarrow> \<not> isTrue c \<Longrightarrow> apValue c = 0"
  by (auto simp: wf_const_def isTrue_def fits_one_iff)

lemma fits_bool_cases: "fits w a \<Longrightarrow> w = 1 \<Longrightarrow> a = 0 \<or> a = 1"
  by (simp add: fits_one_iff)

lemma eq_true: "isTrue cl \<Longrightarrow> refines co (EqExpr (ConstantExpr cl) r) r"
proof (rule refines_binaryI)
  fix \<sigma> a b v
  assume "isTrue cl" "wf_expr (ConstantExpr cl)" "sem \<sigma> (ConstantExpr cl) = Some a"
    "sem \<sigma> r = Some b" "fits (getWidth (ConstantExpr cl)) b"
    "bvOp Eq (getWidth (ConstantExpr cl)) a b = Some v"
  then show "sem \<sigma> r = Some v"
    using isTrue_value [of cl] fits_bool_cases [of "bitWidth cl" b]
    by (auto simp: isTrue_def kind_simps)
qed (auto simp: kind_simps isTrue_def)

lemma eq_not_not:
  assumes "\<not> isTrue cl" "bitWidth cl = 1" "isFalse CE"
  shows "refines co (EqExpr (ConstantExpr cl) (EqExpr (ConstantExpr CE) e)) e"
proof (rule refines_binaryI)
  fix \<sigma> a b v
  assume wf: "wf_expr (ConstantExpr cl)" "wf_expr (EqExpr (ConstantExpr CE) e)" "wf_env co \<sigma>"
    and sem: "sem \<sigma> (ConstantExpr cl) = Some a" "sem \<sigma> (EqExpr (ConstantExpr CE) e) = Some b"
    and v: "bvOp Eq (getWidth (ConstantExpr cl)) a b = Some v"
  obtain x y where "sem \<sigma> (ConstantExpr CE) = Some x" "sem \<sigma> e = Some y"
    "fits (getWidth (ConstantExpr CE)) y" "bvOp Eq (getWidth (ConstantExpr CE)) x y = Some b"
    using sem(2) wf(2,3) by (rule sem_binaryE)
  then show "sem \<sigma> e = Some v"
    using assms sem v wf not_isTrue_value [of cl] fits_bool_cases [of "bitWidth CE" y]
    by (auto simp: isFalse_def kind_simps)
qed (use assms in \<open>auto simp: kind_simps isFalse_def\<close>)

lemma eq_not_or:
  assumes "\<not> isTrue cl" "bitWidth cl = 1"
  shows "refines co (EqExpr (ConstantExpr cl) (OrExpr a b))
    (AndExpr (EqExpr a (ConstantExpr (alloc 0 (getWidth a)))) (EqExpr b (ConstantExpr (alloc 0 (getWidth b)))))"
proof (rule refines_binaryI)
  fix \<sigma> x y v
  assume wf: "wf_expr (ConstantExpr cl)" "wf_expr (OrExpr a b)" "wf_env co \<sigma>"
      "getWidth (OrExpr a b) = getWidth (ConstantExpr cl)"
    and sem: "sem \<sigma> (ConstantExpr cl) = Some x" "sem \<sigma> (OrExpr a b) = Some y"
    and v: "bvOp Eq (getWidth (ConstantExpr cl)) x y = Some v"
  obtain p q where "sem \<sigma> a = Some p" "sem \<sigma> b = Some q" "fits (getWidth a) p" "fits (getWidth a) q"
    "bvOp Or (getWidth a) p q = Some y"
    using sem(2) wf(2,3) by (rule sem_binaryE)
  then show "sem \<sigma> (AndExpr (EqExpr a (ConstantExpr (alloc 0 (getWidth a))))
      (EqExpr b (ConstantExpr (alloc 0 (getWidth b))))) = Some v"
    using assms sem v wf not_isTrue_value [of cl] fits_bool_cases [of "getWidth a" p]
      fits_bool_cases [of "getWidth a" q]
    by (auto simp: kind_simps alloc_def)
qed (use assms in \<open>auto simp: kind_simps\<close>)

lemma eq_sext:
  assumes "CE_SExt (CE_ZExt cl (getWidth e)) (bitWidth cl) = cl"
  shows "refines co (EqExpr (ConstantExpr cl) (SExtExpr e w)) (EqExpr e (ConstantExpr (CE_ZExt cl (getWidth e))))"
proof (rule refines_binaryI)
  fix \<sigma> x y v
  assume wf: "wf_expr (SExtExpr e w)" "wf_env co \<sigma>" "getWidth (SExtExpr e w) = getWidth (ConstantExpr cl)"
    and sem: "sem \<sigma> (ConstantExpr cl) = Some x" "sem \<sigma> (SExtExpr e w) = Some y"
    and v: "bvOp Eq (getWidth (ConstantExpr cl)) x y = Some v"
  obtain p where "sem \<sigma> e = Some p" "y = sval (getWidth e) p mod 2 ^ w" "fits (getWidth e) p"
    using sem(2) wf sem_fits(1) [of \<sigma> e] by (auto simp: Option.bind_eq_Some_conv)
  then show "sem \<sigma> (EqExpr e (ConstantExpr (CE_ZExt cl (getWidth e)))) = Some v"
    using assms sem v wf sext_eq_iff [of "getWidth e" p w x]
    by (cases cl) (auto simp: kind_simps CE_ZExt_def CE_SExt_def alloc_def)
qed (auto simp: kind_simps CE_ZExt_def)


lemma eq_sext_false:
  assumes "CE_SExt (CE_ZExt cl (getWidth e)) (bitWidth cl) \<noteq> cl"
  shows "refines co (EqExpr (ConstantExpr cl) (SExtExpr e w)) (ConstantExpr (alloc 0 1))"
proof (rule refines_binaryI)
  fix \<sigma> x y v
  assume wf: "wf_expr (SExtExpr e w)" "wf_env co \<sigma>" "getWidth (SExtExpr e w) = getWidth (ConstantExpr cl)"
    and sem: "sem \<sigma> (ConstantExpr cl) = Some x" "sem \<sigma> (SExtExpr e w) = Some y"
    and v: "bvOp Eq (getWidth (ConstantExpr cl)) x y = Some v"
  obtain p where "sem \<sigma> e = Some p" "y = sval (getWidth e) p mod 2 ^ w" "fits (getWidth e) p"
    using sem(2) wf sem_fits(1) [of \<sigma> e] by (auto simp: Option.bind_eq_Some_conv)
  then show "sem \<sigma> (ConstantExpr (alloc 0 1)) = Some v"
    using assms sem v wf sext_eq_iff [of "getWidth e" p w x]
    by (cases cl) (auto simp: kind_simps CE_ZExt_def CE_SExt_def alloc_def)
qed (auto simp: kind_simps)

lemma zext_eq_iff:
  assumes "fits n a" "n \<le> w" "fits w c"
  shows "a mod 2 ^ w = c \<longleftrightarrow> c = (c mod 2 ^ n) mod 2 ^ w \<and> a = c mod 2 ^ n"
proof -
  have "a mod 2 ^ w = a" using assms fits_mono fits_mod_eq by blast
  with assms show ?thesis by (metis fits_mod_eq)
qed

lemma eq_zext:
  assumes "CE_ZExt (CE_ZExt cl (getWidth e)) (bitWidth cl) = cl"
  shows "refines co (EqExpr (ConstantExpr cl) (ZExtExpr e w)) (EqExpr e (ConstantExpr (CE_ZExt cl (getWidth e))))"
proof (rule refines_binaryI)
  fix \<sigma> x y v
  assume wf: "wf_expr (ZExtExpr e w)" "wf_env co \<sigma>" "getWidth (ZExtExpr e w) = getWidth (ConstantExpr cl)"
      "wf_expr (ConstantExpr cl)"
    and sem: "sem \<sigma> (ConstantExpr cl) = Some x" "sem \<sigma> (ZExtExpr e w) = Some y"
    and v: "bvOp Eq (getWidth (ConstantExpr cl)) x y = Some v"
  obtain p where "sem \<sigma> e = Some p" "y = p mod 2 ^ w" "fits (getWidth e) p"
    using sem(2) wf sem_fits(1) [of \<sigma> e] by (auto simp: Option.bind_eq_Some_conv)
  then show "sem \<sigma> (EqExpr e (ConstantExpr (CE_ZExt cl (getWidth e)))) = Some v"
    using assms sem v wf zext_eq_iff [of "getWidth e" p w x]
    by (cases cl) (auto simp: kind_simps CE_ZExt_def alloc_def wf_const_def)
qed (auto simp: kind_simps CE_ZExt_def)

lemma eq_zext_false:
  assumes "CE_ZExt (CE_ZExt cl (getWidth e)) (bitWidth cl) \<noteq> cl"
  shows "refines co (EqExpr (ConstantExpr cl) (ZExtExpr e w)) (ConstantExpr (alloc 0 1))"
proof (rule refines_binaryI)
  fix \<sigma> x y v
  assume wf: "wf_expr (ZExtExpr e w)" "wf_env co \<sigma>" "getWidth (ZExtExpr e w) = getWidth (ConstantExpr cl)"
      "wf_expr (ConstantExpr cl)"
    and sem: "sem \<sigma> (ConstantExpr cl) = Some x" "sem \<sigma> (ZExtExpr e w) = Some y"
    and v: "bvOp Eq (getWidth (ConstantExpr cl)) x y = Some v"
  obtain p where "sem \<sigma> e = Some p" "y = p mod 2 ^ w" "fits (getWidth e) p"
    using sem(2) wf sem_fits(1) [of \<sigma> e] by (auto simp: Option.bind_eq_Some_conv)
  then show "sem \<sigma> (ConstantExpr (alloc 0 1)) = Some v"
    using assms sem v wf zext_eq_iff [of "getWidth e" p w x]
    by (cases cl) (auto simp: kind_simps CE_ZExt_def alloc_def wf_const_def)
qed (auto simp: kind_simps)

lemma mod_eq_diff_iff:
  assumes "fits w c" "fits w b"
  shows "c = (c1 + b) mod 2 ^ w \<longleftrightarrow> (c - c1) mod 2 ^ w = b"
proof -
  have "(c - c1) mod 2 ^ w = b \<longleftrightarrow> (c - c1) mod 2 ^ w = b mod 2 ^ w"
    using assms by (simp add: fits_mod_eq)
  also have "\<dots> \<longleftrightarrow> c mod 2 ^ w = (c1 + b) mod 2 ^ w"
    by (simp add: mod_eq_dvd_iff algebra_simps)
  finally show ?thesis using assms by (simp add: fits_mod_eq)
qed

lemma mod_eq_diff_iff2:
  assumes "fits w c" "fits w b"
  shows "c = (c1 - b) mod 2 ^ w \<longleftrightarrow> (c1 - c) mod 2 ^ w = b"
proof -
  have "(c1 - c) mod 2 ^ w = b \<longleftrightarrow> (c1 - c) mod 2 ^ w = b mod 2 ^ w"
    using assms by (simp add: fits_mod_eq)
  also have "\<dots> \<longleftrightarrow> (c1 - b) mod 2 ^ w = c mod 2 ^ w"
    by (simp add: mod_eq_dvd_iff algebra_simps)
  finally show ?thesis using assms by (auto simp: fits_mod_eq)
qed

lemma eq_add:
  "refines co (EqExpr (ConstantExpr cl) (AddExpr (ConstantExpr c1) b)) (EqExpr (ConstantExpr (CE_op Sub cl c1)) b)"
proof (rule refines_binaryI)
  fix \<sigma> x y v
  assume wf: "wf_expr (AddExpr (ConstantExpr c1) b)" "wf_env co \<sigma>" "wf_expr (ConstantExpr cl)"
      "getWidth (AddExpr (ConstantExpr c1) b) = getWidth (ConstantExpr cl)"
    and sem: "sem \<sigma> (ConstantExpr cl) = Some x" "sem \<sigma> (AddExpr (ConstantExpr c1) b) = Some y"
    and v: "bvOp Eq (getWidth (ConstantExpr cl)) x y = Some v"
  obtain p q where "sem \<sigma> (ConstantExpr c1) = Some p" "sem \<sigma> b = Some q"
    "fits (getWidth (ConstantExpr c1)) q" "bvOp Add (getWidth (ConstantExpr c1)) p q = Some y"
    using sem(2) wf(1,2) by (rule sem_binaryE)
  then show "sem \<sigma> (EqExpr (ConstantExpr (CE_op Sub cl c1)) b) = Some v"
    using sem v wf mod_eq_diff_iff [of "bitWidth cl" x q p]
    by (auto simp: kind_simps wf_const_def)
qed (auto simp: kind_simps intro: wf_const_CE_op)

lemma eq_sub:
  "refines co (EqExpr (ConstantExpr cl) (SubExpr (ConstantExpr c1) b)) (EqExpr (ConstantExpr (CE_op Sub c1 cl)) b)"
proof (rule refines_binaryI)
  fix \<sigma> x y v
  assume wf: "wf_expr (SubExpr (ConstantExpr c1) b)" "wf_env co \<sigma>" "wf_expr (ConstantExpr cl)"
      "getWidth (SubExpr (ConstantExpr c1) b) = getWidth (ConstantExpr cl)"
    and sem: "sem \<sigma> (ConstantExpr cl) = Some x" "sem \<sigma> (SubExpr (ConstantExpr c1) b) = Some y"
    and v: "bvOp Eq (getWidth (ConstantExpr cl)) x y = Some v"
  obtain p q where "sem \<sigma> (ConstantExpr c1) = Some p" "sem \<sigma> b = Some q"
    "fits (getWidth (ConstantExpr c1)) q" "bvOp Sub (getWidth (ConstantExpr c1)) p q = Some y"
    using sem(2) wf(1,2) by (rule sem_binaryE)
  then show "sem \<sigma> (EqExpr (ConstantExpr (CE_op Sub c1 cl)) b) = Some v"
    using sem v wf mod_eq_diff_iff2 [of "bitWidth cl" x q p]
    by (auto simp: kind_simps wf_const_def)
qed (auto simp: kind_simps intro: wf_const_CE_op)

text \<open>
  The loop of \<open>TryConstArrayOpt\<close> at an environment where the index has the value \<open>j\<close>: the
  disjunction built so far, extended over the remaining values, is the truth of the equality.
\<close>

lemma TryConstArrayOpt_loop_wf:
  assumes "\<And>n. refines co (EqExpr idx (ConstantExpr (alloc n (getWidth idx)))) (mkEq n)"
    and "wf_expr idx" "wf_expr dflt" "getWidth dflt = 1" "wf_expr res" "getWidth res = 1"
  shows "wf_expr (TryConstArrayOpt_loop mkEq dflt cl vs i n res) \<and>
    getWidth (TryConstArrayOpt_loop mkEq dflt cl vs i n res) = 1"
  using assms(5,6)
proof (induction vs arbitrary: i n res)
  case (Cons v vs)
  have "wf_expr (OrExpr res (mkEq i))"
    using Cons.prems refinesD [OF assms(1) [of i]] assms(2) by (simp add: kind_simps)
  then show ?case
    using Cons assms(3,4) refinesD [OF OrExpr_create_sound [of co res "mkEq i"]]
    by (auto simp: kind_simps)
qed simp

lemma mkEq_sem:
  assumes "refines co (EqExpr idx (ConstantExpr (alloc n (getWidth idx)))) e'"
    and "wf_expr idx" "wf_env co \<sigma>" "sem \<sigma> idx = Some j" "0 \<le> n" "n < 2 ^ getWidth idx"
  shows "sem \<sigma> e' = Some (of_bool (j = n))"
proof -
  have "sem \<sigma> (EqExpr idx (ConstantExpr (alloc n (getWidth idx)))) = Some (of_bool (j = n))"
    using assms(4-) by (simp add: kind_simps alloc_def)
  with assms(1-3) show ?thesis
    by (intro refinesD(3) [OF assms(1)]) auto
qed

lemma TryConstArrayOpt_loop_sem:
  assumes mk: "\<And>n. refines co (EqExpr idx (ConstantExpr (alloc n (getWidth idx)))) (mkEq n)"
    and "wf_expr idx" "wf_env co \<sigma>" "sem \<sigma> idx = Some j" "fits (getWidth idx) j"
    and "sem \<sigma> dflt = Some d"
    and "wf_expr res" "getWidth res = 1" "sem \<sigma> res = Some (of_bool b)"
    and "0 \<le> i" "i + int (length vs) \<le> 2 ^ getWidth idx"
    and "d = of_bool (b \<or> (\<exists>m < length vs. vs ! m = cl \<and> j = i + int m))"
  shows "sem \<sigma> (TryConstArrayOpt_loop mkEq dflt cl vs i n res) = Some d"
  using assms(7-)
proof (induction vs arbitrary: i n res b)
  case (Cons v vs)
  have split: "(\<exists>m < length (v # vs). (v # vs) ! m = cl \<and> j = i + int m) \<longleftrightarrow>
      v = cl \<and> j = i \<or> (\<exists>m < length vs. vs ! m = cl \<and> j = (i + 1) + int m)"
    by (simp add: Ex_less_Suc2 algebra_simps)
  have "i < 2 ^ getWidth idx" using Cons.prems by simp
  then have "sem \<sigma> (mkEq i) = Some (of_bool (j = i))"
    using mkEq_sem [OF mk] assms(2-4) Cons.prems(4) by blast
  then have s: "sem \<sigma> (OrExpr res (mkEq i)) = Some (of_bool (b \<or> j = i))"
    using Cons.prems by (auto simp: kind_simps)
  have w: "wf_expr (OrExpr res (mkEq i))"
    using Cons.prems refinesD [OF mk [of i]] assms(2) by (simp add: kind_simps)
  note R = refinesD [OF OrExpr_create_sound [of co] w]
  show ?case
  proof (cases "cl = v")
    case True
    have "sem \<sigma> (TryConstArrayOpt_loop mkEq dflt cl vs (i + 1) (Suc n) (OrExpr_create res (mkEq i))) = Some d"
      using Cons.prems R(1,2) R(3) [OF assms(3) s] split True
      by (intro Cons.IH [where b = "b \<or> j = i"]) (auto simp: kind_simps)
    with True assms(6) show ?thesis by simp
  next
    case False
    have "sem \<sigma> (TryConstArrayOpt_loop mkEq dflt cl vs (i + 1) n res) = Some d"
      using Cons.prems split False by (intro Cons.IH [where b = b]) auto
    with False show ?thesis by simp
  qed
qed simp

lemma TryConstArrayOpt_sound:
  assumes mk: "\<And>n. refines co (EqExpr i (ConstantExpr (alloc n (getWidth i)))) (mkEq n)" and co: "co"
  shows "refines co (EqExpr (ConstantExpr cl) (ReadExpr A us i)) (TryConstArrayOpt mkEq cl A us i)"
proof (cases "isSymbolicArray A \<or> us \<noteq> []")
  case True
  then show ?thesis
    using EqExpr_createNN_sound by (auto simp: TryConstArrayOpt_def)
next
  case False
  let ?e = "EqExpr (ConstantExpr cl) (ReadExpr A us i)"
  let ?dflt = "EqExpr_createNN (ConstantExpr cl) (ReadExpr A us i)"
  let ?loop = "TryConstArrayOpt_loop mkEq ?dflt cl (constantValues A) 0 0 (ConstantExpr (alloc 0 1))"
  have eq: "TryConstArrayOpt mkEq cl A us i = ?loop"
    using False by (auto simp: TryConstArrayOpt_def)
  note D = refinesD [OF EqExpr_createNN_sound [of co]]
  have "refines co ?e ?loop"
  proof (rule refinesI)
    assume wf: "wf_expr ?e"
    have *: "wf_expr ?loop \<and> getWidth ?loop = 1"
      using wf D [OF wf] by (intro TryConstArrayOpt_loop_wf [OF mk]) (auto simp: kind_simps)
    then show "wf_expr ?loop" "getWidth ?loop = getWidth ?e" by (auto simp: kind_simps)
    fix \<sigma> v
    assume env: "wf_env co \<sigma>" and v: "sem \<sigma> ?e = Some v"
    have A: "length (constantValues A) = asize A" "asize A \<le> 2 ^ getWidth i" "isConstantArray A"
      using wf False by (auto simp: wf_array_def isConstantArray_def)
    from v False obtain j r where j: "sem \<sigma> i = Some j" "initialValue \<sigma> A j = Some r"
        "v = of_bool (apValue cl = r)"
      by (auto simp: Option.bind_eq_Some_conv kind_simps)
    have fits: "fits (getWidth i) j" using sem_fits(1) [OF j(1) env] wf by auto
    have jA: "j < int (asize A)"
      using j(2) env co A(3) by (auto simp: initialValue_def wf_env_def split: if_splits)
    then have r: "r = apValue (constantValues A ! nat j)"
      using j(2) A(3) by (simp add: initialValue_def)
    have elem: "constantValues A ! nat j \<in> set (constantValues A)"
      using jA fits A by auto
    have "v = of_bool (False \<or> (\<exists>m < length (constantValues A). constantValues A ! m = cl \<and> j = 0 + int m))"
    proof -
      have "apValue cl = r \<longleftrightarrow> constantValues A ! nat j = cl"
        using r elem wf by (auto simp: wf_array_def intro: apint.expand)
      also have "\<dots> \<longleftrightarrow> (\<exists>m < length (constantValues A). constantValues A ! m = cl \<and> j = 0 + int m)"
        using jA fits A by (auto intro!: exI [of _ "nat j"])
      finally show ?thesis using j(3) by simp
    qed
    moreover have "int (length (constantValues A)) \<le> 2 ^ getWidth i"
      using A by (metis of_nat_le_iff of_nat_numeral of_nat_power)
    ultimately show "sem \<sigma> ?loop = Some v"
      using wf env j fits D(3) [OF wf env v] A
      by (intro TryConstArrayOpt_loop_sem [OF mk, where b = False and j = j]) auto
  qed
  then show ?thesis by (simp only: eq)
qed

lemma EqExpr_createPartialR_sound:
  "refines co (EqExpr (ConstantExpr cl) r) (EqExpr_createPartialR co cl r)"
  "refines co (EqExpr e (ConstantExpr c)) (EqExpr_createK co e c)"
proof (induction co cl r and co e c rule: EqExpr_createPartialR_EqExpr_createK.induct)
  case (1 co cl r)
  note IH = 1
  let ?E = "EqExpr (ConstantExpr cl) r"
  have dflt: "refines co ?E (EqExpr_createNN (ConstantExpr cl) r)"
    by (rule EqExpr_createNN_sound)
  show ?case
  proof (cases "bitWidth cl = 1")
    case bool: True
    show ?thesis
    proof (cases "isTrue cl")
      case True
      then show ?thesis using bool eq_true by (simp add: EqExpr_createPartialR.simps)
    next
      case False
      have "refines co ?E (EqExpr_createPartialR co cl r)" if "r = BinaryExpr k a b" for k a b
      proof (cases "k = Or")
        case True
        have "refines co ?E (AndExpr (EqExpr a (ConstantExpr (alloc 0 (getWidth a))))
            (EqExpr b (ConstantExpr (alloc 0 (getWidth b)))))"
          using eq_not_or [OF False bool] that True by simp
        also have "refines co \<dots> (AndExpr (EqExpr_createK co a (alloc 0 (getWidth a)))
            (EqExpr_createK co b (alloc 0 (getWidth b))))"
          using IH bool False that True by (intro refines_binary) simp_all
        also have "refines co \<dots> (AndExpr_create (EqExpr_createK co a (alloc 0 (getWidth a)))
            (EqExpr_createK co b (alloc 0 (getWidth b))))"
          by (rule AndExpr_create_sound)
        finally show ?thesis
          using bool False that True by (simp add: EqExpr_createPartialR.simps)
      next
        case notOr: False
        show ?thesis
          using dflt bool False that notOr eq_not_not [OF False bool]
          by (subst EqExpr_createPartialR.simps) (auto simp: Let_def split: option.splits dest!: constLeft_SomeD)
      qed
      then show ?thesis
        using dflt bool False by (cases r) (auto simp: EqExpr_createPartialR.simps)
    qed
  next
    case False
    note unfold = EqExpr_createPartialR.simps [of co cl r]
    show ?thesis
    proof (cases r)
      case (BinaryExpr k a b)
      show ?thesis
      proof (cases "isConstantExpr a")
        case True
        then obtain c1 where ConstantExpr: "a = ConstantExpr c1" by (cases a) auto
        have "k = Add \<Longrightarrow> refines co ?E (EqExpr_createPartialR co (CE_op Sub cl c1) b)"
          using refines_trans [OF eq_add IH(6) [OF refl refl False BinaryExpr _ ConstantExpr]]
            BinaryExpr ConstantExpr by simp
        moreover have "k = Sub \<Longrightarrow> refines co ?E (EqExpr_createPartialR co (CE_op Sub c1 cl) b)"
          using refines_trans [OF eq_sub IH(7) [OF refl refl False BinaryExpr _ _ ConstantExpr]]
            BinaryExpr ConstantExpr by simp
        ultimately show ?thesis
          using dflt False BinaryExpr ConstantExpr by (subst unfold) (simp add: Let_def)
      next
        case const: False
        have "EqExpr_createPartialR co cl r = EqExpr_createNN (ConstantExpr cl) r"
          using False BinaryExpr const by (subst unfold) (auto simp: Let_def split: expr.splits)
        with dflt show ?thesis by simp
      qed
    next
      case (SExtExpr e w)
      have "refines co ?E (EqExpr_createK co e (CE_ZExt cl (getWidth e)))"
        if "CE_SExt (CE_ZExt cl (getWidth e)) (bitWidth cl) = cl"
        using refines_trans [OF eq_sext [OF that] IH(5) [OF refl refl False SExtExpr refl that]]
          SExtExpr by simp
      then show ?thesis
        using dflt False SExtExpr eq_sext_false by (subst unfold) (simp add: Let_def)
    next
      case (ZExtExpr e w)
      have "refines co ?E (EqExpr_createK co e (CE_ZExt cl (getWidth e)))"
        if "CE_ZExt (CE_ZExt cl (getWidth e)) (bitWidth cl) = cl"
        using refines_trans [OF eq_zext [OF that] IH(4) [OF refl refl False ZExtExpr refl that]]
          ZExtExpr by simp
      then show ?thesis
        using dflt False ZExtExpr eq_zext_false by (subst unfold) (simp add: Let_def)
    next
      case (ReadExpr A us i)
      have "refines co ?E (TryConstArrayOpt (\<lambda>n. EqExpr_createK co i (alloc n (getWidth i))) cl A us i)"
        if co
        unfolding ReadExpr using IH(3) [OF refl refl False ReadExpr that] that
        by (intro TryConstArrayOpt_sound) auto
      then show ?thesis
        using dflt False ReadExpr by (subst unfold) (auto simp: Let_def)
    qed (use dflt False in \<open>subst unfold, simp add: Let_def\<close>)+
  qed
next
  case (2 co e c)
  then show ?case
    using refines_trans [OF refines_commute [of Eq co e "ConstantExpr c"]]
    by (cases e) (auto simp: EqExpr_createK.simps intro: refines_fold simp: isDivKind_def)
qed

lemma EqExpr_create_sound: "refines co (EqExpr l r) (EqExpr_create co l r)"
  unfolding EqExpr_create_def
  by (rule bcreate_R_sound)
     (auto simp: isDivKind_def intro: EqExpr_createPartialR_sound EqExpr_createNN_sound
        refines_trans [OF refines_commute EqExpr_createPartialR_sound(1)])

lemma createIsZero_sound:
  "refines co (EqExpr e (ConstantExpr (alloc 0 (getWidth e)))) (createIsZero co e)"
  unfolding createIsZero_def by (rule EqExpr_create_sound)

lemma ne_eq_false:
  "refines co (BinaryExpr Ne l r) (EqExpr (ConstantExpr (alloc 0 1)) (EqExpr l r))"
  by (rule refines_binaryI) (auto simp: kind_simps)

lemma NeExpr_create_sound: "refines co (BinaryExpr Ne l r) (NeExpr_create co l r)"
  unfolding NeExpr_create_def
  by (rule refines_trans [OF ne_eq_false refines_trans [OF refines_binary EqExpr_create_sound]])
     (auto intro: EqExpr_create_sound)

section \<open>Xor, Add and Sub\<close>

lemma isZero_fits: "wf_const c \<Longrightarrow> \<not> isZero c \<Longrightarrow> bitWidth c = 1 \<Longrightarrow> apValue c = 1"
  by (auto simp: wf_const_def isZero_def fits_one_iff)

lemma xor_true:
  assumes "\<not> isZero cl" "bitWidth cl = 1"
  shows "refines co (XorExpr (ConstantExpr cl) r) (EqExpr (ConstantExpr (alloc 0 1)) r)"
proof (rule refines_binaryI)
  fix \<sigma> a b v
  assume "wf_expr (ConstantExpr cl)" "sem \<sigma> (ConstantExpr cl) = Some a" "sem \<sigma> r = Some b"
    "fits (getWidth (ConstantExpr cl)) b" "bvOp Xor (getWidth (ConstantExpr cl)) a b = Some v"
  then show "sem \<sigma> (EqExpr (ConstantExpr (alloc 0 1)) r) = Some v"
    using assms isZero_fits [of cl] fits_bool_cases [of "bitWidth cl" b] by (auto simp: kind_simps)
qed (use assms in \<open>auto simp: kind_simps\<close>)

lemma XorExpr_createPartialR_sound:
  "refines co (XorExpr (ConstantExpr cl) r) (XorExpr_createPartialR co cl r)"
proof -
  have "isZero cl \<Longrightarrow> refines co (XorExpr (ConstantExpr cl) r) r"
    by (rule refines_binaryI) (auto simp: kind_simps isZero_def)
  moreover have "\<not> isZero cl \<Longrightarrow> bitWidth cl = 1 \<Longrightarrow>
      refines co (XorExpr (ConstantExpr cl) r) (EqExpr_createPartialR co (alloc 0 1) r)"
    by (rule refines_trans [OF xor_true EqExpr_createPartialR_sound(1)])
  ultimately show ?thesis by (simp add: XorExpr_createPartialR_def)
qed

lemma XorExpr_create_sound: "refines co (XorExpr l r) (XorExpr_create co l r)"
  unfolding XorExpr_create_def XorExpr_createPartial_def
  by (rule bcreate_R_sound)
     (auto simp: isDivKind_def intro: XorExpr_createPartialR_sound
        refines_trans [OF refines_commute XorExpr_createPartialR_sound])

lemma bool_add_xor:
  assumes "getWidth l = 1" "k = Add \<or> k = Sub"
  shows "refines co (BinaryExpr k l r) (XorExpr l r)"
proof (rule refines_binaryI)
  fix \<sigma> a b v
  assume "sem \<sigma> l = Some a" "sem \<sigma> r = Some b" "fits (getWidth l) a" "fits (getWidth l) b"
    "bvOp k (getWidth l) a b = Some v"
  then show "sem \<sigma> (XorExpr l r) = Some v"
    using assms fits_bool_cases [of "getWidth l" a] fits_bool_cases [of "getWidth l" b]
    by (auto simp: kind_simps)
qed (use assms in \<open>auto simp: kind_simps\<close>)

text \<open>The laws of addition and subtraction modulo \<open>2 ^ w\<close> the constructors use.\<close>

lemma linear_laws:
  "refines co (AddExpr (AddExpr x a) b) (AddExpr x (AddExpr a b))"
  "refines co (AddExpr (SubExpr x a) b) (AddExpr x (SubExpr b a))"
  "refines co (AddExpr a (AddExpr x b)) (AddExpr x (AddExpr a b))"
  "refines co (AddExpr a (SubExpr x b)) (AddExpr x (SubExpr a b))"
  "refines co (SubExpr (AddExpr x a) b) (AddExpr x (SubExpr a b))"
  "refines co (SubExpr (SubExpr x a) b) (SubExpr x (AddExpr a b))"
  "refines co (SubExpr a (AddExpr x b)) (SubExpr (SubExpr a b) x)"
  "refines co (SubExpr a (SubExpr x b)) (SubExpr (AddExpr a b) x)"
  "refines co (AddExpr x (AddExpr y c)) (AddExpr (AddExpr x y) c)"
  "refines co (AddExpr x (SubExpr y c)) (SubExpr (AddExpr x y) c)"
  "refines co (SubExpr x (AddExpr y c)) (SubExpr (SubExpr x y) c)"
  "refines co (SubExpr x (SubExpr y c)) (AddExpr (SubExpr x y) c)"
  by (rule refinesI; auto simp: kind_simps Option.bind_eq_Some_conv mod_simps algebra_simps)+

lemma sub_self: "refines co (SubExpr l l) (ConstantExpr (alloc 0 (getWidth l)))"
  by (rule refines_binaryI) (auto simp: kind_simps)

lemma sub_const:
  "refines co (SubExpr l (ConstantExpr c)) (AddExpr (ConstantExpr (CE_op Sub (alloc 0 (bitWidth c)) c)) l)"
  by (rule refines_binaryI) (auto simp: kind_simps mod_simps algebra_simps wf_const_CE_op)

lemma fold_left:
  assumes "\<not> isDivKind k" "refines co e (BinaryExpr k' (BinaryExpr k (ConstantExpr a) (ConstantExpr b)) c)"
  shows "refines co e (BinaryExpr k' (ConstantExpr (CE_op k a b)) c)"
  using assms refines_trans refines_binary [OF refines_fold refines_refl] by blast

lemma AddSub_createPartialR_sound:
  "refines co (AddExpr (ConstantExpr cl) r) (AddExpr_createPartialR co cl r)"
  "refines co (SubExpr (ConstantExpr cl) r) (SubExpr_createPartialR co cl r)"
  "refines co (AddExpr (ConstantExpr cl) r) (AddExpr_createC co cl r)"
  "refines co (SubExpr (ConstantExpr cl) r) (SubExpr_createC co cl r)"
proof (induction co cl r and co cl r and co cl r and co cl r
    rule: AddExpr_createPartialR_SubExpr_createPartialR_AddExpr_createC_SubExpr_createC.induct)
  case (1 co cl r)
  have z: "isZero cl \<Longrightarrow> refines co (AddExpr (ConstantExpr cl) r) r"
    by (rule refines_binaryI) (auto simp: kind_simps isZero_def fits_mod_eq)
  have b: "bitWidth cl = 1 \<Longrightarrow> refines co (AddExpr (ConstantExpr cl) r) (XorExpr_createPartialR co cl r)"
    by (rule refines_trans [OF bool_add_xor XorExpr_createPartialR_sound]) auto
  show ?case
    using 1 z b
    by (subst AddExpr_createPartialR.simps)
       (auto split: option.splits simp: isDivKind_def dest!: constLeft_SomeD
          intro: refines_trans [OF fold_left [OF _ linear_laws(9)]] refines_trans [OF fold_left [OF _ linear_laws(10)]])
next
  case (2 co cl r)
  have b: "bitWidth cl = 1 \<Longrightarrow> refines co (SubExpr (ConstantExpr cl) r) (XorExpr_createPartialR co cl r)"
    by (rule refines_trans [OF bool_add_xor XorExpr_createPartialR_sound]) auto
  show ?case
    using 2 b
    by (subst SubExpr_createPartialR.simps)
       (auto split: option.splits simp: isDivKind_def dest!: constLeft_SomeD
          intro: refines_trans [OF fold_left [OF _ linear_laws(11)]] refines_trans [OF fold_left [OF _ linear_laws(12)]])
next
  case (3 co cl r)
  then show ?case by (cases r) (auto simp: AddExpr_createC.simps isDivKind_def intro: refines_fold)
next
  case (4 co cl r)
  then show ?case by (cases r) (auto simp: SubExpr_createC.simps isDivKind_def intro: refines_fold)
qed

lemma SubExpr_createPartial_sound:
  "refines co (SubExpr l (ConstantExpr cr)) (SubExpr_createPartial co l cr)"
  unfolding SubExpr_createPartial_def AddExpr_createPartial_def
  by (rule refines_trans [OF sub_const AddSub_createPartialR_sound(1)])

lemma SubExpr_createK_sound: "refines co (SubExpr l (ConstantExpr cr)) (SubExpr_createK co l cr)"
  using SubExpr_createPartial_sound [of co l cr]
  by (cases l) (auto simp: SubExpr_createK_def isDivKind_def intro: refines_fold)

lemma AddExpr_createPartial_sound:
  "refines co (AddExpr l (ConstantExpr cr)) (AddExpr_createPartial co l cr)"
  unfolding AddExpr_createPartial_def
  by (rule refines_trans [OF refines_commute AddSub_createPartialR_sound(1)]) simp

text \<open>One rewriting step of \<open>AddExpr_create\<close> or \<open>SubExpr_create\<close>: law, inner call, outer call.\<close>

lemma step_AddC:
  assumes "refines co e (AddExpr (ConstantExpr k) x)" "refines co x x'"
  shows "refines co e (AddExpr_createC co k x')"
  using assms AddSub_createPartialR_sound(3) refines_binary refines_refl refines_trans by meson

lemma step_SubC:
  assumes "refines co e (SubExpr (ConstantExpr k) x)" "refines co x x'"
  shows "refines co e (SubExpr_createC co k x')"
  using assms AddSub_createPartialR_sound(4) refines_binary refines_refl refines_trans by meson

lemma step_SubK:
  assumes "refines co e (SubExpr x (ConstantExpr k))" "refines co x x'"
  shows "refines co e (SubExpr_createK co x' k)"
  using assms SubExpr_createK_sound refines_binary refines_refl refines_trans by meson

lemma AddSub_create_sound:
  "refines co (AddExpr l r) (AddExpr_create co l r)"
  "refines co (SubExpr l r) (SubExpr_create co l r)"
  "refines co (AddExpr l r) (AddExpr_createNN co l r)"
  "refines co (SubExpr l r) (SubExpr_createNN co l r)"
proof (induction co l r and co l r and co l r and co l r
    rule: AddExpr_create_SubExpr_create_AddExpr_createNN_SubExpr_createNN.induct)
  case (1 co l r)
  then show ?case
    unfolding AddExpr_create.simps [of co l r]
    by (intro bcreate_R_sound AddSub_createPartialR_sound AddExpr_createPartial_sound)
       (simp_all add: isDivKind_def)
next
  case (2 co l r)
  then show ?case
    unfolding SubExpr_create.simps [of co l r]
    by (intro bcreate_R_sound AddSub_createPartialR_sound SubExpr_createPartial_sound)
       (simp_all add: isDivKind_def)
next
  case (3 co l r)
  then show ?case
    by (subst AddExpr_createNN.simps)
       (auto split: option.splits dest!: constLeft_SomeD simp: bool_add_xor
          intro: step_AddC linear_laws)
next
  case (4 co l r)
  then show ?case
    by (subst SubExpr_createNN.simps)
       (auto split: option.splits dest!: constLeft_SomeD simp: bool_add_xor sub_self
          intro: step_AddC step_SubC step_SubK linear_laws)
qed

section \<open>Mul, divisions, shifts and comparisons\<close>

text \<open>Operations on one bit, decided by the four cases of the operands.\<close>

lemma refines_boolI:
  assumes "wf_expr l \<Longrightarrow> wf_expr r \<Longrightarrow> getWidth r = getWidth l \<Longrightarrow>
      wf_expr e' \<and> getWidth e' = opWidth k (getWidth l)"
    and "getWidth l = 1"
    and "\<And>\<sigma> a b v. sem \<sigma> l = Some a \<Longrightarrow> sem \<sigma> r = Some b \<Longrightarrow> a = 0 \<or> a = 1 \<Longrightarrow> b = 0 \<or> b = 1 \<Longrightarrow>
      getWidth r = 1 \<Longrightarrow> bvOp k 1 a b = Some v \<Longrightarrow> sem \<sigma> e' = Some v"
  shows "refines co (BinaryExpr k l r) e'"
proof (rule refines_binaryI)
  fix \<sigma> a b v
  assume "sem \<sigma> l = Some a" "sem \<sigma> r = Some b" "fits (getWidth l) a" "fits (getWidth l) b"
    "bvOp k (getWidth l) a b = Some v" "getWidth r = getWidth l"
  then show "sem \<sigma> e' = Some v"
    using assms(2,3) fits_bool_cases by metis
qed (use assms(1) in auto)

abbreviation "zeroEq e \<equiv> EqExpr e (ConstantExpr (alloc 0 (getWidth e)))"

lemma bool_laws:
  assumes "getWidth l = 1"
  shows "refines co (MulExpr l r) (AndExpr l r)"
    and "refines co (BinaryExpr UDiv l r) l"
    and "refines co (BinaryExpr SDiv l r) l"
    and "refines co (BinaryExpr URem l r) (ConstantExpr (alloc 0 1))"
    and "refines co (BinaryExpr SRem l r) (ConstantExpr (alloc 0 1))"
    and "refines co (BinaryExpr Shl l r) (AndExpr l (zeroEq r))"
    and "refines co (BinaryExpr LShr l r) (AndExpr l (zeroEq r))"
    and "refines co (BinaryExpr AShr l r) l"
    and "refines co (BinaryExpr Ult l r) (AndExpr (zeroEq l) r)"
    and "refines co (BinaryExpr Ule l r) (OrExpr (zeroEq l) r)"
    and "refines co (BinaryExpr Slt l r) (AndExpr l (zeroEq r))"
    and "refines co (BinaryExpr Sle l r) (OrExpr l (zeroEq r))"
  by (rule refines_boolI; use assms in \<open>auto simp: bvOp_def kind_simps sval_def signed_modulo_int_def signed_divide_int_def split: if_splits\<close>)+

lemma MulExpr_createPartialR_sound:
  "refines co (MulExpr (ConstantExpr cl) r) (MulExpr_createPartialR cl r)"
proof -
  have "bitWidth cl = 1 \<Longrightarrow> refines co (MulExpr (ConstantExpr cl) r) (AndExpr_createPartialR cl r)"
    unfolding AndExpr_createPartialR_def
    by (rule refines_trans [OF bool_laws(1) refines_trans [OF refines_commute AndExpr_createPartial_sound]]) simp_all
  moreover have "isOne cl \<Longrightarrow> refines co (MulExpr (ConstantExpr cl) r) r"
    by (rule refines_binaryI) (auto simp: kind_simps isOne_def getLimitedValue_def fits_mod_eq min_def split: if_splits)
  moreover have "isZero cl \<Longrightarrow> refines co (MulExpr (ConstantExpr cl) r) (ConstantExpr cl)"
    by (rule refines_binaryI) (auto simp: kind_simps isZero_def)
  ultimately show ?thesis by (simp add: MulExpr_createPartialR_def)
qed

lemma MulExpr_create_sound: "refines co (MulExpr l r) (MulExpr_create l r)"
  unfolding MulExpr_create_def MulExpr_createPartial_def MulExpr_createNN_def
  by (rule bcreate_R_sound)
     (auto simp: isDivKind_def intro: MulExpr_createPartialR_sound bool_laws
        refines_trans [OF refines_commute MulExpr_createPartialR_sound])

lemma step_bool:
  assumes "refines co e (BinaryExpr k x y)" "refines co x x'" "refines co y y'"
    and "refines co (BinaryExpr k x' y') e'"
  shows "refines co e e'"
  using assms refines_binary refines_trans by meson

lemmas bool_steps =
  step_bool [OF bool_laws(6) refines_refl createIsZero_sound AndExpr_create_sound]
  step_bool [OF bool_laws(7) refines_refl createIsZero_sound AndExpr_create_sound]
  step_bool [OF bool_laws(9) createIsZero_sound refines_refl AndExpr_create_sound]
  step_bool [OF bool_laws(10) createIsZero_sound refines_refl OrExpr_create_sound]
  step_bool [OF bool_laws(11) refines_refl createIsZero_sound AndExpr_create_sound]
  step_bool [OF bool_laws(12) refines_refl createIsZero_sound OrExpr_create_sound]

lemma shift_create_sound:
  "refines co (BinaryExpr Shl l r) (ShlExpr_create co l r)"
  "refines co (BinaryExpr LShr l r) (LShrExpr_create co l r)"
  "refines co (BinaryExpr AShr l r) (AShrExpr_create l r)"
  unfolding ShlExpr_create_def LShrExpr_create_def AShrExpr_create_def
    ShlExpr_createNN_def LShrExpr_createNN_def AShrExpr_createNN_def
  by (rule bcreate_sound; auto simp: isDivKind_def intro: bool_steps bool_laws)+

lemma cmp_create_sound:
  "refines co (BinaryExpr Ult l r) (UltExpr_create co l r)"
  "refines co (BinaryExpr Ule l r) (UleExpr_create co l r)"
  "refines co (BinaryExpr Slt l r) (SltExpr_create co l r)"
  "refines co (BinaryExpr Sle l r) (SleExpr_create co l r)"
  unfolding UltExpr_create_def UleExpr_create_def SltExpr_create_def SleExpr_create_def
    UltExpr_createNN_def UleExpr_createNN_def SltExpr_createNN_def SleExpr_createNN_def
  by (rule bcreate_sound; auto simp: isDivKind_def intro: bool_steps)+

lemma cmp_swap:
  "refines co (BinaryExpr Ugt l r) (BinaryExpr Ult r l)"
  "refines co (BinaryExpr Uge l r) (BinaryExpr Ule r l)"
  "refines co (BinaryExpr Sgt l r) (BinaryExpr Slt r l)"
  "refines co (BinaryExpr Sge l r) (BinaryExpr Sle r l)"
  by (rule refines_binaryI; auto simp: kind_simps)+

lemma DivExpr_create_sound:
  assumes "DivExpr_create k l r = Some e" "isDivKind k"
  shows "refines co (BinaryExpr k l r) e"
proof -
  have "refines co (BinaryExpr k l r) (DivExpr_createNN k l r)"
    using bool_laws(2-5) [of l co r] assms(2) by (auto simp: DivExpr_createNN_def isDivKind_def)
  moreover have "refines co (BinaryExpr k (ConstantExpr a) (ConstantExpr b)) (ConstantExpr (CE_op k a b))" for a b
    by (rule refines_binaryI) (auto simp: wf_const_CE_op bvOp_def split: if_splits)
  ultimately show ?thesis
    using assms(1) by (auto simp: DivExpr_create_def CE_binary_def split: expr.splits if_splits)
qed

lemma DivExpr_create_None:
  "DivExpr_create k l r = None \<longleftrightarrow>
     isDivKind k \<and> (\<exists>cl cr. l = ConstantExpr cl \<and> r = ConstantExpr cr \<and> isZero cr)"
  by (auto simp: DivExpr_create_def CE_binary_def split: expr.splits)

lemma BinaryExpr_create_sound:
  assumes "BinaryExpr_create co k l r = Some e"
  shows "refines co (BinaryExpr k l r) e"
proof (cases "isDivKind k")
  case True
  then have "DivExpr_create k l r = Some e"
    using assms by (cases k) (auto simp: isDivKind_def BinaryExpr_create_Some)
  with True show ?thesis by (rule DivExpr_create_sound [rotated])
next
  case False
  then show ?thesis
    using assms AddSub_create_sound(1,2) [of co l r] MulExpr_create_sound [of co l r]
      AndExpr_create_sound [of co l r] OrExpr_create_sound [of co l r] XorExpr_create_sound [of co l r]
      EqExpr_create_sound [of co l r] NeExpr_create_sound [of co l r]
      shift_create_sound [of co l r] cmp_create_sound [of co l r]
      refines_trans [OF cmp_swap(1) cmp_create_sound(1)] refines_trans [OF cmp_swap(2) cmp_create_sound(2)]
      refines_trans [OF cmp_swap(3) cmp_create_sound(3)] refines_trans [OF cmp_swap(4) cmp_create_sound(4)]
    by (cases k) (auto simp: BinaryExpr_create_Some isDivKind_def UgtExpr_create_def UgeExpr_create_def SgtExpr_create_def SgeExpr_create_def)
qed

lemma BinaryExpr_create_None:
  "BinaryExpr_create co k l r = None \<longleftrightarrow>
     getWidth l \<noteq> getWidth r \<or> isDivKind k \<and> (\<exists>cl cr. l = ConstantExpr cl \<and> r = ConstantExpr cr \<and> isZero cr)"
  using DivExpr_create_None [of k l r] by (cases k) (auto simp: isDivKind_def BinaryExpr_create_def)

end
