(* ===== verification/ExprConcat.thy ===== *)
theory ExprConcat
  imports ExprCreateSound
begin

text \<open>
  Concatenation, extraction, casts, negation, selection and array reads of
  \<open>lib/Expr/Expr.cpp\<close>, with the derived constructors (\<open>createN\<close>, \<open>create4\<close>, \<open>create8\<close>,
  \<open>createTempRead\<close>, \<open>createFromKind\<close>, \<open>rebuild\<close>), and their soundness.
\<close>

section \<open>Extract and Concat\<close>

text \<open>
  \<open>ExtractExpr::create\<close> pushes an extraction into a concatenation and \<open>ConcatExpr::create\<close>
  merges contiguous extractions of one expression; they call each other. The source's
  unsigned \<open>w - width(kid 1) + off\<close> is \<open>w + off - width(kid 1)\<close> here, which does not wrap.
\<close>

text \<open>A measure for the mutual recursion: twice the size under an extraction.\<close>

fun extractSize :: "expr \<Rightarrow> nat" where
  "extractSize (ExtractExpr e _ _) = Suc (2 * size e)"
| "extractSize _ = 0"

function ExtractExpr_create :: "expr \<Rightarrow> nat \<Rightarrow> nat \<Rightarrow> expr"
  and ConcatExpr_create :: "expr \<Rightarrow> expr \<Rightarrow> expr" where
  "ExtractExpr_create e off w =
     (if w = getWidth e then e
      else
        (case e of
           ConstantExpr c \<Rightarrow> ConstantExpr (CE_Extract c off w)
         | ConcatExpr l r \<Rightarrow>
             if getWidth r \<le> off then ExtractExpr_create l (off - getWidth r) w
             else if off + w \<le> getWidth r then ExtractExpr_create r off w
             else ConcatExpr_create (ExtractExpr_create l 0 (w + off - getWidth r))
                                    (ExtractExpr_create r off (getWidth r - off))
         | _ \<Rightarrow> ExtractExpr e off w))"
| "ConcatExpr_create l r =
     (case l of
        ConstantExpr lc \<Rightarrow>
          (case r of
             ConstantExpr rc \<Rightarrow> ConstantExpr (CE_Concat lc rc)
           | _ \<Rightarrow> ConcatExpr l r)
      | ExtractExpr le lo lw \<Rightarrow>
          (case r of
             ExtractExpr re ro rw \<Rightarrow>
               if le = re \<and> ro + rw = lo
               then ExtractExpr_create le ro (getWidth l + getWidth r)
               else ConcatExpr l r
           | _ \<Rightarrow> ConcatExpr l r)
      | _ \<Rightarrow> ConcatExpr l r)"
  by pat_completeness auto

text \<open>
  Termination: the expression under an extraction that \<open>ExtractExpr::create\<close> returns is no
  larger than its argument.
\<close>

lemma extract_dom_size:
  "ExtractExpr_create_ConcatExpr_create_dom (Inl (e, off, w)) \<Longrightarrow>
     extractSize (ExtractExpr_create e off w) \<le> Suc (2 * size e)"
  "ExtractExpr_create_ConcatExpr_create_dom (Inr (l, r)) \<Longrightarrow>
     extractSize (ConcatExpr_create l r) \<le> extractSize l"
proof (induction e off w and l r rule: ExtractExpr_create_ConcatExpr_create.pinduct)
  case (1 e off w)
  have self: "extractSize e \<le> Suc (2 * size e)" by (cases e) auto
  show ?case
  proof (cases e)
    case (ConcatExpr l r)
    show ?thesis
    proof (cases "w = getWidth e")
      case False
      note IH = 1(2-) [OF False ConcatExpr]
      show ?thesis
        using IH(1,2) IH(3,4,5) 1(1) False ConcatExpr
        by (cases "getWidth r \<le> off"; cases "off + w \<le> getWidth r")
           (auto simp: ExtractExpr_create.psimps)
    qed (use 1 self in \<open>simp add: ExtractExpr_create.psimps\<close>)
  qed (use 1 self in \<open>auto simp: ExtractExpr_create.psimps\<close>)
next
  case (2 l r)
  then show ?case
    by (auto simp: ConcatExpr_create.psimps split: expr.splits)
qed

termination ExtractExpr_create
  by (relation "measure (\<lambda>x. case x of Inl (e, off, w) \<Rightarrow> 2 * size e | Inr (l, r) \<Rightarrow> extractSize l)")
     (auto intro: le_less_trans [OF extract_dom_size(1)])

declare ExtractExpr_create.simps [simp del] ConcatExpr_create.simps [simp del]

section \<open>Soundness of Extract and Concat\<close>

lemma refines_unaryI:
  assumes "wf_expr e \<Longrightarrow> wf_expr e' \<and> getWidth e' = getWidth e"
    and "\<And>\<sigma> v. wf_expr e \<Longrightarrow> wf_env co \<sigma> \<Longrightarrow> sem \<sigma> e = Some v \<Longrightarrow> fits (getWidth e) v \<Longrightarrow> sem \<sigma> e' = Some v"
  shows "refines co e e'"
  using assms sem_fits(1) by (auto simp: refines_def)

lemma mod_2_split: "x mod 2 ^ (m + n) = (x div 2 ^ n mod 2 ^ m) * 2 ^ n + x mod (2 ^ n :: int)"
  using zmod_zmult2_eq [of "2 ^ m" x "2 ^ n"] by (simp add: power_add mult.commute)

lemma div_2_add: "x div 2 ^ m div 2 ^ n = x div (2 ^ (m + n) :: int)"
  by (simp add: power_add zdiv_zmult2_eq)

lemma concat_div_high:
  assumes "fits n r" "n \<le> off"
  shows "(l * 2 ^ n + r) div 2 ^ off = l div 2 ^ (off - n)"
proof -
  have "(l * 2 ^ n + r) div 2 ^ n = l" using assms by (simp add: fits_def)
  with assms div_2_add [of "l * 2 ^ n + r" n "off - n"] show ?thesis by simp
qed

lemma concat_div_low:
  assumes "off \<le> n"
  shows "(l * 2 ^ n + r) div 2 ^ off = l * 2 ^ (n - off) + r div (2 ^ off :: int)"
proof -
  have *: "l * 2 ^ n + r = r + (l * 2 ^ (n - off)) * 2 ^ off"
    using assms by (simp add: mult.assoc flip: power_add)
  show ?thesis by (subst *, subst div_mult_self1) simp_all
qed

lemma concat_or:
  assumes "fits m l" "fits n r"
  shows "((l * 2 ^ n) mod 2 ^ (m + n)) OR r = l * 2 ^ n + r"
proof -
  have "l * 2 ^ n < 2 ^ m * 2 ^ n" using assms by (intro mult_strict_right_mono) (auto simp: fits_def)
  then have "(l * 2 ^ n) mod 2 ^ (m + n) = l * 2 ^ n"
    using assms by (simp add: fits_def power_add)
  moreover have "push_bit n l OR take_bit n r = push_bit n l + take_bit n r"
    using concat_bit_eq [of n r l] concat_bit_def [of n r l] by (simp add: ac_simps)
  ultimately show ?thesis
    using assms by (simp add: fits_take_bit push_bit_eq_mult)
qed

lemma sval_extract:
  assumes "off + w \<le> W"
  shows "(sval W v div 2 ^ off) mod 2 ^ w = (v div 2 ^ off) mod 2 ^ w"
proof -
  have "(v - 2 ^ W) div 2 ^ off = (v + (- (2 ^ (W - off))) * 2 ^ off) div 2 ^ off"
    using assms by (simp flip: power_add)
  also have "\<dots> = v div 2 ^ off - 2 ^ (W - off)"
    by (subst div_mult_self1) simp_all
  finally have *: "(v - 2 ^ W) div 2 ^ off = v div 2 ^ off - 2 ^ (W - off)" .
  have "2 ^ (W - off) mod (2 ^ w :: int) = 0"
    using assms by (simp add: mod_eq_0_iff_dvd le_imp_power_dvd)
  then have "(v div 2 ^ off - 2 ^ (W - off)) mod 2 ^ w = (v div 2 ^ off) mod 2 ^ w"
    by (subst mod_diff_right_eq [symmetric]) simp
  with * show ?thesis by (simp add: sval_def)
qed

lemma extract_full: "refines co (ExtractExpr e off (getWidth e)) e"
  by (rule refinesI) (auto simp: Option.bind_eq_Some_conv intro!: fits_mod_eq [symmetric] sem_fits(1))

lemma extract_const:
  "refines co (ExtractExpr (ConstantExpr c) off w) (ConstantExpr (CE_Extract c off w))"
  by (rule refinesI) (auto simp: CE_Extract_def mod_mod_le min_def sval_extract)

lemma extract_left:
  assumes "getWidth r \<le> off"
  shows "refines co (ExtractExpr (ConcatExpr l r) off w) (ExtractExpr l (off - getWidth r) w)"
  using assms by (intro refinesI)
    (auto simp: Option.bind_eq_Some_conv concat_div_high dest: sem_fits(1))

lemma extract_right:
  assumes "off + w \<le> getWidth r"
  shows "refines co (ExtractExpr (ConcatExpr l r) off w) (ExtractExpr r off w)"
proof -
  have "2 ^ w dvd l * 2 ^ (getWidth r - off)" for l :: int
    using assms by (simp add: le_imp_power_dvd)
  then have "(l * 2 ^ (getWidth r - off) + x) mod 2 ^ w = x mod 2 ^ w" for l x :: int
    by (metis add.left_neutral mod_add_left_eq mod_eq_0_iff_dvd)
  then show ?thesis
    using assms by (intro refinesI) (auto simp: Option.bind_eq_Some_conv concat_div_low)
qed

lemma extract_split:
  assumes "off < getWidth r" "getWidth r < off + w"
  shows "refines co (ExtractExpr (ConcatExpr l r) off w)
    (ConcatExpr (ExtractExpr l 0 (w + off - getWidth r)) (ExtractExpr r off (getWidth r - off)))"
proof (rule refinesI)
  fix \<sigma> v
  assume wf: "wf_expr (ExtractExpr (ConcatExpr l r) off w)" "wf_env co \<sigma>"
    and "sem \<sigma> (ExtractExpr (ConcatExpr l r) off w) = Some v"
  then obtain a b where ab: "sem \<sigma> l = Some a" "sem \<sigma> r = Some b"
      "v = ((a * 2 ^ getWidth r + b) div 2 ^ off) mod 2 ^ w"
    by (auto simp: Option.bind_eq_Some_conv)
  let ?n = "getWidth r - off" and ?m = "w + off - getWidth r"
  let ?x = "(a * 2 ^ getWidth r + b) div 2 ^ off"
  have w: "w = ?m + ?n" using assms by simp
  have b: "fits (getWidth r) b" using sem_fits(1) [OF ab(2) wf(2)] wf(1) by simp
  have x: "?x = a * 2 ^ ?n + b div 2 ^ off" using assms by (simp add: concat_div_low)
  have "?x div 2 ^ ?n = a"
    using b assms concat_div_high [of "getWidth r" b "getWidth r" a] div_2_add [of _ off ?n] by simp
  then have "v = (a mod 2 ^ ?m) * 2 ^ ?n + ?x mod 2 ^ ?n"
    using ab(3) w mod_2_split [of ?x ?m ?n] by metis
  then show "sem \<sigma> (ConcatExpr (ExtractExpr l 0 ?m) (ExtractExpr r off ?n)) = Some v"
    using ab x by simp
qed (use assms in auto)

lemma concat_const:
  "refines co (ConcatExpr (ConstantExpr a) (ConstantExpr b)) (ConstantExpr (CE_Concat a b))"
  by (rule refinesI)
     (auto simp: CE_Concat_def Let_def concat_or wf_const_def intro: fits_concat)

lemma concat_merge:
  assumes "ro + rw = lo"
  shows "refines co (ConcatExpr (ExtractExpr e lo lw) (ExtractExpr e ro rw)) (ExtractExpr e ro (lw + rw))"
  using assms by (intro refinesI)
    (auto simp: Option.bind_eq_Some_conv mod_2_split div_2_add)

lemma ExtractConcat_create_sound:
  "refines co (ExtractExpr e off w) (ExtractExpr_create e off w)"
  "refines co (ConcatExpr l r) (ConcatExpr_create l r)"
proof (induction e off w and l r rule: ExtractExpr_create_ConcatExpr_create.induct)
  case (1 e off w)
  show ?case
  proof (cases "w = getWidth e")
    case True
    then show ?thesis using extract_full by (simp add: ExtractExpr_create.simps)
  next
    case False
    show ?thesis
    proof (cases e)
      case (ConcatExpr l r)
      note IH = 1 [OF False ConcatExpr]
      show ?thesis
        using False ConcatExpr refines_trans [OF extract_left IH(1)] refines_trans [OF extract_right IH(2)]
          refines_trans [OF extract_split refines_trans [OF refines_concat [OF IH(3,4)] IH(5)]]
        by (subst ExtractExpr_create.simps) auto
    qed (use False extract_const in \<open>auto simp: ExtractExpr_create.simps\<close>)
  qed
next
  case (2 l r)
  then show ?case
    using refines_trans [OF concat_merge]
    by (subst ConcatExpr_create.simps) (auto split: expr.splits intro: concat_const)
qed

end
