(* ===== verification/ExprRead.thy ===== *)
theory ExprRead
  imports ExprConcat
begin

text \<open>
  The remaining constructors of \<open>lib/Expr/Expr.cpp\<close>: negation, casts, selection, array reads
  with their update lists, the derived concatenations, the typed reads of a whole object and
  the dispatch by kind that parsers and visitors use.
\<close>

section \<open>Not, ZExt, SExt, Select\<close>

definition NotExpr_create :: "expr \<Rightarrow> expr" where
  "NotExpr_create e = (case e of ConstantExpr c \<Rightarrow> ConstantExpr (CE_Not c) | _ \<Rightarrow> NotExpr e)"

definition ZExtExpr_create :: "expr \<Rightarrow> nat \<Rightarrow> expr" where
  "ZExtExpr_create e w =
     (let kBits = getWidth e
      in if w = kBits then e
         else if w < kBits then ExtractExpr_create e 0 w
         else (case e of ConstantExpr c \<Rightarrow> ConstantExpr (CE_ZExt c w) | _ \<Rightarrow> ZExtExpr e w))"

definition SExtExpr_create :: "expr \<Rightarrow> nat \<Rightarrow> expr" where
  "SExtExpr_create e w =
     (let kBits = getWidth e
      in if w = kBits then e
         else if w < kBits then ExtractExpr_create e 0 w
         else (case e of ConstantExpr c \<Rightarrow> ConstantExpr (CE_SExt c w) | _ \<Rightarrow> SExtExpr e w))"

definition SelectExpr_create :: "bool \<Rightarrow> expr \<Rightarrow> expr \<Rightarrow> expr \<Rightarrow> expr" where
  "SelectExpr_create co c t f =
     (case c of
        ConstantExpr CE \<Rightarrow> if isTrue CE then t else f
      | _ \<Rightarrow>
          if t = f then t
          else if getWidth t = 1 then
            (case t of
               ConstantExpr CE \<Rightarrow>
                 if isTrue CE then OrExpr_create c f
                 else AndExpr_create (createIsZero co c) f
             | _ \<Rightarrow>
                 (case f of
                    ConstantExpr CE \<Rightarrow>
                      if isTrue CE then OrExpr_create (createIsZero co c) t
                      else AndExpr_create c t
                  | _ \<Rightarrow> SelectExpr c t f))
          else SelectExpr c t f)"

section \<open>Reads\<close>

text \<open>
  The scan of the update list in \<open>ReadExpr::create\<close>: a write at the same index gives its
  value; a write whose index may or may not be the same stops the scan.
\<close>

datatype rollback = Found expr | Rest "(expr \<times> expr) list" bool

fun ReadExpr_rollback :: "bool \<Rightarrow> expr \<Rightarrow> (expr \<times> expr) list \<Rightarrow> rollback" where
  "ReadExpr_rollback co index [] = Rest [] False"
| "ReadExpr_rollback co index ((ui, uv) # us) =
     (case EqExpr_create co index ui of
        ConstantExpr CE \<Rightarrow> if isTrue CE then Found uv else ReadExpr_rollback co index us
      | _ \<Rightarrow> Rest ((ui, uv) # us) True)"

definition ReadExpr_create :: "bool \<Rightarrow> UpdateList \<Rightarrow> expr \<Rightarrow> expr" where
  "ReadExpr_create co ul index =
     (let A = fst ul; us = snd ul
      in case ReadExpr_rollback co index us of
           Found v \<Rightarrow> v
         | Rest un hasSymbolicWrites \<Rightarrow>
             (case index of
                ConstantExpr CE \<Rightarrow>
                  if apValue CE < int (asize A) then
                    if isConstantArray A \<and> \<not> hasSymbolicWrites
                    then ConstantExpr (constantValues A ! nat (apValue CE))
                    else ReadExpr A un index
                  else ReadExpr A us index
              | _ \<Rightarrow> ReadExpr A us index))"

definition extend :: "UpdateList \<Rightarrow> expr \<Rightarrow> expr \<Rightarrow> UpdateList" where
  "extend ul index v = (fst ul, (index, v) # snd ul)"

section \<open>Derived constructors\<close>

text \<open>\<open>ConcatExpr::createN\<close>: the first kid is the most significant.\<close>

fun ConcatExpr_createN :: "expr list \<Rightarrow> expr option" where
  "ConcatExpr_createN [] = None"
| "ConcatExpr_createN [e] = Some e"
| "ConcatExpr_createN (e # es) = map_option (ConcatExpr_create e) (ConcatExpr_createN es)"

definition ConcatExpr_create4 :: "expr \<Rightarrow> expr \<Rightarrow> expr \<Rightarrow> expr \<Rightarrow> expr" where
  "ConcatExpr_create4 k1 k2 k3 k4 =
     ConcatExpr_create k1 (ConcatExpr_create k2 (ConcatExpr_create k3 k4))"

definition ConcatExpr_create8 ::
    "expr \<Rightarrow> expr \<Rightarrow> expr \<Rightarrow> expr \<Rightarrow> expr \<Rightarrow> expr \<Rightarrow> expr \<Rightarrow> expr \<Rightarrow> expr" where
  "ConcatExpr_create8 k1 k2 k3 k4 k5 k6 k7 k8 =
     ConcatExpr_create k1 (ConcatExpr_create k2 (ConcatExpr_create k3
       (ConcatExpr_create k4 (ConcatExpr_create4 k5 k6 k7 k8))))"

text \<open>\<open>Expr::createTempRead\<close>; \<open>None\<close> is its assertion on the width.\<close>

definition createTempRead :: "bool \<Rightarrow> Array \<Rightarrow> nat \<Rightarrow> expr option" where
  "createTempRead co A w =
     (let rd = (\<lambda>n. ReadExpr_create co (A, []) (ConstantExpr (alloc n 32)))
      in if w = 1 then Some (ZExtExpr_create (rd 0) 1)
         else if w = 8 then Some (rd 0)
         else if w = 16 then Some (ConcatExpr_create (rd 1) (rd 0))
         else if w = 32 then Some (ConcatExpr_create4 (rd 3) (rd 2) (rd 1) (rd 0))
         else if w = 64 then
           Some (ConcatExpr_create8 (rd 7) (rd 6) (rd 5) (rd 4) (rd 3) (rd 2) (rd 1) (rd 0))
         else None)"

text \<open>The kinds of \<open>Expr::Kind\<close>, and \<open>Expr::createFromKind\<close>, which has no case for \<open>Not\<close>.\<close>

datatype Kind =
    KConstant | KNotOptimized | KRead | KSelect | KConcat | KExtract | KZExt | KSExt | KNot
  | KBinary kind

fun getKind :: "expr \<Rightarrow> Kind" where
  "getKind (ConstantExpr _) = KConstant"
| "getKind (NotOptimizedExpr _) = KNotOptimized"
| "getKind (ReadExpr _ _ _) = KRead"
| "getKind (SelectExpr _ _ _) = KSelect"
| "getKind (ConcatExpr _ _) = KConcat"
| "getKind (ExtractExpr _ _ _) = KExtract"
| "getKind (ZExtExpr _ _) = KZExt"
| "getKind (SExtExpr _ _) = KSExt"
| "getKind (NotExpr _) = KNot"
| "getKind (BinaryExpr k _ _) = KBinary k"

datatype CreateArg = ArgExpr expr | ArgWidth nat

fun createFromKind :: "bool \<Rightarrow> Kind \<Rightarrow> CreateArg list \<Rightarrow> expr option" where
  "createFromKind co KNotOptimized [ArgExpr e] = Some (NotOptimizedExpr e)"
| "createFromKind co KSelect [ArgExpr c, ArgExpr t, ArgExpr f] = Some (SelectExpr_create co c t f)"
| "createFromKind co KConcat [ArgExpr l, ArgExpr r] = Some (ConcatExpr_create l r)"
| "createFromKind co KZExt [ArgExpr e, ArgWidth w] = Some (ZExtExpr_create e w)"
| "createFromKind co KSExt [ArgExpr e, ArgWidth w] = Some (SExtExpr_create e w)"
| "createFromKind co (KBinary k) [ArgExpr l, ArgExpr r] = BinaryExpr_create co k l r"
| "createFromKind co _ _ = None"

text \<open>
  The virtual method \<open>rebuild\<close>: the same node over new kids. \<open>None\<close> is a constant, which has
  no kids to rebuild from, a wrong number of kids, or operands that the binary \<open>create\<close> rejects.
\<close>

definition rebuild :: "bool \<Rightarrow> expr \<Rightarrow> expr list \<Rightarrow> expr option" where
  "rebuild co e kids =
     (case e of
        ConstantExpr c \<Rightarrow> None
      | NotOptimizedExpr _ \<Rightarrow> (case kids of [x] \<Rightarrow> Some (NotOptimizedExpr x) | _ \<Rightarrow> None)
      | ReadExpr A us _ \<Rightarrow> (case kids of [x] \<Rightarrow> Some (ReadExpr_create co (A, us) x) | _ \<Rightarrow> None)
      | SelectExpr _ _ _ \<Rightarrow> (case kids of [c, t, f] \<Rightarrow> Some (SelectExpr_create co c t f) | _ \<Rightarrow> None)
      | ConcatExpr _ _ \<Rightarrow> (case kids of [l, r] \<Rightarrow> Some (ConcatExpr_create l r) | _ \<Rightarrow> None)
      | ExtractExpr _ off w \<Rightarrow> (case kids of [x] \<Rightarrow> Some (ExtractExpr_create x off w) | _ \<Rightarrow> None)
      | ZExtExpr _ w \<Rightarrow> (case kids of [x] \<Rightarrow> Some (ZExtExpr_create x w) | _ \<Rightarrow> None)
      | SExtExpr _ w \<Rightarrow> (case kids of [x] \<Rightarrow> Some (SExtExpr_create x w) | _ \<Rightarrow> None)
      | NotExpr _ \<Rightarrow> (case kids of [x] \<Rightarrow> Some (NotExpr_create x) | _ \<Rightarrow> None)
      | BinaryExpr k _ _ \<Rightarrow> (case kids of [l, r] \<Rightarrow> BinaryExpr_create co k l r | _ \<Rightarrow> None))"

section \<open>Soundness\<close>

lemma mod_not: "fits w v \<Longrightarrow> (- v - 1) mod 2 ^ w = 2 ^ w - 1 - v"
  by (subst mod_add_self1 [of "2 ^ w" "- v - 1", symmetric], subst mod_pos_pos_trivial)
     (auto simp: fits_def)

lemma NotExpr_create_sound: "refines co (NotExpr e) (NotExpr_create e)"
proof -
  have "refines co (NotExpr (ConstantExpr c)) (ConstantExpr (CE_Not c))" for c
    by (rule refinesI) (auto simp: CE_Not_def wf_const_def not_int_def mod_not fits_not)
  then show ?thesis by (cases e) (auto simp: NotExpr_create_def)
qed

text \<open>Casts to at least the width of the operand; a cast to a smaller width truncates.\<close>

lemma ZExtExpr_create_sound:
  assumes "getWidth e \<le> w"
  shows "refines co (ZExtExpr e w) (ZExtExpr_create e w)"
proof -
  have "w = getWidth e \<Longrightarrow> refines co (ZExtExpr e w) e"
    by (rule refinesI) (auto simp: Option.bind_eq_Some_conv intro!: fits_mod_eq [symmetric] sem_fits(1))
  moreover have "refines co (ZExtExpr (ConstantExpr c) w) (ConstantExpr (CE_ZExt c w))" for c
    by (rule refinesI) (auto simp: CE_ZExt_def wf_const_def)
  ultimately show ?thesis
    using assms by (cases e) (auto simp: ZExtExpr_create_def Let_def)
qed

lemma SExtExpr_create_sound:
  assumes "getWidth e \<le> w"
  shows "refines co (SExtExpr e w) (SExtExpr_create e w)"
proof -
  have "w = getWidth e \<Longrightarrow> refines co (SExtExpr e w) e"
    by (rule refinesI)
       (auto simp: Option.bind_eq_Some_conv dest: sem_fits(1) intro!: sval_mod [symmetric])
  moreover have "refines co (SExtExpr (ConstantExpr c) w) (ConstantExpr (CE_SExt c w))" for c
    by (rule refinesI) (auto simp: CE_SExt_def wf_const_def)
  ultimately show ?thesis
    using assms by (cases e) (auto simp: SExtExpr_create_def Let_def)
qed

lemma cast_create_trunc:
  assumes "w < getWidth e"
  shows "refines co (ExtractExpr e 0 w) (ZExtExpr_create e w)"
    and "refines co (ExtractExpr e 0 w) (SExtExpr_create e w)"
  using assms ExtractConcat_create_sound(1)
  by (auto simp: ZExtExpr_create_def SExtExpr_create_def Let_def)

text \<open>Selections of booleans as connectives.\<close>

lemma select_boolI:
  assumes "wf_expr (SelectExpr c t f) \<Longrightarrow> wf_expr e' \<and> getWidth e' = 1" and "getWidth t = 1"
    and "\<And>\<sigma> a b d. sem \<sigma> c = Some a \<Longrightarrow> sem \<sigma> t = Some b \<Longrightarrow> sem \<sigma> f = Some d \<Longrightarrow> wf_expr t \<Longrightarrow> wf_expr f \<Longrightarrow>
      a = 0 \<or> a = 1 \<Longrightarrow> b = 0 \<or> b = 1 \<Longrightarrow> d = 0 \<or> d = 1 \<Longrightarrow> getWidth c = 1 \<Longrightarrow> getWidth f = 1 \<Longrightarrow>
      sem \<sigma> e' = Some (if a \<noteq> 0 then b else d)"
  shows "refines co (SelectExpr c t f) e'"
proof (rule refinesI)
  fix \<sigma> v
  assume wf: "wf_expr (SelectExpr c t f)" "wf_env co \<sigma>" and v: "sem \<sigma> (SelectExpr c t f) = Some v"
  then obtain a b d where s: "sem \<sigma> c = Some a" "sem \<sigma> t = Some b" "sem \<sigma> f = Some d"
      "v = (if a \<noteq> 0 then b else d)"
    by (auto simp: Option.bind_eq_Some_conv split: if_splits)
  have "fits (getWidth c) a" "fits (getWidth t) b" "fits (getWidth f) d"
    using sem_fits(1) [OF s(1) wf(2)] sem_fits(1) [OF s(2) wf(2)] sem_fits(1) [OF s(3) wf(2)] wf(1)
    by auto
  then have "a = 0 \<or> a = 1" "b = 0 \<or> b = 1" "d = 0 \<or> d = 1"
    using wf assms(2) fits_bool_cases by auto
  then have "sem \<sigma> e' = Some (if a \<noteq> 0 then b else d)"
    using wf assms(2) by (intro assms(3) [OF s(1-3)]) auto
  with s(4) show "sem \<sigma> e' = Some v" by simp
qed (use assms(1,2) in auto)

lemma select_laws:
  assumes "getWidth t = 1"
  shows "t = ConstantExpr CE \<Longrightarrow> isTrue CE \<Longrightarrow> refines co (SelectExpr c t f) (OrExpr c f)"
    and "t = ConstantExpr CE \<Longrightarrow> \<not> isTrue CE \<Longrightarrow> refines co (SelectExpr c t f) (AndExpr (zeroEq c) f)"
    and "f = ConstantExpr CE \<Longrightarrow> isTrue CE \<Longrightarrow> refines co (SelectExpr c t f) (OrExpr (zeroEq c) t)"
    and "f = ConstantExpr CE \<Longrightarrow> \<not> isTrue CE \<Longrightarrow> refines co (SelectExpr c t f) (AndExpr c t)"
  by (rule select_boolI; use assms in \<open>auto simp: kind_simps isTrue_value not_isTrue_value\<close>)+

lemma select_steps:
  assumes "getWidth t = 1"
  shows "t = ConstantExpr CE \<Longrightarrow> isTrue CE \<Longrightarrow> refines co (SelectExpr c t f) (OrExpr_create c f)"
    and "t = ConstantExpr CE \<Longrightarrow> \<not> isTrue CE \<Longrightarrow> refines co (SelectExpr c t f) (AndExpr_create (createIsZero co c) f)"
    and "f = ConstantExpr CE \<Longrightarrow> isTrue CE \<Longrightarrow> refines co (SelectExpr c t f) (OrExpr_create (createIsZero co c) t)"
    and "f = ConstantExpr CE \<Longrightarrow> \<not> isTrue CE \<Longrightarrow> refines co (SelectExpr c t f) (AndExpr_create c t)"
  by (rule step_bool [OF select_laws(1) [OF assms] refines_refl refines_refl OrExpr_create_sound]
      step_bool [OF select_laws(2) [OF assms] createIsZero_sound refines_refl AndExpr_create_sound]
      step_bool [OF select_laws(3) [OF assms] createIsZero_sound refines_refl OrExpr_create_sound]
      step_bool [OF select_laws(4) [OF assms] refines_refl refines_refl AndExpr_create_sound];
      assumption)+

lemma SelectExpr_create_sound: "refines co (SelectExpr c t f) (SelectExpr_create co c t f)"
proof -
  have const: "refines co (SelectExpr (ConstantExpr CE) t f) (if isTrue CE then t else f)" for CE
    by (rule refinesI) (auto simp: Option.bind_eq_Some_conv isTrue_value not_isTrue_value)
  have same: "refines co (SelectExpr c t t) t"
    by (rule refinesI) (auto simp: Option.bind_eq_Some_conv)
  show ?thesis
  proof (cases "isConstantExpr c")
    case True
    with const show ?thesis by (auto elim!: isConstantExprE simp: SelectExpr_create_def)
  next
    case c: False
    consider "t = f" | "t \<noteq> f" "getWidth t \<noteq> 1" | CE where "t \<noteq> f" "getWidth t = 1" "t = ConstantExpr CE"
      | CE where "t \<noteq> f" "getWidth t = 1" "\<not> isConstantExpr t" "f = ConstantExpr CE"
      | "t \<noteq> f" "getWidth t = 1" "\<not> isConstantExpr t" "\<not> isConstantExpr f"
      by (cases t; cases f) auto
    then show ?thesis
      using c same select_steps by cases (simp_all add: SelectExpr_create_def)
  qed
qed

text \<open>The scan of the update list.\<close>

lemma eq_const_value:
  assumes "EqExpr_create co l r = ConstantExpr CE" "wf_expr l" "wf_expr r" "getWidth l = getWidth r"
    and "wf_env co \<sigma>" "sem \<sigma> l = Some a" "sem \<sigma> r = Some b"
  shows "isTrue CE \<longleftrightarrow> a = b"
proof -
  have wf: "wf_expr (EqExpr l r)" using assms by simp
  note R = refinesD [OF EqExpr_create_sound [of co] wf, unfolded assms(1)]
  have "sem \<sigma> (EqExpr l r) = Some (of_bool (a = b))" using assms by (simp add: kind_simps)
  from R(3) [OF assms(5) this] R(2) show ?thesis by (auto simp: isTrue_def kind_simps)
qed

lemma ReadExpr_rollback_sound:
  assumes "wf_expr (ReadExpr A us i)"
  shows "case ReadExpr_rollback co i us of
      Found v \<Rightarrow> refines co (ReadExpr A us i) v
    | Rest un sw \<Rightarrow> refines co (ReadExpr A us i) (ReadExpr A un i) \<and> (\<not> sw \<longrightarrow> un = [])"
  using assms
proof (induction us)
  case (Cons u us)
  obtain ui uv where u: "u = (ui, uv)" by (cases u)
  have wf: "wf_expr i" "wf_expr ui" "wf_expr uv" "getWidth i = getWidth ui" "getWidth uv = arange A"
      "wf_expr (ReadExpr A us i)"
    using Cons.prems by (auto simp: u)
  show ?case
  proof (cases "isConstantExpr (EqExpr_create co i ui)")
    case True
    then obtain CE where CE: "EqExpr_create co i ui = ConstantExpr CE" by (rule isConstantExprE)
    note val = eq_const_value [OF CE wf(1,2,4)]
    show ?thesis
    proof (cases "isTrue CE")
      case True
      have "refines co (ReadExpr A (u # us) i) uv"
        by (rule refinesI) (use True val wf in \<open>auto simp: u Option.bind_eq_Some_conv split: if_splits\<close>)
      with True CE show ?thesis by (simp add: u)
    next
      case False
      have "refines co (ReadExpr A (u # us) i) (ReadExpr A us i)"
        by (rule refinesI) (use False val wf in \<open>auto simp: u Option.bind_eq_Some_conv split: if_splits\<close>)
      with Cons.IH [OF wf(6)] False CE show ?thesis
        by (auto simp: u split: rollback.splits intro: refines_trans)
    qed
  qed (simp add: u)
qed simp

lemma read_const_array:
  assumes "isConstantArray A" "apValue c < int (asize A)"
  shows "refines co (ReadExpr A [] (ConstantExpr c)) (ConstantExpr (constantValues A ! nat (apValue c)))"
proof (rule refinesI)
  assume "wf_expr (ReadExpr A [] (ConstantExpr c))"
  then have "constantValues A ! nat (apValue c) \<in> set (constantValues A)" "wf_array A"
    using assms by (auto simp: wf_array_def isConstantArray_def wf_const_def fits_def)
  then show "wf_expr (ConstantExpr (constantValues A ! nat (apValue c)))"
    "getWidth (ConstantExpr (constantValues A ! nat (apValue c))) = getWidth (ReadExpr A [] (ConstantExpr c))"
    by (auto simp: wf_array_def)
qed (use assms in \<open>auto simp: initialValue_def\<close>)

lemma ReadExpr_create_sound:
  "refines co (ReadExpr A us i) (ReadExpr_create co (A, us) i)"
proof (cases "wf_expr (ReadExpr A us i)")
  case True
  note R = ReadExpr_rollback_sound [OF True, of co]
  show ?thesis
    using R refines_trans [OF _ read_const_array [of A _ co]]
    by (auto simp: ReadExpr_create_def Let_def split: rollback.splits expr.split)
qed (simp add: refines_def del: wf_expr.simps)

text \<open>\<open>rebuild\<close> over kids that refine the old ones refines the node.\<close>

lemma rebuild_sound:
  assumes "rebuild co e kids = Some e'" "list_all2 (refines co) (getKids e) kids" "wf_expr e"
  shows "refines co e e'"
proof (cases e)
  case (ReadExpr A us i)
  then show ?thesis
    using assms by (auto simp: rebuild_def list_all2_Cons1 intro: refines_trans [OF refines_read_index ReadExpr_create_sound])
next
  case (SelectExpr c t f)
  then show ?thesis
    using assms by (auto simp: rebuild_def list_all2_Cons1 intro: refines_trans [OF refines_select SelectExpr_create_sound])
next
  case (ConcatExpr l r)
  then show ?thesis
    using assms by (auto simp: rebuild_def list_all2_Cons1 intro: refines_trans [OF refines_concat ExtractConcat_create_sound(2)])
next
  case (ExtractExpr x off w)
  then show ?thesis
    using assms by (auto simp: rebuild_def list_all2_Cons1 intro: refines_trans [OF refines_extract ExtractConcat_create_sound(1)])
next
  case (ZExtExpr x w)
  then show ?thesis
    using assms by (auto simp: rebuild_def list_all2_Cons1 refinesD(2)
        intro!: refines_trans [OF refines_zext ZExtExpr_create_sound])
next
  case (SExtExpr x w)
  then show ?thesis
    using assms by (auto simp: rebuild_def list_all2_Cons1 refinesD(2)
        intro!: refines_trans [OF refines_sext SExtExpr_create_sound])
next
  case (NotExpr x)
  then show ?thesis
    using assms by (auto simp: rebuild_def list_all2_Cons1 intro: refines_trans [OF refines_not NotExpr_create_sound])
next
  case (BinaryExpr k l r)
  then show ?thesis
    using assms by (auto simp: rebuild_def list_all2_Cons1 intro: refines_trans [OF refines_binary BinaryExpr_create_sound])
next
  case (NotOptimizedExpr x)
  then show ?thesis
    using assms by (auto simp: rebuild_def list_all2_Cons1 intro: refines_notOptimized)
qed (use assms in \<open>simp add: rebuild_def\<close>)

text \<open>
  Concatenations: the value of \<open>createN\<close> on kids of one width, most significant first, and
  the little-endian value of the first bytes of an array.
\<close>

lemma ConcatExpr_create_sem:
  assumes "wf_expr l" "wf_expr r" "wf_env co \<sigma>" "sem \<sigma> l = Some a" "sem \<sigma> r = Some b"
  shows "wf_expr (ConcatExpr_create l r)" "getWidth (ConcatExpr_create l r) = getWidth l + getWidth r"
    "sem \<sigma> (ConcatExpr_create l r) = Some (a * 2 ^ getWidth r + b)"
  using assms refinesD [OF ExtractConcat_create_sound(2) [of co l r]] by auto

fun bigEndian :: "nat \<Rightarrow> int list \<Rightarrow> int" where
  "bigEndian w [] = 0"
| "bigEndian w (b # bs) = b * 2 ^ (w * length bs) + bigEndian w bs"

lemma bigEndian_sum: "bigEndian w (map f (rev [0..<n])) = (\<Sum>i<n. f i * 2 ^ (w * i))"
  by (induction n) (auto simp: add.commute)

lemma ConcatExpr_createN_sem:
  assumes "ConcatExpr_createN es = Some e" "wf_env co \<sigma>"
    and "list_all2 (\<lambda>x b. wf_expr x \<and> getWidth x = w \<and> sem \<sigma> x = Some b) es bs"
  shows "wf_expr e \<and> getWidth e = w * length es \<and> sem \<sigma> e = Some (bigEndian w bs)"
  using assms(1,3)
proof (induction es arbitrary: e bs rule: ConcatExpr_createN.induct)
  case (3 x y es)
  then obtain e' b bs' where "ConcatExpr_createN (y # es) = Some e'" "e = ConcatExpr_create x e'"
      "bs = b # bs'" "wf_expr x" "getWidth x = w" "sem \<sigma> x = Some b"
      "list_all2 (\<lambda>x b. wf_expr x \<and> getWidth x = w \<and> sem \<sigma> x = Some b) (y # es) bs'"
    by (auto simp: list_all2_Cons1)
  moreover from this(7) have "length bs' = Suc (length es)" by (auto dest: list_all2_lengthD)
  ultimately show ?case
    using 3(1) [of e' bs'] ConcatExpr_create_sem [of x e' co \<sigma>] assms(2) by (simp add: algebra_simps)
qed (auto simp: list_all2_Cons1)

lemma create48_createN:
  "ConcatExpr_createN [k1, k2, k3, k4] = Some (ConcatExpr_create4 k1 k2 k3 k4)"
  "ConcatExpr_createN [k1, k2, k3, k4, k5, k6, k7, k8] = Some (ConcatExpr_create8 k1 k2 k3 k4 k5 k6 k7 k8)"
  by (simp_all add: ConcatExpr_create4_def ConcatExpr_create8_def)

lemma upt_numerals:
  "[0..<2] = [0, 1]" "[0..<4] = [0, 1, 2, 3]" "[0..<8] = [0, 1, 2, 3, 4, 5, 6, 7]"
  by code_simp+

lemma createTempRead_createN:
  assumes "createTempRead co A w = Some e" "w \<noteq> 1"
  shows "w mod 8 = 0 \<and> ConcatExpr_createN (map (\<lambda>n. ReadExpr_create co (A, []) (ConstantExpr (alloc (int n) 32)))
    (rev [0..<w div 8])) = Some e"
  using assms
  by (auto simp: createTempRead_def Let_def create48_createN ConcatExpr_create4_def ConcatExpr_create8_def
      upt_numerals split: if_splits)

lemma ReadExpr_create_byte:
  assumes "wf_array A" "adomain A = 32" "wf_env co \<sigma>" "n < 2 ^ 32" "initialValue \<sigma> A (int n) = Some b"
  defines "e \<equiv> ReadExpr_create co (A, []) (ConstantExpr (alloc (int n) 32))"
  shows "wf_expr e \<and> getWidth e = arange A \<and> sem \<sigma> e = Some b"
proof -
  have wf: "wf_expr (ReadExpr A [] (ConstantExpr (alloc (int n) 32)))" using assms by simp
  have "sem \<sigma> (ReadExpr A [] (ConstantExpr (alloc (int n) 32))) = Some b" using assms by simp
  with refinesD [OF ReadExpr_create_sound [of co] wf] assms(3) show ?thesis
    by (simp add: e_def)
qed

lemma createTempRead_sem:
  assumes "createTempRead co A w = Some e" "w \<noteq> 1" "wf_array A" "adomain A = 32" "arange A = 8"
    and "wf_env co \<sigma>" "\<And>n. n < w div 8 \<Longrightarrow> initialValue \<sigma> A (int n) = Some (byte n)"
  shows "wf_expr e \<and> getWidth e = w \<and> sem \<sigma> e = Some (bigEndian 8 (map byte (rev [0..<w div 8])))"
proof -
  let ?rd = "\<lambda>n. ReadExpr_create co (A, []) (ConstantExpr (alloc (int n) 32))"
  have w: "w \<in> {8, 16, 32, 64}"
    using assms(1,2) by (auto simp: createTempRead_def Let_def split: if_splits)
  have rd: "n < w div 8 \<Longrightarrow> wf_expr (?rd n) \<and> getWidth (?rd n) = 8 \<and> sem \<sigma> (?rd n) = Some (byte n)" for n
    using ReadExpr_create_byte [OF assms(3,4,6) _ assms(7)] w assms(5) by auto
  have "list_all2 (\<lambda>x b. wf_expr x \<and> getWidth x = 8 \<and> sem \<sigma> x = Some b)
      (map ?rd (rev [0..<w div 8])) (map byte (rev [0..<w div 8]))"
    using rd by (auto simp: list.rel_map intro!: list.rel_refl_strong)
  from ConcatExpr_createN_sem [OF _ assms(6) this, of e] createTempRead_createN [OF assms(1,2)] w
  show ?thesis by auto
qed

end
