(* ===== verification/ExprCorrect.thy ===== *)
theory ExprCorrect
  imports ExprRead
begin

text \<open>
  The correctness statements of the expression constructors of \<open>lib/Expr/Expr.cpp\<close>, each with
  a concrete instance. They are stated over the values of expressions, without the refinement
  order, so that they can be read on their own.
\<close>

section \<open>Example data\<close>

text \<open>A symbolic buffer, a constant table, and an environment that gives one value to all bytes.\<close>

definition buf :: Array where
  "buf = \<lparr>address = 1, aname = ''buf'', asize = 4, adomain = 32, arange = 8, constantValues = []\<rparr>"

definition table :: Array where
  "table = \<lparr>address = 2, aname = ''table'', asize = 3, adomain = 32, arange = 8,
     constantValues = [APInt 8 7, APInt 8 9, APInt 8 7]\<rparr>"

definition env8 :: "int \<Rightarrow> env" where
  "env8 b = (\<lambda>A i. if arange A = 8 \<and> i < int (asize A) then Some (b mod 256) else None)"

abbreviation c8 :: "int \<Rightarrow> expr" where
  "c8 v \<equiv> ConstantExpr (APInt 8 v)"

abbreviation c32 :: "int \<Rightarrow> expr" where
  "c32 v \<equiv> ConstantExpr (APInt 32 v)"

abbreviation bufAt :: "int \<Rightarrow> expr" where
  "bufAt i \<equiv> ReadExpr buf [] (c32 i)"

lemma wf_env8 [simp]: "wf_env co (env8 b)"
  by (auto simp: wf_env_def env8_def fits_def)

lemma wf_buf [simp]: "wf_array buf" "wf_array table"
  by (auto simp: wf_array_def buf_def table_def isSymbolicArray_def wf_const_def fits_def)

lemma buf_simps [simp]:
  "adomain buf = 32" "arange buf = 8" "adomain table = 32" "arange table = 8"
  "asize buf = 4" "asize table = 3" "constantValues buf = []"
  "constantValues table = [APInt 8 7, APInt 8 9, APInt 8 7]"
  "isConstantArray buf = False" "isConstantArray table = True"
  by (auto simp: buf_def table_def isConstantArray_def isSymbolicArray_def)

lemma env8_apply: "env8 b A i = (if arange A = 8 \<and> i < int (asize A) then Some (b mod 256) else None)"
  by (simp add: env8_def)

lemmas example_simps = wf_const_def fits_def env8_apply initialValue_def kind_simps

text \<open>The equations by which the constructors are evaluated on concrete operands.\<close>

lemmas create_evals = BinaryExpr_create_def EqExpr_create_def EqExpr_createPartialR.simps EqExpr_createK.simps EqExpr_createNN_def
  AddExpr_create.simps SubExpr_create.simps AddExpr_createPartial_def SubExpr_createPartial_def
  AddExpr_createPartialR.simps SubExpr_createPartialR.simps AddExpr_createC.simps SubExpr_createC.simps
  OrExpr_create_def OrExpr_createPartial_def OrExpr_createPartialR_def TryConstArrayOpt_def
  bcreate_R_def CE_op_def CE_ZExt_def CE_SExt_def alloc_def Let_def isZero_def isTrue_def isFalse_def
  isAllOnes_def isSymbolicArray_def kind_simps

section \<open>Binary constructors\<close>

text \<open>
  C5: every binary \<open>create\<close> (the arithmetic, bitwise, shift and comparison classes, through
  all their constant folding, reassociation and boolean rewriting, and with the constant array
  optimisation on or off) returns a well-formed expression of the width of the operation, whose
  value is the value of the operation on its operands wherever that is defined.
\<close>

theorem BinaryExpr_create_correct:
  assumes "BinaryExpr_create co k l r = Some e"
    and "wf_expr l" "wf_expr r" "getWidth l = getWidth r"
  shows "wf_expr e \<and> getWidth e = opWidth k (getWidth l) \<and>
    (\<forall>\<sigma> a b v. wf_env co \<sigma> \<and> sem \<sigma> l = Some a \<and> sem \<sigma> r = Some b \<and> bvOp k (getWidth l) a b = Some v
       \<longrightarrow> sem \<sigma> e = Some v)"
  using refinesD [OF BinaryExpr_create_sound [OF assms(1)]] assms(2-4) by auto

theorem BinaryExpr_create_correct_witness:
  "BinaryExpr_create False Sub (AddExpr (c8 5) (bufAt 0)) (c8 3) = Some (AddExpr (c8 2) (bufAt 0)) \<and>
   sem (env8 255) (AddExpr (c8 2) (bufAt 0)) = Some 1"
proof -
  have e: "BinaryExpr_create False Sub (AddExpr (c8 5) (bufAt 0)) (c8 3) = Some (AddExpr (c8 2) (bufAt 0))"
    by (simp add: create_evals)
  have "sem (env8 255) (AddExpr (c8 5) (bufAt 0)) = Some 4" "sem (env8 255) (c8 3) = Some 3"
    by (simp_all add: example_simps)
  with BinaryExpr_create_correct [OF e] e show ?thesis
    by (simp add: example_simps)
qed

text \<open>
  C11: the constant array optimisation. A comparison of a constant with a read of a constant
  array at a symbolic index is turned into a disjunction over the matching indices (or left as
  it is beyond 100 matches); for every index within the bounds of the array the result is true
  exactly when the array holds the constant there.
\<close>

theorem const_array_comparison:
  assumes "wf_array A" "isConstantArray A" "wf_expr i" "getWidth i = adomain A"
    and "wf_const cl" "bitWidth cl = arange A"
    and "wf_env True \<sigma>" "sem \<sigma> i = Some n" "n < int (asize A)"
  shows "sem \<sigma> (EqExpr_create True (ConstantExpr cl) (ReadExpr A [] i)) =
    Some (of_bool (constantValues A ! nat n = cl))"
proof -
  have "0 \<le> n" using sem_fits(1) [OF assms(8,7,3)] by auto
  with assms have "constantValues A ! nat n \<in> set (constantValues A)"
    by (auto simp: wf_array_def isConstantArray_def)
  with assms have "wf_const (constantValues A ! nat n)" "bitWidth (constantValues A ! nat n) = bitWidth cl"
    by (auto simp: wf_array_def)
  with assms have "sem \<sigma> (EqExpr (ConstantExpr cl) (ReadExpr A [] i)) = Some (of_bool (constantValues A ! nat n = cl))"
    by (auto simp: kind_simps initialValue_def intro: apint.expand)
  with refinesD(3) [OF EqExpr_create_sound [of True "ConstantExpr cl" "ReadExpr A [] i"]] assms
  show ?thesis by simp
qed

theorem const_array_comparison_witness:
  "EqExpr_create True (c8 7) (ReadExpr table [] (ZExtExpr (bufAt 0) 32)) =
     OrExpr (EqExpr (c8 0) (bufAt 0)) (EqExpr (c8 2) (bufAt 0)) \<and>
   sem (env8 2) (EqExpr_create True (c8 7) (ReadExpr table [] (ZExtExpr (bufAt 0) 32))) = Some 1"
  using const_array_comparison [of table "ZExtExpr (bufAt 0) 32" "APInt 8 7" "env8 2" 2]
  by (simp add: create_evals example_simps)

text \<open>
  The same optimisation at an index beyond the end of the array: the comparison becomes
  false whatever byte an evaluator supplies there, so the bound on the index in the previous
  statement cannot be dropped.
\<close>

theorem const_array_comparison_out_of_bounds:
  "\<exists>\<sigma>. wf_env False \<sigma> \<and>
     sem \<sigma> (EqExpr (c8 7) (ReadExpr table [] (ZExtExpr (bufAt 0) 32))) = Some 1 \<and>
     sem \<sigma> (EqExpr_create True (c8 7) (ReadExpr table [] (ZExtExpr (bufAt 0) 32))) = Some 0"
proof (intro exI conjI)
  let ?\<sigma> = "\<lambda>A i. if arange A = 8 then Some (7::int) else None"
  show "wf_env False ?\<sigma>" by (auto simp: wf_env_def fits_def)
  show "sem ?\<sigma> (EqExpr (c8 7) (ReadExpr table [] (ZExtExpr (bufAt 0) 32))) = Some 1"
    by (simp add: example_simps)
  show "sem ?\<sigma> (EqExpr_create True (c8 7) (ReadExpr table [] (ZExtExpr (bufAt 0) 32))) = Some 0"
    by (simp add: create_evals example_simps)
qed

section \<open>Extraction, concatenation, casts\<close>

text \<open>
  C7: \<open>ExtractExpr::create\<close> and \<open>ConcatExpr::create\<close>, which call each other to push
  extractions into concatenations and to merge adjacent extractions, terminate on all arguments
  and return the bits they are asked for.
\<close>

theorem ExtractConcat_create_correct:
  assumes "wf_expr l" "wf_expr r" "wf_env co \<sigma>" "sem \<sigma> l = Some a" "sem \<sigma> r = Some b"
    and "0 < w" "off + w \<le> getWidth l + getWidth r"
  defines "c \<equiv> ConcatExpr_create l r"
  shows "wf_expr c \<and> getWidth c = getWidth l + getWidth r \<and> sem \<sigma> c = Some (a * 2 ^ getWidth r + b) \<and>
    wf_expr (ExtractExpr_create c off w) \<and> getWidth (ExtractExpr_create c off w) = w \<and>
    sem \<sigma> (ExtractExpr_create c off w) = Some ((a * 2 ^ getWidth r + b) div 2 ^ off mod 2 ^ w)"
proof -
  note c = ConcatExpr_create_sem [OF assms(1-5), folded c_def]
  then have "wf_expr (ExtractExpr c off w)" using assms(6,7) by simp
  from refinesD [OF ExtractConcat_create_sound(1) [of co c off w] this] c assms(3) show ?thesis by simp
qed

theorem ExtractConcat_create_correct_witness:
  "ExtractExpr_create (ConcatExpr_create (bufAt 1) (c8 3)) 4 8 =
     ConcatExpr (ExtractExpr (bufAt 1) 0 4) (ConstantExpr (APInt 4 0)) \<and>
   sem (env8 255) (ExtractExpr_create (ConcatExpr_create (bufAt 1) (c8 3)) 4 8) = Some 240"
  using ExtractConcat_create_correct [of "bufAt 1" "c8 3" False "env8 255" 255 3 8 4]
  by (simp add: example_simps ExtractExpr_create.simps ConcatExpr_create.simps CE_Extract_def alloc_def sval_def)

text \<open>
  \<open>ZExtExpr::create\<close> and \<open>SExtExpr::create\<close> on every branch: to a wider type they extend
  with zeros or with the sign, to the same or a narrower one they keep the low bits.
\<close>

theorem cast_create_correct:
  assumes "wf_expr e" "0 < w" "wf_env co \<sigma>" "sem \<sigma> e = Some v"
  shows "wf_expr (ZExtExpr_create e w) \<and> getWidth (ZExtExpr_create e w) = w \<and>
    sem \<sigma> (ZExtExpr_create e w) = Some (v mod 2 ^ w) \<and>
    wf_expr (SExtExpr_create e w) \<and> getWidth (SExtExpr_create e w) = w \<and>
    sem \<sigma> (SExtExpr_create e w) = Some (sval (getWidth e) v mod 2 ^ w)"
proof (cases "w < getWidth e")
  case True
  have "(v - 2 ^ getWidth e) mod 2 ^ w = v mod 2 ^ w"
    using True by (simp add: mod_diff_eq [symmetric, of v] le_imp_power_dvd mod_0_imp_dvd dvd_imp_mod_0)
  then have "sval (getWidth e) v mod 2 ^ w = v mod 2 ^ w" by (simp add: sval_def)
  moreover have "wf_expr (ExtractExpr e 0 w)" using assms(1,2) True by simp
  note refinesD [OF cast_create_trunc(1) [OF True] this] refinesD [OF cast_create_trunc(2) [OF True] this]
  ultimately show ?thesis using assms(3,4) by simp
next
  case False
  then have "getWidth e \<le> w" by simp
  from refinesD [OF ZExtExpr_create_sound [OF this]] refinesD [OF SExtExpr_create_sound [OF this]]
  show ?thesis using assms \<open>getWidth e \<le> w\<close> by simp
qed

theorem cast_create_correct_witness:
  "sem (env8 200) (ZExtExpr_create (bufAt 0) 16) = Some 200 \<and>
   sem (env8 200) (SExtExpr_create (bufAt 0) 16) = Some 65480 \<and>
   sem (env8 200) (SExtExpr_create (bufAt 0) 4) = Some 8"
  using cast_create_correct [of "bufAt 0" 16 False "env8 200" 200]
    cast_create_correct [of "bufAt 0" 4 False "env8 200" 200]
  by (simp add: example_simps sval_def)

section \<open>Selection, reads, rebuilding\<close>

text \<open>
  C8: \<open>SelectExpr::create\<close>, with its rewriting of boolean selections into connectives, has
  the width of the branches and the value of the selected one.
\<close>

theorem SelectExpr_create_correct:
  assumes "wf_expr c" "wf_expr t" "wf_expr f" "getWidth c = 1" "getWidth t = getWidth f"
    and "wf_env co \<sigma>" "sem \<sigma> c = Some b" "sem \<sigma> t = Some x" "sem \<sigma> f = Some y"
  shows "wf_expr (SelectExpr_create co c t f) \<and> getWidth (SelectExpr_create co c t f) = getWidth t \<and>
    sem \<sigma> (SelectExpr_create co c t f) = Some (if b \<noteq> 0 then x else y)"
  using refinesD [OF SelectExpr_create_sound [of co c t f]] assms by simp

theorem SelectExpr_create_correct_witness:
  "SelectExpr_create False (EqExpr (c8 1) (bufAt 0)) (ConstantExpr (APInt 1 1)) (EqExpr (c8 2) (bufAt 0)) =
     OrExpr (EqExpr (c8 1) (bufAt 0)) (EqExpr (c8 2) (bufAt 0)) \<and>
   sem (env8 2) (SelectExpr_create False (EqExpr (c8 1) (bufAt 0)) (ConstantExpr (APInt 1 1))
     (EqExpr (c8 2) (bufAt 0))) = Some 1"
  using SelectExpr_create_correct [of "EqExpr (c8 1) (bufAt 0)" "ConstantExpr (APInt 1 1)"
      "EqExpr (c8 2) (bufAt 0)" False "env8 2" 0 1 1]
  by (simp add: example_simps SelectExpr_create_def isTrue_def OrExpr_create_def bcreate_R_def)

text \<open>
  C6: \<open>ReadExpr::create\<close> after \<open>UpdateList::extend\<close>: a read at an index equal to the index
  written gives the value written, and a read elsewhere the value the list gave before.
\<close>

theorem ReadExpr_create_after_extend:
  assumes "wf_expr (ReadExpr A us i)" "wf_expr ui" "wf_expr uv" "getWidth ui = adomain A" "getWidth uv = arange A"
    and "wf_env co \<sigma>" "sem \<sigma> i = Some n" "sem \<sigma> ui = Some m" "sem \<sigma> uv = Some v" "semRead \<sigma> A us n = Some old"
  shows "wf_expr (ReadExpr_create co (extend (A, us) ui uv) i) \<and>
    getWidth (ReadExpr_create co (extend (A, us) ui uv) i) = arange A \<and>
    sem \<sigma> (ReadExpr_create co (extend (A, us) ui uv) i) = Some (if m = n then v else old)"
  using refinesD [OF ReadExpr_create_sound [of co A "(ui, uv) # us" i]] assms by (simp add: extend_def)

theorem ReadExpr_create_after_extend_witness:
  "ReadExpr_create False (extend (buf, [(c32 1, c8 5)]) (c32 2) (c8 6)) (c32 1) = c8 5 \<and>
   sem (env8 9) (ReadExpr_create False (extend (buf, [(c32 1, c8 5)]) (c32 2) (c8 6)) (c32 1)) = Some 5"
  using ReadExpr_create_after_extend [of buf "[(c32 1, c8 5)]" "c32 1" "c32 2" "c8 6" False "env8 9" 1 2 6 5]
  by (simp add: example_simps ReadExpr_create_def extend_def create_evals isTrue_def)

text \<open>
  C9: \<open>rebuild\<close> with kids that have the width and the value of the old ones gives an
  expression with the width and the value of the old one: the law every visitor relies on.
\<close>

theorem rebuild_correct:
  assumes "rebuild co e kids = Some e'" "wf_expr e"
    and "list_all2 (\<lambda>k k'. wf_expr k' \<and> getWidth k' = getWidth k \<and>
      (\<forall>\<sigma> v. wf_env co \<sigma> \<and> sem \<sigma> k = Some v \<longrightarrow> sem \<sigma> k' = Some v)) (getKids e) kids"
  shows "wf_expr e' \<and> getWidth e' = getWidth e \<and>
    (\<forall>\<sigma> v. wf_env co \<sigma> \<and> sem \<sigma> e = Some v \<longrightarrow> sem \<sigma> e' = Some v)"
proof -
  have "list_all2 (refines co) (getKids e) kids"
    using assms(3) by (rule list_all2_mono) (auto simp: refines_def)
  from refinesD [OF rebuild_sound [OF assms(1) this assms(2)] assms(2)] show ?thesis by blast
qed

theorem rebuild_correct_witness:
  "rebuild False (AddExpr (AddExpr (c8 1) (c8 2)) (bufAt 0)) [c8 3, bufAt 0] = Some (AddExpr (c8 3) (bufAt 0)) \<and>
   wf_expr (AddExpr (c8 3) (bufAt 0))"
  using rebuild_correct [of False "AddExpr (AddExpr (c8 1) (c8 2)) (bufAt 0)" "[c8 3, bufAt 0]"
      "AddExpr (c8 3) (bufAt 0)"]
  by (simp add: example_simps rebuild_def create_evals)

text \<open>
  \<open>Expr::createTempRead\<close> reads the first bytes of an array of bytes in little-endian
  order, and the lowest bit of the first byte for a boolean.
\<close>

theorem createTempRead_little_endian:
  assumes "createTempRead co A w = Some e" "wf_array A" "adomain A = 32" "arange A = 8"
    and "wf_env co \<sigma>" "\<And>n. n < (w + 7) div 8 \<Longrightarrow> initialValue \<sigma> A (int n) = Some (byte n)"
  shows "wf_expr e \<and> getWidth e = w \<and> sem \<sigma> e = Some ((\<Sum>n < (w + 7) div 8. byte n * 2 ^ (8 * n)) mod 2 ^ w)"
proof (cases "w = 1")
  case True
  have "sem \<sigma> (ReadExpr_create co (A, []) (ConstantExpr (alloc 0 32))) = Some (byte 0) \<and>
      wf_expr (ReadExpr_create co (A, []) (ConstantExpr (alloc 0 32))) \<and>
      getWidth (ReadExpr_create co (A, []) (ConstantExpr (alloc 0 32))) = 8"
    using ReadExpr_create_byte [OF assms(2,3,5) _ assms(6), of 0] True assms(4) by simp
  then show ?thesis
    using refinesD [OF cast_create_trunc(1) [of 1 _ co]] assms(1,5) True
    by (auto simp: createTempRead_def Let_def)
next
  case False
  then have w: "w \<in> {8, 16, 32, 64}"
    using assms(1) by (auto simp: createTempRead_def Let_def split: if_splits)
  then have "(w + 7) div 8 = w div 8" by auto
  with createTempRead_sem [OF assms(1) False assms(2-5), of byte] assms(6)
  have e: "wf_expr e" "getWidth e = w" "sem \<sigma> e = Some (\<Sum>n < (w + 7) div 8. byte n * 2 ^ (8 * n))"
    by (auto simp: bigEndian_sum)
  with sem_fits(1) [OF e(3) assms(5) e(1)] show ?thesis by (simp add: fits_mod_eq)
qed

theorem createTempRead_little_endian_witness:
  "\<exists>e. createTempRead False buf 32 = Some e \<and> getWidth e = 32 \<and> sem (env8 1) e = Some 16843009"
proof -
  obtain e where e: "createTempRead False buf 32 = Some e"
    by (simp add: createTempRead_def Let_def)
  have "initialValue (env8 1) buf (int n) = Some 1" if "n < (32 + 7) div 8" for n
    using that by (simp add: example_simps)
  moreover have "(\<Sum>n < (32 + 7) div 8. (1::int) * 2 ^ (8 * n)) mod 2 ^ 32 = 16843009"
    by code_simp
  ultimately show ?thesis
    using createTempRead_little_endian [OF e, of "env8 1" "\<lambda>_. 1"] e by simp
qed

end
