(* ===== verification/Visitor.thy ===== *)
theory Visitor
  imports ExprCorrect
begin

text \<open>
  The expression visitor of \<open>lib/Expr/ExprVisitor.cpp\<close> (class \<open>ExprVisitor\<close>), over which the
  evaluator and the constraint manager are built: a memoised traversal with hooks before and
  after the children, that rebuilds changed nodes. The hooks of a subclass are the fields of a
  record. The traversal of a recursive visitor revisits the expressions it builds, so the model
  has fuel; that the fuel suffices is proved for each visitor. A failed assertion is \<open>Abort\<close>.
\<close>

section \<open>Results\<close>

datatype 'a result = Ok 'a | Abort | OutOfFuel

fun rbind :: "'a result \<Rightarrow> ('a \<Rightarrow> 'b result) \<Rightarrow> 'b result" where
  "rbind (Ok x) f = f x"
| "rbind Abort f = Abort"
| "rbind OutOfFuel f = OutOfFuel"

lemma rbind_eq_Ok [simp]: "rbind m f = Ok y \<longleftrightarrow> (\<exists>x. m = Ok x \<and> f x = Ok y)"
  by (cases m) auto

lemma rbind_eq_OutOfFuel: "rbind m f = OutOfFuel \<longleftrightarrow> m = OutOfFuel \<or> (\<exists>x. m = Ok x \<and> f x = OutOfFuel)"
  by (cases m) auto

lemma rbind_eq_Abort: "rbind m f = Abort \<longleftrightarrow> m = Abort \<or> (\<exists>x. m = Ok x \<and> f x = Abort)"
  by (cases m) auto

section \<open>The traversal\<close>

datatype Action = SkipChildren | DoChildren | ChangeTo expr

text \<open>The table of visited expressions, and a traversal that updates it.\<close>

type_synonym visited = "(expr \<times> expr) list"
type_synonym visitFn = "visited \<Rightarrow> expr \<Rightarrow> (expr \<times> visited) result"

text \<open>
  A visitor: the flag of the constructor, the hooks \<open>visitExpr\<close> and \<open>visitExprPost\<close>, and
  the hooks by kind (\<open>visitRead\<close>, \<open>visitAdd\<close>, ...), which may visit other expressions.
\<close>

record visitor =
  recursive :: bool
  visitExpr :: "expr \<Rightarrow> Action result"
  visitNode :: "visitFn \<Rightarrow> visited \<Rightarrow> expr \<Rightarrow> (Action \<times> visited) result"
  visitExprPost :: "expr \<Rightarrow> Action"

text \<open>The hooks of the base class.\<close>

definition ExprVisitor_base :: "bool \<Rightarrow> visitor" where
  "ExprVisitor_base rec =
     \<lparr>recursive = rec, visitExpr = (\<lambda>e. Ok DoChildren),
      visitNode = (\<lambda>vf s e. Ok (DoChildren, s)), visitExprPost = (\<lambda>e. SkipChildren)\<rparr>"

fun visitKids :: "visitFn \<Rightarrow> visited \<Rightarrow> expr list \<Rightarrow> (expr list \<times> visited) result" where
  "visitKids vf s [] = Ok ([], s)"
| "visitKids vf s (k # ks) =
     rbind (vf s k) (\<lambda>(k', s1). rbind (visitKids vf s1 ks) (\<lambda>(ks', s2). Ok (k' # ks', s2)))"

text \<open>
  \<open>visitActual\<close>, with the traversal of the children as a parameter. A node is rebuilt when one
  of its children changed; a recursive visitor then visits the new node.
\<close>

definition visitPost :: "visitor \<Rightarrow> expr \<Rightarrow> expr" where
  "visitPost V e =
     (if isConstantExpr e then e else (case visitExprPost V e of ChangeTo x \<Rightarrow> x | _ \<Rightarrow> e))"

definition visitRebuild :: "bool \<Rightarrow> visitor \<Rightarrow> visitFn \<Rightarrow> visited \<Rightarrow> expr \<Rightarrow> expr list \<Rightarrow> (expr \<times> visited) result" where
  "visitRebuild co V vf s e kids =
     (if kids \<noteq> getKids e
      then (case rebuild co e kids of
              None \<Rightarrow> Abort
            | Some e' \<Rightarrow> if recursive V then vf s e' else Ok (e', s))
      else Ok (e, s))"

definition visitActual :: "bool \<Rightarrow> visitor \<Rightarrow> visitFn \<Rightarrow> visitFn" where
  "visitActual co V vf s e =
     (if isConstantExpr e then Ok (e, s)
      else
        rbind (visitExpr V e) (\<lambda>act.
          case act of
            SkipChildren \<Rightarrow> Ok (e, s)
          | ChangeTo x \<Rightarrow> Ok (x, s)
          | DoChildren \<Rightarrow>
              rbind (visitNode V vf s e) (\<lambda>(act, s1).
                case act of
                  SkipChildren \<Rightarrow> Ok (e, s1)
                | ChangeTo x \<Rightarrow> Ok (x, s1)
                | DoChildren \<Rightarrow>
                    rbind (visitKids vf s1 (getKids e)) (\<lambda>(kids, s2).
                      rbind (visitRebuild co V vf s2 e kids) (\<lambda>(e', s3).
                        Ok (visitPost V e', s3))))))"

text \<open>
  \<open>ExprVisitor::visit\<close>. The flag \<open>UseVisitorHash\<close> is the option
  \<open>--use-visitor-hash\<close>; an entry of the table is not overwritten.
\<close>

definition insertVisited :: "visited \<Rightarrow> expr \<Rightarrow> expr \<Rightarrow> visited" where
  "insertVisited s e r = (if map_of s e = None then (e, r) # s else s)"

fun visit :: "bool \<Rightarrow> bool \<Rightarrow> visitor \<Rightarrow> nat \<Rightarrow> visitFn" where
  "visit co UseVisitorHash V 0 s e = OutOfFuel"
| "visit co UseVisitorHash V (Suc n) s e =
     (if \<not> UseVisitorHash \<or> isConstantExpr e
      then visitActual co V (visit co UseVisitorHash V n) s e
      else (case map_of s e of
              Some r \<Rightarrow> Ok (r, s)
            | None \<Rightarrow>
                rbind (visitActual co V (visit co UseVisitorHash V n) s e)
                  (\<lambda>(r, s1). Ok (r, insertVisited s1 e r))))"

section \<open>Refinement under an assumption on the environment\<close>

definition refinesOn :: "(env \<Rightarrow> bool) \<Rightarrow> expr \<Rightarrow> expr \<Rightarrow> bool" where
  "refinesOn \<Gamma> e e' \<longleftrightarrow>
     (wf_expr e \<longrightarrow>
        wf_expr e' \<and> getWidth e' = getWidth e \<and>
        (\<forall>\<sigma> v. \<Gamma> \<sigma> \<longrightarrow> sem \<sigma> e = Some v \<longrightarrow> sem \<sigma> e' = Some v))"

lemma refinesOn_refl [simp]: "refinesOn \<Gamma> e e"
  by (simp add: refinesOn_def)

lemma refinesOn_trans: "refinesOn \<Gamma> a b \<Longrightarrow> refinesOn \<Gamma> b c \<Longrightarrow> refinesOn \<Gamma> a c"
  by (simp add: refinesOn_def)

lemma refines_imp_refinesOn:
  "refines co a b \<Longrightarrow> (\<And>\<sigma>. \<Gamma> \<sigma> \<Longrightarrow> wf_env co \<sigma>) \<Longrightarrow> refinesOn \<Gamma> a b"
  by (auto simp: refines_def refinesOn_def)

lemma refinesOnD:
  assumes "refinesOn \<Gamma> e e'" "wf_expr e"
  shows "wf_expr e'" "getWidth e' = getWidth e" "\<Gamma> \<sigma> \<Longrightarrow> sem \<sigma> e = Some v \<Longrightarrow> sem \<sigma> e' = Some v"
  using assms by (auto simp: refinesOn_def)

text \<open>The node with other kids, before any rewriting.\<close>

fun withKids :: "expr \<Rightarrow> expr list \<Rightarrow> expr option" where
  "withKids (NotOptimizedExpr _) [x] = Some (NotOptimizedExpr x)"
| "withKids (ReadExpr A us _) [x] = Some (ReadExpr A us x)"
| "withKids (SelectExpr _ _ _) [c, t, f] = Some (SelectExpr c t f)"
| "withKids (ConcatExpr _ _) [l, r] = Some (ConcatExpr l r)"
| "withKids (ExtractExpr _ off w) [x] = Some (ExtractExpr x off w)"
| "withKids (ZExtExpr _ w) [x] = Some (ZExtExpr x w)"
| "withKids (SExtExpr _ w) [x] = Some (SExtExpr x w)"
| "withKids (NotExpr _) [x] = Some (NotExpr x)"
| "withKids (BinaryExpr k _ _) [l, r] = Some (BinaryExpr k l r)"
| "withKids _ _ = None"

lemma withKids_exists:
  "length kids = length (getKids e) \<Longrightarrow> \<not> isConstantExpr e \<Longrightarrow> \<exists>n. withKids e kids = Some n"
  by (cases e) (auto simp: length_Suc_conv numeral_2_eq_2 numeral_3_eq_3)

lemma withKids_refinesOn:
  assumes "withKids e kids = Some n" "list_all2 (refinesOn \<Gamma>) (getKids e) kids"
  shows "refinesOn \<Gamma> e n"
  using assms
  by (cases e) (auto simp: list_all2_Cons1 refinesOn_def Option.bind_eq_Some_conv)

lemma list_all2_refines_refl [simp]: "list_all2 (refines co) ks ks"
  by (simp add: list_all2_refl)

lemma rebuild_refines_withKids:
  assumes "rebuild co e kids = Some e'" "withKids e kids = Some n" "wf_expr n"
  shows "refines co n e'"
proof -
  have "getKids n = kids" "rebuild co n kids = Some e'"
    using assms(1,2) by (cases e; auto simp: rebuild_def split: list.splits)+
  then show ?thesis using rebuild_sound [of co n kids e'] assms(3) by simp
qed

lemma rebuild_refinesOn:
  assumes "rebuild co e kids = Some e'" "list_all2 (refinesOn \<Gamma>) (getKids e) kids"
    and "\<And>\<sigma>. \<Gamma> \<sigma> \<Longrightarrow> wf_env co \<sigma>"
  shows "refinesOn \<Gamma> e e'"
proof (cases "wf_expr e")
  case True
  have "\<not> isConstantExpr e" using assms(1) by (auto simp: rebuild_def elim: isConstantExprE)
  then obtain n where n: "withKids e kids = Some n"
    using withKids_exists assms(2) by (metis list_all2_lengthD)
  note on = withKids_refinesOn [OF n assms(2)]
  then have "wf_expr n" using True by (simp add: refinesOn_def)
  from refinesOn_trans [OF on refines_imp_refinesOn [OF rebuild_refines_withKids [OF assms(1) n this] assms(3)]]
  show ?thesis .
qed (simp add: refinesOn_def)

section \<open>What a visitor preserves\<close>

definition tableOK :: "(expr \<Rightarrow> expr \<Rightarrow> bool) \<Rightarrow> visited \<Rightarrow> bool" where
  "tableOK R s \<longleftrightarrow> (\<forall>(k, r) \<in> set s. R k r)"

definition soundFn :: "(expr \<Rightarrow> expr \<Rightarrow> bool) \<Rightarrow> visitFn \<Rightarrow> bool" where
  "soundFn R vf \<longleftrightarrow> (\<forall>s e r s'. tableOK R s \<longrightarrow> vf s e = Ok (r, s') \<longrightarrow> R e r \<and> tableOK R s')"

lemma tableOK_Nil [simp]: "tableOK R []"
  by (simp add: tableOK_def)

lemma tableOK_lookup: "tableOK R s \<Longrightarrow> map_of s e = Some r \<Longrightarrow> R e r"
  by (auto simp: tableOK_def dest: map_of_SomeD)

lemma tableOK_insert: "tableOK R s \<Longrightarrow> R e r \<Longrightarrow> tableOK R (insertVisited s e r)"
  by (auto simp: tableOK_def insertVisited_def)

lemma soundFnD: "soundFn R vf \<Longrightarrow> vf s e = Ok (r, s') \<Longrightarrow> tableOK R s \<Longrightarrow> R e r \<and> tableOK R s'"
  by (auto simp: soundFn_def)

text \<open>
  The relation a visitor establishes between an expression and its image: a preorder that
  rebuilding respects.
\<close>

locale rebuild_preorder =
  fixes co :: bool and R :: "expr \<Rightarrow> expr \<Rightarrow> bool"
  assumes R_refl: "R e e"
    and R_trans: "R a b \<Longrightarrow> R b c \<Longrightarrow> R a c"
    and R_rebuild: "rebuild co e kids = Some e' \<Longrightarrow> list_all2 R (getKids e) kids \<Longrightarrow> kids \<noteq> getKids e \<Longrightarrow> R e e'"
begin

lemma visitKids_sound:
  assumes "soundFn R vf"
  shows "visitKids vf s ks = Ok (ks', s') \<Longrightarrow> tableOK R s \<Longrightarrow> list_all2 R ks ks' \<and> tableOK R s'"
proof (induction ks arbitrary: s ks' s')
  case (Cons k ks)
  from Cons.prems(1) obtain k' s1 ks1 where "vf s k = Ok (k', s1)" "visitKids vf s1 ks = Ok (ks1, s')" "ks' = k' # ks1"
    by auto
  with soundFnD [OF assms, of s k k' s1] Cons.IH [of s1 ks1 s'] Cons.prems(2) show ?case by simp
qed simp

end

text \<open>The hooks of a visitor stay within the relation when the traversal they call does.\<close>

locale sound_visitor = rebuild_preorder +
  fixes V :: visitor
  assumes expr_hook: "\<not> isConstantExpr e \<Longrightarrow> visitExpr V e = Ok (ChangeTo x) \<Longrightarrow> R e x"
    and node_hook: "soundFn R vf \<Longrightarrow> tableOK R s \<Longrightarrow> visitNode V vf s e = Ok (act, s') \<Longrightarrow>
      tableOK R s' \<and> (\<forall>x. act = ChangeTo x \<longrightarrow> R e x)"
    and post_hook: "\<not> isConstantExpr e \<Longrightarrow> visitExprPost V e = ChangeTo x \<Longrightarrow> R e x"
begin

lemma visitPost_sound: "R e (visitPost V e)"
  using post_hook [of e] R_refl by (auto simp: visitPost_def split: Action.splits)

lemma visitRebuild_sound:
  assumes "soundFn R vf" "tableOK R s" "list_all2 R (getKids e) kids" "visitRebuild co V vf s e kids = Ok (r, s')"
  shows "R e r \<and> tableOK R s'"
proof (cases "kids = getKids e")
  case False
  then obtain e' where e': "rebuild co e kids = Some e'"
      "(if recursive V then vf s e' else Ok (e', s)) = Ok (r, s')"
    using assms(4) by (auto simp: visitRebuild_def split: option.splits)
  then have "R e' r \<and> tableOK R s'"
    using soundFnD [OF assms(1), of s e' r s'] assms(2) R_refl by (auto split: if_splits)
  with R_trans R_rebuild [OF e'(1) assms(3) False] show ?thesis by blast
qed (use assms(2,4) R_refl in \<open>auto simp: visitRebuild_def\<close>)

lemma visitActual_sound:
  assumes "soundFn R vf" "tableOK R s" "visitActual co V vf s e = Ok (r, s')"
  shows "R e r \<and> tableOK R s'"
proof (cases "isConstantExpr e")
  case False
  with assms(3) obtain act where act: "visitExpr V e = Ok act"
    by (auto simp: visitActual_def)
  show ?thesis
  proof (cases act)
    case DoChildren
    with act assms(3) False obtain act1 s1 where node: "visitNode V vf s e = Ok (act1, s1)"
      by (auto simp: visitActual_def)
    note hook = node_hook [OF assms(1,2) node]
    show ?thesis
    proof (cases act1)
      case D: DoChildren
      with node act DoChildren assms(3) False obtain kids s2 e' where
        kids: "visitKids vf s1 (getKids e) = Ok (kids, s2)" and
        e': "visitRebuild co V vf s2 e kids = Ok (e', s')" and r: "r = visitPost V e'"
        by (auto simp: visitActual_def)
      from visitKids_sound [OF assms(1) kids] hook
      have "list_all2 R (getKids e) kids" "tableOK R s2" by auto
      from visitRebuild_sound [OF assms(1) this(2,1) e'] r visitPost_sound R_trans show ?thesis by blast
    qed (use hook node act DoChildren assms(3) False R_refl in \<open>auto simp: visitActual_def\<close>)
  qed (use act assms(2,3) False expr_hook R_refl in \<open>auto simp: visitActual_def\<close>)
qed (use assms(2,3) R_refl in \<open>auto simp: visitActual_def\<close>)

lemma visit_soundFn: "soundFn R (visit co UseVisitorHash V n)"
proof (induction n)
  case (Suc n)
  have "R e r \<and> tableOK R s'" if "tableOK R s" "visit co UseVisitorHash V (Suc n) s e = Ok (r, s')" for s e r s'
    using that tableOK_lookup [OF that(1)]
    by (fastforce dest: visitActual_sound [OF Suc] intro: tableOK_insert split: if_splits option.splits)
  then show ?case by (auto simp: soundFn_def)
qed (simp add: soundFn_def)

lemma visit_sound: "visit co UseVisitorHash V n [] e = Ok (r, s') \<Longrightarrow> R e r"
  using soundFnD [OF visit_soundFn] by simp

end

text \<open>
  A visitor that does not revisit what it builds needs no more fuel than the size of the
  expression.
\<close>

lemma size_getKids: "k \<in> set (getKids e) \<Longrightarrow> size k < size e"
  by (cases e) auto

locale structural_visitor =
  fixes V :: visitor
  assumes not_recursive: "\<not> recursive V"
    and expr_returns: "visitExpr V e \<noteq> OutOfFuel"
    and node_returns: "(\<And>s x. size x < size e \<Longrightarrow> vf s x \<noteq> OutOfFuel) \<Longrightarrow> visitNode V vf s e \<noteq> OutOfFuel"
begin

lemma visitKids_returns:
  "(\<And>s x. x \<in> set ks \<Longrightarrow> vf s x \<noteq> OutOfFuel) \<Longrightarrow> visitKids vf s ks \<noteq> OutOfFuel"
  by (induction ks arbitrary: s) (auto simp: rbind_eq_OutOfFuel)

lemma visitActual_returns:
  assumes "\<And>s x. size x < size e \<Longrightarrow> vf s x \<noteq> OutOfFuel"
  shows "visitActual co V vf s e \<noteq> OutOfFuel"
proof -
  have "visitKids vf s' (getKids e) \<noteq> OutOfFuel" for s'
    using assms size_getKids by (intro visitKids_returns) blast
  then show ?thesis
    using node_returns [of e vf, OF assms] expr_returns [of e] not_recursive
    by (auto simp: visitActual_def visitRebuild_def rbind_eq_OutOfFuel split: Action.splits option.splits)
qed

lemma visit_returns: "size e < n \<Longrightarrow> visit co UseVisitorHash V n s e \<noteq> OutOfFuel"
proof (induction n arbitrary: s e)
  case (Suc n)
  then have "visitActual co V (visit co UseVisitorHash V n) s e \<noteq> OutOfFuel"
    by (intro visitActual_returns) simp
  then show ?case by (auto simp: rbind_eq_OutOfFuel split: option.splits)
qed simp

end

text \<open>Refinement on a set of environments is such a relation.\<close>

interpretation refinesOn_env: rebuild_preorder co "refinesOn (\<lambda>\<sigma>. wf_env co \<sigma> \<and> \<Gamma> \<sigma>)" for co \<Gamma>
  using rebuild_refinesOn [of co _ _ _ "\<lambda>\<sigma>. wf_env co \<sigma> \<and> \<Gamma> \<sigma>"]
  by unfold_locales (auto intro: refinesOn_trans)

interpretation base_visitor: structural_visitor "ExprVisitor_base False"
  by unfold_locales (auto simp: ExprVisitor_base_def)

section \<open>Properties\<close>

text \<open>
  C10: \<open>rebuild\<close> keeps types. Over kids of the types of the old ones, a well-formed node of any class is
  rebuilt to a well-formed expression of the same width, through all the rewriting of its \<open>create\<close>; only
  a division or remainder of constants by zero is rejected, and the type mismatch assertion of the binary
  classes does not fail. (The operands asserted by \<open>ExtractExpr\<close> and \<open>SelectExpr\<close> are those of a well-formed node.)
\<close>

theorem rebuild_well_typed:
  assumes "wf_expr e" "\<not> isConstantExpr e" "list_all2 (\<lambda>k k'. wf_expr k' \<and> getWidth k' = getWidth k) (getKids e) kids"
  shows "case rebuild co e kids of
      Some e' \<Rightarrow> wf_expr e' \<and> getWidth e' = getWidth e
    | None \<Rightarrow> \<exists>k cl cr. k \<in> {UDiv, SDiv, URem, SRem} \<and> getKind e = KBinary k \<and> kids = [ConstantExpr cl, ConstantExpr cr] \<and> apValue cr = 0"
proof (cases "rebuild co e kids")
  case (Some e')
  have "list_all2 (refinesOn (\<lambda>\<sigma>. False)) (getKids e) kids" using assms(3) by (rule list_all2_mono) (auto simp: refinesOn_def)
  from rebuild_refinesOn [OF Some this] assms(1) Some show ?thesis by (simp add: refinesOn_def)
next
  case None
  then show ?thesis using assms
    by (cases e) (auto simp: rebuild_def list_all2_Cons1 BinaryExpr_create_None isDivKind_def isZero_def)
qed

theorem rebuild_well_typed_witness:
  "wf_expr (AddExpr (bufAt 0) (c8 1)) \<and> rebuild False (AddExpr (bufAt 0) (c8 1)) [c8 2, c8 3] \<noteq> None"
  using rebuild_well_typed [of "AddExpr (bufAt 0) (c8 1)" "[c8 2, c8 3]" False]
  by (simp add: example_simps split: option.splits)

end
