(* ===== verification/TreeLoops.thy ===== *)
theory TreeLoops
  imports ImmutableTree Visitor
begin

text \<open>
  Loops over the iterators of an immutable tree: the backward loop
  \<open>while (oi != begin) { --oi; body }\<close> and the forward loop \<open>for (; oi != end; ++oi) { body }\<close>, whose
  body may go on, leave the loop or return from the function. On a search tree both visit the
  values in the order of the tree, and end.
\<close>

section \<open>Definitions\<close>

datatype ('s, 'r) control = Continue 's | Break 's | Return 'r

fun walkBack :: "nat \<Rightarrow> 'v iterator \<Rightarrow> ('v \<Rightarrow> 's \<Rightarrow> ('s, 'r) control result) \<Rightarrow> 'v iterator \<Rightarrow> 's \<Rightarrow> ('s, 'r) control result" where
  "walkBack 0 bgn body oi s = OutOfFuel"
| "walkBack (Suc fuel) bgn body oi s =
     (if stack oi = stack bgn then Ok (Break s)
      else
        (case deref (iteratorDecr oi) of
           None \<Rightarrow> Abort
         | Some v \<Rightarrow>
             rbind (body v s) (\<lambda>c.
               case c of
                 Continue s' \<Rightarrow> walkBack fuel bgn body (iteratorDecr oi) s'
               | Break s' \<Rightarrow> Ok (Break s')
               | Return r \<Rightarrow> Ok (Return r))))"

fun walkForward :: "nat \<Rightarrow> 'v iterator \<Rightarrow> ('v \<Rightarrow> 's \<Rightarrow> ('s, 'r) control result) \<Rightarrow> 'v iterator \<Rightarrow> 's \<Rightarrow> ('s, 'r) control result" where
  "walkForward 0 fin body oi s = OutOfFuel"
| "walkForward (Suc fuel) fin body oi s =
     (if stack oi = stack fin then Ok (Break s)
      else
        (case deref oi of
           None \<Rightarrow> Abort
         | Some v \<Rightarrow>
             rbind (body v s) (\<lambda>c.
               case c of
                 Continue s' \<Rightarrow> (case iteratorIncr oi of None \<Rightarrow> Abort | Some oi' \<Rightarrow> walkForward fuel fin body oi' s')
               | Break s' \<Rightarrow> Ok (Break s')
               | Return r \<Rightarrow> Ok (Return r))))"

text \<open>What both loops amount to: a loop over a list.\<close>

fun listLoop :: "('v \<Rightarrow> 's \<Rightarrow> ('s, 'r) control result) \<Rightarrow> 'v list \<Rightarrow> 's \<Rightarrow> ('s, 'r) control result" where
  "listLoop body [] s = Ok (Break s)"
| "listLoop body (v # vs) s =
     rbind (body v s) (\<lambda>c. case c of Continue s' \<Rightarrow> listLoop body vs s' | Break s' \<Rightarrow> Ok (Break s') | Return r \<Rightarrow> Ok (Return r))"

lemma rbind_cong [fundef_cong]: "m = m' \<Longrightarrow> (\<And>x. m' = Ok x \<Longrightarrow> f x = g x) \<Longrightarrow> rbind m f = rbind m' g"
  by (cases m') auto

section \<open>The loops follow the order of the tree\<close>

lemma pushLeft_step: "n \<noteq> Terminator \<Longrightarrow> pushLeft n st = pushLeft (nleft n) (n # st)"
  by (cases n) auto

lemma pushLeft_start:
  "pathTo t (n # st) \<Longrightarrow> beforeNode n st = [] \<Longrightarrow> pushLeft t [] = pushLeft (nleft n) (n # st)"
proof (induction st arbitrary: n)
  case Nil
  then show ?case by (cases t) auto
next
  case (Cons p st)
  from Cons.prems have n: "n = nleft p" by (auto split: if_splits)
  with Cons have "pushLeft t [] = pushLeft n (p # st)" by auto
  with Cons.prems(1) show ?case by (simp add: pushLeft_step [of n])
qed

lemma at_begin: "pathTo t st \<Longrightarrow> st = stack (beginT t) \<longleftrightarrow> preceding t st = []"
proof
  assume "pathTo t st" "preceding t st = []"
  then show "st = stack (beginT t)"
  proof (cases st)
    case Nil
    with \<open>preceding t st = []\<close> show ?thesis by (cases t) (auto simp: beginT_def mkIterator_def)
  next
    case (Cons n st')
    with \<open>preceding t st = []\<close> have b: "beforeNode n st' = []" "nleft n = Terminator" by (auto, cases "nleft n", auto)
    with pushLeft_start [of t n st'] Cons \<open>pathTo t st\<close> show ?thesis by (simp add: beginT_def mkIterator_def)
  qed
next
  assume "pathTo t st" "st = stack (beginT t)"
  with preceding_remaining [of t st] pushLeft_root(1) [of t] show "preceding t st = []"
    by (simp add: beginT_def mkIterator_def)
qed

lemma at_end: "st = stack (endT t) \<longleftrightarrow> remaining st = []"
  by (cases st) (auto simp: endT_def mkIterator_def)

lemma deref_decr:
  assumes "pathTo (root it) (stack it)" "distinct (inorder (root it))" "preceding (root it) (stack it) \<noteq> []"
  shows "deref (iteratorDecr it) = Some (List.last (preceding (root it) (stack it)))"
proof -
  let ?t = "root it" and ?st = "stack (iteratorDecr it)"
  note d = iteratorDecr_preceding [OF assms]
  have "preceding ?t ?st @ remaining ?st = preceding ?t (stack it) @ remaining (stack it)"
    using preceding_remaining d assms(1) by metis
  also have "\<dots> = preceding ?t ?st @ List.last (preceding ?t (stack it)) # remaining (stack it)"
    using d assms(3) append_butlast_last_id [of "preceding ?t (stack it)"] by (metis append.assoc append_Cons append_Nil)
  finally have "remaining ?st = List.last (preceding ?t (stack it)) # remaining (stack it)" by simp
  then show ?thesis by (cases ?st) (auto simp: deref_def)
qed

lemma walkBack_list:
  assumes "distinct (inorder t)"
  shows "root oi = t \<Longrightarrow> pathTo t (stack oi) \<Longrightarrow> length (preceding t (stack oi)) < fuel \<Longrightarrow>
    walkBack fuel (beginT t) body oi s = listLoop body (rev (preceding t (stack oi))) s"
proof (induction fuel arbitrary: oi s)
  case (Suc fuel)
  show ?case
  proof (cases "preceding t (stack oi) = []")
    case True
    with at_begin [OF Suc.prems(2)] show ?thesis by simp
  next
    case False
    let ?xs = "preceding t (stack oi)"
    have d: "root (iteratorDecr oi) = t" "pathTo t (stack (iteratorDecr oi))" "preceding t (stack (iteratorDecr oi)) = butlast ?xs"
      using iteratorDecr_preceding [of oi] Suc.prems assms False by auto
    have v: "deref (iteratorDecr oi) = Some (List.last ?xs)" using deref_decr [of oi] Suc.prems assms False by simp
    have r: "rev ?xs = List.last ?xs # rev (butlast ?xs)" using False by (metis append_butlast_last_id rev_eq_Cons_iff rev_rev_ident rev.simps(2))
    have "length (butlast ?xs) < fuel" using Suc.prems(3) False by (cases ?xs rule: rev_cases) auto
    with Suc.IH [OF d(1,2)] d(3) have "walkBack fuel (beginT t) body (iteratorDecr oi) = listLoop body (rev (butlast ?xs))"
      by (intro ext) simp
    with v at_begin [OF Suc.prems(2)] False show ?thesis by (simp add: r)
  qed
qed simp

lemma walkForward_list:
  assumes "distinct (inorder t)"
  shows "root oi = t \<Longrightarrow> pathTo t (stack oi) \<Longrightarrow> length (remaining (stack oi)) < fuel \<Longrightarrow>
    walkForward fuel (endT t) body oi s = listLoop body (remaining (stack oi)) s"
proof (induction fuel arbitrary: oi s)
  case (Suc fuel)
  show ?case
  proof (cases "stack oi")
    case Nil
    then show ?thesis by (simp add: endT_def mkIterator_def)
  next
    case (Cons n st)
    then obtain oi' where oi': "iteratorIncr oi = Some oi'" by (auto simp: iteratorIncr_def)
    from iteratorIncr_remaining [OF this] Suc.prems assms Cons
    have i: "root oi' = t" "pathTo t (stack oi')" "remaining (stack oi') = tl (remaining (stack oi))" by auto
    have "length (remaining (stack oi')) < fuel" using Suc.prems(3) i(3) Cons by simp
    from Suc.IH [OF i(1,2) this] i(3) have "walkForward fuel (endT t) body oi' = listLoop body (tl (remaining (stack oi)))"
      by (intro ext) simp
    with oi' Cons show ?thesis by (simp add: endT_def mkIterator_def deref_def)
  qed
qed simp

lemma begin_path: "root (beginT t) = t \<and> pathTo t (stack (beginT t)) \<and> remaining (stack (beginT t)) = inorder t"
  by (simp add: beginT_def mkIterator_def pushLeft_root)

context key_compare
begin

lemma upper_bound_path:
  assumes "search t"
  shows "root (upper_bound kov lt k t) = t \<and> pathTo t (stack (upper_bound kov lt k t))"
proof -
  note lb = lower_bound_spec [OF assms, of k]
  show ?thesis
  proof (cases "stack (lower_bound kov lt k t)")
    case (Cons n st)
    then obtain it' where it': "iteratorIncr (lower_bound kov lt k t) = Some it'" by (auto simp: iteratorIncr_def)
    from iteratorIncr_remaining [OF this] lb search_distinct [OF assms] it' Cons show ?thesis
      by (simp add: upper_bound_def Let_def)
  qed (use lb in \<open>simp add: upper_bound_def Let_def\<close>)
qed

text \<open>
  Around the position of \<open>upper_bound\<close>: the values before it, visited backwards, are those up to
  the key, and the values from it on are those above the key.
\<close>

lemma upper_bound_splits:
  assumes "search t"
  shows "preceding t (stack (upper_bound kov lt k t)) = takeWhile (\<lambda>v. vrank v \<le> rank k) (inorder t)"
proof -
  have "preceding t (stack (upper_bound kov lt k t)) @ dropWhile (\<lambda>v. vrank v \<le> rank k) (inorder t) = inorder t"
    using preceding_remaining upper_bound_path [OF assms] upper_bound_spec [OF assms] by metis
  then show ?thesis using takeWhile_dropWhile_id [of "\<lambda>v. vrank v \<le> rank k" "inorder t"] by (metis append_same_eq)
qed

lemma walkBack_upper_bound:
  assumes "search t" "sizeT t < fuel"
  shows "walkBack fuel (beginT t) body (upper_bound kov lt k t) s =
    listLoop body (rev (takeWhile (\<lambda>v. vrank v \<le> rank k) (inorder t))) s"
  using walkBack_list [OF search_distinct [OF assms(1)], of "upper_bound kov lt k t" fuel body s] upper_bound_path [OF assms(1)] upper_bound_splits [OF assms(1)]
    assms(2) length_takeWhile_le [of "\<lambda>v. vrank v \<le> rank k" "inorder t"] by (simp add: sizeT_inorder)

lemma walkForward_upper_bound:
  assumes "search t" "sizeT t < fuel"
  shows "walkForward fuel (endT t) body (upper_bound kov lt k t) s =
    listLoop body (dropWhile (\<lambda>v. vrank v \<le> rank k) (inorder t)) s"
  using walkForward_list [OF search_distinct [OF assms(1)], of "upper_bound kov lt k t" fuel body s] upper_bound_path [OF assms(1)] upper_bound_spec [OF assms(1)]
    assms(2) length_dropWhile_le [of "\<lambda>v. vrank v \<le> rank k" "inorder t"] by (simp add: sizeT_inorder)

lemma walkForward_begin:
  assumes "search t" "sizeT t < fuel"
  shows "walkForward fuel (endT t) body (beginT t) s = listLoop body (inorder t) s"
  using walkForward_list [OF search_distinct [OF assms(1)], of "beginT t" fuel body s] begin_path [of t] assms(2) by (simp add: sizeT_inorder)

end

end
