(* ===== verification/BitArray.thy ===== *)
theory BitArray
  imports Prelude "HOL-Library.Word"
begin

text \<open>
  Arrays of bits packed into 32-bit words (\<open>include/klee/util/BitArray.h\<close>), which memory objects
  use for their masks, and their correspondence with functions from indices to booleans.
\<close>

section \<open>Definitions\<close>

type_synonym BitArray = "32 word list"

definition BitArray_length :: "nat \<Rightarrow> nat" where
  "BitArray_length n = (n + 31) mod 2 ^ 32 div 32"

definition BitArray_new :: "nat \<Rightarrow> bool \<Rightarrow> BitArray" where
  "BitArray_new n v = replicate (BitArray_length n) (if v then - 1 else 0)"

definition BitArray_get :: "BitArray \<Rightarrow> nat \<Rightarrow> bool" where
  "BitArray_get bits idx \<longleftrightarrow> drop_bit (idx mod 32) (bits ! (idx div 32)) AND 1 \<noteq> 0"

definition BitArray_set :: "BitArray \<Rightarrow> nat \<Rightarrow> BitArray" where
  "BitArray_set bits idx = bits[idx div 32 := bits ! (idx div 32) OR push_bit (idx mod 32) 1]"

definition BitArray_unset :: "BitArray \<Rightarrow> nat \<Rightarrow> BitArray" where
  "BitArray_unset bits idx = bits[idx div 32 := bits ! (idx div 32) AND NOT (push_bit (idx mod 32) 1)]"

section \<open>Bits\<close>

text \<open>
  An array with room for \<open>n\<close> bits. The number of words is computed in 32 bits, so that an array of
  more than \<open>2 ^ 32 - 32\<close> bits would get none.
\<close>

abbreviation maxBits :: nat where
  "maxBits \<equiv> 2 ^ 32 - 32"

definition holds :: "nat \<Rightarrow> BitArray \<Rightarrow> bool" where
  "holds n bits \<longleftrightarrow> n \<le> maxBits \<and> length bits = BitArray_length n"

lemma holds_index: "holds n bits \<Longrightarrow> i < n \<Longrightarrow> i div 32 < length bits"
  by (simp add: holds_def BitArray_length_def)

lemma holds_ops [simp]:
  "holds n (BitArray_new n v) \<longleftrightarrow> n \<le> maxBits" "holds n (BitArray_set bits i) \<longleftrightarrow> holds n bits" "holds n (BitArray_unset bits i) \<longleftrightarrow> holds n bits"
  by (simp_all add: holds_def BitArray_new_def BitArray_set_def BitArray_unset_def)

lemma get_bit: "BitArray_get bits i \<longleftrightarrow> bit (bits ! (i div 32)) (i mod 32)"
  by (simp add: BitArray_get_def and_one_eq odd_iff_mod_2_eq_one [symmetric] bit_iff_odd_drop_bit)

lemma same_word:
  fixes i j :: nat
  assumes "i div 32 = j div 32" "i mod 32 = j mod 32"
  shows "i = j"
  using assms by (metis div_mult_mod_eq)

lemma get_new [simp]: "i < n \<Longrightarrow> n \<le> maxBits \<Longrightarrow> BitArray_get (BitArray_new n v) i = v"
  using holds_index [of n "BitArray_new n v" i] by (simp add: get_bit) (simp add: BitArray_new_def bit_simps)

lemma nth_update_word:
  "i div 32 < length bits \<Longrightarrow> bit ((bits[i div 32 := w]) ! (j div 32)) k \<longleftrightarrow>
     (if j div 32 = i div 32 then bit w k else bit (bits ! (j div 32)) k)"
  by (simp add: nth_list_update)

lemma bit_one_word: "k < 32 \<Longrightarrow> m < 32 \<Longrightarrow> bit (2 ^ m :: 32 word) k \<longleftrightarrow> k = m"
  by (auto simp: bit_exp_iff)

lemma get_set [simp]:
  assumes "holds n bits" "i < n" "j < n"
  shows "BitArray_get (BitArray_set bits i) j \<longleftrightarrow> j = i \<or> BitArray_get bits j"
proof (cases "j = i")
  case False
  with same_word [of j i] show ?thesis
    unfolding get_bit BitArray_set_def nth_update_word [OF holds_index [OF assms(1,2)]]
    by (auto simp: bit_or_iff bit_one_word)
qed (simp add: get_bit BitArray_set_def holds_index [OF assms(1,2)] bit_or_iff bit_one_word)

lemma get_unset [simp]:
  assumes "holds n bits" "i < n" "j < n"
  shows "BitArray_get (BitArray_unset bits i) j \<longleftrightarrow> j \<noteq> i \<and> BitArray_get bits j"
proof (cases "j = i")
  case False
  with same_word [of j i] show ?thesis
    unfolding get_bit BitArray_unset_def nth_update_word [OF holds_index [OF assms(1,2)]]
    by (auto simp: bit_and_iff bit_not_iff bit_one_word)
qed (simp add: get_bit BitArray_unset_def holds_index [OF assms(1,2)] bit_and_iff bit_not_iff bit_one_word)

end
