(* ===== verification/Memory.thy ===== *)
theory Memory
  imports ExprCorrect BitArray
begin

text \<open>
  Memory objects and their contents (\<open>lib/Core/Memory.h\<close>, \<open>lib/Core/Memory.cpp\<close>). The contents of
  an object are kept in three places: the concrete store, the expressions known for single bytes,
  and the update list of an array; two bit masks tell where a byte is to be found.
\<close>

section \<open>Definitions\<close>

text \<open>
  What the functions read from their surroundings: the data layout (\<open>Context\<close>), the option
  \<open>--const-array-opt\<close>, the printing of numbers (\<open>llvm::utostr\<close>) and the addresses the allocator
  gives to the constant arrays, by their number.
\<close>

record Context =
  isLittleEndian :: bool
  getPointerWidth :: nat
  constArrayOpt :: bool
  utostr :: "nat \<Rightarrow> string"
  arrayAddress :: "nat \<Rightarrow> nat"

record MemoryObject =
  moId :: nat
  moAddress :: "64 word"
  moSize :: nat
  moName :: string
  isLocal :: bool
  isGlobal :: bool
  isFixed :: bool
  isUserSpecified :: bool
  allocSite :: nat

definition getBaseExpr :: "Context \<Rightarrow> MemoryObject \<Rightarrow> expr" where
  "getBaseExpr C mo = ConstantExpr (alloc (uint (moAddress mo)) (getPointerWidth C))"

definition getSizeExpr :: "Context \<Rightarrow> MemoryObject \<Rightarrow> expr" where
  "getSizeExpr C mo = ConstantExpr (alloc (int (moSize mo)) (getPointerWidth C))"

definition getOffsetExpr :: "Context \<Rightarrow> MemoryObject \<Rightarrow> expr \<Rightarrow> expr" where
  "getOffsetExpr C mo pointer = SubExpr_create (constArrayOpt C) pointer (getBaseExpr C mo)"

definition getBoundsCheckOffset :: "Context \<Rightarrow> MemoryObject \<Rightarrow> expr \<Rightarrow> expr" where
  "getBoundsCheckOffset C mo offset =
     (if moSize mo = 0 then EqExpr_create (constArrayOpt C) offset (ConstantExpr (alloc 0 (getPointerWidth C)))
      else UltExpr_create (constArrayOpt C) offset (getSizeExpr C mo))"

definition getBoundsCheckOffsetBytes :: "Context \<Rightarrow> MemoryObject \<Rightarrow> expr \<Rightarrow> nat \<Rightarrow> expr" where
  "getBoundsCheckOffsetBytes C mo offset bytes =
     (if bytes \<le> moSize mo
      then UltExpr_create (constArrayOpt C) offset
        (ConstantExpr (alloc (int (moSize mo - bytes + 1)) (getPointerWidth C)))
      else ConstantExpr (alloc 0 1))"

definition getBoundsCheckPointer :: "Context \<Rightarrow> MemoryObject \<Rightarrow> expr \<Rightarrow> expr" where
  "getBoundsCheckPointer C mo pointer = getBoundsCheckOffset C mo (getOffsetExpr C mo pointer)"

definition getBoundsCheckPointerBytes :: "Context \<Rightarrow> MemoryObject \<Rightarrow> expr \<Rightarrow> nat \<Rightarrow> expr" where
  "getBoundsCheckPointerBytes C mo pointer bytes = getBoundsCheckOffsetBytes C mo (getOffsetExpr C mo pointer) bytes"

definition MemoryObject_compare :: "MemoryObject \<Rightarrow> MemoryObject \<Rightarrow> int" where
  "MemoryObject_compare a b =
     (if moId a = moId b then 0
      else if moAddress a \<noteq> moAddress b then (if moAddress a < moAddress b then - 1 else 1)
      else if moSize a \<noteq> moSize b then (if moSize a < moSize b then - 1 else 1)
      else if allocSite a \<noteq> allocSite b then (if allocSite a < allocSite b then - 1 else 1)
      else 0)"

subsection \<open>Object states\<close>

text \<open>
  The root of the update list is null until the constant array is created. The masks and the
  table of known expressions are null until they are needed.
\<close>

record ObjectState =
  copyOnWriteOwner :: nat
  object :: MemoryObject
  concreteStore :: "8 word list"
  concreteMask :: "BitArray option"
  flushMask :: "BitArray option"
  knownSymbolics :: "expr option list option"
  updates :: "Array option \<times> (expr \<times> expr) list"
  osize :: nat
  readOnly :: bool

definition isByteConcrete :: "ObjectState \<Rightarrow> nat \<Rightarrow> bool" where
  "isByteConcrete os offset \<longleftrightarrow> (case concreteMask os of None \<Rightarrow> True | Some m \<Rightarrow> BitArray_get m offset)"

definition isByteFlushed :: "ObjectState \<Rightarrow> nat \<Rightarrow> bool" where
  "isByteFlushed os offset \<longleftrightarrow> (case flushMask os of None \<Rightarrow> False | Some m \<Rightarrow> \<not> BitArray_get m offset)"

definition knownSymbolic :: "ObjectState \<Rightarrow> nat \<Rightarrow> expr option" where
  "knownSymbolic os offset = (case knownSymbolics os of None \<Rightarrow> None | Some ks \<Rightarrow> ks ! offset)"

definition isByteKnownSymbolic :: "ObjectState \<Rightarrow> nat \<Rightarrow> bool" where
  "isByteKnownSymbolic os offset \<longleftrightarrow> knownSymbolic os offset \<noteq> None"

definition markByteConcrete :: "nat \<Rightarrow> ObjectState \<Rightarrow> ObjectState" where
  "markByteConcrete offset os = os\<lparr>concreteMask := map_option (\<lambda>m. BitArray_set m offset) (concreteMask os)\<rparr>"

definition markByteSymbolic :: "nat \<Rightarrow> ObjectState \<Rightarrow> ObjectState" where
  "markByteSymbolic offset os =
     os\<lparr>concreteMask := Some (BitArray_unset
       (case concreteMask os of None \<Rightarrow> BitArray_new (osize os) True | Some m \<Rightarrow> m) offset)\<rparr>"

definition markByteUnflushed :: "nat \<Rightarrow> ObjectState \<Rightarrow> ObjectState" where
  "markByteUnflushed offset os = os\<lparr>flushMask := map_option (\<lambda>m. BitArray_set m offset) (flushMask os)\<rparr>"

definition markByteFlushed :: "nat \<Rightarrow> ObjectState \<Rightarrow> ObjectState" where
  "markByteFlushed offset os =
     os\<lparr>flushMask := Some (case flushMask os of None \<Rightarrow> BitArray_new (osize os) False | Some m \<Rightarrow> BitArray_unset m offset)\<rparr>"

definition setKnownSymbolic :: "nat \<Rightarrow> expr option \<Rightarrow> ObjectState \<Rightarrow> ObjectState" where
  "setKnownSymbolic offset v os =
     os\<lparr>knownSymbolics :=
       (case knownSymbolics os of
          Some ks \<Rightarrow> Some (ks[offset := v])
        | None \<Rightarrow> if v = None then None else Some ((replicate (osize os) None)[offset := v]))\<rparr>"

definition makeConcrete :: "ObjectState \<Rightarrow> ObjectState" where
  "makeConcrete os = os\<lparr>concreteMask := None, flushMask := None, knownSymbolics := None\<rparr>"

text \<open>\<open>None\<close> is the failed assertion on an object that has updates.\<close>

definition makeSymbolic :: "ObjectState \<Rightarrow> ObjectState option" where
  "makeSymbolic os =
     (if snd (updates os) \<noteq> [] then None
      else Some (fold (\<lambda>i os. markByteFlushed i (setKnownSymbolic i None (markByteSymbolic i os))) [0..<osize os] os))"

definition initializeToZero :: "ObjectState \<Rightarrow> ObjectState" where
  "initializeToZero os = (makeConcrete os)\<lparr>concreteStore := replicate (osize os) 0\<rparr>"

definition initializeToRandom :: "ObjectState \<Rightarrow> ObjectState" where
  "initializeToRandom os = (makeConcrete os)\<lparr>concreteStore := replicate (osize os) 0xAB\<rparr>"

text \<open>
  The constructors. The array of the first one is the symbolic array the option
  \<open>--use-constant-arrays=false\<close> asks for.
\<close>

definition ObjectState_new :: "MemoryObject \<Rightarrow> Array option \<Rightarrow> ObjectState" where
  "ObjectState_new mo array =
     \<lparr>copyOnWriteOwner = 0, object = mo, concreteStore = replicate (moSize mo) 0, concreteMask = None,
      flushMask = None, knownSymbolics = None, updates = (array, []), osize = moSize mo, readOnly = False\<rparr>"

definition ObjectState_symbolic :: "MemoryObject \<Rightarrow> Array \<Rightarrow> ObjectState option" where
  "ObjectState_symbolic mo array = makeSymbolic (ObjectState_new mo (Some array))"

definition ObjectState_copy :: "ObjectState \<Rightarrow> ObjectState option" where
  "ObjectState_copy os = (if readOnly os then None else Some (os\<lparr>copyOnWriteOwner := 0\<rparr>))"

subsection \<open>Update lists\<close>

text \<open>
  \<open>getUpdates\<close> creates the constant array on demand: the oldest writes, as long as they are
  concrete, become its contents, the others stay updates. The number of the array comes from a
  static counter, which is threaded through the calls.
\<close>

type_synonym ostate = "ObjectState \<times> nat"

fun concreteWrites :: "apint list \<Rightarrow> (expr \<times> expr) list \<Rightarrow> apint list \<times> (expr \<times> expr) list" where
  "concreteWrites contents [] = (contents, [])"
| "concreteWrites contents ((i, v) # ws) =
     (case (i, v) of
        (ConstantExpr ci, ConstantExpr cv) \<Rightarrow> concreteWrites (contents[nat (apValue ci) := cv]) ws
      | _ \<Rightarrow> (contents, (i, v) # ws))"

definition getUpdates :: "Context \<Rightarrow> ostate \<Rightarrow> UpdateList \<times> ostate" where
  "getUpdates C s =
     (let (os, id) = s
      in case fst (updates os) of
           Some A \<Rightarrow> ((A, snd (updates os)), s)
         | None \<Rightarrow>
             (let (contents, rest) = concreteWrites (replicate (osize os) (alloc 0 8)) (rev (snd (updates os)));
                  id1 = (id + 1) mod 2 ^ 32;
                  A = \<lparr>address = arrayAddress C id1, aname = ''const_arr'' @ utostr C id1, asize = osize os,
                       adomain = 32, arange = 8, constantValues = contents\<rparr>;
                  ul = foldl (\<lambda>ul (i, v). ExprRead.extend ul i v) (A, []) rest
              in (ul, os\<lparr>updates := (Some (fst ul), snd ul)\<rparr>, id1)))"

text \<open>\<open>UpdateList::extend\<close> on a list whose root may be null.\<close>

definition extendUpdates :: "expr \<Rightarrow> expr \<Rightarrow> ObjectState \<Rightarrow> ObjectState" where
  "extendUpdates i v os = os\<lparr>updates := (fst (updates os), (i, v) # snd (updates os))\<rparr>"

definition offsetExpr :: "nat \<Rightarrow> expr" where
  "offsetExpr offset = ConstantExpr (alloc (int offset) 32)"

text \<open>The expression a byte is flushed with; \<open>None\<close> is the failed assertion on its mask.\<close>

definition flushedByte :: "ObjectState \<Rightarrow> nat \<Rightarrow> expr option" where
  "flushedByte os offset =
     (if isByteConcrete os offset then Some (ConstantExpr (alloc (uint (concreteStore os ! offset)) 8))
      else knownSymbolic os offset)"

definition fastRangeCheckOffset :: "ObjectState \<Rightarrow> expr \<Rightarrow> nat \<times> nat" where
  "fastRangeCheckOffset os offset = (0, osize os)"

definition ensureFlushMask :: "ObjectState \<Rightarrow> ObjectState" where
  "ensureFlushMask os =
     os\<lparr>flushMask := Some (case flushMask os of None \<Rightarrow> BitArray_new (osize os) True | Some m \<Rightarrow> m)\<rparr>"

definition unsetFlush :: "nat \<Rightarrow> ObjectState \<Rightarrow> ObjectState" where
  "unsetFlush offset os = os\<lparr>flushMask := map_option (\<lambda>m. BitArray_unset m offset) (flushMask os)\<rparr>"

fun flushReadLoop :: "nat list \<Rightarrow> ObjectState \<Rightarrow> ObjectState option" where
  "flushReadLoop [] os = Some os"
| "flushReadLoop (offset # offsets) os =
     (if isByteFlushed os offset then flushReadLoop offsets os
      else
        (case flushedByte os offset of
           None \<Rightarrow> None
         | Some v \<Rightarrow> flushReadLoop offsets (unsetFlush offset (extendUpdates (offsetExpr offset) v os))))"

definition flushRangeForRead :: "nat \<Rightarrow> nat \<Rightarrow> ObjectState \<Rightarrow> ObjectState option" where
  "flushRangeForRead rangeBase rangeSize os = flushReadLoop [rangeBase..<rangeBase + rangeSize] (ensureFlushMask os)"

fun flushWriteLoop :: "nat list \<Rightarrow> ObjectState \<Rightarrow> ObjectState option" where
  "flushWriteLoop [] os = Some os"
| "flushWriteLoop (offset # offsets) os =
     (if isByteFlushed os offset then
        flushWriteLoop offsets
          (if isByteConcrete os offset then markByteSymbolic offset os
           else if isByteKnownSymbolic os offset then setKnownSymbolic offset None os
           else os)
      else
        (case flushedByte os offset of
           None \<Rightarrow> None
         | Some v \<Rightarrow>
             (let os1 = extendUpdates (offsetExpr offset) v os;
                  os2 = (if isByteConcrete os offset then markByteSymbolic offset os1 else setKnownSymbolic offset None os1)
              in flushWriteLoop offsets (unsetFlush offset os2))))"

definition flushRangeForWrite :: "nat \<Rightarrow> nat \<Rightarrow> ObjectState \<Rightarrow> ObjectState option" where
  "flushRangeForWrite rangeBase rangeSize os = flushWriteLoop [rangeBase..<rangeBase + rangeSize] (ensureFlushMask os)"

subsection \<open>Single bytes\<close>

definition read8 :: "Context \<Rightarrow> ostate \<Rightarrow> nat \<Rightarrow> (expr \<times> ostate) option" where
  "read8 C s offset =
     (let os = fst s
      in if isByteConcrete os offset then Some (ConstantExpr (alloc (uint (concreteStore os ! offset)) 8), s)
         else
           (case knownSymbolic os offset of
              Some e \<Rightarrow> Some (e, s)
            | None \<Rightarrow>
                if isByteFlushed os offset
                then (let (ul, s') = getUpdates C s in Some (ReadExpr_create (constArrayOpt C) ul (offsetExpr offset), s'))
                else None))"

definition read8_expr :: "Context \<Rightarrow> ostate \<Rightarrow> expr \<Rightarrow> (expr \<times> ostate) option" where
  "read8_expr C s offset =
     (if isConstantExpr offset then None
      else
        (let (base, sz) = fastRangeCheckOffset (fst s) offset
         in case flushRangeForRead base sz (fst s) of
              None \<Rightarrow> None
            | Some os1 \<Rightarrow>
                (let (ul, s') = getUpdates C (os1, snd s)
                 in Some (ReadExpr_create (constArrayOpt C) ul (ZExtExpr_create offset 32), s'))))"

definition write8_value :: "nat \<Rightarrow> 8 word \<Rightarrow> ObjectState \<Rightarrow> ObjectState" where
  "write8_value offset v os =
     markByteUnflushed offset (markByteConcrete offset (setKnownSymbolic offset None
       (os\<lparr>concreteStore := (concreteStore os)[offset := v]\<rparr>)))"

definition write8 :: "nat \<Rightarrow> expr \<Rightarrow> ObjectState \<Rightarrow> ObjectState" where
  "write8 offset v os =
     (case v of
        ConstantExpr c \<Rightarrow> write8_value offset (word_of_int (apValue c)) os
      | _ \<Rightarrow> markByteUnflushed offset (markByteSymbolic offset (setKnownSymbolic offset (Some v) os)))"

definition write8_expr :: "expr \<Rightarrow> expr \<Rightarrow> ObjectState \<Rightarrow> ObjectState option" where
  "write8_expr offset v os =
     (if isConstantExpr offset then None
      else
        (let (base, sz) = fastRangeCheckOffset os offset
         in map_option (extendUpdates (ZExtExpr_create offset 32) v) (flushRangeForWrite base sz os)))"

subsection \<open>Values of several bytes\<close>

definition byteIndex :: "Context \<Rightarrow> nat \<Rightarrow> nat \<Rightarrow> nat" where
  "byteIndex C NumBytes i = (if isLittleEndian C then i else NumBytes - i - 1)"

text \<open>
  The loop of the two \<open>read\<close> functions; \<open>rd\<close> reads the byte at an index and \<open>Res\<close> is the value
  read so far, null before the first byte.
\<close>

fun readLoop :: "(ostate \<Rightarrow> nat \<Rightarrow> (expr \<times> ostate) option) \<Rightarrow> nat list \<Rightarrow> ostate \<Rightarrow> expr option \<Rightarrow> (expr option \<times> ostate) option" where
  "readLoop rd [] s Res = Some (Res, s)"
| "readLoop rd (idx # idxs) s Res =
     (case rd s idx of
        None \<Rightarrow> None
      | Some (Byte, s') \<Rightarrow>
          readLoop rd idxs s' (Some (case Res of None \<Rightarrow> Byte | Some r \<Rightarrow> ConcatExpr_create Byte r)))"

definition readBytes :: "Context \<Rightarrow> (ostate \<Rightarrow> nat \<Rightarrow> (expr \<times> ostate) option) \<Rightarrow> nat \<Rightarrow> ostate \<Rightarrow> (expr \<times> ostate) option" where
  "readBytes C rd width s =
     (if width = 1 then map_option (\<lambda>(e, s'). (ExtractExpr_create e 0 1, s')) (rd s 0)
      else
        (let NumBytes = width div 8
         in if width \<noteq> NumBytes * 8 then None
            else
              (case readLoop rd (map (byteIndex C NumBytes) [0..<NumBytes]) s None of
                 Some (Some e, s') \<Rightarrow> Some (e, s')
               | _ \<Rightarrow> None)))"

definition read_at :: "Context \<Rightarrow> ostate \<Rightarrow> nat \<Rightarrow> nat \<Rightarrow> (expr \<times> ostate) option" where
  "read_at C s offset width = readBytes C (\<lambda>s idx. read8 C s ((offset + idx) mod 2 ^ 32)) width s"

definition read_expr :: "Context \<Rightarrow> ostate \<Rightarrow> expr \<Rightarrow> nat \<Rightarrow> (expr \<times> ostate) option" where
  "read_expr C s offset width =
     (let offset1 = ZExtExpr_create offset 32
      in case offset1 of
           ConstantExpr c \<Rightarrow> read_at C s (nat (apValue c)) width
         | _ \<Rightarrow>
             if width = 1 then map_option (\<lambda>(e, s'). (ExtractExpr_create e 0 1, s')) (read8_expr C s offset1)
             else readBytes C (\<lambda>s idx. read8_expr C s (AddExpr_create (constArrayOpt C) offset1 (offsetExpr idx))) width s)"

text \<open>The loops of the \<open>write\<close> functions; \<open>wr\<close> writes a byte and may fail an assertion.\<close>

fun writeLoop :: "(nat \<Rightarrow> nat \<Rightarrow> ObjectState \<Rightarrow> ObjectState option) \<Rightarrow> (nat \<times> nat) list \<Rightarrow> ObjectState \<Rightarrow> ObjectState option" where
  "writeLoop wr [] os = Some os"
| "writeLoop wr ((i, idx) # rest) os = (case wr i idx os of None \<Rightarrow> None | Some os' \<Rightarrow> writeLoop wr rest os')"

definition writeBytes :: "Context \<Rightarrow> (nat \<Rightarrow> nat \<Rightarrow> ObjectState \<Rightarrow> ObjectState option) \<Rightarrow> nat \<Rightarrow> ObjectState \<Rightarrow> ObjectState option" where
  "writeBytes C wr NumBytes os = writeLoop wr (map (\<lambda>i. (i, byteIndex C NumBytes i)) [0..<NumBytes]) os"

text \<open>\<open>write16\<close>, \<open>write32\<close> and \<open>write64\<close>, whose argument has as many bytes as are written.\<close>

definition writeInteger :: "Context \<Rightarrow> nat \<Rightarrow> nat \<Rightarrow> int \<Rightarrow> ObjectState \<Rightarrow> ObjectState option" where
  "writeInteger C NumBytes offset v =
     writeBytes C (\<lambda>i idx os. Some (write8_value ((offset + idx) mod 2 ^ 32)
       (word_of_int (v mod 2 ^ (8 * NumBytes) div 2 ^ (8 * i))) os)) NumBytes"

definition isPowerOfTwo :: "nat \<Rightarrow> bool" where
  "isPowerOfTwo w \<longleftrightarrow> w \<noteq> 0 \<and> w AND (w - 1) = 0"

definition write_at :: "Context \<Rightarrow> nat \<Rightarrow> expr \<Rightarrow> ObjectState \<Rightarrow> ObjectState option" where
  "write_at C offset v os =
     (let w = getWidth v
      in case v of
           ConstantExpr c \<Rightarrow>
             if w \<le> 64 \<and> isPowerOfTwo w then
               if w = 1 \<or> w = 8 then Some (write8_value offset (word_of_int (apValue c)) os)
               else if w = 16 then writeInteger C 2 offset (apValue c) os
               else if w = 32 then writeInteger C 4 offset (apValue c) os
               else if w = 64 then writeInteger C 8 offset (apValue c) os
               else None
             else if w \<noteq> w div 8 * 8 then None
             else writeBytes C (\<lambda>i idx os. Some (write8 ((offset + idx) mod 2 ^ 32) (ExtractExpr_create v (8 * i) 8) os)) (w div 8) os
         | _ \<Rightarrow>
             if w = 1 then Some (write8 offset (ZExtExpr_create v 8) os)
             else if w \<noteq> w div 8 * 8 then None
             else writeBytes C (\<lambda>i idx os. Some (write8 ((offset + idx) mod 2 ^ 32) (ExtractExpr_create v (8 * i) 8) os)) (w div 8) os)"

definition write_expr :: "Context \<Rightarrow> expr \<Rightarrow> expr \<Rightarrow> ObjectState \<Rightarrow> ObjectState option" where
  "write_expr C offset v os =
     (let offset1 = ZExtExpr_create offset 32; w = getWidth v
      in case offset1 of
           ConstantExpr c \<Rightarrow> write_at C (nat (apValue c)) v os
         | _ \<Rightarrow>
             if w = 1 then write8_expr offset1 (ZExtExpr_create v 8) os
             else if w \<noteq> w div 8 * 8 then None
             else writeBytes C (\<lambda>i idx os. write8_expr (AddExpr_create (constArrayOpt C) offset1 (offsetExpr idx)) (ExtractExpr_create v (8 * i) 8) os)
               (w div 8) os)"

text \<open>
  \<open>flushToConcreteStore\<close>; \<open>getValue\<close> is the solver's value for an expression, if it does not time
  out, and \<open>toMemory\<close> stores a byte.
\<close>

fun flushStoreLoop :: "(expr \<Rightarrow> apint option) \<Rightarrow> nat list \<Rightarrow> ObjectState \<Rightarrow> ObjectState" where
  "flushStoreLoop getValue [] os = os"
| "flushStoreLoop getValue (i # rest) os =
     flushStoreLoop getValue rest
       (case knownSymbolic os i of
          None \<Rightarrow> os
        | Some e \<Rightarrow>
            (let e' = (if isByteConcrete os i then ConstantExpr (alloc (uint (concreteStore os ! i)) 8) else e)
             in case getValue e' of
                  None \<Rightarrow> os
                | Some ce \<Rightarrow> os\<lparr>concreteStore := (concreteStore os)[i := word_of_int (apValue ce)]\<rparr>))"

definition flushToConcreteStore :: "(expr \<Rightarrow> apint option) \<Rightarrow> ObjectState \<Rightarrow> ObjectState" where
  "flushToConcreteStore getValue os = flushStoreLoop getValue [0..<osize os] os"

section \<open>The bytes an object holds\<close>

text \<open>The allocated parts of an object have the size of the object.\<close>

definition shape :: "ObjectState \<Rightarrow> bool" where
  "shape os \<longleftrightarrow>
     0 < osize os \<and> osize os \<le> maxBits \<and> length (concreteStore os) = osize os \<and>
     (\<forall>m. concreteMask os = Some m \<longrightarrow> holds (osize os) m) \<and>
     (\<forall>m. flushMask os = Some m \<longrightarrow> holds (osize os) m) \<and>
     (\<forall>ks. knownSymbolics os = Some ks \<longrightarrow> length ks = osize os)"

lemma get_unset_new [simp]:
  "i < n \<Longrightarrow> j < n \<Longrightarrow> n \<le> maxBits \<Longrightarrow> BitArray_get (BitArray_unset (BitArray_new n True) i) j \<longleftrightarrow> j \<noteq> i"
  by (subst get_unset [of n]) auto

lemma mask_simps [simp]:
  assumes "shape os" "offset < osize os" "i < osize os"
  shows "isByteConcrete (markByteSymbolic offset os) i \<longleftrightarrow> i \<noteq> offset \<and> isByteConcrete os i"
    "isByteConcrete (markByteConcrete offset os) i \<longleftrightarrow> i = offset \<or> isByteConcrete os i"
    "isByteFlushed (markByteUnflushed offset os) i \<longleftrightarrow> i \<noteq> offset \<and> isByteFlushed os i"
    "isByteFlushed (ensureFlushMask os) i \<longleftrightarrow> isByteFlushed os i"
    "flushMask os \<noteq> None \<Longrightarrow> isByteFlushed (unsetFlush offset os) i \<longleftrightarrow> i = offset \<or> isByteFlushed os i"
    "knownSymbolic (setKnownSymbolic offset v os) i = (if i = offset then v else knownSymbolic os i)"
  using assms
  by (auto simp: shape_def isByteConcrete_def isByteFlushed_def knownSymbolic_def markByteSymbolic_def
      markByteConcrete_def markByteUnflushed_def ensureFlushMask_def unsetFlush_def setKnownSymbolic_def
      nth_list_update split: option.splits)

lemma frame_simps [simp]:
  "isByteConcrete (markByteUnflushed offset os) = isByteConcrete os"
  "isByteConcrete (ensureFlushMask os) = isByteConcrete os"
  "isByteConcrete (unsetFlush offset os) = isByteConcrete os"
  "isByteConcrete (setKnownSymbolic offset v os) = isByteConcrete os"
  "isByteConcrete (extendUpdates ui uv os) = isByteConcrete os"
  "isByteConcrete (concreteStore_update f os) = isByteConcrete os"
  "isByteConcrete (updates_update g os) = isByteConcrete os"
  "isByteFlushed (markByteSymbolic offset os) = isByteFlushed os"
  "isByteFlushed (markByteConcrete offset os) = isByteFlushed os"
  "isByteFlushed (setKnownSymbolic offset v os) = isByteFlushed os"
  "isByteFlushed (extendUpdates ui uv os) = isByteFlushed os"
  "isByteFlushed (concreteStore_update f os) = isByteFlushed os"
  "isByteFlushed (updates_update g os) = isByteFlushed os"
  "knownSymbolic (markByteSymbolic offset os) = knownSymbolic os"
  "knownSymbolic (markByteConcrete offset os) = knownSymbolic os"
  "knownSymbolic (markByteUnflushed offset os) = knownSymbolic os"
  "knownSymbolic (ensureFlushMask os) = knownSymbolic os"
  "knownSymbolic (unsetFlush offset os) = knownSymbolic os"
  "knownSymbolic (extendUpdates ui uv os) = knownSymbolic os"
  "knownSymbolic (concreteStore_update f os) = knownSymbolic os"
  "knownSymbolic (updates_update g os) = knownSymbolic os"
  by (auto simp: fun_eq_iff isByteConcrete_def isByteFlushed_def knownSymbolic_def markByteSymbolic_def
      markByteConcrete_def markByteUnflushed_def ensureFlushMask_def unsetFlush_def setKnownSymbolic_def extendUpdates_def)

lemma field_simps' [simp]:
  "updates (markByteSymbolic offset os) = updates os" "updates (markByteConcrete offset os) = updates os"
  "updates (markByteUnflushed offset os) = updates os" "updates (ensureFlushMask os) = updates os"
  "updates (unsetFlush offset os) = updates os" "updates (setKnownSymbolic offset v os) = updates os"
  "updates (extendUpdates ui uv os) = (fst (updates os), (ui, uv) # snd (updates os))"
  "concreteStore (markByteSymbolic offset os) = concreteStore os" "concreteStore (markByteConcrete offset os) = concreteStore os"
  "concreteStore (markByteUnflushed offset os) = concreteStore os" "concreteStore (ensureFlushMask os) = concreteStore os"
  "concreteStore (unsetFlush offset os) = concreteStore os" "concreteStore (setKnownSymbolic offset v os) = concreteStore os"
  "concreteStore (extendUpdates ui uv os) = concreteStore os"
  "osize (markByteSymbolic offset os) = osize os" "osize (markByteConcrete offset os) = osize os"
  "osize (markByteUnflushed offset os) = osize os" "osize (ensureFlushMask os) = osize os"
  "osize (unsetFlush offset os) = osize os" "osize (setKnownSymbolic offset v os) = osize os"
  "osize (extendUpdates ui uv os) = osize os"
  "flushMask (markByteSymbolic offset os) = flushMask os" "flushMask (setKnownSymbolic offset v os) = flushMask os"
  "flushMask (extendUpdates ui uv os) = flushMask os" "flushMask (unsetFlush offset os) = None \<longleftrightarrow> flushMask os = None"
  "flushMask (ensureFlushMask os) \<noteq> None"
  by (auto simp: markByteSymbolic_def markByteConcrete_def markByteUnflushed_def ensureFlushMask_def unsetFlush_def
      setKnownSymbolic_def extendUpdates_def)

lemma shape_simps [simp]:
  assumes "shape os"
  shows "shape (markByteSymbolic offset os)" "shape (markByteConcrete offset os)" "shape (markByteUnflushed offset os)"
    "shape (ensureFlushMask os)" "shape (unsetFlush offset os)" "shape (setKnownSymbolic offset v os)"
    "shape (extendUpdates ui uv os)" "shape (os\<lparr>concreteStore := (concreteStore os)[offset := x]\<rparr>)"
    "shape (os\<lparr>updates := u\<rparr>)"
  using assms
  by (auto simp: shape_def markByteSymbolic_def markByteConcrete_def markByteUnflushed_def ensureFlushMask_def
      unsetFlush_def setKnownSymbolic_def extendUpdates_def split: option.splits if_splits)

text \<open>
  The update list of an object over its root; a root that is not created yet stands for zeros.
\<close>

definition zeroArray :: "nat \<Rightarrow> Array" where
  "zeroArray n = \<lparr>address = 0, aname = [], asize = n, adomain = 32, arange = 8, constantValues = replicate n (alloc 0 8)\<rparr>"

definition rootOf :: "ObjectState \<Rightarrow> Array" where
  "rootOf os = (case fst (updates os) of Some A \<Rightarrow> A | None \<Rightarrow> zeroArray (osize os))"

definition updVal :: "env \<Rightarrow> ObjectState \<Rightarrow> nat \<Rightarrow> int option" where
  "updVal \<sigma> os i = semRead \<sigma> (rootOf os) (snd (updates os)) (int i)"

definition wf_updates :: "ObjectState \<Rightarrow> bool" where
  "wf_updates os \<longleftrightarrow>
     wf_array (rootOf os) \<and> adomain (rootOf os) = 32 \<and> arange (rootOf os) = 8 \<and>
     (\<forall>(ui, uv) \<in> set (snd (updates os)). wf_expr ui \<and> wf_expr uv \<and> getWidth ui = 32 \<and> getWidth uv = 8) \<and>
     (fst (updates os) = None \<longrightarrow>
        (\<forall>(ui, uv) \<in> set (snd (updates os)). \<forall>c. ui = ConstantExpr c \<longrightarrow> apValue c < int (osize os)))"

text \<open>
  Where a byte is found: the three cache invariants of the source, and that the copies agree.
\<close>

definition byteOK :: "env \<Rightarrow> ObjectState \<Rightarrow> nat \<Rightarrow> int \<Rightarrow> bool" where
  "byteOK \<sigma> os i b \<longleftrightarrow>
     (isByteConcrete os i \<longrightarrow> uint (concreteStore os ! i) = b \<and> knownSymbolic os i = None) \<and>
     (\<forall>e. knownSymbolic os i = Some e \<longrightarrow> wf_expr e \<and> getWidth e = 8 \<and> sem \<sigma> e = Some b) \<and>
     (isByteFlushed os i \<longrightarrow> updVal \<sigma> os i = Some b) \<and>
     (\<not> isByteFlushed os i \<longrightarrow> isByteConcrete os i \<or> knownSymbolic os i \<noteq> None)"

text \<open>The abstraction: an object holds the list of bytes \<open>bs\<close> in an environment.\<close>

definition holdsBytes :: "Context \<Rightarrow> env \<Rightarrow> int list \<Rightarrow> ObjectState \<Rightarrow> bool" where
  "holdsBytes C \<sigma> bs os \<longleftrightarrow>
     wf_env (constArrayOpt C) \<sigma> \<and> shape os \<and> length bs = osize os \<and> wf_updates os \<and>
     (\<forall>(ui, uv) \<in> set (snd (updates os)). sem \<sigma> ui \<noteq> None) \<and>
     (\<forall>i < osize os. byteOK \<sigma> os i (bs ! i))"

lemma rootOf_simps [simp]:
  "rootOf (markByteSymbolic offset os) = rootOf os" "rootOf (markByteConcrete offset os) = rootOf os"
  "rootOf (markByteUnflushed offset os) = rootOf os" "rootOf (ensureFlushMask os) = rootOf os"
  "rootOf (unsetFlush offset os) = rootOf os" "rootOf (setKnownSymbolic offset v os) = rootOf os"
  "rootOf (extendUpdates ui uv os) = rootOf os" "rootOf (concreteStore_update f os) = rootOf os"
  by (simp_all add: rootOf_def split: option.split)

lemma updVal_simps [simp]:
  "updVal \<sigma> (markByteSymbolic offset os) = updVal \<sigma> os" "updVal \<sigma> (markByteConcrete offset os) = updVal \<sigma> os"
  "updVal \<sigma> (markByteUnflushed offset os) = updVal \<sigma> os" "updVal \<sigma> (ensureFlushMask os) = updVal \<sigma> os"
  "updVal \<sigma> (unsetFlush offset os) = updVal \<sigma> os" "updVal \<sigma> (setKnownSymbolic offset v os) = updVal \<sigma> os"
  "updVal \<sigma> (concreteStore_update f os) = updVal \<sigma> os"
  "sem \<sigma> ui = Some k \<Longrightarrow> updVal \<sigma> (extendUpdates ui uv os) i = (if k = int i then sem \<sigma> uv else updVal \<sigma> os i)"
  by (simp_all add: fun_eq_iff updVal_def)

lemma wf_updates_simps [simp]:
  "wf_updates (markByteSymbolic offset os) = wf_updates os" "wf_updates (markByteConcrete offset os) = wf_updates os"
  "wf_updates (markByteUnflushed offset os) = wf_updates os" "wf_updates (ensureFlushMask os) = wf_updates os"
  "wf_updates (unsetFlush offset os) = wf_updates os" "wf_updates (setKnownSymbolic offset v os) = wf_updates os"
  "wf_updates (concreteStore_update f os) = wf_updates os"
  by (simp_all add: wf_updates_def)

lemma wf_updates_extend [simp]:
  "wf_updates os \<Longrightarrow> wf_expr ui \<Longrightarrow> wf_expr uv \<Longrightarrow> getWidth ui = 32 \<Longrightarrow> getWidth uv = 8 \<Longrightarrow>
   (\<And>c. ui = ConstantExpr c \<Longrightarrow> apValue c < int (osize os)) \<Longrightarrow> wf_updates (extendUpdates ui uv os)"
  by (auto simp: wf_updates_def)

section \<open>Single bytes\<close>

lemma offsetExpr_simps [simp]:
  "wf_expr (offsetExpr offset)" "getWidth (offsetExpr offset) = 32" "offset < 2 ^ 32 \<Longrightarrow> sem \<sigma> (offsetExpr offset) = Some (int offset)"
  "isConstantExpr (offsetExpr offset)"
  by (simp_all add: offsetExpr_def)

lemma maxBits_lt: "n \<le> maxBits \<Longrightarrow> i < n \<Longrightarrow> i < 2 ^ 32"
  by simp

lemma byteConst [simp]: "uint (b :: 8 word) mod 256 = uint b"
  using uint_bounded [of b] by simp

lemma holdsBytesD:
  assumes "holdsBytes C \<sigma> bs os"
  shows "wf_env (constArrayOpt C) \<sigma>" "shape os" "length bs = osize os" "wf_updates os"
    "(ui, uv) \<in> set (snd (updates os)) \<Longrightarrow> sem \<sigma> ui \<noteq> None" "i < osize os \<Longrightarrow> byteOK \<sigma> os i (bs ! i)"
    "osize os \<le> maxBits" "length (concreteStore os) = osize os"
  using assms by (auto simp: holdsBytes_def shape_def)

lemma write8_value_holds:
  assumes "holdsBytes C \<sigma> bs os" "offset < osize os"
  shows "holdsBytes C \<sigma> (bs[offset := uint v]) (write8_value offset v os)"
proof -
  note H = holdsBytesD [OF assms(1)]
  have "byteOK \<sigma> (write8_value offset v os) i ((bs[offset := uint v]) ! i)" if "i < osize os" for i
    using H(6) [OF that] that assms(2) H(2,3,8)
    by (auto simp: byteOK_def write8_value_def nth_list_update)
  then show ?thesis
    using H assms by (auto simp: holdsBytes_def write8_value_def)
qed

lemma write8_holds:
  assumes "holdsBytes C \<sigma> bs os" "offset < osize os" "wf_expr v" "getWidth v = 8" "sem \<sigma> v = Some x"
  shows "holdsBytes C \<sigma> (bs[offset := x]) (write8 offset v os)"
proof (cases "isConstantExpr v")
  case True
  then obtain c where c: "v = ConstantExpr c" by (rule isConstantExprE)
  with assms have "uint (word_of_int (apValue c) :: 8 word) = x"
    by (auto simp: wf_const_def fits_def uint_word_of_int)
  with write8_value_holds [OF assms(1,2)] c show ?thesis by (metis write8_def expr.simps(101))
next
  case False
  note H = holdsBytesD [OF assms(1)]
  have w: "write8 offset v os = markByteUnflushed offset (markByteSymbolic offset (setKnownSymbolic offset (Some v) os))"
    using False by (simp add: write8_def)
  have "byteOK \<sigma> (write8 offset v os) i ((bs[offset := x]) ! i)" if "i < osize os" for i
    using H(6) [OF that] that assms(2-) H(2,3)
    by (auto simp: byteOK_def w nth_list_update)
  then show ?thesis
    using H assms by (auto simp: holdsBytes_def w)
qed

lemma ensureFlushMask_holds: "holdsBytes C \<sigma> bs os \<Longrightarrow> holdsBytes C \<sigma> bs (ensureFlushMask os)"
  by (auto simp: holdsBytes_def byteOK_def)

text \<open>A flushed byte is in the update list.\<close>

lemma flushedByte_ok:
  assumes "holdsBytes C \<sigma> bs os" "offset < osize os" "\<not> isByteFlushed os offset"
  shows "\<exists>v. flushedByte os offset = Some v \<and> wf_expr v \<and> getWidth v = 8 \<and> sem \<sigma> v = Some (bs ! offset)"
  using holdsBytesD(6) [OF assms(1,2)] assms(3)
  by (auto simp: byteOK_def flushedByte_def) (metis byteConst)

lemma flush_holds:
  assumes "holdsBytes C \<sigma> bs os" "offset < osize os" "flushMask os \<noteq> None"
    and "wf_expr v" "getWidth v = 8" "sem \<sigma> v = Some (bs ! offset)" "\<not> isByteFlushed os offset"
  shows "holdsBytes C \<sigma> bs (unsetFlush offset (extendUpdates (offsetExpr offset) v os))"
proof -
  note H = holdsBytesD [OF assms(1)]
  have o: "sem \<sigma> (offsetExpr offset) = Some (int offset)" using maxBits_lt [OF H(7) assms(2)] by simp
  have wf: "wf_updates (extendUpdates (offsetExpr offset) v os)"
    by (rule wf_updates_extend) (use H(4) assms maxBits_lt [OF H(7) assms(2)] in \<open>auto simp: offsetExpr_def\<close>)
  have "byteOK \<sigma> (unsetFlush offset (extendUpdates (offsetExpr offset) v os)) i (bs ! i)" if "i < osize os" for i
    using H(6) [OF that] H(6) [OF assms(2)] that assms H(2) o by (auto simp: byteOK_def)
  with H wf o show ?thesis by (auto simp: holdsBytes_def)
qed

lemma flushReadLoop_holds:
  "holdsBytes C \<sigma> bs os \<Longrightarrow> flushMask os \<noteq> None \<Longrightarrow> \<forall>i \<in> set offs. i < osize os \<Longrightarrow>
   \<exists>os'. flushReadLoop offs os = Some os' \<and> holdsBytes C \<sigma> bs os' \<and> osize os' = osize os \<and>
     (\<forall>i < osize os. isByteFlushed os i \<or> i \<in> set offs \<longrightarrow> isByteFlushed os' i)"
proof (induction offs arbitrary: os)
  case (Cons offset offs)
  show ?case
  proof (cases "isByteFlushed os offset")
    case True
    with Cons.IH [of os] Cons.prems show ?thesis by auto
  next
    case False
    obtain v where v: "flushedByte os offset = Some v" "wf_expr v" "getWidth v = 8" "sem \<sigma> v = Some (bs ! offset)"
      using flushedByte_ok [OF Cons.prems(1) _ False] Cons.prems(3) by auto
    let ?os1 = "unsetFlush offset (extendUpdates (offsetExpr offset) v os)"
    have "holdsBytes C \<sigma> bs ?os1" using flush_holds [OF Cons.prems(1) _ Cons.prems(2)] v False Cons.prems(3) by simp
    from Cons.IH [OF this] Cons.prems v(1) False holdsBytesD(2) [OF Cons.prems(1)] show ?thesis by auto
  qed
qed auto

lemma flushRangeForRead_holds:
  assumes "holdsBytes C \<sigma> bs os"
  shows "\<exists>os'. flushRangeForRead 0 (osize os) os = Some os' \<and> holdsBytes C \<sigma> bs os' \<and> osize os' = osize os \<and>
    (\<forall>i < osize os. isByteFlushed os' i)"
  using flushReadLoop_holds [OF ensureFlushMask_holds [OF assms], of "[0..<osize os]"]
  by (auto simp: flushRangeForRead_def)

text \<open>Before a write at a symbolic offset every byte is moved to the update list.\<close>

lemma forget_holds:
  assumes "holdsBytes C \<sigma> bs os" "offset < osize os" "isByteFlushed os offset"
  shows "holdsBytes C \<sigma> bs (markByteSymbolic offset os)" "holdsBytes C \<sigma> bs (setKnownSymbolic offset None os)"
proof -
  note H = holdsBytesD [OF assms(1)]
  have "byteOK \<sigma> (markByteSymbolic offset os) i (bs ! i)" "byteOK \<sigma> (setKnownSymbolic offset None os) i (bs ! i)" if "i < osize os" for i
    using H(6) [OF that] that assms H(2) by (auto simp: byteOK_def)
  with H show "holdsBytes C \<sigma> bs (markByteSymbolic offset os)" "holdsBytes C \<sigma> bs (setKnownSymbolic offset None os)"
    by (auto simp: holdsBytes_def)
qed

definition onlyUpdates :: "ObjectState \<Rightarrow> nat \<Rightarrow> bool" where
  "onlyUpdates os i \<longleftrightarrow> isByteFlushed os i \<and> \<not> isByteConcrete os i \<and> knownSymbolic os i = None"

lemma unsetFlush_commute:
  "unsetFlush i (markByteSymbolic j os) = markByteSymbolic j (unsetFlush i os)"
  "unsetFlush i (setKnownSymbolic j v os) = setKnownSymbolic j v (unsetFlush i os)"
  by (cases os; simp add: unsetFlush_def markByteSymbolic_def setKnownSymbolic_def split: option.split)+

text \<open>One round of the loop of \<open>flushRangeForWrite\<close>.\<close>

lemma flushWrite_step:
  assumes "holdsBytes C \<sigma> bs os" "offset < osize os" "flushMask os \<noteq> None"
  shows "\<exists>os1. flushWriteLoop (offset # offs) os = flushWriteLoop offs os1 \<and> holdsBytes C \<sigma> bs os1 \<and>
    osize os1 = osize os \<and> flushMask os1 \<noteq> None \<and> onlyUpdates os1 offset \<and>
    (\<forall>i < osize os. onlyUpdates os i \<longrightarrow> onlyUpdates os1 i)"
proof -
  note H = holdsBytesD [OF assms(1)] and ok = holdsBytesD(6) [OF assms(1,2)]
  define os0 where "os0 = (if isByteFlushed os offset then os
    else unsetFlush offset (extendUpdates (offsetExpr offset) (the (flushedByte os offset)) os))"
  define os1 where "os1 = (if isByteConcrete os offset then markByteSymbolic offset os0
    else if isByteKnownSymbolic os offset then setKnownSymbolic offset None os0 else os0)"
  have os0: "holdsBytes C \<sigma> bs os0 \<and> isByteFlushed os0 offset \<and> shape os0 \<and> osize os0 = osize os \<and> flushMask os0 \<noteq> None \<and>
      isByteConcrete os0 = isByteConcrete os \<and> knownSymbolic os0 = knownSymbolic os \<and>
      (\<forall>i < osize os. isByteFlushed os i \<longrightarrow> isByteFlushed os0 i)"
    using flush_holds [OF assms] flushedByte_ok [OF assms(1,2)] assms H(2)
    by (auto simp: os0_def) (simp add: unsetFlush_def)
  then have os1: "holdsBytes C \<sigma> bs os1 \<and> osize os1 = osize os \<and> flushMask os1 \<noteq> None"
    using forget_holds [of C \<sigma> bs os0 offset] assms(2) by (auto simp: os1_def)
  have only: "onlyUpdates os1 i" if "i < osize os" "i = offset \<or> onlyUpdates os i" for i
    using os0 ok that assms(2) by (auto simp: onlyUpdates_def os1_def isByteKnownSymbolic_def byteOK_def)
  have "flushWriteLoop (offset # offs) os = flushWriteLoop offs os1"
  proof (cases "isByteFlushed os offset")
    case False
    with flushedByte_ok [OF assms(1,2)] obtain v where v: "flushedByte os offset = Some v" by blast
    have "isByteConcrete os offset \<or> isByteKnownSymbolic os offset"
      using ok False by (auto simp: byteOK_def isByteKnownSymbolic_def)
    with False v show ?thesis
      by (auto simp: os1_def os0_def Let_def unsetFlush_commute)
  qed (simp add: os1_def os0_def)
  with os1 only assms(2) show ?thesis by blast
qed

lemma flushWriteLoop_holds:
  "holdsBytes C \<sigma> bs os \<Longrightarrow> flushMask os \<noteq> None \<Longrightarrow> \<forall>i \<in> set offs. i < osize os \<Longrightarrow>
   \<exists>os'. flushWriteLoop offs os = Some os' \<and> holdsBytes C \<sigma> bs os' \<and> osize os' = osize os \<and>
     (\<forall>i < osize os. onlyUpdates os i \<or> i \<in> set offs \<longrightarrow> onlyUpdates os' i)"
proof (induction offs arbitrary: os)
  case (Cons offset offs)
  from flushWrite_step [OF Cons.prems(1) _ Cons.prems(2), of offset offs] Cons.prems(3) obtain os1 where
    os1: "flushWriteLoop (offset # offs) os = flushWriteLoop offs os1" "holdsBytes C \<sigma> bs os1"
      "osize os1 = osize os" "flushMask os1 \<noteq> None" "onlyUpdates os1 offset" "\<forall>i < osize os. onlyUpdates os i \<longrightarrow> onlyUpdates os1 i"
    by auto
  from Cons.IH [OF os1(2,4)] Cons.prems(3) os1 show ?case by auto
qed auto

lemma flushRangeForWrite_holds:
  assumes "holdsBytes C \<sigma> bs os"
  shows "\<exists>os'. flushRangeForWrite 0 (osize os) os = Some os' \<and> holdsBytes C \<sigma> bs os' \<and> osize os' = osize os \<and>
    (\<forall>i < osize os. onlyUpdates os' i)"
  using flushWriteLoop_holds [OF ensureFlushMask_holds [OF assms], of "[0..<osize os]"]
  by (auto simp: flushRangeForWrite_def)

lemma write8_expr_holds:
  assumes "holdsBytes C \<sigma> bs os" "\<not> isConstantExpr offset" "wf_expr offset" "getWidth offset = 32" "sem \<sigma> offset = Some (int k)"
    and "k < osize os" "wf_expr v" "getWidth v = 8" "sem \<sigma> v = Some x"
  shows "\<exists>os'. write8_expr offset v os = Some os' \<and> holdsBytes C \<sigma> (bs[k := x]) os' \<and> osize os' = osize os"
proof -
  obtain os1 where os1: "flushRangeForWrite 0 (osize os) os = Some os1" "holdsBytes C \<sigma> bs os1" "osize os1 = osize os"
      "\<forall>i < osize os. onlyUpdates os1 i"
    using flushRangeForWrite_holds [OF assms(1)] by blast
  note H = holdsBytesD [OF os1(2)]
  let ?os2 = "extendUpdates offset v os1"
  have z: "ZExtExpr_create offset 32 = offset" using assms(4) by (simp add: ZExtExpr_create_def)
  have "byteOK \<sigma> ?os2 i ((bs[k := x]) ! i)" if "i < osize os" for i
    using H(3) H(6) [of i] os1 that assms by (auto simp: byteOK_def onlyUpdates_def nth_list_update)
  moreover have "wf_updates ?os2" by (rule wf_updates_extend) (use H(4) assms in auto)
  ultimately have "holdsBytes C \<sigma> (bs[k := x]) ?os2" using H os1(3) assms(5) by (auto simp: holdsBytes_def)
  with os1 z assms(2) show ?thesis by (simp add: write8_expr_def fastRangeCheckOffset_def)
qed

section \<open>Creating the constant array\<close>

lemma semRead_append:
  "semRead \<sigma> A vs i = initialValue \<sigma> B i \<Longrightarrow> semRead \<sigma> A (us @ vs) i = semRead \<sigma> B us i"
proof (induction us)
  case (Cons u us)
  then show ?case by (cases u; cases "sem \<sigma> (fst u)") auto
qed simp

text \<open>A constant array of bytes with some identity.\<close>

definition bytesArray :: "nat \<Rightarrow> string \<Rightarrow> apint list \<Rightarrow> Array" where
  "bytesArray ad nm contents =
     \<lparr>address = ad, aname = nm, asize = length contents, adomain = 32, arange = 8, constantValues = contents\<rparr>"

lemma initialValue_bytesArray:
  "0 \<le> i \<Longrightarrow> i < int (length contents) \<Longrightarrow> initialValue \<sigma> (bytesArray ad nm contents) i = Some (apValue (contents ! nat i))"
  by (auto simp: initialValue_def bytesArray_def isConstantArray_def isSymbolicArray_def)

definition wfBytes :: "apint list \<Rightarrow> bool" where
  "wfBytes contents \<longleftrightarrow> (\<forall>c \<in> set contents. wf_const c \<and> bitWidth c = 8)"

lemma wf_bytesArray:
  "wf_array (bytesArray ad nm contents) \<longleftrightarrow> length contents \<le> 2 ^ 32 \<and> wfBytes contents"
  by (auto simp: wf_array_def bytesArray_def wfBytes_def isSymbolicArray_def)

lemma concreteWrites_spec:
  assumes "\<forall>(i, v) \<in> set ws. wf_expr i \<and> wf_expr v \<and> getWidth v = 8 \<and> (\<forall>c. i = ConstantExpr c \<longrightarrow> apValue c < int (length contents))"
    and "wfBytes contents" "concreteWrites contents ws = (contents', rest)"
  shows "wfBytes contents' \<and> length contents' = length contents \<and> set rest \<subseteq> set ws \<and>
    (\<forall>k. 0 \<le> k \<longrightarrow> k < int (length contents) \<longrightarrow>
       semRead \<sigma> (bytesArray ad nm contents') (rev rest) k = semRead \<sigma> (bytesArray ad' nm' contents) (rev ws) k)"
  using assms
proof (induction ws arbitrary: contents)
  case Nil
  then show ?case by (simp add: initialValue_bytesArray)
next
  case (Cons w ws)
  obtain i v where w: "w = (i, v)" by (cases w)
  have wf: "wf_expr i" "wf_expr v" "getWidth v = 8" "\<And>c. i = ConstantExpr c \<Longrightarrow> apValue c < int (length contents)"
    using Cons.prems(1) w by auto
  show ?case
  proof (cases "isConstantExpr i \<and> isConstantExpr v")
    case True
    then obtain ci cv where iv: "i = ConstantExpr ci" "v = ConstantExpr cv" by (auto elim!: isConstantExprE)
    let ?c1 = "contents[nat (apValue ci) := cv]"
    have ci: "0 \<le> apValue ci" "apValue ci < int (length contents)" and cv: "wf_const cv" "bitWidth cv = 8"
      using wf iv by (auto simp: wf_const_def)
    have "wfBytes ?c1" using Cons.prems(2) cv by (auto simp: wfBytes_def dest!: set_update_subset_insert [THEN subsetD])
    moreover have "concreteWrites ?c1 ws = (contents', rest)" using Cons.prems(3) iv w by simp
    ultimately have IH: "wfBytes contents' \<and> length contents' = length contents \<and> set rest \<subseteq> set ws \<and>
        (\<forall>k. 0 \<le> k \<longrightarrow> k < int (length contents) \<longrightarrow>
           semRead \<sigma> (bytesArray ad nm contents') (rev rest) k = semRead \<sigma> (bytesArray ad' nm' ?c1) (rev ws) k)"
      using Cons.IH [of ?c1] Cons.prems(1) by simp
    have step: "semRead \<sigma> (bytesArray ad' nm' contents) (rev (w # ws)) k = semRead \<sigma> (bytesArray ad' nm' ?c1) (rev ws) k"
      if "0 \<le> k" "k < int (length contents)" for k
      unfolding rev.simps
      by (rule semRead_append) (use that iv w ci in \<open>auto simp: initialValue_bytesArray nth_list_update\<close>)
    show ?thesis
      using IH step by (simp del: rev.simps) blast
  next
    case False
    then have "contents' = contents" "rest = w # ws"
      using Cons.prems(3) w by (auto split: expr.splits)
    moreover have "semRead \<sigma> (bytesArray ad nm contents) us k = semRead \<sigma> (bytesArray ad' nm' contents) us k"
      if "0 \<le> k" "k < int (length contents)" for k us
      using semRead_append [of \<sigma> "bytesArray ad nm contents" "[]" k "bytesArray ad' nm' contents" us] that
      by (simp add: initialValue_bytesArray)
    ultimately show ?thesis using Cons.prems(2) by simp
  qed
qed

lemma foldl_extend: "foldl (\<lambda>ul (i, v). ExprRead.extend ul i v) (A, us) ws = (A, rev ws @ us)"
  by (induction ws arbitrary: us) (auto simp: ExprRead.extend_def)

lemma zeroArray_bytes: "zeroArray n = bytesArray 0 [] (replicate n (alloc 0 8))"
  by (simp add: zeroArray_def bytesArray_def)

text \<open>Creating the array changes no byte of the object.\<close>

lemma getUpdates_holds:
  assumes "holdsBytes C \<sigma> bs os" "getUpdates C (os, n) = ((A, us), os', n')"
  shows "holdsBytes C \<sigma> bs os' \<and> osize os' = osize os \<and> updates os' = (Some A, us) \<and>
    isByteConcrete os' = isByteConcrete os \<and> isByteFlushed os' = isByteFlushed os \<and> knownSymbolic os' = knownSymbolic os"
proof (cases "fst (updates os)")
  case (Some B)
  with assms show ?thesis by (auto simp: getUpdates_def prod_eq_iff)
next
  case None
  note H = holdsBytesD [OF assms(1)]
  obtain contents rest where cw: "concreteWrites (replicate (osize os) (alloc 0 8)) (rev (snd (updates os))) = (contents, rest)"
    by fastforce
  let ?nm = "''const_arr'' @ utostr C ((n + 1) mod 2 ^ 32)" and ?ad = "arrayAddress C ((n + 1) mod 2 ^ 32)"
  have root: "rootOf os = zeroArray (osize os)" using None by (simp add: rootOf_def)
  have W: "wfBytes contents \<and> length contents = osize os \<and> set rest \<subseteq> set (snd (updates os)) \<and>
    (\<forall>k. 0 \<le> k \<longrightarrow> k < int (osize os) \<longrightarrow>
       semRead \<sigma> (bytesArray ?ad ?nm contents) (rev rest) k = semRead \<sigma> (zeroArray (osize os)) (snd (updates os)) k)"
    using concreteWrites_spec [OF _ _ cw, of \<sigma> ?ad ?nm 0 "[]"] H(4) None
    by (auto simp: wf_updates_def wfBytes_def zeroArray_bytes case_prod_beta)
  then have os': "A = bytesArray ?ad ?nm contents" "us = rev rest" "os' = os\<lparr>updates := (Some A, us)\<rparr>"
    using assms(2) None cw by (auto simp: getUpdates_def Let_def foldl_extend bytesArray_def)
  have root': "rootOf os' = A" by (simp add: os'(3) rootOf_def)
  have upd: "updVal \<sigma> os' i = updVal \<sigma> os i" if "i < osize os" for i
    using W that by (simp add: updVal_def root root') (simp add: os')
  have "wf_updates os'"
    using H(4,7) W by (auto simp: wf_updates_def os' rootOf_def wf_bytesArray) (auto simp: bytesArray_def)
  with upd H W show ?thesis by (auto simp: holdsBytes_def byteOK_def os')
qed

section \<open>Reading a byte\<close>

lemma read_updates:
  assumes "holdsBytes C \<sigma> bs os" "updates os = (Some A, us)" "wf_expr i" "getWidth i = 32" "sem \<sigma> i = Some (int k)"
    and "k < osize os" "isByteFlushed os k"
  shows "wf_expr (ReadExpr_create (constArrayOpt C) (A, us) i) \<and> getWidth (ReadExpr_create (constArrayOpt C) (A, us) i) = 8 \<and>
    sem \<sigma> (ReadExpr_create (constArrayOpt C) (A, us) i) = Some (bs ! k)"
proof -
  note H = holdsBytesD [OF assms(1)]
  have root: "rootOf os = A" using assms(2) by (simp add: rootOf_def)
  have wf: "wf_expr (ReadExpr A us i)" "arange A = 8"
    using H(4) assms(2-4) by (auto simp: wf_updates_def root)
  have "sem \<sigma> (ReadExpr A us i) = Some (bs ! k)"
    using H(6) [OF assms(6)] assms by (simp add: byteOK_def updVal_def root)
  with refinesD [OF ReadExpr_create_sound [of "constArrayOpt C" A us i] wf(1)] H(1) wf(2) show ?thesis by auto
qed

lemma read8_holds:
  assumes "holdsBytes C \<sigma> bs (fst s)" "offset < osize (fst s)"
  shows "\<exists>e s'. read8 C s offset = Some (e, s') \<and> holdsBytes C \<sigma> bs (fst s') \<and> osize (fst s') = osize (fst s) \<and>
    wf_expr e \<and> getWidth e = 8 \<and> sem \<sigma> e = Some (bs ! offset)"
proof -
  obtain os n where s: "s = (os, n)" by (cases s)
  note H = holdsBytesD [OF assms(1)] and ok = holdsBytesD(6) [OF assms]
  obtain A us os' n' where g: "getUpdates C s = ((A, us), os', n')" by (metis surj_pair)
  note G = getUpdates_holds [OF assms(1) [unfolded s fst_conv] g [unfolded s]]
  consider "isByteConcrete os offset" | e where "\<not> isByteConcrete os offset" "knownSymbolic os offset = Some e"
    | "\<not> isByteConcrete os offset" "knownSymbolic os offset = None" by (cases "knownSymbolic os offset") auto
  then show ?thesis
  proof cases
    case 3
    then have fl: "isByteFlushed os offset" using ok s by (auto simp: byteOK_def)
    have "wf_expr (ReadExpr_create (constArrayOpt C) (A, us) (offsetExpr offset)) \<and>
        getWidth (ReadExpr_create (constArrayOpt C) (A, us) (offsetExpr offset)) = 8 \<and>
        sem \<sigma> (ReadExpr_create (constArrayOpt C) (A, us) (offsetExpr offset)) = Some (bs ! offset)"
      by (rule read_updates [of C \<sigma> bs os']) (use G s fl assms(2) maxBits_lt [OF H(7) assms(2)] in auto)
    with G g 3 fl s show ?thesis by (auto simp: read8_def Let_def)
  next
    case 1
    then have "bs ! offset mod 256 = bs ! offset" using ok s byteConst [of "concreteStore os ! offset"]
      unfolding byteOK_def by (metis fst_conv)
    with 1 assms ok s show ?thesis by (auto simp: read8_def Let_def byteOK_def)
  qed (use assms ok s in \<open>auto simp: read8_def Let_def byteOK_def\<close>)
qed

lemma read8_expr_holds:
  assumes "holdsBytes C \<sigma> bs (fst s)" "\<not> isConstantExpr offset" "wf_expr offset" "getWidth offset = 32"
    and "sem \<sigma> offset = Some (int k)" "k < osize (fst s)"
  shows "\<exists>e s'. read8_expr C s offset = Some (e, s') \<and> holdsBytes C \<sigma> bs (fst s') \<and> osize (fst s') = osize (fst s) \<and>
    wf_expr e \<and> getWidth e = 8 \<and> sem \<sigma> e = Some (bs ! k)"
proof -
  obtain os1 where os1: "flushRangeForRead 0 (osize (fst s)) (fst s) = Some os1" "holdsBytes C \<sigma> bs os1"
      "osize os1 = osize (fst s)" "\<forall>i < osize (fst s). isByteFlushed os1 i"
    using flushRangeForRead_holds [OF assms(1)] by blast
  obtain A us os' n' where g: "getUpdates C (os1, snd s) = ((A, us), os', n')" by (metis surj_pair)
  note G = getUpdates_holds [OF os1(2) g]
  have z: "ZExtExpr_create offset 32 = offset" using assms(4) by (simp add: ZExtExpr_create_def)
  have "wf_expr (ReadExpr_create (constArrayOpt C) (A, us) offset) \<and> getWidth (ReadExpr_create (constArrayOpt C) (A, us) offset) = 8 \<and>
      sem \<sigma> (ReadExpr_create (constArrayOpt C) (A, us) offset) = Some (bs ! k)"
    by (rule read_updates [of C \<sigma> bs os']) (use G os1 assms in auto)
  with G g os1 z assms(2) show ?thesis by (auto simp: read8_expr_def fastRangeCheckOffset_def Let_def)
qed

end
