(* ===== verification/MemoryAccess.thy ===== *)
theory MemoryAccess
  imports Memory
begin

text \<open>
  Reads and writes of values of several bytes (\<open>ObjectState::read\<close>, \<open>ObjectState::write\<close>), over the
  single-byte operations, at constant and at symbolic offsets. An object that holds a list of bytes
  behaves like an array of bytes.
\<close>

section \<open>Bytes of a value\<close>

fun littleEnd :: "int list \<Rightarrow> int" where
  "littleEnd [] = 0"
| "littleEnd (b # bs) = b + 256 * littleEnd bs"

lemma littleEnd_append: "littleEnd (xs @ ys) = littleEnd xs + 2 ^ (8 * length xs) * littleEnd ys"
  by (induction xs) (auto simp: algebra_simps power_add)

text \<open>The bytes of a value, the least significant first.\<close>

definition byteOf :: "int \<Rightarrow> nat \<Rightarrow> int" where
  "byteOf v i = v div 2 ^ (8 * i) mod 256"

lemma littleEnd_byteOf: "littleEnd (map (byteOf v) [0..<n]) = v mod 2 ^ (8 * n)"
proof (induction n)
  case (Suc n)
  have "v mod 2 ^ (8 + 8 * n) = (v div 2 ^ (8 * n) mod 2 ^ 8) * 2 ^ (8 * n) + v mod 2 ^ (8 * n)" by (rule mod_2_split)
  with Suc show ?case by (simp add: littleEnd_append byteOf_def)
qed simp

lemma byteIndex_less: "i < n \<Longrightarrow> byteIndex C n i < n"
  by (auto simp: byteIndex_def)

lemma byteIndex_inj: "inj_on (byteIndex C n) {..<n}"
  by (auto simp: byteIndex_def inj_on_def)

text \<open>The specification: the bytes at an offset, in the order of their significance.\<close>

definition bytesAt :: "Context \<Rightarrow> int list \<Rightarrow> nat \<Rightarrow> nat \<Rightarrow> int list" where
  "bytesAt C bs off n = map (\<lambda>i. bs ! (off + byteIndex C n i)) [0..<n]"

definition putBytes :: "Context \<Rightarrow> (nat \<Rightarrow> int) \<Rightarrow> nat \<Rightarrow> nat \<Rightarrow> int list \<Rightarrow> int list" where
  "putBytes C val off n bs = foldl (\<lambda>bs i. bs[off + byteIndex C n i := val i]) bs [0..<n]"

lemma length_putBytes [simp]: "length (putBytes C val off n bs) = length bs"
proof -
  have "length (foldl (\<lambda>bs i. bs[f i := val i]) bs is) = length bs" for f "is" by (induction "is" arbitrary: bs) auto
  then show ?thesis by (simp add: putBytes_def)
qed

lemma foldl_update_nth:
  "inj_on f (set xs) \<Longrightarrow> distinct xs \<Longrightarrow> (\<forall>x \<in> set xs. f x < length bs) \<Longrightarrow> j < length bs \<Longrightarrow>
   foldl (\<lambda>bs i. bs[f i := val i]) bs xs ! j = (if j \<in> f ` set xs then val (the_inv_into (set xs) f j) else bs ! j)"
proof (induction xs rule: rev_induct)
  case (snoc x xs)
  have l: "length (foldl (\<lambda>bs i. bs[f i := val i]) bs xs) = length bs" by (induction xs arbitrary: bs) auto
  show ?case
  proof (cases "j = f x")
    case True
    have "the_inv_into (set (xs @ [x])) f (f x) = x" by (rule the_inv_into_f_f [OF snoc.prems(1)]) simp
    with True snoc.prems l show ?thesis by simp
  next
    case False
    have "the_inv_into (set (xs @ [x])) f j = the_inv_into (set xs) f j" if "j \<in> f ` set xs"
    proof -
      from that obtain y where y: "j = f y" "y \<in> set xs" by auto
      have "the_inv_into (set xs) f (f y) = y" by (rule the_inv_into_f_f) (use snoc.prems(1) y in \<open>auto simp: inj_on_def\<close>)
      moreover have "the_inv_into (set (xs @ [x])) f (f y) = y" by (rule the_inv_into_f_f [OF snoc.prems(1)]) (use y in simp)
      ultimately show ?thesis using y by simp
    qed
    moreover have "foldl (\<lambda>bs i. bs[f i := val i]) bs xs ! j = (if j \<in> f ` set xs then val (the_inv_into (set xs) f j) else bs ! j)"
      by (rule snoc.IH) (use snoc.prems in \<open>auto simp: inj_on_def\<close>)
    ultimately show ?thesis using False l by auto
  qed
qed simp

lemma putBytes_nth:
  assumes "off + n \<le> length bs"
  shows "i < n \<Longrightarrow> putBytes C val off n bs ! (off + byteIndex C n i) = val i"
    "j < length bs \<Longrightarrow> j < off \<or> off + n \<le> j \<Longrightarrow> putBytes C val off n bs ! j = bs ! j"
proof -
  have inj: "inj_on (\<lambda>i. off + byteIndex C n i) (set [0..<n])"
    using byteIndex_inj [of C n] by (auto simp: inj_on_def)
  have lt: "\<forall>i \<in> set [0..<n]. off + byteIndex C n i < length bs"
  proof
    fix i assume "i \<in> set [0..<n]"
    with byteIndex_less [of i n C] assms show "off + byteIndex C n i < length bs" by simp
  qed
  note nth = foldl_update_nth [OF inj distinct_upt lt, where val = val]
  show "putBytes C val off n bs ! (off + byteIndex C n i) = val i" if "i < n"
    using nth [of "off + byteIndex C n i"] the_inv_into_f_f [OF inj, of i] that lt by (simp add: putBytes_def)
  show "putBytes C val off n bs ! j = bs ! j" if "j < length bs" "j < off \<or> off + n \<le> j"
  proof -
    have "j \<notin> (\<lambda>i. off + byteIndex C n i) ` set [0..<n]"
    proof
      assume "j \<in> (\<lambda>i. off + byteIndex C n i) ` set [0..<n]"
      then obtain i where "i < n" "j = off + byteIndex C n i" by auto
      with byteIndex_less [of i n C] that(2) show False by simp
    qed
    with nth [OF that(1)] show ?thesis by (simp add: putBytes_def)
  qed
qed

lemma bytesAt_putBytes: "off + n \<le> length bs \<Longrightarrow> bytesAt C (putBytes C val off n bs) off n = map val [0..<n]"
  by (auto simp: bytesAt_def putBytes_nth(1))

section \<open>Reading bytes\<close>

text \<open>
  What the loop of \<open>read\<close> needs of the function that reads a byte: it returns, keeps the bytes of
  the object and gives the byte at the location of the index. \<open>R bs s\<close> relates the state to bytes.
\<close>

locale byte_reader =
  fixes C :: Context and \<sigma> :: env and n :: nat and R :: "int list \<Rightarrow> ostate \<Rightarrow> bool"
    and rd :: "ostate \<Rightarrow> nat \<Rightarrow> (expr \<times> ostate) option" and off :: nat
  assumes rd: "R bs s \<Longrightarrow> idx < n \<Longrightarrow>
      \<exists>e s'. rd s idx = Some (e, s') \<and> R bs s' \<and> wf_expr e \<and> getWidth e = 8 \<and> sem \<sigma> e = Some (bs ! (off + idx))"
    and env: "R bs s \<Longrightarrow> wf_env (constArrayOpt C) \<sigma>"
begin

definition partial :: "expr option \<Rightarrow> nat \<Rightarrow> int \<Rightarrow> bool" where
  "partial Res m v \<longleftrightarrow> Res = None \<and> m = 0 \<and> v = 0 \<or>
     (\<exists>r. Res = Some r \<and> 0 < m \<and> wf_expr r \<and> getWidth r = 8 * m \<and> sem \<sigma> r = Some v)"

lemma readLoop_reads:
  "R bs s \<Longrightarrow> \<forall>idx \<in> set idxs. idx < n \<Longrightarrow> partial Res m v \<Longrightarrow>
   \<exists>Res' s'. readLoop rd idxs s Res = Some (Res', s') \<and> R bs s' \<and>
     partial Res' (m + length idxs) (v + 2 ^ (8 * m) * littleEnd (map (\<lambda>idx. bs ! (off + idx)) idxs))"
proof (induction idxs arbitrary: s Res m v)
  case (Cons idx idxs)
  obtain e s1 where e: "rd s idx = Some (e, s1)" "R bs s1" "wf_expr e" "getWidth e = 8" "sem \<sigma> e = Some (bs ! (off + idx))"
    using rd [OF Cons.prems(1), of idx] Cons.prems(2) by auto
  define Res1 where "Res1 = Some (case Res of None \<Rightarrow> e | Some r \<Rightarrow> ConcatExpr_create e r)"
  have "partial Res1 (Suc m) (v + 2 ^ (8 * m) * bs ! (off + idx))"
    using Cons.prems(3) e ConcatExpr_create_sem [OF e(3) _ env [OF e(2)] e(5)]
    by (auto simp: partial_def Res1_def)
  from Cons.IH [OF e(2) _ this] Cons.prems(2) e(1) show ?case
    by (auto simp: Res1_def algebra_simps power_add)
qed auto

text \<open>Reading a value gives the value of its bytes, and reading a boolean the lowest bit.\<close>

lemma readBytes_reads:
  assumes "R bs s" "0 < w" "w div 8 \<le> n" "w = 8 * (w div 8)"
  shows "\<exists>e s'. readBytes C rd w s = Some (e, s') \<and> R bs s' \<and> wf_expr e \<and> getWidth e = w \<and>
    sem \<sigma> e = Some (littleEnd (bytesAt C bs off (w div 8)))"
proof -
  let ?N = "w div 8"
  have "\<forall>idx \<in> set (map (byteIndex C ?N) [0..<?N]). idx < n"
    using assms(3) by (auto intro: order_less_le_trans [OF byteIndex_less])
  from readLoop_reads [OF assms(1) this, of None 0 0] obtain Res s' where
    R: "readLoop rd (map (byteIndex C ?N) [0..<?N]) s None = Some (Res, s')" "R bs s'"
      "partial Res ?N (littleEnd (bytesAt C bs off ?N))"
    by (auto simp: partial_def [of None] bytesAt_def comp_def)
  moreover have "?N > 0" "w \<noteq> 1" "w = ?N * 8" using assms(2,4) by auto
  ultimately show ?thesis by (cases s') (auto simp: readBytes_def Let_def partial_def)
qed

lemma readBytes_bool:
  assumes "R bs s" "0 < n"
  shows "\<exists>e s'. readBytes C rd 1 s = Some (e, s') \<and> R bs s' \<and> wf_expr e \<and> getWidth e = 1 \<and>
    sem \<sigma> e = Some (bs ! off mod 2)"
proof -
  obtain e s' where e: "rd s 0 = Some (e, s')" "R bs s'" "wf_expr e" "getWidth e = 8" "sem \<sigma> e = Some (bs ! off)"
    using rd [OF assms] by auto
  have "wf_expr (ExtractExpr e 0 1)" using e by simp
  from refinesD [OF ExtractConcat_create_sound(1) [of "constArrayOpt C"] this] env [OF e(2)] e show ?thesis
    by (auto simp: readBytes_def)
qed

end

text \<open>Reads at a constant offset, and at an offset that stays symbolic when an index is added.\<close>

definition atOffset :: "Context \<Rightarrow> env \<Rightarrow> nat \<Rightarrow> nat \<Rightarrow> int list \<Rightarrow> ostate \<Rightarrow> bool" where
  "atOffset C \<sigma> off n bs s \<longleftrightarrow> holdsBytes C \<sigma> bs (fst s) \<and> off + n \<le> osize (fst s)"

definition symbolicOffset :: "Context \<Rightarrow> expr \<Rightarrow> nat \<Rightarrow> bool" where
  "symbolicOffset C offset n \<longleftrightarrow>
     wf_expr offset \<and> getWidth offset = 32 \<and> \<not> isConstantExpr offset \<and>
     (\<forall>idx < n. \<not> isConstantExpr (AddExpr_create (constArrayOpt C) offset (offsetExpr idx)))"

lemma offset_add:
  assumes "symbolicOffset C offset n" "wf_env (constArrayOpt C) \<sigma>" "sem \<sigma> offset = Some (int k)" "k + n \<le> maxBits" "idx < n"
  shows "wf_expr (AddExpr_create (constArrayOpt C) offset (offsetExpr idx))"
    "getWidth (AddExpr_create (constArrayOpt C) offset (offsetExpr idx)) = 32"
    "sem \<sigma> (AddExpr_create (constArrayOpt C) offset (offsetExpr idx)) = Some (int (k + idx))"
    "\<not> isConstantExpr (AddExpr_create (constArrayOpt C) offset (offsetExpr idx))"
proof -
  have wf: "wf_expr (AddExpr offset (offsetExpr idx))" using assms(1) by (simp add: symbolicOffset_def)
  have "sem \<sigma> (AddExpr offset (offsetExpr idx)) = Some (int (k + idx))"
    using assms by (simp add: symbolicOffset_def kind_simps)
  with refinesD [OF AddSub_create_sound(1) [of "constArrayOpt C"] wf] assms
  show "wf_expr (AddExpr_create (constArrayOpt C) offset (offsetExpr idx))"
    "getWidth (AddExpr_create (constArrayOpt C) offset (offsetExpr idx)) = 32"
    "sem \<sigma> (AddExpr_create (constArrayOpt C) offset (offsetExpr idx)) = Some (int (k + idx))"
    "\<not> isConstantExpr (AddExpr_create (constArrayOpt C) offset (offsetExpr idx))"
    by (auto simp: symbolicOffset_def kind_simps)
qed

interpretation constant_reader: byte_reader C \<sigma> n "atOffset C \<sigma> off n" "\<lambda>s idx. read8 C s ((off + idx) mod 2 ^ 32)" off
  for C \<sigma> n off
proof
  fix bs s idx
  assume R: "atOffset C \<sigma> off n bs s" "idx < n"
  note H = holdsBytesD [OF R(1) [unfolded atOffset_def, THEN conjunct1]]
  have "(off + idx) mod 2 ^ 32 = off + idx" "off + idx < osize (fst s)" using R H(7) by (auto simp: atOffset_def)
  with read8_holds [of C \<sigma> bs s "off + idx"] R show "\<exists>e s'. read8 C s ((off + idx) mod 2 ^ 32) = Some (e, s') \<and>
      atOffset C \<sigma> off n bs s' \<and> wf_expr e \<and> getWidth e = 8 \<and> sem \<sigma> e = Some (bs ! (off + idx))"
    by (auto simp: atOffset_def)
qed (auto simp: atOffset_def holdsBytes_def)

interpretation symbolic_reader: byte_reader C \<sigma> n
  "\<lambda>bs s. atOffset C \<sigma> k n bs s \<and> symbolicOffset C offset n \<and> sem \<sigma> offset = Some (int k)"
  "\<lambda>s idx. read8_expr C s (AddExpr_create (constArrayOpt C) offset (offsetExpr idx))" k
  for C \<sigma> n k offset
proof
  fix bs s idx
  assume R: "atOffset C \<sigma> k n bs s \<and> symbolicOffset C offset n \<and> sem \<sigma> offset = Some (int k)" "idx < n"
  note H = holdsBytesD [OF R(1) [unfolded atOffset_def, THEN conjunct1, THEN conjunct1]]
  have le: "k + n \<le> maxBits" "k + idx < osize (fst s)" using R H(7) by (auto simp: atOffset_def)
  note A = offset_add [OF _ H(1) _ le(1) R(2), of offset]
  from read8_expr_holds [of C \<sigma> bs s "AddExpr_create (constArrayOpt C) offset (offsetExpr idx)" "k + idx"] R A le
  show "\<exists>e s'. read8_expr C s (AddExpr_create (constArrayOpt C) offset (offsetExpr idx)) = Some (e, s') \<and>
      (atOffset C \<sigma> k n bs s' \<and> symbolicOffset C offset n \<and> sem \<sigma> offset = Some (int k)) \<and>
      wf_expr e \<and> getWidth e = 8 \<and> sem \<sigma> e = Some (bs ! (k + idx))"
    by (auto simp: atOffset_def)
qed (auto simp: atOffset_def holdsBytes_def)

section \<open>Writing bytes\<close>

text \<open>What the loop of \<open>write\<close> needs of the function that writes a byte.\<close>

locale byte_writer =
  fixes W :: "int list \<Rightarrow> ObjectState \<Rightarrow> bool" and n :: nat and off :: nat
    and wr :: "nat \<Rightarrow> nat \<Rightarrow> ObjectState \<Rightarrow> ObjectState option" and val :: "nat \<Rightarrow> int"
  assumes wr: "W bs os \<Longrightarrow> i < n \<Longrightarrow> idx < n \<Longrightarrow>
      \<exists>os'. wr i idx os = Some os' \<and> W (bs[off + idx := val i]) os'"
begin

lemma writeLoop_writes:
  "W bs os \<Longrightarrow> \<forall>i \<in> set xs. i < n \<and> f i < n \<Longrightarrow>
   \<exists>os'. writeLoop wr (map (\<lambda>i. (i, f i)) xs) os = Some os' \<and> W (foldl (\<lambda>bs i. bs[off + f i := val i]) bs xs) os'"
proof (induction xs arbitrary: bs os)
  case (Cons i xs)
  obtain os1 where "wr i (f i) os = Some os1" "W (bs[off + f i := val i]) os1"
    using wr [OF Cons.prems(1), of i "f i"] Cons.prems(2) by auto
  with Cons.IH [of "bs[off + f i := val i]" os1] Cons.prems(2) show ?case by auto
qed simp

lemma writeBytes_writes: "W bs os \<Longrightarrow> \<exists>os'. writeBytes C wr n os = Some os' \<and> W (putBytes C val off n bs) os'"
  using writeLoop_writes [of bs os "[0..<n]" "byteIndex C n"] byteIndex_less [of _ n C]
  by (simp add: writeBytes_def putBytes_def)

end

text \<open>The object between the writes of the single bytes.\<close>

definition roomFor :: "Context \<Rightarrow> env \<Rightarrow> nat \<Rightarrow> nat \<Rightarrow> int list \<Rightarrow> ObjectState \<Rightarrow> bool" where
  "roomFor C \<sigma> off n bs os \<longleftrightarrow> holdsBytes C \<sigma> bs os \<and> off + n \<le> osize os"

lemma roomFor_index:
  assumes "roomFor C \<sigma> off n bs os" "idx < n"
  shows "(off + idx) mod 2 ^ 32 = off + idx" "off + idx < osize os"
  using assms holdsBytesD(7) [of C \<sigma> bs os] by (auto simp: roomFor_def)

lemma osize_write8 [simp]: "osize (write8_value offset x os) = osize os" "osize (write8 offset v os) = osize os"
  by (simp_all add: write8_value_def write8_def split: expr.split)

text \<open>A byte extracted from a value.\<close>

definition hasValue :: "Context \<Rightarrow> env \<Rightarrow> expr \<Rightarrow> nat \<Rightarrow> int \<Rightarrow> bool" where
  "hasValue C \<sigma> e w v \<longleftrightarrow> wf_expr e \<and> getWidth e = w \<and> sem \<sigma> e = Some v"

lemma extractByte:
  assumes "hasValue C \<sigma> v (8 * n) x" "i < n" "wf_env (constArrayOpt C) \<sigma>"
  shows "hasValue C \<sigma> (ExtractExpr_create v (8 * i) 8) 8 (byteOf x i)"
proof -
  have "wf_expr (ExtractExpr v (8 * i) 8)" using assms by (simp add: hasValue_def)
  from refinesD [OF ExtractConcat_create_sound(1) [of "constArrayOpt C"] this] assms show ?thesis
    by (simp add: hasValue_def byteOf_def)
qed

interpretation integer_writer: byte_writer "roomFor C \<sigma> off n" n off
  "\<lambda>i idx os. Some (write8_value ((off + idx) mod 2 ^ 32) (word_of_int (v mod 2 ^ (8 * n) div 2 ^ (8 * i))) os)"
  "byteOf (v mod 2 ^ (8 * n))" for C \<sigma> off n v
proof
  fix bs os i idx
  assume R: "roomFor C \<sigma> off n bs os" "i < n" "idx < n"
  show "\<exists>os'. Some (write8_value ((off + idx) mod 2 ^ 32) (word_of_int (v mod 2 ^ (8 * n) div 2 ^ (8 * i))) os) = Some os' \<and>
      roomFor C \<sigma> off n (bs[off + idx := byteOf (v mod 2 ^ (8 * n)) i]) os'"
    using R write8_value_holds [of C \<sigma> bs os "off + idx" "word_of_int (v mod 2 ^ (8 * n) div 2 ^ (8 * i))"]
    unfolding roomFor_index(1) [OF R(1,3)] by (simp add: roomFor_def byteOf_def uint_word_of_int)
qed

interpretation constant_writer: byte_writer "\<lambda>bs os. roomFor C \<sigma> off n bs os \<and> hasValue C \<sigma> v (8 * n) x" n off
  "\<lambda>i idx os. Some (write8 ((off + idx) mod 2 ^ 32) (ExtractExpr_create v (8 * i) 8) os)" "byteOf x" for C \<sigma> off n v x
proof
  fix bs os i idx
  assume R: "roomFor C \<sigma> off n bs os \<and> hasValue C \<sigma> v (8 * n) x" "i < n" "idx < n"
  then have env: "wf_env (constArrayOpt C) \<sigma>" by (simp add: roomFor_def holdsBytes_def)
  show "\<exists>os'. Some (write8 ((off + idx) mod 2 ^ 32) (ExtractExpr_create v (8 * i) 8) os) = Some os' \<and>
      (roomFor C \<sigma> off n (bs[off + idx := byteOf x i]) os' \<and> hasValue C \<sigma> v (8 * n) x)"
    using R write8_holds [of C \<sigma> bs os "off + idx" "ExtractExpr_create v (8 * i) 8" "byteOf x i"]
      extractByte [OF conjunct2 [OF R(1)] R(2) env] roomFor_index [of C \<sigma> off n bs os idx]
    by (simp add: roomFor_def hasValue_def)
qed

interpretation symbolic_writer: byte_writer
  "\<lambda>bs os. roomFor C \<sigma> k n bs os \<and> hasValue C \<sigma> v (8 * n) x \<and> symbolicOffset C offset n \<and> sem \<sigma> offset = Some (int k)" n k
  "\<lambda>i idx os. write8_expr (AddExpr_create (constArrayOpt C) offset (offsetExpr idx)) (ExtractExpr_create v (8 * i) 8) os" "byteOf x"
  for C \<sigma> k n v x offset
proof
  fix bs os i idx
  assume R: "roomFor C \<sigma> k n bs os \<and> hasValue C \<sigma> v (8 * n) x \<and> symbolicOffset C offset n \<and> sem \<sigma> offset = Some (int k)"
    "i < n" "idx < n"
  then have H: "holdsBytes C \<sigma> bs os" "k + idx < osize os" and le: "k + n \<le> maxBits"
    using holdsBytesD(7) [of C \<sigma> bs os] by (auto simp: roomFor_def)
  note env = holdsBytesD(1) [OF H(1)]
  from write8_expr_holds [OF H(1), of "AddExpr_create (constArrayOpt C) offset (offsetExpr idx)" "k + idx"
      "ExtractExpr_create v (8 * i) 8" "byteOf x i"] H(2) R
    offset_add [OF _ env _ le R(3), of offset] extractByte [of C \<sigma> v n x i, OF _ R(2) env]
  show "\<exists>os'. write8_expr (AddExpr_create (constArrayOpt C) offset (offsetExpr idx)) (ExtractExpr_create v (8 * i) 8) os = Some os' \<and>
      (roomFor C \<sigma> k n (bs[k + idx := byteOf x i]) os' \<and> hasValue C \<sigma> v (8 * n) x \<and> symbolicOffset C offset n \<and> sem \<sigma> offset = Some (int k))"
    by (auto simp: roomFor_def hasValue_def)
qed

section \<open>Objects as arrays of bytes\<close>

text \<open>The widths of values in memory: booleans take a byte, other values whole bytes.\<close>

definition memoryWidth :: "nat \<Rightarrow> bool" where
  "memoryWidth w \<longleftrightarrow> w = 1 \<or> 0 < w \<and> w = 8 * (w div 8)"

definition numBytes :: "nat \<Rightarrow> nat" where
  "numBytes w = (if w = 1 then 1 else w div 8)"

lemma numBytes_pos: "memoryWidth w \<Longrightarrow> 0 < numBytes w"
  by (cases "w div 8") (auto simp: memoryWidth_def numBytes_def)

lemma readBytes_value:
  assumes "byte_reader C \<sigma> n R rd off" "R bs s" "memoryWidth w" "numBytes w \<le> n"
  shows "\<exists>e s'. readBytes C rd w s = Some (e, s') \<and> R bs s' \<and> hasValue C \<sigma> e w (littleEnd (bytesAt C bs off (numBytes w)) mod 2 ^ w)"
proof (cases "w = 1")
  case True
  with byte_reader.readBytes_bool [OF assms(1,2)] assms(4) show ?thesis
    by (auto simp: hasValue_def numBytes_def bytesAt_def byteIndex_def)
next
  case False
  with byte_reader.readBytes_reads [OF assms(1,2), of w] assms(3,4) obtain e s' where
    e: "readBytes C rd w s = Some (e, s')" "R bs s'" "wf_expr e" "getWidth e = w" "sem \<sigma> e = Some (littleEnd (bytesAt C bs off (w div 8)))"
    by (auto simp: memoryWidth_def numBytes_def)
  with sem_fits(1) [OF e(5) byte_reader.env [OF assms(1) e(2)] e(3)] False show ?thesis
    by (auto simp: hasValue_def numBytes_def fits_mod_eq)
qed

lemma read_at_value:
  assumes "holdsBytes C \<sigma> bs (fst s)" "memoryWidth w" "off + numBytes w \<le> osize (fst s)"
  shows "\<exists>e s'. read_at C s off w = Some (e, s') \<and> holdsBytes C \<sigma> bs (fst s') \<and>
    hasValue C \<sigma> e w (littleEnd (bytesAt C bs off (numBytes w)) mod 2 ^ w)"
  using readBytes_value [OF constant_reader.byte_reader_axioms, of C \<sigma> off "numBytes w" bs s w] assms
  by (auto simp: atOffset_def read_at_def)

text \<open>Constant values of the widths the code treats apart.\<close>

lemma powerOfTwo_width: "isPowerOfTwo (8 * n) \<Longrightarrow> 8 * n \<le> 64 \<Longrightarrow> n = 1 \<or> n = 2 \<or> n = 4 \<or> n = 8"
proof -
  assume *: "isPowerOfTwo (8 * n)" "8 * n \<le> 64"
  then have "n = 0 \<or> n = 1 \<or> n = 2 \<or> n = 3 \<or> n = 4 \<or> n = 5 \<or> n = 6 \<or> n = 7 \<or> n = 8" by arith
  with *(1) show ?thesis by (auto simp: isPowerOfTwo_def)
qed

lemma putBytes_one: "putBytes C val off 1 bs = bs[off := val 0]"
  by (simp add: putBytes_def byteIndex_def)

lemma byteOf_fits: "fits (8 * n) x \<Longrightarrow> byteOf x i = byteOf (x mod 2 ^ (8 * n)) i"
  by (simp add: fits_mod_eq)

lemma write_at_bytes:
  assumes "holdsBytes C \<sigma> bs os" "hasValue C \<sigma> v w x" "memoryWidth w" "off + numBytes w \<le> osize os"
  shows "\<exists>os'. write_at C off v os = Some os' \<and> holdsBytes C \<sigma> (putBytes C (byteOf x) off (numBytes w) bs) os'"
proof -
  note env = holdsBytesD(1) [OF assms(1)]
  have x: "fits w x" using assms(2) sem_fits(1) [of \<sigma> v x] env by (auto simp: hasValue_def)
  have off: "off < osize os" using numBytes_pos [OF assms(3)] assms(4) by simp
  show ?thesis
  proof (cases "w = 1")
    case True
    have z: "hasValue C \<sigma> (ZExtExpr_create v 8) 8 x"
    proof -
      have "getWidth v \<le> 8" "wf_expr (ZExtExpr v 8)" "x mod 2 ^ 8 = x" using assms(2) True x by (auto simp: hasValue_def fits_def)
      with refinesD [OF ZExtExpr_create_sound [of v 8 "constArrayOpt C"]] env assms(2) show ?thesis by (auto simp: hasValue_def)
    qed
    have "byteOf x 0 = x" using x True by (auto simp: byteOf_def fits_def)
    moreover have "uint (word_of_int x :: 8 word) = x" using x True by (auto simp: uint_word_of_int fits_def)
    ultimately show ?thesis
      using True write8_value_holds [OF assms(1) off, of "word_of_int x"]
        write8_holds [OF assms(1) off, of "ZExtExpr_create v 8" x] z assms(2)
      by (cases v) (auto simp: write_at_def Let_def numBytes_def putBytes_one [simplified] hasValue_def isPowerOfTwo_def)
  next
    case False
    then obtain n where n: "w = 8 * n" "0 < n" "numBytes w = n" using assms(3) by (auto simp: memoryWidth_def numBytes_def)
    have room: "roomFor C \<sigma> off n bs os" using assms(1,4) n by (simp add: roomFor_def)
    have general: "\<exists>os'. writeBytes C (\<lambda>i idx os. Some (write8 ((off + idx) mod 2 ^ 32) (ExtractExpr_create v (8 * i) 8) os)) n os = Some os' \<and>
        holdsBytes C \<sigma> (putBytes C (byteOf x) off n bs) os'"
      using constant_writer.writeBytes_writes [of C \<sigma> off n bs os v x] room assms(2) n by (auto simp: roomFor_def)
    have integer: "\<exists>os'. writeInteger C n off x os = Some os' \<and> holdsBytes C \<sigma> (putBytes C (byteOf x) off n bs) os'"
      using integer_writer.writeBytes_writes [OF room, of C x] x n(1)
      by (auto simp: writeInteger_def roomFor_def fits_mod_eq)
    show ?thesis
    proof (cases "isConstantExpr v \<and> w \<le> 64 \<and> isPowerOfTwo w")
      case True
      then obtain c where c: "v = ConstantExpr c" "apValue c = x" "bitWidth c = 8 * n"
        using assms(2) n by (auto simp: hasValue_def elim!: isConstantExprE)
      have one: "putBytes C (byteOf x) off (Suc 0) bs = bs[off := x]" if "n = 1"
        using putBytes_one [of C "byteOf x" off bs] x n that by (simp add: byteOf_def fits_def)
      have w8: "holdsBytes C \<sigma> (bs[off := x]) (write8_value off (word_of_int x) os)" if "n = 1"
        using write8_value_holds [OF assms(1) off, of "word_of_int x"] x n(1) that by (simp add: uint_word_of_int fits_def)
      from True c n powerOfTwo_width [of n] integer one w8 show ?thesis
        by (auto simp: write_at_def Let_def)
    next
      case False
      have gw: "getWidth v = 8 * n" using assms(2) n by (simp add: hasValue_def)
      have "write_at C off v os =
          writeBytes C (\<lambda>i idx os. Some (write8 ((off + idx) mod 2 ^ 32) (ExtractExpr_create v (8 * i) 8) os)) n os"
        using False n gw by (cases "isConstantExpr v") (auto simp: write_at_def Let_def elim!: isConstantExprE)
      with general n show ?thesis by simp
    qed
  qed
qed

text \<open>
  An offset expression: truncated to 32 bits it is constant, or it stays symbolic when the indices
  of \<open>n\<close> bytes are added; \<open>k\<close> is its value.
\<close>

definition offsetAt :: "Context \<Rightarrow> env \<Rightarrow> expr \<Rightarrow> nat \<Rightarrow> nat \<Rightarrow> bool" where
  "offsetAt C \<sigma> offset n k \<longleftrightarrow>
     wf_expr offset \<and> map_option (\<lambda>j. j mod 2 ^ 32) (sem \<sigma> offset) = Some (int k) \<and>
     (isConstantExpr (ZExtExpr_create offset 32) \<or> symbolicOffset C (ZExtExpr_create offset 32) n)"

lemma offsetAt_value:
  assumes "offsetAt C \<sigma> offset n k" "wf_env (constArrayOpt C) \<sigma>"
  shows "hasValue C \<sigma> (ZExtExpr_create offset 32) 32 (int k)"
proof (cases "32 < getWidth offset")
  case True
  from assms True have "wf_expr (ExtractExpr offset 0 32)" "sem \<sigma> (ExtractExpr offset 0 32) = Some (int k)"
    by (auto simp: offsetAt_def)
  with refinesD [OF cast_create_trunc(1) [OF True, of "constArrayOpt C"]] assms(2) show ?thesis by (auto simp: hasValue_def)
next
  case False
  with assms have "wf_expr (ZExtExpr offset 32)" "sem \<sigma> (ZExtExpr offset 32) = Some (int k)" by (auto simp: offsetAt_def)
  with refinesD [OF ZExtExpr_create_sound [of offset 32 "constArrayOpt C"]] assms(2) False show ?thesis by (auto simp: hasValue_def)
qed

lemma read_expr_value:
  assumes "holdsBytes C \<sigma> bs (fst s)" "memoryWidth w" "offsetAt C \<sigma> offset (numBytes w) k" "k + numBytes w \<le> osize (fst s)"
  shows "\<exists>e s'. read_expr C s offset w = Some (e, s') \<and> holdsBytes C \<sigma> bs (fst s') \<and>
    hasValue C \<sigma> e w (littleEnd (bytesAt C bs k (numBytes w)) mod 2 ^ w)"
proof -
  note env = holdsBytesD(1) [OF assms(1)]
  let ?o = "ZExtExpr_create offset 32"
  note v = offsetAt_value [OF assms(3) env]
  show ?thesis
  proof (cases "isConstantExpr ?o")
    case True
    then obtain c where "?o = ConstantExpr c" "apValue c = int k" using v by (auto simp: hasValue_def elim!: isConstantExprE)
    with read_at_value [OF assms(1,2,4)] show ?thesis by (simp add: read_expr_def)
  next
    case sym: False
    with assms(3) have so: "symbolicOffset C ?o (numBytes w)" by (simp add: offsetAt_def)
    show ?thesis
    proof (cases "w = 1")
      case True
      have k: "k < osize (fst s)" using assms(4) True by (simp add: numBytes_def)
      obtain e s' where e: "read8_expr C s ?o = Some (e, s')" "holdsBytes C \<sigma> bs (fst s')" "wf_expr e" "getWidth e = 8" "sem \<sigma> e = Some (bs ! k)"
        using read8_expr_holds [OF assms(1) sym _ _ _ k] v by (auto simp: hasValue_def)
      have "wf_expr (ExtractExpr e 0 1)" using e by simp
      from refinesD [OF ExtractConcat_create_sound(1) [of "constArrayOpt C"] this] e env sym True show ?thesis
        by (auto simp: read_expr_def hasValue_def numBytes_def bytesAt_def byteIndex_def)
    next
      case False
      have "atOffset C \<sigma> k (numBytes w) bs s \<and> symbolicOffset C ?o (numBytes w) \<and> sem \<sigma> ?o = Some (int k)"
        using assms so v by (simp add: atOffset_def hasValue_def)
      from readBytes_value [OF symbolic_reader.byte_reader_axioms this assms(2) order_refl] sym False show ?thesis
        by (auto simp: read_expr_def atOffset_def)
    qed
  qed
qed

lemma write_expr_bytes:
  assumes "holdsBytes C \<sigma> bs os" "hasValue C \<sigma> v w x" "memoryWidth w" "offsetAt C \<sigma> offset (numBytes w) k"
    and "k + numBytes w \<le> osize os"
  shows "\<exists>os'. write_expr C offset v os = Some os' \<and> holdsBytes C \<sigma> (putBytes C (byteOf x) k (numBytes w) bs) os'"
proof -
  note env = holdsBytesD(1) [OF assms(1)]
  let ?o = "ZExtExpr_create offset 32"
  note o = offsetAt_value [OF assms(4) env]
  show ?thesis
  proof (cases "isConstantExpr ?o")
    case True
    then obtain c where "?o = ConstantExpr c" "apValue c = int k" using o by (auto simp: hasValue_def elim!: isConstantExprE)
    with write_at_bytes [OF assms(1-3,5)] show ?thesis by (simp add: write_expr_def)
  next
    case sym: False
    with assms(4) have so: "symbolicOffset C ?o (numBytes w)" by (simp add: offsetAt_def)
    have x: "fits w x" using assms(2) sem_fits(1) [of \<sigma> v x] env by (auto simp: hasValue_def)
    show ?thesis
    proof (cases "w = 1")
      case True
      have k: "k < osize os" using assms(5) True by (simp add: numBytes_def)
      have b: "byteOf x 0 = x" "x mod 2 ^ 8 = x" using x True by (auto simp: byteOf_def fits_def)
      have "getWidth v \<le> 8" "wf_expr (ZExtExpr v 8)" using assms(2) True by (auto simp: hasValue_def)
      with refinesD [OF ZExtExpr_create_sound [of v 8 "constArrayOpt C"]] env assms(2) b
      have "hasValue C \<sigma> (ZExtExpr_create v 8) 8 x" by (auto simp: hasValue_def)
      with write8_expr_holds [OF assms(1) sym _ _ _ k, of "ZExtExpr_create v 8" x] o True sym assms(2) b show ?thesis
        by (auto simp: write_expr_def hasValue_def numBytes_def putBytes_one [simplified])
    next
      case False
      then have n: "w = 8 * numBytes w" "numBytes w = w div 8" using assms(3) by (auto simp: memoryWidth_def numBytes_def)
      have "roomFor C \<sigma> k (numBytes w) bs os \<and> hasValue C \<sigma> v (8 * numBytes w) x \<and> symbolicOffset C ?o (numBytes w) \<and> sem \<sigma> ?o = Some (int k)"
        using assms so o n by (simp add: roomFor_def hasValue_def)
      from symbolic_writer.writeBytes_writes [OF this, of C] sym False n assms(2) show ?thesis
        by (auto simp: write_expr_def roomFor_def hasValue_def)
    qed
  qed
qed

section \<open>New objects\<close>

lemma new_holds:
  assumes "0 < moSize mo" "moSize mo \<le> maxBits" "wf_env (constArrayOpt C) \<sigma>"
  shows "holdsBytes C \<sigma> (replicate (moSize mo) 0) (ObjectState_new mo None)"
  using assms
  by (auto simp: holdsBytes_def ObjectState_new_def shape_def wf_updates_def byteOK_def isByteConcrete_def isByteFlushed_def
      knownSymbolic_def rootOf_def zeroArray_bytes wf_bytesArray wfBytes_def) (simp_all add: bytesArray_def)

lemma updates_cong:
  assumes "updates os' = updates os" "osize os' = osize os"
  shows "rootOf os' = rootOf os" "updVal \<sigma> os' = updVal \<sigma> os" "wf_updates os' = wf_updates os"
  unfolding rootOf_def updVal_def wf_updates_def fun_eq_iff assms by (rule refl allI)+

lemma concrete_holds:
  assumes "holdsBytes C \<sigma> bs os"
  shows "holdsBytes C \<sigma> (replicate (osize os) (uint b)) ((makeConcrete os)\<lparr>concreteStore := replicate (osize os) b\<rparr>)"
proof -
  let ?os = "(makeConcrete os)\<lparr>concreteStore := replicate (osize os) b\<rparr>"
  note H = holdsBytesD [OF assms]
  have s: "shape ?os" "osize ?os = osize os" "updates ?os = updates os"
    using H(2) by (auto simp: shape_def makeConcrete_def)
  have "byteOK \<sigma> ?os i (uint b)" if "i < osize os" for i
    using that by (simp add: byteOK_def isByteConcrete_def isByteFlushed_def knownSymbolic_def makeConcrete_def)
  then show ?thesis
    using H s updates_cong(3) [OF s(3,2)] by (auto simp: holdsBytes_def)
qed

lemma copy_holds:
  assumes "ObjectState_copy os = Some os'" "holdsBytes C \<sigma> bs os"
  shows "holdsBytes C \<sigma> bs os'"
proof -
  have os': "os' = os\<lparr>copyOnWriteOwner := 0\<rparr>" using assms(1) by (simp add: ObjectState_copy_def split: if_splits)
  have s: "osize os' = osize os" "updates os' = updates os" by (simp_all add: os')
  have "isByteConcrete os' = isByteConcrete os" "isByteFlushed os' = isByteFlushed os" "knownSymbolic os' = knownSymbolic os"
    "shape os' = shape os" "concreteStore os' = concreteStore os"
    by (simp_all add: os' fun_eq_iff isByteConcrete_def isByteFlushed_def knownSymbolic_def shape_def)
  then show ?thesis
    using assms(2) s updates_cong [OF s(2,1)] by (simp add: holdsBytes_def byteOK_def)
qed

text \<open>The loop of \<open>makeSymbolic\<close>: every byte is found in the update list only.\<close>

lemma markByteFlushed_simps [simp]:
  "isByteConcrete (markByteFlushed k os) = isByteConcrete os" "osize (markByteFlushed k os) = osize os"
  "updates (markByteFlushed k os) = updates os" "knownSymbolics (markByteFlushed k os) = knownSymbolics os"
  by (simp_all add: markByteFlushed_def isByteConcrete_def fun_eq_iff)

lemma markByteFlushed_all:
  assumes "shape os" "k < osize os" "flushMask os = None \<or> (\<forall>i < osize os. isByteFlushed os i)"
  shows "shape (markByteFlushed k os) \<and> flushMask (markByteFlushed k os) \<noteq> None \<and> (\<forall>i < osize os. isByteFlushed (markByteFlushed k os) i)"
  using assms by (auto simp: shape_def markByteFlushed_def isByteFlushed_def split: option.splits)

lemma makeSymbolic_loop:
  assumes "shape os" "flushMask os = None" "knownSymbolics os = None" "k \<le> osize os"
  defines "os' \<equiv> fold (\<lambda>i os. markByteFlushed i (setKnownSymbolic i None (markByteSymbolic i os))) [0..<k] os"
  shows "shape os' \<and> osize os' = osize os \<and> updates os' = updates os \<and> knownSymbolics os' = None \<and>
    (\<forall>i < k. \<not> isByteConcrete os' i) \<and> (if k = 0 then flushMask os' = None else flushMask os' \<noteq> None \<and> (\<forall>i < osize os. isByteFlushed os' i))"
  using assms(4) unfolding os'_def
proof (induction k)
  case 0
  then show ?case using assms by simp
next
  case (Suc k)
  let ?o = "fold (\<lambda>i os. markByteFlushed i (setKnownSymbolic i None (markByteSymbolic i os))) [0..<k] os"
  let ?m = "setKnownSymbolic k None (markByteSymbolic k ?o)"
  from Suc have IH: "shape ?o" "osize ?o = osize os" "updates ?o = updates os" "knownSymbolics ?o = None"
      "\<forall>i < k. \<not> isByteConcrete ?o i" "if k = 0 then flushMask ?o = None else flushMask ?o \<noteq> None \<and> (\<forall>i < osize os. isByteFlushed ?o i)"
    by auto
  have m: "shape ?m" "osize ?m = osize os" "updates ?m = updates os" "knownSymbolics ?m = None" "flushMask ?m = flushMask ?o"
      "\<forall>i < Suc k. \<not> isByteConcrete ?m i"
    using IH Suc.prems by (auto simp: less_Suc_eq) (simp add: setKnownSymbolic_def markByteSymbolic_def)
  have "flushMask ?m = None \<or> (\<forall>i < osize ?m. isByteFlushed ?m i)" using m(2,5) IH(6) by (auto simp: isByteFlushed_def split: if_splits)
  from markByteFlushed_all [OF m(1) _ this, of k] m Suc.prems show ?case by simp
qed

lemma symbolic_holds:
  assumes "ObjectState_symbolic mo A = Some os" "0 < moSize mo" "moSize mo \<le> maxBits" "wf_env (constArrayOpt C) \<sigma>"
    and "wf_array A" "adomain A = 32" "arange A = 8" "length bs = moSize mo" "\<forall>i < moSize mo. initialValue \<sigma> A (int i) = Some (bs ! i)"
  shows "holdsBytes C \<sigma> bs os"
proof -
  let ?n = "ObjectState_new mo (Some A)"
  have "shape ?n" using assms(2,3) by (simp add: shape_def ObjectState_new_def)
  from makeSymbolic_loop [OF this, of "moSize mo"] assms(1,2)
  have os: "shape os" "osize os = moSize mo" "updates os = (Some A, [])" "knownSymbolics os = None"
      "\<forall>i < moSize mo. \<not> isByteConcrete os i" "\<forall>i < moSize mo. isByteFlushed os i"
    by (auto simp: ObjectState_symbolic_def makeSymbolic_def ObjectState_new_def)
  then show ?thesis
    using assms(4-) by (auto simp: holdsBytes_def wf_updates_def byteOK_def rootOf_def updVal_def knownSymbolic_def)
qed

text \<open>
  The states an object goes through: created with concrete or symbolic contents, reset, copied,
  read and written within its bounds.
\<close>

inductive objectReachable :: "Context \<Rightarrow> env \<Rightarrow> ObjectState \<Rightarrow> bool" for C \<sigma> where
  new: "0 < moSize mo \<Longrightarrow> moSize mo \<le> maxBits \<Longrightarrow> wf_env (constArrayOpt C) \<sigma> \<Longrightarrow> objectReachable C \<sigma> (ObjectState_new mo None)"
| symbolic: "ObjectState_symbolic mo A = Some os \<Longrightarrow> 0 < moSize mo \<Longrightarrow> moSize mo \<le> maxBits \<Longrightarrow> wf_env (constArrayOpt C) \<sigma> \<Longrightarrow>
    wf_array A \<Longrightarrow> adomain A = 32 \<Longrightarrow> arange A = 8 \<Longrightarrow> \<forall>i < moSize mo. initialValue \<sigma> A (int i) \<noteq> None \<Longrightarrow> objectReachable C \<sigma> os"
| zero: "objectReachable C \<sigma> os \<Longrightarrow> objectReachable C \<sigma> (initializeToZero os)"
| random: "objectReachable C \<sigma> os \<Longrightarrow> objectReachable C \<sigma> (initializeToRandom os)"
| copy: "objectReachable C \<sigma> os \<Longrightarrow> ObjectState_copy os = Some os' \<Longrightarrow> objectReachable C \<sigma> os'"
| read: "objectReachable C \<sigma> os \<Longrightarrow> memoryWidth w \<Longrightarrow> offsetAt C \<sigma> offset (numBytes w) k \<Longrightarrow> k + numBytes w \<le> osize os \<Longrightarrow>
    read_expr C (os, n) offset w = Some (e, os', n') \<Longrightarrow> objectReachable C \<sigma> os'"
| wrote: "objectReachable C \<sigma> os \<Longrightarrow> hasValue C \<sigma> v w x \<Longrightarrow> memoryWidth w \<Longrightarrow> offsetAt C \<sigma> offset (numBytes w) k \<Longrightarrow>
    k + numBytes w \<le> osize os \<Longrightarrow> write_expr C offset v os = Some os' \<Longrightarrow> objectReachable C \<sigma> os'"

lemma reachable_holds: "objectReachable C \<sigma> os \<Longrightarrow> \<exists>bs. holdsBytes C \<sigma> bs os"
proof (induction rule: objectReachable.induct)
  case (symbolic mo A os)
  then show ?case
    using symbolic_holds [of mo A os C \<sigma> "map (\<lambda>i. the (initialValue \<sigma> A (int i))) [0..<moSize mo]"] by auto
next
  case (read os w offset k n e os' n')
  then obtain bs where "holdsBytes C \<sigma> bs (fst (os, n))" by auto
  from read_expr_value [OF this read.hyps(2,3)] read.hyps show ?case by auto
next
  case (wrote os v w x offset k os')
  then obtain bs where "holdsBytes C \<sigma> bs os" by auto
  from write_expr_bytes [OF this wrote.hyps(2-5)] wrote.hyps show ?case by auto
next
  case (new mo)
  then show ?case using new_holds by blast
next
  case (zero os)
  then show ?case using concrete_holds unfolding initializeToZero_def by blast
next
  case (random os)
  then show ?case using concrete_holds unfolding initializeToRandom_def by blast
qed (auto intro: copy_holds)

end
