(* ===== verification/MemoryCorrect.thy ===== *)
theory MemoryCorrect
  imports MemoryAccess
begin

text \<open>
  What the operations of an object state promise to their callers, and the examples their
  statements are tried on.
\<close>

section \<open>Properties\<close>

definition exampleContext :: Context where
  "exampleContext = \<lparr>isLittleEndian = True, getPointerWidth = 64, constArrayOpt = False,
     utostr = (\<lambda>n. ''1''), arrayAddress = (\<lambda>n. 100 + n)\<rparr>"

definition exampleMemory :: MemoryObject where
  "exampleMemory = \<lparr>moId = 1, moAddress = 4096, moSize = 4, moName = ''buf'', isLocal = False, isGlobal = True,
     isFixed = False, isUserSpecified = False, allocSite = 0\<rparr>"

abbreviation exampleOffset :: expr where
  "exampleOffset \<equiv> ZExtExpr (bufAt 0) 32"

lemma exampleContext_simps [simp]:
  "constArrayOpt exampleContext = False" "isLittleEndian exampleContext = True" "getPointerWidth exampleContext = 64"
  by (simp_all add: exampleContext_def)

lemma example_holds: "holdsBytes exampleContext (env8 b) [0, 0, 0, 0] (ObjectState_new exampleMemory None)"
proof -
  have "replicate 4 (0::int) = [0, 0, 0, 0]" by (simp add: numeral_eq_Suc)
  then show ?thesis using new_holds [of exampleMemory exampleContext "env8 b"] by (simp add: exampleMemory_def)
qed

lemma all_less_two: "(\<forall>i < 2. P i) \<longleftrightarrow> P 0 \<and> P (1::nat)"
  by (auto simp: less_2_cases_iff)

lemma example_ZExt: "ZExtExpr_create exampleOffset 32 = exampleOffset"
  by (simp add: ZExtExpr_create_def)

lemma example_Add:
  "\<not> isConstantExpr (AddExpr_create False exampleOffset (offsetExpr 0))"
  "\<not> isConstantExpr (AddExpr_create False exampleOffset (offsetExpr 1))"
  by (simp_all add: create_evals offsetExpr_def)

lemma example_symbolic: "symbolicOffset exampleContext exampleOffset 2"
  unfolding symbolicOffset_def using example_Add
  by (simp add: example_simps all_less_two)

lemma example_offset: "offsetAt exampleContext (env8 1) exampleOffset 2 1"
  using example_symbolic example_ZExt by (simp add: offsetAt_def example_simps)

text \<open>
  C21: reading an object that holds a list of bytes, at a constant or a symbolic offset within its
  bounds, returns an expression of the width asked for, whose value is that of the bytes there in
  the byte order of the target; the object still holds the same bytes.
\<close>

theorem ObjectState_read:
  assumes "holdsBytes C \<sigma> bs os" "memoryWidth w" "offsetAt C \<sigma> offset (numBytes w) k" "k + numBytes w \<le> length bs"
  shows "\<exists>e os' n'. read_expr C (os, n) offset w = Some (e, os', n') \<and> holdsBytes C \<sigma> bs os' \<and>
    wf_expr e \<and> getWidth e = w \<and> sem \<sigma> e = Some (littleEnd (bytesAt C bs k (numBytes w)) mod 2 ^ w)"
  using read_expr_value [of C \<sigma> bs "(os, n)" w offset k] assms holdsBytesD(3) [OF assms(1)]
  by (fastforce simp: hasValue_def)

theorem ObjectState_read_witness:
  "\<exists>e os' n'. read_expr exampleContext (ObjectState_new exampleMemory None, 0) exampleOffset 16 = Some (e, os', n') \<and>
     getWidth e = 16 \<and> sem (env8 1) e = Some 0"
  using ObjectState_read [OF example_holds [of 1], of 16 exampleOffset 1 0] example_offset
  by (auto simp: memoryWidth_def numBytes_def bytesAt_def byteIndex_def numeral_2_eq_2)

text \<open>
  C22: writing a value to an object, at a constant or a symbolic offset within its bounds, succeeds
  and replaces the bytes there, and no others, by the bytes of the value.
\<close>

theorem ObjectState_write:
  assumes "holdsBytes C \<sigma> bs os" "wf_expr v" "getWidth v = w" "sem \<sigma> v = Some x" "memoryWidth w"
    and "offsetAt C \<sigma> offset (numBytes w) k" "k + numBytes w \<le> length bs"
  shows "\<exists>os' bs'. write_expr C offset v os = Some os' \<and> holdsBytes C \<sigma> bs' os' \<and> length bs' = length bs \<and>
    (\<forall>j < length bs. j < k \<or> k + numBytes w \<le> j \<longrightarrow> bs' ! j = bs ! j) \<and>
    bytesAt C bs' k (numBytes w) = map (\<lambda>i. x div 2 ^ (8 * i) mod 256) [0..<numBytes w]"
proof -
  have v: "hasValue C \<sigma> v w x" using assms(2-4) by (simp add: hasValue_def)
  have k: "k + numBytes w \<le> osize os" using assms(1,7) holdsBytesD(3) by metis
  obtain os' where os': "write_expr C offset v os = Some os'"
      "holdsBytes C \<sigma> (putBytes C (byteOf x) k (numBytes w) bs) os'"
    using write_expr_bytes [OF assms(1) v assms(5,6) k] by blast
  show ?thesis
    by (intro exI conjI, rule os'(1), rule os'(2))
      (simp_all add: putBytes_nth(2) [OF assms(7)] bytesAt_putBytes [OF assms(7)] byteOf_def [abs_def])
qed

theorem ObjectState_write_witness:
  "\<exists>os' bs'. write_expr exampleContext exampleOffset (ConcatExpr (bufAt 1) (bufAt 2)) (ObjectState_new exampleMemory None) = Some os' \<and>
     holdsBytes exampleContext (env8 1) bs' os' \<and> bs' ! 0 = 0 \<and> bytesAt exampleContext bs' 1 2 = [1, 1]"
  using ObjectState_write [OF example_holds [of 1], of "ConcatExpr (bufAt 1) (bufAt 2)" 16 257 exampleOffset 1] example_offset
  by (fastforce simp: memoryWidth_def numBytes_def example_simps numeral_2_eq_2)

text \<open>
  C23: a value written to an object is read back: a read of the same width at an offset of the same
  value returns an expression with the value written.
\<close>

theorem ObjectState_roundtrip:
  assumes "holdsBytes C \<sigma> bs os" "wf_expr v" "getWidth v = w" "sem \<sigma> v = Some x" "memoryWidth w"
    and "offsetAt C \<sigma> offset (numBytes w) k" "offsetAt C \<sigma> offset' (numBytes w) k" "k + numBytes w \<le> length bs"
  shows "\<exists>os1 e os2 n'. write_expr C offset v os = Some os1 \<and> read_expr C (os1, n) offset' w = Some (e, os2, n') \<and>
    wf_expr e \<and> getWidth e = w \<and> sem \<sigma> e = Some x"
proof -
  have v: "hasValue C \<sigma> v w x" using assms(2-4) by (simp add: hasValue_def)
  have k: "k + numBytes w \<le> osize os" using assms(1,8) holdsBytesD(3) by metis
  obtain os1 where os1: "write_expr C offset v os = Some os1" "holdsBytes C \<sigma> (putBytes C (byteOf x) k (numBytes w) bs) os1"
    using write_expr_bytes [OF assms(1) v assms(5,6) k] by blast
  have k1: "k + numBytes w \<le> osize os1" using holdsBytesD(3) [OF os1(2)] assms(8) by simp
  obtain e s' where e: "read_expr C (os1, n) offset' w = Some (e, s')"
      "hasValue C \<sigma> e w (littleEnd (map (byteOf x) [0..<numBytes w]) mod 2 ^ w)"
    using read_expr_value [OF _ assms(5,7), of "putBytes C (byteOf x) k (numBytes w) bs" "(os1, n)"] os1(2) k1
      bytesAt_putBytes [OF assms(8)] by auto
  have "fits w x" using sem_fits(1) [OF assms(4) holdsBytesD(1) [OF assms(1)] assms(2)] assms(3) by simp
  moreover have "x mod 2 ^ (8 * numBytes w) mod 2 ^ w = x mod 2 ^ w"
    using assms(5) by (auto simp: memoryWidth_def numBytes_def mod_mod_cancel)
  ultimately show ?thesis using os1(1) e by (cases s') (auto simp: hasValue_def littleEnd_byteOf fits_mod_eq)
qed

theorem ObjectState_roundtrip_witness:
  "\<exists>os1 e os2 n'. write_expr exampleContext exampleOffset (ConcatExpr (bufAt 1) (bufAt 2)) (ObjectState_new exampleMemory None) = Some os1 \<and>
     read_expr exampleContext (os1, 0) (offsetExpr 1) 16 = Some (e, os2, n') \<and> sem (env8 1) e = Some 257"
proof -
  have "offsetAt exampleContext (env8 1) (offsetExpr 1) 2 1"
    by (simp add: offsetAt_def offsetExpr_def ZExtExpr_create_def)
  then show ?thesis
    using ObjectState_roundtrip [OF example_holds [of 1], of "ConcatExpr (bufAt 1) (bufAt 2)" 16 257 exampleOffset 1 "offsetExpr 1" 0] example_offset
    by (fastforce simp: memoryWidth_def numBytes_def example_simps numeral_2_eq_2)
qed

text \<open>
  C24: the cache invariants of an object hold in every state it reaches by its operations: a byte
  with a known expression is not concrete, and a byte that is not flushed to the update list is
  concrete or has a known expression.
\<close>

theorem ObjectState_cache_invariant:
  assumes "objectReachable C \<sigma> os" "i < osize os"
  shows "(isByteKnownSymbolic os i \<longrightarrow> \<not> isByteConcrete os i) \<and> (isByteConcrete os i \<longrightarrow> \<not> isByteKnownSymbolic os i) \<and>
    (\<not> isByteFlushed os i \<longrightarrow> isByteConcrete os i \<or> isByteKnownSymbolic os i)"
proof -
  obtain bs where "holdsBytes C \<sigma> bs os" using reachable_holds [OF assms(1)] by blast
  from holdsBytesD(6) [OF this assms(2)] show ?thesis by (auto simp: byteOK_def isByteKnownSymbolic_def)
qed

theorem ObjectState_cache_invariant_witness:
  "isByteConcrete (initializeToZero (ObjectState_new exampleMemory None)) 2 \<and>
   \<not> isByteKnownSymbolic (initializeToZero (ObjectState_new exampleMemory None)) 2"
proof -
  have "objectReachable exampleContext (env8 0) (initializeToZero (ObjectState_new exampleMemory None))"
    by (intro objectReachable.zero objectReachable.new) (simp_all add: exampleMemory_def)
  from ObjectState_cache_invariant [OF this, of 2] show ?thesis
    by (simp add: initializeToZero_def makeConcrete_def ObjectState_new_def exampleMemory_def isByteConcrete_def isByteFlushed_def)
qed

text \<open>
  An object created for a symbolic array holds the bytes of the array, and one created
  concrete holds zeros.
\<close>

theorem ObjectState_initial:
  assumes "0 < moSize mo" "moSize mo \<le> 2 ^ 32 - 32" "wf_env (constArrayOpt C) \<sigma>"
  shows "holdsBytes C \<sigma> (replicate (moSize mo) 0) (ObjectState_new mo None) \<and>
    (\<forall>A bs. wf_array A \<and> adomain A = 32 \<and> arange A = 8 \<and> length bs = moSize mo \<and>
       (\<forall>i < moSize mo. initialValue \<sigma> A (int i) = Some (bs ! i)) \<longrightarrow>
       (\<exists>os. ObjectState_symbolic mo A = Some os \<and> holdsBytes C \<sigma> bs os))"
proof -
  have "\<exists>os. ObjectState_symbolic mo A = Some os" for A
    by (simp add: ObjectState_symbolic_def makeSymbolic_def ObjectState_new_def)
  with new_holds [OF assms] symbolic_holds [OF _ assms] show ?thesis by blast
qed

theorem ObjectState_initial_witness:
  "\<exists>os. ObjectState_symbolic exampleMemory buf = Some os \<and> holdsBytes exampleContext (env8 7) [7, 7, 7, 7] os"
proof -
  have "i < 4 \<Longrightarrow> initialValue (env8 7) buf (int i) = Some ([7, 7, 7, 7] ! i)" for i
    by (auto simp: example_simps less_Suc_eq numeral_eq_Suc)
  then show ?thesis
    using ObjectState_initial [of exampleMemory exampleContext "env8 7"] by (simp add: exampleMemory_def example_simps)
qed

text \<open>
  A fully symbolic object keeps no known expressions, so that \<open>flushToConcreteStore\<close> stores no
  value for its bytes.
\<close>

lemma flushToConcreteStore_symbolic:
  assumes "ObjectState_symbolic mo A = Some os" "0 < moSize mo" "moSize mo \<le> maxBits"
  shows "flushToConcreteStore getValue os = os"
proof -
  have "shape (ObjectState_new mo (Some A))" using assms(2,3) by (simp add: shape_def ObjectState_new_def)
  from makeSymbolic_loop [OF this, of "moSize mo"] assms have "knownSymbolics os = None"
    by (auto simp: ObjectState_symbolic_def makeSymbolic_def ObjectState_new_def)
  then have "flushStoreLoop getValue xs os = os" for xs by (induction xs) (auto simp: knownSymbolic_def)
  then show ?thesis by (simp add: flushToConcreteStore_def)
qed

end
