(* ===== verification/ExprWeight.thy ===== *)
theory ExprWeight
  imports Visitor
begin

text \<open>
  A weight of expressions that the constructors of \<open>lib/Expr/Expr.cpp\<close> never increase. One
  instance counts the symbolic leaves, so that replacing subexpressions by constants ends;
  another counts the divisions and the arrays outside a given set, so that expressions without
  them are closed under the constructors.
\<close>

section \<open>Weights\<close>

text \<open>
  \<open>m\<close> is the least weight of an expression that is not constant, \<open>aw\<close> the weight of an array
  and \<open>kw\<close> that of a binary operation. A read weighs more than 100 times its index, because the
  constant array optimisation may copy the index up to 100 times.
\<close>

fun weightG :: "nat \<Rightarrow> (Array \<Rightarrow> nat) \<Rightarrow> (kind \<Rightarrow> nat) \<Rightarrow> expr \<Rightarrow> nat" where
  "weightG m aw kw (ConstantExpr c) = 0"
| "weightG m aw kw (NotOptimizedExpr e) = m + weightG m aw kw e"
| "weightG m aw kw (ReadExpr A us i) =
     aw A + 100 * weightG m aw kw i + sum_list (map (\<lambda>(ui, uv). weightG m aw kw ui + weightG m aw kw uv) us)"
| "weightG m aw kw (SelectExpr c t f) = max m (weightG m aw kw c + weightG m aw kw t + weightG m aw kw f)"
| "weightG m aw kw (ConcatExpr l r) = max m (weightG m aw kw l + weightG m aw kw r)"
| "weightG m aw kw (ExtractExpr e off w) = max m (weightG m aw kw e)"
| "weightG m aw kw (ZExtExpr e w) = max m (weightG m aw kw e)"
| "weightG m aw kw (SExtExpr e w) = max m (weightG m aw kw e)"
| "weightG m aw kw (NotExpr e) = max m (weightG m aw kw e)"
| "weightG m aw kw (BinaryExpr k l r) = kw k + max m (weightG m aw kw l + weightG m aw kw r)"

locale weighting =
  fixes m :: nat and aw :: "Array \<Rightarrow> nat" and kw :: "kind \<Rightarrow> nat"
  assumes array_weight: "m \<le> aw A"
    and kind_weight: "\<not> isDivKind k \<Longrightarrow> kw k = 0"
begin

abbreviation w :: "expr \<Rightarrow> nat" where
  "w \<equiv> weightG m aw kw"

lemma kw_simps [simp]:
  "kw Add = 0" "kw Sub = 0" "kw Mul = 0" "kw And = 0" "kw Or = 0" "kw Xor = 0" "kw Shl = 0" "kw LShr = 0"
  "kw AShr = 0" "kw Eq = 0" "kw Ne = 0" "kw Ult = 0" "kw Ule = 0" "kw Slt = 0" "kw Sle = 0"
  "kw Ugt = 0" "kw Uge = 0" "kw Sgt = 0" "kw Sge = 0"
  by (simp_all add: kind_weight isDivKind_def)

lemma w_const: "isConstantExpr e \<Longrightarrow> w e = 0"
  by (cases e) auto

lemma w_nonconst: "\<not> isConstantExpr e \<Longrightarrow> m \<le> w e"
  by (cases e) (auto simp: array_weight trans_le_add1)

lemma max_w: "\<not> (isConstantExpr a \<and> isConstantExpr b) \<Longrightarrow> max m (w a + w b) = w a + w b"
  using w_nonconst [of a] w_nonconst [of b] by (auto simp: max_def)

lemma bcreate_R_weight:
  assumes "\<And>c e. \<not> isConstantExpr e \<Longrightarrow> w (pR c e) \<le> w e"
    and "\<And>c e. \<not> isConstantExpr e \<Longrightarrow> w (pL e c) \<le> w e"
    and "\<not> isConstantExpr l \<Longrightarrow> \<not> isConstantExpr r \<Longrightarrow> w (nn l r) \<le> w l + w r"
  shows "w (bcreate_R k pR pL nn l r) \<le> w l + w r"
  using assms(1) [of r] assms(2) [of l] assms(3)
  by (auto simp: bcreate_R_def split: expr.split)

lemma bcreate_weight:
  assumes "\<not> (isConstantExpr l \<and> isConstantExpr r) \<Longrightarrow> w (nn l r) \<le> w l + w r"
  shows "w (bcreate k nn l r) \<le> w l + w r"
  using assms by (auto simp: bcreate_def split: expr.split)

lemma AndOr_create_weight:
  "w (AndExpr_create l r) \<le> w l + w r"
  "w (OrExpr_create l r) \<le> w l + w r"
  unfolding AndExpr_create_def OrExpr_create_def
  by (rule bcreate_R_weight; use w_nonconst in \<open>fastforce simp: AndExpr_createPartialR_def AndExpr_createPartial_def
      OrExpr_createPartialR_def OrExpr_createPartial_def max_def\<close>)+

lemma TryConstArrayOpt_loop_weight:
  assumes "\<And>n. w (mkEq n) \<le> W" "w dflt \<le> D" "100 * W \<le> D" "w res \<le> numMatches * W" "numMatches \<le> 100"
  shows "w (TryConstArrayOpt_loop mkEq dflt cl vs i numMatches res) \<le> D"
  using assms(4,5)
proof (induction vs arbitrary: i numMatches res)
  case Nil
  have "w res \<le> numMatches * W" by (rule Nil(1))
  also have "\<dots> \<le> 100 * W" using Nil(2) by (intro mult_right_mono) auto
  also note assms(3)
  finally show ?case by simp
next
  case (Cons v vs)
  have "w (OrExpr_create res (mkEq i)) \<le> Suc numMatches * W"
    using AndOr_create_weight(2) [of res "mkEq i"] assms(1) [of i] Cons.prems(1) by simp
  with Cons assms(2) show ?case by auto
qed

lemma EqExpr_createK_weight:
  "(\<And>cl. w (EqExpr_createPartialR co cl e) \<le> max m (w e)) \<Longrightarrow> w (EqExpr_createK co e c) \<le> w e"
  using w_nonconst [of e] by (cases e) (auto simp: EqExpr_createK.simps max_def split: if_splits)

lemma EqExpr_createPartialR_weight: "w (EqExpr_createPartialR co cl r) \<le> max m (w r)"
proof (induction r arbitrary: cl rule: measure_induct_rule [of size])
  case (less r)
  have K: "size y < size r \<Longrightarrow> w (EqExpr_createK co y c) \<le> w y" for y c
    using less by (intro EqExpr_createK_weight)
  have dflt: "w (EqExpr_createNN (ConstantExpr cl) r) \<le> max m (w r)"
    by (simp add: EqExpr_createNN_def)
  note unfold = EqExpr_createPartialR.simps [of co cl r]
  show ?case
  proof (cases r)
    case (ReadExpr A us i)
    have "w (TryConstArrayOpt (\<lambda>n. EqExpr_createK co i (alloc n (getWidth i))) cl A us i) \<le> max m (w r)"
      unfolding TryConstArrayOpt_def
      using K [of i] dflt ReadExpr
      by (auto simp: Let_def simp del: max.absorb1 max.absorb2 intro!: TryConstArrayOpt_loop_weight [where W = "w i"])
    with dflt show ?thesis by (subst unfold) (cases co; simp add: ReadExpr Let_def)
  next
    case (BinaryExpr k a b)
    have r: "w r = kw k + max m (w a + w b)" using BinaryExpr by simp
    have "w (AndExpr_create (EqExpr_createK co a (alloc 0 (getWidth a))) (EqExpr_createK co b (alloc 0 (getWidth b)))) \<le> w a + w b"
      by (rule le_trans [OF AndOr_create_weight(1) add_mono]) (use BinaryExpr in \<open>simp_all add: K\<close>)
    moreover have "w (EqExpr_createPartialR co c b) \<le> max m (w b)" for c using less [of b] BinaryExpr by simp
    ultimately show ?thesis
      using dflt r by (subst unfold) (auto simp: BinaryExpr Let_def split: option.splits expr.splits dest!: constLeft_SomeD
        intro: le_trans)
  next
    case (SExtExpr e x)
    then show ?thesis using dflt K [of e] by (subst unfold) (auto simp: Let_def le_max_iff_disj)
  next
    case (ZExtExpr e x)
    then show ?thesis using dflt K [of e] by (subst unfold) (auto simp: Let_def le_max_iff_disj)
  qed (use dflt in \<open>subst unfold; simp add: Let_def\<close>)+
qed

lemma PartialR_weight: "\<not> isConstantExpr r \<Longrightarrow> w (EqExpr_createPartialR co cl r) \<le> w r"
  using EqExpr_createPartialR_weight [of co cl r] w_nonconst [of r] by (simp add: max_def split: if_splits)

lemma EqExpr_create_weight: "w (EqExpr_create co l r) \<le> w l + w r"
  unfolding EqExpr_create_def
  by (rule bcreate_R_weight) (auto simp: PartialR_weight EqExpr_createNN_def max_w)

lemma createIsZero_weight: "w (createIsZero co e) \<le> w e"
  using EqExpr_create_weight [of co e "ConstantExpr (alloc 0 (getWidth e))"] by (simp add: createIsZero_def)

lemma NeExpr_create_weight: "w (NeExpr_create co l r) \<le> w l + w r"
  using EqExpr_create_weight [of co "ConstantExpr (alloc 0 1)" "EqExpr_create co l r"] EqExpr_create_weight [of co l r]
  by (simp add: NeExpr_create_def)

lemma XorPartialR_weight: "\<not> isConstantExpr r \<Longrightarrow> w (XorExpr_createPartialR co cl r) \<le> w r"
  using w_nonconst [of r] by (simp add: XorExpr_createPartialR_def PartialR_weight)

lemma XorExpr_create_weight: "w (XorExpr_create co l r) \<le> w l + w r"
  unfolding XorExpr_create_def
  by (rule bcreate_R_weight) (auto simp: XorExpr_createPartial_def XorPartialR_weight max_w)

lemma constLeft_weight: "constLeft k e = Some (c, b) \<Longrightarrow> w b \<le> w e \<and> size b < size e"
  by (auto dest!: constLeft_SomeD)

lemma AddSub_createPartialR_weight:
  "\<not> isConstantExpr r \<Longrightarrow> w (AddExpr_createPartialR co cl r) \<le> w r \<and> w (SubExpr_createPartialR co cl r) \<le> w r"
proof (induction r arbitrary: cl rule: measure_induct_rule [of size])
  case (less r)
  have C: "w (AddExpr_createC co c b) \<le> w r \<and> w (SubExpr_createC co c b) \<le> w r" if "constLeft k r = Some (d, b)" for k c d b
  proof (cases "isConstantExpr b")
    case False
    with less constLeft_weight [OF that] show ?thesis
      by (fastforce simp: AddExpr_createC.simps SubExpr_createC.simps intro: le_trans)
  qed (auto elim!: isConstantExprE simp: AddExpr_createC.simps SubExpr_createC.simps)
  show ?case
    using C XorPartialR_weight [OF less.prems] w_nonconst [OF less.prems]
    by (simp add: AddExpr_createPartialR.simps [of co cl r] SubExpr_createPartialR.simps [of co cl r] split: option.split)
qed

lemma AddSub_createC_weight: "w (AddExpr_createC co cl r) \<le> w r" "w (SubExpr_createC co cl r) \<le> w r"
  using AddSub_createPartialR_weight [of r co cl]
  by (cases r; simp add: AddExpr_createC.simps SubExpr_createC.simps)+

lemma SubExpr_createK_weight: "w (SubExpr_createK co l cr) \<le> w l"
  using AddSub_createPartialR_weight [of l co]
  by (cases l) (simp_all add: SubExpr_createK_def SubExpr_createPartial_def AddExpr_createPartial_def)

lemma AddSub_create_weight: "w (AddExpr_create co l r) \<le> w l + w r \<and> w (SubExpr_create co l r) \<le> w l + w r"
proof (induction "size l + size r" arbitrary: l r rule: less_induct)
  case less
  have step: "w (AddExpr_create co a b) \<le> w l + w r \<and> w (SubExpr_create co a b) \<le> w l + w r"
    if "size a + size b < size l + size r" "w a + w b \<le> w l + w r" for a b
    using less [OF that(1)] that(2) by (meson le_trans)
  have NN: "w (AddExpr_createNN co l r) \<le> w l + w r" "w (SubExpr_createNN co l r) \<le> w l + w r"
    if "\<not> isConstantExpr l" "\<not> isConstantExpr r"
    using step constLeft_weight that
    by (auto simp: AddExpr_createNN.simps [of co l r] SubExpr_createNN.simps [of co l r] max_w
        intro!: le_trans [OF AddSub_createC_weight(1)] le_trans [OF AddSub_createC_weight(2)]
          le_trans [OF SubExpr_createK_weight] split: option.splits)
  show ?case
    unfolding AddExpr_create.simps [of co l r] SubExpr_create.simps [of co l r]
    by (intro conjI bcreate_R_weight NN) (simp_all add: AddExpr_createPartial_def SubExpr_createPartial_def AddSub_createPartialR_weight)
qed

lemma MulExpr_create_weight: "w (MulExpr_create l r) \<le> w l + w r"
  unfolding MulExpr_create_def
  by (rule bcreate_R_weight)
     (use w_nonconst in \<open>auto simp: MulExpr_createPartialR_def MulExpr_createPartial_def MulExpr_createNN_def
       AndExpr_createPartialR_def AndExpr_createPartial_def max_w\<close>)

lemma DivExpr_create_weight:
  assumes "DivExpr_create k l r = Some e"
  shows "w e \<le> kw k + (w l + w r)"
proof -
  have "w (DivExpr_createNN k l r) \<le> kw k + (w l + w r)" if "\<not> (isConstantExpr l \<and> isConstantExpr r)"
    using that by (auto simp: DivExpr_createNN_def max_w)
  with assms show ?thesis by (auto simp: DivExpr_create_def CE_binary_def split: expr.splits if_splits)
qed

lemma bool_create_weight:
  "w (AndExpr_create l (createIsZero co r)) \<le> w l + w r" "w (AndExpr_create (createIsZero co l) r) \<le> w l + w r"
  "w (OrExpr_create l (createIsZero co r)) \<le> w l + w r" "w (OrExpr_create (createIsZero co l) r) \<le> w l + w r"
  by (rule le_trans [OF AndOr_create_weight(1)], simp add: createIsZero_weight)+
     (rule le_trans [OF AndOr_create_weight(2)], simp add: createIsZero_weight)+

lemma shift_cmp_create_weight:
  "w (ShlExpr_create co l r) \<le> w l + w r" "w (LShrExpr_create co l r) \<le> w l + w r"
  "w (AShrExpr_create l r) \<le> w l + w r" "w (UltExpr_create co l r) \<le> w l + w r"
  "w (UleExpr_create co l r) \<le> w l + w r" "w (SltExpr_create co l r) \<le> w l + w r"
  "w (SleExpr_create co l r) \<le> w l + w r"
  unfolding ShlExpr_create_def LShrExpr_create_def AShrExpr_create_def UltExpr_create_def UleExpr_create_def
    SltExpr_create_def SleExpr_create_def
  by (rule bcreate_weight; simp add: ShlExpr_createNN_def LShrExpr_createNN_def AShrExpr_createNN_def
      UltExpr_createNN_def UleExpr_createNN_def SltExpr_createNN_def SleExpr_createNN_def bool_create_weight max_w)+

lemma BinaryExpr_create_weight:
  assumes "BinaryExpr_create co k l r = Some e"
  shows "w e \<le> kw k + (w l + w r)"
  using assms AddSub_create_weight [of co l r] MulExpr_create_weight [of l r] DivExpr_create_weight [of k l r e]
    AndOr_create_weight [of l r] XorExpr_create_weight [of co l r] EqExpr_create_weight [of co l r]
    NeExpr_create_weight [of co l r] shift_cmp_create_weight(1,2,4-7) [of co l r] shift_cmp_create_weight(4-7) [of co r l]
    shift_cmp_create_weight(3) [of l r]
  by (cases k) (auto simp: BinaryExpr_create_Some UgtExpr_create_def UgeExpr_create_def SgtExpr_create_def SgeExpr_create_def add.commute)

lemma ExtractConcat_create_weight:
  "w (ExtractExpr_create e off n) \<le> w e"
  "w (ConcatExpr_create l r) \<le> w l + w r"
proof (induction e off n and l r rule: ExtractExpr_create_ConcatExpr_create.induct)
  case (1 e off n)
  show ?case
  proof (cases "n = getWidth e")
    case False
    show ?thesis
    proof (cases e)
      case (ConcatExpr l r)
      note IH = 1 [OF False ConcatExpr]
      show ?thesis
        using False ConcatExpr IH le_trans [OF IH(5) add_mono [OF IH(3,4)]]
        by (subst ExtractExpr_create.simps) (auto simp: le_max_iff_disj trans_le_add1 trans_le_add2)
    qed (use False w_nonconst [of e] in \<open>auto simp: ExtractExpr_create.simps max_def\<close>)
  qed (simp add: ExtractExpr_create.simps)
next
  case (2 l r)
  have mx: "max m (w l + w r) = w l + w r" if "\<not> (isConstantExpr l \<and> isConstantExpr r)"
    using that by (rule max_w)
  then show ?case
    using 2 by (subst ConcatExpr_create.simps) (auto split: expr.splits simp: le_max_iff_disj array_weight intro!: trans_le_add1)
qed

lemma unary_create_weight:
  "w (NotExpr_create e) \<le> w e" "w (ZExtExpr_create e n) \<le> w e" "w (SExtExpr_create e n) \<le> w e"
  using w_nonconst [of e] ExtractConcat_create_weight(1) [of e]
  by (cases e; simp add: NotExpr_create_def ZExtExpr_create_def SExtExpr_create_def Let_def)+

lemma SelectExpr_create_weight: "w (SelectExpr_create co c t f) \<le> w c + w t + w f"
proof (cases "isConstantExpr c")
  case False
  have "max m (w c + w t + w f) = w c + w t + w f" using w_nonconst [OF False] by simp
  with False show ?thesis
    using AndOr_create_weight(2) [of c f] AndOr_create_weight(1) [of c t] bool_create_weight(2) [of co c f]
      bool_create_weight(4) [of co c t]
    by (cases "isConstantExpr t"; cases "isConstantExpr f") (auto simp: SelectExpr_create_def elim!: isConstantExprE split: if_splits)
qed (auto elim!: isConstantExprE simp: SelectExpr_create_def)

abbreviation uw :: "(expr \<times> expr) list \<Rightarrow> nat" where
  "uw us \<equiv> sum_list (map (\<lambda>(ui, uv). w ui + w uv) us)"

lemma ReadExpr_rollback_weight:
  "case ReadExpr_rollback co i us of Found v \<Rightarrow> w v \<le> uw us | Rest un sw \<Rightarrow> uw un \<le> uw us"
  by (induction co i us rule: ReadExpr_rollback.induct) (auto split: expr.splits rollback.splits if_splits)

lemma ReadExpr_create_weight: "w (ReadExpr_create co (A, us) i) \<le> w (ReadExpr A us i)"
  using ReadExpr_rollback_weight [where co = co and i = i and us = us]
  by (auto simp: ReadExpr_create_def Let_def split: rollback.splits expr.splits)

text \<open>Rebuilding does not increase the weight of the node over the new kids.\<close>

lemma rebuild_weight:
  assumes "rebuild co e kids = Some e'" "withKids e kids = Some n"
  shows "w e' \<le> w n"
  using assms BinaryExpr_create_weight [of co] ReadExpr_create_weight [of co] SelectExpr_create_weight [of co]
    ExtractConcat_create_weight unary_create_weight
  by (cases "(e, kids)" rule: withKids.cases) (fastforce simp: rebuild_def le_max_iff_disj)+

end

section \<open>Instances\<close>

text \<open>The number of symbolic leaves; only constants weigh nothing.\<close>

definition unitWeight :: "Array \<Rightarrow> nat" where
  "unitWeight A = 1"

definition noWeight :: "kind \<Rightarrow> nat" where
  "noWeight k = 0"

abbreviation weight :: "expr \<Rightarrow> nat" where
  "weight \<equiv> weightG (Suc 0) unitWeight noWeight"

interpretation leaves: weighting "Suc 0" unitWeight noWeight
  by unfold_locales (auto simp: unitWeight_def noWeight_def)

lemma weight_zero: "weight e = 0 \<longleftrightarrow> isConstantExpr e"
  by (cases e) (auto simp: unitWeight_def noWeight_def)

text \<open>Divisions, and arrays outside a set.\<close>

definition outside :: "Array set \<Rightarrow> Array \<Rightarrow> nat" where
  "outside S A = (if A \<in> S then 0 else 1)"

lemma outside_zero [simp]: "outside S A = 0 \<longleftrightarrow> A \<in> S"
  by (simp add: outside_def)

definition divWeight :: "kind \<Rightarrow> nat" where
  "divWeight k = (if isDivKind k then 1 else 0)"

abbreviation foreign :: "Array set \<Rightarrow> expr \<Rightarrow> nat" where
  "foreign S \<equiv> weightG 0 (outside S) divWeight"

interpretation pure: weighting 0 "outside S" divWeight for S
  by unfold_locales (auto simp: divWeight_def)

text \<open>
  An expression without divisions over arrays whose bytes are all known has a value.
\<close>

definition divFree :: "Array set \<Rightarrow> expr \<Rightarrow> bool" where
  "divFree S e \<longleftrightarrow> foreign S e = 0"

definition totalOn :: "Array set \<Rightarrow> env \<Rightarrow> bool" where
  "totalOn S \<sigma> \<longleftrightarrow> (\<forall>A \<in> S. \<forall>i. initialValue \<sigma> A i \<noteq> None)"

lemma sem_divFree:
  "totalOn S \<sigma> \<Longrightarrow> foreign S e = 0 \<Longrightarrow> sem \<sigma> e \<noteq> None"
  "totalOn S \<sigma> \<Longrightarrow> A \<in> S \<Longrightarrow> \<forall>(ui, uv) \<in> set us. foreign S ui = 0 \<and> foreign S uv = 0 \<Longrightarrow> semRead \<sigma> A us i \<noteq> None"
proof (induction \<sigma> e and \<sigma> A us i rule: sem_semRead.induct)
  case (3 \<sigma> A us ie)
  then show ?case by (auto simp: case_prod_beta)
next
  case (4 \<sigma> ce te fe)
  then show ?case by fastforce
next
  case (11 \<sigma> A i)
  then show ?case by (auto simp: totalOn_def)
qed (auto simp: bvOp_def divWeight_def split: if_splits)

lemma divFree_defined: "totalOn S \<sigma> \<Longrightarrow> divFree S e \<Longrightarrow> \<exists>v. sem \<sigma> e = Some v"
  using sem_divFree(1) by (auto simp: divFree_def)

lemma divFree_rebuild:
  assumes "rebuild co e kids = Some e'" "divFree S e" "\<forall>k \<in> set kids. divFree S k"
  shows "divFree S e'"
proof -
  obtain n where n: "withKids e kids = Some n"
    using assms(1) by (cases e) (auto simp: rebuild_def split: list.splits)
  then have "foreign S n = 0"
    using assms(2,3) by (cases "(e, kids)" rule: withKids.cases) (auto simp: divFree_def)
  with pure.rebuild_weight [OF assms(1) n, of S] show ?thesis by (simp add: divFree_def)
qed

text \<open>Rebuilding over kids of which one is lighter and none heavier gives a lighter expression.\<close>

lemma BinaryExpr_create_folds:
  "BinaryExpr_create co k (ConstantExpr a) (ConstantExpr b) = Some e \<Longrightarrow> isConstantExpr e"
  using leaves.BinaryExpr_create_weight [of co k "ConstantExpr a" "ConstantExpr b" e]
  by (simp add: noWeight_def flip: weight_zero)

lemma rebuild_folds:
  assumes "rebuild co e kids = Some e'" "\<forall>k \<in> set kids. isConstantExpr k" "getKind e \<noteq> KRead" "getKind e \<noteq> KNotOptimized"
  shows "isConstantExpr e'"
proof (cases e)
  case (BinaryExpr k l r)
  with assms(1,2) show ?thesis
    by (auto simp: rebuild_def split: list.splits elim!: isConstantExprE dest: BinaryExpr_create_folds)
qed (use assms in \<open>auto elim!: isConstantExprE simp: rebuild_def
    SelectExpr_create_def ConcatExpr_create.simps ExtractExpr_create.simps ZExtExpr_create_def SExtExpr_create_def
    NotExpr_create_def Let_def split: list.splits\<close>)

definition kidsWeight :: "expr list \<Rightarrow> nat" where
  "kidsWeight ks = sum_list (map weight ks)"

lemma kidsWeight_decreases:
  "list_all2 (\<lambda>k k'. k' = k \<or> weight k' < weight k) ks ks' \<Longrightarrow> ks' \<noteq> ks \<Longrightarrow> kidsWeight ks' < kidsWeight ks"
proof (induction rule: list_all2_induct)
  case (Cons x xs y ys)
  then show ?case by (cases "ys = xs") (auto simp: kidsWeight_def)
qed simp

lemma weight_kids:
  assumes "withKids e kids = Some n" "kidsWeight kids < kidsWeight (getKids e)"
  shows "weight n < weight e \<or> kidsWeight kids = 0 \<and> weight e \<ge> 1 \<and> getKind e \<noteq> KRead \<and> getKind e \<noteq> KNotOptimized"
  using assms by (cases "(e, kids)" rule: withKids.cases) (auto simp: kidsWeight_def noWeight_def)

lemma rebuild_decreases:
  assumes "rebuild co e kids = Some e'" "list_all2 (\<lambda>k k'. k' = k \<or> weight k' < weight k) (getKids e) kids"
    and "kids \<noteq> getKids e"
  shows "weight e' < weight e"
proof -
  obtain n where n: "withKids e kids = Some n"
    using assms(1) by (cases e) (auto simp: rebuild_def split: list.splits)
  from weight_kids [OF n kidsWeight_decreases [OF assms(2,3)]] show ?thesis
  proof (elim disjE conjE)
    assume "kidsWeight kids = 0" "weight e \<ge> 1" "getKind e \<noteq> KRead" "getKind e \<noteq> KNotOptimized"
    moreover from this(1) have "\<forall>k \<in> set kids. isConstantExpr k" by (auto simp: kidsWeight_def weight_zero)
    ultimately have "weight e' = 0" using rebuild_folds [OF assms(1)] by (simp add: weight_zero)
    with \<open>weight e \<ge> 1\<close> show ?thesis by simp
  qed (use leaves.rebuild_weight [OF assms(1) n] in simp)
qed

end
