(* ===== verification/Constraints.thy ===== *)
theory Constraints
  imports ExprWeight
begin

text \<open>
  The constraint manager (\<open>lib/Expr/Constraints.cpp\<close>, \<open>include/klee/Expr/Constraints.h\<close>): the path
  condition of an execution state as a list of boolean expressions, simplified by the equalities
  it contains when a constraint is added.
\<close>

section \<open>Definitions\<close>

text \<open>The command line options the functions read.\<close>

record options =
  ConstArrayOpt :: bool
  UseVisitorHash :: bool
  RewriteEqualities :: bool

type_synonym constraints = "expr list"

definition ExprReplaceVisitor :: "expr \<Rightarrow> expr \<Rightarrow> visitor" where
  "ExprReplaceVisitor src dst =
     \<lparr>recursive = False,
      visitExpr = (\<lambda>e. Ok (if e = src then ChangeTo dst else DoChildren)),
      visitNode = (\<lambda>vf s e. Ok (DoChildren, s)),
      visitExprPost = (\<lambda>e. if e = src then ChangeTo dst else DoChildren)\<rparr>"

definition ExprReplaceVisitor2 :: "(expr \<times> expr) list \<Rightarrow> visitor" where
  "ExprReplaceVisitor2 replacements =
     (ExprVisitor_base True)\<lparr>visitExprPost :=
       (\<lambda>e. case map_of replacements e of Some x \<Rightarrow> ChangeTo x | None \<Rightarrow> DoChildren)\<rparr>"

text \<open>
  The replacements of \<open>simplifyExpr\<close>: an equality with a constant on the left replaces its right
  side, any other constraint is replaced by true. A \<open>std::map\<close> keeps the first insertion.
\<close>

definition equalityOf :: "expr \<Rightarrow> expr \<times> expr" where
  "equalityOf e =
     (case constLeft Eq e of
        Some (c, r) \<Rightarrow> (r, ConstantExpr c)
      | None \<Rightarrow> (e, ConstantExpr (alloc 1 1)))"

definition insertEquality :: "(expr \<times> expr) list \<Rightarrow> expr \<Rightarrow> (expr \<times> expr) list" where
  "insertEquality m c =
     (let (k, v) = equalityOf c in if map_of m k = None then m @ [(k, v)] else m)"

definition simplifyExpr :: "options \<Rightarrow> nat \<Rightarrow> constraints \<Rightarrow> expr \<Rightarrow> expr result" where
  "simplifyExpr opts n constraints e =
     (if isConstantExpr e then Ok e
      else
        rbind (visit (ConstArrayOpt opts) (UseVisitorHash opts)
            (ExprReplaceVisitor2 (foldl insertEquality [] constraints)) n [] e) (\<lambda>(r, s). Ok r))"

text \<open>
  The loop of \<open>rewriteConstraints\<close>; \<open>add\<close> is \<open>addConstraintInternal\<close> and \<open>vf\<close> the traversal of the
  visitor, whose table lives through the loop. The result tells whether a constraint changed.
\<close>

fun rewriteLoop :: "(constraints \<Rightarrow> expr \<Rightarrow> constraints result) \<Rightarrow> visitFn \<Rightarrow> visited \<Rightarrow>
    constraints \<Rightarrow> bool \<Rightarrow> constraints \<Rightarrow> (constraints \<times> bool) result" where
  "rewriteLoop add vf s constraints changed [] = Ok (constraints, changed)"
| "rewriteLoop add vf s constraints changed (ce # old) =
     rbind (vf s ce) (\<lambda>(e, s1).
       if e \<noteq> ce
       then rbind (add constraints e) (\<lambda>constraints1. rewriteLoop add vf s1 constraints1 True old)
       else rewriteLoop add vf s1 (constraints @ [ce]) changed old)"

text \<open>A traversal of a visitor that is not recursive, with as much fuel as the expression is large.\<close>

definition replaceFn :: "options \<Rightarrow> expr \<Rightarrow> expr \<Rightarrow> visitFn" where
  "replaceFn opts src dst s e =
     visit (ConstArrayOpt opts) (UseVisitorHash opts) (ExprReplaceVisitor src dst) (Suc (size e)) s e"

definition rewriteConstraints :: "options \<Rightarrow> (constraints \<Rightarrow> expr \<Rightarrow> constraints result) \<Rightarrow>
    constraints \<Rightarrow> expr \<Rightarrow> expr \<Rightarrow> (constraints \<times> bool) result" where
  "rewriteConstraints opts add constraints src dst =
     rewriteLoop add (replaceFn opts src dst) [] [] False constraints"

fun addConstraintInternal :: "options \<Rightarrow> nat \<Rightarrow> constraints \<Rightarrow> expr \<Rightarrow> constraints result" where
  "addConstraintInternal opts 0 constraints e = OutOfFuel"
| "addConstraintInternal opts (Suc n) constraints e =
     (case e of
        ConstantExpr c \<Rightarrow> if isTrue c then Ok constraints else Abort
      | BinaryExpr k l r \<Rightarrow>
          if k = And then
            rbind (addConstraintInternal opts n constraints l) (\<lambda>constraints1.
              addConstraintInternal opts n constraints1 r)
          else if k = Eq then
            rbind (if RewriteEqualities opts \<and> isConstantExpr l
                   then rbind (rewriteConstraints opts (addConstraintInternal opts n) constraints r l) (\<lambda>(cs, changed). Ok cs)
                   else Ok constraints)
              (\<lambda>constraints1. Ok (constraints1 @ [e]))
          else Ok (constraints @ [e])
      | _ \<Rightarrow> Ok (constraints @ [e]))"

definition addConstraint :: "options \<Rightarrow> nat \<Rightarrow> constraints \<Rightarrow> expr \<Rightarrow> constraints result" where
  "addConstraint opts n constraints e =
     rbind (simplifyExpr opts n constraints e) (\<lambda>e1. addConstraintInternal opts n constraints e1)"

section \<open>Models\<close>

definition satisfied :: "env \<Rightarrow> constraints \<Rightarrow> bool" where
  "satisfied \<sigma> cs \<longleftrightarrow> (\<forall>c \<in> set cs. sem \<sigma> c = Some 1)"

definition wf_constraints :: "constraints \<Rightarrow> bool" where
  "wf_constraints cs \<longleftrightarrow> (\<forall>c \<in> set cs. wf_expr c \<and> getWidth c = 1)"

lemma satisfied_simps [simp]:
  "satisfied \<sigma> []" "satisfied \<sigma> (c # cs) \<longleftrightarrow> sem \<sigma> c = Some 1 \<and> satisfied \<sigma> cs"
  "satisfied \<sigma> (cs @ ds) \<longleftrightarrow> satisfied \<sigma> cs \<and> satisfied \<sigma> ds"
  by (auto simp: satisfied_def)

lemma wf_constraints_simps [simp]:
  "wf_constraints []" "wf_constraints (c # cs) \<longleftrightarrow> wf_expr c \<and> getWidth c = 1 \<and> wf_constraints cs"
  "wf_constraints (cs @ ds) \<longleftrightarrow> wf_constraints cs \<and> wf_constraints ds"
  by (auto simp: wf_constraints_def)

text \<open>The replacements hold in every model of the constraints.\<close>

lemma equalityOf_cases:
  "(\<exists>c r. e = BinaryExpr Eq (ConstantExpr c) r \<and> equalityOf e = (r, ConstantExpr c)) \<or>
   equalityOf e = (e, ConstantExpr (alloc 1 1))"
  by (auto simp: equalityOf_def dest: constLeft_SomeD split: option.splits)

lemma insertEquality_set:
  "(k, v) \<in> set (foldl insertEquality m cs) \<Longrightarrow> (k, v) \<in> set m \<or> (\<exists>c \<in> set cs. equalityOf c = (k, v))"
proof (induction cs arbitrary: m)
  case (Cons c cs)
  have "set (insertEquality m c) \<subseteq> insert (equalityOf c) (set m)"
    by (auto simp: insertEquality_def Let_def split: prod.splits)
  with Cons.IH [of "insertEquality m c"] Cons.prems show ?case by auto
qed simp

lemma equality_holds:
  assumes "wf_constraints cs" "map_of (foldl insertEquality [] cs) k = Some v"
  shows "isConstantExpr v \<and> refinesOn (\<lambda>\<sigma>. wf_env co \<sigma> \<and> satisfied \<sigma> cs) k v"
proof -
  from insertEquality_set [OF map_of_SomeD [OF assms(2)]] obtain c where c: "c \<in> set cs" "equalityOf c = (k, v)" by auto
  with assms(1) have wf: "wf_expr c" "getWidth c = 1" by (auto simp: wf_constraints_def)
  from equalityOf_cases [of c] show ?thesis
  proof (elim disjE exE conjE)
    fix d r assume d: "c = BinaryExpr Eq (ConstantExpr d) r" "equalityOf c = (r, ConstantExpr d)"
    have "v = apValue d" if "sem \<sigma> r = Some v" "satisfied \<sigma> cs" for \<sigma> v
    proof -
      have "sem \<sigma> c = Some 1" using that(2) c(1) by (simp add: satisfied_def)
      with d(1) that(1) show ?thesis by (auto simp: kind_simps)
    qed
    with d c(2) wf show ?thesis by (auto simp: refinesOn_def)
  next
    assume "equalityOf c = (c, ConstantExpr (alloc 1 1))"
    then show ?thesis
      using c wf by (auto simp: refinesOn_def satisfied_def)
  qed
qed

lemma replace2_sound:
  assumes "wf_constraints cs"
  shows "sound_visitor co (refinesOn (\<lambda>\<sigma>. wf_env co \<sigma> \<and> satisfied \<sigma> cs))
    (ExprReplaceVisitor2 (foldl insertEquality [] cs))"
  by unfold_locales
     (use equality_holds [OF assms] in \<open>auto simp: ExprReplaceVisitor2_def ExprVisitor_base_def split: option.splits\<close>)

lemma replace_sound:
  assumes "wf_expr src" "wf_const c" "bitWidth c = getWidth src"
  shows "sound_visitor co (refinesOn (\<lambda>\<sigma>. wf_env co \<sigma> \<and> sem \<sigma> src = Some (apValue c)))
    (ExprReplaceVisitor src (ConstantExpr c))"
  by unfold_locales (use assms in \<open>auto simp: ExprReplaceVisitor_def refinesOn_def split: if_splits\<close>)

lemma simplifyExpr_sound:
  assumes "simplifyExpr opts n cs e = Ok r" "wf_constraints cs"
  shows "refinesOn (\<lambda>\<sigma>. wf_env (ConstArrayOpt opts) \<sigma> \<and> satisfied \<sigma> cs) e r"
  using assms(1) sound_visitor.visit_sound [OF replace2_sound [OF assms(2)]]
  by (auto simp: simplifyExpr_def split: if_splits)

text \<open>Replacing subexpressions by constants introduces no division and no array.\<close>

lemma divFree_const [simp]: "divFree S (ConstantExpr c)"
  by (simp add: divFree_def)

lemma divFree_kids: "divFree S e \<Longrightarrow> k \<in> set (getKids e) \<Longrightarrow> divFree S k"
  by (cases e) (auto simp: divFree_def)

section \<open>Visitors that replace subexpressions by constants\<close>

definition keepsDivFree :: "Array set \<Rightarrow> expr \<Rightarrow> expr \<Rightarrow> bool" where
  "keepsDivFree S e e' \<longleftrightarrow> (divFree S e \<longrightarrow> divFree S e')"

definition lighter :: "expr \<Rightarrow> expr \<Rightarrow> bool" where
  "lighter e e' \<longleftrightarrow> e' = e \<or> weight e' < weight e"

interpretation keepsDivFree: rebuild_preorder co "keepsDivFree S" for co S
proof unfold_locales
  fix e kids e'
  assume *: "rebuild co e kids = Some e'" "list_all2 (keepsDivFree S) (getKids e) kids"
  have "\<forall>k \<in> set kids. divFree S k" if "divFree S e"
    using *(2) divFree_kids [OF that] by (metis in_set_conv_nth keepsDivFree_def list_all2_conv_all_nth)
  with divFree_rebuild [OF *(1)] show "keepsDivFree S e e'" by (simp add: keepsDivFree_def)
qed (auto simp: keepsDivFree_def)

interpretation lighter: rebuild_preorder co lighter for co
  using rebuild_decreases [of co]
  by unfold_locales (auto simp: lighter_def [abs_def])

locale replacing_visitor =
  fixes V :: visitor
  assumes expr_const: "visitExpr V e = Ok (ChangeTo x) \<Longrightarrow> isConstantExpr x"
    and expr_ok: "\<exists>act. visitExpr V e = Ok act"
    and post_const: "visitExprPost V e = ChangeTo x \<Longrightarrow> isConstantExpr x"
    and node_base: "visitNode V vf s e = Ok (DoChildren, s)"

lemma weight_kid: "k \<in> set (getKids e) \<Longrightarrow> weight k \<le> weight e"
  by (cases e) auto

text \<open>More fuel does not change a result.\<close>

definition moreFuel :: "visitFn \<Rightarrow> visitFn \<Rightarrow> bool" where
  "moreFuel vf vf' \<longleftrightarrow> (\<forall>s e. vf s e \<noteq> OutOfFuel \<longrightarrow> vf' s e = vf s e)"

lemma rbind_more:
  assumes "rbind m f \<noteq> OutOfFuel" "m \<noteq> OutOfFuel \<Longrightarrow> m' = m" "\<And>x. m = Ok x \<Longrightarrow> f x \<noteq> OutOfFuel \<Longrightarrow> f' x = f x"
  shows "rbind m' f' = rbind m f"
  using assms by (cases m) auto

lemma visitKids_more: "moreFuel vf vf' \<Longrightarrow> visitKids vf s ks \<noteq> OutOfFuel \<Longrightarrow> visitKids vf' s ks = visitKids vf s ks"
proof (induction ks arbitrary: s)
  case (Cons k ks)
  then show ?case
    by (auto simp: moreFuel_def intro!: rbind_more split: prod.splits)
qed simp

sublocale replacing_visitor \<subseteq> divs: sound_visitor co "keepsDivFree S" V for co S
  by unfold_locales
     (auto simp: keepsDivFree_def node_base dest!: expr_const post_const elim!: isConstantExprE)

sublocale replacing_visitor \<subseteq> light: sound_visitor co lighter V for co
  by unfold_locales
     (auto simp: lighter_def node_base dest!: expr_const post_const simp flip: weight_zero)

context replacing_visitor
begin

lemma visitActual_more:
  assumes "moreFuel vf vf'" "visitActual co V vf s e \<noteq> OutOfFuel"
  shows "visitActual co V vf' s e = visitActual co V vf s e"
proof -
  have rebuild: "visitRebuild co V vf s' e kids \<noteq> OutOfFuel \<Longrightarrow>
      visitRebuild co V vf' s' e kids = visitRebuild co V vf s' e kids" for s' kids
    using assms(1) by (auto simp: visitRebuild_def moreFuel_def split: option.splits)
  obtain act where "visitExpr V e = Ok act" using expr_ok by blast
  with assms(2) show ?thesis
    by (auto simp: visitActual_def node_base intro!: rbind_more visitKids_more [OF assms(1)] rebuild
        split: Action.splits prod.splits)
qed

lemma visit_more1: "moreFuel (visit co h V n) (visit co h V (Suc n))"
proof (induction n)
  case (Suc n)
  show ?case
    unfolding moreFuel_def
  proof (intro allI impI)
    fix s e
    define a b where "a = visitActual co V (visit co h V n) s e" and "b = visitActual co V (visit co h V (Suc n)) s e"
    have "a \<noteq> OutOfFuel \<Longrightarrow> b = a" unfolding a_def b_def by (rule visitActual_more [OF Suc])
    moreover assume "visit co h V (Suc n) s e \<noteq> OutOfFuel"
    ultimately show "visit co h V (Suc (Suc n)) s e = visit co h V (Suc n) s e"
      unfolding visit.simps(2) a_def [symmetric] b_def [symmetric]
      by (auto intro!: rbind_more split: option.splits)
  qed
qed (simp add: moreFuel_def)

lemma visit_more: "n \<le> k \<Longrightarrow> moreFuel (visit co h V n) (visit co h V k)"
proof (induction k rule: dec_induct)
  case (step k)
  with visit_more1 [of co h k] show ?case by (simp add: moreFuel_def del: visit.simps)
qed (simp add: moreFuel_def)

lemma visit_enough:
  "visit co h V n s e \<noteq> OutOfFuel \<Longrightarrow> n \<le> k \<Longrightarrow> visit co h V k s e = visit co h V n s e"
  using visit_more by (simp add: moreFuel_def)

text \<open>The traversal ends, even when it revisits: every revisited expression is lighter.\<close>

lemma visitKids_ends:
  assumes "\<And>k s. k \<in> set ks \<Longrightarrow> tableOK lighter s \<Longrightarrow> \<exists>n. visit co h V n s k \<noteq> OutOfFuel" "tableOK lighter s"
  shows "\<exists>n. visitKids (visit co h V n) s ks \<noteq> OutOfFuel"
  using assms
proof (induction ks arbitrary: s)
  case (Cons k ks)
  from Cons.prems(1) [of k s] Cons.prems(2) obtain n where n: "visit co h V n s k \<noteq> OutOfFuel" by auto
  show ?case
  proof (cases "visit co h V n s k")
    case (Ok p)
    obtain k' s1 where p: "p = (k', s1)" by (cases p)
    with Ok soundFnD [OF light.visit_soundFn Ok [unfolded p] Cons.prems(2)] have "tableOK lighter s1" by simp
    with Cons.IH [of s1] Cons.prems(1) obtain n' where n': "visitKids (visit co h V n') s1 ks \<noteq> OutOfFuel" by auto
    let ?N = "max n n'"
    have "visit co h V ?N s k = Ok (k', s1)" using visit_enough [OF n, of ?N] Ok p by simp
    moreover have "visitKids (visit co h V ?N) s1 ks \<noteq> OutOfFuel"
      using visitKids_more [OF visit_more n', of ?N] n' by simp
    ultimately have "visitKids (visit co h V ?N) s (k # ks) \<noteq> OutOfFuel"
      by (auto simp: rbind_eq_OutOfFuel)
    then show ?thesis by blast
  qed (use n in \<open>auto intro!: exI [of _ n]\<close>)
qed simp

lemma visitActual_ends:
  assumes kids: "\<And>k s. k \<in> set (getKids e) \<Longrightarrow> tableOK lighter s \<Longrightarrow> \<exists>n. visit co h V n s k \<noteq> OutOfFuel"
    and lighter_ends: "\<And>e' s. weight e' < weight e \<Longrightarrow> tableOK lighter s \<Longrightarrow> \<exists>n. visit co h V n s e' \<noteq> OutOfFuel"
    and s: "tableOK lighter s"
  shows "\<exists>n. visitActual co V (visit co h V n) s e \<noteq> OutOfFuel"
proof -
  obtain n where n: "visitKids (visit co h V n) s (getKids e) \<noteq> OutOfFuel"
    using visitKids_ends [OF kids s] by blast
  have "\<exists>N \<ge> n. \<forall>ks s1. visitKids (visit co h V n) s (getKids e) = Ok (ks, s1) \<longrightarrow>
      visitRebuild co V (visit co h V N) s1 e ks \<noteq> OutOfFuel"
  proof (cases "visitKids (visit co h V n) s (getKids e)")
    case (Ok p)
    obtain ks s1 where p: "p = (ks, s1)" by (cases p)
    note snd = light.visitKids_sound [OF light.visit_soundFn Ok [unfolded p] s]
    have "\<exists>n'. ks \<noteq> getKids e \<longrightarrow> (\<forall>e'. rebuild co e ks = Some e' \<longrightarrow> visit co h V n' s1 e' \<noteq> OutOfFuel)"
      using lighter_ends rebuild_decreases [of co e ks] snd by (cases "rebuild co e ks") (auto simp: lighter_def [abs_def])
    then obtain n' where n': "ks \<noteq> getKids e \<longrightarrow> (\<forall>e'. rebuild co e ks = Some e' \<longrightarrow> visit co h V n' s1 e' \<noteq> OutOfFuel)" by blast
    have "visitRebuild co V (visit co h V (max n n')) s1 e ks \<noteq> OutOfFuel"
      using n' visit_enough [of co h n' s1 _ "max n n'"] by (auto simp: visitRebuild_def simp del: visit.simps split: option.splits)
    with Ok p show ?thesis by (intro exI [of _ "max n n'"]) auto
  qed (use n in auto)
  then obtain N where N: "n \<le> N" "\<And>ks s1. visitKids (visit co h V n) s (getKids e) = Ok (ks, s1) \<Longrightarrow>
      visitRebuild co V (visit co h V N) s1 e ks \<noteq> OutOfFuel" by blast
  have "visitKids (visit co h V N) s (getKids e) = visitKids (visit co h V n) s (getKids e)"
    by (rule visitKids_more [OF visit_more [OF N(1)] n])
  with n N(2) expr_ok [of e] have "visitActual co V (visit co h V N) s e \<noteq> OutOfFuel"
    by (auto simp: visitActual_def node_base rbind_eq_OutOfFuel simp del: visit.simps split: Action.splits)
  then show ?thesis by blast
qed

lemma visit_ends: "tableOK lighter s \<Longrightarrow> \<exists>n. visit co h V n s e \<noteq> OutOfFuel"
proof (induction e arbitrary: s rule: wf_induct_rule [OF wf_measures [of "[weight, size]"]])
  case (1 e)
  have "\<exists>n. visitActual co V (visit co h V n) s e \<noteq> OutOfFuel"
  proof (rule visitActual_ends [OF _ _ 1(2)])
    fix k s
    assume "k \<in> set (getKids e)" "tableOK lighter s"
    with 1(1) [of k s] weight_kid [of k e] size_getKids [of k e] show "\<exists>n. visit co h V n s k \<noteq> OutOfFuel"
      by (auto simp: le_eq_less_or_eq)
  qed (use 1(1) in simp)
  then obtain n where "visitActual co V (visit co h V n) s e \<noteq> OutOfFuel" by blast
  then have "visit co h V (Suc n) s e \<noteq> OutOfFuel"
    by (auto simp: rbind_eq_OutOfFuel split: option.splits)
  then show ?case by blast
qed

end

interpretation replace: replacing_visitor "ExprReplaceVisitor src (ConstantExpr c)" for src c
  by unfold_locales (auto simp: ExprReplaceVisitor_def split: if_splits)

lemma equalityOf_const: "equalityOf c = (k, v) \<Longrightarrow> isConstantExpr v"
  using equalityOf_cases [of c] by auto

interpretation replace2: replacing_visitor "ExprReplaceVisitor2 (foldl insertEquality [] cs)" for cs
  by unfold_locales
     (auto simp: ExprReplaceVisitor2_def ExprVisitor_base_def split: option.splits
       dest!: map_of_SomeD insertEquality_set equalityOf_const)

interpretation replace_structural: structural_visitor "ExprReplaceVisitor src dst" for src dst
  by unfold_locales (auto simp: ExprReplaceVisitor_def)

section \<open>Adding constraints\<close>

text \<open>
  Two lists of constraints with the same models among the environments of \<open>\<Gamma>\<close>. That no model
  is lost holds without further assumption; that none appears needs the expressions to have
  values, which total environments give to expressions without divisions.
\<close>

definition divFreeAll :: "Array set \<Rightarrow> constraints \<Rightarrow> bool" where
  "divFreeAll S cs \<longleftrightarrow> (\<forall>c \<in> set cs. divFree S c)"

lemma divFreeAll_simps [simp]:
  "divFreeAll S []" "divFreeAll S (c # cs) \<longleftrightarrow> divFree S c \<and> divFreeAll S cs"
  "divFreeAll S (cs @ ds) \<longleftrightarrow> divFreeAll S cs \<and> divFreeAll S ds"
  by (auto simp: divFreeAll_def)

definition sameModels :: "(env \<Rightarrow> bool) \<Rightarrow> constraints \<Rightarrow> constraints \<Rightarrow> bool" where
  "sameModels \<Gamma> cs cs' \<longleftrightarrow>
     (wf_constraints cs \<longrightarrow>
        wf_constraints cs' \<and>
        (\<forall>\<sigma>. \<Gamma> \<sigma> \<longrightarrow> satisfied \<sigma> cs \<longrightarrow> satisfied \<sigma> cs') \<and>
        (\<forall>S. divFreeAll S cs \<longrightarrow>
           divFreeAll S cs' \<and> (\<forall>\<sigma>. \<Gamma> \<sigma> \<longrightarrow> totalOn S \<sigma> \<longrightarrow> satisfied \<sigma> cs' \<longrightarrow> satisfied \<sigma> cs)))"

lemma sameModelsD:
  assumes "sameModels \<Gamma> cs cs'" "wf_constraints cs"
  shows "wf_constraints cs'" "\<Gamma> \<sigma> \<Longrightarrow> satisfied \<sigma> cs \<Longrightarrow> satisfied \<sigma> cs'"
    "divFreeAll S cs \<Longrightarrow> divFreeAll S cs'"
    "divFreeAll S cs \<Longrightarrow> \<Gamma> \<sigma> \<Longrightarrow> totalOn S \<sigma> \<Longrightarrow> satisfied \<sigma> cs' \<Longrightarrow> satisfied \<sigma> cs"
  using assms unfolding sameModels_def by blast+

lemma sameModelsI:
  assumes "wf_constraints cs \<Longrightarrow> wf_constraints cs'"
    and "\<And>\<sigma>. wf_constraints cs \<Longrightarrow> \<Gamma> \<sigma> \<Longrightarrow> satisfied \<sigma> cs \<Longrightarrow> satisfied \<sigma> cs'"
    and "\<And>S. wf_constraints cs \<Longrightarrow> divFreeAll S cs \<Longrightarrow> divFreeAll S cs'"
    and "\<And>S \<sigma>. wf_constraints cs \<Longrightarrow> divFreeAll S cs \<Longrightarrow> \<Gamma> \<sigma> \<Longrightarrow> totalOn S \<sigma> \<Longrightarrow> satisfied \<sigma> cs' \<Longrightarrow> satisfied \<sigma> cs"
  shows "sameModels \<Gamma> cs cs'"
  using assms unfolding sameModels_def by blast

lemma sameModels_refl [simp]: "sameModels \<Gamma> cs cs"
  by (simp add: sameModels_def)

lemma sameModels_trans [trans]: "sameModels \<Gamma> cs ds \<Longrightarrow> sameModels \<Gamma> ds es \<Longrightarrow> sameModels \<Gamma> cs es"
  unfolding sameModels_def by blast

lemma sameModels_mono: "sameModels \<Gamma> cs ds \<Longrightarrow> (\<And>\<sigma>. \<Gamma>' \<sigma> \<Longrightarrow> \<Gamma> \<sigma>) \<Longrightarrow> sameModels \<Gamma>' cs ds"
  unfolding sameModels_def by blast

lemma sameModels_append: "sameModels \<Gamma> cs ds \<Longrightarrow> sameModels \<Gamma> (cs @ es) (ds @ es)"
  unfolding sameModels_def by auto

text \<open>Only the elements of a list matter.\<close>

lemma sameModels_set: "set cs = set ds \<Longrightarrow> sameModels \<Gamma> cs ds"
  by (auto simp: sameModels_def wf_constraints_def satisfied_def divFreeAll_def)

lemma sameModels_replace:
  assumes "refinesOn \<Gamma> c e" "\<And>S. keepsDivFree S c e"
  shows "sameModels \<Gamma> (c # cs) (e # cs)"
proof (rule sameModelsI)
  assume wf: "wf_constraints (c # cs)"
  then have c: "wf_expr c" "getWidth c = 1" by auto
  with refinesOnD(1,2) [OF assms(1)] wf show "wf_constraints (e # cs)" by simp
  show "satisfied \<sigma> (e # cs)" if "\<Gamma> \<sigma>" "satisfied \<sigma> (c # cs)" for \<sigma>
    using that refinesOnD(3) [OF assms(1) c(1)] by simp
  fix S assume df: "divFreeAll S (c # cs)"
  then show "divFreeAll S (e # cs)" using assms(2) [of S] by (simp add: keepsDivFree_def)
  fix \<sigma> assume "\<Gamma> \<sigma>" "totalOn S \<sigma>" "satisfied \<sigma> (e # cs)"
  moreover obtain v where v: "sem \<sigma> c = Some v" using divFree_defined [OF \<open>totalOn S \<sigma>\<close>] df by auto
  ultimately show "satisfied \<sigma> (c # cs)" using refinesOnD(3) [OF assms(1) c(1) _ v] by simp
qed

lemma rewriteLoop_models:
  assumes vf: "soundFn (refinesOn \<Gamma>) vf" "\<And>S. soundFn (keepsDivFree S) vf"
    and add: "\<And>cs e cs'. add cs e = Ok cs' \<Longrightarrow> sameModels \<Gamma> (e # cs) cs'"
  shows "rewriteLoop add vf s cs ch old = Ok (cs', ch') \<Longrightarrow> tableOK (refinesOn \<Gamma>) s \<Longrightarrow>
    (\<And>S. tableOK (keepsDivFree S) s) \<Longrightarrow> sameModels \<Gamma> (cs @ old) cs'"
proof (induction old arbitrary: s cs ch)
  case (Cons ce old)
  from Cons.prems(1) obtain e s1 where e: "vf s ce = Ok (e, s1)" by auto
  note R = soundFnD [OF vf(1) e Cons.prems(2)] and D = soundFnD [OF vf(2) e Cons.prems(3)]
  show ?case
  proof (cases "e = ce")
    case True
    with Cons.prems(1) e have "rewriteLoop add vf s1 (cs @ [ce]) ch old = Ok (cs', ch')" by simp
    from Cons.IH [OF this] R D show ?thesis by simp
  next
    case False
    with Cons.prems(1) e obtain cs1 where cs1: "add cs e = Ok cs1" "rewriteLoop add vf s1 cs1 True old = Ok (cs', ch')"
      by auto
    have "sameModels \<Gamma> (cs @ ce # old) ((ce # cs) @ old)" by (rule sameModels_set) auto
    also have "sameModels \<Gamma> ((ce # cs) @ old) ((e # cs) @ old)"
      using R D by (intro sameModels_append sameModels_replace) auto
    also have "sameModels \<Gamma> ((e # cs) @ old) (cs1 @ old)" by (rule sameModels_append [OF add [OF cs1(1)]])
    also have "sameModels \<Gamma> (cs1 @ old) cs'" using Cons.IH [OF cs1(2)] R D by auto
    finally show ?thesis .
  qed
qed simp

lemma sameModels_and: "sameModels (wf_env co) (AndExpr l r # cs) (l # r # cs)"
proof (rule sameModelsI)
  assume wf: "wf_constraints (AndExpr l r # cs)"
  then have w: "wf_expr l" "wf_expr r" "getWidth l = 1" "getWidth r = 1" by (auto simp: kind_simps)
  show "satisfied \<sigma> (l # r # cs)" if "wf_env co \<sigma>" "satisfied \<sigma> (AndExpr l r # cs)" for \<sigma>
  proof -
    from that(2) obtain a b where ab: "sem \<sigma> l = Some a" "sem \<sigma> r = Some b" "a AND b = 1"
      by (auto simp: kind_simps Option.bind_eq_Some_conv)
    have "fits 1 a" "fits 1 b"
      using sem_fits(1) [OF ab(1) that(1) w(1)] sem_fits(1) [OF ab(2) that(1) w(2)] w by simp_all
    then have "a = 0 \<or> a = 1" "b = 0 \<or> b = 1" by (auto simp: fits_def)
    with ab that(2) show ?thesis by auto
  qed
qed (auto simp: kind_simps divFree_def divWeight_def isDivKind_def)

lemma sameModels_under:
  assumes "sameModels \<Gamma>' cs cs1" "\<And>\<sigma>. \<Gamma> \<sigma> \<Longrightarrow> sem \<sigma> e = Some 1 \<Longrightarrow> \<Gamma>' \<sigma>"
  shows "sameModels \<Gamma> (e # cs) (cs1 @ [e])"
  using assms unfolding sameModels_def by auto

lemma replaceFn_soundFn:
  assumes "\<And>n. soundFn R (visit (ConstArrayOpt opts) (UseVisitorHash opts) (ExprReplaceVisitor src dst) n)"
  shows "soundFn R (replaceFn opts src dst)"
  using assms by (simp add: soundFn_def replaceFn_def del: visit.simps)

lemma replaceFn_sound:
  assumes "wf_expr src" "wf_const c" "bitWidth c = getWidth src"
  shows "soundFn (refinesOn (\<lambda>\<sigma>. wf_env (ConstArrayOpt opts) \<sigma> \<and> sem \<sigma> src = Some (apValue c)))
      (replaceFn opts src (ConstantExpr c))"
    and "soundFn (keepsDivFree S) (replaceFn opts src (ConstantExpr c))"
  by (rule replaceFn_soundFn, rule sound_visitor.visit_soundFn [OF replace_sound [OF assms]]
      replace.divs.visit_soundFn)+

lemma replaceFn_lighter: "soundFn lighter (replaceFn opts src (ConstantExpr c))"
  by (rule replaceFn_soundFn, rule replace.light.visit_soundFn)

lemma addConstraintInternal_models:
  "addConstraintInternal opts n cs e = Ok cs' \<Longrightarrow> sameModels (wf_env (ConstArrayOpt opts)) (e # cs) cs'"
proof (induction n arbitrary: cs e cs')
  case (Suc n)
  let ?co = "ConstArrayOpt opts"
  have push: "sameModels (wf_env ?co) (e # cs) (cs @ [e])" by (rule sameModels_set) simp
  show ?case
  proof (cases e)
    case (ConstantExpr c)
    with Suc.prems have "isTrue c" "cs' = cs" by (auto split: if_splits)
    then show ?thesis
      by (intro sameModelsI) (auto simp: ConstantExpr isTrue_def wf_const_def fits_one_iff)
  next
    case (BinaryExpr k l r)
    show ?thesis
    proof (cases "k = And")
      case True
      with Suc.prems BinaryExpr obtain cs1 where cs1: "addConstraintInternal opts n cs l = Ok cs1"
          "addConstraintInternal opts n cs1 r = Ok cs'" by auto
      have "sameModels (wf_env ?co) (e # cs) (l # r # cs)" using sameModels_and BinaryExpr True by simp
      also have "sameModels (wf_env ?co) (l # r # cs) ((l # cs) @ [r])" by (rule sameModels_set) auto
      also have "sameModels (wf_env ?co) ((l # cs) @ [r]) (cs1 @ [r])"
        by (rule sameModels_append [OF Suc.IH [OF cs1(1)]])
      also have "sameModels (wf_env ?co) (cs1 @ [r]) (r # cs1)" by (rule sameModels_set) auto
      also have "sameModels (wf_env ?co) (r # cs1) cs'" by (rule Suc.IH [OF cs1(2)])
      finally show ?thesis .
    next
      case False
      show ?thesis
      proof (cases "k = Eq \<and> RewriteEqualities opts \<and> isConstantExpr l \<and> wf_constraints (e # cs)")
        case True
        then obtain c where l: "l = ConstantExpr c" by (auto elim: isConstantExprE)
        from True Suc.prems BinaryExpr l obtain cs1 ch where
          cs1: "rewriteLoop (addConstraintInternal opts n) (replaceFn opts r l) [] [] False cs = Ok (cs1, ch)" "cs' = cs1 @ [e]"
          by (auto simp: rewriteConstraints_def)
        let ?\<Gamma> = "\<lambda>\<sigma>. wf_env ?co \<sigma> \<and> sem \<sigma> r = Some (apValue c)"
        have wf: "wf_expr r" "wf_const c" "bitWidth c = getWidth r" using True BinaryExpr l by auto
        have "sameModels ?\<Gamma> ([] @ cs) cs1"
          using rewriteLoop_models [OF replaceFn_sound(1,2) [OF wf] sameModels_mono [OF Suc.IH] cs1(1) [unfolded l]] by simp
        moreover have "sem \<sigma> e = Some 1 \<Longrightarrow> wf_env ?co \<sigma> \<Longrightarrow> ?\<Gamma> \<sigma>" for \<sigma>
          using True BinaryExpr l by (auto simp: kind_simps Option.bind_eq_Some_conv)
        ultimately show ?thesis unfolding cs1(2) by (intro sameModels_under [where \<Gamma>' = ?\<Gamma>]) auto
      next
        case nr: False
        show ?thesis
        proof (cases "wf_constraints (e # cs)")
          case True
          with nr False Suc.prems BinaryExpr push show ?thesis by (auto split: if_splits)
        qed (simp add: sameModels_def del: wf_constraints_simps)
      qed
    qed
  qed (use Suc.prems push in auto)
qed simp

lemma sameModels_simplify:
  assumes "simplifyExpr opts n cs e = Ok e1"
  shows "sameModels (wf_env (ConstArrayOpt opts)) (e # cs) (e1 # cs)"
proof -
  let ?\<Gamma> = "\<lambda>\<sigma>. wf_env (ConstArrayOpt opts) \<sigma> \<and> satisfied \<sigma> cs"
  have "keepsDivFree S e e1" for S
    using assms replace2.divs.visit_sound by (auto simp: simplifyExpr_def keepsDivFree_def split: if_splits)
  then have R: "sameModels ?\<Gamma> (e # cs) (e1 # cs)" if "wf_constraints cs"
    by (intro sameModels_replace simplifyExpr_sound [OF assms that])
  show ?thesis
  proof (cases "wf_constraints cs")
    case True
    from R [OF this] show ?thesis unfolding sameModels_def by auto
  qed (simp add: sameModels_def)
qed

lemma addConstraint_models:
  "addConstraint opts n cs e = Ok cs' \<Longrightarrow> sameModels (wf_env (ConstArrayOpt opts)) (e # cs) cs'"
  by (auto simp: addConstraint_def intro: sameModels_trans [OF sameModels_simplify addConstraintInternal_models])

section \<open>Adding a constraint ends\<close>

abbreviation totalWeight :: "constraints \<Rightarrow> nat" where
  "totalWeight cs \<equiv> sum_list (map weight cs)"

lemma rewriteLoop_weight:
  assumes "soundFn lighter vf" "\<And>cs e cs'. add cs e = Ok cs' \<Longrightarrow> totalWeight cs' \<le> totalWeight cs + weight e"
  shows "rewriteLoop add vf s cs ch old = Ok (cs', ch') \<Longrightarrow> tableOK lighter s \<Longrightarrow>
    totalWeight cs' \<le> totalWeight cs + totalWeight old"
proof (induction old arbitrary: s cs ch)
  case (Cons ce old)
  from Cons.prems(1) obtain e s1 where e: "vf s ce = Ok (e, s1)" by auto
  note l = soundFnD [OF assms(1) e Cons.prems(2)]
  then have w: "weight e \<le> weight ce" "tableOK lighter s1" by (auto simp: lighter_def [of ce])
  show ?case
  proof (cases "e = ce")
    case True
    with Cons.prems(1) e Cons.IH [of s1 "cs @ [ce]" ch] w show ?thesis by simp
  next
    case False
    with Cons.prems(1) e obtain cs1 where "add cs e = Ok cs1" "rewriteLoop add vf s1 cs1 True old = Ok (cs', ch')" by auto
    with assms(2) [of cs e cs1] Cons.IH [of s1 cs1 True] w show ?thesis by simp
  qed
qed simp

lemma addConstraintInternal_weight:
  "addConstraintInternal opts n cs e = Ok cs' \<Longrightarrow> totalWeight cs' \<le> totalWeight cs + weight e"
proof (induction n arbitrary: cs e cs')
  case (Suc n)
  show ?case
  proof (cases e)
    case (BinaryExpr k l r)
    show ?thesis
    proof (cases "k = And")
      case True
      with Suc.prems BinaryExpr obtain cs1 where "addConstraintInternal opts n cs l = Ok cs1"
          "addConstraintInternal opts n cs1 r = Ok cs'" by auto
      with Suc.IH [of cs l cs1] Suc.IH [of cs1 r cs'] BinaryExpr show ?thesis by simp
    next
      case False
      show ?thesis
      proof (cases "k = Eq \<and> RewriteEqualities opts \<and> isConstantExpr l")
        case True
        then obtain c where l: "l = ConstantExpr c" by (auto elim: isConstantExprE)
        with True Suc.prems BinaryExpr obtain cs1 ch where
          cs1: "rewriteLoop (addConstraintInternal opts n) (replaceFn opts r l) [] [] False cs = Ok (cs1, ch)" "cs' = cs1 @ [e]"
          by (auto simp: rewriteConstraints_def)
        with rewriteLoop_weight [OF replaceFn_lighter Suc.IH cs1(1) [unfolded l]] show ?thesis by simp
      qed (use False Suc.prems BinaryExpr in \<open>auto split: if_splits\<close>)
    qed
  qed (use Suc.prems in \<open>auto split: if_splits\<close>)
qed simp

lemma rewriteLoop_more:
  assumes "\<And>cs e. add cs e \<noteq> OutOfFuel \<Longrightarrow> add' cs e = add cs e"
  shows "rewriteLoop add vf s cs ch old \<noteq> OutOfFuel \<Longrightarrow>
    rewriteLoop add' vf s cs ch old = rewriteLoop add vf s cs ch old"
proof (induction old arbitrary: s cs ch)
  case (Cons ce old)
  from Cons.prems show ?case
    by (auto intro!: rbind_more assms Cons.IH split: prod.splits if_splits)
qed simp

lemma addConstraintInternal_more1:
  "addConstraintInternal opts n cs e \<noteq> OutOfFuel \<Longrightarrow>
   addConstraintInternal opts (Suc n) cs e = addConstraintInternal opts n cs e"
proof (induction n arbitrary: cs e)
  case (Suc n)
  have rw: "rewriteConstraints opts (addConstraintInternal opts n) cs r l \<noteq> OutOfFuel \<Longrightarrow>
      rewriteConstraints opts (addConstraintInternal opts (Suc n)) cs r l =
      rewriteConstraints opts (addConstraintInternal opts n) cs r l" for r l
    unfolding rewriteConstraints_def by (rule rewriteLoop_more [OF Suc.IH])
  show ?case
  proof (cases e)
    case (BinaryExpr k l r)
    with Suc.prems show ?thesis
      unfolding addConstraintInternal.simps(2) [of opts "Suc n" cs e] addConstraintInternal.simps(2) [of opts n cs e]
      by (auto intro!: rbind_more Suc.IH rw simp del: addConstraintInternal.simps)
  qed auto
qed simp

lemma addConstraintInternal_more:
  "n \<le> k \<Longrightarrow> addConstraintInternal opts n cs e \<noteq> OutOfFuel \<Longrightarrow>
   addConstraintInternal opts k cs e = addConstraintInternal opts n cs e"
  by (induction k rule: dec_induct) (simp_all add: addConstraintInternal_more1 del: addConstraintInternal.simps)

lemma replaceFn_returns: "replaceFn opts src dst s e \<noteq> OutOfFuel"
  unfolding replaceFn_def by (rule replace_structural.visit_returns) simp

text \<open>The loop ends when \<open>addConstraintInternal\<close> does on lighter lists.\<close>

lemma rewriteLoop_ends:
  assumes "\<And>cs e. totalWeight cs + weight e < N \<Longrightarrow> \<exists>n. addConstraintInternal opts n cs e \<noteq> OutOfFuel"
  shows "totalWeight cs + totalWeight old \<le> N \<Longrightarrow> tableOK lighter s \<Longrightarrow>
    \<exists>n. rewriteLoop (addConstraintInternal opts n) (replaceFn opts src (ConstantExpr c)) s cs ch old \<noteq> OutOfFuel"
proof (induction old arbitrary: s cs ch)
  case (Cons ce old)
  let ?vf = "replaceFn opts src (ConstantExpr c)"
  show ?case
  proof (cases "?vf s ce")
    case (Ok p)
    obtain e s1 where p: "p = (e, s1)" by (cases p)
    note l = soundFnD [OF replaceFn_lighter Ok [unfolded p] Cons.prems(2)]
    show ?thesis
    proof (cases "e = ce")
      case True
      with Cons.IH [of "cs @ [ce]" s1 ch] Cons.prems l Ok p show ?thesis by simp
    next
      case False
      with l have w: "weight e < weight ce" by (simp add: lighter_def [of ce])
      with assms [of cs e] Cons.prems(1) obtain n where n: "addConstraintInternal opts n cs e \<noteq> OutOfFuel" by auto
      show ?thesis
      proof (cases "addConstraintInternal opts n cs e")
        case (Ok cs1)
        from addConstraintInternal_weight [OF this] w Cons.prems(1) have "totalWeight cs1 + totalWeight old \<le> N" by simp
        with Cons.IH [of cs1 s1 True] l obtain n' where
          n': "rewriteLoop (addConstraintInternal opts n') ?vf s1 cs1 True old \<noteq> OutOfFuel" by auto
        let ?M = "max n n'"
        have "addConstraintInternal opts ?M cs e = Ok cs1"
          using addConstraintInternal_more [of n ?M opts cs e] n Ok by simp
        moreover have "rewriteLoop (addConstraintInternal opts ?M) ?vf s1 cs1 True old \<noteq> OutOfFuel"
          using rewriteLoop_more [of "addConstraintInternal opts n'" "addConstraintInternal opts ?M"]
            addConstraintInternal_more [of n' ?M opts] n' by simp
        ultimately show ?thesis
          using \<open>?vf s ce = Ok p\<close> p False by (intro exI [of _ ?M]) simp
      qed (use n \<open>?vf s ce = Ok p\<close> p False in \<open>auto intro!: exI [of _ n]\<close>)
    qed
  qed (use replaceFn_returns in auto)
qed simp

lemma addConstraintInternal_ends:
  "\<exists>n. addConstraintInternal opts n (fst p) (snd p) \<noteq> OutOfFuel"
proof (induction p rule: wf_induct_rule [OF wf_measures
      [of "[\<lambda>(cs, e). totalWeight cs + weight e, \<lambda>(cs, e). size e]"]])
  case (1 p)
  obtain cs e where p: "p = (cs, e)" by (cases p)
  have IH: "\<exists>n. addConstraintInternal opts n cs' e' \<noteq> OutOfFuel"
    if "totalWeight cs' + weight e' < totalWeight cs + weight e \<or>
      totalWeight cs' + weight e' \<le> totalWeight cs + weight e \<and> size e' < size e" for cs' e'
    using 1 [of "(cs', e')"] that by (auto simp: p le_eq_less_or_eq)
  show ?case
  proof (cases e)
    case (BinaryExpr k l r)
    show ?thesis
    proof (cases "k = And")
      case True
      have wt: "weight l + weight r \<le> weight e" "size l < size e" "size r < size e" using BinaryExpr by simp_all
      then have "\<exists>n. addConstraintInternal opts n cs l \<noteq> OutOfFuel" by (intro IH) auto
      then obtain n where n: "addConstraintInternal opts n cs l \<noteq> OutOfFuel" by blast
      show ?thesis
      proof (cases "addConstraintInternal opts n cs l")
        case (Ok cs1)
        from addConstraintInternal_weight [OF this] wt have "\<exists>n. addConstraintInternal opts n cs1 r \<noteq> OutOfFuel"
          by (intro IH) auto
        then obtain n' where n': "addConstraintInternal opts n' cs1 r \<noteq> OutOfFuel" by blast
        have "addConstraintInternal opts (Suc (max n n')) cs e \<noteq> OutOfFuel"
          using addConstraintInternal_more [of n "max n n'" opts cs l] addConstraintInternal_more [of n' "max n n'" opts cs1 r]
            n n' Ok BinaryExpr True by (simp add: rbind_eq_OutOfFuel)
        then show ?thesis by (auto simp: p simp del: addConstraintInternal.simps)
      qed (use n BinaryExpr True in \<open>auto simp: p intro!: exI [of _ "Suc n"]\<close>)
    next
      case False
      show ?thesis
      proof (cases "k = Eq \<and> RewriteEqualities opts \<and> isConstantExpr l")
        case True
        then obtain c where l: "l = ConstantExpr c" by (auto elim: isConstantExprE)
        have "\<exists>n. rewriteLoop (addConstraintInternal opts n) (replaceFn opts r l) [] [] False cs \<noteq> OutOfFuel"
          unfolding l by (rule rewriteLoop_ends [where N = "totalWeight cs + weight e"]) (use IH in auto)
        then obtain n where "rewriteLoop (addConstraintInternal opts n) (replaceFn opts r l) [] [] False cs \<noteq> OutOfFuel" by blast
        then have "addConstraintInternal opts (Suc n) cs e \<noteq> OutOfFuel"
          using True BinaryExpr by (auto simp: rbind_eq_OutOfFuel rewriteConstraints_def)
        then show ?thesis by (auto simp: p simp del: addConstraintInternal.simps)
      qed (use False BinaryExpr in \<open>auto simp: p intro!: exI [of _ 1] split: if_splits\<close>)
    qed
  qed (auto simp: p intro!: exI [of _ 1] split: if_splits)
qed

lemma simplifyExpr_more:
  assumes "simplifyExpr opts n cs e \<noteq> OutOfFuel" "n \<le> k"
  shows "simplifyExpr opts k cs e = simplifyExpr opts n cs e"
proof (cases "isConstantExpr e")
  case False
  with assms(1) have v: "visit (ConstArrayOpt opts) (UseVisitorHash opts) (ExprReplaceVisitor2 (foldl insertEquality [] cs)) n [] e \<noteq> OutOfFuel"
    by (auto simp: simplifyExpr_def)
  show ?thesis unfolding simplifyExpr_def replace2.visit_enough [OF v assms(2)] ..
qed (simp add: simplifyExpr_def)

lemma simplifyExpr_ends:
  "\<exists>n. \<forall>k \<ge> n. simplifyExpr opts k cs e = simplifyExpr opts n cs e \<and> simplifyExpr opts n cs e \<noteq> OutOfFuel"
proof -
  obtain n where "visit (ConstArrayOpt opts) (UseVisitorHash opts) (ExprReplaceVisitor2 (foldl insertEquality [] cs)) n [] e \<noteq> OutOfFuel"
    using replace2.visit_ends [OF tableOK_Nil] by blast
  then have n: "simplifyExpr opts n cs e \<noteq> OutOfFuel"
    by (auto simp: simplifyExpr_def rbind_eq_OutOfFuel simp del: visit.simps)
  with simplifyExpr_more [OF n] show ?thesis by blast
qed

lemma addConstraint_ends:
  "\<exists>n. \<forall>k \<ge> n. addConstraint opts k cs e = addConstraint opts n cs e \<and> addConstraint opts n cs e \<noteq> OutOfFuel"
proof -
  obtain n where n: "\<And>k. n \<le> k \<Longrightarrow> simplifyExpr opts k cs e = simplifyExpr opts n cs e" "simplifyExpr opts n cs e \<noteq> OutOfFuel"
    using simplifyExpr_ends [of opts cs e] by blast
  show ?thesis
  proof (cases "simplifyExpr opts n cs e")
    case (Ok e1)
    obtain n' where n': "addConstraintInternal opts n' cs e1 \<noteq> OutOfFuel"
      using addConstraintInternal_ends [of opts "(cs, e1)"] by auto
    have eq: "addConstraint opts k cs e = addConstraintInternal opts n' cs e1" if "max n n' \<le> k" for k
    proof -
      have "simplifyExpr opts k cs e = Ok e1" using n(1) [of k] that Ok by simp
      moreover have "addConstraintInternal opts k cs e1 = addConstraintInternal opts n' cs e1"
        using addConstraintInternal_more [OF _ n', of k] that by simp
      ultimately show ?thesis by (simp add: addConstraint_def)
    qed
    show ?thesis
      by (rule exI [of _ "max n n'"]) (simp add: eq n')
  next
    case Abort
    then have ab: "addConstraint opts k cs e = Abort" if "n \<le> k" for k
      using n(1) [OF that] by (simp add: addConstraint_def)
    show ?thesis by (rule exI [of _ n]) (simp add: ab)
  qed (use n(2) in simp)
qed

section \<open>Properties\<close>

definition exampleOptions :: options where
  "exampleOptions = \<lparr>ConstArrayOpt = False, UseVisitorHash = True, RewriteEqualities = True\<rparr>"

lemma exampleOptions_simps [simp]:
  "ConstArrayOpt exampleOptions = False" "UseVisitorHash exampleOptions = True" "RewriteEqualities exampleOptions = True"
  by (simp_all add: exampleOptions_def)

text \<open>
  C18: \<open>ConstraintManager::addConstraint\<close> keeps the path condition: the new list holds boolean
  expressions, every model of the old list and the constraint is a model of the new list, and
  for constraints without divisions no other total environment becomes one.
\<close>

theorem addConstraint_correct:
  assumes "addConstraint opts n cs e = Ok cs'" "wf_constraints (e # cs)" "wf_env (ConstArrayOpt opts) \<sigma>"
  shows "wf_constraints cs' \<and> (satisfied \<sigma> (e # cs) \<longrightarrow> satisfied \<sigma> cs') \<and>
    (divFreeAll S (e # cs) \<and> totalOn S \<sigma> \<longrightarrow> satisfied \<sigma> cs' = satisfied \<sigma> (e # cs))"
  using sameModelsD [OF addConstraint_models [OF assms(1)] assms(2)] assms(3) by blast

theorem addConstraint_correct_witness:
  "addConstraint exampleOptions 4 [BinaryExpr Ult (bufAt 0) (bufAt 1)] (EqExpr (c8 5) (bufAt 0)) =
     Ok [BinaryExpr Ult (c8 5) (bufAt 1), EqExpr (c8 5) (bufAt 0)] \<and>
   wf_constraints [BinaryExpr Ult (c8 5) (bufAt 1), EqExpr (c8 5) (bufAt 0)]"
proof -
  have run: "addConstraint exampleOptions 4 [BinaryExpr Ult (bufAt 0) (bufAt 1)] (EqExpr (c8 5) (bufAt 0)) =
      Ok [BinaryExpr Ult (c8 5) (bufAt 1), EqExpr (c8 5) (bufAt 0)]"
    by code_simp
  show ?thesis
    using addConstraint_correct [OF run, of "env8 5" "{}"] run by (simp add: example_simps)
qed

text \<open>
  C19: adding a constraint ends, although rewriting a constraint may add further equalities and
  rewrite again: from some amount of fuel on the result is fixed, and it is a new list or the
  failed assertion on a false constraint.
\<close>

theorem addConstraint_terminates:
  "\<exists>n r. r \<noteq> OutOfFuel \<and> (\<forall>k. addConstraint opts (n + k) cs e = r)"
  using addConstraint_ends [of opts cs e] by (metis le_add1)

text \<open>
  C20: \<open>simplifyExpr\<close> ends, and its result has the type of the expression and its value in
  every model of the constraints.
\<close>

theorem simplifyExpr_correct:
  "\<exists>n r. r \<noteq> OutOfFuel \<and> (\<forall>k. simplifyExpr opts (n + k) cs e = r) \<and>
     (\<forall>e' \<sigma> v. r = Ok e' \<and> wf_constraints cs \<and> wf_expr e \<and> wf_env (ConstArrayOpt opts) \<sigma> \<and>
        satisfied \<sigma> cs \<and> sem \<sigma> e = Some v \<longrightarrow>
        wf_expr e' \<and> getWidth e' = getWidth e \<and> sem \<sigma> e' = Some v)"
proof -
  obtain n where n: "\<And>k. n \<le> k \<Longrightarrow> simplifyExpr opts k cs e = simplifyExpr opts n cs e" "simplifyExpr opts n cs e \<noteq> OutOfFuel"
    using simplifyExpr_ends [of opts cs e] by blast
  have "simplifyExpr opts (n + k) cs e = simplifyExpr opts n cs e" for k by (rule n(1)) simp
  then show ?thesis
    using n(2) simplifyExpr_sound [of opts n cs e] unfolding refinesOn_def by blast
qed

theorem simplifyExpr_correct_witness:
  "\<exists>n e'. simplifyExpr exampleOptions n [EqExpr (c8 5) (bufAt 0)] (AddExpr (bufAt 1) (bufAt 0)) = Ok e' \<and>
     getWidth e' = 8 \<and> sem (env8 5) e' = Some 10"
proof -
  let ?cs = "[EqExpr (c8 5) (bufAt 0)]" and ?e = "AddExpr (bufAt 1) (bufAt 0)"
  have run: "simplifyExpr exampleOptions 6 ?cs ?e = Ok (AddExpr (c8 5) (bufAt 1))"
    by code_simp
  obtain n r where r: "\<And>k. simplifyExpr exampleOptions (n + k) ?cs ?e = r"
    "\<forall>e' \<sigma> v. r = Ok e' \<and> wf_constraints ?cs \<and> wf_expr ?e \<and> wf_env False \<sigma> \<and>
        satisfied \<sigma> ?cs \<and> sem \<sigma> ?e = Some v \<longrightarrow> wf_expr e' \<and> getWidth e' = getWidth ?e \<and> sem \<sigma> e' = Some v"
    using simplifyExpr_correct [of exampleOptions ?cs ?e] by auto
  have "r = Ok (AddExpr (c8 5) (bufAt 1))"
    using r(1) [of 6] simplifyExpr_more [of exampleOptions 6 ?cs ?e "n + 6"] run by simp
  with r(2) [rule_format, of "AddExpr (c8 5) (bufAt 1)" "env8 5" 10] run show ?thesis
    by (intro exI [of _ 6] exI [of _ "AddExpr (c8 5) (bufAt 1)"]) (simp add: example_simps)
qed

end
