(* ===== verification/Solver.thy ===== *)
theory Solver
  imports Constraints
begin

text \<open>
  Solver queries (\<open>include/klee/Solver/Solver.h\<close>, \<open>lib/Solver/Solver.cpp\<close>,
  \<open>lib/Solver/SolverImpl.cpp\<close>). A solver implementation is a record of its virtual methods. A method
  may change the state of the solver (a cache, for example), it may fail (\<open>None\<close>, the return value
  false of the source), and a failed assertion is \<open>Abort\<close>.
\<close>

section \<open>Definitions\<close>

type_synonym ('q, 'a) query = "'q \<Rightarrow> ('a option \<times> 'q) result"

definition qreturn :: "'a \<Rightarrow> ('q, 'a) query" where
  "qreturn x q = Ok (Some x, q)"

definition qabort :: "('q, 'a) query" where
  "qabort q = Abort"

text \<open>\<open>if (!m(x)) return false; f(x)\<close>\<close>

definition qbind :: "('q, 'a) query \<Rightarrow> ('a \<Rightarrow> ('q, 'b) query) \<Rightarrow> ('q, 'b) query" where
  "qbind m f q = rbind (m q) (\<lambda>(r, q'). case r of None \<Rightarrow> Ok (None, q') | Some x \<Rightarrow> f x q')"

record Query =
  constraints :: "expr list"
  qexpr :: expr

definition withExpr :: "Query \<Rightarrow> expr \<Rightarrow> Query" where
  "withExpr Q e = Q\<lparr>qexpr := e\<rparr>"

definition withFalse :: "Query \<Rightarrow> Query" where
  "withFalse Q = withExpr Q (ConstantExpr (alloc 0 1))"

definition negateExpr :: "bool \<Rightarrow> Query \<Rightarrow> Query" where
  "negateExpr co Q = withExpr Q (createIsZero co (qexpr Q))"

datatype Validity = VTrue | VFalse | VUnknown

record 'q SolverImpl =
  computeTruth :: "Query \<Rightarrow> ('q, bool) query"
  computeValidity :: "Query \<Rightarrow> ('q, Validity) query"
  computeValue :: "Query \<Rightarrow> ('q, expr) query"
  computeInitialValues :: "Query \<Rightarrow> Array list \<Rightarrow> ('q, int list list \<times> bool) query"

text \<open>The implementation \<open>SolverImpl::computeValidity\<close> that the classes inherit.\<close>

definition SolverImpl_computeValidity :: "bool \<Rightarrow> (Query \<Rightarrow> ('q, bool) query) \<Rightarrow> Query \<Rightarrow> ('q, Validity) query" where
  "SolverImpl_computeValidity co truth Q =
     qbind (truth Q) (\<lambda>isTrue.
       if isTrue then qreturn VTrue
       else qbind (truth (negateExpr co Q)) (\<lambda>isFalse. qreturn (if isFalse then VFalse else VUnknown)))"

subsection \<open>The interface of the solvers\<close>

definition Solver_evaluate :: "'q SolverImpl \<Rightarrow> Query \<Rightarrow> ('q, Validity) query" where
  "Solver_evaluate S Q =
     (if getWidth (qexpr Q) \<noteq> 1 then qabort
      else (case qexpr Q of
              ConstantExpr CE \<Rightarrow> qreturn (if isTrue CE then VTrue else VFalse)
            | _ \<Rightarrow> computeValidity S Q))"

definition Solver_mustBeTrue :: "'q SolverImpl \<Rightarrow> Query \<Rightarrow> ('q, bool) query" where
  "Solver_mustBeTrue S Q =
     (if getWidth (qexpr Q) \<noteq> 1 then qabort
      else (case qexpr Q of
              ConstantExpr CE \<Rightarrow> qreturn (isTrue CE)
            | _ \<Rightarrow> computeTruth S Q))"

definition Solver_mustBeFalse :: "bool \<Rightarrow> 'q SolverImpl \<Rightarrow> Query \<Rightarrow> ('q, bool) query" where
  "Solver_mustBeFalse co S Q = Solver_mustBeTrue S (negateExpr co Q)"

definition Solver_mayBeTrue :: "bool \<Rightarrow> 'q SolverImpl \<Rightarrow> Query \<Rightarrow> ('q, bool) query" where
  "Solver_mayBeTrue co S Q = qbind (Solver_mustBeFalse co S Q) (\<lambda>res. qreturn (\<not> res))"

definition Solver_mayBeFalse :: "'q SolverImpl \<Rightarrow> Query \<Rightarrow> ('q, bool) query" where
  "Solver_mayBeFalse S Q = qbind (Solver_mustBeTrue S Q) (\<lambda>res. qreturn (\<not> res))"

definition Solver_getValue :: "'q SolverImpl \<Rightarrow> Query \<Rightarrow> ('q, apint) query" where
  "Solver_getValue S Q =
     (case qexpr Q of
        ConstantExpr CE \<Rightarrow> qreturn CE
      | _ \<Rightarrow> qbind (computeValue S Q) (\<lambda>tmp. case tmp of ConstantExpr CE \<Rightarrow> qreturn CE | _ \<Rightarrow> qabort))"

definition Solver_getInitialValues :: "'q SolverImpl \<Rightarrow> Query \<Rightarrow> Array list \<Rightarrow> ('q, int list list) query" where
  "Solver_getInitialValues S Q objects =
     qbind (computeInitialValues S Q objects) (\<lambda>(vals, hasSolution) q.
       if hasSolution then Ok (Some vals, q) else Ok (None, q))"

subsection \<open>Ranges\<close>

text \<open>
  The binary searches of \<open>getRange\<close>; a failure of the solver is a failed assertion. The numbers
  are unsigned 64-bit integers that stay below \<open>hi\<close>, so that no operation on them wraps.
\<close>

definition answered :: "('a option \<times> 'q) result \<Rightarrow> ('a \<times> 'q) result" where
  "answered m = rbind m (\<lambda>(r, q). case r of None \<Rightarrow> Abort | Some x \<Rightarrow> Ok (x, q))"

function binarySearch :: "(nat \<Rightarrow> ('q, bool) query) \<Rightarrow> nat \<Rightarrow> nat \<Rightarrow> 'q \<Rightarrow> (nat \<times> 'q) result" where
  "binarySearch probe lo hi q =
     (if lo < hi
      then
        (case answered (probe (lo + (hi - lo) div 2) q) of
           Ok (res, q') \<Rightarrow>
             if res then binarySearch probe lo (lo + (hi - lo) div 2) q'
             else binarySearch probe (lo + (hi - lo) div 2 + 1) hi q'
         | Abort \<Rightarrow> Abort
         | OutOfFuel \<Rightarrow> OutOfFuel)
      else Ok (lo, q))"
  by pat_completeness auto
termination
  by (relation "measure (\<lambda>(probe, lo, hi, q). hi - lo)") auto

definition maxValueOfNBits :: "nat \<Rightarrow> nat result" where
  "maxValueOfNBits N = (if N > 64 then Abort else Ok (if N = 0 then 0 else (2 ^ 64 - 1) div 2 ^ (64 - N)))"

definition rangeExpr :: "nat \<Rightarrow> nat \<Rightarrow> expr" where
  "rangeExpr w n = ConstantExpr (alloc (int n) w)"

definition Solver_searchRange :: "bool \<Rightarrow> 'q SolverImpl \<Rightarrow> Query \<Rightarrow> 'q \<Rightarrow> ((expr \<times> expr) \<times> 'q) result" where
  "Solver_searchRange co S Q q =
     (let e = qexpr Q; w = getWidth e
      in rbind (binarySearch (\<lambda>mid. Solver_mustBeTrue S (withExpr Q
           (EqExpr_create co (LShrExpr_create co e (rangeExpr w mid)) (rangeExpr w 0)))) 0 w q) (\<lambda>(bits, q1).
         rbind (answered (Solver_mayBeTrue co S (withExpr Q (EqExpr_create co e (rangeExpr w 0))) q1)) (\<lambda>(res, q2).
         rbind
           (if res then Ok (0, q2)
            else rbind (maxValueOfNBits bits) (\<lambda>hi.
              binarySearch (\<lambda>mid. Solver_mayBeTrue co S (withExpr Q (UleExpr_create co e (rangeExpr w mid)))) 0 hi q2)) (\<lambda>(mn, q3).
         rbind (maxValueOfNBits bits) (\<lambda>hi.
         rbind (binarySearch (\<lambda>mid. Solver_mustBeTrue S (withExpr Q (UleExpr_create co e (rangeExpr w mid)))) mn hi q3)
           (\<lambda>(mx, q4). Ok ((rangeExpr w mn, rangeExpr w mx), q4)))))))"

definition Solver_getRange :: "bool \<Rightarrow> 'q SolverImpl \<Rightarrow> Query \<Rightarrow> 'q \<Rightarrow> ((expr \<times> expr) \<times> 'q) result" where
  "Solver_getRange co S Q q =
     (let w = getWidth (qexpr Q)
      in if w = 1
         then rbind (answered (Solver_evaluate S Q q)) (\<lambda>(v, q').
           Ok (case v of
                 VTrue \<Rightarrow> (rangeExpr w 1, rangeExpr w 1)
               | VFalse \<Rightarrow> (rangeExpr w 0, rangeExpr w 0)
               | VUnknown \<Rightarrow> (rangeExpr w 0, rangeExpr w 1), q'))
         else (case qexpr Q of
           ConstantExpr CE \<Rightarrow>
             if w > 64 then Abort else Ok ((rangeExpr w (nat (apValue CE)), rangeExpr w (nat (apValue CE))), q)
         | _ \<Rightarrow> Solver_searchRange co S Q q))"

section \<open>What a solver promises\<close>

text \<open>
  The environments of \<open>U\<close> that satisfy the constraints, and the documented meaning of the four
  methods of a solver: validity and truth quantify over these environments, a value is taken in one
  of them, and initial values describe one in which the expression of the query is false. The
  expression of a query has a value in each of them.
\<close>

definition modelsOf :: "env set \<Rightarrow> expr list \<Rightarrow> env set" where
  "modelsOf U cs = {\<sigma> \<in> U. satisfied \<sigma> cs}"

definition validIn :: "env set \<Rightarrow> Query \<Rightarrow> bool" where
  "validIn U Q \<longleftrightarrow> (\<forall>\<sigma> \<in> modelsOf U (constraints Q). sem \<sigma> (qexpr Q) = Some 1)"

definition unsatIn :: "env set \<Rightarrow> Query \<Rightarrow> bool" where
  "unsatIn U Q \<longleftrightarrow> (\<forall>\<sigma> \<in> modelsOf U (constraints Q). sem \<sigma> (qexpr Q) = Some 0)"

definition validityIn :: "env set \<Rightarrow> Query \<Rightarrow> Validity" where
  "validityIn U Q = (if validIn U Q then VTrue else if unsatIn U Q then VFalse else VUnknown)"

definition valueIn :: "env set \<Rightarrow> Query \<Rightarrow> apint \<Rightarrow> bool" where
  "valueIn U Q c \<longleftrightarrow>
     wf_const c \<and> bitWidth c = getWidth (qexpr Q) \<and> (\<exists>\<sigma> \<in> modelsOf U (constraints Q). sem \<sigma> (qexpr Q) = Some (apValue c))"

definition initialIn :: "env set \<Rightarrow> Query \<Rightarrow> Array list \<Rightarrow> int list list \<Rightarrow> bool" where
  "initialIn U Q objects vals \<longleftrightarrow>
     length vals = length objects \<and>
     (\<exists>\<sigma> \<in> modelsOf U (constraints Q). sem \<sigma> (qexpr Q) = Some 0 \<and>
        (\<forall>i < length objects. length (vals ! i) = asize (objects ! i) \<and>
           (\<forall>j < asize (objects ! i). \<sigma> (objects ! i) (int j) = Some (vals ! i ! j))))"

definition definedOn :: "env set \<Rightarrow> Array list \<Rightarrow> bool" where
  "definedOn U objects \<longleftrightarrow> (\<forall>\<sigma> \<in> U. \<forall>A \<in> set objects. \<forall>j < asize A. \<sigma> A (int j) \<noteq> None)"

definition okQuery :: "env set \<Rightarrow> Query \<Rightarrow> bool" where
  "okQuery U Q \<longleftrightarrow>
     wf_constraints (constraints Q) \<and> wf_expr (qexpr Q) \<and> (\<forall>\<sigma> \<in> modelsOf U (constraints Q). sem \<sigma> (qexpr Q) \<noteq> None)"

text \<open>
  A method ends, keeps the invariant of the solver's state, and when it succeeds its result is
  right; with \<open>reliable\<close> it always succeeds.
\<close>

definition returns :: "bool \<Rightarrow> ('q \<Rightarrow> bool) \<Rightarrow> ('q, 'a) query \<Rightarrow> ('a \<Rightarrow> bool) \<Rightarrow> bool" where
  "returns reliable I m P \<longleftrightarrow>
     (\<forall>q. I q \<longrightarrow> (\<exists>r q'. m q = Ok (r, q') \<and> I q' \<and> (\<forall>x. r = Some x \<longrightarrow> P x) \<and> (reliable \<longrightarrow> r \<noteq> None)))"

lemma returns_qreturn [simp]: "P x \<Longrightarrow> returns reliable I (qreturn x) P"
  by (simp add: returns_def qreturn_def)

lemma returns_qbind:
  assumes "returns reliable I m P" "\<And>x. P x \<Longrightarrow> returns reliable I (f x) R"
  shows "returns reliable I (qbind m f) R"
  unfolding returns_def
proof (intro allI impI)
  fix q assume "I q"
  with assms(1) obtain r q' where m: "m q = Ok (r, q')" "I q'" "\<And>x. r = Some x \<Longrightarrow> P x" "reliable \<Longrightarrow> r \<noteq> None"
    unfolding returns_def by blast
  show "\<exists>r q'. qbind m f q = Ok (r, q') \<and> I q' \<and> (\<forall>x. r = Some x \<longrightarrow> R x) \<and> (reliable \<longrightarrow> r \<noteq> None)"
  proof (cases r)
    case None
    with m show ?thesis by (auto simp: qbind_def)
  next
    case (Some x)
    with assms(2) [of x] m show ?thesis by (auto simp: qbind_def returns_def)
  qed
qed

lemma returns_mono: "returns reliable I m P \<Longrightarrow> (\<And>x. P x \<Longrightarrow> R x) \<Longrightarrow> returns reliable I m R"
  unfolding returns_def by metis

locale solver_impl =
  fixes co :: bool and U :: "env set" and reliable :: bool and I :: "'q \<Rightarrow> bool" and S :: "'q SolverImpl"
  assumes wf_U: "\<sigma> \<in> U \<Longrightarrow> wf_env co \<sigma>"
    and truth: "okQuery U Q \<Longrightarrow> modelsOf U (constraints Q) \<noteq> {} \<Longrightarrow> getWidth (qexpr Q) = 1 \<Longrightarrow>
      returns reliable I (computeTruth S Q) (\<lambda>b. b = validIn U Q)"
    and validity: "okQuery U Q \<Longrightarrow> modelsOf U (constraints Q) \<noteq> {} \<Longrightarrow> getWidth (qexpr Q) = 1 \<Longrightarrow>
      returns reliable I (computeValidity S Q) (\<lambda>v. v = validityIn U Q)"
    and val: "okQuery U Q \<Longrightarrow> modelsOf U (constraints Q) \<noteq> {} \<Longrightarrow> \<not> isConstantExpr (qexpr Q) \<Longrightarrow>
      returns reliable I (computeValue S Q) (\<lambda>e. \<exists>c. e = ConstantExpr c \<and> valueIn U Q c)"
    and initial: "okQuery U Q \<Longrightarrow> getWidth (qexpr Q) = 1 \<Longrightarrow> definedOn U objects \<Longrightarrow>
      returns reliable I (computeInitialValues S Q objects)
        (\<lambda>(vals, hasSolution). (hasSolution \<longleftrightarrow> \<not> validIn U Q) \<and> (hasSolution \<longrightarrow> initialIn U Q objects vals))"

begin

lemma sem_of_refines:
  assumes "refines co e e'" "okQuery U (withExpr Q e)"
  shows "okQuery U (withExpr Q e')" "getWidth e' = getWidth e"
    "\<And>\<sigma>. \<sigma> \<in> modelsOf U (constraints Q) \<Longrightarrow> sem \<sigma> e' = sem \<sigma> e"
proof -
  have wf: "wf_expr e" "wf_constraints (constraints Q)" "\<And>\<sigma>. \<sigma> \<in> modelsOf U (constraints Q) \<Longrightarrow> sem \<sigma> e \<noteq> None"
    using assms(2) by (auto simp: okQuery_def withExpr_def)
  show w: "getWidth e' = getWidth e" using refinesD(2) [OF assms(1) wf(1)] .
  show eq: "sem \<sigma> e' = sem \<sigma> e" if "\<sigma> \<in> modelsOf U (constraints Q)" for \<sigma>
    using wf(3) [OF that] refinesD(3) [OF assms(1) wf(1)] wf_U that by (auto simp: modelsOf_def)
  show "okQuery U (withExpr Q e')" using wf eq refinesD(1) [OF assms(1) wf(1)] by (auto simp: okQuery_def withExpr_def)
qed

lemma query_negate:
  assumes "okQuery U Q" "getWidth (qexpr Q) = 1"
  shows "okQuery U (negateExpr co Q)" "getWidth (qexpr (negateExpr co Q)) = 1" "validIn U (negateExpr co Q) = unsatIn U Q"
    "unsatIn U (negateExpr co Q) = validIn U Q" "constraints (negateExpr co Q) = constraints Q"
proof -
  let ?z = "EqExpr (qexpr Q) (ConstantExpr (alloc 0 1))"
  have ok: "okQuery U (withExpr Q ?z)" using assms by (auto simp: okQuery_def withExpr_def kind_simps)
  have ref: "refines co ?z (createIsZero co (qexpr Q))" using createIsZero_sound [of co "qexpr Q"] assms(2) by simp
  note sr = sem_of_refines [OF ref ok]
  show "okQuery U (negateExpr co Q)" "getWidth (qexpr (negateExpr co Q)) = 1" "constraints (negateExpr co Q) = constraints Q"
    using sr by (simp_all add: negateExpr_def withExpr_def kind_simps)
  have v: "sem \<sigma> (createIsZero co (qexpr Q)) = Some (of_bool (sem \<sigma> (qexpr Q) = Some 0))"
    "sem \<sigma> (qexpr Q) = Some 0 \<or> sem \<sigma> (qexpr Q) = Some 1"
    if m: "\<sigma> \<in> modelsOf U (constraints Q)" for \<sigma>
  proof -
    obtain x where x: "sem \<sigma> (qexpr Q) = Some x" using assms(1) m by (auto simp: okQuery_def)
    have "wf_env co \<sigma>" "wf_expr (qexpr Q)" using wf_U m assms(1) by (auto simp: modelsOf_def okQuery_def)
    from sem_fits(1) [OF x this] have "x = 0 \<or> x = 1" using assms(2) by (simp add: fits_one_iff)
    with x sr(3) [OF m] show "sem \<sigma> (createIsZero co (qexpr Q)) = Some (of_bool (sem \<sigma> (qexpr Q) = Some 0))"
      "sem \<sigma> (qexpr Q) = Some 0 \<or> sem \<sigma> (qexpr Q) = Some 1" by (auto simp: kind_simps)
  qed
  show "validIn U (negateExpr co Q) = unsatIn U Q" "unsatIn U (negateExpr co Q) = validIn U Q"
    using v by (auto simp: validIn_def unsatIn_def negateExpr_def withExpr_def)
qed

lemma const_query:
  assumes "okQuery U Q" "modelsOf U (constraints Q) \<noteq> {}" "qexpr Q = ConstantExpr c" "getWidth (qexpr Q) = 1"
  shows "validIn U Q \<longleftrightarrow> isTrue c" "unsatIn U Q \<longleftrightarrow> \<not> isTrue c"
proof -
  have "wf_const c" "bitWidth c = 1" using assms(1,3,4) by (auto simp: okQuery_def)
  then have "apValue c = 0 \<or> apValue c = 1" by (auto simp: wf_const_def fits_one_iff)
  with assms \<open>bitWidth c = 1\<close> show "validIn U Q \<longleftrightarrow> isTrue c" "unsatIn U Q \<longleftrightarrow> \<not> isTrue c"
    by (auto simp: validIn_def unsatIn_def isTrue_def)
qed

lemma mustBeTrue:
  assumes "okQuery U Q" "modelsOf U (constraints Q) \<noteq> {}" "getWidth (qexpr Q) = 1"
  shows "returns reliable I (Solver_mustBeTrue S Q) (\<lambda>b. b = validIn U Q)"
proof (cases "isConstantExpr (qexpr Q)")
  case True
  then obtain c where "qexpr Q = ConstantExpr c" by (rule isConstantExprE)
  with const_query(1) [OF assms(1,2) this assms(3)] assms(3) show ?thesis by (simp add: Solver_mustBeTrue_def)
next
  case False
  with truth [OF assms] assms(3) show ?thesis by (cases "qexpr Q") (simp_all add: Solver_mustBeTrue_def)
qed

lemma evaluate:
  assumes "okQuery U Q" "modelsOf U (constraints Q) \<noteq> {}" "getWidth (qexpr Q) = 1"
  shows "returns reliable I (Solver_evaluate S Q) (\<lambda>v. v = validityIn U Q)"
proof (cases "isConstantExpr (qexpr Q)")
  case True
  then obtain c where "qexpr Q = ConstantExpr c" by (rule isConstantExprE)
  with const_query [OF assms(1,2) this assms(3)] assms(3) show ?thesis by (simp add: Solver_evaluate_def validityIn_def)
next
  case False
  with validity [OF assms] assms(3) show ?thesis by (cases "qexpr Q") (simp_all add: Solver_evaluate_def)
qed

lemma mustBeFalse:
  assumes "okQuery U Q" "modelsOf U (constraints Q) \<noteq> {}" "getWidth (qexpr Q) = 1"
  shows "returns reliable I (Solver_mustBeFalse co S Q) (\<lambda>b. b = unsatIn U Q)"
  using mustBeTrue [OF query_negate(1) [OF assms(1,3)]] query_negate [OF assms(1,3)] assms(2) by (simp add: Solver_mustBeFalse_def)

lemma may_of_must:
  assumes "returns reliable I m (\<lambda>b. b = B)"
  shows "returns reliable I (qbind m (\<lambda>res. qreturn (\<not> res))) (\<lambda>b. b = (\<not> B))"
  by (rule returns_qbind [OF assms]) simp

lemmas mayBeTrue = may_of_must [OF mustBeFalse, folded Solver_mayBeTrue_def]
lemmas mayBeFalse = may_of_must [OF mustBeTrue, folded Solver_mayBeFalse_def]

lemma getValue:
  assumes "okQuery U Q" "modelsOf U (constraints Q) \<noteq> {}"
  shows "returns reliable I (Solver_getValue S Q) (valueIn U Q)"
proof (cases "isConstantExpr (qexpr Q)")
  case True
  then obtain c where "qexpr Q = ConstantExpr c" by (rule isConstantExprE)
  with assms show ?thesis by (auto simp: Solver_getValue_def valueIn_def okQuery_def intro!: returns_qreturn)
next
  case False
  have "returns reliable I (qbind (computeValue S Q) (\<lambda>tmp. case tmp of ConstantExpr CE \<Rightarrow> qreturn CE | _ \<Rightarrow> qabort)) (valueIn U Q)"
    by (rule returns_qbind [OF val [OF assms False]]) auto
  with False show ?thesis by (cases "qexpr Q") (simp_all add: Solver_getValue_def)
qed

lemma getInitialValues:
  assumes "okQuery U Q" "getWidth (qexpr Q) = 1" "definedOn U objects" "\<not> validIn U Q"
  shows "returns reliable I (Solver_getInitialValues S Q objects) (initialIn U Q objects)"
  unfolding Solver_getInitialValues_def
  by (rule returns_qbind [OF initial [OF assms(1-3)]]) (use assms(4) in \<open>auto simp: returns_def\<close>)

text \<open>The default implementation of \<open>computeValidity\<close> fulfils its contract.\<close>

lemma default_validity:
  assumes "okQuery U Q" "modelsOf U (constraints Q) \<noteq> {}" "getWidth (qexpr Q) = 1"
  shows "returns reliable I (SolverImpl_computeValidity co (computeTruth S) Q) (\<lambda>v. v = validityIn U Q)"
  unfolding SolverImpl_computeValidity_def
proof (rule returns_qbind [OF truth [OF assms]])
  fix x assume x: "x = validIn U Q"
  note ng = query_negate [OF assms(1,3)]
  have neg: "returns reliable I (computeTruth S (negateExpr co Q)) (\<lambda>b. b = validIn U (negateExpr co Q))"
    using truth [OF ng(1) _ ng(2)] ng(5) assms(2) by simp
  show "returns reliable I (if x then qreturn VTrue else qbind (computeTruth S (negateExpr co Q))
      (\<lambda>isFalse. qreturn (if isFalse then VFalse else VUnknown))) (\<lambda>v. v = validityIn U Q)"
    using x ng(3)
    by (auto simp: validityIn_def intro!: returns_qreturn returns_qbind [OF neg])
qed

end

section \<open>Binary search\<close>

lemma binarySearch_least:
  assumes "\<And>m q. I q \<Longrightarrow> lo \<le> m \<Longrightarrow> m < hi \<Longrightarrow> \<exists>q'. probe m q = Ok (Some (P m), q') \<and> I q'"
    and "\<And>m n. P m \<Longrightarrow> m \<le> n \<Longrightarrow> P n" "P hi" "lo \<le> hi" "I q"
  shows "\<exists>n q'. binarySearch probe lo hi q = Ok (n, q') \<and> I q' \<and> lo \<le> n \<and> n \<le> hi \<and> P n \<and> (\<forall>m. lo \<le> m \<and> m < n \<longrightarrow> \<not> P m)"
  using assms
proof (induction probe lo hi q rule: binarySearch.induct)
  case (1 probe lo hi q)
  let ?mid = "lo + (hi - lo) div 2"
  show ?case
  proof (cases "lo < hi")
    case True
    then have mid: "lo \<le> ?mid" "?mid < hi" by auto
    with 1(3) [OF 1(7)] obtain q1 where q1: "probe ?mid q = Ok (Some (P ?mid), q1)" "I q1" by blast
    then have a: "answered (probe ?mid q) = Ok (P ?mid, q1)" by (simp add: answered_def)
    show ?thesis
    proof (cases "P ?mid")
      case p: True
      have "\<exists>n q'. binarySearch probe lo ?mid q1 = Ok (n, q') \<and> I q' \<and> lo \<le> n \<and> n \<le> ?mid \<and> P n \<and> (\<forall>m. lo \<le> m \<and> m < n \<longrightarrow> \<not> P m)"
        by (rule 1(1) [OF True a refl p _ 1(4) p mid(1) q1(2)]) (use 1(3) mid(2) in auto)
      then obtain n q' where n: "binarySearch probe lo ?mid q1 = Ok (n, q')" "I q'" "lo \<le> n" "n \<le> ?mid" "P n"
        "\<forall>m. lo \<le> m \<and> m < n \<longrightarrow> \<not> P m" by blast
      with True a p mid show ?thesis by (subst binarySearch.simps) (intro exI [of _ n] exI [of _ q'], simp)
    next
      case p: False
      have "\<exists>n q'. binarySearch probe (?mid + 1) hi q1 = Ok (n, q') \<and> I q' \<and> ?mid + 1 \<le> n \<and> n \<le> hi \<and> P n \<and> (\<forall>m. ?mid + 1 \<le> m \<and> m < n \<longrightarrow> \<not> P m)"
        by (rule 1(2) [OF True a refl p _ 1(4,5) _ q1(2)]) (use 1(3) mid in auto)
      then obtain n q' where n: "binarySearch probe (?mid + 1) hi q1 = Ok (n, q')" "I q'" "?mid + 1 \<le> n" "n \<le> hi" "P n"
        "\<forall>m. ?mid + 1 \<le> m \<and> m < n \<longrightarrow> \<not> P m" by blast
      have "\<not> P m" if "m \<le> ?mid" for m using 1(4) that p by blast
      with n have "\<forall>m. lo \<le> m \<and> m < n \<longrightarrow> \<not> P m" by (metis Suc_eq_plus1 not_less_eq_eq)
      with n True a p mid show ?thesis by (subst binarySearch.simps) (intro exI [of _ n] exI [of _ q'], simp)
    qed
  next
    case False
    with 1 show ?thesis by (subst binarySearch.simps) auto
  qed
qed

end
