(* ===== verification/SolverRange.thy ===== *)
theory SolverRange
  imports Solver
begin

text \<open>
  The range computed by \<open>Solver::getRange\<close> (\<open>lib/Solver/Solver.cpp\<close>) is the tight one its
  documentation promises, over any solver that keeps the contract of the implementations.
\<close>

declare binarySearch.simps [simp del]

lemma returns_reliable:
  assumes "returns True I m (\<lambda>b. b = B)" "I q"
  shows "\<exists>q'. m q = Ok (Some B, q') \<and> I q'"
  using assms unfolding returns_def by fastforce

lemma returns_answered:
  assumes "returns True I m (\<lambda>b. b = B)" "I q"
  shows "\<exists>q'. answered (m q) = Ok (B, q') \<and> I q'"
  using returns_reliable [OF assms] by (auto simp: answered_def)

definition tightRange :: "env set \<Rightarrow> Query \<Rightarrow> int \<Rightarrow> int \<Rightarrow> bool" where
  "tightRange U Q mn mx \<longleftrightarrow>
     (\<forall>\<sigma> \<in> modelsOf U (constraints Q). \<exists>v. sem \<sigma> (qexpr Q) = Some v \<and> mn \<le> v \<and> v \<le> mx) \<and>
     (\<exists>\<sigma> \<in> modelsOf U (constraints Q). sem \<sigma> (qexpr Q) = Some mn) \<and>
     (\<exists>\<sigma> \<in> modelsOf U (constraints Q). sem \<sigma> (qexpr Q) = Some mx)"

text \<open>The values of the expression of a query.\<close>

definition valuesOf :: "env set \<Rightarrow> Query \<Rightarrow> nat set" where
  "valuesOf U Q = {n. \<exists>\<sigma> \<in> modelsOf U (constraints Q). sem \<sigma> (qexpr Q) = Some (int n)}"

lemma pred_mult_div: "0 < x \<Longrightarrow> 0 < y \<Longrightarrow> (x * y - 1) div y = x - (1::nat)"
proof (cases x)
  case (Suc k)
  assume "0 < y"
  then have "x * y - 1 = (y - 1) + y * k" "((y - 1) + y * k) div y = k + (y - 1) div y"
    using Suc div_mult_self2 [of y "y - 1" k] by (simp_all add: mult.commute)
  with Suc \<open>0 < y\<close> show ?thesis by simp
qed simp

lemma maxValueOfNBits_eq: "n \<le> 64 \<Longrightarrow> maxValueOfNBits n = Ok (2 ^ n - 1)"
  using pred_mult_div [of "2 ^ n" "2 ^ (64 - n)"] by (auto simp: maxValueOfNBits_def simp flip: power_add)

context solver_impl
begin

lemma derived_valid:
  assumes "refines co e e'" "okQuery U (withExpr Q e)"
  shows "validIn U (withExpr Q e') \<longleftrightarrow> (\<forall>\<sigma> \<in> modelsOf U (constraints Q). sem \<sigma> e = Some 1)"
    "unsatIn U (withExpr Q e') \<longleftrightarrow> (\<forall>\<sigma> \<in> modelsOf U (constraints Q). sem \<sigma> e = Some 0)"
  using sem_of_refines(3) [OF assms] by (auto simp: validIn_def unsatIn_def withExpr_def)

text \<open>
  The queries of \<open>getRange\<close>: each compares the expression with a constant, and its answer is a
  statement on the set of values.
\<close>

lemma values_bound:
  assumes "okQuery U Q" "v \<in> valuesOf U Q"
  shows "v < 2 ^ getWidth (qexpr Q)"
proof -
  obtain \<sigma> where s: "\<sigma> \<in> modelsOf U (constraints Q)" "sem \<sigma> (qexpr Q) = Some (int v)" using assms(2) by (auto simp: valuesOf_def)
  then have "fits (getWidth (qexpr Q)) (int v)"
    using sem_fits(1) [OF s(2)] assms(1) wf_U by (auto simp: okQuery_def modelsOf_def)
  then have "int v < 2 ^ getWidth (qexpr Q)" by (simp add: fits_def)
  then show ?thesis by (metis of_nat_less_iff of_nat_numeral of_nat_power)
qed

lemma values_all:
  assumes "okQuery U Q"
  shows "(\<forall>\<sigma> \<in> modelsOf U (constraints Q). \<exists>v. sem \<sigma> (qexpr Q) = Some v \<and> P v) \<longleftrightarrow> (\<forall>n \<in> valuesOf U Q. P (int n))"
proof
  assume all: "\<forall>n \<in> valuesOf U Q. P (int n)"
  show "\<forall>\<sigma> \<in> modelsOf U (constraints Q). \<exists>v. sem \<sigma> (qexpr Q) = Some v \<and> P v"
  proof
    fix \<sigma> assume s: "\<sigma> \<in> modelsOf U (constraints Q)"
    then obtain v where v: "sem \<sigma> (qexpr Q) = Some v" using assms by (auto simp: okQuery_def)
    then have "0 \<le> v" using sem_fits(1) [OF v] assms s wf_U by (auto simp: okQuery_def modelsOf_def fits_def)
    with v s have "nat v \<in> valuesOf U Q" by (auto simp: valuesOf_def)
    with all v \<open>0 \<le> v\<close> show "\<exists>v. sem \<sigma> (qexpr Q) = Some v \<and> P v" by auto
  qed
qed (auto simp: valuesOf_def)

lemma compare_query:
  assumes "okQuery U Q" "refines co (BinaryExpr k l (rangeExpr w c)) e'" "\<not> isDivKind k" "isCmpKind k"
    and "wf_expr l" "getWidth l = w" "\<And>\<sigma> v. \<sigma> \<in> modelsOf U (constraints Q) \<Longrightarrow> sem \<sigma> (qexpr Q) = Some v \<Longrightarrow> sem \<sigma> l = Some (f v)"
    and "int c < 2 ^ w" "0 < w"
  shows "okQuery U (withExpr Q e')" "getWidth e' = 1"
    "validIn U (withExpr Q e') \<longleftrightarrow> (\<forall>n \<in> valuesOf U Q. bvVal k w (f (int n)) (int c) = 1)"
    "unsatIn U (withExpr Q e') \<longleftrightarrow> (\<forall>n \<in> valuesOf U Q. bvVal k w (f (int n)) (int c) = 0)"
proof -
  let ?e = "BinaryExpr k l (rangeExpr w c)"
  have s: "sem \<sigma> ?e = Some (bvVal k w (f v) (int c))" if "\<sigma> \<in> modelsOf U (constraints Q)" "sem \<sigma> (qexpr Q) = Some v" for \<sigma> v
    using assms(3,6,8) assms(7) [OF that] by (simp add: rangeExpr_def alloc_def)
  have ok: "okQuery U (withExpr Q ?e)"
    using assms(1,5,6,9) s by (force simp: okQuery_def withExpr_def rangeExpr_def)
  show "okQuery U (withExpr Q e')" "getWidth e' = 1" using sem_of_refines [OF assms(2) ok] assms(4) by (simp_all add: opWidth_def)
  have "(\<forall>\<sigma> \<in> modelsOf U (constraints Q). sem \<sigma> ?e = Some b) \<longleftrightarrow> (\<forall>n \<in> valuesOf U Q. bvVal k w (f (int n)) (int c) = b)" for b
    unfolding values_all [OF assms(1), of "\<lambda>v. bvVal k w (f v) (int c) = b", symmetric]
    using s assms(1) by (fastforce simp: okQuery_def)
  then show "validIn U (withExpr Q e') \<longleftrightarrow> (\<forall>n \<in> valuesOf U Q. bvVal k w (f (int n)) (int c) = 1)"
    "unsatIn U (withExpr Q e') \<longleftrightarrow> (\<forall>n \<in> valuesOf U Q. bvVal k w (f (int n)) (int c) = 0)"
    using derived_valid [OF assms(2) ok] by blast+
qed

lemma below_query:
  assumes "okQuery U Q" "modelsOf U (constraints Q) \<noteq> {}" "getWidth (qexpr Q) = w" "m < 2 ^ w" "0 < w"
  shows "returns reliable I (Solver_mustBeTrue S (withExpr Q (UleExpr_create co (qexpr Q) (rangeExpr w m))))
      (\<lambda>b. b = (\<forall>n \<in> valuesOf U Q. n \<le> m))"
    "returns reliable I (Solver_mayBeTrue co S (withExpr Q (UleExpr_create co (qexpr Q) (rangeExpr w m))))
      (\<lambda>b. b = (\<exists>n \<in> valuesOf U Q. n \<le> m))"
proof -
  have "int m < 2 ^ w" using assms(4) by (metis of_nat_less_iff of_nat_numeral of_nat_power)
  note q = compare_query [OF assms(1) cmp_create_sound(2) _ _ _ assms(3), of "\<lambda>v. v", OF _ _ _ _ this assms(5)]
  have ok: "okQuery U (withExpr Q (UleExpr_create co (qexpr Q) (rangeExpr w m)))"
    "getWidth (UleExpr_create co (qexpr Q) (rangeExpr w m)) = 1"
    "validIn U (withExpr Q (UleExpr_create co (qexpr Q) (rangeExpr w m))) \<longleftrightarrow> (\<forall>n \<in> valuesOf U Q. n \<le> m)"
    "unsatIn U (withExpr Q (UleExpr_create co (qexpr Q) (rangeExpr w m))) \<longleftrightarrow> (\<forall>n \<in> valuesOf U Q. \<not> n \<le> m)"
    using q assms(1) by (auto simp: okQuery_def isDivKind_def isCmpKind_def)
  from mustBeTrue [OF ok(1)] mayBeTrue [OF ok(1)] ok(2-4) assms(2) show
    "returns reliable I (Solver_mustBeTrue S (withExpr Q (UleExpr_create co (qexpr Q) (rangeExpr w m))))
      (\<lambda>b. b = (\<forall>n \<in> valuesOf U Q. n \<le> m))"
    "returns reliable I (Solver_mayBeTrue co S (withExpr Q (UleExpr_create co (qexpr Q) (rangeExpr w m))))
      (\<lambda>b. b = (\<exists>n \<in> valuesOf U Q. n \<le> m))"
    by (simp_all add: withExpr_def)
qed

lemma zero_query:
  assumes "okQuery U Q" "modelsOf U (constraints Q) \<noteq> {}" "getWidth (qexpr Q) = w" "0 < w"
  shows "returns reliable I (Solver_mayBeTrue co S (withExpr Q (EqExpr_create co (qexpr Q) (rangeExpr w 0)))) (\<lambda>b. b = (0 \<in> valuesOf U Q))"
proof -
  note q = compare_query [OF assms(1) EqExpr_create_sound _ _ _ assms(3), where f = "\<lambda>v. v" and c = 0, OF _ _ _ _ _ assms(4)]
  have ok: "okQuery U (withExpr Q (EqExpr_create co (qexpr Q) (rangeExpr w 0)))" "getWidth (EqExpr_create co (qexpr Q) (rangeExpr w 0)) = 1"
    "unsatIn U (withExpr Q (EqExpr_create co (qexpr Q) (rangeExpr w 0))) \<longleftrightarrow> 0 \<notin> valuesOf U Q"
    using q assms(1) by (auto simp: okQuery_def isDivKind_def isCmpKind_def)
  from mayBeTrue [OF ok(1)] ok(2,3) assms(2) show ?thesis by (simp add: withExpr_def)
qed

lemma bits_query:
  assumes "okQuery U Q" "modelsOf U (constraints Q) \<noteq> {}" "getWidth (qexpr Q) = w" "m < w"
  shows "returns reliable I (Solver_mustBeTrue S (withExpr Q (EqExpr_create co (LShrExpr_create co (qexpr Q) (rangeExpr w m)) (rangeExpr w 0))))
      (\<lambda>b. b = (\<forall>n \<in> valuesOf U Q. n < 2 ^ m))"
proof -
  let ?sh = "BinaryExpr LShr (qexpr Q) (rangeExpr w m)"
  let ?e = "EqExpr_create co (LShrExpr_create co (qexpr Q) (rangeExpr w m)) (rangeExpr w 0)"
  have r: "refines co (EqExpr ?sh (rangeExpr w 0)) ?e"
    by (rule refines_trans [OF refines_binary [OF shift_create_sound(2) refines_refl] EqExpr_create_sound])
  have m: "int m < 2 ^ w" using assms(4) less_exp [of w] by (metis less_trans of_nat_less_iff of_nat_numeral of_nat_power)
  have w: "wf_expr ?sh" "getWidth ?sh = w" using assms by (auto simp: okQuery_def rangeExpr_def opWidth_def isCmpKind_def)
  have s: "sem \<sigma> ?sh = Some (v div 2 ^ m)" if "sem \<sigma> (qexpr Q) = Some v" for \<sigma> v
    using that m assms(3,4) by (simp add: rangeExpr_def alloc_def isDivKind_def)
  have z: "(\<forall>n \<in> valuesOf U Q. int n div 2 ^ m = 0) \<longleftrightarrow> (\<forall>n \<in> valuesOf U Q. n < 2 ^ m)"
  proof (rule ball_cong [OF refl])
    fix n :: nat
    have "int n div 2 ^ m = int (n div 2 ^ m)" by (simp add: zdiv_int)
    then show "int n div 2 ^ m = 0 \<longleftrightarrow> n < 2 ^ m" by (simp add: div_eq_0_iff)
  qed
  have ok: "okQuery U (withExpr Q ?e)" "getWidth ?e = 1" "validIn U (withExpr Q ?e) \<longleftrightarrow> (\<forall>n \<in> valuesOf U Q. int n div 2 ^ m = 0)"
    using compare_query [OF assms(1) r _ _ w s] assms(4) by (auto simp: isDivKind_def isCmpKind_def)
  from mustBeTrue [OF ok(1)] ok(2,3) z assms(2) show ?thesis by (simp add: withExpr_def)
qed

end

text \<open>The result of the three searches on a set of numbers.\<close>

lemma least_greatest:
  assumes "V \<noteq> {}" "\<forall>n \<in> V. n \<le> mx" "mn \<le> mx"
    and "\<exists>n \<in> V. n \<le> mn" "\<forall>m < mn. \<not> (\<exists>n \<in> V. n \<le> m)" "\<forall>m. mn \<le> m \<and> m < mx \<longrightarrow> \<not> (\<forall>n \<in> V. n \<le> m)"
  shows "mn \<in> V \<and> mx \<in> V \<and> (\<forall>n \<in> V. mn \<le> n \<and> n \<le> (mx::nat))"
proof -
  have low: "\<forall>n \<in> V. mn \<le> n" using assms(5) by (meson leI le_refl)
  with assms(4) have mn: "mn \<in> V" by (metis le_antisym)
  have "mx \<in> V"
  proof (cases "mn = mx")
    case False
    with assms(3) have "mn \<le> mx - 1" "mx - 1 < mx" by auto
    with assms(6) obtain n where "n \<in> V" "\<not> n \<le> mx - 1" by blast
    with assms(2) have "n = mx" by fastforce
    with \<open>n \<in> V\<close> show ?thesis by simp
  qed (use mn in simp)
  with mn low assms(2) show ?thesis by auto
qed

context solver_impl
begin

lemma tight_of_values:
  assumes "okQuery U Q" "mn \<in> valuesOf U Q" "mx \<in> valuesOf U Q" "\<forall>n \<in> valuesOf U Q. mn \<le> n \<and> n \<le> mx"
  shows "tightRange U Q (int mn) (int mx)"
proof -
  have "\<forall>\<sigma> \<in> modelsOf U (constraints Q). \<exists>v. sem \<sigma> (qexpr Q) = Some v \<and> (int mn \<le> v \<and> v \<le> int mx)"
    by (rule values_all [OF assms(1), THEN iffD2]) (use assms(4) in auto)
  with assms(2,3) show ?thesis by (auto simp: tightRange_def valuesOf_def)
qed

lemma range_searches:
  assumes rel: reliable and ok: "okQuery U Q" and ne: "modelsOf U (constraints Q) \<noteq> {}" and e: "\<not> isConstantExpr (qexpr Q)"
    and w: "getWidth (qexpr Q) = w" "w \<noteq> 1" "w \<le> 64" and q: "I q"
  shows "\<exists>mn mx q'. Solver_getRange co S Q q = Ok ((rangeExpr w mn, rangeExpr w mx), q') \<and> I q' \<and> tightRange U Q (int mn) (int mx)"
proof -
  let ?V = "valuesOf U Q"
  have w0: "0 < w" using wf_expr_width_pos ok w(1) by (auto simp: okQuery_def)
  have V: "?V \<noteq> {}" using values_all [OF ok, of "\<lambda>v. False"] ne by auto
  have bound: "\<forall>n \<in> ?V. n < 2 ^ w" using values_bound [OF ok] w(1) by simp
  note rr = returns_reliable [where I = I] and ra = returns_answered [where I = I]
  have up: "\<forall>n \<in> ?V. n < 2 ^ l" if "\<forall>n \<in> ?V. n < 2 ^ k" "k \<le> l" for k l :: nat
    using that(1) power_increasing [OF that(2), of "2::nat"] by (auto intro: order_less_le_trans)
  have bq: "\<exists>q'. Solver_mustBeTrue S (withExpr Q (EqExpr_create co (LShrExpr_create co (qexpr Q) (rangeExpr w m)) (rangeExpr w 0))) q =
      Ok (Some (\<forall>n \<in> ?V. n < 2 ^ m), q') \<and> I q'" if "m < w" "I q" for m q
    by (rule rr [OF bits_query [OF ok ne w(1) that(1), unfolded rel [THEN eqTrueI]] that(2)])
  have "\<exists>n q'. binarySearch (\<lambda>mid. Solver_mustBeTrue S (withExpr Q
        (EqExpr_create co (LShrExpr_create co (qexpr Q) (rangeExpr w mid)) (rangeExpr w 0)))) 0 w q = Ok (n, q') \<and>
      I q' \<and> 0 \<le> n \<and> n \<le> w \<and> (\<forall>k \<in> ?V. k < 2 ^ n) \<and> (\<forall>m. 0 \<le> m \<and> m < n \<longrightarrow> \<not> (\<forall>k \<in> ?V. k < 2 ^ m))"
    by (rule binarySearch_least [where I = I])
      (rule bq, assumption, assumption, rule up, assumption, assumption, rule bound, rule le0, rule q)
  then obtain bits q1 where bits: "binarySearch (\<lambda>mid. Solver_mustBeTrue S (withExpr Q
        (EqExpr_create co (LShrExpr_create co (qexpr Q) (rangeExpr w mid)) (rangeExpr w 0)))) 0 w q = Ok (bits, q1)"
      "I q1" "bits \<le> w" "\<forall>n \<in> ?V. n < 2 ^ bits" by blast
  let ?hi = "2 ^ bits - 1 :: nat"
  have "m < 2 ^ w" if "m < ?hi" for m
  proof (rule order_less_le_trans [of _ "2 ^ bits"])
    show "m < 2 ^ bits" using that by linarith
  qed (use bits(3) in simp)
  then have hi: "maxValueOfNBits bits = Ok ?hi" "\<forall>n \<in> ?V. n \<le> ?hi" "m < ?hi \<Longrightarrow> m < 2 ^ w" for m
    using maxValueOfNBits_eq [of bits] bits(3,4) w(3) by auto
  have uq: "\<exists>q'. Solver_mayBeTrue co S (withExpr Q (UleExpr_create co (qexpr Q) (rangeExpr w m))) q = Ok (Some (\<exists>n \<in> ?V. n \<le> m), q') \<and> I q'"
      if "I q" "m < ?hi" for m q
    by (rule rr [OF below_query(2) [OF ok ne w(1) hi(3) [OF that(2)] w0, unfolded rel [THEN eqTrueI]] that(1)])
  have lq: "\<exists>q'. Solver_mustBeTrue S (withExpr Q (UleExpr_create co (qexpr Q) (rangeExpr w m))) q = Ok (Some (\<forall>n \<in> ?V. n \<le> m), q') \<and> I q'"
      if "I q" "m < ?hi" for m q
    by (rule rr [OF below_query(1) [OF ok ne w(1) hi(3) [OF that(2)] w0, unfolded rel [THEN eqTrueI]] that(1)])
  obtain q2 where q2: "answered (Solver_mayBeTrue co S (withExpr Q (EqExpr_create co (qexpr Q) (rangeExpr w 0))) q1) = Ok (0 \<in> ?V, q2)" "I q2"
    using ra [OF zero_query [OF ok ne w(1) w0, unfolded rel [THEN eqTrueI]] bits(2)] by blast
  obtain mn q3 where mn: "(if 0 \<in> ?V then Ok (0, q2) else rbind (maxValueOfNBits bits) (\<lambda>hi.
        binarySearch (\<lambda>mid. Solver_mayBeTrue co S (withExpr Q (UleExpr_create co (qexpr Q) (rangeExpr w mid)))) 0 hi q2)) = Ok (mn, q3)"
      "I q3" "\<exists>n \<in> ?V. n \<le> mn" "\<forall>m < mn. \<not> (\<exists>n \<in> ?V. n \<le> m)" "mn \<le> ?hi"
  proof (cases "0 \<in> ?V")
    case False
    have "\<exists>n q'. binarySearch (\<lambda>mid. Solver_mayBeTrue co S (withExpr Q (UleExpr_create co (qexpr Q) (rangeExpr w mid)))) 0 ?hi q2 = Ok (n, q') \<and>
        I q' \<and> 0 \<le> n \<and> n \<le> ?hi \<and> (\<exists>k \<in> ?V. k \<le> n) \<and> (\<forall>m. 0 \<le> m \<and> m < n \<longrightarrow> \<not> (\<exists>k \<in> ?V. k \<le> m))"
      by (rule binarySearch_least [where I = I])
        (rule uq, assumption, assumption, use V hi(2) q2(2) in \<open>auto intro: order_trans\<close>)
    with False hi(1) that show ?thesis by auto
  qed (use that [of 0 q2] q2 in auto)
  have "\<exists>n q'. binarySearch (\<lambda>mid. Solver_mustBeTrue S (withExpr Q (UleExpr_create co (qexpr Q) (rangeExpr w mid)))) mn ?hi q3 = Ok (n, q') \<and>
      I q' \<and> mn \<le> n \<and> n \<le> ?hi \<and> (\<forall>k \<in> ?V. k \<le> n) \<and> (\<forall>m. mn \<le> m \<and> m < n \<longrightarrow> \<not> (\<forall>k \<in> ?V. k \<le> m))"
    by (rule binarySearch_least [where I = I])
      (rule lq, assumption, assumption, use hi(2) mn(2,5) in \<open>auto intro: order_trans\<close>)
  then obtain mx q4 where mx: "binarySearch (\<lambda>mid. Solver_mustBeTrue S (withExpr Q (UleExpr_create co (qexpr Q) (rangeExpr w mid)))) mn ?hi q3 = Ok (mx, q4)"
      "I q4" "mn \<le> mx" "\<forall>k \<in> ?V. k \<le> mx" "\<forall>m. mn \<le> m \<and> m < mx \<longrightarrow> \<not> (\<forall>k \<in> ?V. k \<le> m)" by blast
  have "tightRange U Q (int mn) (int mx)"
    using tight_of_values [OF ok] least_greatest [OF V mx(4,3) mn(3,4) mx(5)] by blast
  moreover have "Solver_searchRange co S Q q = Ok ((rangeExpr w mn, rangeExpr w mx), q4)"
    unfolding Solver_searchRange_def Let_def w(1) bits(1) rbind.simps prod.case q2(1) mn(1)
    by (simp only: hi(1) mx(1) rbind.simps prod.case)
  then have "Solver_getRange co S Q q = Ok ((rangeExpr w mn, rangeExpr w mx), q4)"
    using e w(1,2) by (cases "qexpr Q") (simp_all add: Solver_getRange_def)
  ultimately show ?thesis using mx(2) by blast
qed

lemma range_tight:
  assumes rel: reliable and ok: "okQuery U Q" and ne: "modelsOf U (constraints Q) \<noteq> {}"
    and w: "getWidth (qexpr Q) = w" "w \<le> 64" and q: "I q"
  shows "\<exists>mn mx q'. Solver_getRange co S Q q = Ok ((rangeExpr w mn, rangeExpr w mx), q') \<and> I q' \<and> tightRange U Q (int mn) (int mx)"
proof -
  let ?V = "valuesOf U Q"
  have V: "?V \<noteq> {}" using values_all [OF ok, of "\<lambda>v. False"] ne by auto
  have bound: "\<forall>n \<in> ?V. n < 2 ^ w" using values_bound [OF ok] w(1) by simp
  consider (bool) "w = 1" | (const) c where "w \<noteq> 1" "qexpr Q = ConstantExpr c" | (search) "w \<noteq> 1" "\<not> isConstantExpr (qexpr Q)"
    by (cases "qexpr Q") auto
  then show ?thesis
  proof cases
    case bool
    obtain q' where q': "answered (Solver_evaluate S Q q) = Ok (validityIn U Q, q')" "I q'"
      using returns_answered [OF evaluate [OF ok ne, unfolded rel [THEN eqTrueI]] q] w(1) bool by blast
    have v: "validIn U Q \<longleftrightarrow> (\<forall>n \<in> ?V. n = 1)" "unsatIn U Q \<longleftrightarrow> (\<forall>n \<in> ?V. n = 0)"
      using values_all [OF ok, of "\<lambda>v. v = 1"] values_all [OF ok, of "\<lambda>v. v = 0"] by (auto simp: validIn_def unsatIn_def)
    define mn mx where "mn = (if validIn U Q then 1 else 0::nat)" and "mx = (if \<not> validIn U Q \<and> unsatIn U Q then 0 else 1::nat)"
    have "\<forall>n \<in> ?V. n = 0 \<or> n = 1" using bound bool by auto
    with V v have "mn \<in> ?V \<and> mx \<in> ?V \<and> (\<forall>n \<in> ?V. mn \<le> n \<and> n \<le> mx)" unfolding mn_def mx_def by auto
    with tight_of_values [OF ok] have "tightRange U Q (int mn) (int mx)" by blast
    moreover have "Solver_getRange co S Q q = Ok ((rangeExpr w mn, rangeExpr w mx), q')"
      using q'(1) w(1) bool by (simp add: Solver_getRange_def Let_def mn_def mx_def validityIn_def)
    ultimately show ?thesis using q'(2) by blast
  next
    case const
    have c: "0 \<le> apValue c" using ok const by (auto simp: okQuery_def wf_const_def fits_def)
    then have "?V = {nat (apValue c)}" using ne const(2) by (auto simp: valuesOf_def)
    then have "tightRange U Q (int (nat (apValue c))) (int (nat (apValue c)))" by (intro tight_of_values [OF ok]) auto
    moreover have "Solver_getRange co S Q q = Ok ((rangeExpr w (nat (apValue c)), rangeExpr w (nat (apValue c))), q)"
      using const w by (simp add: Solver_getRange_def Let_def)
    ultimately show ?thesis using q by blast
  next
    case search
    from range_searches [OF rel ok ne search(2) w(1) search(1) w(2) q] show ?thesis .
  qed
qed

end

end
