(* ===== verification/SolverChain.thy ===== *)
theory SolverChain
  imports SolverRange
begin

text \<open>
  The solvers that are built around another one: \<open>StagedSolverImpl\<close> with its incomplete first stage
  (\<open>lib/Solver/IncompleteSolver.cpp\<close>), \<open>CachingSolver\<close> (\<open>lib/Solver/CachingSolver.cpp\<close>), and
  \<open>DummySolverImpl\<close> (\<open>lib/Solver/DummySolver.cpp\<close>). Each keeps the contract of the solver it wraps.
\<close>

section \<open>Definitions\<close>

datatype PartialValidity = MustBeTrue | MustBeFalse | MayBeTrue | MayBeFalse | TrueOrFalse | PVNone

definition negatePartialValidity :: "PartialValidity \<Rightarrow> PartialValidity result" where
  "negatePartialValidity pv =
     (case pv of
        MustBeTrue \<Rightarrow> Ok MustBeFalse
      | MustBeFalse \<Rightarrow> Ok MustBeTrue
      | MayBeTrue \<Rightarrow> Ok MayBeFalse
      | MayBeFalse \<Rightarrow> Ok MayBeTrue
      | TrueOrFalse \<Rightarrow> Ok TrueOrFalse
      | PVNone \<Rightarrow> Abort)"

record IncompleteSolver =
  incTruth :: "Query \<Rightarrow> PartialValidity"
  incValidity :: "Query \<Rightarrow> PartialValidity"
  incValue :: "Query \<Rightarrow> expr option"
  incInitialValues :: "Query \<Rightarrow> Array list \<Rightarrow> (int list list \<times> bool) option"

definition IncompleteSolver_computeValidity :: "bool \<Rightarrow> (Query \<Rightarrow> PartialValidity) \<Rightarrow> Query \<Rightarrow> PartialValidity" where
  "IncompleteSolver_computeValidity co truth Q =
     (if truth Q = MustBeTrue then MustBeTrue
      else if truth (negateExpr co Q) = MustBeTrue then MustBeFalse
      else if truth Q \<noteq> PVNone \<and> truth (negateExpr co Q) \<noteq> PVNone then TrueOrFalse
      else if truth Q \<noteq> PVNone then MayBeFalse
      else if truth (negateExpr co Q) \<noteq> PVNone then MayBeTrue
      else PVNone)"

subsection \<open>Staged solvers\<close>

definition Staged_computeTruth :: "IncompleteSolver \<Rightarrow> 'q SolverImpl \<Rightarrow> Query \<Rightarrow> ('q, bool) query" where
  "Staged_computeTruth P S Q =
     (if incTruth P Q \<noteq> PVNone then qreturn (incTruth P Q = MustBeTrue) else computeTruth S Q)"

definition Staged_computeValidity :: "bool \<Rightarrow> IncompleteSolver \<Rightarrow> 'q SolverImpl \<Rightarrow> Query \<Rightarrow> ('q, Validity) query" where
  "Staged_computeValidity co P S Q =
     (case incValidity P Q of
        MustBeTrue \<Rightarrow> qreturn VTrue
      | MustBeFalse \<Rightarrow> qreturn VFalse
      | TrueOrFalse \<Rightarrow> qreturn VUnknown
      | MayBeTrue \<Rightarrow> qbind (computeTruth S Q) (\<lambda>tmp. qreturn (if tmp then VTrue else VUnknown))
      | MayBeFalse \<Rightarrow> qbind (computeTruth S (negateExpr co Q)) (\<lambda>tmp. qreturn (if tmp then VFalse else VUnknown))
      | PVNone \<Rightarrow> computeValidity S Q)"

definition StagedSolver :: "bool \<Rightarrow> IncompleteSolver \<Rightarrow> 'q SolverImpl \<Rightarrow> 'q SolverImpl" where
  "StagedSolver co P S =
     \<lparr>computeTruth = Staged_computeTruth P S,
      computeValidity = Staged_computeValidity co P S,
      computeValue = (\<lambda>Q. case incValue P Q of Some e \<Rightarrow> qreturn e | None \<Rightarrow> computeValue S Q),
      computeInitialValues = (\<lambda>Q objects.
        case incInitialValues P Q objects of Some r \<Rightarrow> qreturn r | None \<Rightarrow> computeInitialValues S Q objects)\<rparr>"

subsection \<open>The caching solver\<close>

text \<open>
  The cache maps constraints and an expression to a partial validity; the state of a caching
  solver is that of the solver below with the cache. \<open>cmp\<close> is \<open>Expr::compare\<close>, and equality of
  expressions is structural.
\<close>

type_synonym cache_map = "expr list \<times> expr \<Rightarrow> PartialValidity option"

definition onSolver :: "('q, 'a) query \<Rightarrow> ('q \<times> 'c, 'a) query" where
  "onSolver m s = (case s of (q, c) \<Rightarrow> rbind (m q) (\<lambda>(r, q'). Ok (r, q', c)))"

definition canonicalizeQuery :: "bool \<Rightarrow> (expr \<Rightarrow> expr \<Rightarrow> int) \<Rightarrow> expr \<Rightarrow> expr \<times> bool" where
  "canonicalizeQuery co cmp originalQuery =
     (let negatedQuery = createIsZero co originalQuery
      in if cmp originalQuery negatedQuery < 0 then (originalQuery, False) else (negatedQuery, True))"

definition cacheLookup :: "bool \<Rightarrow> (expr \<Rightarrow> expr \<Rightarrow> int) \<Rightarrow> Query \<Rightarrow> cache_map \<Rightarrow> PartialValidity option result" where
  "cacheLookup co cmp Q cache =
     (let (canonicalQuery, negationUsed) = canonicalizeQuery co cmp (qexpr Q)
      in case cache (constraints Q, canonicalQuery) of
           None \<Rightarrow> Ok None
         | Some pv \<Rightarrow> if negationUsed then rbind (negatePartialValidity pv) (\<lambda>pv'. Ok (Some pv')) else Ok (Some pv))"

text \<open>\<open>std::unordered_map::insert\<close> keeps the value of a key that is present.\<close>

definition cacheInsert :: "bool \<Rightarrow> (expr \<Rightarrow> expr \<Rightarrow> int) \<Rightarrow> Query \<Rightarrow> PartialValidity \<Rightarrow> cache_map \<Rightarrow> cache_map result" where
  "cacheInsert co cmp Q pv cache =
     (let (canonicalQuery, negationUsed) = canonicalizeQuery co cmp (qexpr Q)
      in rbind (if negationUsed then negatePartialValidity pv else Ok pv) (\<lambda>cachedResult.
        Ok (case cache (constraints Q, canonicalQuery) of
              Some old \<Rightarrow> cache
            | None \<Rightarrow> cache((constraints Q, canonicalQuery) \<mapsto> cachedResult))))"

text \<open>\<open>cacheInsert(query, pv); result = x; return true;\<close>\<close>

definition insertAndReturn :: "bool \<Rightarrow> (expr \<Rightarrow> expr \<Rightarrow> int) \<Rightarrow> Query \<Rightarrow> PartialValidity \<Rightarrow> 'a \<Rightarrow> ('q \<times> cache_map, 'a) query" where
  "insertAndReturn co cmp Q pv x s = (case s of (q, cache) \<Rightarrow> rbind (cacheInsert co cmp Q pv cache) (\<lambda>cache'. Ok (Some x, q, cache')))"

definition Caching_computeValidity :: "bool \<Rightarrow> (expr \<Rightarrow> expr \<Rightarrow> int) \<Rightarrow> 'q SolverImpl \<Rightarrow> Query \<Rightarrow> ('q \<times> cache_map, Validity) query" where
  "Caching_computeValidity co cmp S Q s =
     rbind (cacheLookup co cmp Q (snd s)) (\<lambda>hit.
       (case hit of
          Some MustBeTrue \<Rightarrow> qreturn VTrue
        | Some MustBeFalse \<Rightarrow> qreturn VFalse
        | Some TrueOrFalse \<Rightarrow> qreturn VUnknown
        | Some MayBeTrue \<Rightarrow>
            qbind (onSolver (computeTruth S Q)) (\<lambda>tmp.
              if tmp then insertAndReturn co cmp Q MustBeTrue VTrue else insertAndReturn co cmp Q TrueOrFalse VUnknown)
        | Some MayBeFalse \<Rightarrow>
            qbind (onSolver (computeTruth S (negateExpr co Q))) (\<lambda>tmp.
              if tmp then insertAndReturn co cmp Q MustBeFalse VFalse else insertAndReturn co cmp Q TrueOrFalse VUnknown)
        | Some PVNone \<Rightarrow> qabort
        | None \<Rightarrow>
            qbind (onSolver (computeValidity S Q)) (\<lambda>result.
              insertAndReturn co cmp Q
                (case result of VTrue \<Rightarrow> MustBeTrue | VFalse \<Rightarrow> MustBeFalse | VUnknown \<Rightarrow> TrueOrFalse) result)) s)"

definition Caching_computeTruth :: "bool \<Rightarrow> (expr \<Rightarrow> expr \<Rightarrow> int) \<Rightarrow> 'q SolverImpl \<Rightarrow> Query \<Rightarrow> ('q \<times> cache_map, bool) query" where
  "Caching_computeTruth co cmp S Q s =
     rbind (cacheLookup co cmp Q (snd s)) (\<lambda>hit.
       (if hit \<noteq> None \<and> hit \<noteq> Some MayBeTrue then qreturn (hit = Some MustBeTrue)
        else qbind (onSolver (computeTruth S Q)) (\<lambda>isValid.
          insertAndReturn co cmp Q
            (if isValid then MustBeTrue else if hit \<noteq> None then TrueOrFalse else MayBeFalse) isValid)) s)"

definition CachingSolver :: "bool \<Rightarrow> (expr \<Rightarrow> expr \<Rightarrow> int) \<Rightarrow> 'q SolverImpl \<Rightarrow> ('q \<times> cache_map) SolverImpl" where
  "CachingSolver co cmp S =
     \<lparr>computeTruth = Caching_computeTruth co cmp S,
      computeValidity = Caching_computeValidity co cmp S,
      computeValue = (\<lambda>Q. onSolver (computeValue S Q)),
      computeInitialValues = (\<lambda>Q objects. onSolver (computeInitialValues S Q objects))\<rparr>"

subsection \<open>The dummy solver\<close>

definition DummySolver :: "'q SolverImpl" where
  "DummySolver =
     \<lparr>computeTruth = (\<lambda>Q q. Ok (None, q)), computeValidity = (\<lambda>Q q. Ok (None, q)),
      computeValue = (\<lambda>Q q. Ok (None, q)), computeInitialValues = (\<lambda>Q objects q. Ok (None, q))\<rparr>"

section \<open>Partial validities\<close>

definition pvSound :: "env set \<Rightarrow> Query \<Rightarrow> PartialValidity \<Rightarrow> bool" where
  "pvSound U Q pv \<longleftrightarrow>
     (case pv of
        MustBeTrue \<Rightarrow> validIn U Q
      | MustBeFalse \<Rightarrow> unsatIn U Q
      | MayBeTrue \<Rightarrow> \<not> unsatIn U Q
      | MayBeFalse \<Rightarrow> \<not> validIn U Q
      | TrueOrFalse \<Rightarrow> \<not> validIn U Q \<and> \<not> unsatIn U Q
      | PVNone \<Rightarrow> True)"

text \<open>A query the solvers are asked: well-formed, boolean, with satisfiable constraints.\<close>

definition goodQuery :: "env set \<Rightarrow> Query \<Rightarrow> bool" where
  "goodQuery U Q \<longleftrightarrow> okQuery U Q \<and> modelsOf U (constraints Q) \<noteq> {} \<and> getWidth (qexpr Q) = 1"

lemma not_both: "goodQuery U Q \<Longrightarrow> validIn U Q \<Longrightarrow> \<not> unsatIn U Q"
  by (auto simp: goodQuery_def validIn_def unsatIn_def)

interpretation dummy: solver_impl co "Collect (wf_env co)" False "\<lambda>q. True" DummySolver for co
  by unfold_locales (auto simp: DummySolver_def returns_def)

locale incomplete_solver =
  fixes co :: bool and U :: "env set" and P :: IncompleteSolver
  assumes wf_envs: "\<sigma> \<in> U \<Longrightarrow> wf_env co \<sigma>"
    and inc_truth: "goodQuery U Q \<Longrightarrow> incTruth P Q \<noteq> PVNone \<Longrightarrow> incTruth P Q = MustBeTrue \<longleftrightarrow> validIn U Q"
    and inc_validity: "goodQuery U Q \<Longrightarrow> pvSound U Q (incValidity P Q)"
    and inc_value: "okQuery U Q \<Longrightarrow> modelsOf U (constraints Q) \<noteq> {} \<Longrightarrow> incValue P Q = Some e \<Longrightarrow> \<exists>c. e = ConstantExpr c \<and> valueIn U Q c"
    and inc_initial: "okQuery U Q \<Longrightarrow> getWidth (qexpr Q) = 1 \<Longrightarrow> definedOn U objects \<Longrightarrow> incInitialValues P Q objects = Some (vals, hasSolution) \<Longrightarrow>
      (hasSolution \<longleftrightarrow> \<not> validIn U Q) \<and> (hasSolution \<longrightarrow> initialIn U Q objects vals)"

locale staged_solver = solver_impl co U reliable I S + incomplete_solver co U P
  for co U reliable I and S :: "'q SolverImpl" and P
begin

lemma good_negate: "goodQuery U Q \<Longrightarrow> goodQuery U (negateExpr co Q)"
  using query_negate [of Q] by (simp add: goodQuery_def)

lemma good_truth: "goodQuery U Q \<Longrightarrow> returns reliable I (computeTruth S Q) (\<lambda>b. b = validIn U Q)"
  by (simp add: goodQuery_def truth)

text \<open>The inherited \<open>computeValidity\<close> of an incomplete solver is sound.\<close>

lemma default_incomplete:
  assumes "goodQuery U Q"
  shows "pvSound U Q (IncompleteSolver_computeValidity co (incTruth P) Q)"
  using inc_truth [OF assms] inc_truth [OF good_negate [OF assms]] query_negate(3) [of Q] assms
  by (auto simp: goodQuery_def pvSound_def IncompleteSolver_computeValidity_def)

lemma staged_validity:
  assumes "goodQuery U Q"
  shows "returns reliable I (Staged_computeValidity co P S Q) (\<lambda>v. v = validityIn U Q)"
proof -
  note pv = inc_validity [OF assms] and nb = not_both [OF assms]
  have neg: "returns reliable I (computeTruth S (negateExpr co Q)) (\<lambda>b. b = unsatIn U Q)"
    using good_truth [OF good_negate [OF assms]] query_negate(3) [of Q] assms by (simp add: goodQuery_def)
  show ?thesis
  proof (cases "incValidity P Q")
    case PVNone
    with validity assms show ?thesis by (simp add: Staged_computeValidity_def goodQuery_def)
  next
    case MayBeTrue
    with pv show ?thesis
      by (auto simp: Staged_computeValidity_def pvSound_def validityIn_def intro!: returns_qbind [OF good_truth [OF assms]])
  next
    case MayBeFalse
    with pv show ?thesis
      by (auto simp: Staged_computeValidity_def pvSound_def validityIn_def intro!: returns_qbind [OF neg])
  qed (use pv nb in \<open>auto simp: Staged_computeValidity_def pvSound_def validityIn_def\<close>)
qed

lemma staged_truth:
  assumes "goodQuery U Q"
  shows "returns reliable I (Staged_computeTruth P S Q) (\<lambda>b. b = validIn U Q)"
  using inc_truth [OF assms] good_truth [OF assms] by (auto simp: Staged_computeTruth_def)

end

sublocale staged_solver \<subseteq> staged: solver_impl co U reliable I "StagedSolver co P S"
proof
  fix Q objects
  assume ok: "okQuery U Q" "getWidth (qexpr Q) = 1" "definedOn U objects"
  show "returns reliable I (computeInitialValues (StagedSolver co P S) Q objects)
    (\<lambda>(vals, hasSolution). (hasSolution \<longleftrightarrow> \<not> validIn U Q) \<and> (hasSolution \<longrightarrow> initialIn U Q objects vals))"
  proof (cases "incInitialValues P Q objects")
    case None
    then show ?thesis using initial [OF ok] by (simp add: StagedSolver_def)
  next
    case (Some r)
    then show ?thesis using inc_initial [OF ok] by (cases r) (auto simp: StagedSolver_def)
  qed
next
  fix Q assume ok: "okQuery U Q" "modelsOf U (constraints Q) \<noteq> {}"
  show "getWidth (qexpr Q) = 1 \<Longrightarrow> returns reliable I (computeTruth (StagedSolver co P S) Q) (\<lambda>b. b = validIn U Q)"
    "getWidth (qexpr Q) = 1 \<Longrightarrow> returns reliable I (computeValidity (StagedSolver co P S) Q) (\<lambda>v. v = validityIn U Q)"
    using staged_truth [of Q] staged_validity [of Q] ok by (simp_all add: StagedSolver_def goodQuery_def)
  assume "\<not> isConstantExpr (qexpr Q)"
  with val [OF ok] inc_value [OF ok] show "returns reliable I (computeValue (StagedSolver co P S) Q) (\<lambda>e. \<exists>c. e = ConstantExpr c \<and> valueIn U Q c)"
    by (cases "incValue P Q") (auto simp: StagedSolver_def)
qed (rule wf_U)

text \<open>
  A primary solver that decides constant queries and inherits \<open>computeValidity\<close>, over the dummy solver.
\<close>

definition constantTruth :: "Query \<Rightarrow> PartialValidity" where
  "constantTruth Q = (case qexpr Q of ConstantExpr c \<Rightarrow> if isTrue c then MustBeTrue else MayBeFalse | _ \<Rightarrow> PVNone)"

definition constantStage :: "bool \<Rightarrow> IncompleteSolver" where
  "constantStage co =
     \<lparr>incTruth = constantTruth, incValidity = IncompleteSolver_computeValidity co constantTruth,
      incValue = (\<lambda>Q. None), incInitialValues = (\<lambda>Q objects. None)\<rparr>"

lemma constantTruth_sound:
  assumes "goodQuery U Q" "constantTruth Q \<noteq> PVNone"
  shows "constantTruth Q = MustBeTrue \<longleftrightarrow> validIn U Q"
proof -
  obtain c where c: "qexpr Q = ConstantExpr c" using assms(2) by (cases "qexpr Q") (simp_all add: constantTruth_def)
  have "wf_const c" "modelsOf U (constraints Q) \<noteq> {}" "bitWidth c = 1" using assms(1) by (simp_all add: goodQuery_def okQuery_def c)
  moreover from this have "apValue c = 0 \<or> apValue c = 1" by (auto simp: wf_const_def fits_def)
  ultimately show ?thesis by (auto simp: constantTruth_def validIn_def isTrue_def c)
qed

interpretation constant_stage: staged_solver co "Collect (wf_env co)" False "\<lambda>q. True" DummySolver "constantStage co" for co
proof (intro staged_solver.intro dummy.solver_impl_axioms incomplete_solver.intro)
  fix Q assume good: "goodQuery (Collect (wf_env co)) Q"
  then have neg: "goodQuery (Collect (wf_env co)) (negateExpr co Q)" using dummy.query_negate [of co Q] by (simp add: goodQuery_def)
  show "pvSound (Collect (wf_env co)) Q (incValidity (constantStage co) Q)"
    using constantTruth_sound [OF good] constantTruth_sound [OF neg] dummy.query_negate(3) [of co Q] good
    by (auto simp: goodQuery_def pvSound_def IncompleteSolver_computeValidity_def constantStage_def)
qed (auto simp: constantTruth_sound constantStage_def)

section \<open>The caching solver\<close>

definition cacheOK :: "env set \<Rightarrow> cache_map \<Rightarrow> bool" where
  "cacheOK U cache \<longleftrightarrow>
     (\<forall>cs e pv. cache (cs, e) = Some pv \<longrightarrow> pv \<noteq> PVNone \<and>
        (goodQuery U \<lparr>constraints = cs, qexpr = e\<rparr> \<longrightarrow> pvSound U \<lparr>constraints = cs, qexpr = e\<rparr> pv))"

definition cachingInv :: "env set \<Rightarrow> ('q \<Rightarrow> bool) \<Rightarrow> 'q \<times> cache_map \<Rightarrow> bool" where
  "cachingInv U I s \<longleftrightarrow> I (fst s) \<and> cacheOK U (snd s)"

lemma returns_onSolver: "returns reliable I m P \<Longrightarrow> returns reliable (\<lambda>s. I (fst s) \<and> J (snd s)) (onSolver m) P"
  unfolding returns_def onSolver_def by (fastforce split: prod.splits)

lemma negate_pv:
  "pv \<noteq> PVNone \<Longrightarrow> \<exists>pv'. negatePartialValidity pv = Ok pv' \<and> pv' \<noteq> PVNone"
  by (cases pv) (auto simp: negatePartialValidity_def)

context solver_impl
begin

lemma negate_pvSound:
  assumes "goodQuery U Q" "negatePartialValidity pv = Ok pv'"
  shows "pvSound U (negateExpr co Q) pv' \<longleftrightarrow> pvSound U Q pv"
  using assms query_negate(3,4) [of Q] by (cases pv) (auto simp: negatePartialValidity_def pvSound_def goodQuery_def)

lemma negate_involutive: "negatePartialValidity pv = Ok pv' \<Longrightarrow> negatePartialValidity pv' = Ok pv"
  by (cases pv) (auto simp: negatePartialValidity_def)

lemma query_eta: "\<lparr>constraints = constraints Q, qexpr = e\<rparr> = withExpr Q e" for Q :: Query
  by (simp add: withExpr_def)

lemma good_canonical:
  assumes "goodQuery U Q" "canonicalizeQuery co cmp (qexpr Q) = (c, neg)"
  shows "withExpr Q c = (if neg then negateExpr co Q else Q)" "goodQuery U (withExpr Q c)"
  using assms query_negate [of Q]
  by (auto simp: canonicalizeQuery_def negateExpr_def withExpr_def goodQuery_def Let_def split: if_splits)

lemma cacheLookup_sound:
  assumes "cacheOK U cache" "goodQuery U Q"
  shows "\<exists>hit. cacheLookup co cmp Q cache = Ok hit \<and> (\<forall>pv. hit = Some pv \<longrightarrow> pv \<noteq> PVNone \<and> pvSound U Q pv)"
proof -
  obtain c neg where c: "canonicalizeQuery co cmp (qexpr Q) = (c, neg)" by fastforce
  note gc = good_canonical [OF assms(2) c]
  show ?thesis
  proof (cases "cache (constraints Q, c)")
    case (Some pv)
    with assms(1) gc(2) have pv: "pv \<noteq> PVNone" "pvSound U (withExpr Q c) pv"
      unfolding cacheOK_def query_eta [symmetric] by blast+
    obtain pv' where pv': "negatePartialValidity pv = Ok pv'" "pv' \<noteq> PVNone" using negate_pv [OF pv(1)] by blast
    with Some c pv gc(1) negate_pvSound [OF assms(2) negate_involutive [OF pv'(1)]] show ?thesis
      by (auto simp: cacheLookup_def split: if_splits)
  qed (simp add: cacheLookup_def c)
qed

lemma cacheInsert_sound:
  assumes "cacheOK U cache" "goodQuery U Q" "pvSound U Q pv" "pv \<noteq> PVNone"
  shows "\<exists>cache'. cacheInsert co cmp Q pv cache = Ok cache' \<and> cacheOK U cache'"
proof -
  obtain c neg where c: "canonicalizeQuery co cmp (qexpr Q) = (c, neg)" by fastforce
  obtain pv' where pv': "negatePartialValidity pv = Ok pv'" "pv' \<noteq> PVNone" using negate_pv [OF assms(4)] by blast
  define w where "w = (if neg then pv' else pv)"
  have "pvSound U (withExpr Q c) w" "w \<noteq> PVNone"
    using good_canonical(1) [OF assms(2) c] negate_pvSound [OF assms(2) pv'(1)] pv' assms(3,4) by (auto simp: w_def)
  then have "cacheOK U (cache((constraints Q, c) \<mapsto> w))"
    using assms(1) by (auto simp: cacheOK_def query_eta)
  with assms(1) c pv' show ?thesis
    by (cases "cache (constraints Q, c)") (auto simp: cacheInsert_def w_def)
qed

lemma insert_returns:
  assumes "goodQuery U Q" "pvSound U Q pv" "pv \<noteq> PVNone"
  shows "returns reliable (cachingInv U I) (insertAndReturn co cmp Q pv x) (\<lambda>y. y = x)"
  unfolding returns_def
proof (intro allI impI)
  fix s assume "cachingInv U I s"
  then obtain cache' where "cacheInsert co cmp Q pv (snd s) = Ok cache'" "cacheOK U cache'"
    using cacheInsert_sound [OF _ assms] by (auto simp: cachingInv_def)
  with \<open>cachingInv U I s\<close> show "\<exists>r s'. insertAndReturn co cmp Q pv x s = Ok (r, s') \<and> cachingInv U I s' \<and> (\<forall>y. r = Some y \<longrightarrow> y = x) \<and> (reliable \<longrightarrow> r \<noteq> None)"
    by (cases s) (auto simp: insertAndReturn_def cachingInv_def)
qed

lemma returns_lookup:
  assumes "goodQuery U Q" "\<And>hit. (\<And>pv. hit = Some pv \<Longrightarrow> pv \<noteq> PVNone \<and> pvSound U Q pv) \<Longrightarrow> returns reliable (cachingInv U I) (f hit) P"
  shows "returns reliable (cachingInv U I) (\<lambda>s. rbind (cacheLookup co cmp Q (snd s)) (\<lambda>hit. f hit s)) P"
  unfolding returns_def
proof (intro allI impI)
  fix s assume s: "cachingInv U I s"
  then obtain hit where hit: "cacheLookup co cmp Q (snd s) = Ok hit" "\<And>pv. hit = Some pv \<Longrightarrow> pv \<noteq> PVNone \<and> pvSound U Q pv"
    using cacheLookup_sound [OF _ assms(1)] unfolding cachingInv_def by blast
  have "returns reliable (cachingInv U I) (f hit) P" using hit(2) by (rule assms(2))
  with s hit(1) show "\<exists>r q'. rbind (cacheLookup co cmp Q (snd s)) (\<lambda>hit. f hit s) = Ok (r, q') \<and> cachingInv U I q' \<and> (\<forall>x. r = Some x \<longrightarrow> P x) \<and> (reliable \<longrightarrow> r \<noteq> None)"
    by (cases s) (auto simp: returns_def)
qed

lemma on_inner: "returns reliable I m P \<Longrightarrow> returns reliable (cachingInv U I) (onSolver m) P"
  using returns_onSolver [of reliable I m P "cacheOK U"] unfolding cachingInv_def [abs_def] .

lemma good_truths:
  assumes "goodQuery U Q"
  shows "returns reliable I (computeTruth S Q) (\<lambda>b. b = validIn U Q)"
    "returns reliable I (computeTruth S (negateExpr co Q)) (\<lambda>b. b = unsatIn U Q)"
    "returns reliable I (computeValidity S Q) (\<lambda>v. v = validityIn U Q)"
  using assms truth [of Q] truth [of "negateExpr co Q"] validity [of Q] query_negate [of Q] by (simp_all add: goodQuery_def)

lemma caching_truth:
  assumes "goodQuery U Q"
  shows "returns reliable (cachingInv U I) (Caching_computeTruth co cmp S Q) (\<lambda>b. b = validIn U Q)"
  unfolding Caching_computeTruth_def [abs_def]
proof (rule returns_lookup [OF assms])
  fix hit assume hit: "\<And>pv. hit = Some pv \<Longrightarrow> pv \<noteq> PVNone \<and> pvSound U Q pv"
  note ins = insert_returns [OF assms]
  show "returns reliable (cachingInv U I) (if hit \<noteq> None \<and> hit \<noteq> Some MayBeTrue then qreturn (hit = Some MustBeTrue)
      else qbind (onSolver (computeTruth S Q)) (\<lambda>isValid. insertAndReturn co cmp Q
        (if isValid then MustBeTrue else if hit \<noteq> None then TrueOrFalse else MayBeFalse) isValid)) (\<lambda>b. b = validIn U Q)"
  proof (cases "hit = None \<or> hit = Some MayBeTrue")
    case True
    have "returns reliable (cachingInv U I) (insertAndReturn co cmp Q
        (if isValid then MustBeTrue else if hit \<noteq> None then TrueOrFalse else MayBeFalse) isValid) (\<lambda>b. b = validIn U Q)"
      if "isValid = validIn U Q" for isValid
      using that True hit by (auto simp: pvSound_def intro!: returns_mono [OF ins])
    with True show ?thesis by (auto intro!: returns_qbind [OF on_inner [OF good_truths(1) [OF assms]]])
  next
    case False
    then obtain pv where pv: "hit = Some pv" "pv \<noteq> MayBeTrue" by auto
    with hit [OF pv(1)] not_both [OF assms] show ?thesis by (cases pv) (auto simp: pvSound_def intro!: returns_qreturn)
  qed
qed

lemma caching_validity:
  assumes "goodQuery U Q"
  shows "returns reliable (cachingInv U I) (Caching_computeValidity co cmp S Q) (\<lambda>v. v = validityIn U Q)"
  unfolding Caching_computeValidity_def [abs_def]
proof (rule returns_lookup [OF assms])
  fix hit assume hit: "\<And>pv. hit = Some pv \<Longrightarrow> pv \<noteq> PVNone \<and> pvSound U Q pv"
  note ins = insert_returns [OF assms] and nb = not_both [OF assms] and inner = on_inner [OF good_truths(1) [OF assms]]
    on_inner [OF good_truths(2) [OF assms]] on_inner [OF good_truths(3) [OF assms]]
  show "returns reliable (cachingInv U I) (case hit of
          Some MustBeTrue \<Rightarrow> qreturn VTrue
        | Some MustBeFalse \<Rightarrow> qreturn VFalse
        | Some TrueOrFalse \<Rightarrow> qreturn VUnknown
        | Some MayBeTrue \<Rightarrow>
            qbind (onSolver (computeTruth S Q)) (\<lambda>tmp.
              if tmp then insertAndReturn co cmp Q MustBeTrue VTrue else insertAndReturn co cmp Q TrueOrFalse VUnknown)
        | Some MayBeFalse \<Rightarrow>
            qbind (onSolver (computeTruth S (negateExpr co Q))) (\<lambda>tmp.
              if tmp then insertAndReturn co cmp Q MustBeFalse VFalse else insertAndReturn co cmp Q TrueOrFalse VUnknown)
        | Some PVNone \<Rightarrow> qabort
        | None \<Rightarrow>
            qbind (onSolver (computeValidity S Q)) (\<lambda>result.
              insertAndReturn co cmp Q
                (case result of VTrue \<Rightarrow> MustBeTrue | VFalse \<Rightarrow> MustBeFalse | VUnknown \<Rightarrow> TrueOrFalse) result))
      (\<lambda>v. v = validityIn U Q)"
  proof (cases hit)
    case None
    then show ?thesis
      by (auto simp: pvSound_def validityIn_def intro!: returns_qbind [OF inner(3)] returns_mono [OF ins])
  next
    case (Some pv)
    with hit [OF Some] nb show ?thesis
      by (cases pv) (auto simp: pvSound_def validityIn_def intro!: returns_qbind [OF inner(1)] returns_qbind [OF inner(2)] returns_mono [OF ins])
  qed
qed

lemma caching_solver: "solver_impl co U reliable (cachingInv U I) (CachingSolver co cmp S)"
proof
  fix Q objects
  assume "okQuery U Q" "getWidth (qexpr Q) = 1" "definedOn U objects"
  from on_inner [OF initial [OF this]] show "returns reliable (cachingInv U I) (computeInitialValues (CachingSolver co cmp S) Q objects)
    (\<lambda>(vals, hasSolution). (hasSolution \<longleftrightarrow> \<not> validIn U Q) \<and> (hasSolution \<longrightarrow> initialIn U Q objects vals))"
    by (simp add: CachingSolver_def)
next
  fix Q assume ok: "okQuery U Q" "modelsOf U (constraints Q) \<noteq> {}"
  show "getWidth (qexpr Q) = 1 \<Longrightarrow> returns reliable (cachingInv U I) (computeTruth (CachingSolver co cmp S) Q) (\<lambda>b. b = validIn U Q)"
    "getWidth (qexpr Q) = 1 \<Longrightarrow> returns reliable (cachingInv U I) (computeValidity (CachingSolver co cmp S) Q) (\<lambda>v. v = validityIn U Q)"
    using caching_truth [of Q] caching_validity [of Q] ok by (simp_all add: CachingSolver_def goodQuery_def)
  assume "\<not> isConstantExpr (qexpr Q)"
  from on_inner [OF val [OF ok this]] show "returns reliable (cachingInv U I) (computeValue (CachingSolver co cmp S) Q) (\<lambda>e. \<exists>c. e = ConstantExpr c \<and> valueIn U Q c)"
    by (simp add: CachingSolver_def)
qed (rule wf_U)

end

end
