(* ===== verification/VisitorSafe.thy ===== *)
theory VisitorSafe
  imports Constraints
begin

text \<open>
  Visitors do not fail on defined expressions: the only assertion a traversal can violate is the one
  on divisions of constants by zero when a node is rebuilt, and a node with a value in some
  environment of interest has no such division. The same holds for the assertion on false constraints
  when the constraints are satisfiable.
\<close>

lemma sem_kids: "sem \<sigma> e = Some v \<Longrightarrow> k \<in> set (getKids e) \<Longrightarrow> \<exists>u. sem \<sigma> k = Some u"
  by (cases e) (auto simp: Option.bind_eq_Some_conv)

lemma wf_kids: "wf_expr e \<Longrightarrow> k \<in> set (getKids e) \<Longrightarrow> wf_expr k"
  by (cases e) auto

lemma rebuild_defined:
  assumes "withKids e kids = Some n" "sem \<sigma> n = Some v" "wf_expr n"
  shows "\<exists>e'. rebuild co e kids = Some e'"
  using assms(1)
proof (rule withKids.elims)
  fix k l0 r0 l r assume "e = BinaryExpr k l0 r0" "kids = [l, r]" "Some n = Some (BinaryExpr k l r)"
  moreover from this have "BinaryExpr_create co k l r \<noteq> None"
    using assms(2,3) by (auto simp: BinaryExpr_create_None bvOp_def isZero_def Option.bind_eq_Some_conv split: if_splits)
  ultimately show ?thesis by (auto simp: rebuild_def)
qed (auto simp: rebuild_def)

text \<open>A traversal that does not abort on expressions with a value in some environment of \<open>\<Gamma>\<close>.\<close>

definition definedUnder :: "(env \<Rightarrow> bool) \<Rightarrow> expr \<Rightarrow> bool" where
  "definedUnder \<Gamma> e \<longleftrightarrow> wf_expr e \<and> (\<exists>\<sigma> v. \<Gamma> \<sigma> \<and> sem \<sigma> e = Some v)"

definition safeFn :: "(env \<Rightarrow> bool) \<Rightarrow> visitFn \<Rightarrow> bool" where
  "safeFn \<Gamma> vf \<longleftrightarrow> (\<forall>s e. tableOK (refinesOn \<Gamma>) s \<longrightarrow> definedUnder \<Gamma> e \<longrightarrow> vf s e \<noteq> Abort)"

lemma definedUnder_kids: "definedUnder \<Gamma> e \<Longrightarrow> k \<in> set (getKids e) \<Longrightarrow> definedUnder \<Gamma> k"
  unfolding definedUnder_def using sem_kids wf_kids by meson

lemma definedUnder_refines: "definedUnder \<Gamma> e \<Longrightarrow> refinesOn \<Gamma> e e' \<Longrightarrow> definedUnder \<Gamma> e'"
  by (auto simp: definedUnder_def refinesOn_def)

locale safe_visitor = sound_visitor co "refinesOn \<Gamma>" V for co \<Gamma> V +
  assumes safe_expr: "definedUnder \<Gamma> e \<Longrightarrow> visitExpr V e \<noteq> Abort"
    and safe_node: "safeFn \<Gamma> vf \<Longrightarrow> soundFn (refinesOn \<Gamma>) vf \<Longrightarrow> tableOK (refinesOn \<Gamma>) s \<Longrightarrow> definedUnder \<Gamma> e \<Longrightarrow> visitNode V vf s e \<noteq> Abort"
begin

lemma visitKids_safe:
  assumes "safeFn \<Gamma> vf" "soundFn (refinesOn \<Gamma>) vf"
  shows "tableOK (refinesOn \<Gamma>) s \<Longrightarrow> (\<And>k. k \<in> set ks \<Longrightarrow> definedUnder \<Gamma> k) \<Longrightarrow> visitKids vf s ks \<noteq> Abort"
proof (induction ks arbitrary: s)
  case (Cons k ks)
  have "vf s k \<noteq> Abort" using assms(1) Cons.prems by (auto simp: safeFn_def)
  with Cons.IH Cons.prems soundFnD [OF assms(2)] show ?case by (fastforce simp: rbind_eq_Abort)
qed simp

lemma visitRebuild_safe:
  assumes "safeFn \<Gamma> vf" "tableOK (refinesOn \<Gamma>) s" "definedUnder \<Gamma> e" "\<not> isConstantExpr e" "list_all2 (refinesOn \<Gamma>) (getKids e) kids"
  shows "visitRebuild co V vf s e kids \<noteq> Abort"
proof (cases "kids = getKids e")
  case False
  obtain n where n: "withKids e kids = Some n" using withKids_exists assms(4,5) by (metis list_all2_lengthD)
  have "definedUnder \<Gamma> n" using definedUnder_refines [OF assms(3) withKids_refinesOn [OF n assms(5)]] .
  then obtain e' where e': "rebuild co e kids = Some e'" using rebuild_defined [OF n] unfolding definedUnder_def by blast
  have "definedUnder \<Gamma> e'" using definedUnder_refines [OF assms(3) R_rebuild [OF e' assms(5) False]] .
  with assms(1,2) e' show ?thesis by (auto simp: visitRebuild_def safeFn_def)
qed (simp add: visitRebuild_def)

lemma visitActual_safe:
  assumes "safeFn \<Gamma> vf" "soundFn (refinesOn \<Gamma>) vf" "tableOK (refinesOn \<Gamma>) s" "definedUnder \<Gamma> e"
  shows "visitActual co V vf s e \<noteq> Abort"
proof (cases "isConstantExpr e")
  case False
  note node = safe_node [OF assms]
  have kids: "visitKids vf s1 (getKids e) \<noteq> Abort" if "tableOK (refinesOn \<Gamma>) s1" for s1
    by (rule visitKids_safe [OF assms(1,2) that]) (rule definedUnder_kids [OF assms(4)])
  have reb: "visitRebuild co V vf s2 e ks \<noteq> Abort" if "visitKids vf s1 (getKids e) = Ok (ks, s2)" "tableOK (refinesOn \<Gamma>) s1" for s1 ks s2
    using visitKids_sound [OF assms(2) that] visitRebuild_safe [OF assms(1) _ assms(4) False] by blast
  show ?thesis
    using False safe_expr [OF assms(4)] node kids reb node_hook [OF assms(2,3)]
    by (auto simp: visitActual_def rbind_eq_Abort split: Action.splits)
qed (simp add: visitActual_def)

lemma visit_safe: "safeFn \<Gamma> (visit co uvh V n)"
proof (induction n)
  case (Suc n)
  show ?case unfolding safeFn_def
  proof (intro allI impI)
    fix s e assume "tableOK (refinesOn \<Gamma>) s" "definedUnder \<Gamma> e"
    from visitActual_safe [OF Suc visit_soundFn this] show "visit co uvh V (Suc n) s e \<noteq> Abort"
      by (auto simp: rbind_eq_Abort split: option.splits)
  qed
qed (simp add: safeFn_def)

end

interpretation base_safe: safe_visitor co "\<lambda>\<sigma>. wf_env co \<sigma> \<and> \<Gamma> \<sigma>" "ExprVisitor_base rec" for co \<Gamma> rec
  by unfold_locales (auto simp: ExprVisitor_base_def)

section \<open>Simplification\<close>

lemma replace2_safe:
  assumes "wf_constraints cs"
  shows "safe_visitor co (\<lambda>\<sigma>. wf_env co \<sigma> \<and> satisfied \<sigma> cs) (ExprReplaceVisitor2 (foldl insertEquality [] cs))"
  by (intro safe_visitor.intro safe_visitor_axioms.intro replace2_sound [OF assms])
     (auto simp: ExprReplaceVisitor2_def ExprVisitor_base_def)

text \<open>
  With enough fuel \<open>simplifyExpr\<close> returns an expression, whenever the constraints are satisfiable in
  an environment in which the expression has a value.
\<close>

lemma simplifyExpr_returns:
  assumes "wf_constraints cs" "wf_expr e" "wf_env (ConstArrayOpt opts) \<sigma>" "satisfied \<sigma> cs" "sem \<sigma> e = Some v"
    and "simplifyExpr opts n cs e \<noteq> OutOfFuel"
  shows "\<exists>e'. simplifyExpr opts n cs e = Ok e'"
proof -
  have "definedUnder (\<lambda>\<sigma>. wf_env (ConstArrayOpt opts) \<sigma> \<and> satisfied \<sigma> cs) e" using assms(2-5) by (auto simp: definedUnder_def)
  then have "visit (ConstArrayOpt opts) (UseVisitorHash opts) (ExprReplaceVisitor2 (foldl insertEquality [] cs)) n [] e \<noteq> Abort"
    using safe_visitor.visit_safe [OF replace2_safe [OF assms(1)]] by (auto simp: safeFn_def simp del: visit.simps)
  then have "simplifyExpr opts n cs e \<noteq> Abort" by (auto simp: simplifyExpr_def rbind_eq_Abort simp del: visit.simps)
  with assms(6) show ?thesis by (cases "simplifyExpr opts n cs e") auto
qed

section \<open>Adding a constraint\<close>

lemma replace_safe:
  assumes "wf_expr src" "wf_const c" "bitWidth c = getWidth src"
  shows "safe_visitor co (\<lambda>\<sigma>. wf_env co \<sigma> \<and> sem \<sigma> src = Some (apValue c)) (ExprReplaceVisitor src (ConstantExpr c))"
  by (intro safe_visitor.intro safe_visitor_axioms.intro replace_sound [OF assms]) (auto simp: ExprReplaceVisitor_def)

lemma replaceFn_safe:
  assumes "wf_expr src" "wf_const c" "bitWidth c = getWidth src"
  shows "safeFn (\<lambda>\<sigma>. wf_env (ConstArrayOpt opts) \<sigma> \<and> sem \<sigma> src = Some (apValue c)) (replaceFn opts src (ConstantExpr c))"
  using safe_visitor.visit_safe [OF replace_safe [OF assms]] unfolding safeFn_def replaceFn_def by blast

lemma rewriteLoop_safe:
  assumes vf: "soundFn (refinesOn \<Gamma>) vf" "safeFn \<Gamma> vf" and "\<Gamma> \<sigma>"
    and add: "\<And>cs e cs'. add cs e = Ok cs' \<Longrightarrow> sameModels \<Gamma> (e # cs) cs'"
    and safe: "\<And>cs e. wf_constraints (e # cs) \<Longrightarrow> satisfied \<sigma> (e # cs) \<Longrightarrow> add cs e \<noteq> Abort"
  shows "wf_constraints (cs @ old) \<Longrightarrow> satisfied \<sigma> (cs @ old) \<Longrightarrow> tableOK (refinesOn \<Gamma>) s \<Longrightarrow> rewriteLoop add vf s cs ch old \<noteq> Abort"
proof (induction old arbitrary: s cs ch)
  case (Cons ce old)
  have "definedUnder \<Gamma> ce" using Cons.prems assms(3) by (auto simp: definedUnder_def)
  then have v: "vf s ce \<noteq> Abort" using vf(2) Cons.prems(3) by (auto simp: safeFn_def)
  have "rewriteLoop add vf s1 (cs @ [ce]) ch old \<noteq> Abort" if "vf s ce = Ok (ce, s1)" for s1
    using Cons.IH [of "cs @ [ce]" s1] soundFnD [OF vf(1) that Cons.prems(3)] Cons.prems by simp
  moreover have "rbind (add cs e) (\<lambda>cs1. rewriteLoop add vf s1 cs1 True old) \<noteq> Abort" if e: "vf s ce = Ok (e, s1)" for e s1
  proof -
    note R = soundFnD [OF vf(1) e Cons.prems(3)]
    have ec: "wf_constraints (e # cs)" "satisfied \<sigma> (e # cs)"
      using R refinesOnD [of \<Gamma> ce e] Cons.prems assms(3) by auto
    have "rewriteLoop add vf s1 cs1 True old \<noteq> Abort" if "add cs e = Ok cs1" for cs1
      using Cons.IH [of cs1 s1] sameModelsD(1,2) [OF add [OF that] ec(1)] ec(2) assms(3) Cons.prems R by simp
    with safe [OF ec] show ?thesis by (auto simp: rbind_eq_Abort)
  qed
  ultimately show ?case using v by (auto simp: rbind_eq_Abort)
qed simp

lemma addConstraintInternal_safe:
  "wf_env (ConstArrayOpt opts) \<sigma> \<Longrightarrow> wf_constraints (e # cs) \<Longrightarrow> satisfied \<sigma> (e # cs) \<Longrightarrow> addConstraintInternal opts n cs e \<noteq> Abort"
proof (induction n arbitrary: cs e)
  case (Suc n)
  show ?case
  proof (cases e)
    case (BinaryExpr k l r)
    show ?thesis
    proof (cases "k = And")
      case True
      have lr: "wf_constraints (l # r # cs)" "satisfied \<sigma> (l # r # cs)"
        using sameModelsD(1,2) [OF sameModels_and, of l r cs] Suc.prems BinaryExpr True by auto
      then have "addConstraintInternal opts n cs l \<noteq> Abort" using Suc by simp
      moreover have "addConstraintInternal opts n cs1 r \<noteq> Abort" if "addConstraintInternal opts n cs l = Ok cs1" for cs1
        using Suc.IH [of r cs1] sameModelsD(1,2) [OF addConstraintInternal_models [OF that]] lr Suc.prems by auto
      ultimately show ?thesis using BinaryExpr True by (auto simp: rbind_eq_Abort)
    next
      case False
      have "rewriteConstraints opts (addConstraintInternal opts n) cs r (ConstantExpr c) \<noteq> Abort" if kl: "k = Eq" "l = ConstantExpr c" for c
      proof -
        have wf: "wf_expr r" "wf_const c" "bitWidth c = getWidth r" using Suc.prems BinaryExpr kl by auto
        have "sem \<sigma> r = Some (apValue c)" using Suc.prems BinaryExpr kl by (auto simp: kind_simps Option.bind_eq_Some_conv)
        with rewriteLoop_safe [OF replaceFn_sound(1) [OF wf] replaceFn_safe [OF wf] _ sameModels_mono [OF addConstraintInternal_models] Suc.IH]
        show ?thesis using Suc.prems unfolding rewriteConstraints_def by auto
      qed
      with False BinaryExpr show ?thesis by (auto simp: rbind_eq_Abort elim!: isConstantExprE)
    qed
  qed (use Suc.prems in \<open>auto simp: isTrue_def\<close>)
qed simp

lemma addConstraint_returns:
  assumes "wf_constraints (e # cs)" "wf_env (ConstArrayOpt opts) \<sigma>" "satisfied \<sigma> (e # cs)" "addConstraint opts n cs e \<noteq> OutOfFuel"
  shows "\<exists>cs'. addConstraint opts n cs e = Ok cs'"
proof -
  have s: "simplifyExpr opts n cs e \<noteq> OutOfFuel" using assms(4) by (auto simp: addConstraint_def)
  obtain e1 where e1: "simplifyExpr opts n cs e = Ok e1"
    using simplifyExpr_returns [OF _ _ assms(2) _ _ s] assms by auto
  have "addConstraintInternal opts n cs e1 \<noteq> Abort"
    using addConstraintInternal_safe [OF assms(2)] sameModelsD(1,2) [OF sameModels_simplify [OF e1] assms(1)] assms(2,3) by blast
  with e1 assms(4) show ?thesis by (cases "addConstraintInternal opts n cs e1") (auto simp: addConstraint_def)
qed

end
