(* ===== verification/TimingSolver.thy ===== *)
theory TimingSolver
  imports SolverChain VisitorSafe
begin

text \<open>
  The interface through which the executor queries the solver (\<open>lib/Core/TimingSolver.cpp\<close>):
  constants are answered at once, other expressions are simplified with the path constraints of the
  state first. The measurement of time is left out. \<open>fuel\<close> bounds the simplification; a bound that
  is always enough exists.
\<close>

section \<open>Definitions\<close>

record 'q TimingSolver =
  tsSolver :: "'q SolverImpl"
  simplifyExprs :: bool
  tsOptions :: options
  tsFuel :: "constraints \<Rightarrow> expr \<Rightarrow> nat"

abbreviation tsCO :: "'q TimingSolver \<Rightarrow> bool" where
  "tsCO T \<equiv> ConstArrayOpt (tsOptions T)"

definition simplified :: "'q TimingSolver \<Rightarrow> constraints \<Rightarrow> expr \<Rightarrow> (expr \<Rightarrow> ('q, 'a) query) \<Rightarrow> ('q, 'a) query" where
  "simplified T cs e f q =
     (if simplifyExprs T then rbind (simplifyExpr (tsOptions T) (tsFuel T cs e) cs e) (\<lambda>e'. f e' q) else f e q)"

definition TimingSolver_evaluate :: "'q TimingSolver \<Rightarrow> constraints \<Rightarrow> expr \<Rightarrow> ('q, Validity) query" where
  "TimingSolver_evaluate T cs e =
     (case e of
        ConstantExpr CE \<Rightarrow> qreturn (if isTrue CE then VTrue else VFalse)
      | _ \<Rightarrow> simplified T cs e (\<lambda>e'. Solver_evaluate (tsSolver T) \<lparr>constraints = cs, qexpr = e'\<rparr>))"

definition TimingSolver_mustBeTrue :: "'q TimingSolver \<Rightarrow> constraints \<Rightarrow> expr \<Rightarrow> ('q, bool) query" where
  "TimingSolver_mustBeTrue T cs e =
     (case e of
        ConstantExpr CE \<Rightarrow> qreturn (isTrue CE)
      | _ \<Rightarrow> simplified T cs e (\<lambda>e'. Solver_mustBeTrue (tsSolver T) \<lparr>constraints = cs, qexpr = e'\<rparr>))"

definition TimingSolver_mustBeFalse :: "'q TimingSolver \<Rightarrow> constraints \<Rightarrow> expr \<Rightarrow> ('q, bool) query" where
  "TimingSolver_mustBeFalse T cs e = TimingSolver_mustBeTrue T cs (createIsZero (tsCO T) e)"

definition TimingSolver_mayBeTrue :: "'q TimingSolver \<Rightarrow> constraints \<Rightarrow> expr \<Rightarrow> ('q, bool) query" where
  "TimingSolver_mayBeTrue T cs e = qbind (TimingSolver_mustBeFalse T cs e) (\<lambda>res. qreturn (\<not> res))"

definition TimingSolver_mayBeFalse :: "'q TimingSolver \<Rightarrow> constraints \<Rightarrow> expr \<Rightarrow> ('q, bool) query" where
  "TimingSolver_mayBeFalse T cs e = qbind (TimingSolver_mustBeTrue T cs e) (\<lambda>res. qreturn (\<not> res))"

definition TimingSolver_getValue :: "'q TimingSolver \<Rightarrow> constraints \<Rightarrow> expr \<Rightarrow> ('q, apint) query" where
  "TimingSolver_getValue T cs e =
     (case e of
        ConstantExpr CE \<Rightarrow> qreturn CE
      | _ \<Rightarrow> simplified T cs e (\<lambda>e'. Solver_getValue (tsSolver T) \<lparr>constraints = cs, qexpr = e'\<rparr>))"

definition TimingSolver_getInitialValues :: "'q TimingSolver \<Rightarrow> constraints \<Rightarrow> Array list \<Rightarrow> ('q, int list list) query" where
  "TimingSolver_getInitialValues T cs objects =
     (if objects = [] then qreturn []
      else Solver_getInitialValues (tsSolver T) \<lparr>constraints = cs, qexpr = ConstantExpr (alloc 0 1)\<rparr> objects)"

definition TimingSolver_getRange :: "'q TimingSolver \<Rightarrow> constraints \<Rightarrow> expr \<Rightarrow> 'q \<Rightarrow> ((expr \<times> expr) \<times> 'q) result" where
  "TimingSolver_getRange T cs e = Solver_getRange (tsCO T) (tsSolver T) \<lparr>constraints = cs, qexpr = e\<rparr>"

section \<open>What the queries of a state return\<close>

text \<open>
  The client's view: the environments \<open>M\<close> in which the path constraints hold are fixed, and the
  queries decide statements on them.
\<close>

definition definedIn :: "env set \<Rightarrow> expr \<Rightarrow> bool" where
  "definedIn M e \<longleftrightarrow> wf_expr e \<and> (\<forall>\<sigma> \<in> M. sem \<sigma> e \<noteq> None)"

locale state_solver =
  fixes co :: bool and M :: "env set" and reliable :: bool and I :: "'q \<Rightarrow> bool"
    and may :: "expr \<Rightarrow> ('q, bool) query" and must :: "expr \<Rightarrow> ('q, bool) query" and val :: "expr \<Rightarrow> ('q, apint) query"
  assumes M_wf: "\<sigma> \<in> M \<Longrightarrow> wf_env co \<sigma>" and M_ne: "M \<noteq> {}"
    and may: "definedIn M e \<Longrightarrow> getWidth e = 1 \<Longrightarrow> returns reliable I (may e) (\<lambda>b. b = (\<exists>\<sigma> \<in> M. sem \<sigma> e = Some 1))"
    and must: "definedIn M e \<Longrightarrow> getWidth e = 1 \<Longrightarrow> returns reliable I (must e) (\<lambda>b. b = (\<forall>\<sigma> \<in> M. sem \<sigma> e = Some 1))"
    and val: "definedIn M e \<Longrightarrow> returns reliable I (val e) (\<lambda>c. wf_const c \<and> bitWidth c = getWidth e \<and> (\<exists>\<sigma> \<in> M. sem \<sigma> e = Some (apValue c)))"

text \<open>The fuel is enough for every expression.\<close>

definition enoughFuel :: "'q TimingSolver \<Rightarrow> bool" where
  "enoughFuel T \<longleftrightarrow> (simplifyExprs T \<longrightarrow> (\<forall>cs e. simplifyExpr (tsOptions T) (tsFuel T cs e) cs e \<noteq> OutOfFuel))"

lemma enoughFuel_exists: "\<exists>fuel. enoughFuel (T\<lparr>tsFuel := fuel\<rparr>)"
proof -
  have "\<forall>cs e. \<exists>n. simplifyExpr (tsOptions T) n cs e \<noteq> OutOfFuel" using simplifyExpr_ends by blast
  then obtain fuel where "\<forall>cs e. simplifyExpr (tsOptions T) (fuel cs e) cs e \<noteq> OutOfFuel" by metis
  then show ?thesis by (intro exI [of _ fuel]) (simp add: enoughFuel_def)
qed

locale timing_solver = solver_impl "tsCO T" U reliable I "tsSolver T"
  for U reliable I and T :: "'q TimingSolver" +
  fixes cs :: constraints
  assumes enough: "enoughFuel T" and wf_cs: "wf_constraints cs" and sat_cs: "modelsOf U cs \<noteq> {}"
begin

abbreviation queryOf :: "expr \<Rightarrow> Query" where
  "queryOf e \<equiv> \<lparr>constraints = cs, qexpr = e\<rparr>"

lemma ok_queryOf: "definedIn (modelsOf U cs) e \<Longrightarrow> okQuery U (queryOf e)"
  using wf_cs by (simp add: okQuery_def definedIn_def)

lemma simplify_query:
  assumes "definedIn (modelsOf U cs) e" "simplifyExprs T"
  shows "\<exists>e'. simplifyExpr (tsOptions T) (tsFuel T cs e) cs e = Ok e' \<and> definedIn (modelsOf U cs) e' \<and> getWidth e' = getWidth e \<and>
    (\<forall>\<sigma> \<in> modelsOf U cs. sem \<sigma> e' = sem \<sigma> e)"
proof -
  obtain \<sigma> where s: "\<sigma> \<in> modelsOf U cs" using sat_cs by blast
  then obtain v where "sem \<sigma> e = Some v" using assms by (auto simp: definedIn_def)
  moreover have "wf_env (tsCO T) \<sigma>" "satisfied \<sigma> cs" "wf_expr e" using s wf_U assms by (auto simp: modelsOf_def definedIn_def)
  ultimately obtain e' where e': "simplifyExpr (tsOptions T) (tsFuel T cs e) cs e = Ok e'"
    using simplifyExpr_returns [OF wf_cs] enough assms(2) by (fastforce simp: enoughFuel_def)
  note ref = refinesOnD [OF simplifyExpr_sound [OF e' wf_cs] \<open>wf_expr e\<close>]
  have eq: "sem \<sigma> e' = sem \<sigma> e" if m: "\<sigma> \<in> modelsOf U cs" for \<sigma>
  proof -
    obtain v where "sem \<sigma> e = Some v" using assms m by (auto simp: definedIn_def)
    with ref(3) [of \<sigma> v] m wf_U show ?thesis by (simp add: modelsOf_def)
  qed
  with e' ref(1,2) assms show ?thesis by (auto simp: definedIn_def)
qed

lemma simplified_returns:
  assumes "definedIn (modelsOf U cs) e"
    and "\<And>e'. definedIn (modelsOf U cs) e' \<Longrightarrow> getWidth e' = getWidth e \<Longrightarrow> \<forall>\<sigma> \<in> modelsOf U cs. sem \<sigma> e' = sem \<sigma> e \<Longrightarrow>
      returns reliable I (f e') P"
  shows "returns reliable I (simplified T cs e f) P"
proof (cases "simplifyExprs T")
  case True
  obtain e' where e': "simplifyExpr (tsOptions T) (tsFuel T cs e) cs e = Ok e'" "definedIn (modelsOf U cs) e'" "getWidth e' = getWidth e"
      "\<forall>\<sigma> \<in> modelsOf U cs. sem \<sigma> e' = sem \<sigma> e"
    using simplify_query [OF assms(1) True] by blast
  with assms(2) [OF e'(2-4)] True show ?thesis by (simp add: returns_def simplified_def)
qed (use assms(2) [OF assms(1)] in \<open>simp add: returns_def simplified_def\<close>)

lemma same_query:
  assumes "\<forall>\<sigma> \<in> modelsOf U cs. sem \<sigma> e' = sem \<sigma> e" "getWidth e' = getWidth e"
  shows "validIn U (queryOf e) = validIn U (queryOf e')" "unsatIn U (queryOf e) = unsatIn U (queryOf e')"
    "validityIn U (queryOf e) = validityIn U (queryOf e')" "valueIn U (queryOf e) = valueIn U (queryOf e')"
proof -
  show v: "validIn U (queryOf e) = validIn U (queryOf e')" "unsatIn U (queryOf e) = unsatIn U (queryOf e')"
    using assms(1) by (simp_all add: validIn_def unsatIn_def)
  then show "validityIn U (queryOf e) = validityIn U (queryOf e')" by (simp add: validityIn_def)
  show "valueIn U (queryOf e) = valueIn U (queryOf e')" using assms by (simp add: valueIn_def fun_eq_iff)
qed

lemma const_truth:
  assumes "definedIn (modelsOf U cs) (ConstantExpr c)" "bitWidth c = 1"
  shows "isTrue c \<longleftrightarrow> (\<forall>\<sigma> \<in> modelsOf U cs. sem \<sigma> (ConstantExpr c) = Some 1)"
  using const_query(1) [OF ok_queryOf [OF assms(1)]] sat_cs assms(2) by (simp add: validIn_def)

lemma ts_mustBeTrue:
  assumes "definedIn (modelsOf U cs) e" "getWidth e = 1"
  shows "returns reliable I (TimingSolver_mustBeTrue T cs e) (\<lambda>b. b = (\<forall>\<sigma> \<in> modelsOf U cs. sem \<sigma> e = Some 1))"
proof (cases "isConstantExpr e")
  case True
  then obtain c where "e = ConstantExpr c" by (rule isConstantExprE)
  with const_truth assms show ?thesis by (auto simp: TimingSolver_mustBeTrue_def intro!: returns_qreturn)
next
  case False
  have "returns reliable I (simplified T cs e (\<lambda>e'. Solver_mustBeTrue (tsSolver T) (queryOf e'))) (\<lambda>b. b = validIn U (queryOf e))"
  proof (rule simplified_returns [OF assms(1)])
    fix e' assume e': "definedIn (modelsOf U cs) e'" "getWidth e' = getWidth e" "\<forall>\<sigma> \<in> modelsOf U cs. sem \<sigma> e' = sem \<sigma> e"
    show "returns reliable I (Solver_mustBeTrue (tsSolver T) (queryOf e')) (\<lambda>b. b = validIn U (queryOf e))"
      unfolding same_query(1) [OF e'(3,2)] using mustBeTrue [OF ok_queryOf [OF e'(1)]] sat_cs e'(2) assms(2) by simp
  qed
  with False show ?thesis by (cases e) (simp_all add: TimingSolver_mustBeTrue_def validIn_def)
qed

lemma ts_evaluate:
  assumes "definedIn (modelsOf U cs) e" "getWidth e = 1"
  shows "returns reliable I (TimingSolver_evaluate T cs e) (\<lambda>v. v = validityIn U (queryOf e))"
proof (cases "isConstantExpr e")
  case True
  then obtain c where c: "e = ConstantExpr c" by (rule isConstantExprE)
  with const_query [OF ok_queryOf [OF assms(1)]] sat_cs assms show ?thesis
    by (auto simp: TimingSolver_evaluate_def validityIn_def intro!: returns_qreturn)
next
  case False
  have "returns reliable I (simplified T cs e (\<lambda>e'. Solver_evaluate (tsSolver T) (queryOf e'))) (\<lambda>v. v = validityIn U (queryOf e))"
  proof (rule simplified_returns [OF assms(1)])
    fix e' assume e': "definedIn (modelsOf U cs) e'" "getWidth e' = getWidth e" "\<forall>\<sigma> \<in> modelsOf U cs. sem \<sigma> e' = sem \<sigma> e"
    show "returns reliable I (Solver_evaluate (tsSolver T) (queryOf e')) (\<lambda>v. v = validityIn U (queryOf e))"
      unfolding same_query(3) [OF e'(3,2)] using evaluate [OF ok_queryOf [OF e'(1)]] sat_cs e'(2) assms(2) by simp
  qed
  with False show ?thesis by (cases e) (simp_all add: TimingSolver_evaluate_def)
qed

lemma ts_mayBeTrue:
  assumes "definedIn (modelsOf U cs) e" "getWidth e = 1"
  shows "returns reliable I (TimingSolver_mayBeTrue T cs e) (\<lambda>b. b = (\<exists>\<sigma> \<in> modelsOf U cs. sem \<sigma> e = Some 1))"
proof -
  have "getWidth (qexpr (queryOf e)) = 1" using assms(2) by simp
  note neg = query_negate [OF ok_queryOf [OF assms(1)] this]
  let ?n = "createIsZero (tsCO T) e"
  have n: "definedIn (modelsOf U cs) ?n" "getWidth ?n = 1"
    using neg(1,2) by (simp_all add: negateExpr_def withExpr_def okQuery_def definedIn_def)
  have "(\<forall>\<sigma> \<in> modelsOf U cs. sem \<sigma> ?n = Some 1) \<longleftrightarrow> (\<forall>\<sigma> \<in> modelsOf U cs. sem \<sigma> e = Some 0)"
    using neg(3) by (simp add: negateExpr_def withExpr_def validIn_def unsatIn_def)
  moreover have "(\<forall>\<sigma> \<in> modelsOf U cs. sem \<sigma> e = Some 0) \<longleftrightarrow> \<not> (\<exists>\<sigma> \<in> modelsOf U cs. sem \<sigma> e = Some 1)"
  proof -
    have "sem \<sigma> e = Some 0 \<or> sem \<sigma> e = Some 1" if m: "\<sigma> \<in> modelsOf U cs" for \<sigma>
    proof -
      obtain v where "sem \<sigma> e = Some v" using assms(1) m by (auto simp: definedIn_def)
      with sem_fits(1) [OF this, of "tsCO T"] wf_U m assms show ?thesis by (auto simp: modelsOf_def definedIn_def fits_one_iff)
    qed
    then show ?thesis by fastforce
  qed
  ultimately show ?thesis
    using may_of_must [OF ts_mustBeTrue [OF n]] by (simp add: TimingSolver_mayBeTrue_def TimingSolver_mustBeFalse_def)
qed

lemma ts_getValue:
  assumes "definedIn (modelsOf U cs) e"
  shows "returns reliable I (TimingSolver_getValue T cs e) (valueIn U (queryOf e))"
proof (cases "isConstantExpr e")
  case True
  then obtain c where "e = ConstantExpr c" by (rule isConstantExprE)
  with assms sat_cs show ?thesis by (auto simp: TimingSolver_getValue_def valueIn_def definedIn_def intro!: returns_qreturn)
next
  case False
  have "returns reliable I (simplified T cs e (\<lambda>e'. Solver_getValue (tsSolver T) (queryOf e'))) (valueIn U (queryOf e))"
  proof (rule simplified_returns [OF assms])
    fix e' assume e': "definedIn (modelsOf U cs) e'" "getWidth e' = getWidth e" "\<forall>\<sigma> \<in> modelsOf U cs. sem \<sigma> e' = sem \<sigma> e"
    show "returns reliable I (Solver_getValue (tsSolver T) (queryOf e')) (valueIn U (queryOf e))"
      unfolding same_query(4) [OF e'(3,2)] using getValue [OF ok_queryOf [OF e'(1)]] sat_cs by simp
  qed
  with False show ?thesis by (cases e) (simp_all add: TimingSolver_getValue_def)
qed

end

interpretation dummy_timing: timing_solver "Collect (wf_env co)" False "\<lambda>q. True"
  "\<lparr>tsSolver = DummySolver, simplifyExprs = False, tsOptions = \<lparr>ConstArrayOpt = co, UseVisitorHash = uvh, RewriteEqualities = re\<rparr>, tsFuel = fuel\<rparr>" "[]"
  for co uvh re fuel
proof
  have "(\<lambda>A i. None) \<in> modelsOf (Collect (wf_env co)) []" by (simp add: modelsOf_def wf_env_def)
  then show "modelsOf (Collect (wf_env co)) [] \<noteq> {}" by blast
qed (auto simp: enoughFuel_def DummySolver_def returns_def)

sublocale timing_solver \<subseteq> state: state_solver "tsCO T" "modelsOf U cs" reliable I
  "TimingSolver_mayBeTrue T cs" "TimingSolver_mustBeTrue T cs" "TimingSolver_getValue T cs"
  using ts_mayBeTrue ts_mustBeTrue ts_getValue sat_cs wf_U
  by unfold_locales (auto simp: modelsOf_def valueIn_def [abs_def])

end
