(* ===== verification/AddressSpace.thy ===== *)
theory AddressSpace
  imports TreeLoops MemoryCorrect TimingSolver
begin

text \<open>
  Address spaces (\<open>lib/Core/AddressSpace.h\<close>, \<open>lib/Core/AddressSpace.cpp\<close>): the map from memory objects
  to object states of an execution state, with copy on write between states, and the resolution of
  pointers to objects.

  Object states are shared between address spaces, so they live in a heap: a list, in which a
  reference is an index and allocation appends. Nothing is freed; reference counts only decide when
  an object state that no address space refers to is deleted.
\<close>

section \<open>Definitions\<close>

type_synonym heap = "ObjectState list"
type_synonym ObjectPair = "MemoryObject \<times> nat"

definition MemoryObjectLT :: "MemoryObject \<Rightarrow> MemoryObject \<Rightarrow> bool" where
  "MemoryObjectLT a b \<longleftrightarrow> moAddress a < moAddress b"

type_synonym MemoryMap = "ObjectPair node"

record AddressSpace =
  cowKey :: nat
  objects :: MemoryMap

definition AddressSpace_new :: AddressSpace where
  "AddressSpace_new = \<lparr>cowKey = 1, objects = Terminator\<rparr>"

text \<open>The copy constructor changes the epoch of the original too; the counter is 32 bits wide.\<close>

definition AddressSpace_copy :: "AddressSpace \<Rightarrow> AddressSpace \<times> AddressSpace" where
  "AddressSpace_copy b =
     (let k = (cowKey b + 1) mod 2 ^ 32 in (b\<lparr>cowKey := k\<rparr>, \<lparr>cowKey = k, objects = objects b\<rparr>))"

subsection \<open>Bindings\<close>

definition bindObject :: "MemoryObject \<Rightarrow> nat \<Rightarrow> heap \<times> AddressSpace \<Rightarrow> (heap \<times> AddressSpace) result" where
  "bindObject mo r s =
     (case s of (h, as) \<Rightarrow>
        if \<not> r < length h \<or> copyOnWriteOwner (h ! r) \<noteq> 0 then Abort
        else Ok (h[r := (h ! r)\<lparr>copyOnWriteOwner := cowKey as\<rparr>],
                 as\<lparr>objects := replaceT fst MemoryObjectLT (mo, r) (objects as)\<rparr>))"

definition unbindObject :: "MemoryObject \<Rightarrow> AddressSpace \<Rightarrow> AddressSpace" where
  "unbindObject mo as = as\<lparr>objects := removeT fst MemoryObjectLT mo (objects as)\<rparr>"

definition findObject :: "MemoryObject \<Rightarrow> AddressSpace \<Rightarrow> nat option" where
  "findObject mo as = map_option snd (lookupT fst MemoryObjectLT mo (objects as))"

definition getWriteable :: "MemoryObject \<Rightarrow> nat \<Rightarrow> heap \<times> AddressSpace \<Rightarrow> (nat \<times> heap \<times> AddressSpace) result" where
  "getWriteable mo r s =
     (case s of (h, as) \<Rightarrow>
        if \<not> r < length h \<or> readOnly (h ! r) then Abort
        else if cowKey as = copyOnWriteOwner (h ! r) then Ok (r, h, as)
        else
          (case ObjectState_copy (h ! r) of
             None \<Rightarrow> Abort
           | Some os \<Rightarrow>
               Ok (length h, h @ [os\<lparr>copyOnWriteOwner := cowKey as\<rparr>],
                   as\<lparr>objects := replaceT fst MemoryObjectLT (mo, length h) (objects as)\<rparr>)))"

subsection \<open>Resolution\<close>

text \<open>The object made from an address to search the map with; only its address is read.\<close>

definition hackObject :: "64 word \<Rightarrow> MemoryObject" where
  "hackObject a =
     \<lparr>moId = 0, moAddress = a, moSize = 0, moName = [], isLocal = False, isGlobal = False, isFixed = True,
      isUserSpecified = False, allocSite = 0\<rparr>"

definition addressOf :: "apint \<Rightarrow> 64 word result" where
  "addressOf c = (if bitWidth c > 64 then Abort else Ok (word_of_int (apValue c)))"

definition resolveOne_const :: "apint \<Rightarrow> AddressSpace \<Rightarrow> ObjectPair option result" where
  "resolveOne_const addr as =
     rbind (addressOf addr) (\<lambda>a. Ok
       (case lookup_previous fst MemoryObjectLT (hackObject a) (objects as) of
          None \<Rightarrow> None
        | Some (mo, os) \<Rightarrow>
            if moSize mo = 0 \<and> a = moAddress mo \<or> unat (a - moAddress mo) < moSize mo then Some (mo, os) else None))"

text \<open>
  In the loops a query that fails leaves the function with the value \<open>fail\<close>. \<open>None\<close> as the result of
  the symbolic \<open>resolveOne\<close> is its return value false, \<open>Some\<close> gives \<open>success\<close> with the object found.
\<close>

definition ask :: "('q, bool) query \<Rightarrow> 'q \<Rightarrow> ('q \<Rightarrow> 'r) \<Rightarrow> (bool \<Rightarrow> 'q \<Rightarrow> ('s, 'r) control result) \<Rightarrow> ('s, 'r) control result" where
  "ask m q fail f = rbind (m q) (\<lambda>(r, q1). case r of None \<Rightarrow> Ok (Return (fail q1)) | Some b \<Rightarrow> f b q1)"

definition resolveOne_back :: "Context \<Rightarrow> 'q TimingSolver \<Rightarrow> constraints \<Rightarrow> expr \<Rightarrow> ObjectPair \<Rightarrow> 'q \<Rightarrow>
    ('q, ObjectPair option option \<times> 'q) control result" where
  "resolveOne_back C T cs p op q =
     ask (TimingSolver_mayBeTrue T cs (getBoundsCheckPointer C (fst op) p)) q (\<lambda>q1. (None, q1)) (\<lambda>mayBeTrue q1.
       if mayBeTrue then Ok (Return (Some (Some op), q1))
       else ask (TimingSolver_mustBeTrue T cs (UgeExpr_create (constArrayOpt C) p (getBaseExpr C (fst op)))) q1
         (\<lambda>q2. (None, q2)) (\<lambda>mustBeTrue q2. Ok (if mustBeTrue then Break q2 else Continue q2)))"

definition resolveOne_forward :: "Context \<Rightarrow> 'q TimingSolver \<Rightarrow> constraints \<Rightarrow> expr \<Rightarrow> ObjectPair \<Rightarrow> 'q \<Rightarrow>
    ('q, ObjectPair option option \<times> 'q) control result" where
  "resolveOne_forward C T cs p op q =
     ask (TimingSolver_mustBeTrue T cs (UltExpr_create (constArrayOpt C) p (getBaseExpr C (fst op)))) q
       (\<lambda>q1. (None, q1)) (\<lambda>mustBeTrue q1.
       if mustBeTrue then Ok (Break q1)
       else ask (TimingSolver_mayBeTrue T cs (getBoundsCheckPointer C (fst op) p)) q1 (\<lambda>q2. (None, q2)) (\<lambda>mayBeTrue q2.
         Ok (if mayBeTrue then Return (Some (Some op), q2) else Continue q2)))"

definition resolveOne_search :: "Context \<Rightarrow> 'q TimingSolver \<Rightarrow> constraints \<Rightarrow> expr \<Rightarrow> MemoryMap \<Rightarrow> 64 word \<Rightarrow> 'q \<Rightarrow>
    (ObjectPair option option \<times> 'q) result" where
  "resolveOne_search C T cs p t example q =
     (let start = upper_bound fst MemoryObjectLT (hackObject example) t
      in rbind (walkBack (sizeT t + 1) (beginT t) (resolveOne_back C T cs p) start q) (\<lambda>c1.
           case c1 of
             Return x \<Rightarrow> Ok x
           | Break q1 \<Rightarrow>
               rbind (walkForward (sizeT t + 1) (endT t) (resolveOne_forward C T cs p) start q1) (\<lambda>c2.
                 case c2 of Return x \<Rightarrow> Ok x | Break q2 \<Rightarrow> Ok (Some None, q2) | Continue q2 \<Rightarrow> Abort)
           | Continue q1 \<Rightarrow> Abort))"

definition resolveOne :: "Context \<Rightarrow> 'q TimingSolver \<Rightarrow> constraints \<Rightarrow> expr \<Rightarrow> AddressSpace \<Rightarrow> 'q \<Rightarrow>
    (ObjectPair option option \<times> 'q) result" where
  "resolveOne C T cs p as q =
     (case p of
        ConstantExpr CE \<Rightarrow> rbind (resolveOne_const CE as) (\<lambda>r. Ok (Some r, q))
      | _ \<Rightarrow>
          rbind (TimingSolver_getValue T cs p q) (\<lambda>(cex, q0).
            case cex of
              None \<Rightarrow> Ok (None, q0)
            | Some c \<Rightarrow>
                rbind (addressOf c) (\<lambda>example.
                  case lookup_previous fst MemoryObjectLT (hackObject example) (objects as) of
                    Some (mo, os) \<Rightarrow>
                      if unat (example - moAddress mo) < moSize mo then Ok (Some (Some (mo, os)), q0)
                      else resolveOne_search C T cs p (objects as) example q0
                  | None \<Rightarrow> resolveOne_search C T cs p (objects as) example q0)))"

text \<open>
  \<open>resolve\<close> collects the objects a pointer may point to. \<open>expired\<close> tells for each iteration whether
  the timer has passed the timeout; the state of the loops is the resolution list, the number of
  iterations and the state of the solver. The result is whether the list is incomplete.
\<close>

type_synonym 'q resolution = "ObjectPair list \<times> nat \<times> 'q"

definition checkPointerInObject :: "Context \<Rightarrow> 'q TimingSolver \<Rightarrow> constraints \<Rightarrow> expr \<Rightarrow> ObjectPair \<Rightarrow> ObjectPair list \<Rightarrow> nat \<Rightarrow> 'q \<Rightarrow>
    ((nat \<times> ObjectPair list) \<times> 'q) result" where
  "checkPointerInObject C T cs p op rl maxResolutions q =
     (let inBounds = getBoundsCheckPointer C (fst op) p
      in rbind (TimingSolver_mayBeTrue T cs inBounds q) (\<lambda>(r, q1).
           case r of
             None \<Rightarrow> Ok ((1, rl), q1)
           | Some mayBeTrue \<Rightarrow>
               if mayBeTrue then
                 (let rl' = rl @ [op]
                  in if length rl' = 1 then
                       rbind (TimingSolver_mustBeTrue T cs inBounds q1) (\<lambda>(r2, q2).
                         Ok ((case r2 of None \<Rightarrow> 1 | Some mustBeTrue \<Rightarrow> if mustBeTrue then 0 else 2, rl'), q2))
                     else Ok ((if length rl' = maxResolutions then 1 else 2, rl'), q1))
               else Ok ((2, rl), q1)))"

definition resolve_back :: "Context \<Rightarrow> 'q TimingSolver \<Rightarrow> constraints \<Rightarrow> (nat \<Rightarrow> bool) \<Rightarrow> expr \<Rightarrow> nat \<Rightarrow> ObjectPair \<Rightarrow> 'q resolution \<Rightarrow>
    ('q resolution, (bool \<times> ObjectPair list) \<times> 'q) control result" where
  "resolve_back C T cs expired p maxResolutions op s =
     (case s of (rl, i, q) \<Rightarrow>
        if expired i then Ok (Return ((True, rl), q))
        else rbind (checkPointerInObject C T cs p op rl maxResolutions q) (\<lambda>((incomplete, rl'), q1).
          if incomplete \<noteq> 2 then Ok (Return ((incomplete \<noteq> 0, rl'), q1))
          else ask (TimingSolver_mustBeTrue T cs (UgeExpr_create (constArrayOpt C) p (getBaseExpr C (fst op)))) q1
            (\<lambda>q2. ((True, rl'), q2)) (\<lambda>mustBeTrue q2.
              Ok (if mustBeTrue then Break (rl', Suc i, q2) else Continue (rl', Suc i, q2)))))"

definition resolve_forward :: "Context \<Rightarrow> 'q TimingSolver \<Rightarrow> constraints \<Rightarrow> (nat \<Rightarrow> bool) \<Rightarrow> expr \<Rightarrow> nat \<Rightarrow> ObjectPair \<Rightarrow> 'q resolution \<Rightarrow>
    ('q resolution, (bool \<times> ObjectPair list) \<times> 'q) control result" where
  "resolve_forward C T cs expired p maxResolutions op s =
     (case s of (rl, i, q) \<Rightarrow>
        if expired i then Ok (Return ((True, rl), q))
        else ask (TimingSolver_mustBeTrue T cs (UltExpr_create (constArrayOpt C) p (getBaseExpr C (fst op)))) q
          (\<lambda>q1. ((True, rl), q1)) (\<lambda>mustBeTrue q1.
            if mustBeTrue then Ok (Break (rl, Suc i, q1))
            else rbind (checkPointerInObject C T cs p op rl maxResolutions q1) (\<lambda>((incomplete, rl'), q2).
              Ok (if incomplete \<noteq> 2 then Return ((incomplete \<noteq> 0, rl'), q2) else Continue (rl', Suc i, q2)))))"

definition resolve :: "Context \<Rightarrow> 'q TimingSolver \<Rightarrow> constraints \<Rightarrow> (nat \<Rightarrow> bool) \<Rightarrow> expr \<Rightarrow> ObjectPair list \<Rightarrow> nat \<Rightarrow> AddressSpace \<Rightarrow> 'q \<Rightarrow>
    ((bool \<times> ObjectPair list) \<times> 'q) result" where
  "resolve C T cs expired p rl maxResolutions as q =
     (case p of
        ConstantExpr CE \<Rightarrow>
          rbind (resolveOne_const CE as) (\<lambda>r. Ok ((False, case r of Some op \<Rightarrow> rl @ [op] | None \<Rightarrow> rl), q))
      | _ \<Rightarrow>
          rbind (TimingSolver_getValue T cs p q) (\<lambda>(cex, q0).
            case cex of
              None \<Rightarrow> Ok ((True, rl), q0)
            | Some c \<Rightarrow>
                rbind (addressOf c) (\<lambda>example.
                  let t = objects as;
                      start = upper_bound fst MemoryObjectLT (hackObject example) t
                  in rbind (walkBack (sizeT t + 1) (beginT t) (resolve_back C T cs expired p maxResolutions) start (rl, 0, q0)) (\<lambda>c1.
                       case c1 of
                         Return x \<Rightarrow> Ok x
                       | Break s1 \<Rightarrow>
                           rbind (walkForward (sizeT t + 1) (endT t) (resolve_forward C T cs expired p maxResolutions) start s1) (\<lambda>c2.
                             case c2 of Return x \<Rightarrow> Ok x | Break (rl', i, q2) \<Rightarrow> Ok ((False, rl'), q2) | Continue s2 \<Rightarrow> Abort)
                       | Continue s1 \<Rightarrow> Abort))))"

subsection \<open>Passing memory to external code\<close>

text \<open>The memory of the process; an object occupies the addresses from its own.\<close>

type_synonym memory = "64 word \<Rightarrow> 8 word"

definition memcpyOut :: "64 word \<Rightarrow> 8 word list \<Rightarrow> nat \<Rightarrow> memory \<Rightarrow> memory" where
  "memcpyOut a bytes n m = (\<lambda>x. if unat (x - a) < n then bytes ! unat (x - a) else m x)"

definition readMemory :: "64 word \<Rightarrow> nat \<Rightarrow> memory \<Rightarrow> 8 word list" where
  "readMemory a n m = map (\<lambda>i. m (a + of_nat i)) [0..<n]"

definition copyOut_body :: "heap \<Rightarrow> ObjectPair \<Rightarrow> memory \<Rightarrow> (memory, unit) control result" where
  "copyOut_body h op m =
     (case op of (mo, r) \<Rightarrow>
        if \<not> isUserSpecified mo \<and> \<not> readOnly (h ! r)
        then Ok (Continue (memcpyOut (moAddress mo) (concreteStore (h ! r)) (moSize mo) m))
        else Ok (Continue m))"

definition copyOutConcretes :: "heap \<Rightarrow> AddressSpace \<Rightarrow> memory \<Rightarrow> memory result" where
  "copyOutConcretes h as m =
     rbind (walkForward (sizeT (objects as) + 1) (endT (objects as)) (copyOut_body h) (beginT (objects as)) m) (\<lambda>c.
       case c of Break m' \<Rightarrow> Ok m' | Continue m' \<Rightarrow> Abort | Return u \<Rightarrow> Abort)"

definition copyInConcrete :: "memory \<Rightarrow> MemoryObject \<Rightarrow> nat \<Rightarrow> 64 word \<Rightarrow> heap \<times> AddressSpace \<Rightarrow> (bool \<times> heap \<times> AddressSpace) result" where
  "copyInConcrete m mo r src_address s =
     (case s of (h, as) \<Rightarrow>
        if readMemory src_address (moSize mo) m \<noteq> take (moSize mo) (concreteStore (h ! r))
        then if readOnly (h ! r) then Ok (False, h, as)
             else rbind (getWriteable mo r (h, as)) (\<lambda>(wr, h', as').
               Ok (True, h'[wr := (h' ! wr)\<lparr>concreteStore :=
                 readMemory src_address (moSize mo) m @ drop (moSize mo) (concreteStore (h' ! wr))\<rparr>], as'))
        else Ok (True, h, as))"

definition copyIn_body :: "memory \<Rightarrow> ObjectPair \<Rightarrow> heap \<times> AddressSpace \<Rightarrow> (heap \<times> AddressSpace, heap \<times> AddressSpace) control result" where
  "copyIn_body m op s =
     (case op of (mo, r) \<Rightarrow>
        if \<not> isUserSpecified mo
        then rbind (copyInConcrete m mo r (moAddress mo) s) (\<lambda>(ok, s'). Ok (if ok then Continue s' else Return s'))
        else Ok (Continue s))"

definition copyInConcretes :: "memory \<Rightarrow> heap \<times> AddressSpace \<Rightarrow> (bool \<times> heap \<times> AddressSpace) result" where
  "copyInConcretes m s =
     (let t = objects (snd s)
      in rbind (walkForward (sizeT t + 1) (endT t) (copyIn_body m) (beginT t) s) (\<lambda>c.
           case c of Break s' \<Rightarrow> Ok (True, s') | Return s' \<Rightarrow> Ok (False, s') | Continue s' \<Rightarrow> Abort))"

section \<open>The map of objects\<close>

text \<open>Objects are ordered by their addresses.\<close>

interpretation memory_map: key_compare fst MemoryObjectLT moAddress
  by unfold_locales (simp add: MemoryObjectLT_def)

section \<open>Layouts\<close>

text \<open>
  An object covers the addresses from its own up to its size; an object of size zero covers its own
  address. In a well-formed layout no object wraps around the end of the memory and no two objects
  overlap.
\<close>

definition inside :: "MemoryObject \<Rightarrow> 64 word \<Rightarrow> bool" where
  "inside mo a \<longleftrightarrow> moSize mo = 0 \<and> a = moAddress mo \<or> unat (a - moAddress mo) < moSize mo"

definition extent :: "MemoryObject \<Rightarrow> int" where
  "extent mo = int (max 1 (moSize mo))"

definition layoutOK :: "MemoryMap \<Rightarrow> bool" where
  "layoutOK t \<longleftrightarrow>
     searchTree (\<lambda>v. moAddress (fst v)) t \<and>
     (\<forall>op \<in> set (inorder t). moSize (fst op) < 2 ^ 32 \<and> uint (moAddress (fst op)) + extent (fst op) \<le> 2 ^ 64) \<and>
     (\<forall>op \<in> set (inorder t). \<forall>op' \<in> set (inorder t). moAddress (fst op) < moAddress (fst op') \<longrightarrow>
        uint (moAddress (fst op)) + extent (fst op) \<le> uint (moAddress (fst op')))"

lemma uint_minus64: "uint (a - b :: 64 word) = (if uint b \<le> uint a then uint a - uint b else uint a - uint b + 2 ^ 64)"
proof -
  have m: "uint (a - b) = (uint a - uint b) mod 2 ^ 64" by (simp add: uint_word_ariths)
  have b: "0 \<le> uint a" "uint a < 2 ^ 64" "0 \<le> uint b" "uint b < 2 ^ 64" using uint_bounded [of a] uint_bounded [of b] uint_ge_0 by auto
  show ?thesis
  proof (cases "uint b \<le> uint a")
    case True
    then have "(uint a - uint b) mod 2 ^ 64 = uint a - uint b" using b by (intro mod_pos_pos_trivial) linarith+
    with True show ?thesis unfolding m by simp
  next
    case False
    then have "(uint a - uint b) mod 2 ^ 64 = (uint a - uint b + 2 ^ 64) mod 2 ^ 64" by simp
    also have "\<dots> = uint a - uint b + 2 ^ 64" using False b by (intro mod_pos_pos_trivial) linarith+
    finally show ?thesis unfolding m using False by simp
  qed
qed

lemma inside_arith:
  fixes X A N :: int and n :: nat
  assumes "D = (if A \<le> X then X - A else X - A + N)" "A + int (max 1 n) \<le> N" "0 \<le> X" "X < N" "0 \<le> A"
  shows "(n = 0 \<and> X = A \<or> D < int n) \<longleftrightarrow> A \<le> X \<and> X < A + int (max 1 n)"
  using assms by (cases "A \<le> X"; cases n) auto

lemma inside_iff:
  assumes "uint (moAddress mo) + extent mo \<le> 2 ^ 64"
  shows "inside mo a \<longleftrightarrow> uint (moAddress mo) \<le> uint a \<and> uint a < uint (moAddress mo) + extent mo"
proof -
  have "unat (a - moAddress mo) < moSize mo \<longleftrightarrow> uint (a - moAddress mo) < int (moSize mo)"
    by (simp only: of_nat_less_iff [symmetric, where 'a = int] uint_nat [symmetric])
  moreover have "a = moAddress mo \<longleftrightarrow> uint a = uint (moAddress mo)" by (rule word_uint_eq_iff)
  moreover have "(moSize mo = 0 \<and> uint a = uint (moAddress mo) \<or> uint (a - moAddress mo) < int (moSize mo)) \<longleftrightarrow>
      uint (moAddress mo) \<le> uint a \<and> uint a < uint (moAddress mo) + int (max 1 (moSize mo))"
    by (rule inside_arith [OF uint_minus64]) (use assms uint_bounded [of a] in \<open>simp_all add: extent_def\<close>)
  ultimately show ?thesis by (simp only: inside_def extent_def)
qed

lemma layoutD:
  assumes "layoutOK t"
  shows "memory_map.search t" "op \<in> set (inorder t) \<Longrightarrow> uint (moAddress (fst op)) + extent (fst op) \<le> 2 ^ 64"
    "op \<in> set (inorder t) \<Longrightarrow> op' \<in> set (inorder t) \<Longrightarrow> moAddress (fst op) < moAddress (fst op') \<Longrightarrow>
      uint (moAddress (fst op)) + extent (fst op) \<le> uint (moAddress (fst op'))"
    "op \<in> set (inorder t) \<Longrightarrow> moSize (fst op) < 2 ^ 32"
  using assms memory_map.search_iff [of t] by (auto simp: layoutOK_def)

lemma inside_unique:
  assumes "layoutOK t" "op \<in> set (inorder t)" "op' \<in> set (inorder t)" "inside (fst op) a" "inside (fst op') a"
  shows "op = op'"
proof -
  note i = inside_iff [OF layoutD(2) [OF assms(1,2)], of a] inside_iff [OF layoutD(2) [OF assms(1,3)], of a]
  have "\<not> moAddress (fst op) < moAddress (fst op')" "\<not> moAddress (fst op') < moAddress (fst op)"
    using layoutD(3) [OF assms(1,2,3)] layoutD(3) [OF assms(1,3,2)] i assms(4,5) by fastforce+
  then show ?thesis
    using memory_map.tree.elems_unique [OF layoutD(1) [OF assms(1)] assms(2,3)] by simp
qed

lemma resolveOne_const_eq:
  assumes "layoutOK (objects as)" "bitWidth c \<le> 64"
  shows "\<exists>r. resolveOne_const c as = Ok r \<and>
    (\<forall>op. r = Some op \<longleftrightarrow> op \<in> set (inorder (objects as)) \<and> inside (fst op) (word_of_int (apValue c)))"
proof -
  let ?t = "objects as" and ?a = "word_of_int (apValue c) :: 64 word"
  note t = layoutD(1) [OF assms(1)]
  have asc: "memory_map.asc (inorder ?t)" using t by (simp add: memory_map.search_def)
  have lp: "lookup_previous fst MemoryObjectLT (hackObject ?a) ?t = Some op \<longleftrightarrow> op \<in> set (inorder ?t) \<and> moAddress (fst op) \<le> ?a \<and>
      (\<forall>w \<in> set (inorder ?t). moAddress (fst w) \<le> ?a \<longrightarrow> moAddress (fst w) \<le> moAddress (fst op))" for op
    using memory_map.lookup_previous_eq [OF t, of "hackObject ?a"] memory_map.previous_Some [OF asc] by (simp add: hackObject_def)
  have in_le: "op \<in> set (inorder ?t) \<Longrightarrow> inside (fst op) ?a \<Longrightarrow> moAddress (fst op) \<le> ?a" for op
    using inside_iff [OF layoutD(2) [OF assms(1)], of op ?a] by (simp add: word_le_def)
  have found: "lookup_previous fst MemoryObjectLT (hackObject ?a) ?t = Some op" if op: "op \<in> set (inorder ?t)" "inside (fst op) ?a" for op
  proof -
    have "moAddress (fst w) \<le> moAddress (fst op)" if w: "w \<in> set (inorder ?t)" "moAddress (fst w) \<le> ?a" for w
    proof (rule ccontr)
      assume "\<not> ?thesis"
      then have "uint (moAddress (fst op)) + extent (fst op) \<le> uint (moAddress (fst w))" using layoutD(3) [OF assms(1) op(1) w(1)] by simp
      moreover have "uint ?a < uint (moAddress (fst op)) + extent (fst op)" using inside_iff [OF layoutD(2) [OF assms(1) op(1)], of ?a] op(2) by simp
      ultimately show False using w(2) by (simp add: word_le_def)
    qed
    with lp in_le [OF op] op(1) show ?thesis by simp
  qed
  show ?thesis
  proof (cases "lookup_previous fst MemoryObjectLT (hackObject ?a) ?t")
    case None
    then have "resolveOne_const c as = Ok None" using assms(2) by (simp add: resolveOne_const_def addressOf_def)
    moreover have "\<not> (op \<in> set (inorder ?t) \<and> inside (fst op) ?a)" for op using found [of op] None by auto
    ultimately show ?thesis by (intro exI [of _ None] conjI allI) (assumption, metis option.distinct(1))
  next
    case (Some op)
    have r: "resolveOne_const c as = Ok (if inside (fst op) ?a then Some op else None)"
      using Some assms(2) by (cases op) (simp add: resolveOne_const_def addressOf_def inside_def)
    have "op' = op" if "op' \<in> set (inorder ?t)" "inside (fst op') ?a" for op' using found [OF that] Some by simp
    moreover have "op \<in> set (inorder ?t)" using lp [of op] Some by simp
    ultimately have "(if inside (fst op) ?a then Some op else None) = Some op' \<longleftrightarrow> op' \<in> set (inorder ?t) \<and> inside (fst op') ?a" for op'
      by (metis option.distinct(1) option.inject)
    with r show ?thesis by (intro exI [of _ "if inside (fst op) ?a then Some op else None"] conjI allI)
  qed
qed

end
