(* ===== verification/CopyOnWrite.thy ===== *)
theory CopyOnWrite
  imports AddressSpace
begin

text \<open>
  The states of an execution share object states until one of them writes. This theory follows a
  heap and the address spaces of all states through allocation, binding, forking and writing, and
  shows that a write in one address space is never seen in another.
\<close>

section \<open>Steps\<close>

type_synonym system = "heap \<times> AddressSpace list"

text \<open>
  A step of the system: a new object state is allocated, bound or unbound; a state is forked, as long
  as the epoch counter does not overflow; a state writes to an object it has found; or an object
  state is touched by a read, which may move its bytes between its stores. Writes and reads keep the
  owner of an object state.
\<close>

inductive cowStep :: "system \<Rightarrow> system \<Rightarrow> bool" where
  allocate: "copyOnWriteOwner os = 0 \<Longrightarrow> cowStep (h, ss) (h @ [os], ss)"
| bind: "i < length ss \<Longrightarrow> bindObject mo r (h, ss ! i) = Ok (h', as) \<Longrightarrow> cowStep (h, ss) (h', ss[i := as])"
| unbind: "i < length ss \<Longrightarrow> cowStep (h, ss) (h, ss[i := unbindObject mo (ss ! i)])"
| fork: "i < length ss \<Longrightarrow> cowKey (ss ! i) + 1 < 2 ^ 32 \<Longrightarrow> AddressSpace_copy (ss ! i) = (as, child) \<Longrightarrow>
    cowStep (h, ss) (h, ss[i := as] @ [child])"
| wrote: "i < length ss \<Longrightarrow> findObject mo (ss ! i) = Some r \<Longrightarrow> getWriteable mo r (h, ss ! i) = Ok (wr, h', as) \<Longrightarrow>
    (\<And>os. copyOnWriteOwner (f os) = copyOnWriteOwner os) \<Longrightarrow> cowStep (h, ss) (h'[wr := f (h' ! wr)], ss[i := as])"
| touch: "r < length h \<Longrightarrow> (\<And>os. copyOnWriteOwner (f os) = copyOnWriteOwner os) \<Longrightarrow> cowStep (h, ss) (h[r := f (h ! r)], ss)"

inductive cowReachable :: "system \<Rightarrow> bool" where
  start: "cowReachable ([], [AddressSpace_new])"
| step: "cowReachable s \<Longrightarrow> cowStep s s' \<Longrightarrow> cowReachable s'"

section \<open>The invariant\<close>

definition boundObjects :: "AddressSpace \<Rightarrow> ObjectPair set" where
  "boundObjects as = set (inorder (objects as))"

definition spaceOK :: "heap \<Rightarrow> AddressSpace \<Rightarrow> bool" where
  "spaceOK h as \<longleftrightarrow>
     memory_map.search (objects as) \<and> 1 \<le> cowKey as \<and>
     (\<forall>r \<in> snd ` boundObjects as. r < length h \<and> 1 \<le> copyOnWriteOwner (h ! r) \<and> copyOnWriteOwner (h ! r) \<le> cowKey as) \<and>
     inj_on snd (boundObjects as)"

text \<open>An object state that two address spaces refer to belongs to neither of them.\<close>

definition notShared :: "heap \<Rightarrow> AddressSpace \<Rightarrow> AddressSpace \<Rightarrow> bool" where
  "notShared h as bs \<longleftrightarrow>
     (\<forall>r \<in> snd ` boundObjects as \<inter> snd ` boundObjects bs. copyOnWriteOwner (h ! r) < cowKey as)"

definition systemOK :: "system \<Rightarrow> bool" where
  "systemOK s \<longleftrightarrow>
     (\<forall>as \<in> set (snd s). spaceOK (fst s) as) \<and>
     (\<forall>i < length (snd s). \<forall>j < length (snd s). i \<noteq> j \<longrightarrow> notShared (fst s) (snd s ! i) (snd s ! j))"

lemma systemOK_spaces: "systemOK (h, ss) \<Longrightarrow> i < length ss \<Longrightarrow> spaceOK h (ss ! i)"
  by (simp add: systemOK_def)

lemma systemOK_pairs: "systemOK (h, ss) \<Longrightarrow> i < length ss \<Longrightarrow> j < length ss \<Longrightarrow> i \<noteq> j \<Longrightarrow> notShared h (ss ! i) (ss ! j)"
  by (simp add: systemOK_def)

lemma systemOK_update:
  assumes "systemOK (h, ss)" "i < length ss" "spaceOK h' as"
    and "\<And>j. j < length ss \<Longrightarrow> j \<noteq> i \<Longrightarrow> spaceOK h' (ss ! j) \<and> notShared h' as (ss ! j) \<and> notShared h' (ss ! j) as"
    and "\<And>j k. j < length ss \<Longrightarrow> k < length ss \<Longrightarrow> j \<noteq> i \<Longrightarrow> k \<noteq> i \<Longrightarrow> j \<noteq> k \<Longrightarrow> notShared h' (ss ! j) (ss ! k)"
  shows "systemOK (h', ss[i := as])"
  using assms by (auto simp: systemOK_def nth_list_update all_set_conv_all_nth)

text \<open>A heap in which the owners of the bound object states are the same.\<close>

definition sameOwners :: "heap \<Rightarrow> heap \<Rightarrow> nat set \<Rightarrow> bool" where
  "sameOwners h h' R \<longleftrightarrow> length h \<le> length h' \<and> (\<forall>r \<in> R. r < length h \<longrightarrow> copyOnWriteOwner (h' ! r) = copyOnWriteOwner (h ! r))"

lemma sameOwnersD:
  assumes "sameOwners h h' R" "r \<in> R" "r < length h"
  shows "r < length h'" "copyOnWriteOwner (h' ! r) = copyOnWriteOwner (h ! r)"
  using assms unfolding sameOwners_def by auto

lemma spaceOKD:
  assumes "spaceOK h as"
  shows "memory_map.search (objects as)" "1 \<le> cowKey as" "inj_on snd (boundObjects as)"
    "r \<in> snd ` boundObjects as \<Longrightarrow> r < length h" "r \<in> snd ` boundObjects as \<Longrightarrow> 1 \<le> copyOnWriteOwner (h ! r)"
    "r \<in> snd ` boundObjects as \<Longrightarrow> copyOnWriteOwner (h ! r) \<le> cowKey as"
  using assms unfolding spaceOK_def by blast+

lemma spaceOK_heap:
  assumes "spaceOK h as" "sameOwners h h' (snd ` boundObjects as)"
  shows "spaceOK h' as"
  unfolding spaceOK_def
proof (intro conjI ballI)
  fix r assume r: "r \<in> snd ` boundObjects as"
  note o = sameOwnersD [OF assms(2) r spaceOKD(4) [OF assms(1) r]]
  show "r < length h'" "1 \<le> copyOnWriteOwner (h' ! r)" "copyOnWriteOwner (h' ! r) \<le> cowKey as"
    using o spaceOKD(5,6) [OF assms(1) r] by simp_all
qed (rule spaceOKD [OF assms(1)])+

lemma notShared_heap:
  assumes "notShared h as bs" "spaceOK h as" "sameOwners h h' (snd ` boundObjects as)"
  shows "notShared h' as bs"
  unfolding notShared_def
proof
  fix r assume r: "r \<in> snd ` boundObjects as \<inter> snd ` boundObjects bs"
  then have "r \<in> snd ` boundObjects as" by blast
  from sameOwnersD(2) [OF assms(3) this spaceOKD(4) [OF assms(2) this]] assms(1) r
  show "copyOnWriteOwner (h' ! r) < cowKey as" unfolding notShared_def by metis
qed

lemma systemOK_heap:
  assumes "systemOK (h, ss)" "\<And>as. as \<in> set ss \<Longrightarrow> sameOwners h h' (snd ` boundObjects as)"
  shows "systemOK (h', ss)"
  using assms(1) spaceOK_heap notShared_heap assms(2) unfolding systemOK_def by (metis fst_conv nth_mem snd_conv)

section \<open>Every step keeps the invariant\<close>

lemma bound_replace:
  assumes "memory_map.search (objects as)"
  shows "memory_map.search (replaceT fst MemoryObjectLT (mo, r) (objects as))"
    "boundObjects (as\<lparr>objects := replaceT fst MemoryObjectLT (mo, r) (objects as)\<rparr>) =
       insert (mo, r) {op \<in> boundObjects as. moAddress (fst op) \<noteq> moAddress mo}"
  using memory_map.tree.inv_replace [OF assms] memory_map.tree.elems_replace [OF assms] by (auto simp: boundObjects_def)

lemma bound_remove:
  assumes "memory_map.search (objects as)"
  shows "memory_map.search (objects (unbindObject mo as))" "boundObjects (unbindObject mo as) \<subseteq> boundObjects as"
    "cowKey (unbindObject mo as) = cowKey as"
  using memory_map.tree.inv_remove [OF assms] memory_map.tree.elems_remove [OF assms] by (auto simp: unbindObject_def boundObjects_def)

lemma findObject_bound:
  assumes "memory_map.search (objects as)"
  shows "findObject mo as = Some r \<longleftrightarrow> (\<exists>mo'. (mo', r) \<in> boundObjects as \<and> moAddress mo' = moAddress mo)"
  unfolding findObject_def boundObjects_def memory_map.tree.lookup_abs [OF assms]
  using memory_map.tree.abs_elems [OF assms, of "moAddress mo"] by fastforce

lemma spaceOK_subset:
  assumes "spaceOK h as" "memory_map.search (objects bs)" "boundObjects bs \<subseteq> boundObjects as" "cowKey as \<le> cowKey bs"
  shows "spaceOK h bs"
  unfolding spaceOK_def
proof (intro conjI ballI)
  fix r assume "r \<in> snd ` boundObjects bs"
  then have "r \<in> snd ` boundObjects as" using assms(3) by blast
  from spaceOKD(4-6) [OF assms(1) this] assms(4)
  show "r < length h" "1 \<le> copyOnWriteOwner (h ! r)" "copyOnWriteOwner (h ! r) \<le> cowKey bs" by simp_all
qed (use assms spaceOKD(2,3) [OF assms(1)] inj_on_subset in auto)

text \<open>
  A new binding to an object state that no address space refers to and that belongs to the address
  space it is added to.
\<close>

lemma systemOK_replace:
  assumes ok: "systemOK (h, ss)" and i: "i < length ss" and r: "r < length h'" "copyOnWriteOwner (h' ! r) = cowKey (ss ! i)"
    and fresh: "\<And>as. as \<in> set ss \<Longrightarrow> r \<notin> snd ` boundObjects as"
    and own: "\<And>as. as \<in> set ss \<Longrightarrow> sameOwners h h' (snd ` boundObjects as)"
  shows "systemOK (h', ss[i := (ss ! i)\<lparr>objects := replaceT fst MemoryObjectLT (mo, r) (objects (ss ! i))\<rparr>])"
proof (rule systemOK_update [OF ok i])
  let ?as = "ss ! i"
  let ?bs = "?as\<lparr>objects := replaceT fst MemoryObjectLT (mo, r) (objects ?as)\<rparr>"
  have mem: "\<And>j. j < length ss \<Longrightarrow> ss ! j \<in> set ss" by simp
  note sp = systemOK_spaces [OF ok] and pr = systemOK_pairs [OF ok]
  have ok': "\<And>j. j < length ss \<Longrightarrow> spaceOK h' (ss ! j)" using spaceOK_heap [OF sp own [OF mem]] by blast
  have pr': "\<And>j k. j < length ss \<Longrightarrow> k < length ss \<Longrightarrow> j \<noteq> k \<Longrightarrow> notShared h' (ss ! j) (ss ! k)"
    using notShared_heap [OF pr sp own [OF mem]] by blast
  have srch: "memory_map.search (objects ?as)" using sp [OF i] by (simp add: spaceOK_def)
  note br = bound_replace [OF srch, of mo r]
  have sub: "snd ` boundObjects ?bs \<subseteq> insert r (snd ` boundObjects ?as)" unfolding br(2) by auto
  have fr: "r \<notin> snd ` boundObjects (ss ! j)" if "j < length ss" for j using fresh [OF mem [OF that]] .
  show "spaceOK h' ?bs"
    unfolding spaceOK_def
  proof (intro conjI ballI)
    fix x assume "x \<in> snd ` boundObjects ?bs"
    then consider "x = r" | "x \<in> snd ` boundObjects ?as" using sub by blast
    then show "x < length h'" "1 \<le> copyOnWriteOwner (h' ! x)" "copyOnWriteOwner (h' ! x) \<le> cowKey ?bs"
      using spaceOKD [OF ok' [OF i]] r by (cases, simp_all)+
  next
    have "inj_on snd {op \<in> boundObjects ?as. moAddress (fst op) \<noteq> moAddress mo}"
      by (rule inj_on_subset [OF spaceOKD(3) [OF ok' [OF i]]]) blast
    then show "inj_on snd (boundObjects ?bs)" unfolding br(2) using fr [OF i] by (subst inj_on_insert) auto
  qed (use br(1) spaceOKD(2) [OF ok' [OF i]] in simp_all)
  fix j assume j: "j < length ss" "j \<noteq> i"
  have both: "snd ` boundObjects ?bs \<inter> snd ` boundObjects (ss ! j) \<subseteq> snd ` boundObjects ?as \<inter> snd ` boundObjects (ss ! j)"
    using sub fr [OF j(1)] by blast
  show "spaceOK h' (ss ! j) \<and> notShared h' ?bs (ss ! j) \<and> notShared h' (ss ! j) ?bs"
  proof (intro conjI)
    have key: "cowKey ?bs = cowKey ?as" by simp
    show "notShared h' ?bs (ss ! j)"
      unfolding notShared_def key
      using pr' [OF i j(1) j(2) [symmetric], unfolded notShared_def] both by (meson subsetD)
    show "notShared h' (ss ! j) ?bs"
      unfolding notShared_def Int_commute [of "snd ` boundObjects (ss ! j)"]
      using pr' [OF j(1) i j(2), unfolded notShared_def Int_commute [of "snd ` boundObjects (ss ! j)"]] both by (meson subsetD)
  qed (rule ok' [OF j(1)])
qed (rule notShared_heap [OF systemOK_pairs [OF ok] systemOK_spaces [OF ok] own], auto)

lemma sameOwners_refl: "sameOwners h h R"
  by (simp add: sameOwners_def)

lemma sameOwners_append: "sameOwners h (h @ xs) R"
  by (simp add: sameOwners_def nth_append)

lemma sameOwners_set:
  assumes "r \<notin> R \<or> copyOnWriteOwner os = copyOnWriteOwner (h ! r)"
  shows "sameOwners h (h[r := os]) R"
  unfolding sameOwners_def
proof (intro conjI ballI impI)
  fix x assume "x \<in> R" "x < length h"
  then show "copyOnWriteOwner (h[r := os] ! x) = copyOnWriteOwner (h ! x)" using assms by (cases "x = r") auto
qed simp

lemma systemOK_bind:
  assumes ok: "systemOK (h, ss)" and i: "i < length ss" and b: "bindObject mo r (h, ss ! i) = Ok (h', as)"
  shows "systemOK (h', ss[i := as])"
proof -
  have r: "r < length h" "copyOnWriteOwner (h ! r) = 0"
    and h': "h' = h[r := (h ! r)\<lparr>copyOnWriteOwner := cowKey (ss ! i)\<rparr>]"
    and as: "as = (ss ! i)\<lparr>objects := replaceT fst MemoryObjectLT (mo, r) (objects (ss ! i))\<rparr>"
    using b by (auto simp: bindObject_def split: if_splits)
  have fresh: "r \<notin> snd ` boundObjects as" if "as \<in> set ss" for as
    using ok that r(2) spaceOKD(5) [of h as r] by (auto simp: systemOK_def)
  have own: "sameOwners h h' (snd ` boundObjects as)" if "as \<in> set ss" for as
    unfolding h' by (rule sameOwners_set) (use fresh [OF that] in blast)
  show ?thesis unfolding as by (rule systemOK_replace [OF ok i _ _ fresh own]) (use r h' in simp_all)
qed

lemma notShared_subset:
  assumes "notShared h as bs" "boundObjects as' \<subseteq> boundObjects as" "boundObjects bs' \<subseteq> boundObjects bs" "cowKey as \<le> cowKey as'"
  shows "notShared h as' bs'"
  unfolding notShared_def
proof
  fix r assume "r \<in> snd ` boundObjects as' \<inter> snd ` boundObjects bs'"
  then have "r \<in> snd ` boundObjects as \<inter> snd ` boundObjects bs" using assms(2,3) by blast
  with assms(1,4) show "copyOnWriteOwner (h ! r) < cowKey as'" unfolding notShared_def by (meson order_less_le_trans)
qed

lemma systemOK_shrink:
  assumes ok: "systemOK (h, ss)" and i: "i < length ss"
    and as: "memory_map.search (objects as)" "boundObjects as \<subseteq> boundObjects (ss ! i)" "cowKey (ss ! i) \<le> cowKey as"
  shows "systemOK (h, ss[i := as])"
proof (rule systemOK_update [OF ok i])
  show "spaceOK h as" by (rule spaceOK_subset [OF systemOK_spaces [OF ok i] as])
  fix j assume j: "j < length ss" "j \<noteq> i"
  show "spaceOK h (ss ! j) \<and> notShared h as (ss ! j) \<and> notShared h (ss ! j) as"
    using systemOK_spaces [OF ok j(1)] notShared_subset [OF systemOK_pairs [OF ok i j(1) j(2) [symmetric]] as(2) subset_refl as(3)]
      notShared_subset [OF systemOK_pairs [OF ok j(1) i j(2)] subset_refl as(2) order_refl] by blast
qed (rule systemOK_pairs [OF ok])

lemma systemOK_fork:
  assumes ok: "systemOK (h, ss)" and i: "i < length ss" and k: "cowKey (ss ! i) + 1 < 2 ^ 32"
    and c: "AddressSpace_copy (ss ! i) = (as, child)"
  shows "systemOK (h, ss[i := as] @ [child])"
proof -
  have as: "objects as = objects (ss ! i)" "cowKey as = cowKey (ss ! i) + 1"
    and ch: "objects child = objects (ss ! i)" "cowKey child = cowKey (ss ! i) + 1"
    using c k by (auto simp: AddressSpace_copy_def Let_def)
  have b: "boundObjects as = boundObjects (ss ! i)" "boundObjects child = boundObjects (ss ! i)"
    using as ch by (simp_all add: boundObjects_def)
  note sp = spaceOKD [OF systemOK_spaces [OF ok i]]
  have ok': "systemOK (h, ss[i := as])" by (rule systemOK_shrink [OF ok i]) (use sp as b in simp_all)
  have okc: "spaceOK h child" by (rule spaceOK_subset [OF systemOK_spaces [OF ok i]]) (use sp ch b in simp_all)
  have less: "copyOnWriteOwner (h ! r) < cowKey (ss ! i) + 1" if "r \<in> snd ` boundObjects (ss ! i)" for r
    using sp(6) [OF that] by simp
  have new: "notShared h child (ss[i := as] ! j) \<and> notShared h (ss[i := as] ! j) child" if j: "j < length ss" for j
  proof (cases "j = i")
    case True
    then show ?thesis using less i b as ch by (auto simp: notShared_def)
  next
    case False
    then show ?thesis
      using notShared_subset [OF systemOK_pairs [OF ok i j False [symmetric]], of child "ss ! j"]
        notShared_subset [OF systemOK_pairs [OF ok j i False], of "ss ! j" child] b ch by simp
  qed
  show ?thesis
    using ok' okc new unfolding systemOK_def by (auto simp: nth_append less_Suc_eq)
qed

text \<open>What \<^const>\<open>getWriteable\<close> gives back, on the two branches that do not abort.\<close>

lemma getWriteable_cases:
  assumes "getWriteable mo r (h, as) = Ok (wr, h', as')"
  obtains (own) "cowKey as = copyOnWriteOwner (h ! r)" "r < length h" "wr = r" "h' = h" "as' = as"
  | (copied) os where "ObjectState_copy (h ! r) = Some os" "r < length h" "wr = length h"
      "h' = h @ [os\<lparr>copyOnWriteOwner := cowKey as\<rparr>]"
      "as' = as\<lparr>objects := replaceT fst MemoryObjectLT (mo, length h) (objects as)\<rparr>"
proof -
  have r: "r < length h" "\<not> readOnly (h ! r)" using assms unfolding getWriteable_def by (auto split: if_split_asm)
  show thesis
  proof (cases "cowKey as = copyOnWriteOwner (h ! r)")
    case True
    then show thesis using own [OF True r(1)] assms r by (simp add: getWriteable_def)
  next
    case False
    show thesis by (rule copied [OF _ r(1)]) (use False assms r in \<open>auto simp: getWriteable_def ObjectState_copy_def\<close>)
  qed
qed

lemma systemOK_getWriteable:
  assumes ok: "systemOK (h, ss)" and i: "i < length ss" and g: "getWriteable mo r (h, ss ! i) = Ok (wr, h', as)"
  shows "systemOK (h', ss[i := as])"
  using g
proof (cases rule: getWriteable_cases)
  case own
  then show ?thesis using ok by simp
next
  case (copied os)
  have fresh: "length h \<notin> snd ` boundObjects as" if "as \<in> set ss" for as
    using ok that spaceOKD(4) [of h as "length h"] by (auto simp: systemOK_def)
  show ?thesis unfolding copied
    by (rule systemOK_replace [OF ok i _ _ fresh]) (simp_all add: sameOwners_append)
qed

lemma systemOK_touch:
  assumes "systemOK (h, ss)" "\<And>os. copyOnWriteOwner (f os) = copyOnWriteOwner os"
  shows "systemOK (h[r := f (h ! r)], ss)"
  by (rule systemOK_heap [OF assms(1)]) (rule sameOwners_set, simp add: assms(2))

lemma systemOK_step: "cowStep s s' \<Longrightarrow> systemOK s \<Longrightarrow> systemOK s'"
proof (induction rule: cowStep.induct)
  case (allocate os h ss)
  show ?case by (rule systemOK_heap [OF allocate(2)]) (rule sameOwners_append)
next
  case (unbind i ss h mo)
  show ?case
    by (rule systemOK_shrink [OF unbind(2,1)]) (use bound_remove [OF spaceOKD(1) [OF systemOK_spaces [OF unbind(2,1)]]] in simp_all)
next
  case (wrote i ss mo r h wr h' as f)
  show ?case by (rule systemOK_touch [OF systemOK_getWriteable [OF wrote(5,1,3)] wrote(4)])
qed (auto intro: systemOK_bind systemOK_fork systemOK_touch)

lemma systemOK_start: "systemOK ([], [AddressSpace_new])"
  by (simp add: systemOK_def spaceOK_def AddressSpace_new_def boundObjects_def notShared_def memory_map.tree.inv_empty)

lemma systemOK_reachable: "cowReachable s \<Longrightarrow> systemOK s"
  by (induction rule: cowReachable.induct) (auto intro: systemOK_start systemOK_step)

section \<open>Writes stay in their address space\<close>

text \<open>The object state an address space has for a memory object.\<close>

definition seenObject :: "heap \<Rightarrow> AddressSpace \<Rightarrow> MemoryObject \<Rightarrow> ObjectState option" where
  "seenObject h as mo = map_option ((!) h) (findObject mo as)"

lemma findObject_snd:
  assumes "spaceOK h as" "findObject mo as = Some r"
  shows "r \<in> snd ` boundObjects as"
  using assms(2) unfolding findObject_bound [OF spaceOKD(1) [OF assms(1)]] by force

lemma seenObject_outside:
  assumes "spaceOK h as" "r \<notin> snd ` boundObjects as"
  shows "seenObject (h[r := os]) as mo = seenObject h as mo" "seenObject (h @ [os]) as mo = seenObject h as mo"
  using findObject_snd [OF assms(1)] assms(2) spaceOKD(4) [OF assms(1)]
  by (auto simp: seenObject_def nth_append option.map_comp intro!: map_option_cong nth_list_update_neq)

lemma findObject_replace:
  assumes "memory_map.search (objects as)"
  shows "findObject mo' (as\<lparr>objects := replaceT fst MemoryObjectLT (mo, r) (objects as)\<rparr>) =
    (if moAddress mo' = moAddress mo then Some r else findObject mo' as)"
  using memory_map.tree.lookup_replace [OF assms] by (simp add: findObject_def)

text \<open>Two addresses of one address space never share an object state.\<close>

lemma findObject_inj:
  assumes "spaceOK h as" "findObject mo as = Some r" "findObject mo' as = Some r"
  shows "moAddress mo' = moAddress mo"
  using assms(2,3) spaceOKD(3) [OF assms(1)] unfolding findObject_bound [OF spaceOKD(1) [OF assms(1)]] inj_on_def by fastforce

lemma seenObject_other:
  assumes ok: "spaceOK h as" "findObject mo as = Some r" and ne: "moAddress mo' \<noteq> moAddress mo"
  shows "seenObject (h[r := os]) as mo' = seenObject h as mo'"
proof (cases "findObject mo' as")
  case (Some x)
  with findObject_inj [OF ok, of mo'] ne have "r \<noteq> x" by blast
  with Some show ?thesis by (simp add: seenObject_def)
qed (simp add: seenObject_def)

lemma getWriteable_new:
  assumes "\<not> readOnly (h ! r)" "r < length h"
  shows "\<exists>wr h' as'. getWriteable mo r (h, as) = Ok (wr, h', as') \<and> h' ! wr = (h ! r)\<lparr>copyOnWriteOwner := cowKey as\<rparr>"
  using assms by (cases "cowKey as = copyOnWriteOwner (h ! r)") (auto simp: getWriteable_def ObjectState_copy_def)

lemma write_local:
  assumes ok: "spaceOK h as" and f: "findObject mo as = Some r" and g: "getWriteable mo r (h, as) = Ok (wr, h', as')"
  shows "findObject mo as' = Some wr" and "wr < length h'"
    and "moAddress mo' \<noteq> moAddress mo \<Longrightarrow> seenObject (h'[wr := os]) as' mo' = seenObject h as mo'"
proof -
  note srch = spaceOKD(1) [OF ok]
  show "findObject mo as' = Some wr" using g by (cases rule: getWriteable_cases) (simp_all add: f findObject_replace [OF srch])
  show "wr < length h'" using g by (cases rule: getWriteable_cases) simp_all
  assume ne: "moAddress mo' \<noteq> moAddress mo"
  show "seenObject (h'[wr := os]) as' mo' = seenObject h as mo'"
    using g
  proof (cases rule: getWriteable_cases)
    case own
    then show ?thesis using seenObject_other [OF ok f ne] by simp
  next
    case (copied c)
    have "length h \<notin> snd ` boundObjects as" using spaceOKD(4) [OF ok] by blast
    from seenObject_outside(2) [OF ok this] show ?thesis using ne by (simp add: copied seenObject_def findObject_replace [OF srch])
  qed
qed

lemma write_elsewhere:
  assumes ok: "systemOK (h, ss)" and i: "i < length ss" and j: "j < length ss" "j \<noteq> i"
    and f: "findObject mo (ss ! i) = Some r" and g: "getWriteable mo r (h, ss ! i) = Ok (wr, h', as')"
  shows "seenObject (h'[wr := os]) (ss ! j) mo' = seenObject h (ss ! j) mo'"
  using g
proof (cases rule: getWriteable_cases)
  case own
  have "r \<notin> snd ` boundObjects (ss ! j)"
    using systemOK_pairs [OF ok i j(1) j(2) [symmetric]] findObject_snd [OF systemOK_spaces [OF ok i] f] own(1)
    unfolding notShared_def by auto
  from seenObject_outside(1) [OF systemOK_spaces [OF ok j(1)] this] show ?thesis by (simp add: own)
next
  case (copied c)
  have "length h \<notin> snd ` boundObjects (ss ! j)" using spaceOKD(4) [OF systemOK_spaces [OF ok j(1)]] by blast
  from seenObject_outside(2) [OF systemOK_spaces [OF ok j(1)] this] show ?thesis by (simp add: copied)
qed

section \<open>Properties\<close>

text \<open>
  C27: in every system that allocation, binding, unbinding, forking, reading and writing can produce,
  each memory map is a search tree, no two addresses of an address space share an object state, the
  owner of every bound object state lies between 1 and the epoch of each address space that refers to
  it, and an object state that two address spaces refer to is owned by neither of them.
\<close>

theorem cow_invariant:
  assumes "cowReachable (h, ss)"
  shows "(\<forall>as \<in> set ss. memory_map.search (objects as) \<and> inj_on snd (boundObjects as) \<and>
      (\<forall>(mo, r) \<in> boundObjects as. r < length h \<and> 1 \<le> copyOnWriteOwner (h ! r) \<and> copyOnWriteOwner (h ! r) \<le> cowKey as)) \<and>
    (\<forall>i < length ss. \<forall>j < length ss. i \<noteq> j \<longrightarrow>
      (\<forall>r \<in> snd ` boundObjects (ss ! i) \<inter> snd ` boundObjects (ss ! j).
         copyOnWriteOwner (h ! r) \<noteq> cowKey (ss ! i) \<and> copyOnWriteOwner (h ! r) \<noteq> cowKey (ss ! j)))"
proof
  note ok = systemOK_reachable [OF assms]
  show "\<forall>as \<in> set ss. memory_map.search (objects as) \<and> inj_on snd (boundObjects as) \<and>
      (\<forall>(mo, r) \<in> boundObjects as. r < length h \<and> 1 \<le> copyOnWriteOwner (h ! r) \<and> copyOnWriteOwner (h ! r) \<le> cowKey as)"
    using ok unfolding systemOK_def spaceOK_def by fastforce
  show "\<forall>i < length ss. \<forall>j < length ss. i \<noteq> j \<longrightarrow>
      (\<forall>r \<in> snd ` boundObjects (ss ! i) \<inter> snd ` boundObjects (ss ! j).
         copyOnWriteOwner (h ! r) \<noteq> cowKey (ss ! i) \<and> copyOnWriteOwner (h ! r) \<noteq> cowKey (ss ! j))"
    using systemOK_pairs [OF ok] unfolding notShared_def by (metis IntI IntD1 IntD2 nat_less_le)
qed

text \<open>Two states that share an object after a fork.\<close>

definition forkedSpace :: AddressSpace where
  "forkedSpace = \<lparr>cowKey = 2, objects = Node Terminator Terminator (exampleMemory, 0) 1\<rparr>"

definition forkedHeap :: heap where
  "forkedHeap = [(ObjectState_new exampleMemory None)\<lparr>copyOnWriteOwner := 1\<rparr>]"

lemma forked_reachable: "cowReachable (forkedHeap, [forkedSpace, forkedSpace])"
proof -
  let ?os = "ObjectState_new exampleMemory None"
  let ?as = "forkedSpace\<lparr>cowKey := 1\<rparr>"
  have new: "cowStep ([], [AddressSpace_new]) ([?os], [AddressSpace_new])"
    using cowStep.allocate [of ?os "[]"] by (simp add: ObjectState_new_def)
  have "bindObject exampleMemory 0 ([?os], AddressSpace_new) = Ok (forkedHeap, ?as)"
    by (simp add: bindObject_def forkedHeap_def forkedSpace_def AddressSpace_new_def ObjectState_new_def mkNode_def)
  then have bound: "cowStep ([?os], [AddressSpace_new]) (forkedHeap, [?as])"
    using cowStep.bind [of 0 "[AddressSpace_new]" exampleMemory 0 "[?os]"] by simp
  have fork: "cowStep (forkedHeap, [?as]) (forkedHeap, [forkedSpace, forkedSpace])"
    using cowStep.fork [of 0 "[?as]" forkedSpace forkedSpace forkedHeap] by (simp add: AddressSpace_copy_def forkedSpace_def)
  show ?thesis by (rule cowReachable.step [OF cowReachable.step [OF cowReachable.step [OF cowReachable.start new] bound] fork])
qed

theorem cow_invariant_witness:
  "0 \<in> snd ` boundObjects forkedSpace \<and> copyOnWriteOwner (forkedHeap ! 0) \<noteq> cowKey forkedSpace"
proof -
  have m: "0 \<in> snd ` boundObjects forkedSpace" by (simp add: boundObjects_def forkedSpace_def)
  with cow_invariant [OF forked_reachable, THEN conjunct2, rule_format, of 0 1 0] show ?thesis by simp
qed

text \<open>
  C28: in every such system a state that has found a writable object gets a private copy of it, equal
  to the object but for its owner, bound at its address; whatever it then writes there, every other
  address of the state and every address of every other state has the object state it had before.
\<close>

theorem write_isolated:
  assumes "cowReachable (h, ss)" "i < length ss" "findObject mo (ss ! i) = Some r" "\<not> readOnly (h ! r)"
  shows "\<exists>wr h' as. getWriteable mo r (h, ss ! i) = Ok (wr, h', as) \<and>
      findObject mo as = Some wr \<and> wr < length h' \<and> h' ! wr = (h ! r)\<lparr>copyOnWriteOwner := cowKey (ss ! i)\<rparr> \<and>
      (\<forall>os mo'. moAddress mo' \<noteq> moAddress mo \<longrightarrow> seenObject (h'[wr := os]) as mo' = seenObject h (ss ! i) mo') \<and>
      (\<forall>os mo' j. j < length ss \<and> j \<noteq> i \<longrightarrow> seenObject (h'[wr := os]) (ss ! j) mo' = seenObject h (ss ! j) mo')"
proof -
  note ok = systemOK_reachable [OF assms(1)]
  note sp = systemOK_spaces [OF ok assms(2)]
  obtain wr h' as where g: "getWriteable mo r (h, ss ! i) = Ok (wr, h', as)" "h' ! wr = (h ! r)\<lparr>copyOnWriteOwner := cowKey (ss ! i)\<rparr>"
    using getWriteable_new [OF assms(4) spaceOKD(4) [OF sp findObject_snd [OF sp assms(3)]]] by metis
  show ?thesis
    using g write_local [OF sp assms(3) g(1)] write_elsewhere [OF ok assms(2) _ _ assms(3) g(1)] by blast
qed

theorem write_isolated_witness:
  "\<exists>wr h' as. getWriteable exampleMemory 0 (forkedHeap, forkedSpace) = Ok (wr, h', as) \<and> findObject exampleMemory as = Some wr \<and>
     (\<forall>os. seenObject (h'[wr := os]) forkedSpace exampleMemory = Some (forkedHeap ! 0))"
proof -
  have f: "findObject exampleMemory forkedSpace = Some 0"
    by (simp add: findObject_def forkedSpace_def MemoryObjectLT_def)
  have "\<not> readOnly (forkedHeap ! 0)" by (simp add: forkedHeap_def ObjectState_new_def)
  from write_isolated [OF forked_reachable, of 0 exampleMemory 0, simplified, OF f this] show ?thesis
    by (elim exE conjE) (rule exI, rule exI, rule exI, auto simp: seenObject_def [of forkedHeap] f)
qed

end
