(* ===== verification/ExprCompare.thy ===== *)
theory ExprCompare
  imports ExprCorrect "HOL-Library.Word" "HOL-Library.Char_ord" "HOL-Library.List_Lexorder"
begin

text \<open>
  Hashes and the structural comparison of expressions (\<open>Expr::computeHash\<close> and \<open>Expr::compare\<close>
  of \<open>lib/Expr/Expr.cpp\<close>, \<open>lib/Expr/Updates.cpp\<close>). Equality and order of \<open>ref<Expr>\<close> are
  defined by this comparison. Hashes are 32-bit words and wrap around.
\<close>

section \<open>Hashes\<close>

text \<open>The numbers of \<open>Expr::Kind\<close>; the number 2 is not used.\<close>

fun kindNum :: "Kind \<Rightarrow> nat" where
  "kindNum KConstant = 0" | "kindNum KNotOptimized = 1" | "kindNum KRead = 3" | "kindNum KSelect = 4"
| "kindNum KConcat = 5" | "kindNum KExtract = 6" | "kindNum KZExt = 7" | "kindNum KSExt = 8"
| "kindNum KNot = 9"
| "kindNum (KBinary k) = (case k of Add \<Rightarrow> 10 | Sub \<Rightarrow> 11 | Mul \<Rightarrow> 12 | UDiv \<Rightarrow> 13 | SDiv \<Rightarrow> 14
    | URem \<Rightarrow> 15 | SRem \<Rightarrow> 16 | And \<Rightarrow> 17 | Or \<Rightarrow> 18 | Xor \<Rightarrow> 19 | Shl \<Rightarrow> 20 | LShr \<Rightarrow> 21
    | AShr \<Rightarrow> 22 | Eq \<Rightarrow> 23 | Ne \<Rightarrow> 24 | Ult \<Rightarrow> 25 | Ule \<Rightarrow> 26 | Ugt \<Rightarrow> 27 | Uge \<Rightarrow> 28
    | Slt \<Rightarrow> 29 | Sle \<Rightarrow> 30 | Sgt \<Rightarrow> 31 | Sge \<Rightarrow> 32)"

abbreviation MAGIC_HASH_CONSTANT :: "32 word" where
  "MAGIC_HASH_CONSTANT \<equiv> 39"

text \<open>The characters of a name are added as signed bytes.\<close>

definition nameHash :: "string \<Rightarrow> 32 word" where
  "nameHash s = foldl (\<lambda>res c. res * MAGIC_HASH_CONSTANT + word_of_int (sval 8 (of_char c))) 0 s"

definition Array_computeHash :: "Array \<Rightarrow> 32 word" where
  "Array_computeHash A = nameHash (aname A) * MAGIC_HASH_CONSTANT + of_nat (asize A)"

definition ConstantExpr_computeHash :: "(apint \<Rightarrow> 32 word) \<Rightarrow> apint \<Rightarrow> 32 word" where
  "ConstantExpr_computeHash hv c =
     (if bitWidth c \<le> 64 then word_of_int (getLimitedValue c) else hv c)
       XOR (of_nat (bitWidth c) * MAGIC_HASH_CONSTANT)"

text \<open>\<open>Expr::computeHash\<close>: the kind, then every kid after a shift by one.\<close>

definition kidsHash :: "nat \<Rightarrow> 32 word list \<Rightarrow> 32 word" where
  "kidsHash k hs =
     foldl (\<lambda>res h. push_bit 1 res XOR (h * MAGIC_HASH_CONSTANT)) (of_nat k * MAGIC_HASH_CONSTANT) hs"

text \<open>
  \<open>hv\<close> stands for \<open>llvm::hash_value\<close>, used for constants of more than 64 bits.
  \<open>updatesHash\<close> is \<open>UpdateNode::computeHash\<close> along the list.
\<close>

function (sequential) computeHash :: "(apint \<Rightarrow> 32 word) \<Rightarrow> expr \<Rightarrow> 32 word"
  and updatesHash :: "(apint \<Rightarrow> 32 word) \<Rightarrow> (expr \<times> expr) list \<Rightarrow> 32 word" where
  "computeHash hv (ConstantExpr c) = ConstantExpr_computeHash hv c"
| "computeHash hv (ReadExpr A us i) =
     (computeHash hv i * MAGIC_HASH_CONSTANT) XOR (nameHash (aname A) XOR updatesHash hv us)"
| "computeHash hv (ExtractExpr e off w) =
     (of_nat off * MAGIC_HASH_CONSTANT) XOR (of_nat w * MAGIC_HASH_CONSTANT)
       XOR (computeHash hv e * MAGIC_HASH_CONSTANT)"
| "computeHash hv (ZExtExpr e w) = (of_nat w * MAGIC_HASH_CONSTANT) XOR (computeHash hv e * MAGIC_HASH_CONSTANT)"
| "computeHash hv (SExtExpr e w) = (of_nat w * MAGIC_HASH_CONSTANT) XOR (computeHash hv e * MAGIC_HASH_CONSTANT)"
| "computeHash hv (NotExpr e) = computeHash hv e * MAGIC_HASH_CONSTANT * of_nat (kindNum KNot)"
| "computeHash hv (NotOptimizedExpr e) = kidsHash (kindNum KNotOptimized) [computeHash hv e]"
| "computeHash hv (SelectExpr c t f) =
     kidsHash (kindNum KSelect) [computeHash hv c, computeHash hv t, computeHash hv f]"
| "computeHash hv (ConcatExpr l r) = kidsHash (kindNum KConcat) [computeHash hv l, computeHash hv r]"
| "computeHash hv (BinaryExpr k l r) = kidsHash (kindNum (KBinary k)) [computeHash hv l, computeHash hv r]"
| "updatesHash hv [] = 0"
| "updatesHash hv ((ui, uv) # us) = computeHash hv ui XOR computeHash hv uv XOR updatesHash hv us"
  by pat_completeness auto
termination
  by (relation "measure (\<lambda>x. case x of Inl (hv, e) \<Rightarrow> size e
      | Inr (hv, us) \<Rightarrow> size_list (size_prod size size) us)") auto

section \<open>Comparison\<close>

definition cmp :: "'a::linorder \<Rightarrow> 'a \<Rightarrow> int" where
  "cmp x y = (if x \<noteq> y then (if x < y then - 1 else 1) else 0)"

text \<open>The first comparison that is not 0 decides.\<close>

definition lex :: "int \<Rightarrow> int \<Rightarrow> int" where
  "lex c d = (if c \<noteq> 0 then c else d)"

text \<open>
  \<open>compareContents\<close> of the classes, the updates of a read apart: a read compares the name and
  then the identity of its array, and the number of updates.
\<close>

fun attributes :: "expr \<Rightarrow> int list" where
  "attributes (ConstantExpr c) = [int (bitWidth c), apValue c]"
| "attributes (ConcatExpr l r) = [int (getWidth l + getWidth r)]"
| "attributes (ExtractExpr e off w) = [int off, int w]"
| "attributes (ZExtExpr e w) = [int w]"
| "attributes (SExtExpr e w) = [int w]"
| "attributes _ = []"

fun compareAttributes :: "int list \<Rightarrow> int list \<Rightarrow> int" where
  "compareAttributes (x # xs) (y # ys) = (if x \<noteq> y then (if x < y then - 1 else 1) else compareAttributes xs ys)"
| "compareAttributes _ _ = 0"

type_synonym equivs = "(expr \<times> expr) list"

text \<open>
  \<open>compareE\<close> is \<open>Expr::compare(b, equivs)\<close>: pairs found equal are recorded in \<open>equivs\<close>.
  \<open>sh\<close> and \<open>shl\<close> tell whether two expressions, or two update lists, are one object in memory.
  The comparison of update nodes calls \<open>Expr::compare(b)\<close>, which works on the same static set
  and clears it when it returns.
\<close>

function compareE :: "(apint \<Rightarrow> 32 word) \<Rightarrow> (expr \<Rightarrow> expr \<Rightarrow> bool) \<Rightarrow>
      ((expr \<times> expr) list \<Rightarrow> (expr \<times> expr) list \<Rightarrow> bool) \<Rightarrow> equivs \<Rightarrow> expr \<Rightarrow> expr \<Rightarrow> int \<times> equivs"
  and compareNodes :: "(apint \<Rightarrow> 32 word) \<Rightarrow> (expr \<Rightarrow> expr \<Rightarrow> bool) \<Rightarrow>
      ((expr \<times> expr) list \<Rightarrow> (expr \<times> expr) list \<Rightarrow> bool) \<Rightarrow> equivs \<Rightarrow> (expr \<times> expr) list \<Rightarrow>
      (expr \<times> expr) list \<Rightarrow> int \<times> equivs"
  and compareKids :: "(apint \<Rightarrow> 32 word) \<Rightarrow> (expr \<Rightarrow> expr \<Rightarrow> bool) \<Rightarrow>
      ((expr \<times> expr) list \<Rightarrow> (expr \<times> expr) list \<Rightarrow> bool) \<Rightarrow> equivs \<Rightarrow> expr list \<Rightarrow> expr list \<Rightarrow>
      int \<times> equivs" where
  "compareE hv sh shl E a b =
     (if sh a b then (0, E)
      else if (a, b) \<in> set E \<or> (b, a) \<in> set E then (0, E)
      else if getKind a \<noteq> getKind b then (if kindNum (getKind a) < kindNum (getKind b) then (- 1, E) else (1, E))
      else if computeHash hv a \<noteq> computeHash hv b
        then (if computeHash hv a < computeHash hv b then (- 1, E) else (1, E))
      else
        (let (c, E1) =
           (case a of
              ReadExpr A us i \<Rightarrow>
                (case b of
                   ReadExpr B vs j \<Rightarrow>
                     if aname A \<noteq> aname B then (if aname A < aname B then (- 1, E) else (1, E))
                     else if address A \<noteq> address B then (if address A < address B then (- 1, E) else (1, E))
                     else if length us < length vs then (- 1, E)
                     else if length us > length vs then (1, E)
                     else compareNodes hv sh shl E us vs
                 | _ \<Rightarrow> (0, E))
            | _ \<Rightarrow> (compareAttributes (attributes a) (attributes b), E))
         in if c \<noteq> 0 then (c, E1)
            else
              (let (d, E2) = compareKids hv sh shl E1 (getKids a) (getKids b)
               in if d \<noteq> 0 then (d, E2) else (0, (a, b) # E2))))"
| "compareNodes hv sh shl E us vs =
     (case us of
        [] \<Rightarrow> (0, E)
      | (ui, uv) # us' \<Rightarrow>
          (case vs of
             [] \<Rightarrow> (0, E)
           | (vi, vv) # vs' \<Rightarrow>
               if shl us vs then (0, E)
               else
                 (let c = fst (compareE hv sh shl E ui vi)
                  in if c \<noteq> 0 then (c, [])
                     else
                       (let d = fst (compareE hv sh shl [] uv vv)
                        in if d \<noteq> 0 then (d, []) else compareNodes hv sh shl [] us' vs'))))"
| "compareKids hv sh shl E ks ls =
     (case ks of
        [] \<Rightarrow> (0, E)
      | k # ks' \<Rightarrow>
          (case ls of
             [] \<Rightarrow> (0, E)
           | l # ls' \<Rightarrow>
               (let (c, E1) = compareE hv sh shl E k l
                in if c \<noteq> 0 then (c, E1) else compareKids hv sh shl E1 ks' ls')))"
  by pat_completeness auto

definition nodesSize :: "(expr \<times> expr) list \<Rightarrow> nat" where
  "nodesSize us = sum_list (map (\<lambda>(i, v). 8 * (size i + size v) + 2) us)"

definition kidsSize :: "expr list \<Rightarrow> nat" where
  "kidsSize ks = sum_list (map (\<lambda>k. 8 * size k + 2) ks)"

lemma kidsSize_le: "kidsSize (getKids a) \<le> 8 * size a"
  by (cases a) (auto simp: kidsSize_def)

lemma nodesSize_le: "nodesSize us \<le> 8 * size_list (size_prod size size) us"
  by (induction us) (auto simp: nodesSize_def)

lemma size_Cons [simp]:
  "kidsSize (k # ks) = 8 * size k + 2 + kidsSize ks"
  "nodesSize ((i, v) # us) = 8 * (size i + size v) + 2 + nodesSize us"
  by (simp_all add: kidsSize_def nodesSize_def)

termination compareE
proof (relation "measure (\<lambda>x. case x of
        Inl (hv, sh, shl, E, a, b) \<Rightarrow> 8 * size a + 2
      | Inr (Inl (hv, sh, shl, E, us, vs)) \<Rightarrow> nodesSize us + 1
      | Inr (Inr (hv, sh, shl, E, ks, ls)) \<Rightarrow> kidsSize ks + 1)", goal_cases)
  case (2 hv sh shl E a b A us i B vs j)
  then show ?case using nodesSize_le [of us] by simp
next
  case (3 hv sh shl E a b p c E1)
  then show ?case using kidsSize_le [of a] by simp
qed auto

text \<open>\<open>Expr::compare\<close>; the static set is empty at the outermost call.\<close>

definition compare where
  "compare hv sh shl a b = fst (compareE hv sh shl [] a b)"

section \<open>The order it computes\<close>

text \<open>
  The comparison without sharing and without the record of equal pairs: a lexicographic
  combination of the kind, the hash, the attributes, the array and number of updates of a read,
  its updates, and the kids.
\<close>

fun readKey :: "expr \<Rightarrow> string \<times> nat \<times> nat" where
  "readKey (ReadExpr A us i) = (aname A, address A, length us)"
| "readKey _ = ([], 0, 0)"

fun readUpdates :: "expr \<Rightarrow> (expr \<times> expr) list" where
  "readUpdates (ReadExpr A us i) = us"
| "readUpdates _ = []"

definition keyRef :: "expr \<Rightarrow> expr \<Rightarrow> int" where
  "keyRef a b =
     lex (cmp (fst (readKey a)) (fst (readKey b)))
    (lex (cmp (fst (snd (readKey a))) (fst (snd (readKey b))))
         (cmp (snd (snd (readKey a))) (snd (snd (readKey b)))))"

function compareRef :: "(apint \<Rightarrow> 32 word) \<Rightarrow> expr \<Rightarrow> expr \<Rightarrow> int"
  and nodesRef :: "(apint \<Rightarrow> 32 word) \<Rightarrow> (expr \<times> expr) list \<Rightarrow> (expr \<times> expr) list \<Rightarrow> int"
  and kidsRef :: "(apint \<Rightarrow> 32 word) \<Rightarrow> expr list \<Rightarrow> expr list \<Rightarrow> int" where
  "compareRef hv a b =
     lex (cmp (kindNum (getKind a)) (kindNum (getKind b)))
    (lex (cmp (computeHash hv a) (computeHash hv b))
    (lex (compareAttributes (attributes a) (attributes b))
    (lex (keyRef a b)
    (lex (nodesRef hv (readUpdates a) (readUpdates b))
         (kidsRef hv (getKids a) (getKids b))))))"
| "nodesRef hv us vs =
     (case (us, vs) of
        ((ui, uv) # us', (vi, vv) # vs') \<Rightarrow>
          lex (compareRef hv ui vi) (lex (compareRef hv uv vv) (nodesRef hv us' vs'))
      | _ \<Rightarrow> 0)"
| "kidsRef hv ks ls =
     (case (ks, ls) of
        (k # ks', l # ls') \<Rightarrow> lex (compareRef hv k l) (kidsRef hv ks' ls')
      | _ \<Rightarrow> 0)"
  by pat_completeness auto

lemma readUpdates_size: "nodesSize (readUpdates a) \<le> 8 * size a"
proof (cases a)
  case (ReadExpr A us i)
  then show ?thesis using nodesSize_le [of us] by simp
qed (simp_all add: nodesSize_def)

termination compareRef
  by (relation "measure (\<lambda>x. case x of
        Inl (hv, a, b) \<Rightarrow> 8 * size a + 2
      | Inr (Inl (hv, us, vs)) \<Rightarrow> nodesSize us + 1
      | Inr (Inr (hv, ks, ls)) \<Rightarrow> kidsSize ks + 1)")
    (auto simp: le_imp_less_Suc kidsSize_le readUpdates_size)

declare compareE.simps [simp del] compareNodes.simps [simp del] compareKids.simps [simp del]
declare compareRef.simps [simp del] nodesRef.simps [simp del] kidsRef.simps [simp del]

text \<open>Laws of the lexicographic combination: sign reversal and transitivity are inherited.\<close>

definition tri :: "int \<Rightarrow> int \<Rightarrow> int \<Rightarrow> bool" where
  "tri x y z \<longleftrightarrow> (x \<le> 0 \<and> y \<le> 0 \<longrightarrow> (if x = 0 \<and> y = 0 then z = 0 else z < 0))"

lemma tri_lex:
  "tri x y z \<Longrightarrow> (x = 0 \<Longrightarrow> y = 0 \<Longrightarrow> tri x' y' z') \<Longrightarrow> tri (lex x x') (lex y y') (lex z z')"
  by (auto simp: tri_def lex_def split: if_splits)

lemma tri_cmp: "tri (cmp a b) (cmp b c) (cmp a c)"
  by (auto simp: tri_def cmp_def)

lemma lex_minus: "- lex x y = lex (- x) (- y)"
  by (simp add: lex_def)

lemma cmp_minus: "- cmp a b = cmp b a"
  by (auto simp: cmp_def)

lemma lex_zero [simp]: "lex x y = 0 \<longleftrightarrow> x = 0 \<and> y = 0"
  by (simp add: lex_def)

lemma cmp_refl [simp]: "cmp x x = 0"
  by (simp add: cmp_def)

lemma lex_0 [simp]: "lex 0 y = y"
  by (simp add: lex_def)

lemma cmp_zero [simp]: "cmp x y = 0 \<longleftrightarrow> x = y"
  by (simp add: cmp_def)

lemma compareAttributes_Nil [simp]: "compareAttributes xs [] = 0"
  by (cases xs) auto

lemma compareAttributes_minus: "- compareAttributes xs ys = compareAttributes ys xs"
  by (induction xs ys rule: compareAttributes.induct) auto

lemma compareAttributes_zero: "length xs = length ys \<Longrightarrow> compareAttributes xs ys = 0 \<longleftrightarrow> xs = ys"
  by (induction xs ys rule: compareAttributes.induct) auto

lemma tri_attributes:
  "length xs = length ys \<Longrightarrow> length ys = length zs \<Longrightarrow>
   tri (compareAttributes xs ys) (compareAttributes ys zs) (compareAttributes xs zs)"
proof (induction xs arbitrary: ys zs)
  case (Cons x xs)
  have step: "compareAttributes (p # ps) (q # qs) = lex (cmp p q) (compareAttributes ps qs)" for p ps q qs
    by (simp add: lex_def cmp_def)
  from Cons show ?case
    by (cases ys; cases zs) (simp_all add: step tri_lex tri_cmp del: compareAttributes.simps)
qed (simp add: tri_def)

lemma compareRef_minus:
  "- compareRef hv a b = compareRef hv b a"
  "- nodesRef hv us vs = nodesRef hv vs us"
  "- kidsRef hv ks ls = kidsRef hv ls ks"
proof (induction hv a b and hv us vs and hv ks ls rule: compareRef_nodesRef_kidsRef.induct)
  case (1 hv a b)
  then show ?case
    by (subst (1 2) compareRef.simps) (simp add: keyRef_def lex_minus cmp_minus compareAttributes_minus)
next
  case (2 hv us vs)
  then show ?case
    by (subst (1 2) nodesRef.simps) (auto simp: lex_minus split: list.splits)
next
  case (3 hv ks ls)
  then show ?case
    by (subst (1 2) kidsRef.simps) (auto simp: lex_minus split: list.splits)
qed

text \<open>The kind determines the number of attributes and kids.\<close>

lemma kindNum_inj: "kindNum k = kindNum k' \<longleftrightarrow> k = k'"
  by (cases k; cases k'; auto split: kind.splits)

lemma same_kind_shape:
  "getKind a = getKind b \<Longrightarrow>
     length (getKids a) = length (getKids b) \<and> length (attributes a) = length (attributes b)"
  by (cases a; cases b) auto

lemma compareRef_tri:
  "tri (compareRef hv a b) (compareRef hv b c) (compareRef hv a c)"
  "length us = length vs \<Longrightarrow> length vs = length ws \<Longrightarrow>
     tri (nodesRef hv us vs) (nodesRef hv vs ws) (nodesRef hv us ws)"
  "length ks = length ls \<Longrightarrow> length ls = length ms \<Longrightarrow>
     tri (kidsRef hv ks ls) (kidsRef hv ls ms) (kidsRef hv ks ms)"
proof (induction hv a b and hv us vs and hv ks ls arbitrary: c and ws and ms
    rule: compareRef_nodesRef_kidsRef.induct)
  case (1 hv a b)
  have key: "tri (keyRef a b) (keyRef b c) (keyRef a c)"
    unfolding keyRef_def by (intro tri_lex tri_cmp)
  have len: "length (readUpdates x) = length (readUpdates y)" if "keyRef x y = 0" "getKind x = getKind y" for x y
    using that by (cases x; cases y) (auto simp: keyRef_def)
  show ?case
    by (subst (1 2 3) compareRef.simps, intro tri_lex tri_cmp tri_attributes key 1)
      (use same_kind_shape [of a b] same_kind_shape [of b c] in \<open>auto simp: kindNum_inj intro: len\<close>)
next
  case (2 hv us vs)
  show ?case
  proof (cases us)
    case (Cons u us')
    with 2 obtain ui uv vi vv vs' wi wv ws' where
      "u = (ui, uv)" "vs = (vi, vv) # vs'" "ws = (wi, wv) # ws'"
      by (cases u; cases vs; cases ws) auto
    with Cons 2 show ?thesis
      by (subst (1 2 3) nodesRef.simps) (auto intro!: tri_lex)
  qed (use 2 in \<open>simp add: nodesRef.simps tri_def\<close>)
next
  case (3 hv ks ls)
  show ?case
  proof (cases ks)
    case (Cons k ks')
    with 3 obtain l ls' m ms' where "ls = l # ls'" "ms = m # ms'"
      by (cases ls; cases ms) auto
    with Cons 3 show ?thesis
      by (subst (1 2 3) kidsRef.simps) (auto intro!: tri_lex)
  qed (use 3 in \<open>simp add: kidsRef.simps tri_def\<close>)
qed

text \<open>
  With one object per address, only an expression itself compares equal to it.
\<close>

fun arraysOf :: "expr \<Rightarrow> Array list" where
  "arraysOf (ConstantExpr c) = []"
| "arraysOf (NotOptimizedExpr e) = arraysOf e"
| "arraysOf (ReadExpr A us i) = A # concat (map (\<lambda>(ui, uv). arraysOf ui @ arraysOf uv) us) @ arraysOf i"
| "arraysOf (SelectExpr c t f) = arraysOf c @ arraysOf t @ arraysOf f"
| "arraysOf (ConcatExpr l r) = arraysOf l @ arraysOf r"
| "arraysOf (ExtractExpr e off w) = arraysOf e"
| "arraysOf (ZExtExpr e w) = arraysOf e"
| "arraysOf (SExtExpr e w) = arraysOf e"
| "arraysOf (NotExpr e) = arraysOf e"
| "arraysOf (BinaryExpr k l r) = arraysOf l @ arraysOf r"

definition oneObject :: "Array set \<Rightarrow> bool" where
  "oneObject S \<longleftrightarrow> (\<forall>A \<in> S. \<forall>B \<in> S. address A = address B \<longrightarrow> A = B)"

definition within :: "Array set \<Rightarrow> expr \<Rightarrow> bool" where
  "within S e \<longleftrightarrow> set (arraysOf e) \<subseteq> S"

lemma within_kids: "within S e \<Longrightarrow> k \<in> set (getKids e) \<Longrightarrow> within S k"
  by (cases e) (auto simp: within_def)

lemma within_updates: "within S e \<Longrightarrow> (ui, uv) \<in> set (readUpdates e) \<Longrightarrow> within S ui \<and> within S uv"
  by (cases e) (auto simp: within_def)

lemma expr_eqI:
  assumes "getKind a = getKind b" "attributes a = attributes b" "readKey a = readKey b"
    and "readUpdates a = readUpdates b" "getKids a = getKids b"
    and "oneObject S" "within S a" "within S b"
  shows "a = b"
  using assms by (cases a; cases b) (auto simp: oneObject_def within_def intro: apint.expand)

lemma compareRef_zero:
  "oneObject S \<Longrightarrow> within S a \<Longrightarrow> within S b \<Longrightarrow> compareRef hv a b = 0 \<Longrightarrow> a = b"
  "oneObject S \<Longrightarrow> (\<And>i v. (i, v) \<in> set us \<Longrightarrow> within S i \<and> within S v) \<Longrightarrow>
     (\<And>i v. (i, v) \<in> set vs \<Longrightarrow> within S i \<and> within S v) \<Longrightarrow>
     length us = length vs \<Longrightarrow> nodesRef hv us vs = 0 \<Longrightarrow> us = vs"
  "oneObject S \<Longrightarrow> (\<And>k. k \<in> set ks \<Longrightarrow> within S k) \<Longrightarrow> (\<And>l. l \<in> set ls \<Longrightarrow> within S l) \<Longrightarrow>
     length ks = length ls \<Longrightarrow> kidsRef hv ks ls = 0 \<Longrightarrow> ks = ls"
proof (induction hv a b and hv us vs and hv ks ls rule: compareRef_nodesRef_kidsRef.induct)
  case (1 hv a b)
  from 1(6) have eq: "getKind a = getKind b" "compareAttributes (attributes a) (attributes b) = 0"
      "keyRef a b = 0" "nodesRef hv (readUpdates a) (readUpdates b) = 0" "kidsRef hv (getKids a) (getKids b) = 0"
    by (subst (asm) compareRef.simps, simp add: kindNum_inj)+
  have "readKey a = readKey b" using eq(3) by (auto simp: keyRef_def intro: prod_eqI)
  moreover from this eq(1) have "length (readUpdates a) = length (readUpdates b)"
    by (cases a; cases b) auto
  moreover have "attributes a = attributes b"
    using eq(2) same_kind_shape [OF eq(1)] by (simp add: compareAttributes_zero)
  ultimately have "readUpdates a = readUpdates b" "getKids a = getKids b"
    using 1(1) [OF 1(3) within_updates [OF 1(4)] within_updates [OF 1(5)] _ eq(4)]
      1(2) [OF 1(3) within_kids [OF 1(4)] within_kids [OF 1(5)] _ eq(5)] same_kind_shape [OF eq(1)] by simp_all
  with \<open>attributes a = attributes b\<close> \<open>readKey a = readKey b\<close> show ?case
    by (intro expr_eqI [OF eq(1) _ _ _ _ 1(3-5)])
next
  case (2 hv us vs)
  show ?case
  proof (cases us)
    case (Cons u us')
    with 2(7) obtain ui uv vi vv vs' where us: "us = (ui, uv) # us'" and vs: "vs = (vi, vv) # vs'"
      by (cases u; cases vs) auto
    with 2(8) have c: "compareRef hv ui vi = 0" "compareRef hv uv vv = 0" "nodesRef hv us' vs' = 0"
      by (simp_all add: nodesRef.simps [of hv "_ # _"])
    from us vs have w: "within S ui" "within S vi" "within S uv" "within S vv"
      using 2(5,6) by auto
    have "us' = vs'"
      by (rule 2(3) [OF refl us refl vs refl 2(4) 2(5) 2(6) _ c(3)]) (use us vs 2(7) in simp_all)
    with 2(1) [OF refl us refl vs refl 2(4) w(1,2) c(1)] 2(2) [OF refl us refl vs refl 2(4) w(3,4) c(2)]
    show ?thesis using us vs by simp
  qed (use 2(7) in simp)
next
  case (3 hv ks ls)
  show ?case
  proof (cases ks)
    case ks: (Cons k ks')
    with 3(6) obtain l ls' where ls: "ls = l # ls'" by (cases ls) auto
    with 3(7) ks have c: "compareRef hv k l = 0" "kidsRef hv ks' ls' = 0"
      by (simp_all add: kidsRef.simps [of hv "_ # _"])
    from ks ls have w: "within S k" "within S l"
      using 3(4,5) by auto
    have "ks' = ls'"
      by (rule 3(2) [OF refl ks ls 3(3) 3(4) 3(5) _ c(2)]) (use ks ls 3(6) in simp_all)
    with 3(1) [OF refl ks ls 3(3) w c(1)] show ?thesis using ks ls by simp
  qed (use 3(6) in simp)
qed

lemma compareRef_refl:
  "compareRef hv a a = 0"
  using compareRef_minus(1) [of hv a a] by simp

lemma nodesRef_refl: "nodesRef hv us us = 0"
  using compareRef_minus(2) [of hv us us] by simp

text \<open>Sharing and the record of equal pairs do not change the result.\<close>

definition equivsOK :: "(apint \<Rightarrow> 32 word) \<Rightarrow> equivs \<Rightarrow> bool" where
  "equivsOK hv E \<longleftrightarrow> (\<forall>(x, y) \<in> set E. compareRef hv x y = 0)"

lemma equivsOK_simps [simp]:
  "equivsOK hv []" "equivsOK hv ((x, y) # E) \<longleftrightarrow> compareRef hv x y = 0 \<and> equivsOK hv E"
  by (auto simp: equivsOK_def)

lemma equivsOK_hit: "equivsOK hv E \<Longrightarrow> (a, b) \<in> set E \<or> (b, a) \<in> set E \<Longrightarrow> compareRef hv a b = 0"
  using compareRef_minus(1) [of hv b a] by (auto simp: equivsOK_def)

definition sharing :: "(expr \<Rightarrow> expr \<Rightarrow> bool) \<Rightarrow> ((expr \<times> expr) list \<Rightarrow> (expr \<times> expr) list \<Rightarrow> bool) \<Rightarrow> bool" where
  "sharing sh shl \<longleftrightarrow> (\<forall>a b. sh a b \<longrightarrow> a = b) \<and> (\<forall>us vs. shl us vs \<longrightarrow> us = vs)"

lemma compareE_ref:
  "sharing sh shl \<Longrightarrow> equivsOK hv E \<Longrightarrow>
      fst (compareE hv sh shl E a b) = compareRef hv a b \<and> equivsOK hv (snd (compareE hv sh shl E a b))"
  "sharing sh shl \<Longrightarrow> equivsOK hv E \<Longrightarrow> length us = length vs \<Longrightarrow>
      fst (compareNodes hv sh shl E us vs) = nodesRef hv us vs \<and> equivsOK hv (snd (compareNodes hv sh shl E us vs))"
  "sharing sh shl \<Longrightarrow> equivsOK hv E \<Longrightarrow>
      fst (compareKids hv sh shl E ks ls) = kidsRef hv ks ls \<and> equivsOK hv (snd (compareKids hv sh shl E ks ls))"
proof (induction hv sh shl E a b and hv sh shl E us vs and hv sh shl E ks ls
    rule: compareE_compareNodes_compareKids.induct)
  case (1 hv sh shl E a b)
  note defs = compareE.simps [of hv sh shl E a b] compareRef.simps [of hv a b]
  consider (hit) "sh a b \<or> (a, b) \<in> set E \<or> (b, a) \<in> set E"
    | (kind) "\<not> (sh a b \<or> (a, b) \<in> set E \<or> (b, a) \<in> set E)" "getKind a \<noteq> getKind b"
    | (hash) "\<not> (sh a b \<or> (a, b) \<in> set E \<or> (b, a) \<in> set E)" "getKind a = getKind b"
        "computeHash hv a \<noteq> computeHash hv b"
    | (rest) "\<not> (sh a b \<or> (a, b) \<in> set E \<or> (b, a) \<in> set E)" "getKind a = getKind b"
        "computeHash hv a = computeHash hv b"
    by blast
  then show ?case
  proof cases
    case hit
    then have "compareE hv sh shl E a b = (0, E)" by (auto simp: defs(1))
    moreover have "compareRef hv a b = 0"
      using hit 1(3,4) equivsOK_hit compareRef_refl by (metis sharing_def)
    ultimately show ?thesis using 1(4) by simp
  next
    case kind
    then show ?thesis using 1(4) by (simp add: defs lex_def cmp_def kindNum_inj)
  next
    case hash
    then show ?thesis using 1(4) by (simp add: defs lex_def cmp_def)
  next
    case rest
    define p where "p =
      (case a of
         ReadExpr A us i \<Rightarrow>
           (case b of
              ReadExpr B vs j \<Rightarrow>
                if aname A \<noteq> aname B then (if aname A < aname B then (- 1, E) else (1, E))
                else if address A \<noteq> address B then (if address A < address B then (- 1, E) else (1, E))
                else if length us < length vs then (- 1, E)
                else if length us > length vs then (1, E)
                else compareNodes hv sh shl E us vs
            | _ \<Rightarrow> (0, E))
       | _ \<Rightarrow> (compareAttributes (attributes a) (attributes b), E))"
    have p: "fst p = lex (compareAttributes (attributes a) (attributes b))
        (lex (keyRef a b) (nodesRef hv (readUpdates a) (readUpdates b))) \<and> equivsOK hv (snd p)"
    proof (cases a)
      case (ReadExpr A us i)
      with rest obtain B vs j where b: "b = ReadExpr B vs j" by (cases b) auto
      show ?thesis
      proof (cases "aname A = aname B \<and> address A = address B \<and> length us = length vs")
        case True
        with 1(1) [of A us i B vs j] rest ReadExpr b 1(3,4) show ?thesis
          by (simp add: p_def keyRef_def lex_def)
      qed (use 1(4) in \<open>auto simp: p_def keyRef_def lex_def cmp_def ReadExpr b\<close>)
    qed (use rest 1(4) in \<open>cases b; simp add: p_def keyRef_def nodesRef.simps lex_def\<close>)+
    show ?thesis
    proof (cases "fst p = 0")
      case True
      then have "(0, snd p) = p" by (simp add: prod_eq_iff)
      with 1(2) [of p 0 "snd p"] rest 1(3) p True show ?thesis
        by (auto simp: defs p_def [symmetric] case_prod_beta Let_def)
    next
      case False
      with p rest show ?thesis
        by (simp add: defs p_def [symmetric] case_prod_beta Let_def) (auto simp: lex_def split: if_splits)
    qed
  qed
next
  case (2 hv sh shl E us vs)
  show ?case
  proof (cases us)
    case (Cons u us')
    with 2(6) obtain ui uv vi vv vs' where us: "us = (ui, uv) # us'" and vs: "vs = (vi, vv) # vs'"
      by (cases u; cases vs) auto
    show ?thesis
    proof (cases "shl us vs")
      case True
      then have "us = vs" using 2(4) by (simp add: sharing_def)
      with True nodesRef_refl [of hv vs] 2(5) show ?thesis
        by (simp add: vs compareNodes.simps [of hv sh shl E "_ # _"])
    next
      case False
      note IH = 2(1) [OF us refl vs refl False 2(4,5)]
        2(2) [OF us refl vs refl False refl _ 2(4)] 2(3) [OF us refl vs refl False refl _ refl _ 2(4)]
      from False IH us vs 2(6) show ?thesis
        by (auto simp: compareNodes.simps [of hv sh shl E "_ # _"] nodesRef.simps [of hv "_ # _"] lex_def Let_def)
    qed
  qed (use 2 in \<open>simp add: compareNodes.simps nodesRef.simps\<close>)
next
  case (3 hv sh shl E ks ls)
  show ?case
  proof (cases "ks = [] \<or> ls = []")
    case False
    then obtain k ks' l ls' where ks: "ks = k # ks'" and ls: "ls = l # ls'"
      by (cases ks; cases ls) auto
    obtain c E1 where E1: "compareE hv sh shl E k l = (c, E1)" by (metis surj_pair)
    have c: "c = compareRef hv k l" "equivsOK hv E1" using 3(1) [OF ks ls 3(3,4)] by (simp_all add: E1)
    have rest: "fst (compareKids hv sh shl E1 ks' ls') = kidsRef hv ks' ls' \<and>
        equivsOK hv (snd (compareKids hv sh shl E1 ks' ls'))" if "c = 0"
      using 3(2) [OF ks ls E1 [symmetric] refl _ 3(3) c(2)] that by simp
    show ?thesis
      by (cases "c = 0") (use c rest in \<open>simp_all add: ks ls E1 lex_def
        compareKids.simps [of hv sh shl E "_ # _"] kidsRef.simps [of hv "_ # _"]\<close>)
  qed (use 3(4) in \<open>auto simp: compareKids.simps [of hv sh shl E ks ls] kidsRef.simps [of hv ks ls]
      split: list.splits\<close>)
qed

lemma compare_ref: "sharing sh shl \<Longrightarrow> compare hv sh shl a b = compareRef hv a b"
  by (simp add: compare_def compareE_ref)

section \<open>Properties\<close>

text \<open>
  C12: \<open>Expr::compare\<close> returns 0 exactly for structurally equal expressions, whatever nodes
  are shared in memory and although the hash is compared first, when every address holds one
  array.
\<close>

theorem compare_equal_iff:
  assumes "sharing sh shl" "oneObject S" "set (arraysOf a) \<subseteq> S" "set (arraysOf b) \<subseteq> S"
  shows "compare hv sh shl a b = 0 \<longleftrightarrow> a = b"
  using compareRef_zero(1) [OF assms(2), of a b hv] assms compareRef_refl
  by (auto simp: compare_ref within_def)

theorem compare_equal_iff_witness:
  "compare (\<lambda>_. 0) (=) (=) (AddExpr (c8 1) (bufAt 0)) (AddExpr (c8 1) (bufAt 1)) \<noteq> 0"
  using compare_equal_iff [of "(=)" "(=)" "{buf}" "AddExpr (c8 1) (bufAt 0)" "AddExpr (c8 1) (bufAt 1)" "\<lambda>_. 0"]
  by (simp add: sharing_def oneObject_def)

text \<open>
  C13: the comparison is a total order: swapping the operands changes the sign, and it is
  transitive. The containers keyed by \<open>ref<Expr>\<close> rely on this.
\<close>

theorem compare_total_order:
  assumes "sharing sh shl"
  shows "compare hv sh shl b a = - compare hv sh shl a b \<and>
    (compare hv sh shl a b \<le> 0 \<and> compare hv sh shl b c \<le> 0 \<longrightarrow> compare hv sh shl a c \<le> 0) \<and>
    (compare hv sh shl a b < 0 \<and> compare hv sh shl b c < 0 \<longrightarrow> compare hv sh shl a c < 0)"
  using compareRef_tri(1) [of hv a b c] compareRef_minus(1) [of hv a b] assms
  by (auto simp: compare_ref tri_def split: if_splits)

theorem compare_total_order_witness:
  "compare (\<lambda>_. 0) (=) (=) (c8 2) (c8 1) = - compare (\<lambda>_. 0) (=) (=) (c8 1) (c8 2) \<and>
   compare (\<lambda>_. 0) (=) (=) (c8 1) (c8 3) < 0"
  using compare_total_order [of "(=)" "(=)" "\<lambda>_. 0" "c8 2" "c8 1" "c8 3"]
  by (simp add: sharing_def compare_def compareE.simps ConstantExpr_computeHash_def getLimitedValue_def)

end
