(* ===== verification/ExecState.thy ===== *)
theory ExecState
  imports CopyOnWrite ExprCompare
begin

text \<open>
  Execution states (\<open>include/klee/ExecutionState.h\<close>, \<open>lib/Core/ExecutionState.cpp\<close>): the stack with the
  registers of each frame, the address space, the path constraints and the bookkeeping of a path under
  exploration, with forking and merging. Instructions, functions and nodes of the call path are
  referred to by numbers; a register without a value is \<open>None\<close>. The object states live in the heap of
  \<open>AddressSpace\<close>; \<open>n\<close> counts the arrays made for them.
\<close>

section \<open>Definitions\<close>

record KFunction =
  kfunction :: nat
  numRegisters :: nat
  firstInstruction :: nat

record StackFrame =
  caller :: nat
  kf :: KFunction
  callPathNode :: "nat option"
  allocas :: "MemoryObject list"
  locals :: "expr option list"
  minDistToUncoveredOnReturn :: nat
  varargs :: "MemoryObject option"

record ExecutionState =
  pc :: nat
  prevPC :: nat
  stack :: "StackFrame list"
  incomingBBIndex :: nat
  addressSpace :: AddressSpace
  pathConstraints :: constraints
  queryCost :: nat
  depth :: nat
  pathOS :: "bool list"
  symPathOS :: "bool list"
  instsSinceCovNew :: nat
  coveredNew :: bool
  forkDisabled :: bool
  coveredLines :: "string \<rightharpoonup> nat set"
  symbolics :: "(MemoryObject \<times> Array) list"
  arrayNames :: "string set"
  openMergeStack :: "nat list"
  steppedInstructions :: nat

definition StackFrame_new :: "nat \<Rightarrow> KFunction \<Rightarrow> StackFrame" where
  "StackFrame_new c f =
     \<lparr>caller = c, kf = f, callPathNode = None, allocas = [], locals = replicate (numRegisters f) None,
      minDistToUncoveredOnReturn = 0, varargs = None\<rparr>"

definition pushFrame :: "nat \<Rightarrow> KFunction \<Rightarrow> ExecutionState \<Rightarrow> ExecutionState" where
  "pushFrame c f es = es\<lparr>stack := stack es @ [StackFrame_new c f]\<rparr>"

definition popFrame :: "ExecutionState \<Rightarrow> ExecutionState result" where
  "popFrame es =
     (if stack es = [] then Abort
      else Ok (es\<lparr>addressSpace := foldl (\<lambda>as mo. unbindObject mo as) (addressSpace es) (allocas (last (stack es))),
                  stack := butlast (stack es)\<rparr>))"

definition ExecutionState_assuming :: "constraints \<Rightarrow> ExecutionState" where
  "ExecutionState_assuming assumptions =
     \<lparr>pc = 0, prevPC = 0, stack = [], incomingBBIndex = 0, addressSpace = AddressSpace_new, pathConstraints = assumptions,
      queryCost = 0, depth = 0, pathOS = [], symPathOS = [], instsSinceCovNew = 0, coveredNew = False, forkDisabled = False,
      coveredLines = Map.empty, symbolics = [], arrayNames = {}, openMergeStack = [], steppedInstructions = 0\<rparr>"

definition ExecutionState_new :: "KFunction \<Rightarrow> ExecutionState" where
  "ExecutionState_new f =
     pushFrame 0 f ((ExecutionState_assuming [])\<lparr>pc := firstInstruction f, prevPC := firstInstruction f\<rparr>)"

text \<open>The copy of a state moves both address spaces to a new epoch.\<close>

definition branch :: "ExecutionState \<Rightarrow> ExecutionState \<times> ExecutionState" where
  "branch es =
     (let (as, as') = AddressSpace_copy (addressSpace es);
          this = es\<lparr>depth := (depth es + 1) mod 2 ^ 32, addressSpace := as\<rparr>
      in (this, this\<lparr>addressSpace := as', coveredNew := False, coveredLines := Map.empty\<rparr>))"

definition addSymbolic :: "MemoryObject \<Rightarrow> Array \<Rightarrow> ExecutionState \<Rightarrow> ExecutionState" where
  "addSymbolic mo array es = es\<lparr>symbolics := symbolics es @ [(mo, array)]\<rparr>"

definition ES_addConstraint :: "options \<Rightarrow> (constraints \<Rightarrow> expr \<Rightarrow> nat) \<Rightarrow> expr \<Rightarrow> ExecutionState \<Rightarrow> ExecutionState result" where
  "ES_addConstraint opts fuel e es =
     rbind (addConstraint opts (fuel (pathConstraints es) e) (pathConstraints es) e) (\<lambda>cs. Ok (es\<lparr>pathConstraints := cs\<rparr>))"

subsection \<open>Merging\<close>

text \<open>
  A \<open>std::set\<close> of expressions is a list ordered by \<open>order\<close>, the comparison of expressions; the set
  operations keep that order.
\<close>

fun insertExpr :: "(expr \<Rightarrow> expr \<Rightarrow> int) \<Rightarrow> expr \<Rightarrow> expr list \<Rightarrow> expr list" where
  "insertExpr order e [] = [e]"
| "insertExpr order e (x # xs) =
     (if order e x < 0 then e # x # xs else if order e x = 0 then x # xs else x # insertExpr order e xs)"

definition exprSet :: "(expr \<Rightarrow> expr \<Rightarrow> int) \<Rightarrow> expr list \<Rightarrow> expr list" where
  "exprSet order es = foldl (\<lambda>s e. insertExpr order e s) [] es"

definition sameFrames :: "StackFrame list \<Rightarrow> StackFrame list \<Rightarrow> bool" where
  "sameFrames as bs \<longleftrightarrow> list_all2 (\<lambda>a b. caller a = caller b \<and> kf a = kf b) as bs"

text \<open>The memory objects whose object states differ; \<open>None\<close> when the two maps bind different objects.\<close>

fun mutatedObjects :: "ObjectPair list \<Rightarrow> ObjectPair list \<Rightarrow> MemoryObject list option" where
  "mutatedObjects [] [] = Some []"
| "mutatedObjects ((mo, r) # as) ((mo', r') # bs) =
     (if mo \<noteq> mo' then None
      else map_option (\<lambda>ms. if r \<noteq> r' then mo # ms else ms) (mutatedObjects as bs))"
| "mutatedObjects _ _ = None"

definition conjunction :: "expr list \<Rightarrow> expr" where
  "conjunction es = foldl AndExpr_create (ConstantExpr (alloc 1 1)) es"

definition mergeCell :: "bool \<Rightarrow> expr \<Rightarrow> expr option \<Rightarrow> expr option \<Rightarrow> expr option" where
  "mergeCell co inA av bv =
     (case (av, bv) of (Some a, Some b) \<Rightarrow> Some (SelectExpr_create co inA a b) | _ \<Rightarrow> av)"

definition mergeFrame :: "bool \<Rightarrow> expr \<Rightarrow> StackFrame \<Rightarrow> StackFrame \<Rightarrow> StackFrame" where
  "mergeFrame co inA af bf = af\<lparr>locals := map2 (mergeCell co inA) (locals af) (locals bf)\<rparr>"

fun mergeBytes :: "Context \<Rightarrow> expr \<Rightarrow> nat \<Rightarrow> nat \<Rightarrow> nat list \<Rightarrow> heap \<times> nat \<Rightarrow> (heap \<times> nat) result" where
  "mergeBytes C inA wr other [] s = Ok s"
| "mergeBytes C inA wr other (i # is) (h, n) =
     (case read8 C (h ! wr, n) i of
        None \<Rightarrow> Abort
      | Some (av, wos, n1) \<Rightarrow>
          (case read8 C (h[wr := wos] ! other, n1) i of
             None \<Rightarrow> Abort
           | Some (bv, otherOS, n2) \<Rightarrow>
               (case write_at C i (SelectExpr_create (constArrayOpt C) inA av bv) (h[wr := wos, other := otherOS] ! wr) of
                  None \<Rightarrow> Abort
                | Some wos' \<Rightarrow> mergeBytes C inA wr other is (h[wr := wos, other := otherOS, wr := wos'], n2))))"

fun mergeObjects :: "Context \<Rightarrow> expr \<Rightarrow> AddressSpace \<Rightarrow> MemoryObject list \<Rightarrow> heap \<times> nat \<times> AddressSpace \<Rightarrow> (heap \<times> nat \<times> AddressSpace) result" where
  "mergeObjects C inA bs [] s = Ok s"
| "mergeObjects C inA bs (mo # mos) (h, n, as) =
     (case (findObject mo as, findObject mo bs) of
        (Some os, Some otherOS) \<Rightarrow>
          if readOnly (h ! os) then Abort
          else
            rbind (getWriteable mo os (h, as)) (\<lambda>(wr, h1, as1).
            rbind (mergeBytes C inA wr otherOS [0..<moSize mo] (h1, n)) (\<lambda>(h2, n2). mergeObjects C inA bs mos (h2, n2, as1)))
      | _ \<Rightarrow> Abort)"

fun addConstraints :: "options \<Rightarrow> (constraints \<Rightarrow> expr \<Rightarrow> nat) \<Rightarrow> expr list \<Rightarrow> constraints \<Rightarrow> constraints result" where
  "addConstraints opts fuel [] cs = Ok cs"
| "addConstraints opts fuel (e # es) cs = rbind (addConstraint opts (fuel cs e) cs e) (addConstraints opts fuel es)"

text \<open>\<open>Ok None\<close> is the result false: the states cannot be merged, and nothing has changed.\<close>

definition merge :: "Context \<Rightarrow> options \<Rightarrow> (constraints \<Rightarrow> expr \<Rightarrow> nat) \<Rightarrow> (expr \<Rightarrow> expr \<Rightarrow> int) \<Rightarrow> heap \<times> nat \<Rightarrow>
    ExecutionState \<Rightarrow> ExecutionState \<Rightarrow> ((heap \<times> nat) \<times> ExecutionState) option result" where
  "merge C opts fuel order s a b =
     (if pc a \<noteq> pc b \<or> symbolics a \<noteq> symbolics b \<or> \<not> sameFrames (stack a) (stack b) then Ok None
      else
        let aConstraints = exprSet order (pathConstraints a);
            bConstraints = exprSet order (pathConstraints b);
            commonConstraints = filter (\<lambda>e. e \<in> set bConstraints) aConstraints;
            aSuffix = filter (\<lambda>e. e \<notin> set commonConstraints) aConstraints;
            bSuffix = filter (\<lambda>e. e \<notin> set commonConstraints) bConstraints;
            inA = conjunction aSuffix;
            inB = conjunction bSuffix
        in (case mutatedObjects (inorder (objects (addressSpace a))) (inorder (objects (addressSpace b))) of
              None \<Rightarrow> Ok None
            | Some mutated \<Rightarrow>
                rbind (mergeObjects C inA (addressSpace b) mutated (fst s, snd s, addressSpace a)) (\<lambda>(h, n, as).
                rbind (addConstraints opts fuel (commonConstraints @ [OrExpr_create inA inB]) []) (\<lambda>cs.
                  Ok (Some ((h, n), a\<lparr>stack := map2 (mergeFrame (constArrayOpt C) inA) (stack a) (stack b),
                                       addressSpace := as, pathConstraints := cs\<rparr>))))))"

section \<open>What reads and writes keep of an object state\<close>

definition sameFrame :: "ObjectState \<Rightarrow> ObjectState \<Rightarrow> bool" where
  "sameFrame os os' \<longleftrightarrow> copyOnWriteOwner os' = copyOnWriteOwner os \<and> readOnly os' = readOnly os \<and> osize os' = osize os \<and> object os' = object os"

lemma sameFrame_refl: "sameFrame os os"
  by (simp add: sameFrame_def)

lemma sameFrame_trans: "sameFrame a b \<Longrightarrow> sameFrame b c \<Longrightarrow> sameFrame a c"
  by (simp add: sameFrame_def)

lemma write8_frame: "sameFrame os (write8_value offset x os)" "sameFrame os (write8 offset v os)"
proof -
  show c: "sameFrame os (write8_value offset x os)" for x
    by (simp add: sameFrame_def write8_value_def markByteUnflushed_def markByteConcrete_def setKnownSymbolic_def)
  show "sameFrame os (write8 offset v os)"
  proof (cases "isConstantExpr v")
    case True
    then obtain k where "v = ConstantExpr k" by (rule isConstantExprE)
    then show ?thesis using c by (simp add: write8_def)
  next
    case False
    then have "write8 offset v os = markByteUnflushed offset (markByteSymbolic offset (setKnownSymbolic offset (Some v) os))"
      by (cases v) (simp_all add: write8_def)
    then show ?thesis by (simp add: sameFrame_def markByteUnflushed_def markByteSymbolic_def setKnownSymbolic_def)
  qed
qed

lemma writeLoop_frame:
  assumes "\<And>i idx os os'. wr i idx os = Some os' \<Longrightarrow> sameFrame os os'" "writeLoop wr ps os = Some os'"
  shows "sameFrame os os'"
  using assms(2)
proof (induction ps arbitrary: os)
  case (Cons p ps)
  then show ?case by (cases p) (auto split: option.splits intro: sameFrame_trans assms(1))
qed (simp add: sameFrame_refl)

lemma write_at_frame:
  assumes "write_at C offset v os = Some os'"
  shows "sameFrame os os'"
proof -
  have loop: "sameFrame os os'" if "writeBytes C (\<lambda>i idx os. Some (f i idx os)) k os = Some os'" "\<And>i idx os. sameFrame os (f i idx os)" for f k
    using writeLoop_frame [of "\<lambda>i idx os. Some (f i idx os)"] that by (auto simp: writeBytes_def)
  show ?thesis
  proof (cases "isConstantExpr v")
    case True
    then obtain c where v: "v = ConstantExpr c" by (rule isConstantExprE)
    show ?thesis
      using assms write8_frame loop unfolding v write_at_def writeInteger_def
      by (auto simp: Let_def split: if_splits)
  next
    case False
    then have "write_at C offset v os =
        (if getWidth v = 1 then Some (write8 offset (ZExtExpr_create v 8) os)
         else if getWidth v \<noteq> getWidth v div 8 * 8 then None
         else writeBytes C (\<lambda>i idx os. Some (write8 ((offset + idx) mod 2 ^ 32) (ExtractExpr_create v (8 * i) 8) os)) (getWidth v div 8) os)"
      by (cases v) (simp_all add: write_at_def Let_def)
    with assms write8_frame loop show ?thesis by (auto split: if_splits)
  qed
qed

lemma read8_frame:
  assumes "read8 C (os, n) offset = Some (e, os', n')"
  shows "sameFrame os os'"
  using assms
  by (auto simp: read8_def getUpdates_def sameFrame_def Let_def split: if_splits option.splits prod.splits)

text \<open>A read may move the bytes of an object state between its stores.\<close>

definition touched :: "Context \<Rightarrow> env \<Rightarrow> ObjectState \<Rightarrow> ObjectState \<Rightarrow> bool" where
  "touched C \<sigma> os os' \<longleftrightarrow> sameFrame os os' \<and> (\<forall>bs. holdsBytes C \<sigma> bs os \<longrightarrow> holdsBytes C \<sigma> bs os')"

lemma touched_refl: "touched C \<sigma> os os"
  by (simp add: touched_def sameFrame_refl)

lemma touched_trans: "touched C \<sigma> a b \<Longrightarrow> touched C \<sigma> b c \<Longrightarrow> touched C \<sigma> a c"
  by (auto simp: touched_def intro: sameFrame_trans)

lemma read8_touched:
  assumes "read8 C (os, n) offset = Some (e, os', n')" "offset < osize os"
  shows "touched C \<sigma> os os'"
  using read8_holds [of C \<sigma> _ "(os, n)" offset] read8_frame [OF assms(1)] assms by (fastforce simp: touched_def)

section \<open>Merging two object states\<close>

definition mergedByte :: "bool \<Rightarrow> int list \<Rightarrow> nat \<Rightarrow> int list \<Rightarrow> int list" where
  "mergedByte c bb i bs = bs[i := if c then bs ! i else bb ! i]"

lemma select_value:
  assumes "hasValue C \<sigma> inA 1 (of_bool c)" "hasValue C \<sigma> av w x" "hasValue C \<sigma> bv w y" "wf_env (constArrayOpt C) \<sigma>"
  shows "hasValue C \<sigma> (SelectExpr_create (constArrayOpt C) inA av bv) w (if c then x else y)"
  using refinesD [OF SelectExpr_create_sound [of "constArrayOpt C" inA av bv]] assms by (auto simp: hasValue_def)

lemma mergeBytes_ok:
  assumes "wr \<noteq> other" "wr < length h" "other < length h" "holdsBytes C \<sigma> ba (h ! wr)" "holdsBytes C \<sigma> bb (h ! other)"
    and "osize (h ! wr) = N" "osize (h ! other) = N" "\<forall>i \<in> set is. i < N" "hasValue C \<sigma> inA 1 (of_bool c)"
  shows "\<exists>h' n'. mergeBytes C inA wr other is (h, n) = Ok (h', n') \<and> length h' = length h \<and>
    holdsBytes C \<sigma> (fold (mergedByte c bb) is ba) (h' ! wr) \<and> sameFrame (h ! wr) (h' ! wr) \<and>
    (\<forall>r. r \<noteq> wr \<and> r < length h \<longrightarrow> touched C \<sigma> (h ! r) (h' ! r))"
  using assms(2-8)
proof (induction "is" arbitrary: h n ba)
  case (Cons i "is")
  have i: "i < N" using Cons.prems by simp
  have env: "wf_env (constArrayOpt C) \<sigma>" using holdsBytesD(1) [OF Cons.prems(3)] .
  obtain av wos n1 where a: "read8 C (h ! wr, n) i = Some (av, wos, n1)" "holdsBytes C \<sigma> ba wos" "osize wos = N"
      "hasValue C \<sigma> av 8 (ba ! i)"
    using read8_holds [of C \<sigma> ba "(h ! wr, n)" i] Cons.prems(3,5) i by (auto simp: hasValue_def)
  have o: "h[wr := wos] ! other = h ! other" using assms(1) by simp
  obtain bv oos n2 where b: "read8 C (h ! other, n1) i = Some (bv, oos, n2)" "holdsBytes C \<sigma> bb oos" "osize oos = N"
      "hasValue C \<sigma> bv 8 (bb ! i)"
    using read8_holds [of C \<sigma> bb "(h ! other, n1)" i] Cons.prems(4,6) i by (auto simp: hasValue_def)
  let ?v = "SelectExpr_create (constArrayOpt C) inA av bv" and ?h = "h[wr := wos, other := oos]" and ?x = "if c then ba ! i else bb ! i"
  have v: "hasValue C \<sigma> ?v 8 ?x" using select_value [OF assms(9) a(4) b(4) env] .
  have "?h ! wr = wos" using assms(1) Cons.prems(1) by simp
  obtain wos' where w: "write_at C i ?v wos = Some wos'" "holdsBytes C \<sigma> (putBytes C (byteOf ?x) i (numBytes 8) ba) wos'"
    using write_at_bytes [OF a(2) v, of i] a(3) i by (auto simp: memoryWidth_def numBytes_def)
  have "fits 8 ?x" using v sem_fits(1) [of \<sigma> ?v ?x] env by (auto simp: hasValue_def)
  then have "byteOf ?x 0 = ?x" by (simp add: byteOf_def fits_def)
  then have put: "putBytes C (byteOf ?x) i (numBytes 8) ba = mergedByte c bb i ba"
    using putBytes_one [of C "byteOf ?x" i ba] by (simp add: numBytes_def mergedByte_def)
  define h3 where "h3 = ?h[wr := wos']"
  have step: "mergeBytes C inA wr other (i # is) (h, n) = mergeBytes C inA wr other is (h3, n2)"
    using a(1) b(1) w(1) o \<open>?h ! wr = wos\<close> by (simp add: h3_def)
  have h3: "length h3 = length h" "h3 ! wr = wos'" "h3 ! other = oos" "\<And>r. r \<noteq> wr \<Longrightarrow> r \<noteq> other \<Longrightarrow> h3 ! r = h ! r"
    using assms(1) Cons.prems(1,2) by (auto simp: h3_def)
  have fr: "sameFrame (h ! wr) wos'" using sameFrame_trans [OF read8_frame [OF a(1)] write_at_frame [OF w(1)]] .
  have osz: "osize (h3 ! wr) = N" using fr Cons.prems(5) by (simp add: h3 sameFrame_def)
  have "\<exists>h' n'. mergeBytes C inA wr other is (h3, n2) = Ok (h', n') \<and> length h' = length h3 \<and>
      holdsBytes C \<sigma> (fold (mergedByte c bb) is (mergedByte c bb i ba)) (h' ! wr) \<and> sameFrame (h3 ! wr) (h' ! wr) \<and>
      (\<forall>r. r \<noteq> wr \<and> r < length h3 \<longrightarrow> touched C \<sigma> (h3 ! r) (h' ! r))"
    by (rule Cons.IH) (use w(2) put b(2,3) osz Cons.prems in \<open>simp_all add: h3\<close>)
  then obtain h' n' where h': "mergeBytes C inA wr other is (h3, n2) = Ok (h', n')" "length h' = length h"
      "holdsBytes C \<sigma> (fold (mergedByte c bb) is (mergedByte c bb i ba)) (h' ! wr)" "sameFrame wos' (h' ! wr)"
      "\<forall>r. r \<noteq> wr \<and> r < length h \<longrightarrow> touched C \<sigma> (h3 ! r) (h' ! r)" by (auto simp: h3)
  have t3: "touched C \<sigma> (h ! r) (h3 ! r)" if "r \<noteq> wr" for r
    using read8_touched [OF b(1)] Cons.prems(6) i h3(3,4) that by (cases "r = other") (simp_all add: touched_refl)
  have "touched C \<sigma> (h ! r) (h' ! r)" if "r \<noteq> wr" "r < length h" for r
    using touched_trans [OF t3 [OF that(1)]] h'(5) that by blast
  with h' step sameFrame_trans [OF fr h'(4)] show ?case by auto
qed (simp add: sameFrame_refl touched_refl)

lemma mergedBytes_all: "length ba = N \<Longrightarrow> length bb = N \<Longrightarrow> fold (mergedByte c bb) [0..<N] ba = (if c then ba else bb)"
proof -
  assume l: "length ba = N" "length bb = N"
  have "fold (mergedByte c bb) [0..<k] ba = (if c then ba else take k bb @ drop k ba)" if "k \<le> N" for k
    using that
  proof (induction k)
    case (Suc k)
    then have "mergedByte c bb k (take k bb @ drop k ba) = (if c then take k bb @ drop k ba else take (Suc k) bb @ drop (Suc k) ba)"
      using l by (auto simp: mergedByte_def list_update_append take_Suc_conv_app_nth nth_append Cons_nth_drop_Suc [symmetric])
    with Suc show ?case by (auto simp: mergedByte_def)
  qed simp
  from this [of N] l show ?thesis by simp
qed

section \<open>Merging two address spaces\<close>

text \<open>The bytes an address space has for a memory object in an environment.\<close>

definition seesBytes :: "Context \<Rightarrow> env \<Rightarrow> heap \<Rightarrow> AddressSpace \<Rightarrow> MemoryObject \<Rightarrow> int list \<Rightarrow> bool" where
  "seesBytes C \<sigma> h as mo bs \<longleftrightarrow> (\<exists>r. findObject mo as = Some r \<and> r < length h \<and> holdsBytes C \<sigma> bs (h ! r) \<and> length bs = moSize mo)"

definition heapKeeps :: "Context \<Rightarrow> env \<Rightarrow> nat set \<Rightarrow> heap \<Rightarrow> heap \<Rightarrow> bool" where
  "heapKeeps C \<sigma> W h h' \<longleftrightarrow> length h \<le> length h' \<and> (\<forall>r < length h. r \<notin> W \<longrightarrow> touched C \<sigma> (h ! r) (h' ! r))"

lemma heapKeeps_sees:
  assumes "heapKeeps C \<sigma> W h h'" "seesBytes C \<sigma> h as mo bs" "findObject mo as' = findObject mo as" "\<And>r. findObject mo as = Some r \<Longrightarrow> r \<notin> W"
  shows "seesBytes C \<sigma> h' as' mo bs"
proof -
  obtain r where "findObject mo as = Some r" "r < length h" "holdsBytes C \<sigma> bs (h ! r)" "length bs = moSize mo"
    using assms(2) by (auto simp: seesBytes_def)
  with assms show ?thesis unfolding seesBytes_def heapKeeps_def touched_def by (metis order_less_le_trans)
qed

lemma owner_frame [simp]:
  "isByteConcrete (os\<lparr>copyOnWriteOwner := k\<rparr>) = isByteConcrete os" "isByteFlushed (os\<lparr>copyOnWriteOwner := k\<rparr>) = isByteFlushed os"
  "knownSymbolic (os\<lparr>copyOnWriteOwner := k\<rparr>) = knownSymbolic os" "rootOf (os\<lparr>copyOnWriteOwner := k\<rparr>) = rootOf os"
  "updVal \<sigma> (os\<lparr>copyOnWriteOwner := k\<rparr>) = updVal \<sigma> os"
  by (simp_all add: fun_eq_iff isByteConcrete_def isByteFlushed_def knownSymbolic_def rootOf_def updVal_def cong: option.case_cong)

text \<open>One object: the copy that is written is private to the merged state.\<close>

lemma mergeObject_ok:
  assumes sys: "systemOK (h, [as, bs])" and f: "findObject mo as = Some r" "findObject mo bs = Some other" "r \<noteq> other"
    and "holdsBytes C \<sigma> ba (h ! r)" "holdsBytes C \<sigma> bb (h ! other)" "length ba = moSize mo" "length bb = moSize mo"
    and "\<not> readOnly (h ! r)" "hasValue C \<sigma> inA 1 (of_bool c)"
  shows "\<exists>wr h1 as1 h2 n2. getWriteable mo r (h, as) = Ok (wr, h1, as1) \<and>
    mergeBytes C inA wr other [0..<moSize mo] (h1, n) = Ok (h2, n2) \<and> systemOK (h2, [as1, bs]) \<and>
    seesBytes C \<sigma> h2 as1 mo (if c then ba else bb) \<and> heapKeeps C \<sigma> {wr} h h2 \<and> wr \<notin> snd ` boundObjects bs \<and>
    (\<forall>mo'. moAddress mo' \<noteq> moAddress mo \<longrightarrow> findObject mo' as1 = findObject mo' as \<and> findObject mo' as \<noteq> Some wr)"
proof -
  have ok: "spaceOK h as" "spaceOK h bs" "notShared h as bs"
    using systemOK_spaces [OF sys, of 0] systemOK_spaces [OF sys, of 1] systemOK_pairs [OF sys, of 0 1] by simp_all
  note rb = findObject_snd [OF ok(1) f(1)] and ob = findObject_snd [OF ok(2) f(2)]
  have len: "r < length h" "other < length h" using spaceOKD(4) [OF ok(1) rb] spaceOKD(4) [OF ok(2) ob] .
  obtain wr h1 as1 where g: "getWriteable mo r (h, as) = Ok (wr, h1, as1)" "h1 ! wr = (h ! r)\<lparr>copyOnWriteOwner := cowKey as\<rparr>"
    using getWriteable_new [OF assms(9) len(1)] by blast
  have fresh: "wr \<notin> snd ` boundObjects bs" "h1 = h \<or> h1 = h @ [h1 ! wr] \<and> wr = length h" "wr < length h1" "wr = r \<or> wr = length h"
  proof -
    show "wr \<notin> snd ` boundObjects bs"
      using g(1)
    proof (cases rule: getWriteable_cases)
      case own
      then show ?thesis using ok(3) rb unfolding notShared_def by (metis IntI order_less_irrefl)
    next
      case copied
      then show ?thesis using spaceOKD(4) [OF ok(2), of "length h"] by auto
    qed
  qed (use g(1) in \<open>cases rule: getWriteable_cases; simp\<close>)+
  then have ne: "wr \<noteq> other" using ob by blast
  have old: "h1 ! x = h ! x" if "x < length h" for x using fresh(2) that by (metis nth_append)
  have sys1: "systemOK (h1, [as1, bs])" using systemOK_getWriteable [OF sys, of 0] g(1) by simp
  have wos: "holdsBytes C \<sigma> ba (h1 ! wr)"
    using assms(5) unfolding g(2) by (simp add: holdsBytes_def byteOK_def shape_def wf_updates_def)
  have sz: "osize (h1 ! wr) = moSize mo" "osize (h ! other) = moSize mo"
    using holdsBytesD(3) [OF wos] holdsBytesD(3) [OF assms(6)] assms(7,8) by simp_all
  have "\<exists>h2 n2. mergeBytes C inA wr other [0..<moSize mo] (h1, n) = Ok (h2, n2) \<and> length h2 = length h1 \<and>
      holdsBytes C \<sigma> (fold (mergedByte c bb) [0..<moSize mo] ba) (h2 ! wr) \<and> sameFrame (h1 ! wr) (h2 ! wr) \<and>
      (\<forall>x. x \<noteq> wr \<and> x < length h1 \<longrightarrow> touched C \<sigma> (h1 ! x) (h2 ! x))"
    by (rule mergeBytes_ok) (use ne fresh(2,3) wos assms(6,10) sz len old in auto)
  then obtain h2 n2 where m: "mergeBytes C inA wr other [0..<moSize mo] (h1, n) = Ok (h2, n2)" "length h2 = length h1"
      "holdsBytes C \<sigma> (if c then ba else bb) (h2 ! wr)" "sameFrame (h1 ! wr) (h2 ! wr)" "\<forall>x. x \<noteq> wr \<and> x < length h1 \<longrightarrow> touched C \<sigma> (h1 ! x) (h2 ! x)"
    using mergedBytes_all [OF assms(7,8)] by auto
  have "copyOnWriteOwner (h2 ! x) = copyOnWriteOwner (h1 ! x)" if "x < length h1" for x
    using m(4,5) that by (cases "x = wr") (auto simp: sameFrame_def touched_def)
  then have "systemOK (h2, [as1, bs])" by (intro systemOK_heap [OF sys1]) (simp add: sameOwners_def m(2))
  moreover have "findObject mo as1 = Some wr" using write_local(1) [OF ok(1) f(1) g(1)] .
  then have "seesBytes C \<sigma> h2 as1 mo (if c then ba else bb)" using m(2,3) fresh(3) assms(7,8) by (auto simp: seesBytes_def)
  moreover have "heapKeeps C \<sigma> {wr} h h2"
    unfolding heapKeeps_def using m(2,5) fresh(2,3) old by (metis insertI1 length_append_singleton lessI less_imp_le_nat order.refl order_less_le_trans)
  moreover have "findObject mo' as1 = findObject mo' as \<and> findObject mo' as \<noteq> Some wr" if ad: "moAddress mo' \<noteq> moAddress mo" for mo'
  proof
    show "findObject mo' as1 = findObject mo' as"
      using g(1) by (cases rule: getWriteable_cases) (simp_all add: findObject_replace [OF spaceOKD(1) [OF ok(1)]] ad)
    show "findObject mo' as \<noteq> Some wr"
      using fresh(4) findObject_inj [OF ok(1) f(1), of mo'] ad spaceOKD(4) [OF ok(1)] findObject_snd [OF ok(1), of mo'] by (metis order_less_irrefl)
  qed
  ultimately show ?thesis using g(1) m(1) fresh(1) by blast
qed

lemma mergeObjects_ok:
  assumes "systemOK (h, [as, bs])" "distinct (map moAddress mos)" "hasValue C \<sigma> inA 1 (of_bool c)"
    and "\<forall>mo \<in> set mos. seesBytes C \<sigma> h as mo (fa mo) \<and> seesBytes C \<sigma> h bs mo (fb mo) \<and> findObject mo as \<noteq> findObject mo bs \<and>
      (\<forall>r. findObject mo as = Some r \<longrightarrow> \<not> readOnly (h ! r))"
  shows "\<exists>h' n' as'. mergeObjects C inA bs mos (h, n, as) = Ok (h', n', as') \<and>
    (\<forall>mo \<in> set mos. seesBytes C \<sigma> h' as' mo (if c then fa mo else fb mo)) \<and>
    (\<forall>mo. moAddress mo \<notin> moAddress ` set mos \<longrightarrow> (\<forall>x. seesBytes C \<sigma> h as mo x \<longrightarrow> seesBytes C \<sigma> h' as' mo x)) \<and>
    (\<forall>mo x. seesBytes C \<sigma> h bs mo x \<longrightarrow> seesBytes C \<sigma> h' bs mo x)"
  using assms(1,2,4)
proof (induction mos arbitrary: h n as)
  case (Cons mo mos)
  have new: "moAddress mo \<notin> moAddress ` set mos" using Cons.prems(2) by auto
  obtain r other where f: "findObject mo as = Some r" "r < length h" "findObject mo bs = Some other" "r \<noteq> other"
      "holdsBytes C \<sigma> (fa mo) (h ! r)" "holdsBytes C \<sigma> (fb mo) (h ! other)" "length (fa mo) = moSize mo" "length (fb mo) = moSize mo"
      "\<not> readOnly (h ! r)"
    using Cons.prems(3) by (auto simp: seesBytes_def)
  obtain wr h1 as1 h2 n2 where m: "getWriteable mo r (h, as) = Ok (wr, h1, as1)"
      "mergeBytes C inA wr other [0..<moSize mo] (h1, n) = Ok (h2, n2)" "systemOK (h2, [as1, bs])"
      "seesBytes C \<sigma> h2 as1 mo (if c then fa mo else fb mo)" "heapKeeps C \<sigma> {wr} h h2" "wr \<notin> snd ` boundObjects bs"
      "\<And>mo'. moAddress mo' \<noteq> moAddress mo \<Longrightarrow> findObject mo' as1 = findObject mo' as \<and> findObject mo' as \<noteq> Some wr"
    using mergeObject_ok [OF Cons.prems(1) f(1,3-9) assms(3)] by blast
  have bsOK: "spaceOK h bs" using systemOK_spaces [OF Cons.prems(1), of 1] by simp
  have keepA: "seesBytes C \<sigma> h2 as1 mo' x" if "moAddress mo' \<noteq> moAddress mo" "seesBytes C \<sigma> h as mo' x" for mo' x
    using heapKeeps_sees [OF m(5) that(2)] m(7) [OF that(1)] by auto
  have keepB: "seesBytes C \<sigma> h2 bs mo' x" if "seesBytes C \<sigma> h bs mo' x" for mo' x
    using heapKeeps_sees [OF m(5) that refl] findObject_snd [OF bsOK] m(6) by blast
  have "\<forall>mo' \<in> set mos. seesBytes C \<sigma> h2 as1 mo' (fa mo') \<and> seesBytes C \<sigma> h2 bs mo' (fb mo') \<and> findObject mo' as1 \<noteq> findObject mo' bs \<and>
      (\<forall>r. findObject mo' as1 = Some r \<longrightarrow> \<not> readOnly (h2 ! r))"
  proof
    fix mo' assume mo': "mo' \<in> set mos"
    then have ad: "moAddress mo' \<noteq> moAddress mo" using new by (metis image_eqI)
    have p: "seesBytes C \<sigma> h as mo' (fa mo')" "seesBytes C \<sigma> h bs mo' (fb mo')" "findObject mo' as \<noteq> findObject mo' bs"
      "\<And>r. findObject mo' as = Some r \<Longrightarrow> \<not> readOnly (h ! r)"
      using Cons.prems(3) mo' by simp_all
    have "\<not> readOnly (h2 ! x)" if "findObject mo' as = Some x" for x
      using p(1,4) that m(5) m(7) [OF ad] by (auto simp: seesBytes_def heapKeeps_def touched_def sameFrame_def)
    then show "seesBytes C \<sigma> h2 as1 mo' (fa mo') \<and> seesBytes C \<sigma> h2 bs mo' (fb mo') \<and> findObject mo' as1 \<noteq> findObject mo' bs \<and>
        (\<forall>r. findObject mo' as1 = Some r \<longrightarrow> \<not> readOnly (h2 ! r))"
      using keepA [OF ad p(1)] keepB [OF p(2)] p(3) m(7) [OF ad] by simp
  qed
  moreover have "distinct (map moAddress mos)" using Cons.prems(2) by simp
  ultimately obtain h' n' as' where r: "mergeObjects C inA bs mos (h2, n2, as1) = Ok (h', n', as')"
      "\<forall>mo \<in> set mos. seesBytes C \<sigma> h' as' mo (if c then fa mo else fb mo)"
      "\<And>mo x. moAddress mo \<notin> moAddress ` set mos \<Longrightarrow> seesBytes C \<sigma> h2 as1 mo x \<Longrightarrow> seesBytes C \<sigma> h' as' mo x"
      "\<And>mo x. seesBytes C \<sigma> h2 bs mo x \<Longrightarrow> seesBytes C \<sigma> h' bs mo x"
    using Cons.IH [OF m(3), of n2] by blast
  have "mergeObjects C inA bs (mo # mos) (h, n, as) = Ok (h', n', as')" using f m(1,2) r(1) by simp
  moreover have "\<forall>mo' \<in> set (mo # mos). seesBytes C \<sigma> h' as' mo' (if c then fa mo' else fb mo')" using r(2) r(3) [OF new m(4)] by simp
  moreover have "\<forall>mo'. moAddress mo' \<notin> moAddress ` set (mo # mos) \<longrightarrow> (\<forall>x. seesBytes C \<sigma> h as mo' x \<longrightarrow> seesBytes C \<sigma> h' as' mo' x)"
    using r(3) keepA by simp
  moreover have "\<forall>mo x. seesBytes C \<sigma> h bs mo x \<longrightarrow> seesBytes C \<sigma> h' bs mo x" using r(4) keepB by blast
  ultimately show ?case by blast
qed simp

section \<open>Merging two states\<close>

lemma insertExpr_set: "(\<forall>x \<in> set xs. order e x = 0 \<longrightarrow> e = x) \<Longrightarrow> set (insertExpr order e xs) = insert e (set xs)"
  by (induction xs) auto

lemma exprSet_set:
  assumes "\<forall>x \<in> S. \<forall>y \<in> S. order x y = 0 \<longrightarrow> x = y" "set es \<subseteq> S"
  shows "set (exprSet order es) = set es"
proof -
  have "set (foldl (\<lambda>s e. insertExpr order e s) acc es) = set acc \<union> set es" if "set acc \<subseteq> S" for acc
    using that assms(2)
  proof (induction es arbitrary: acc)
    case (Cons e es)
    then have ins: "set (insertExpr order e acc) = insert e (set acc)" using assms(1) by (intro insertExpr_set) auto
    with Cons show ?case by auto
  qed simp
  from this [of "[]"] show ?thesis by (simp add: exprSet_def)
qed

lemma conjunction_value:
  assumes "\<forall>e \<in> set es. hasValue C \<sigma> e 1 (of_bool (P e))" "wf_env co \<sigma>"
  shows "hasValue C \<sigma> (conjunction es) 1 (of_bool (\<forall>e \<in> set es. P e))"
proof -
  have "hasValue C \<sigma> (foldl AndExpr_create acc es) 1 (of_bool (q \<and> (\<forall>e \<in> set es. P e)))" if "hasValue C \<sigma> acc 1 (of_bool q)" for acc q
    using that assms(1)
  proof (induction es arbitrary: acc q)
    case (Cons e es)
    have "hasValue C \<sigma> (AndExpr_create acc e) 1 (of_bool (q \<and> P e))"
      using refinesD [OF AndExpr_create_sound [of co acc e]] Cons.prems assms(2)
      by (auto simp: hasValue_def kind_simps of_bool_def split: if_splits)
    from Cons.IH [OF this] Cons.prems(2) show ?case by (simp add: conj_assoc)
  qed simp
  from this [of "ConstantExpr (alloc 1 1)" True] show ?thesis
    by (simp add: conjunction_def hasValue_def alloc_def wf_const_def fits_def)
qed

lemma addConstraints_models:
  "addConstraints opts fuel es cs = Ok cs' \<Longrightarrow> sameModels (wf_env (ConstArrayOpt opts)) (es @ cs) cs'"
proof (induction es arbitrary: cs)
  case (Cons e es)
  then obtain ds where ds: "addConstraint opts (fuel cs e) cs e = Ok ds" "addConstraints opts fuel es ds = Ok cs'" by auto
  have "sameModels (wf_env (ConstArrayOpt opts)) ((e # cs) @ es) (ds @ es)" by (rule sameModels_append [OF addConstraint_models [OF ds(1)]])
  moreover have "sameModels (wf_env (ConstArrayOpt opts)) (e # es @ cs) ((e # cs) @ es)" by (rule sameModels_set) auto
  moreover have "sameModels (wf_env (ConstArrayOpt opts)) (ds @ es) (es @ ds)" by (rule sameModels_set) auto
  ultimately show ?case using Cons.IH [OF ds(2)] by (auto intro: sameModels_trans)
qed simp

lemma mutatedObjects_spec:
  assumes "mutatedObjects xs ys = Some mos" "distinct (map (moAddress \<circ> fst) xs)"
  shows "map fst ys = map fst xs" "set mos \<subseteq> fst ` set xs" "distinct (map moAddress mos)"
    "(mo, r) \<in> set xs \<Longrightarrow> \<exists>r'. (mo, r') \<in> set ys \<and> (mo \<in> set mos \<longleftrightarrow> r \<noteq> r')"
proof -
  have "map fst ys = map fst xs \<and> set mos \<subseteq> fst ` set xs \<and> distinct (map moAddress mos) \<and>
      (\<forall>mo r. (mo, r) \<in> set xs \<longrightarrow> (\<exists>r'. (mo, r') \<in> set ys \<and> (mo \<in> set mos \<longleftrightarrow> r \<noteq> r')))"
    using assms
  proof (induction xs ys arbitrary: mos rule: mutatedObjects.induct)
    case (2 mo r as mo' r' bs)
    then obtain ms where ms: "mo' = mo" "mutatedObjects as bs = Some ms" "mos = (if r \<noteq> r' then mo # ms else ms)"
      by (auto split: if_splits)
    have IH: "map fst bs = map fst as" "set ms \<subseteq> fst ` set as" "distinct (map moAddress ms)"
      "\<And>mo r. (mo, r) \<in> set as \<Longrightarrow> \<exists>r'. (mo, r') \<in> set bs \<and> (mo \<in> set ms \<longleftrightarrow> r \<noteq> r')"
      using 2 ms(1,2) by simp_all
    have new: "moAddress mo \<notin> moAddress ` set ms" "mo \<notin> fst ` set as"
      using 2(3) IH(2) by (force simp: image_iff)+
    have "\<exists>y. (x, y) \<in> set ((mo', r') # bs) \<and> (x \<in> set mos \<longleftrightarrow> z \<noteq> y)" if "(x, z) \<in> set ((mo, r) # as)" for x z
    proof (cases "(x, z) \<in> set as")
      case True
      then have "x \<noteq> mo" using new(2) by force
      with IH(4) [OF True] ms(3) show ?thesis by auto
    next
      case False
      with that have "x = mo" "z = r" by auto
      then show ?thesis using ms(1,3) new by (auto simp: image_iff)
    qed
    then show ?case using IH(1-3) ms new by auto
  qed auto
  then show "map fst ys = map fst xs" "set mos \<subseteq> fst ` set xs" "distinct (map moAddress mos)"
    "(mo, r) \<in> set xs \<Longrightarrow> \<exists>r'. (mo, r') \<in> set ys \<and> (mo \<in> set mos \<longleftrightarrow> r \<noteq> r')" by blast+
qed

lemma boundKeys_distinct: "memory_map.search t \<Longrightarrow> distinct (map (moAddress \<circ> fst) (inorder t))"
proof -
  assume "memory_map.search t"
  then have "sorted_wrt (<) (map (moAddress \<circ> fst) (inorder t))" by (simp add: memory_map.search_def memory_map.asc_def sorted_wrt_map)
  then show ?thesis by (simp add: strict_sorted_iff)
qed

lemma satisfied_value:
  assumes "wf_env co \<sigma>" "wf_constraints cs" "\<forall>c \<in> set cs. sem \<sigma> c \<noteq> None"
  shows "\<forall>e \<in> set cs. hasValue C \<sigma> e 1 (of_bool (sem \<sigma> e = Some 1))"
proof
  fix e assume e: "e \<in> set cs"
  then obtain v where v: "sem \<sigma> e = Some v" using assms(3) by blast
  have wf: "wf_expr e" "getWidth e = 1" using assms(2) e by (auto simp: wf_constraints_def)
  from sem_fits(1) [OF v assms(1) wf(1)] wf(2) have "v = 0 \<or> v = 1" by (simp add: fits_one_iff)
  then show "hasValue C \<sigma> e 1 (of_bool (sem \<sigma> e = Some 1))" using v wf by (auto simp: hasValue_def)
qed

lemma merge_parts:
  assumes "merge C opts fuel order (h, n) a b = Ok (Some ((h', n'), m))"
    and "\<forall>x \<in> set (pathConstraints a) \<union> set (pathConstraints b). \<forall>y \<in> set (pathConstraints a) \<union> set (pathConstraints b). order x y = 0 \<longrightarrow> x = y"
  obtains ca cb common mutated as cs where "set ca = set (pathConstraints a)" "set cb = set (pathConstraints b)"
    "common = filter (\<lambda>e. e \<in> set cb) ca"
    "mutatedObjects (inorder (objects (addressSpace a))) (inorder (objects (addressSpace b))) = Some mutated"
    "mergeObjects C (conjunction (filter (\<lambda>e. e \<notin> set common) ca)) (addressSpace b) mutated (h, n, addressSpace a) = Ok (h', n', as)"
    "addConstraints opts fuel (common @ [OrExpr_create (conjunction (filter (\<lambda>e. e \<notin> set common) ca))
       (conjunction (filter (\<lambda>e. e \<notin> set common) cb))]) [] = Ok cs"
    "m = a\<lparr>stack := map2 (mergeFrame (constArrayOpt C) (conjunction (filter (\<lambda>e. e \<notin> set common) ca))) (stack a) (stack b),
       addressSpace := as, pathConstraints := cs\<rparr>" "sameFrames (stack a) (stack b)"
proof -
  let ?ca = "exprSet order (pathConstraints a)" and ?cb = "exprSet order (pathConstraints b)"
  have sets: "set ?ca = set (pathConstraints a)" "set ?cb = set (pathConstraints b)" using exprSet_set [OF assms(2)] by auto
  let ?common = "filter (\<lambda>e. e \<in> set ?cb) ?ca"
  let ?inA = "conjunction (filter (\<lambda>e. e \<notin> set ?common) ?ca)" and ?inB = "conjunction (filter (\<lambda>e. e \<notin> set ?common) ?cb)"
  have same: "sameFrames (stack a) (stack b)" using assms(1) by (auto simp: merge_def split: if_splits)
  obtain mutated where mu: "mutatedObjects (inorder (objects (addressSpace a))) (inorder (objects (addressSpace b))) = Some mutated"
    using assms(1) by (auto simp: merge_def Let_def split: if_splits option.splits)
  have "rbind (mergeObjects C ?inA (addressSpace b) mutated (h, n, addressSpace a)) (\<lambda>(h, n, as).
      rbind (addConstraints opts fuel (?common @ [OrExpr_create ?inA ?inB]) []) (\<lambda>cs.
        Ok (Some ((h, n), a\<lparr>stack := map2 (mergeFrame (constArrayOpt C) ?inA) (stack a) (stack b), addressSpace := as, pathConstraints := cs\<rparr>)))) =
      Ok (Some ((h', n'), m))"
    using assms(1) mu unfolding merge_def Let_def by (simp split: if_split_asm)
  then obtain as cs where "mergeObjects C ?inA (addressSpace b) mutated (h, n, addressSpace a) = Ok (h', n', as)"
      "addConstraints opts fuel (?common @ [OrExpr_create ?inA ?inB]) [] = Ok cs"
      "m = a\<lparr>stack := map2 (mergeFrame (constArrayOpt C) ?inA) (stack a) (stack b), addressSpace := as, pathConstraints := cs\<rparr>"
    by (auto simp del: addConstraints.simps split: prod.splits)
  with that [OF sets refl mu] same show thesis by blast
qed

lemma divFree_create:
  assumes "divFree S l" "divFree S r"
  shows "divFree S (AndExpr_create l r)" "divFree S (OrExpr_create l r)"
  using assms pure.AndOr_create_weight [of S l r] by (simp_all add: divFree_def)

lemma divFree_conjunction:
  assumes "divFreeAll S es"
  shows "divFree S (conjunction es)"
proof -
  have "divFree S (foldl AndExpr_create acc es)" if "divFree S acc" for acc
    using that assms by (induction es arbitrary: acc) (simp_all add: divFree_create)
  then show ?thesis by (simp add: conjunction_def divFree_def)
qed

text \<open>A register of the merged stack selects between the registers of the two sides, and the last constraint of the
  merged state holds when one of the two sides does.\<close>

lemma merged_register:
  assumes "sameFrames sa sb" "hasValue C \<sigma> inA 1 (of_bool c)" "wf_env (constArrayOpt C) \<sigma>"
    and "i < length sa" "j < length (locals (sa ! i))" "j < length (locals (sb ! i))"
    and "locals (sa ! i) ! j = Some av" "locals (sb ! i) ! j = Some bv" "hasValue C \<sigma> av w x" "hasValue C \<sigma> bv w y"
  shows "\<exists>e. locals (map2 (mergeFrame (constArrayOpt C) inA) sa sb ! i) ! j = Some e \<and> hasValue C \<sigma> e w (if c then x else y)"
proof -
  have "length sb = length sa" using assms(1) by (simp add: sameFrames_def list_all2_lengthD)
  then have "locals (map2 (mergeFrame (constArrayOpt C) inA) sa sb ! i) ! j = Some (SelectExpr_create (constArrayOpt C) inA av bv)"
    using assms(4-8) by (simp add: mergeFrame_def mergeCell_def)
  then show ?thesis using select_value [OF assms(2,9,10,3)] by simp
qed

lemma merged_disjunction:
  assumes "hasValue C \<sigma> l 1 (of_bool p)" "hasValue C \<sigma> r 1 (of_bool q)" "wf_env (constArrayOpt C) \<sigma>"
  shows "hasValue C \<sigma> (OrExpr_create l r) 1 (of_bool (p \<or> q))"
  using refinesD [OF OrExpr_create_sound [of "constArrayOpt C" l r]] assms
  by (auto simp: hasValue_def kind_simps of_bool_def split: if_splits)

lemma findObject_mem:
  assumes "memory_map.search (objects as)" "(mo, r) \<in> boundObjects as"
  shows "findObject mo as = Some r"
  using findObject_bound [OF assms(1), of mo r] assms(2) by blast

lemma mergedMemory:
  assumes sys: "systemOK (h, [as, bs])" and mu: "mutatedObjects (inorder (objects as)) (inorder (objects bs)) = Some mutated"
    and inA: "hasValue C \<sigma> inA 1 (of_bool c)"
    and mem: "\<forall>(mo, r) \<in> boundObjects as. seesBytes C \<sigma> h as mo (fa mo) \<and> seesBytes C \<sigma> h bs mo (fb mo) \<and>
      (readOnly (h ! r) \<longrightarrow> (mo, r) \<in> boundObjects bs)"
  shows "\<exists>h' n' as'. mergeObjects C inA bs mutated (h, n, as) = Ok (h', n', as') \<and>
    (\<forall>mo \<in> fst ` boundObjects as. seesBytes C \<sigma> h' as' mo (if c then fa mo else fb mo))"
proof -
  have ok: "memory_map.search (objects as)" "memory_map.search (objects bs)"
    using systemOK_spaces [OF sys, of 0] systemOK_spaces [OF sys, of 1] by (simp_all add: spaceOK_def)
  note spec = mutatedObjects_spec [OF mu boundKeys_distinct [OF ok(1)]]
  have bound: "\<exists>r'. (mo, r') \<in> boundObjects bs \<and> (mo \<in> set mutated \<longleftrightarrow> r \<noteq> r')" if "(mo, r) \<in> boundObjects as" for mo r
    using spec(4) that by (simp add: boundObjects_def)
  have "\<forall>mo \<in> set mutated. seesBytes C \<sigma> h as mo (fa mo) \<and> seesBytes C \<sigma> h bs mo (fb mo) \<and> findObject mo as \<noteq> findObject mo bs \<and>
      (\<forall>r. findObject mo as = Some r \<longrightarrow> \<not> readOnly (h ! r))"
  proof
    fix mo assume mo: "mo \<in> set mutated"
    then obtain r where r: "(mo, r) \<in> boundObjects as" using spec(2) by (auto simp: boundObjects_def)
    obtain r' where r': "(mo, r') \<in> boundObjects bs" "r \<noteq> r'" using bound [OF r] mo by blast
    have f: "findObject mo as = Some r" "findObject mo bs = Some r'" using findObject_mem [OF ok(1) r] findObject_mem [OF ok(2) r'(1)] .
    have "(mo, r) \<notin> boundObjects bs" using findObject_mem [OF ok(2), of mo r] f(2) r'(2) by auto
    with mem r f r'(2) show "seesBytes C \<sigma> h as mo (fa mo) \<and> seesBytes C \<sigma> h bs mo (fb mo) \<and> findObject mo as \<noteq> findObject mo bs \<and>
        (\<forall>r. findObject mo as = Some r \<longrightarrow> \<not> readOnly (h ! r))" by auto
  qed
  from mergeObjects_ok [OF sys spec(3) inA this, of n]
  obtain h' n' as' where run: "mergeObjects C inA bs mutated (h, n, as) = Ok (h', n', as')"
      "\<forall>mo \<in> set mutated. seesBytes C \<sigma> h' as' mo (if c then fa mo else fb mo)"
      "\<And>mo x. moAddress mo \<notin> moAddress ` set mutated \<Longrightarrow> seesBytes C \<sigma> h as mo x \<Longrightarrow> seesBytes C \<sigma> h' as' mo x" by blast
  have "seesBytes C \<sigma> h' as' mo (if c then fa mo else fb mo)" if b: "(mo, r) \<in> boundObjects as" for mo r
  proof (cases "mo \<in> set mutated")
    case False
    obtain r' where r': "(mo, r') \<in> boundObjects bs" "r = r'" using bound [OF b] False by blast
    have f: "findObject mo as = Some r" "findObject mo bs = Some r" using findObject_mem [OF ok(1) b] findObject_mem [OF ok(2) r'(1)] r'(2) by simp_all
    have "moAddress mo \<notin> moAddress ` set mutated"
    proof
      assume "moAddress mo \<in> moAddress ` set mutated"
      then obtain mo' r'' where "mo' \<in> set mutated" "moAddress mo' = moAddress mo" "(mo', r'') \<in> boundObjects as"
        using spec(2) by (force simp: boundObjects_def)
      moreover from this b boundKeys_distinct [OF ok(1)] have "mo' = mo" by (fastforce simp: boundObjects_def distinct_map inj_on_def)
      ultimately show False using False by simp
    qed
    moreover have "seesBytes C \<sigma> h as mo (fa mo)" "seesBytes C \<sigma> h as mo (fb mo)" using mem b f by (auto simp: seesBytes_def)
    ultimately show ?thesis using run(3) by simp
  qed (use run(2) in blast)
  with run(1) show ?thesis by force
qed

text \<open>
  C4: merging two states. An input of either path is an input of the merged path, and without
  divisions there are no others. For an input of the first path the registers and the memory of the
  merged state have the values of the first state, for the other inputs those of the second.
\<close>

theorem merge_correct:
  assumes run: "merge C opts fuel order (h, n) a b = Ok (Some ((h', n'), m))"
    and order: "\<forall>x \<in> set (pathConstraints a) \<union> set (pathConstraints b). \<forall>y \<in> set (pathConstraints a) \<union> set (pathConstraints b).
      order x y = 0 \<longrightarrow> x = y"
    and env: "ConstArrayOpt opts = constArrayOpt C" "wf_env (constArrayOpt C) \<sigma>"
    and wf: "wf_constraints (pathConstraints a @ pathConstraints b)"
    and defined: "\<forall>c \<in> set (pathConstraints a @ pathConstraints b). sem \<sigma> c \<noteq> None"
    and sys: "systemOK (h, [addressSpace a, addressSpace b])"
    and mem: "\<forall>(mo, r) \<in> boundObjects (addressSpace a). seesBytes C \<sigma> h (addressSpace a) mo (fa mo) \<and>
      seesBytes C \<sigma> h (addressSpace b) mo (fb mo) \<and> (readOnly (h ! r) \<longrightarrow> (mo, r) \<in> boundObjects (addressSpace b))"
  shows "(divFreeAll S (pathConstraints a @ pathConstraints b) \<and> totalOn S \<sigma> \<and> satisfied \<sigma> (pathConstraints m) \<longrightarrow>
      satisfied \<sigma> (pathConstraints a) \<or> satisfied \<sigma> (pathConstraints b)) \<and>
    (satisfied \<sigma> (pathConstraints a) \<or> satisfied \<sigma> (pathConstraints b) \<longrightarrow>
      satisfied \<sigma> (pathConstraints m) \<and>
      (\<forall>i < length (stack a). \<forall>j < length (locals (stack a ! i)). \<forall>av bv w x y.
        j < length (locals (stack b ! i)) \<and> locals (stack a ! i) ! j = Some av \<and> locals (stack b ! i) ! j = Some bv \<and>
        hasValue C \<sigma> av w x \<and> hasValue C \<sigma> bv w y \<longrightarrow>
        (\<exists>e. locals (stack m ! i) ! j = Some e \<and> hasValue C \<sigma> e w (if satisfied \<sigma> (pathConstraints a) then x else y))) \<and>
      (\<forall>mo \<in> fst ` boundObjects (addressSpace a).
        seesBytes C \<sigma> h' (addressSpace m) mo (if satisfied \<sigma> (pathConstraints a) then fa mo else fb mo)))"
proof -
  obtain ca cb common mutated as cs where parts: "set ca = set (pathConstraints a)" "set cb = set (pathConstraints b)"
      "common = filter (\<lambda>e. e \<in> set cb) ca"
      "mutatedObjects (inorder (objects (addressSpace a))) (inorder (objects (addressSpace b))) = Some mutated"
      "mergeObjects C (conjunction (filter (\<lambda>e. e \<notin> set common) ca)) (addressSpace b) mutated (h, n, addressSpace a) = Ok (h', n', as)"
      "addConstraints opts fuel (common @ [OrExpr_create (conjunction (filter (\<lambda>e. e \<notin> set common) ca))
         (conjunction (filter (\<lambda>e. e \<notin> set common) cb))]) [] = Ok cs"
      "m = a\<lparr>stack := map2 (mergeFrame (constArrayOpt C) (conjunction (filter (\<lambda>e. e \<notin> set common) ca))) (stack a) (stack b),
         addressSpace := as, pathConstraints := cs\<rparr>" "sameFrames (stack a) (stack b)"
    by (rule merge_parts [OF run order])
  let ?as = "filter (\<lambda>e. e \<notin> set common) ca" and ?bs = "filter (\<lambda>e. e \<notin> set common) cb"
  let ?inA = "conjunction ?as" and ?inB = "conjunction ?bs" and ?A = "satisfied \<sigma> (pathConstraints a)" and ?B = "satisfied \<sigma> (pathConstraints b)"
  have sat: "?A \<longleftrightarrow> satisfied \<sigma> common \<and> satisfied \<sigma> ?as" "?B \<longleftrightarrow> satisfied \<sigma> common \<and> satisfied \<sigma> ?bs"
    by (auto simp: satisfied_def parts(1,2) [symmetric] parts(3))
  have vals: "\<forall>e \<in> set (ca @ cb). hasValue C \<sigma> e 1 (of_bool (sem \<sigma> e = Some 1))"
    using satisfied_value [OF env(2) wf defined] parts(1,2) by simp
  have inA: "hasValue C \<sigma> ?inA 1 (of_bool (satisfied \<sigma> ?as))" and inB: "hasValue C \<sigma> ?inB 1 (of_bool (satisfied \<sigma> ?bs))"
    using conjunction_value [OF _ env(2), of ?as C "\<lambda>e. sem \<sigma> e = Some 1"] conjunction_value [OF _ env(2), of ?bs C "\<lambda>e. sem \<sigma> e = Some 1"] vals
    by (simp_all add: satisfied_def)
  have or: "wf_expr (OrExpr_create ?inA ?inB)" "getWidth (OrExpr_create ?inA ?inB) = 1"
    "sem \<sigma> (OrExpr_create ?inA ?inB) = Some (of_bool (satisfied \<sigma> ?as \<or> satisfied \<sigma> ?bs))"
    using merged_disjunction [OF inA inB env(2)] by (simp_all add: hasValue_def)
  let ?new = "common @ [OrExpr_create ?inA ?inB]"
  have new: "satisfied \<sigma> ?new \<longleftrightarrow> ?A \<or> ?B" using sat or(3) by (auto simp: satisfied_def)
  have wfnew: "wf_constraints (?new @ [])"
    using wf or(1,2) parts(1,3) by (auto simp: wf_constraints_def)
  have models: "sameModels (wf_env (constArrayOpt C)) (?new @ []) cs" using addConstraints_models [OF parts(6)] env(1) by simp
  have csm: "pathConstraints m = cs" "addressSpace m = as" "stack m = map2 (mergeFrame (constArrayOpt C) ?inA) (stack a) (stack b)"
    using parts(7) by simp_all
  show ?thesis
  proof (intro conjI impI)
    assume dt: "divFreeAll S (pathConstraints a @ pathConstraints b) \<and> totalOn S \<sigma> \<and> satisfied \<sigma> (pathConstraints m)"
    then have "divFreeAll S ca" "divFreeAll S cb" using parts(1,2) by (simp_all add: divFreeAll_def)
    then have "divFreeAll S (?new @ [])"
      using parts(3) divFree_create(2) [OF divFree_conjunction divFree_conjunction, of S ?as ?bs] by (auto simp: divFreeAll_def)
    then have "satisfied \<sigma> (?new @ [])" using sameModelsD(4) [OF models wfnew] env(2) dt csm(1) by blast
    then show "?A \<or> ?B" using new by simp
  next
    assume "?A \<or> ?B"
    then show "satisfied \<sigma> (pathConstraints m)" using sameModelsD(2) [OF models wfnew env(2)] new csm(1) by simp
  next
    assume AB: "?A \<or> ?B"
    then have c: "satisfied \<sigma> ?as \<longleftrightarrow> ?A" using sat by blast
    show "\<forall>i < length (stack a). \<forall>j < length (locals (stack a ! i)). \<forall>av bv w x y.
        j < length (locals (stack b ! i)) \<and> locals (stack a ! i) ! j = Some av \<and> locals (stack b ! i) ! j = Some bv \<and>
        hasValue C \<sigma> av w x \<and> hasValue C \<sigma> bv w y \<longrightarrow>
        (\<exists>e. locals (stack m ! i) ! j = Some e \<and> hasValue C \<sigma> e w (if ?A then x else y))"
      using merged_register [OF parts(8) inA env(2)] c by (simp add: csm)
  next
    assume AB: "?A \<or> ?B"
    then have c: "satisfied \<sigma> ?as \<longleftrightarrow> ?A" using sat by blast
    show "\<forall>mo \<in> fst ` boundObjects (addressSpace a). seesBytes C \<sigma> h' (addressSpace m) mo (if ?A then fa mo else fb mo)"
      using mergedMemory [OF sys parts(4) inA mem, of n] parts(5) c csm(2) by simp
  qed
qed

text \<open>Two sides of a comparison of the first byte with 3, with 1 and 2 in the only register.\<close>

definition exampleState :: "expr \<Rightarrow> expr \<Rightarrow> ExecutionState" where
  "exampleState path v =
     (ExecutionState_new \<lparr>kfunction = 1, numRegisters = 1, firstInstruction = 7\<rparr>)
       \<lparr>pathConstraints := [path],
        stack := [(StackFrame_new 0 \<lparr>kfunction = 1, numRegisters = 1, firstInstruction = 7\<rparr>)\<lparr>locals := [Some v]\<rparr>]\<rparr>"

definition examplePath :: expr where
  "examplePath = EqExpr (c8 3) (bufAt 0)"

definition exampleNegated :: expr where
  "exampleNegated = EqExpr (ConstantExpr (alloc 0 1)) examplePath"

theorem merge_correct_witness:
  "\<exists>h' n' m e. merge exampleContext exampleOptions (\<lambda>cs e. 4) (\<lambda>x y. if x = y then 0 else 1) ([], 0)
       (exampleState examplePath (c8 1)) (exampleState exampleNegated (c8 2)) = Ok (Some ((h', n'), m)) \<and>
     satisfied (env8 4) (pathConstraints m) \<and> locals (stack m ! 0) ! 0 = Some e \<and> sem (env8 4) e = Some 2"
proof -
  let ?a = "exampleState examplePath (c8 1)" and ?b = "exampleState exampleNegated (c8 2)"
  let ?as = "ExecutionState.addressSpace ?a"
  have "case merge exampleContext exampleOptions (\<lambda>cs e. 4) (\<lambda>x y. if x = y then 0 else 1) ([], 0) ?a ?b of Ok (Some x) \<Rightarrow> True | _ \<Rightarrow> False"
    by code_simp
  then obtain h' n' m where run: "merge exampleContext exampleOptions (\<lambda>cs e. 4) (\<lambda>x y. if x = y then 0 else 1) ([], 0) ?a ?b = Ok (Some ((h', n'), m))"
    by (auto split: result.splits option.splits)
  have fields: "pathConstraints ?a = [examplePath]" "pathConstraints ?b = [exampleNegated]" "objects (ExecutionState.addressSpace ?a) = Terminator"
     "objects (ExecutionState.addressSpace ?b) = Terminator" "stack ?a ! 0 = (StackFrame_new 0 \<lparr>kfunction = 1, numRegisters = 1, firstInstruction = 7\<rparr>)\<lparr>locals := [Some (c8 1)]\<rparr>"
     "stack ?b ! 0 = (StackFrame_new 0 \<lparr>kfunction = 1, numRegisters = 1, firstInstruction = 7\<rparr>)\<lparr>locals := [Some (c8 2)]\<rparr>" "length (stack ?a) = 1"
    by (simp_all add: exampleState_def ExecutionState_new_def ExecutionState_assuming_def pushFrame_def AddressSpace_new_def)
  have sys: "systemOK ([], [addressSpace ?a, addressSpace ?b])"
    by (auto simp: systemOK_def spaceOK_def notShared_def boundObjects_def fields memory_map.tree.inv_empty exampleState_def ExecutionState_new_def ExecutionState_assuming_def pushFrame_def AddressSpace_new_def less_Suc_eq)
  have bound: "boundObjects (addressSpace ?a) = {}" by (simp add: boundObjects_def fields)
  have sem: "sem (env8 4) examplePath = Some 0" "sem (env8 4) exampleNegated = Some 1" "wf_expr examplePath" "wf_expr exampleNegated"
      "getWidth examplePath = 1" "getWidth exampleNegated = 1"
    by (simp_all add: examplePath_def exampleNegated_def example_simps kind_simps alloc_def)
  have "satisfied (env8 4) (pathConstraints m) \<and> (\<exists>e. locals (stack m ! 0) ! 0 = Some e \<and> hasValue exampleContext (env8 4) e 8 2)"
    using merge_correct [OF run, of "env8 4"] sys bound sem
    by (simp add: fields wf_constraints_def hasValue_def example_simps)
  then show ?thesis using run by (auto simp: hasValue_def)
qed

end
