(* ===== verification/PTree.thy ===== *)
theory PTree
  imports Visitor "HOL-Library.Word"
begin

text \<open>
  The process tree (\<open>lib/Core/PTree.cpp\<close>): a binary tree with one leaf for each state under exploration,
  and the selection of a state by a random walk from its root (\<open>RandomPathSearcher\<close> of
  \<open>lib/Core/Searcher.cpp\<close>). The nodes refer to their parents and children by pointers, so they live in a
  heap: a list in which a pointer is an index, allocation appends, and a freed node is \<open>None\<close>. The
  fields \<open>ptreeNode\<close> of the states are a map from the states that exist.
\<close>

section \<open>Definitions\<close>

record 's PTreeNode =
  parent :: "nat option"
  left :: "nat option"
  right :: "nat option"
  nodeState :: "'s option"

record 's PTree =
  root :: nat
  nodes :: "'s PTreeNode option list"
  ptreeNode :: "'s \<rightharpoonup> nat"

definition nodeAt :: "'s PTree \<Rightarrow> nat \<Rightarrow> 's PTreeNode option" where
  "nodeAt T n = (if n < length (nodes T) then nodes T ! n else None)"

definition setNode :: "nat \<Rightarrow> 's PTreeNode option \<Rightarrow> 's PTree \<Rightarrow> 's PTree" where
  "setNode n nd T = T\<lparr>nodes := (nodes T)[n := nd]\<rparr>"

definition isLeaf :: "'s PTreeNode \<Rightarrow> bool" where
  "isLeaf nd \<longleftrightarrow> left nd = None \<and> right nd = None"

text \<open>The constructor of a node stores its address in the state.\<close>

definition PTreeNode_new :: "nat option \<Rightarrow> 's \<Rightarrow> 's PTree \<Rightarrow> 's PTree" where
  "PTreeNode_new p s T =
     T\<lparr>nodes := nodes T @ [Some \<lparr>parent = p, left = None, right = None, nodeState = Some s\<rparr>],
       ptreeNode := (ptreeNode T)(s \<mapsto> length (nodes T))\<rparr>"

definition PTree_new :: "'s \<Rightarrow> 's PTree" where
  "PTree_new initialState = PTreeNode_new None initialState \<lparr>root = 0, nodes = [], ptreeNode = Map.empty\<rparr>"

definition attach :: "nat \<Rightarrow> 's \<Rightarrow> 's \<Rightarrow> 's PTree \<Rightarrow> 's PTree result" where
  "attach node leftState rightState T =
     (case nodeAt T node of
        None \<Rightarrow> Abort
      | Some nd \<Rightarrow>
          if \<not> isLeaf nd then Abort
          else
            let l = length (nodes T)
            in Ok (PTreeNode_new (Some node) rightState (PTreeNode_new (Some node) leftState
                 (setNode node (Some (nd\<lparr>nodeState := None, left := Some l, right := Some (Suc l)\<rparr>)) T))))"

text \<open>\<open>p->left = nullptr\<close> also frees the node.\<close>

definition unlink :: "nat \<Rightarrow> nat \<Rightarrow> 's PTree \<Rightarrow> 's PTree result" where
  "unlink n p T =
     (case nodeAt T p of
        None \<Rightarrow> Abort
      | Some pd \<Rightarrow>
          if left pd = Some n then Ok (setNode n None (setNode p (Some (pd\<lparr>left := None\<rparr>)) T))
          else if right pd = Some n then Ok (setNode n None (setNode p (Some (pd\<lparr>right := None\<rparr>)) T))
          else Abort)"

text \<open>The loop frees a node in each turn, so it ends.\<close>

definition liveNodes :: "'s PTree \<Rightarrow> nat" where
  "liveNodes T = length (filter (\<lambda>x. x \<noteq> None) (nodes T))"

lemma filter_update_None: "n < length xs \<Longrightarrow> xs ! n \<noteq> None \<Longrightarrow> length (filter (\<lambda>x. x \<noteq> None) (xs[n := None])) < length (filter (\<lambda>x. x \<noteq> None) xs)"
proof (induction xs arbitrary: n)
  case (Cons x xs)
  then show ?case by (cases n) (auto split: if_splits)
qed simp

lemma filter_update_Some: "length (filter (\<lambda>x. x \<noteq> None) (xs[n := Some y])) \<le> length (filter (\<lambda>x. x \<noteq> None) xs)" if "n < length xs" "xs ! n \<noteq> None"
  using that
proof (induction xs arbitrary: n)
  case (Cons x xs)
  then show ?case by (cases n) (auto split: if_splits)
qed simp

lemma unlink_frees:
  assumes "nodeAt T n = Some nd" "unlink n p T = Ok T'"
  shows "liveNodes T' < liveNodes T"
proof -
  obtain pd where pd: "nodeAt T p = Some pd" using assms(2) by (auto simp: unlink_def split: option.splits)
  then have p: "p < length (nodes T)" "nodes T ! p \<noteq> None" by (auto simp: nodeAt_def split: if_splits)
  have n: "n < length (nodes T)" "nodes T ! n \<noteq> None" using assms(1) by (auto simp: nodeAt_def split: if_splits)
  have "length (filter (\<lambda>x. x \<noteq> None) ((nodes T)[p := Some x, n := None])) < liveNodes T" for x
  proof -
    have "(nodes T)[p := Some x] ! n \<noteq> None" using n by (cases "n = p") auto
    with filter_update_None [of n "(nodes T)[p := Some x]"] filter_update_Some [OF p, of x] n(1)
    show ?thesis by (simp add: liveNodes_def)
  qed
  then show ?thesis using assms(2) pd by (auto simp: unlink_def setNode_def liveNodes_def split: if_splits)
qed

function removeLoop :: "nat \<Rightarrow> 's PTree \<Rightarrow> 's PTree result" where
  "removeLoop n T =
     (case nodeAt T n of
        None \<Rightarrow> Abort
      | Some nd \<Rightarrow>
          if \<not> isLeaf nd then Ok T
          else
            (case parent nd of
               None \<Rightarrow> Ok T
             | Some p \<Rightarrow> (case unlink n p T of Ok T' \<Rightarrow> removeLoop p T' | Abort \<Rightarrow> Abort | OutOfFuel \<Rightarrow> OutOfFuel)))"
  by pat_completeness auto
termination
  by (relation "measure (\<lambda>(n, T). liveNodes T)") (auto intro: unlink_frees)

declare removeLoop.simps [simp del]

definition remove :: "nat \<Rightarrow> 's PTree \<Rightarrow> 's PTree result" where
  "remove n T = (case nodeAt T n of None \<Rightarrow> Abort | Some nd \<Rightarrow> if \<not> isLeaf nd then Abort else removeLoop n T)"

text \<open>
  The random walk. \<open>getInt32\<close> is the draw of the random number generator, with its state; a null
  pointer that is followed is \<open>Abort\<close>, and \<open>None\<close> stands for a walk that does not end.
\<close>

partial_function (option) walkTree :: "('g \<Rightarrow> 32 word \<times> 'g) \<Rightarrow> 's PTree \<Rightarrow> nat option \<Rightarrow> 32 word \<Rightarrow> nat \<Rightarrow> 'g \<Rightarrow> ('s \<times> 'g) result option" where
  "walkTree getInt32 T n flips bits g =
     (case (case n of None \<Rightarrow> None | Some a \<Rightarrow> nodeAt T a) of
        None \<Rightarrow> Some Abort
      | Some nd \<Rightarrow>
          (case nodeState nd of
             Some s \<Rightarrow> Some (Ok (s, g))
           | None \<Rightarrow>
               if left nd = None then walkTree getInt32 T (right nd) flips bits g
               else if right nd = None then walkTree getInt32 T (left nd) flips bits g
               else
                 (let (flips', bits', g') = (if bits = 0 then (case getInt32 g of (f, g') \<Rightarrow> (f, 32, g')) else (flips, bits, g))
                  in walkTree getInt32 T (if bit flips' (bits' - 1) then left nd else right nd) flips' (bits' - 1) g')))"

definition RandomPathSearcher_selectState :: "('g \<Rightarrow> 32 word \<times> 'g) \<Rightarrow> 's PTree \<Rightarrow> 'g \<Rightarrow> ('s \<times> 'g) result option" where
  "RandomPathSearcher_selectState getInt32 T g = walkTree getInt32 T (Some (root T)) 0 0 g"

section \<open>The shape of the tree\<close>

abbreviation kid :: "'s PTreeNode \<Rightarrow> nat \<Rightarrow> bool" where
  "kid nd c \<equiv> left nd = Some c \<or> right nd = Some c"

text \<open>Parents and children refer to each other, and a child is younger than its parent.\<close>

definition linked :: "'s PTree \<Rightarrow> bool" where
  "linked T \<longleftrightarrow>
     (\<exists>rd. nodeAt T (root T) = Some rd \<and> parent rd = None) \<and>
     (\<forall>n nd. nodeAt T n = Some nd \<longrightarrow>
        (\<forall>c. kid nd c \<longrightarrow> n < c \<and> (\<exists>cd. nodeAt T c = Some cd \<and> parent cd = Some n)) \<and>
        (left nd = right nd \<longrightarrow> left nd = None) \<and>
        (parent nd = None \<longrightarrow> n = root T) \<and>
        (\<forall>p. parent nd = Some p \<longrightarrow> (\<exists>pd. nodeAt T p = Some pd \<and> kid pd n)))"

text \<open>
  A node is a leaf with the state that refers to it, or an inner node: no branch of the tree is dead.
  Once no state is left, the tree is not used any more, and its root may be neither.
\<close>

definition nodeFine :: "('s \<rightharpoonup> nat) \<Rightarrow> nat \<Rightarrow> 's PTreeNode \<Rightarrow> bool" where
  "nodeFine f n nd = (case nodeState nd of Some s \<Rightarrow> isLeaf nd \<and> f s = Some n | None \<Rightarrow> \<not> isLeaf nd)"

definition statesAtLeaves :: "('s \<rightharpoonup> nat) \<Rightarrow> 's PTree \<Rightarrow> bool" where
  "statesAtLeaves f T \<longleftrightarrow> (\<forall>s n. f s = Some n \<longrightarrow> (\<exists>nd. nodeAt T n = Some nd \<and> nodeState nd = Some s \<and> isLeaf nd))"

definition ptreeOK :: "'s PTree \<Rightarrow> bool" where
  "ptreeOK T \<longleftrightarrow> linked T \<and> statesAtLeaves (ptreeNode T) T \<and>
     (ptreeNode T \<noteq> Map.empty \<longrightarrow> (\<forall>n nd. nodeAt T n = Some nd \<longrightarrow> nodeFine (ptreeNode T) n nd))"

lemma nodeAt_setNode [simp]:
  "nodeAt (setNode n x T) m = (if m = n \<and> n < length (nodes T) then x else nodeAt T m)"
  by (auto simp: nodeAt_def setNode_def)

lemma setNode_fields [simp]:
  "root (setNode n x T) = root T" "ptreeNode (setNode n x T) = ptreeNode T" "length (nodes (setNode n x T)) = length (nodes T)"
  by (simp_all add: setNode_def)

lemma nodeAt_new [simp]:
  "nodeAt (PTreeNode_new p s T) m =
     (if m = length (nodes T) then Some \<lparr>parent = p, left = None, right = None, nodeState = Some s\<rparr> else nodeAt T m)"
  by (auto simp: nodeAt_def PTreeNode_new_def nth_append)

lemma new_fields [simp]:
  "root (PTreeNode_new p s T) = root T" "ptreeNode (PTreeNode_new p s T) = (ptreeNode T)(s \<mapsto> length (nodes T))"
  "length (nodes (PTreeNode_new p s T)) = Suc (length (nodes T))"
  by (simp_all add: PTreeNode_new_def)

lemma nodeAt_ptreeNode [simp]: "nodeAt (T\<lparr>ptreeNode := f\<rparr>) = nodeAt T"
  by (simp add: nodeAt_def fun_eq_iff)

lemma nodeAt_less: "nodeAt T n = Some nd \<Longrightarrow> n < length (nodes T)"
  by (simp add: nodeAt_def split: if_splits)

lemma linkedD:
  assumes "linked T"
  shows "\<exists>rd. nodeAt T (root T) = Some rd \<and> parent rd = None"
    and "nodeAt T n = Some nd \<Longrightarrow> kid nd c \<Longrightarrow> n < c" 
    and "nodeAt T n = Some nd \<Longrightarrow> kid nd c \<Longrightarrow> \<exists>cd. nodeAt T c = Some cd \<and> parent cd = Some n"
    and "nodeAt T n = Some nd \<Longrightarrow> left nd = right nd \<Longrightarrow> left nd = None"
    and "nodeAt T n = Some nd \<Longrightarrow> parent nd = None \<Longrightarrow> n = root T"
    and "nodeAt T n = Some nd \<Longrightarrow> parent nd = Some p \<Longrightarrow> \<exists>pd. nodeAt T p = Some pd \<and> kid pd n"
  using assms unfolding linked_def by blast+

lemma linkedI:
  assumes "\<exists>rd. nodeAt T (root T) = Some rd \<and> parent rd = None"
    and "\<And>n nd c. nodeAt T n = Some nd \<Longrightarrow> kid nd c \<Longrightarrow> n < c \<and> (\<exists>cd. nodeAt T c = Some cd \<and> parent cd = Some n)"
    and "\<And>n nd. nodeAt T n = Some nd \<Longrightarrow> left nd = right nd \<Longrightarrow> left nd = None"
    and "\<And>n nd. nodeAt T n = Some nd \<Longrightarrow> parent nd = None \<Longrightarrow> n = root T"
    and "\<And>n nd p. nodeAt T n = Some nd \<Longrightarrow> parent nd = Some p \<Longrightarrow> \<exists>pd. nodeAt T p = Some pd \<and> kid pd n"
  shows "linked T"
  using assms unfolding linked_def by blast

lemma linked_ptreeNode [simp]: "linked (T\<lparr>ptreeNode := f\<rparr>) = linked T"
  by (simp add: linked_def)

lemma PTree_new_ok: "ptreeOK (PTree_new s)"
  by (auto simp: ptreeOK_def PTree_new_def linked_def statesAtLeaves_def nodeFine_def isLeaf_def nodeAt_def PTreeNode_new_def)

section \<open>Attaching\<close>

lemma linked_attach:
  assumes "linked T" "nodeAt T n = Some nd" "isLeaf nd" "attach n s s' T = Ok T'"
  shows "linked T'"
proof -
  let ?l = "length (nodes T)"
  note n = nodeAt_less [OF assms(2)]
  have T': "T' = PTreeNode_new (Some n) s' (PTreeNode_new (Some n) s
      (setNode n (Some (nd\<lparr>nodeState := None, left := Some ?l, right := Some (Suc ?l)\<rparr>)) T))"
    using assms(2-4) by (simp add: attach_def Let_def)
  have at: "nodeAt T' m =
     (if m = Suc ?l then Some \<lparr>parent = Some n, left = None, right = None, nodeState = Some s'\<rparr>
      else if m = ?l then Some \<lparr>parent = Some n, left = None, right = None, nodeState = Some s\<rparr>
      else if m = n then Some (nd\<lparr>nodeState := None, left := Some ?l, right := Some (Suc ?l)\<rparr>) else nodeAt T m)" for m
    using n by (simp add: T')
  have r: "root T' = root T" by (simp add: T')
  show ?thesis
  proof (rule linkedI)
    show "\<exists>rd. nodeAt T' (root T') = Some rd \<and> parent rd = None"
      using linkedD(1) [OF assms(1)] assms(2) by (auto simp: at r dest: nodeAt_less)
  next
    fix m md c assume m: "nodeAt T' m = Some md" "kid md c"
    show "m < c \<and> (\<exists>cd. nodeAt T' c = Some cd \<and> parent cd = Some m)"
    proof (cases "m = n")
      case True
      with m n have "c = ?l \<or> c = Suc ?l" by (auto simp: at split: if_splits)
      with True n show ?thesis by (auto simp: at)
    next
      case False
      with m have old: "nodeAt T m = Some md" by (auto simp: at split: if_splits)
      obtain cd where cd: "nodeAt T c = Some cd" "parent cd = Some m" using linkedD(3) [OF assms(1) old m(2)] by blast
      show ?thesis using linkedD(2) [OF assms(1) old m(2)] cd nodeAt_less [OF cd(1)] assms(2) by (auto simp: at)
    qed
  next
    fix m md assume "nodeAt T' m = Some md" "left md = right md"
    then show "left md = None" using linkedD(4) [OF assms(1), of m md] by (auto simp: at split: if_splits)
  next
    fix m md assume "nodeAt T' m = Some md" "parent md = None"
    then show "m = root T'" using linkedD(5) [OF assms(1), of m] assms(2) by (auto simp: at r split: if_splits)
  next
    fix m md p assume m: "nodeAt T' m = Some md" "parent md = Some p"
    show "\<exists>pd. nodeAt T' p = Some pd \<and> kid pd m"
    proof (cases "m = ?l \<or> m = Suc ?l")
      case True
      with m n show ?thesis by (auto simp: at split: if_splits)
    next
      case False
      with m assms(2) obtain md' where old: "nodeAt T m = Some md'" "parent md' = Some p" by (auto simp: at split: if_splits)
      obtain pd where pd: "nodeAt T p = Some pd" "kid pd m" using linkedD(6) [OF assms(1) old] by blast
      then have "p \<noteq> n" using assms(2,3) by (auto simp: isLeaf_def)
      with pd nodeAt_less [OF pd(1)] show ?thesis by (simp add: at)
    qed
  qed
qed

text \<open>
  A fork: the field of the new state \<open>ns\<close>, which is a copy of \<open>es\<close>, is not read before it is set.
\<close>

lemma attach_ok:
  assumes "ptreeOK (T\<lparr>ptreeNode := (ptreeNode T)(ns := None)\<rparr>)" "ptreeNode T es = Some n" "ns \<noteq> es"
  shows "\<exists>T'. attach n ns es T = Ok T' \<and> ptreeOK T' \<and> dom (ptreeNode T') = insert ns (dom (ptreeNode T))"
proof -
  let ?l = "length (nodes T)" and ?f = "(ptreeNode T)(ns := None)"
  have ok: "linked T" "statesAtLeaves ?f T" "\<forall>m md. nodeAt T m = Some md \<longrightarrow> nodeFine ?f m md"
  proof -
    have "?f \<noteq> Map.empty" using assms(2,3) by (metis fun_upd_other option.distinct(1))
    then show "\<forall>m md. nodeAt T m = Some md \<longrightarrow> nodeFine ?f m md" using assms(1) by (simp add: ptreeOK_def)
  qed (use assms(1) in \<open>simp_all add: ptreeOK_def statesAtLeaves_def\<close>)
  have "?f es = Some n" using assms(2,3) by simp
  then obtain nd where nd: "nodeAt T n = Some nd" "nodeState nd = Some es" "isLeaf nd"
    using ok(2) unfolding statesAtLeaves_def by blast
  define T' where "T' = PTreeNode_new (Some n) es (PTreeNode_new (Some n) ns
      (setNode n (Some (nd\<lparr>nodeState := None, left := Some ?l, right := Some (Suc ?l)\<rparr>)) T))"
  have run: "attach n ns es T = Ok T'" using nd by (simp add: attach_def T'_def Let_def)
  note less = nodeAt_less [OF nd(1)]
  have at: "nodeAt T' m =
     (if m = Suc ?l then Some \<lparr>parent = Some n, left = None, right = None, nodeState = Some es\<rparr>
      else if m = ?l then Some \<lparr>parent = Some n, left = None, right = None, nodeState = Some ns\<rparr>
      else if m = n then Some (nd\<lparr>nodeState := None, left := Some ?l, right := Some (Suc ?l)\<rparr>) else nodeAt T m)" for m
    using less by (simp add: T'_def)
  have f: "ptreeNode T' = (ptreeNode T)(ns \<mapsto> ?l, es \<mapsto> Suc ?l)" by (simp add: T'_def)
  have "statesAtLeaves (ptreeNode T') T'"
    unfolding statesAtLeaves_def
  proof (intro allI impI)
    fix s m assume sm: "ptreeNode T' s = Some m"
    show "\<exists>md. nodeAt T' m = Some md \<and> nodeState md = Some s \<and> isLeaf md"
    proof (cases "s = es \<or> s = ns")
      case True
      with sm assms(3) show ?thesis by (auto simp: f at isLeaf_def)
    next
      case False
      with sm have "?f s = Some m" by (simp add: f)
      then obtain md where md: "nodeAt T m = Some md" "nodeState md = Some s" "isLeaf md"
        using ok(2) unfolding statesAtLeaves_def by blast
      with False nd nodeAt_less [OF md(1)] show ?thesis by (auto simp: at)
    qed
  qed
  moreover have "nodeFine (ptreeNode T') m md" if m: "nodeAt T' m = Some md" for m md
  proof (cases "m < ?l \<and> m \<noteq> n")
    case True
    with m have "nodeAt T m = Some md" by (simp add: at)
    with ok(3) have fine: "nodeFine ?f m md" by blast
    then show ?thesis using True \<open>?f es = Some n\<close> by (auto simp: nodeFine_def f split: option.splits if_splits)
  next
    case False
    have "m < Suc (Suc ?l)" using m nodeAt_less [OF m] by (simp add: T'_def)
    with False m assms(3) less show ?thesis by (auto simp: at nodeFine_def f isLeaf_def split: if_splits)
  qed
  moreover have "linked T'" using linked_attach [OF ok(1) nd(1,3) run] .
  moreover have "dom (ptreeNode T') = insert ns (dom (ptreeNode T))" using assms(2) by (auto simp: f)
  ultimately show ?thesis using run by (auto simp: ptreeOK_def)
qed

section \<open>Removing\<close>

text \<open>
  While \<open>remove\<close> climbs, the node it stands on is a leaf without a living state; all the other nodes are
  fine.
\<close>

definition fineBut :: "('s \<rightharpoonup> nat) \<Rightarrow> nat \<Rightarrow> 's PTree \<Rightarrow> bool" where
  "fineBut f n T \<longleftrightarrow> linked T \<and> (\<exists>nd. nodeAt T n = Some nd \<and> isLeaf nd) \<and> (\<forall>s. f s \<noteq> Some n) \<and> statesAtLeaves f T \<and>
     (\<forall>m md. m \<noteq> n \<and> nodeAt T m = Some md \<longrightarrow> nodeFine f m md)"

lemma unlink_at:
  assumes "linked T" "nodeAt T n = Some nd" "isLeaf nd" "parent nd = Some p"
  shows "\<exists>T' pd pd'. unlink n p T = Ok T' \<and> nodeAt T p = Some pd \<and> p < n \<and> ptreeNode T' = ptreeNode T \<and> root T' = root T \<and>
    (\<forall>m. nodeAt T' m = (if m = n then None else if m = p then Some pd' else nodeAt T m)) \<and>
    parent pd' = parent pd \<and> nodeState pd' = nodeState pd \<and> (\<forall>c. kid pd' c \<longleftrightarrow> kid pd c \<and> c \<noteq> n) \<and>
    (left pd' = right pd' \<longrightarrow> left pd' = None) \<and> nodes T' = (nodes T)[p := Some pd', n := None]"
proof -
  obtain pd where pd: "nodeAt T p = Some pd" "kid pd n" using linkedD(6) [OF assms(1,2,4)] by blast
  have distinct: "left pd = right pd \<Longrightarrow> left pd = None" using linkedD(4) [OF assms(1) pd(1)] .
  have less: "p < n" using linkedD(2) [OF assms(1) pd] .
  define pd' where "pd' = (if left pd = Some n then pd\<lparr>left := None\<rparr> else pd\<lparr>right := None\<rparr>)"
  have "unlink n p T = Ok (setNode n None (setNode p (Some pd') T))" using pd by (auto simp: unlink_def pd'_def)
  moreover have "\<forall>c. kid pd' c \<longleftrightarrow> kid pd c \<and> c \<noteq> n" using pd distinct by (auto simp: pd'_def)
  moreover have "parent pd' = parent pd" "nodeState pd' = nodeState pd" "left pd' = right pd' \<longrightarrow> left pd' = None"
    using distinct by (auto simp: pd'_def)
  moreover have "\<forall>m. nodeAt (setNode n None (setNode p (Some pd') T)) m = (if m = n then None else if m = p then Some pd' else nodeAt T m)"
    using nodeAt_less [OF assms(2)] less by simp
  ultimately show ?thesis using pd(1) less by (auto simp: setNode_def)
qed

lemma linked_unlink:
  assumes "linked T" "nodeAt T n = Some nd" "isLeaf nd" "parent nd = Some p" "unlink n p T = Ok T'"
  shows "linked T'"
proof -
  obtain pd pd' where u: "nodeAt T p = Some pd" "p < n" "root T' = root T"
      "\<And>m. nodeAt T' m = (if m = n then None else if m = p then Some pd' else nodeAt T m)"
      "parent pd' = parent pd" "\<And>c. kid pd' c \<longleftrightarrow> kid pd c \<and> c \<noteq> n" "left pd' = right pd' \<longrightarrow> left pd' = None"
    using unlink_at [OF assms(1-4)] assms(5) by auto
  have old: "\<exists>md'. nodeAt T m = Some md' \<and> parent md' = parent md \<and> (\<forall>c. kid md c \<longrightarrow> kid md' c \<and> c \<noteq> n) \<and> m \<noteq> n" if "nodeAt T' m = Some md" for m md
  proof (cases "m = p")
    case True
    with that u show ?thesis by (auto split: if_splits)
  next
    case False
    with that have m: "nodeAt T m = Some md" "m \<noteq> n" by (auto simp: u(4) split: if_splits)
    have "c \<noteq> n" if "kid md c" for c
      using linkedD(3) [OF assms(1) m(1) that] False assms(2,4) by auto
    with m show ?thesis by blast
  qed
  show ?thesis
  proof (rule linkedI)
    obtain rd where rd: "nodeAt T (root T) = Some rd" "parent rd = None" using linkedD(1) [OF assms(1)] by blast
    then have "root T \<noteq> n" using assms(2,4) by auto
    then show "\<exists>rd. nodeAt T' (root T') = Some rd \<and> parent rd = None" using rd u by (cases "root T = p") (auto simp: u(4))
  next
    fix m md c assume m: "nodeAt T' m = Some md" "kid md c"
    then obtain md' where o: "nodeAt T m = Some md'" "kid md' c" "c \<noteq> n" using old by blast
    obtain cd where cd: "nodeAt T c = Some cd" "parent cd = Some m" using linkedD(3) [OF assms(1) o(1,2)] by blast
    have "\<exists>cd. nodeAt T' c = Some cd \<and> parent cd = Some m" using cd o(3) u by (cases "c = p") auto
    with linkedD(2) [OF assms(1) o(1,2)] show "m < c \<and> (\<exists>cd. nodeAt T' c = Some cd \<and> parent cd = Some m)" by blast
  next
    fix m md assume m: "nodeAt T' m = Some md" "left md = right md"
    then show "left md = None" using u(7) linkedD(4) [OF assms(1), of m md] by (auto simp: u(4) split: if_splits)
  next
    fix m md assume m: "nodeAt T' m = Some md" "parent md = None"
    with old [OF m(1)] linkedD(5) [OF assms(1), of m] show "m = root T'" by (auto simp: u(3))
  next
    fix m md q assume m: "nodeAt T' m = Some md" "parent md = Some q"
    then obtain md' where o: "nodeAt T m = Some md'" "parent md' = Some q" "m \<noteq> n" using old by metis
    obtain qd where qd: "nodeAt T q = Some qd" "kid qd m" using linkedD(6) [OF assms(1) o(1,2)] by blast
    then have "q \<noteq> n" using assms(2,3) by (auto simp: isLeaf_def)
    with qd o(3) u show "\<exists>pd. nodeAt T' q = Some pd \<and> kid pd m" by (cases "q = p") auto
  qed
qed

lemma fineBut_unlink:
  assumes "fineBut f n T" "nodeAt T n = Some nd" "parent nd = Some p" "unlink n p T = Ok T'" "nodeAt T' p = Some pd'"
  shows "if isLeaf pd' then fineBut f p T' else linked T' \<and> statesAtLeaves f T' \<and> (\<forall>m md. nodeAt T' m = Some md \<longrightarrow> nodeFine f m md)"
proof -
  have F: "linked T" "isLeaf nd" "\<forall>s. f s \<noteq> Some n" "statesAtLeaves f T" "\<And>m md. m \<noteq> n \<Longrightarrow> nodeAt T m = Some md \<Longrightarrow> nodeFine f m md"
    using assms(1,2) by (auto simp: fineBut_def)
  obtain pd where u: "nodeAt T p = Some pd" "p < n" 
      "\<And>m. nodeAt T' m = (if m = n then None else if m = p then Some pd' else nodeAt T m)"
      "nodeState pd' = nodeState pd" "\<And>c. kid pd' c \<longleftrightarrow> kid pd c \<and> c \<noteq> n"
    using unlink_at [OF F(1) assms(2) F(2) assms(3)] assms(4,5) by auto
  have lk: "linked T'" using linked_unlink [OF F(1) assms(2) F(2) assms(3,4)] .
  have "\<not> isLeaf pd" using linkedD(6) [OF F(1) assms(2,3)] u(1) by (auto simp: isLeaf_def)
  then have inner: "nodeState pd = None" using F(5) [OF _ u(1)] u(2) by (auto simp: nodeFine_def split: option.splits)
  have notp: "f s \<noteq> Some p" for s using F(4) u(1) inner by (fastforce simp: statesAtLeaves_def)
  have leaves: "statesAtLeaves f T'"
    unfolding statesAtLeaves_def
  proof (intro allI impI)
    fix s m assume m: "f s = Some m"
    then obtain md where "nodeAt T m = Some md \<and> nodeState md = Some s \<and> isLeaf md" using F(4) unfolding statesAtLeaves_def by blast
    moreover have "m \<noteq> n" "m \<noteq> p" using m F(3) notp by auto
    ultimately show "\<exists>md. nodeAt T' m = Some md \<and> nodeState md = Some s \<and> isLeaf md" by (simp add: u(3))
  qed
  have fine: "nodeFine f m md" if "m \<noteq> p" "nodeAt T' m = Some md" for m md
    using that F(5) [of m md] by (simp add: u(3) split: if_splits)
  show ?thesis
  proof (cases "isLeaf pd'")
    case True
    with lk leaves fine notp assms(5) show ?thesis by (auto simp: fineBut_def)
  next
    case False
    then have "nodeFine f p pd'" using inner u(4) by (simp add: nodeFine_def)
    with lk leaves fine False assms(5) show ?thesis by (metis option.inject)
  qed
qed

text \<open>A root without children is the only node.\<close>

lemma lonely_root:
  assumes "linked T" "nodeAt T (root T) = Some rd" "isLeaf rd" "nodeAt T m = Some md"
  shows "m = root T"
proof (rule ccontr)
  assume no: "m \<noteq> root T"
  then obtain p where "parent md = Some p" using linkedD(5) [OF assms(1,4)] by auto
  with no assms(4) show False
  proof (induction m arbitrary: md p rule: less_induct)
    case (less m)
    obtain pd where pd: "nodeAt T p = Some pd" "kid pd m" using linkedD(6) [OF assms(1) less.prems(2,3)] by blast
    have "p < m" using linkedD(2) [OF assms(1) pd] .
    have "p \<noteq> root T" using pd assms(2,3) by (auto simp: isLeaf_def)
    then obtain q where "parent pd = Some q" using linkedD(5) [OF assms(1) pd(1)] by auto
    then show ?case using less.IH [OF \<open>p < m\<close> \<open>p \<noteq> root T\<close> pd(1)] by blast
  qed
qed

lemma removeLoop_ok:
  assumes "fineBut f n T"
  shows "\<exists>T'. removeLoop n T = Ok T' \<and> ptreeNode T' = ptreeNode T \<and> root T' = root T \<and> ptreeOK (T'\<lparr>ptreeNode := f\<rparr>)"
  using assms
proof (induction n T rule: removeLoop.induct)
  case (1 n T)
  obtain nd where nd: "nodeAt T n = Some nd" "isLeaf nd" using 1(2) by (auto simp: fineBut_def)
  have lk: "linked T" "statesAtLeaves f T" "\<forall>s. f s \<noteq> Some n" using 1(2) by (simp_all add: fineBut_def)
  show ?case
  proof (cases "parent nd")
    case None
    then have "n = root T" using linkedD(5) [OF lk(1) nd(1)] by simp
    then have "f s = None" for s using lonely_root [OF lk(1) _ nd(2)] nd(1) lk(2,3) unfolding statesAtLeaves_def
      by (metis option.exhaust)
    then have "f = Map.empty" by auto
    then have "ptreeOK (T\<lparr>ptreeNode := f\<rparr>)" using lk by (simp add: ptreeOK_def statesAtLeaves_def)
    moreover have "removeLoop n T = Ok T" using nd None by (subst removeLoop.simps) simp
    ultimately show ?thesis by blast
  next
    case (Some p)
    obtain T' pd' where u: "unlink n p T = Ok T'" "ptreeNode T' = ptreeNode T" "root T' = root T" "nodeAt T' p = Some pd'"
      using unlink_at [OF lk(1) nd Some] by (auto split: if_splits)
    have step: "removeLoop n T = removeLoop p T'" using nd Some u(1) by (subst removeLoop.simps) simp
    note fb = fineBut_unlink [OF 1(2) nd(1) Some u(1,4)]
    show ?thesis
    proof (cases "isLeaf pd'")
      case True
      have "\<exists>T''. removeLoop p T' = Ok T'' \<and> ptreeNode T'' = ptreeNode T' \<and> root T'' = root T' \<and> ptreeOK (T''\<lparr>ptreeNode := f\<rparr>)"
        using 1(1) [OF nd(1) _ Some u(1)] nd(2) fb True by simp
      with step u(2,3) show ?thesis by simp
    next
      case False
      then have "removeLoop p T' = Ok T'" using u(4) by (subst removeLoop.simps) simp
      moreover have "ptreeOK (T'\<lparr>ptreeNode := f\<rparr>)" using fb False by (simp add: ptreeOK_def statesAtLeaves_def)
      ultimately show ?thesis using step u(2,3) by simp
    qed
  qed
qed

text \<open>The end of a state: its leaf is removed, then the state is deleted.\<close>

lemma remove_ok:
  assumes "ptreeOK T" "ptreeNode T s = Some n"
  shows "\<exists>T'. remove n T = Ok T' \<and> ptreeNode T' = ptreeNode T \<and> root T' = root T \<and> ptreeOK (T'\<lparr>ptreeNode := (ptreeNode T)(s := None)\<rparr>)"
proof -
  let ?f = "(ptreeNode T)(s := None)"
  have ok: "linked T" "statesAtLeaves (ptreeNode T) T" "\<forall>m md. nodeAt T m = Some md \<longrightarrow> nodeFine (ptreeNode T) m md"
    using assms by (auto simp: ptreeOK_def)
  obtain nd where nd: "nodeAt T n = Some nd" "nodeState nd = Some s" "isLeaf nd"
    using ok(2) assms(2) unfolding statesAtLeaves_def by blast
  have "fineBut ?f n T"
    unfolding fineBut_def
  proof (intro conjI allI impI)
    show "?f s' \<noteq> Some n" for s' using ok(2) nd by (cases "s' = s") (auto simp: statesAtLeaves_def, fastforce)
    show "statesAtLeaves ?f T" using ok(2) by (auto simp: statesAtLeaves_def)
    fix m md assume m: "m \<noteq> n \<and> nodeAt T m = Some md"
    with ok(3) have fine: "nodeFine (ptreeNode T) m md" by blast
    show "nodeFine ?f m md" using fine m assms(2) by (auto simp: nodeFine_def split: option.splits)
  qed (use ok nd in auto)
  from removeLoop_ok [OF this] nd show ?thesis by (simp add: remove_def)
qed

section \<open>The random walk\<close>

lemma walk_returns:
  assumes "ptreeOK T" "ptreeNode T \<noteq> Map.empty" "nodeAt T n = Some nd"
  shows "\<exists>s g'. walkTree getInt32 T (Some n) flips bits g = Some (Ok (s, g')) \<and> s \<in> dom (ptreeNode T)"
  using assms(3)
proof (induction "length (nodes T) - n" arbitrary: n nd flips bits g rule: less_induct)
  case less
  have fine: "nodeFine (ptreeNode T) n nd" using assms less.prems by (auto simp: ptreeOK_def)
  have linked: "linked T" using assms(1) by (simp add: ptreeOK_def)
  show ?case
  proof (cases "nodeState nd")
    case (Some s)
    with fine less.prems show ?thesis by (subst walkTree.simps) (auto simp: nodeFine_def)
  next
    case None
    have go: "\<exists>s g'. walkTree getInt32 T (Some c) fl b g = Some (Ok (s, g')) \<and> s \<in> dom (ptreeNode T)" if c: "kid nd c" for c fl b g
    proof -
      obtain cd where cd: "nodeAt T c = Some cd" using linkedD(3) [OF linked less.prems c] by blast
      have "length (nodes T) - c < length (nodes T) - n"
        using linkedD(2) [OF linked less.prems c] nodeAt_less [OF cd] by simp
      from less.hyps [OF this cd] show ?thesis .
    qed
    have inner: "left nd \<noteq> None \<or> right nd \<noteq> None" using fine None by (simp add: nodeFine_def isLeaf_def)
    obtain f b g' where draw: "(if bits = 0 then (case getInt32 g of (f, g') \<Rightarrow> (f, 32, g')) else (flips, bits, g)) = (f, b, g')"
      by (metis prod_cases3)
    have step: "walkTree getInt32 T (Some n) flips bits g =
        (if left nd = None then walkTree getInt32 T (right nd) flips bits g
         else if right nd = None then walkTree getInt32 T (left nd) flips bits g
         else walkTree getInt32 T (if bit f (b - 1) then left nd else right nd) f (b - 1) g')"
      using less.prems None draw by (subst walkTree.simps) simp
    show ?thesis
    proof (cases "left nd")
      case l: None
      with inner obtain c where "right nd = Some c" by auto
      with step l go [of c] show ?thesis by simp
    next
      case l: (Some c)
      show ?thesis
      proof (cases "right nd")
        case r: None
        with step l go [of c] show ?thesis by simp
      next
        case r: (Some d)
        with step l go [of c] go [of d] show ?thesis by simp
      qed
    qed
  qed
qed

text \<open>Draws that are given in advance, and the bits the walk takes from them.\<close>

definition givenDraws :: "(nat \<Rightarrow> 32 word) \<Rightarrow> 32 word \<times> (nat \<Rightarrow> 32 word)" where
  "givenDraws g = (g 0, \<lambda>i. g (Suc i))"

definition drawnBit :: "32 word \<Rightarrow> nat \<Rightarrow> (nat \<Rightarrow> 32 word) \<Rightarrow> nat \<Rightarrow> bool" where
  "drawnBit flips bits g k = (if k < bits then bit flips (bits - 1 - k) else bit (g ((k - bits) div 32)) (31 - (k - bits) mod 32))"

lemma drawnBit_next: "0 < bits \<Longrightarrow> drawnBit flips (bits - 1) g k = drawnBit flips bits g (Suc k)"
  by (auto simp: drawnBit_def)

lemma drawnBit_draw: "drawnBit (g 0) 31 (\<lambda>i. g (Suc i)) k = drawnBit flips 0 g (Suc k)"
proof (cases "k < 31")
  case False
  then obtain j where k: "k = j + 31" by (metis le_add_diff_inverse2 not_less)
  have "Suc k = j + 32" using k by simp
  then have "Suc k div 32 = Suc (j div 32)" "Suc k mod 32 = j mod 32" by (simp_all add: div_add_self2)
  with k show ?thesis by (simp add: drawnBit_def)
qed (simp add: drawnBit_def)

lemma draws_exist: "\<exists>g. \<forall>k. drawnBit 0 0 g k = \<beta> k"
proof -
  define g :: "nat \<Rightarrow> 32 word" where "g i = horner_sum of_bool 2 (map (\<lambda>j. \<beta> (32 * i + (31 - j))) [0..<32])" for i
  have "bit (g (k div 32)) (31 - k mod 32) = \<beta> k" for k
  proof -
    have "31 - (31 - k mod 32) = k mod 32" by (simp add: Suc_leI le_diff_iff' less_Suc_eq_le)
    moreover have "31 - k mod 32 < 32" by (rule le_less_trans [OF diff_le_self]) simp
    ultimately show ?thesis by (simp add: g_def bit_horner_sum_bit_word_iff)
  qed
  then show ?thesis by (intro exI [of _ g]) (simp add: drawnBit_def)
qed

lemma walk_reaches:
  assumes "linked T" "nodeAt T m = Some md" "nodeState md = Some s"
    and "\<And>n nd. nodeAt T n = Some nd \<Longrightarrow> \<not> isLeaf nd \<Longrightarrow> nodeState nd = None"
  shows "\<exists>\<beta>. \<forall>flips bits g. (\<forall>k. drawnBit flips bits g k = \<beta> k) \<longrightarrow>
    (\<exists>g'. walkTree givenDraws T (Some (root T)) flips bits g = Some (Ok (s, g')))"
proof -
  define reach where "reach n \<longleftrightarrow> (\<exists>\<beta>. \<forall>flips bits g. (\<forall>k. drawnBit flips bits g k = \<beta> k) \<longrightarrow>
    (\<exists>g'. walkTree givenDraws T (Some n) flips bits g = Some (Ok (s, g'))))" for n
  have "walkTree givenDraws T (Some m) flips bits g = Some (Ok (s, g))" for flips bits g
    using assms(2,3) by (subst walkTree.simps) simp
  then have "reach m" by (simp add: reach_def)
  moreover have up: "reach p" if "reach c" "nodeAt T p = Some pd" "kid pd c" for p pd c
  proof -
    from that(1) [unfolded reach_def]
    obtain \<beta> where "\<forall>flips bits g. (\<forall>k. drawnBit flips bits g k = \<beta> k) \<longrightarrow> (\<exists>g'. walkTree givenDraws T (Some c) flips bits g = Some (Ok (s, g')))"
      by (rule exE)
    then have \<beta>: "(\<forall>k. drawnBit flips bits g k = \<beta> k) \<Longrightarrow> \<exists>g'. walkTree givenDraws T (Some c) flips bits g = Some (Ok (s, g'))" for flips bits g
      by simp
    have inner: "nodeState pd = None" using assms(4) [OF that(2)] that(3) by (auto simp: isLeaf_def)
    show ?thesis
    proof (cases "left pd = None \<or> right pd = None")
      case True
      then have "walkTree givenDraws T (Some p) flips bits g = walkTree givenDraws T (Some c) flips bits g" for flips bits g
        using that(2,3) inner by (auto simp: walkTree.simps [of _ _ "Some p"])
      then show ?thesis using \<beta> unfolding reach_def by (intro exI [of _ \<beta>]) simp
    next
      case False
      let ?\<gamma> = "\<lambda>k. case k of 0 \<Rightarrow> left pd = Some c | Suc k \<Rightarrow> \<beta> k"
      have "\<exists>g'. walkTree givenDraws T (Some p) flips bits g = Some (Ok (s, g'))" if d: "\<forall>k. drawnBit flips bits g k = ?\<gamma> k" for flips bits g
      proof -
        obtain f b h where fbh: "(f, b, h) = (if bits = 0 then (g 0, 32, \<lambda>i. g (Suc i)) else (flips, bits, g))" by (metis prod_cases3)
        have rest: "drawnBit f (b - 1) h k = \<beta> k" for k
        proof -
          have "drawnBit f (b - 1) h k = drawnBit flips bits g (Suc k)"
            using fbh drawnBit_draw [of g k flips] drawnBit_next [of bits flips g k] by (cases "bits = 0") simp_all
          then show ?thesis using d by simp
        qed
        have first: "bit f (b - 1) \<longleftrightarrow> left pd = Some c"
          using spec [OF d, of 0] fbh by (cases "bits = 0") (auto simp: drawnBit_def)
        have "walkTree givenDraws T (Some p) flips bits g = walkTree givenDraws T (if bit f (b - 1) then left pd else right pd) f (b - 1) h"
          using inner False fbh \<open>nodeAt T p = Some pd\<close> by (cases "bits = 0") (auto simp: walkTree.simps [of _ _ "Some p"] givenDraws_def)
        also have "(if bit f (b - 1) then left pd else right pd) = Some c" using first \<open>kid pd c\<close> by auto
        finally show ?thesis using \<beta> [of f "b - 1" h] rest by simp
      qed
      then show ?thesis unfolding reach_def by (intro exI [of _ ?\<gamma>] allI impI)
    qed
  qed
  moreover have "reach n \<Longrightarrow> nodeAt T n = Some nd \<Longrightarrow> reach (root T)" for n nd
  proof (induction n arbitrary: nd rule: less_induct)
    case (less n)
    show ?case
    proof (cases "parent nd")
      case None
      then show ?thesis using linkedD(5) [OF assms(1) less.prems(2)] less.prems(1) by simp
    next
      case (Some p)
      then obtain pd where pd: "nodeAt T p = Some pd" "kid pd n" using linkedD(6) [OF assms(1) less.prems(2)] by blast
      from less.IH [OF linkedD(2) [OF assms(1) pd] up [OF less.prems(1) pd] pd(1)] show ?thesis .
    qed
  qed
  ultimately have "reach (root T)" using assms(2) by blast
  then show ?thesis by (simp add: reach_def)
qed

section \<open>The trees of an exploration\<close>

text \<open>
  The steps of the executor: a fork copies a state, its node included, and attaches the two states; a
  state that ends is removed and deleted.
\<close>

inductive explored :: "'s PTree \<Rightarrow> bool" where
  start: "explored (PTree_new s)"
| fork: "explored T \<Longrightarrow> ptreeNode T es = Some n \<Longrightarrow> ptreeNode T ns = None \<Longrightarrow>
    attach n ns es (T\<lparr>ptreeNode := (ptreeNode T)(ns \<mapsto> n)\<rparr>) = Ok T' \<Longrightarrow> explored T'"
| finish: "explored T \<Longrightarrow> ptreeNode T s = Some n \<Longrightarrow> remove n T = Ok T' \<Longrightarrow>
    explored (T'\<lparr>ptreeNode := (ptreeNode T')(s := None)\<rparr>)"

lemma fork_ok:
  assumes "ptreeOK T" "ptreeNode T es = Some n" "ptreeNode T ns = None"
  shows "\<exists>T'. attach n ns es (T\<lparr>ptreeNode := (ptreeNode T)(ns \<mapsto> n)\<rparr>) = Ok T' \<and> ptreeOK T' \<and>
    dom (ptreeNode T') = insert ns (dom (ptreeNode T))"
proof -
  have ne: "ns \<noteq> es" using assms(2,3) by auto
  have "(ptreeNode T)(ns := None) = ptreeNode T" using assms(3) by auto
  then have "ptreeOK (T\<lparr>ptreeNode := (ptreeNode T)(ns := None)\<rparr>)" using assms(1) by simp
  with attach_ok [of "T\<lparr>ptreeNode := (ptreeNode T)(ns \<mapsto> n)\<rparr>" ns es n] assms(2) ne show ?thesis by auto
qed

lemma explored_ok: "explored T \<Longrightarrow> ptreeOK T"
proof (induction rule: explored.induct)
  case (fork T es n ns T')
  then show ?case using fork_ok [of T es n ns] by auto
next
  case (finish T s n T')
  then show ?case using remove_ok [of T s n] by auto
qed (rule PTree_new_ok)

text \<open>
  C37: the random path searcher. In every process tree that an exploration can reach and that has a
  state left, the selection ends whatever the random number generator draws and returns a state that
  is alive; and it starves none: for every state that is alive there are draws that select it.
\<close>

theorem randomPath_live:
  assumes "explored T" "ptreeNode T \<noteq> Map.empty"
  shows "(\<forall>getInt32 g. \<exists>s g'. RandomPathSearcher_selectState getInt32 T g = Some (Ok (s, g')) \<and> s \<in> dom (ptreeNode T)) \<and>
    (\<forall>s \<in> dom (ptreeNode T). \<exists>draws g'. RandomPathSearcher_selectState givenDraws T draws = Some (Ok (s, g')))"
proof -
  note ok = explored_ok [OF assms(1)]
  then have linked: "linked T" by (simp add: ptreeOK_def)
  obtain rd where rd: "nodeAt T (root T) = Some rd" using linkedD(1) [OF linked] by blast
  have "\<exists>draws g'. RandomPathSearcher_selectState givenDraws T draws = Some (Ok (s, g'))" if s: "ptreeNode T s = Some m" for s m
  proof -
    obtain md where md: "nodeAt T m = Some md" "nodeState md = Some s"
      using ok s unfolding ptreeOK_def statesAtLeaves_def by blast
    have inner: "nodeState nd = None" if "nodeAt T n = Some nd" "\<not> isLeaf nd" for n nd
      using ok assms(2) that by (auto simp: ptreeOK_def nodeFine_def split: option.splits)
    from walk_reaches [OF linked md inner]
    obtain \<beta> where \<beta>: "\<forall>flips bits g. (\<forall>k. drawnBit flips bits g k = \<beta> k) \<longrightarrow>
        (\<exists>g'. walkTree givenDraws T (Some (root T)) flips bits g = Some (Ok (s, g')))" by (rule exE)
    obtain g where "\<forall>k. drawnBit 0 0 g k = \<beta> k" using draws_exist by blast
    with \<beta> show ?thesis unfolding RandomPathSearcher_selectState_def by blast
  qed
  then show ?thesis
    by (intro conjI allI ballI) (unfold RandomPathSearcher_selectState_def, rule walk_returns [OF ok assms(2) rd], blast)
qed

text \<open>State 0 forks to 1 and 2, and 1 ends.\<close>

definition exampleTree :: "nat PTree" where
  "exampleTree =
     \<lparr>root = 0,
      nodes = [Some \<lparr>parent = None, left = Some 1, right = Some 2, nodeState = None\<rparr>,
               Some \<lparr>parent = Some 0, left = None, right = None, nodeState = Some 1\<rparr>,
               Some \<lparr>parent = Some 0, left = None, right = None, nodeState = Some 0\<rparr>],
      ptreeNode = [0 \<mapsto> 2, 1 \<mapsto> 1]\<rparr>"

lemma exampleTree_explored: "explored exampleTree"
proof -
  have "attach 0 1 0 ((PTree_new 0)\<lparr>ptreeNode := (ptreeNode (PTree_new (0 :: nat)))(1 \<mapsto> 0)\<rparr>) = Ok exampleTree"
    by (auto simp: attach_def PTree_new_def PTreeNode_new_def nodeAt_def isLeaf_def setNode_def exampleTree_def fun_eq_iff)
  from explored.fork [OF explored.start _ _ this] show ?thesis by (simp add: PTree_new_def)
qed

theorem randomPath_live_witness:
  "\<exists>draws g'. RandomPathSearcher_selectState givenDraws exampleTree draws = Some (Ok (1, g'))"
  using randomPath_live [OF exampleTree_explored] by (auto simp: exampleTree_def)

end
