(* ===== verification/Searchers.thy ===== *)
theory Searchers
  imports PTree
begin

text \<open>
  The search strategies (\<open>lib/Core/Searcher.h\<close>, \<open>lib/Core/Searcher.cpp\<close>): which of the states under
  exploration is executed next. A searcher is a record of its virtual methods over its own state
  \<open>'q\<close>; \<open>'s\<close> are the execution states, which a searcher only compares, and \<open>'w\<close> is the outside world a
  method may use: the random number generator, the clock and the counter of instructions. A failed
  assertion, and an access to an element of an empty vector, is \<open>Abort\<close>.
\<close>

section \<open>Definitions\<close>

record ('q, 's, 'w) Searcher =
  selectState :: "'q \<Rightarrow> 'w \<Rightarrow> ('s \<times> 'q \<times> 'w) result"
  update :: "'s option \<Rightarrow> 's list \<Rightarrow> 's list \<Rightarrow> 'q \<Rightarrow> 'w \<Rightarrow> ('q \<times> 'w) result"
  emptyS :: "'q \<Rightarrow> bool"

definition addState :: "('q, 's, 'w) Searcher \<Rightarrow> 's \<Rightarrow> 's option \<Rightarrow> 'q \<Rightarrow> 'w \<Rightarrow> ('q \<times> 'w) result" where
  "addState S es current = update S current [es] []"

definition removeState :: "('q, 's, 'w) Searcher \<Rightarrow> 's \<Rightarrow> 's option \<Rightarrow> 'q \<Rightarrow> 'w \<Rightarrow> ('q \<times> 'w) result" where
  "removeState S es current = update S current [] [es]"

text \<open>The loop over the removed states, and the search for a state to erase.\<close>

fun eraseStates :: "('s \<Rightarrow> 's list \<Rightarrow> 's list result) \<Rightarrow> 's list \<Rightarrow> 's list \<Rightarrow> 's list result" where
  "eraseStates erase [] states = Ok states"
| "eraseStates erase (es # removed) states = rbind (erase es states) (eraseStates erase removed)"

fun eraseFirst :: "'s \<Rightarrow> 's list \<Rightarrow> 's list result" where
  "eraseFirst es [] = Abort"
| "eraseFirst es (x # xs) = (if es = x then Ok xs else rbind (eraseFirst es xs) (\<lambda>ys. Ok (x # ys)))"

subsection \<open>Depth first, breadth first, random\<close>

definition DFS_erase :: "'s \<Rightarrow> 's list \<Rightarrow> 's list result" where
  "DFS_erase es states =
     (if states = [] then Abort else if es = last states then Ok (butlast states) else eraseFirst es states)"

definition DFSSearcher :: "('s list, 's, 'w) Searcher" where
  "DFSSearcher =
     \<lparr>selectState = (\<lambda>states w. if states = [] then Abort else Ok (last states, states, w)),
      update = (\<lambda>current added removed states w.
        rbind (eraseStates DFS_erase removed (states @ added)) (\<lambda>states'. Ok (states', w))),
      emptyS = (\<lambda>states. states = [])\<rparr>"

definition BFS_erase :: "'s \<Rightarrow> 's list \<Rightarrow> 's list result" where
  "BFS_erase es states =
     (if states = [] then Abort else if es = hd states then Ok (tl states) else eraseFirst es states)"

definition BFS_evolve :: "'s option \<Rightarrow> 's list \<Rightarrow> 's list \<Rightarrow> 's list \<Rightarrow> 's list result" where
  "BFS_evolve current added removed states =
     (case current of
        Some c \<Rightarrow>
          if added \<noteq> [] \<and> c \<notin> set removed then rbind (eraseFirst c states) (\<lambda>states'. Ok (states' @ [c]))
          else Ok states
      | None \<Rightarrow> Ok states)"

definition BFSSearcher :: "('s list, 's, 'w) Searcher" where
  "BFSSearcher =
     \<lparr>selectState = (\<lambda>states w. if states = [] then Abort else Ok (hd states, states, w)),
      update = (\<lambda>current added removed states w.
        rbind (BFS_evolve current added removed states) (\<lambda>states1.
        rbind (eraseStates BFS_erase removed (states1 @ added)) (\<lambda>states2. Ok (states2, w)))),
      emptyS = (\<lambda>states. states = [])\<rparr>"

definition RandomSearcher :: "('w \<Rightarrow> 32 word \<times> 'w) \<Rightarrow> ('s list, 's, 'w) Searcher" where
  "RandomSearcher getInt32 =
     \<lparr>selectState = (\<lambda>states w. if states = [] then Abort
        else (case getInt32 w of (r, w') \<Rightarrow> Ok (states ! (unat r mod length states), states, w'))),
      update = (\<lambda>current added removed states w.
        rbind (eraseStates eraseFirst removed (states @ added)) (\<lambda>states'. Ok (states', w))),
      emptyS = (\<lambda>states. states = [])\<rparr>"

subsection \<open>Batches\<close>

text \<open>
  Time spans are nanoseconds. \<open>t *= 1.1\<close> multiplies the microseconds as doubles, with the rounding to
  53 bits, and truncates; the factor is the double next to 1.1, in units of \<open>2 ^ -52\<close>.
\<close>

definition roundBits :: "nat \<Rightarrow> nat \<Rightarrow> nat" where
  "roundBits n e =
     (let q = n div 2 ^ e; r = n mod 2 ^ e; half = 2 ^ (e - 1)
      in (if e = 0 then n else if r > half \<or> r = half \<and> odd q then (q + 1) * 2 ^ e else q * 2 ^ e))"

definition bitLength :: "nat \<Rightarrow> nat" where
  "bitLength n = length (takeWhile (\<lambda>i. 2 ^ i \<le> n) [0..<Suc n])"

definition roundDouble :: "nat \<Rightarrow> nat" where
  "roundDouble n = roundBits n (bitLength n - 53)"

definition timesOnePointOne :: "nat \<Rightarrow> nat" where
  "timesOnePointOne t = roundDouble (roundDouble (t div 1000) * 4953959590107546) div 2 ^ 52 * 1000"

record ('q, 's) BatchingSearcher =
  batchBase :: 'q
  timeBudget :: nat
  instructionBudget :: "32 word"
  lastState :: "'s option"
  lastStartTime :: nat
  lastStartInstructions :: "32 word"

definition BatchingSearcher_new :: "'q \<Rightarrow> nat \<Rightarrow> 32 word \<Rightarrow> ('q, 's) BatchingSearcher" where
  "BatchingSearcher_new base t n =
     \<lparr>batchBase = base, timeBudget = t, instructionBudget = n, lastState = None, lastStartTime = 0,
      lastStartInstructions = 0\<rparr>"

text \<open>
  The condition for a new state reads the clock only when there is a last state and a time budget. The
  counter of instructions has 64 bits, the value it is compared with was cut to 32 bits.
\<close>

definition batchOver :: "('w \<Rightarrow> nat \<times> 'w) \<Rightarrow> ('w \<Rightarrow> 64 word) \<Rightarrow> ('q, 's) BatchingSearcher \<Rightarrow> 'w \<Rightarrow> bool \<times> 'w" where
  "batchOver getWallTime instructions b w =
     (if lastState b = None then (True, w)
      else
        let (late, w1) =
          (if timeBudget b > 0 then (case getWallTime w of (now, w1) \<Rightarrow> (now - lastStartTime b > timeBudget b, w1)) else (False, w))
        in (late \<or> instructionBudget b > 0 \<and> instructions w1 - ucast (lastStartInstructions b) > ucast (instructionBudget b), w1))"

definition growBudget :: "('w \<Rightarrow> nat \<times> 'w) \<Rightarrow> ('q, 's) BatchingSearcher \<Rightarrow> 'w \<Rightarrow> ('q, 's) BatchingSearcher \<times> 'w" where
  "growBudget getWallTime b w =
     (if lastState b = None then (b, w)
      else
        let (now, w1) = getWallTime w; delta = now - lastStartTime b
        in (if delta > timesOnePointOne (timeBudget b) then b\<lparr>timeBudget := delta\<rparr> else b, w1))"

definition BatchingSearcher_selectState ::
    "('w \<Rightarrow> nat \<times> 'w) \<Rightarrow> ('w \<Rightarrow> 64 word) \<Rightarrow> ('q, 's, 'w) Searcher \<Rightarrow> ('q, 's) BatchingSearcher \<Rightarrow> 'w \<Rightarrow> ('s \<times> ('q, 's) BatchingSearcher \<times> 'w) result" where
  "BatchingSearcher_selectState getWallTime instructions S b w =
     (let (over, w1) = batchOver getWallTime instructions b w
      in if over then
           let (b1, w2) = growBudget getWallTime b w1
           in rbind (selectState S (batchBase b1) w2) (\<lambda>(s, q, w3).
                let (now, w4) = getWallTime w3
                in Ok (s, b1\<lparr>batchBase := q, lastState := Some s, lastStartTime := now, lastStartInstructions := ucast (instructions w4)\<rparr>, w4))
         else (case lastState b of Some s \<Rightarrow> Ok (s, b, w1) | None \<Rightarrow> Abort))"

definition BatchingSearcher :: "('w \<Rightarrow> nat \<times> 'w) \<Rightarrow> ('w \<Rightarrow> 64 word) \<Rightarrow> ('q, 's, 'w) Searcher \<Rightarrow> (('q, 's) BatchingSearcher, 's, 'w) Searcher" where
  "BatchingSearcher getWallTime instructions S =
     \<lparr>selectState = BatchingSearcher_selectState getWallTime instructions S,
      update = (\<lambda>current added removed b w.
        let b1 = (case lastState b of Some s \<Rightarrow> if s \<in> set removed then b\<lparr>lastState := None\<rparr> else b | None \<Rightarrow> b)
        in rbind (update S current added removed (batchBase b1) w) (\<lambda>(q, w'). Ok (b1\<lparr>batchBase := q\<rparr>, w'))),
      emptyS = (\<lambda>b. emptyS S (batchBase b))\<rparr>"

subsection \<open>Iterative deepening by time\<close>

record ('q, 's) IterativeDeepeningTimeSearcher =
  deepBase :: 'q
  startTime :: nat
  sliceTime :: nat
  pausedStates :: "'s set"

definition IterativeDeepeningTimeSearcher_new :: "'q \<Rightarrow> ('q, 's) IterativeDeepeningTimeSearcher" where
  "IterativeDeepeningTimeSearcher_new base = \<lparr>deepBase = base, startTime = 0, sliceTime = 1000000000, pausedStates = {}\<rparr>"

text \<open>The removed states that are paused leave the set and are not passed on.\<close>

fun dropPaused :: "'s list \<Rightarrow> 's set \<times> 's list \<Rightarrow> 's set \<times> 's list" where
  "dropPaused [] pa = pa"
| "dropPaused (es # removed) (paused, alt) =
     dropPaused removed (if es \<in> paused then (paused - {es}, filter (\<lambda>x. x \<noteq> es) alt) else (paused, alt))"

text \<open>\<open>elems\<close> lists a set of states in the order of the pointers.\<close>

definition IterativeDeepeningTimeSearcher_update ::
    "('w \<Rightarrow> nat \<times> 'w) \<Rightarrow> ('s set \<Rightarrow> 's list) \<Rightarrow> ('q, 's, 'w) Searcher \<Rightarrow> 's option \<Rightarrow> 's list \<Rightarrow> 's list \<Rightarrow>
      ('q, 's) IterativeDeepeningTimeSearcher \<Rightarrow> 'w \<Rightarrow> (('q, 's) IterativeDeepeningTimeSearcher \<times> 'w) result" where
  "IterativeDeepeningTimeSearcher_update getWallTime elems S current added removed d w =
     (let (now, w1) = getWallTime w;
          elapsed = now - startTime d;
          (paused, alt) = dropPaused removed (pausedStates d, removed)
      in rbind (update S current added alt (deepBase d) w1) (\<lambda>(q1, w2).
         rbind
           (case current of
              Some c \<Rightarrow>
                if c \<notin> set removed \<and> elapsed > sliceTime d
                then rbind (removeState S c None q1 w2) (\<lambda>(q2, w3). Ok (insert c paused, q2, w3))
                else Ok (paused, q1, w2)
            | None \<Rightarrow> Ok (paused, q1, w2)) (\<lambda>(paused', q2, w3).
         if emptyS S q2
         then rbind (update S None (elems paused') [] q2 w3) (\<lambda>(q3, w4).
           Ok (d\<lparr>deepBase := q3, sliceTime := 2 * sliceTime d, pausedStates := {}\<rparr>, w4))
         else Ok (d\<lparr>deepBase := q2, pausedStates := paused'\<rparr>, w3))))"

definition IterativeDeepeningTimeSearcher ::
    "('w \<Rightarrow> nat \<times> 'w) \<Rightarrow> ('s set \<Rightarrow> 's list) \<Rightarrow> ('q, 's, 'w) Searcher \<Rightarrow> (('q, 's) IterativeDeepeningTimeSearcher, 's, 'w) Searcher" where
  "IterativeDeepeningTimeSearcher getWallTime elems S =
     \<lparr>selectState = (\<lambda>d w. rbind (selectState S (deepBase d) w) (\<lambda>(s, q, w1).
        case getWallTime w1 of (now, w2) \<Rightarrow> Ok (s, d\<lparr>deepBase := q, startTime := now\<rparr>, w2))),
      update = IterativeDeepeningTimeSearcher_update getWallTime elems S,
      emptyS = (\<lambda>d. emptyS S (deepBase d) \<and> pausedStates d = {})\<rparr>"

subsection \<open>Interleaving\<close>

record ('q, 's, 'w) InterleavedSearcher =
  searchers :: "(('q, 's, 'w) Searcher \<times> 'q) list"
  ilIndex :: nat

definition InterleavedSearcher_new :: "(('q, 's, 'w) Searcher \<times> 'q) list \<Rightarrow> ('q, 's, 'w) InterleavedSearcher" where
  "InterleavedSearcher_new ss = \<lparr>searchers = ss, ilIndex = 1\<rparr>"

fun updateAll :: "'s option \<Rightarrow> 's list \<Rightarrow> 's list \<Rightarrow> (('q, 's, 'w) Searcher \<times> 'q) list \<Rightarrow> 'w \<Rightarrow> ((('q, 's, 'w) Searcher \<times> 'q) list \<times> 'w) result" where
  "updateAll current added removed [] w = Ok ([], w)"
| "updateAll current added removed ((S, q) # ss) w =
     rbind (update S current added removed q w) (\<lambda>(q', w1).
     rbind (updateAll current added removed ss w1) (\<lambda>(ss', w2). Ok ((S, q') # ss', w2)))"

definition InterleavedSearcher :: "(('q, 's, 'w) InterleavedSearcher, 's, 'w) Searcher" where
  "InterleavedSearcher =
     \<lparr>selectState = (\<lambda>il w.
        if ilIndex il = 0 \<or> \<not> ilIndex il \<le> length (searchers il) then Abort
        else
          let i = ilIndex il - 1; (S, q) = searchers il ! i
          in rbind (selectState S q w) (\<lambda>(s, q', w').
               Ok (s, \<lparr>searchers = (searchers il)[i := (S, q')], ilIndex = (if i = 0 then length (searchers il) else i)\<rparr>, w'))),
      update = (\<lambda>current added removed il w.
        rbind (updateAll current added removed (searchers il) w) (\<lambda>(ss, w'). Ok (il\<lparr>searchers := ss\<rparr>, w'))),
      emptyS = (\<lambda>il. case searchers il of [] \<Rightarrow> True | (S, q) # _ \<Rightarrow> emptyS S q)\<rparr>"

section \<open>What a searcher promises\<close>

text \<open>
  \<open>held q\<close> are the states a searcher holds, \<open>ready q\<close> those among them that it may select now. An update
  names the state that was executed, if any, states that are new, and states to remove.
\<close>

definition okUpdate :: "'s set \<Rightarrow> 's set \<Rightarrow> 's option \<Rightarrow> 's list \<Rightarrow> 's list \<Rightarrow> bool" where
  "okUpdate H R current added removed \<longleftrightarrow>
     distinct added \<and> set added \<inter> H = {} \<and> distinct removed \<and> set removed \<subseteq> H \<union> set added \<and> (\<forall>c. current = Some c \<longrightarrow> c \<in> R)"

locale searcher =
  fixes S :: "('q, 's, 'w) Searcher" and held :: "'q \<Rightarrow> 's set" and ready :: "'q \<Rightarrow> 's set" and I :: "'q \<Rightarrow> bool"
  assumes ready_held: "I q \<Longrightarrow> ready q \<subseteq> held q"
    and select: "I q \<Longrightarrow> held q \<noteq> {} \<Longrightarrow>
      \<exists>s q' w'. selectState S q w = Ok (s, q', w') \<and> s \<in> ready q' \<and> I q' \<and> held q' = held q \<and> ready q' = ready q"
    and update: "I q \<Longrightarrow> okUpdate (held q) (ready q) current added removed \<Longrightarrow>
      \<exists>q' w'. update S current added removed q w = Ok (q', w') \<and> I q' \<and> held q' = (held q \<union> set added) - set removed"
    and empty: "I q \<Longrightarrow> emptyS S q \<longleftrightarrow> held q = {}"
begin

lemma held_added:
  assumes "I q" "es \<notin> held q"
  shows "\<exists>q' w'. addState S es None q w = Ok (q', w') \<and> I q' \<and> held q' = insert es (held q)"
  using update [OF assms(1), of None "[es]" "[]" w] assms(2) by (simp add: addState_def okUpdate_def)

lemma held_removed:
  assumes "I q" "es \<in> held q"
  shows "\<exists>q' w'. removeState S es None q w = Ok (q', w') \<and> I q' \<and> held q' = held q - {es}"
  using update [OF assms(1), of None "[]" "[es]" w] assms(2) by (simp add: removeState_def okUpdate_def)

end

text \<open>A core searcher may select any state it holds.\<close>

locale core_searcher = searcher S held held I
  for S :: "('q, 's, 'w) Searcher" and held I
begin

subsection \<open>Batches over a core searcher\<close>

definition batchOK :: "('q, 's) BatchingSearcher \<Rightarrow> bool" where
  "batchOK b \<longleftrightarrow> I (batchBase b) \<and> (\<forall>s. lastState b = Some s \<longrightarrow> s \<in> held (batchBase b))"

lemma growBudget_keeps: "growBudget gw b w = (b', w') \<Longrightarrow> batchBase b' = batchBase b \<and> lastState b' = lastState b"
  by (auto simp: growBudget_def Let_def split: if_splits prod.splits)

lemma batching_select:
  assumes "batchOK b" "held (batchBase b) \<noteq> {}"
  shows "\<exists>s b' w'. BatchingSearcher_selectState gw ins S b w = Ok (s, b', w') \<and> s \<in> held (batchBase b') \<and> batchOK b' \<and>
    held (batchBase b') = held (batchBase b)"
proof -
  obtain over w1 where over: "batchOver gw ins b w = (over, w1)" by force
  show ?thesis
  proof (cases over)
    case True
    obtain b1 w2 where b1: "growBudget gw b w1 = (b1, w2)" by force
    then have eq: "batchBase b1 = batchBase b" using growBudget_keeps [OF b1] by simp
    obtain s q w3 where sel: "selectState S (batchBase b) w2 = Ok (s, q, w3)" "s \<in> held q" "I q" "held q = held (batchBase b)"
      using select [of "batchBase b" w2] assms by (auto simp: batchOK_def)
    with over True b1 eq show ?thesis
      by (auto simp: BatchingSearcher_selectState_def Let_def batchOK_def split: prod.splits)
  next
    case False
    with over obtain s where "lastState b = Some s" by (auto simp: batchOver_def split: if_splits)
    with over False assms show ?thesis by (auto simp: BatchingSearcher_selectState_def batchOK_def)
  qed
qed

lemma batching_core: "searcher (BatchingSearcher gw ins S) (\<lambda>b. held (batchBase b)) (\<lambda>b. held (batchBase b)) batchOK"
proof
  fix b current added removed w
  assume b: "batchOK b" and ok: "okUpdate (held (batchBase b)) (held (batchBase b)) current added removed"
  define b1 where "b1 = (case lastState b of Some s \<Rightarrow> if s \<in> set removed then b\<lparr>lastState := None\<rparr> else b | None \<Rightarrow> b)"
  have b1: "batchBase b1 = batchBase b" "\<And>s. lastState b1 = Some s \<Longrightarrow> s \<in> held (batchBase b) - set removed"
    using b by (auto simp: b1_def batchOK_def split: option.splits if_splits)
  obtain q w' where q: "update S current added removed (batchBase b) w = Ok (q, w')" "I q" "held q = held (batchBase b) \<union> set added - set removed"
    using update [OF _ ok, of w] b by (auto simp: batchOK_def)
  then have "batchOK (b1\<lparr>batchBase := q\<rparr>)" using b1(2) by (auto simp: batchOK_def)
  with q b1(1) show "\<exists>b' w'. Searcher.update (BatchingSearcher gw ins S) current added removed b w = Ok (b', w') \<and> batchOK b' \<and>
      held (batchBase b') = held (batchBase b) \<union> set added - set removed"
    by (auto simp: BatchingSearcher_def b1_def [symmetric])
qed (use batching_select empty in \<open>auto simp: BatchingSearcher_def batchOK_def\<close>)

subsection \<open>Iterative deepening over a core searcher\<close>

definition deepHeld :: "('q, 's) IterativeDeepeningTimeSearcher \<Rightarrow> 's set" where
  "deepHeld d = held (deepBase d) \<union> pausedStates d"

definition deepOK :: "('q, 's) IterativeDeepeningTimeSearcher \<Rightarrow> bool" where
  "deepOK d \<longleftrightarrow> I (deepBase d) \<and> finite (pausedStates d) \<and> held (deepBase d) \<inter> pausedStates d = {} \<and>
     (held (deepBase d) = {} \<longrightarrow> pausedStates d = {})"

lemma dropPaused_eq:
  "distinct removed \<Longrightarrow> dropPaused removed (P, alt) = (P - set removed, filter (\<lambda>x. \<not> (x \<in> P \<and> x \<in> set removed)) alt)"
proof (induction removed arbitrary: P alt)
  case (Cons es removed)
  then show ?case by (auto intro!: filter_cong)
qed simp

lemma deepening_update:
  assumes "deepOK d" "okUpdate (deepHeld d) (held (deepBase d)) current added removed"
    and elems: "\<And>A :: 's set. finite A \<Longrightarrow> set (elems A) = A \<and> distinct (elems A)"
  shows "\<exists>d' w'. IterativeDeepeningTimeSearcher_update gw elems S current added removed d w = Ok (d', w') \<and> deepOK d' \<and>
    deepHeld d' = deepHeld d \<union> set added - set removed"
proof -
  let ?B = "held (deepBase d)" and ?P = "pausedStates d"
  define alt where "alt = filter (\<lambda>x. \<not> (x \<in> ?P \<and> x \<in> set removed)) removed"
  have d: "I (deepBase d)" "finite ?P" "?B \<inter> ?P = {}" using assms(1) by (auto simp: deepOK_def)
  have u: "distinct added" "set added \<inter> (?B \<union> ?P) = {}" "distinct removed" "set removed \<subseteq> ?B \<union> ?P \<union> set added"
    "\<And>c. current = Some c \<Longrightarrow> c \<in> ?B" using assms(2) by (auto simp: okUpdate_def deepHeld_def)
  obtain now w1 where now: "gw w = (now, w1)" by force
  have drop: "dropPaused removed (?P, removed) = (?P - set removed, alt)" using dropPaused_eq [OF u(3)] by (simp add: alt_def)
  have "okUpdate ?B ?B current added alt" using u by (auto simp: okUpdate_def alt_def)
  then obtain q1 w2 where q1: "update S current added alt (deepBase d) w1 = Ok (q1, w2)" "I q1" "held q1 = ?B \<union> set added - set alt"
    using update [OF d(1)] by blast
  define step where "step = (case current of
      Some c \<Rightarrow> if c \<notin> set removed \<and> now - startTime d > sliceTime d
        then rbind (removeState S c None q1 w2) (\<lambda>(q2, w3). Ok (insert c (?P - set removed), q2, w3)) else Ok (?P - set removed, q1, w2)
    | None \<Rightarrow> Ok (?P - set removed, q1, w2))"
  have total: "held q1 \<union> (?P - set removed) = ?B \<union> ?P \<union> set added - set removed" "held q1 \<inter> (?P - set removed) = {}"
    using q1(3) d(3) u(2,4) by (auto simp: alt_def)
  obtain P2 q2 w3 where s: "step = Ok (P2, q2, w3)" "I q2" "finite P2" "held q2 \<union> P2 = ?B \<union> ?P \<union> set added - set removed" "held q2 \<inter> P2 = {}"
  proof (cases "\<exists>c. current = Some c \<and> c \<notin> set removed \<and> now - startTime d > sliceTime d")
    case True
    then obtain c where c: "current = Some c" "c \<notin> set removed" "now - startTime d > sliceTime d" by blast
    then have "c \<in> held q1" using u(5) q1(3) by (auto simp: alt_def)
    then obtain q2 w3 where "removeState S c None q1 w2 = Ok (q2, w3)" "I q2" "held q2 = held q1 - {c}" using held_removed [OF q1(2)] by blast
    with c total d(2) \<open>c \<in> held q1\<close> show ?thesis by (intro that [of "insert c (?P - set removed)" q2 w3]) (auto simp: step_def)
  next
    case False
    then have "step = Ok (?P - set removed, q1, w2)" by (auto simp: step_def split: option.splits)
    with q1(2) d(2) total show ?thesis by (intro that) auto
  qed
  have run: "IterativeDeepeningTimeSearcher_update gw elems S current added removed d w =
      (if emptyS S q2 then rbind (update S None (elems P2) [] q2 w3) (\<lambda>(q3, w4).
         Ok (d\<lparr>deepBase := q3, sliceTime := 2 * sliceTime d, pausedStates := {}\<rparr>, w4))
       else Ok (d\<lparr>deepBase := q2, pausedStates := P2\<rparr>, w3))"
    using s(1) by (simp add: IterativeDeepeningTimeSearcher_update_def now drop q1(1) step_def [symmetric])
  show ?thesis
  proof (cases "emptyS S q2")
    case True
    then have "held q2 = {}" using empty [OF s(2)] by simp
    then have "okUpdate (held q2) (held q2) None (elems P2) []" using elems [OF s(3)] by (simp add: okUpdate_def)
    then obtain q3 w4 where "update S None (elems P2) [] q2 w3 = Ok (q3, w4)" "I q3" "held q3 = P2"
      using update [OF s(2), of None "elems P2" "[]" w3] elems [OF s(3)] \<open>held q2 = {}\<close> by auto
    with run True s(4) \<open>held q2 = {}\<close> show ?thesis by (auto simp: deepOK_def deepHeld_def)
  next
    case False
    with run s empty [OF s(2)] show ?thesis by (auto simp: deepOK_def deepHeld_def)
  qed
qed

lemma deepening_searcher:
  assumes elems: "\<And>A :: 's set. finite A \<Longrightarrow> set (elems A) = A \<and> distinct (elems A)"
  shows "searcher (IterativeDeepeningTimeSearcher gw elems S) deepHeld (\<lambda>d. held (deepBase d)) deepOK"
proof
  fix d w assume d: "deepOK d" "deepHeld d \<noteq> {}"
  then have "held (deepBase d) \<noteq> {}" by (auto simp: deepOK_def deepHeld_def)
  then obtain s q w1 where "selectState S (deepBase d) w = Ok (s, q, w1)" "s \<in> held q" "I q" "held q = held (deepBase d)"
    using select [of "deepBase d" w] d(1) by (auto simp: deepOK_def)
  with d(1) show "\<exists>s d' w'. selectState (IterativeDeepeningTimeSearcher gw elems S) d w = Ok (s, d', w') \<and> s \<in> held (deepBase d') \<and> deepOK d' \<and>
      deepHeld d' = deepHeld d \<and> held (deepBase d') = held (deepBase d)"
    by (auto simp: IterativeDeepeningTimeSearcher_def deepOK_def deepHeld_def split: prod.split)
next
  fix d current added removed w
  assume "deepOK d" "okUpdate (deepHeld d) (held (deepBase d)) current added removed"
  from deepening_update [OF this elems]
  show "\<exists>d' w'. Searcher.update (IterativeDeepeningTimeSearcher gw elems S) current added removed d w = Ok (d', w') \<and> deepOK d' \<and>
      deepHeld d' = deepHeld d \<union> set added - set removed" by (simp add: IterativeDeepeningTimeSearcher_def)
qed (use empty in \<open>auto simp: IterativeDeepeningTimeSearcher_def deepOK_def deepHeld_def\<close>)

end

lemma eraseFirst_ok: "distinct xs \<Longrightarrow> es \<in> set xs \<Longrightarrow> eraseFirst es xs = Ok (remove1 es xs)"
  by (induction xs) auto

lemma DFS_erase_ok:
  assumes "distinct xs" "es \<in> set xs"
  shows "DFS_erase es xs = Ok (remove1 es xs)"
proof (cases "es = last xs")
  case True
  have "xs = butlast xs @ [es]" using assms True by (metis append_butlast_last_id empty_iff list.set(1))
  moreover from this have "es \<notin> set (butlast xs)" using assms(1) by (metis distinct_append disjoint_iff list.set_intros(1))
  ultimately have "remove1 es xs = butlast xs" by (metis remove1_append remove1.simps(2) append_Nil2)
  with True assms show ?thesis by (auto simp: DFS_erase_def)
qed (use assms in \<open>auto simp: DFS_erase_def eraseFirst_ok\<close>)

lemma BFS_erase_ok: "distinct xs \<Longrightarrow> es \<in> set xs \<Longrightarrow> BFS_erase es xs = Ok (remove1 es xs)"
  by (cases xs) (auto simp: BFS_erase_def eraseFirst_ok)

lemma eraseStates_ok:
  assumes "\<And>es xs. distinct xs \<Longrightarrow> es \<in> set xs \<Longrightarrow> erase es xs = Ok (remove1 es xs)"
    and "distinct xs" "distinct removed" "set removed \<subseteq> set xs"
  shows "\<exists>ys. eraseStates erase removed xs = Ok ys \<and> distinct ys \<and> set ys = set xs - set removed"
  using assms(2-4)
proof (induction removed arbitrary: xs)
  case (Cons es removed)
  have "distinct (remove1 es xs)" "set removed \<subseteq> set (remove1 es xs)" using Cons.prems by auto
  with Cons.IH [of "remove1 es xs"] assms(1) [of xs es] Cons.prems show ?case by auto
qed simp

lemma BFS_evolve_ok:
  assumes "distinct states" "\<forall>c. current = Some c \<longrightarrow> c \<in> set states"
  shows "\<exists>states'. BFS_evolve current added removed states = Ok states' \<and> distinct states' \<and> set states' = set states"
  using assms by (auto simp: BFS_evolve_def eraseFirst_ok split: option.splits)

interpretation dfs: core_searcher DFSSearcher set distinct
proof
  fix q :: "'s list" and current added removed and w :: 'w
  assume "distinct q" "okUpdate (set q) (set q) current added removed"
  then show "\<exists>q' w'. update DFSSearcher current added removed q w = Ok (q', w') \<and> distinct q' \<and> set q' = set q \<union> set added - set removed"
    using eraseStates_ok [OF DFS_erase_ok, of "q @ added" removed] by (auto simp: DFSSearcher_def okUpdate_def)
qed (auto simp: DFSSearcher_def)

interpretation bfs: core_searcher BFSSearcher set distinct
proof
  fix q :: "'s list" and current added removed and w :: 'w
  assume ok: "distinct q" "okUpdate (set q) (set q) current added removed"
  then obtain q1 where "BFS_evolve current added removed q = Ok q1" "distinct q1" "set q1 = set q"
    using BFS_evolve_ok [of q current added removed] by (auto simp: okUpdate_def)
  with ok show "\<exists>q' w'. update BFSSearcher current added removed q w = Ok (q', w') \<and> distinct q' \<and> set q' = set q \<union> set added - set removed"
    using eraseStates_ok [OF BFS_erase_ok, of "q1 @ added" removed] by (auto simp: BFSSearcher_def okUpdate_def)
qed (auto simp: BFSSearcher_def)

interpretation rnd: core_searcher "RandomSearcher getInt32" set distinct for getInt32 :: "'w \<Rightarrow> 32 word \<times> 'w"
proof
  fix q :: "'s list" and current added removed and w :: 'w
  assume "distinct q" "okUpdate (set q) (set q) current added removed"
  then show "\<exists>q' w'. update (RandomSearcher getInt32) current added removed q w = Ok (q', w') \<and> distinct q' \<and> set q' = set q \<union> set added - set removed"
    using eraseStates_ok [OF eraseFirst_ok, of "q @ added" removed] by (auto simp: RandomSearcher_def okUpdate_def)
qed (auto simp: RandomSearcher_def split: prod.split)

section \<open>Interleaving core searchers\<close>

locale searcher_family =
  fixes SS :: "('q, 's, 'w) Searcher set" and heldOf :: "('q, 's, 'w) Searcher \<Rightarrow> 'q \<Rightarrow> 's set"
    and IOf :: "('q, 's, 'w) Searcher \<Rightarrow> 'q \<Rightarrow> bool"
  assumes core: "S \<in> SS \<Longrightarrow> searcher S (heldOf S) (heldOf S) (IOf S)"
begin

definition ilHeld :: "('q, 's, 'w) InterleavedSearcher \<Rightarrow> 's set" where
  "ilHeld il = (case searchers il of [] \<Rightarrow> {} | (S, q) # _ \<Rightarrow> heldOf S q)"

definition allHolding :: "(('q, 's, 'w) Searcher \<times> 'q) list \<Rightarrow> 's set \<Rightarrow> bool" where
  "allHolding ss H \<longleftrightarrow> (\<forall>(S, q) \<in> set ss. S \<in> SS \<and> IOf S q \<and> heldOf S q = H)"

definition ilOK :: "('q, 's, 'w) InterleavedSearcher \<Rightarrow> bool" where
  "ilOK il \<longleftrightarrow> 0 < ilIndex il \<and> ilIndex il \<le> length (searchers il) \<and> allHolding (searchers il) (ilHeld il)"

lemma ilHeld_eq: "ss \<noteq> [] \<Longrightarrow> allHolding ss H \<Longrightarrow> ilHeld \<lparr>searchers = ss, ilIndex = i\<rparr> = H"
  by (cases ss) (auto simp: ilHeld_def allHolding_def)

lemma updateAll_ok:
  assumes "allHolding ss H" "okUpdate H H current added removed"
  shows "\<exists>ss' w'. updateAll current added removed ss w = Ok (ss', w') \<and> length ss' = length ss \<and> allHolding ss' (H \<union> set added - set removed)"
  using assms(1)
proof (induction ss arbitrary: w)
  case (Cons p ss)
  obtain S q where p: "p = (S, q)" by force
  have S: "S \<in> SS" "IOf S q" "heldOf S q = H" "allHolding ss H" using Cons.prems by (auto simp: p allHolding_def)
  obtain q' w1 where q': "update S current added removed q w = Ok (q', w1)" "IOf S q'" "heldOf S q' = H \<union> set added - set removed"
    using searcher.update [OF core [OF S(1)] S(2), of current added removed w] assms(2) S(3) by auto
  obtain ss' w2 where "updateAll current added removed ss w1 = Ok (ss', w2)" "length ss' = length ss" "allHolding ss' (H \<union> set added - set removed)"
    using Cons.IH [OF S(4), of w1] by blast
  with q' S(1) p show ?case by (auto simp: allHolding_def)
qed (simp add: allHolding_def)

lemma interleaved_select:
  assumes "ilOK il" "ilHeld il \<noteq> {}"
  shows "\<exists>s il' w'. selectState InterleavedSearcher il w = Ok (s, il', w') \<and> s \<in> ilHeld il' \<and> ilOK il' \<and> ilHeld il' = ilHeld il"
proof -
  let ?i = "ilIndex il - 1" and ?ss = "searchers il" and ?H = "ilHeld il"
  have i: "?i < length ?ss" "0 < ilIndex il" "allHolding ?ss ?H" using assms(1) by (auto simp: ilOK_def)
  obtain S q where Sq: "?ss ! ?i = (S, q)" by force
  then have S: "S \<in> SS" "IOf S q" "heldOf S q = ?H" using i nth_mem [OF i(1)] by (auto simp: allHolding_def)
  obtain s q' w' where sel: "selectState S q w = Ok (s, q', w')" "s \<in> heldOf S q'" "IOf S q'" "heldOf S q' = ?H"
    using searcher.select [OF core [OF S(1)] S(2)] assms(2) S(3) by metis
  let ?ss' = "?ss[?i := (S, q')]" and ?n = "if ?i = 0 then length ?ss else ?i"
  have "allHolding ?ss' ?H" using i(3) sel S(1) set_update_subset_insert [of ?ss ?i "(S, q')"] by (auto simp: allHolding_def)
  moreover have "?ss' \<noteq> []" using i(1) by auto
  ultimately have "ilHeld \<lparr>searchers = ?ss', ilIndex = ?n\<rparr> = ?H" "ilOK \<lparr>searchers = ?ss', ilIndex = ?n\<rparr>"
    using ilHeld_eq [of ?ss' ?H ?n] i by (auto simp: ilOK_def)
  moreover have "selectState InterleavedSearcher il w = Ok (s, \<lparr>searchers = ?ss', ilIndex = ?n\<rparr>, w')"
    using sel(1) i(1,2) Sq assms(1) by (simp add: InterleavedSearcher_def Let_def ilOK_def)
  ultimately show ?thesis using sel(2,4) by blast
qed

lemma interleaved_update:
  assumes "ilOK il" "okUpdate (ilHeld il) (ilHeld il) current added removed"
  shows "\<exists>il' w'. update InterleavedSearcher current added removed il w = Ok (il', w') \<and> ilOK il' \<and> ilHeld il' = ilHeld il \<union> set added - set removed"
proof -
  obtain ss w' where ss: "updateAll current added removed (searchers il) w = Ok (ss, w')" "length ss = length (searchers il)"
      "allHolding ss (ilHeld il \<union> set added - set removed)"
    using updateAll_ok [OF _ assms(2), of "searchers il" w] assms(1) by (auto simp: ilOK_def)
  have "ss \<noteq> []" using ss(2) assms(1) by (auto simp: ilOK_def)
  then have h: "ilHeld \<lparr>searchers = ss, ilIndex = ilIndex il\<rparr> = ilHeld il \<union> set added - set removed" using ilHeld_eq ss(3) by blast
  moreover have "ilOK \<lparr>searchers = ss, ilIndex = ilIndex il\<rparr>" using h ss assms(1) by (simp add: ilOK_def)
  ultimately show ?thesis using ss(1) by (cases il) (simp add: InterleavedSearcher_def)
qed

lemma interleaved_core: "core_searcher InterleavedSearcher ilHeld ilOK"
  unfolding core_searcher_def
proof
  fix il assume il: "ilOK il"
  then obtain S q ss where "searchers il = (S, q) # ss" by (cases "searchers il") (auto simp: ilOK_def)
  with il show "emptyS InterleavedSearcher il \<longleftrightarrow> ilHeld il = {}"
    using searcher.empty [OF core, of S q] by (auto simp: ilOK_def allHolding_def ilHeld_def InterleavedSearcher_def)
qed (use interleaved_select interleaved_update in auto)

end

interpretation family: searcher_family "{DFSSearcher, BFSSearcher, RandomSearcher getInt32}" "\<lambda>S. set" "\<lambda>S. distinct"
  for getInt32 :: "'w \<Rightarrow> 32 word \<times> 'w"
proof (intro searcher_family.intro)
  fix S :: "('s list, 's, 'w) Searcher" assume "S \<in> {DFSSearcher, BFSSearcher, RandomSearcher getInt32}"
  then show "searcher S set set distinct" using dfs.searcher_axioms bfs.searcher_axioms rnd.searcher_axioms [of getInt32] by auto
qed

section \<open>Exploration with a searcher\<close>

text \<open>
  The use the executor makes of a searcher: it selects a state, executes an instruction of it, and
  updates the searcher with the states that were made and removed meanwhile. \<open>H\<close> are the states under
  exploration.
\<close>

inductive searches :: "('q, 's, 'w) Searcher \<Rightarrow> 'q \<Rightarrow> 's set \<Rightarrow> 's option \<Rightarrow> 'q \<Rightarrow> bool" for S q0 where
  start: "searches S q0 {} None q0"
| choose: "searches S q0 H c q \<Longrightarrow> H \<noteq> {} \<Longrightarrow> selectState S q w = Ok (s, q', w') \<Longrightarrow> searches S q0 H (Some s) q'"
| update: "searches S q0 H c q \<Longrightarrow> distinct added \<Longrightarrow> set added \<inter> H = {} \<Longrightarrow> distinct removed \<Longrightarrow> set removed \<subseteq> H \<union> set added \<Longrightarrow>
    update S c added removed q w = Ok (q', w') \<Longrightarrow> searches S q0 (H \<union> set added - set removed) None q'"

context searcher
begin

lemma searches_holds:
  assumes "searches S q0 H c q" "I q0" "held q0 = {}"
  shows "I q \<and> held q = H \<and> (\<forall>s. c = Some s \<longrightarrow> s \<in> ready q)"
  using assms
proof (induction rule: searches.induct)
  case (choose H c q w s q' w')
  then have "I q" "held q = H" by simp_all
  from select [OF this(1), of w] this(2) choose.hyps show ?case by auto
next
  case (update H c q added removed w q' w')
  then have "I q" "held q = H" "okUpdate (held q) (ready q) c added removed" by (auto simp: okUpdate_def)
  with update.hyps(6) searcher.update [OF searcher_axioms \<open>I q\<close> this(3), of w] show ?case by auto
qed simp

lemma searches_serves:
  assumes "searches S q0 H c q" "I q0" "held q0 = {}"
  shows "emptyS S q \<longleftrightarrow> H = {}"
    and "H \<noteq> {} \<Longrightarrow> \<exists>s q' w'. selectState S q w = Ok (s, q', w') \<and> s \<in> H"
    and "distinct added \<Longrightarrow> set added \<inter> H = {} \<Longrightarrow> distinct removed \<Longrightarrow> set removed \<subseteq> H \<union> set added \<Longrightarrow>
      \<exists>q' w'. update S c added removed q w = Ok (q', w')"
proof -
  note q = searches_holds [OF assms]
  show "emptyS S q \<longleftrightarrow> H = {}" using empty [of q] q by simp
  show "H \<noteq> {} \<Longrightarrow> \<exists>s q' w'. selectState S q w = Ok (s, q', w') \<and> s \<in> H" using select [of q w] ready_held q by blast
  show "distinct added \<Longrightarrow> set added \<inter> H = {} \<Longrightarrow> distinct removed \<Longrightarrow> set removed \<subseteq> H \<union> set added \<Longrightarrow>
      \<exists>q' w'. Searcher.update S c added removed q w = Ok (q', w')" using update [of q c added removed w] q by (auto simp: okUpdate_def)
qed

end

text \<open>
  C38: the search strategies. The strategy \<open>S\<close> is iterative deepening over batches over any
  interleaving of depth first, breadth first and random search, started without states. Along every
  exploration, whatever the clock, the counter of instructions and the random numbers are: the
  searcher is empty exactly when no state is left, otherwise it selects one of the states that are
  left, and no assertion fails in an update.
\<close>

theorem searchers_serve:
  assumes "ss \<noteq> []" "set (map fst ss) \<subseteq> {DFSSearcher, BFSSearcher, RandomSearcher getInt32}" "\<forall>(B, q) \<in> set ss. q = []"
    and "\<forall>A :: 's set. finite A \<longrightarrow> set (elems A) = A \<and> distinct (elems A)"
    and "S = IterativeDeepeningTimeSearcher getWallTime elems (BatchingSearcher getWallTime instructions InterleavedSearcher)"
    and "searches S (IterativeDeepeningTimeSearcher_new (BatchingSearcher_new (InterleavedSearcher_new ss) t n)) H c q"
  shows "(emptyS S q \<longleftrightarrow> H = {}) \<and>
    (H \<noteq> {} \<longrightarrow> (\<exists>s q' w'. selectState S q w = Ok (s, q', w') \<and> s \<in> H)) \<and>
    (distinct added \<and> set added \<inter> H = {} \<and> distinct removed \<and> set removed \<subseteq> H \<union> set added \<longrightarrow>
      (\<exists>q' w'. update S c added removed q w = Ok (q', w')))"
proof -
  note il = family.interleaved_core [of getInt32]
  note batch = core_searcher.batching_core [OF il, of getWallTime instructions]
  have deep: "searcher S (core_searcher.deepHeld (\<lambda>b. family.ilHeld (batchBase b))) (\<lambda>d. family.ilHeld (batchBase (deepBase d)))
      (core_searcher.deepOK (\<lambda>b. family.ilHeld (batchBase b)) (core_searcher.batchOK family.ilHeld (family.ilOK getInt32)))"
    unfolding assms(5) by (rule core_searcher.deepening_searcher [OF core_searcher.intro [OF batch]]) (use assms(4) in blast)
  have "family.allHolding getInt32 ss {}"
    unfolding family.allHolding_def
  proof
    fix p assume p: "p \<in> set ss"
    then have "fst p \<in> {DFSSearcher, BFSSearcher, RandomSearcher getInt32}" "snd p = []" using assms(2,3) by auto
    then show "case p of (B, q) \<Rightarrow> B \<in> {DFSSearcher, BFSSearcher, RandomSearcher getInt32} \<and> distinct q \<and> set q = {}"
      by (simp add: case_prod_beta)
  qed
  moreover from this have "family.ilHeld (InterleavedSearcher_new ss) = {}"
    using family.ilHeld_eq [OF assms(1)] by (simp add: InterleavedSearcher_new_def)
  ultimately have new: "family.ilHeld (InterleavedSearcher_new ss) = {}" "family.ilOK getInt32 (InterleavedSearcher_new ss)"
    using assms(1) by (simp_all add: InterleavedSearcher_new_def family.ilOK_def Suc_le_eq)
  show ?thesis
    using searcher.searches_serves [OF deep assms(6)] new
    by (simp add: core_searcher.deepOK_def [OF core_searcher.intro [OF batch]] core_searcher.deepHeld_def [OF core_searcher.intro [OF batch]]
      core_searcher.batchOK_def [OF il] IterativeDeepeningTimeSearcher_new_def BatchingSearcher_new_def)
qed

text \<open>Depth first and breadth first search in turn, with a clock that stands still.\<close>

definition exampleSearcher :: "((((nat list, nat, unit) InterleavedSearcher, nat) BatchingSearcher, nat) IterativeDeepeningTimeSearcher, nat, unit) Searcher" where
  "exampleSearcher = IterativeDeepeningTimeSearcher (\<lambda>w. (0, w)) sorted_list_of_set (BatchingSearcher (\<lambda>w. (0, w)) (\<lambda>w. 0) InterleavedSearcher)"

theorem searchers_serve_witness:
  "\<exists>q1 w1 s q2 w2.
     update exampleSearcher None [1, 2] []
       (IterativeDeepeningTimeSearcher_new (BatchingSearcher_new (InterleavedSearcher_new [(DFSSearcher, []), (BFSSearcher, [])]) 0 0)) () = Ok (q1, w1) \<and>
     selectState exampleSearcher q1 w1 = Ok (s, q2, w2) \<and> s \<in> {1, 2}"
proof -
  let ?ss = "[(DFSSearcher, []), (BFSSearcher, [])] :: ((nat list, nat, unit) Searcher \<times> nat list) list"
  let ?S = exampleSearcher
  let ?q = "IterativeDeepeningTimeSearcher_new (BatchingSearcher_new (InterleavedSearcher_new ?ss) 0 0)"
  have elems: "\<forall>A :: nat set. finite A \<longrightarrow> set (sorted_list_of_set A) = A \<and> distinct (sorted_list_of_set A)" by simp
  note serve = searchers_serve [of ?ss "\<lambda>w. (0, w)" sorted_list_of_set ?S "\<lambda>w. (0, w)" "\<lambda>w. 0" 0 0,
      OF _ _ _ elems exampleSearcher_def]
  have "\<exists>q1 w1. update ?S None [1, 2] [] ?q () = Ok (q1, w1)"
    using serve [OF _ _ _ searches.start, of "()" "[1, 2]" "[]"] by simp
  then obtain q1 w1 where q1: "update ?S None [1, 2] [] ?q () = Ok (q1, w1)" by blast
  then have "searches ?S ?q ({} \<union> set [1, 2] - set []) None q1" by (intro searches.update [OF searches.start]) auto
  then have "\<exists>s q' w'. selectState ?S q1 w1 = Ok (s, q', w') \<and> s \<in> {1, 2}" using serve [of "{1, 2}" None q1 w1 "[]" "[]"] by simp
  with q1 show ?thesis by blast
qed

text \<open>
  The start of a batch is kept in 32 bits of the 64-bit counter of instructions: beyond \<open>2 ^ 32\<close>
  instructions a batch with a budget is over before it has executed anything.
\<close>

lemma batch_over_at_once:
  assumes "lastState b = Some s" "timeBudget b = 0" "0 < instructionBudget b"
    and "instructions w = 2 ^ 32" "lastStartInstructions b = ucast (instructions w)"
  shows "batchOver getWallTime instructions b w = (True, w)"
proof -
  have "unat (instructionBudget b) < 2 ^ LENGTH(32)" by (rule unsigned_less)
  then have "unat (ucast (instructionBudget b) :: 64 word) < 2 ^ 32" by (simp add: unsigned_ucast_eq take_bit_nat_eq_self)
  then have "(ucast (instructionBudget b) :: 64 word) < 2 ^ 32" by (simp add: word_less_nat_alt)
  with assms show ?thesis by (simp add: batchOver_def)
qed

end
