(* ===== verification/KTest.thy ===== *)
theory KTest
  imports Prelude "HOL-Library.Word"
begin

text \<open>
  Test cases on disk (\<open>lib/Basic/KTest.cpp\<close>, \<open>include/klee/Internal/ADT/KTest.h\<close>). A file is the list
  of its bytes, a C string the list of its bytes before the terminating zero. Reading ends with a
  value, with the return value that reports an error (\<open>Failed\<close>), or writes beyond the end of a buffer
  (\<open>Overrun\<close>); \<open>None\<close> is an error of the writer. \<open>fread\<close> and \<open>fwrite\<close> of an item of size 0 return 0, which
  the code takes for an error. Memory allocation does not fail, also for 0 bytes, and the disk takes
  every byte.
\<close>

section \<open>Definitions\<close>

type_synonym bytes = "8 word list"

record KTestObject =
  oname :: bytes
  obytes :: bytes

record KTest =
  version :: "32 word"
  args :: "bytes list"
  symArgvs :: "32 word"
  symArgvLen :: "32 word"
  ktObjects :: "KTestObject list"

definition KTEST_VERSION :: "32 word" where
  "KTEST_VERSION = 3"

text \<open>The magic numbers \<open>KTEST\<close> and \<open>BOUT\<close> with a newline.\<close>

definition KTEST_MAGIC :: bytes where
  "KTEST_MAGIC = [75, 84, 69, 83, 84]"

definition BOUT_MAGIC :: bytes where
  "BOUT_MAGIC = [66, 79, 85, 84, 10]"

subsection \<open>Reading\<close>

datatype 'a reading = Read 'a | Failed | Overrun

definition readBind :: "'a reading \<Rightarrow> ('a \<Rightarrow> 'b reading) \<Rightarrow> 'b reading" where
  "readBind m g = (case m of Read x \<Rightarrow> g x | Failed \<Rightarrow> Failed | Overrun \<Rightarrow> Overrun)"

lemma readBind_simps [simp]: "readBind (Read x) g = g x" "readBind Failed g = Failed" "readBind Overrun g = Overrun"
  by (simp_all add: readBind_def)

text \<open>\<open>fread\<close> of one item of \<open>n\<close> bytes into a buffer; at the end of the file it stores what there is.\<close>

definition fread :: "nat \<Rightarrow> nat \<Rightarrow> bytes \<Rightarrow> (bytes \<times> bytes) reading" where
  "fread buffer n f =
     (if buffer < min n (length f) then Overrun
      else if n = 0 \<or> length f < n then Failed
      else Read (take n f, drop n f))"

definition read_uint32 :: "bytes \<Rightarrow> (32 word \<times> bytes) reading" where
  "read_uint32 f =
     readBind (fread 4 4 f) (\<lambda>(d, f').
       Read (push_bit 8 (push_bit 8 (push_bit 8 (ucast (d ! 0)) + ucast (d ! 1)) + ucast (d ! 2)) + ucast (d ! 3), f'))"

text \<open>The buffer of a string has the size \<open>len + 1\<close>, computed with 32 bits.\<close>

definition read_string :: "bytes \<Rightarrow> (bytes \<times> bytes) reading" where
  "read_string f = readBind (read_uint32 f) (\<lambda>(len, f1). fread (unat (len + 1)) (unat len) f1)"

definition kTest_checkHeader :: "bytes \<Rightarrow> bytes reading" where
  "kTest_checkHeader f =
     readBind (fread 5 5 f) (\<lambda>(header, f1). if header \<noteq> KTEST_MAGIC \<and> header \<noteq> BOUT_MAGIC then Failed else Read f1)"

definition kTest_isKTestFile :: "bytes \<Rightarrow> bool" where
  "kTest_isKTestFile f \<longleftrightarrow> (case kTest_checkHeader f of Read _ \<Rightarrow> True | _ \<Rightarrow> False)"

fun readMany :: "(bytes \<Rightarrow> ('a \<times> bytes) reading) \<Rightarrow> nat \<Rightarrow> bytes \<Rightarrow> ('a list \<times> bytes) reading" where
  "readMany r 0 f = Read ([], f)"
| "readMany r (Suc n) f =
     readBind (r f) (\<lambda>(x, f1). readBind (readMany r n f1) (\<lambda>(xs, f2). Read (x # xs, f2)))"

definition read_object :: "bytes \<Rightarrow> (KTestObject \<times> bytes) reading" where
  "read_object f =
     readBind (read_string f) (\<lambda>(n, f1).
     readBind (read_uint32 f1) (\<lambda>(numBytes, f2).
     readBind (fread (unat numBytes) (unat numBytes) f2) (\<lambda>(b, f3). Read (\<lparr>oname = n, obytes = b\<rparr>, f3))))"

definition read_symArgs :: "32 word \<Rightarrow> bytes \<Rightarrow> ((32 word \<times> 32 word) \<times> bytes) reading" where
  "read_symArgs vers f =
     (if vers \<ge> 2
      then readBind (read_uint32 f) (\<lambda>(argvs, f1). readBind (read_uint32 f1) (\<lambda>(argvLen, f2). Read ((argvs, argvLen), f2)))
      else Read ((0, 0), f))"

definition read_test :: "bytes \<Rightarrow> (KTest \<times> bytes) reading" where
  "read_test f1 =
     readBind (read_uint32 f1) (\<lambda>(vers, f2).
     if vers > KTEST_VERSION then Failed
     else
       readBind (read_uint32 f2) (\<lambda>(numArgs, f3).
       readBind (readMany read_string (unat numArgs) f3) (\<lambda>(as, f4).
       readBind (read_symArgs vers f4) (\<lambda>((argvs, argvLen), f5).
       readBind (read_uint32 f5) (\<lambda>(numObjects, f6).
       readBind (readMany read_object (unat numObjects) f6) (\<lambda>(os, f7).
         Read (\<lparr>version = vers, args = as, symArgvs = argvs, symArgvLen = argvLen, ktObjects = os\<rparr>, f7)))))))"

definition kTest_fromFile :: "bytes \<Rightarrow> KTest reading" where
  "kTest_fromFile f = readBind (kTest_checkHeader f) (\<lambda>f1. readBind (read_test f1) (\<lambda>(t, f2). Read t))"

subsection \<open>Writing\<close>

definition fwrite :: "bytes \<Rightarrow> bytes option" where
  "fwrite d = (if d = [] then None else Some d)"

definition write_uint32 :: "32 word \<Rightarrow> bytes" where
  "write_uint32 v = [ucast (drop_bit 24 v), ucast (drop_bit 16 v), ucast (drop_bit 8 v), ucast v]"

text \<open>The length of a string is cut to 32 bits, and so many bytes are written.\<close>

definition write_string :: "bytes \<Rightarrow> bytes option" where
  "write_string s =
     (let len = word_of_nat (length s) :: 32 word
      in Option.bind (fwrite (take (unat len) s)) (\<lambda>d. Some (write_uint32 len @ d)))"

fun writeMany :: "('a \<Rightarrow> bytes option) \<Rightarrow> 'a list \<Rightarrow> bytes option" where
  "writeMany w [] = Some []"
| "writeMany w (x # xs) = Option.bind (w x) (\<lambda>d. Option.bind (writeMany w xs) (\<lambda>ds. Some (d @ ds)))"

definition write_object :: "KTestObject \<Rightarrow> bytes option" where
  "write_object ob =
     Option.bind (write_string (oname ob)) (\<lambda>n.
     Option.bind (fwrite (obytes ob)) (\<lambda>d. Some (n @ write_uint32 (word_of_nat (length (obytes ob))) @ d)))"

definition kTest_toFile :: "KTest \<Rightarrow> bytes option" where
  "kTest_toFile bo =
     Option.bind (writeMany write_string (args bo)) (\<lambda>as.
     Option.bind (writeMany write_object (ktObjects bo)) (\<lambda>os.
       Some (KTEST_MAGIC @ write_uint32 KTEST_VERSION @ write_uint32 (word_of_nat (length (args bo))) @ as @
             write_uint32 (symArgvs bo) @ write_uint32 (symArgvLen bo) @
             write_uint32 (word_of_nat (length (ktObjects bo))) @ os)))"

definition kTest_numBytes :: "KTest \<Rightarrow> 32 word" where
  "kTest_numBytes bo = foldl (\<lambda>res ob. res + word_of_nat (length (obytes ob))) 0 (ktObjects bo)"

section \<open>Reading back\<close>

text \<open>
  A reader \<open>r\<close> takes exactly the bytes \<open>d\<close> for the value \<open>x\<close>: whatever follows is left, and if a byte is
  missing at the end the reader fails.
\<close>

definition takes :: "(bytes \<Rightarrow> ('a \<times> bytes) reading) \<Rightarrow> bytes \<Rightarrow> 'a \<Rightarrow> bool" where
  "takes r d x \<longleftrightarrow> (\<forall>f. r (d @ f) = Read (x, f)) \<and> (\<forall>n < length d. r (take n d) = Failed)"

lemma takesD: "takes r d x \<Longrightarrow> r (d @ f) = Read (x, f)" "takes r d x \<Longrightarrow> n < length d \<Longrightarrow> r (take n d) = Failed"
  by (simp_all add: takes_def)

lemma takes_bind:
  assumes "takes r d x" "takes (g x) e y"
  shows "takes (\<lambda>f. readBind (r f) (\<lambda>(x, f'). g x f')) (d @ e) y"
  unfolding takes_def
proof (intro conjI allI impI)
  show "readBind (r ((d @ e) @ f)) (\<lambda>(x, f'). g x f') = Read (y, f)" for f using takesD(1) [OF assms(1)] takesD(1) [OF assms(2)] by simp
  show "readBind (r (take n (d @ e))) (\<lambda>(x, f'). g x f') = Failed" if "n < length (d @ e)" for n
    using takesD(2) [OF assms(1), of n] takesD(1) [OF assms(1), of "take (n - length d) e"] takesD(2) [OF assms(2), of "n - length d"] that
    by (cases "n < length d") auto
qed

lemma takes_done: "takes (\<lambda>f. Read (x, f)) [] x"
  by (simp add: takes_def)

lemma takes_map:
  assumes "takes r d x" "y = g x"
  shows "takes (\<lambda>f. readBind (r f) (\<lambda>(x, f'). Read (g x, f'))) d y"
  using takes_bind [where g = "\<lambda>x f. Read (g x, f)", OF assms(1) takes_done] assms(2) by simp

lemma takes_fread: "d \<noteq> [] \<Longrightarrow> n = length d \<Longrightarrow> n \<le> buffer \<Longrightarrow> takes (fread buffer n) d d"
  by (simp add: takes_def fread_def)

lemma add_or: "a + ucast (b :: 8 word) = a OR ucast b" if "\<And>n. n < 8 \<Longrightarrow> \<not> bit a n" for a :: "32 word"
  using that by (intro disjunctive_add) (auto simp: bit_simps dest: bit_imp_le_length)

lemma bytes_word: "push_bit 8 (push_bit 8 (push_bit 8 (ucast (ucast (drop_bit 24 v) :: 8 word)) + ucast (ucast (drop_bit 16 v) :: 8 word)) +
    ucast (ucast (drop_bit 8 v) :: 8 word)) + ucast (ucast v :: 8 word) = (v :: 32 word)" (is "?l = v")
proof -
  let ?b = "\<lambda>k. ucast (ucast (drop_bit k v) :: 8 word) :: 32 word"
  have "?l = push_bit 8 (push_bit 8 (push_bit 8 (?b 24) OR ?b 16) OR ?b 8) OR ucast (ucast v :: 8 word)"
    by (simp add: add_or bit_simps)
  also have "\<dots> = v"
  proof (rule bit_word_eqI)
    fix n assume n: "n < LENGTH(32)"
    then consider "n < 8" | m where "n = m + 8" "m < 8" | m where "n = m + 16" "m < 8" | m where "n = m + 24" "m < 8"
    proof (atomize_elim)
      have "n < 8 \<or> n = (n - 8) + 8 \<and> n - 8 < 8 \<or> n = (n - 16) + 16 \<and> n - 16 < 8 \<or> n = (n - 24) + 24 \<and> n - 24 < 8" using n by simp arith
      then show "n < 8 \<or> (\<exists>m. n = m + 8 \<and> m < 8) \<or> (\<exists>m. n = m + 16 \<and> m < 8) \<or> (\<exists>m. n = m + 24 \<and> m < 8)" by blast
    qed
    then show "bit (push_bit 8 (push_bit 8 (push_bit 8 (?b 24) OR ?b 16) OR ?b 8) OR ucast (ucast v :: 8 word)) n = bit v n"
      by cases (simp_all add: bit_simps add.commute)
  qed
  finally show ?thesis .
qed

lemma takes_uint32: "takes read_uint32 (write_uint32 v) v"
  unfolding read_uint32_def [abs_def]
proof (rule takes_map)
  show "takes (fread 4 4) (write_uint32 v) (write_uint32 v)" by (rule takes_fread) (simp_all add: write_uint32_def)
qed (simp add: write_uint32_def bytes_word [simplified])

text \<open>
  The lengths that the format can hold: a count or the size of an object fits in 32 bits, and so does
  the size of the buffer for a string with its terminating zero.
\<close>

definition fits32 :: "'a list \<Rightarrow> bool" where
  "fits32 xs \<longleftrightarrow> length xs < 2 ^ 32"

definition fitsString :: "bytes \<Rightarrow> bool" where
  "fitsString s \<longleftrightarrow> length s + 1 < 2 ^ 32"

lemma unat_length: "fits32 xs \<Longrightarrow> unat (word_of_nat (length xs) :: 32 word) = length xs"
  by (simp add: fits32_def unsigned_of_nat take_bit_nat_eq_self)

lemma fitsString_fits32: "fitsString s \<Longrightarrow> fits32 s"
  by (simp add: fitsString_def fits32_def)

lemma unat_buffer: "fitsString s \<Longrightarrow> unat (word_of_nat (length s) + 1 :: 32 word) = length s + 1"
  using unat_length [of "0 # s"] by (simp add: fitsString_def fits32_def add.commute)

lemma write_string_Some: "fitsString s \<Longrightarrow> write_string s = Some d \<longleftrightarrow> s \<noteq> [] \<and> d = write_uint32 (word_of_nat (length s)) @ s"
  by (auto simp: write_string_def Let_def fwrite_def unat_length fitsString_fits32)

lemma takes_string: "fitsString s \<Longrightarrow> write_string s = Some d \<Longrightarrow> takes read_string d s"
  unfolding read_string_def [abs_def] write_string_Some
  by (auto intro!: takes_bind [OF takes_uint32] takes_fread simp: unat_buffer unat_length fitsString_fits32)

lemma takes_object:
  assumes "write_object ob = Some d" "fitsString (oname ob)" "fits32 (obytes ob)"
  shows "takes read_object d ob"
proof -
  obtain n where n: "write_string (oname ob) = Some n" "obytes ob \<noteq> []" "d = n @ write_uint32 (word_of_nat (length (obytes ob))) @ obytes ob"
    using assms(1) by (auto simp: write_object_def fwrite_def bind_eq_Some_conv split: if_splits)
  have "takes (\<lambda>f. readBind (read_uint32 f) (\<lambda>(numBytes, f2). readBind (fread (unat numBytes) (unat numBytes) f2) (\<lambda>(b, f3). Read (\<lparr>oname = oname ob, obytes = b\<rparr>, f3))))
      (write_uint32 (word_of_nat (length (obytes ob))) @ obytes ob) ob"
    by (rule takes_bind, rule takes_uint32, rule takes_map, rule takes_fread) (use n(2) assms(3) in \<open>simp_all add: unat_length\<close>)
  then show ?thesis unfolding read_object_def [abs_def] n(3) by (rule takes_bind [OF takes_string [OF assms(2) n(1)]])
qed

lemma takes_many:
  assumes "\<And>x d. x \<in> set xs \<Longrightarrow> w x = Some d \<Longrightarrow> takes r d x" "writeMany w xs = Some d"
  shows "takes (readMany r (length xs)) d xs"
  using assms
proof (induction xs arbitrary: d)
  case Nil
  then show ?case using takes_done [of "[]"] by simp
next
  case (Cons x xs)
  then obtain a b where d: "w x = Some a" "writeMany w xs = Some b" "d = a @ b" by (auto simp: bind_eq_Some_conv)
  have "takes r a x" "takes (readMany r (length xs)) b xs" using Cons d by auto
  then show ?case unfolding d(3) by (auto intro!: takes_bind takes_map)
qed

lemma writeMany_Some: "(\<exists>d. writeMany w xs = Some d) \<longleftrightarrow> (\<forall>x \<in> set xs. w x \<noteq> None)"
  by (induction xs) (auto simp: bind_eq_Some_conv)

definition representable :: "KTest \<Rightarrow> bool" where
  "representable t \<longleftrightarrow> fits32 (args t) \<and> (\<forall>a \<in> set (args t). fitsString a) \<and> fits32 (ktObjects t) \<and>
     (\<forall>ob \<in> set (ktObjects t). fitsString (oname ob) \<and> fits32 (obytes ob))"

lemma takes_symArgs: "takes (read_symArgs KTEST_VERSION) (write_uint32 a @ write_uint32 l) (a, l)"
proof -
  have v: "(2 :: 32 word) \<le> KTEST_VERSION" by (simp add: KTEST_VERSION_def)
  show ?thesis unfolding read_symArgs_def [abs_def] using v by (auto intro!: takes_bind takes_map takes_uint32)
qed

lemma takes_test:
  assumes t: "representable t" and written: "kTest_toFile t = Some f"
  shows "\<exists>g. f = KTEST_MAGIC @ g \<and> takes read_test g (t\<lparr>version := KTEST_VERSION\<rparr>)"
proof -
  obtain as os where w: "writeMany write_string (args t) = Some as" "writeMany write_object (ktObjects t) = Some os"
      "f = KTEST_MAGIC @ write_uint32 KTEST_VERSION @ write_uint32 (word_of_nat (length (args t))) @ as @
           write_uint32 (symArgvs t) @ write_uint32 (symArgvLen t) @ write_uint32 (word_of_nat (length (ktObjects t))) @ os"
    using written by (auto simp: kTest_toFile_def bind_eq_Some_conv)
  have as: "takes (readMany read_string (unat (word_of_nat (length (args t)) :: 32 word))) as (args t)"
    using takes_many [OF _ w(1), of read_string] t by (auto simp: representable_def takes_string unat_length)
  have os: "takes (readMany read_object (unat (word_of_nat (length (ktObjects t)) :: 32 word))) os (ktObjects t)"
    using takes_many [OF _ w(2), of read_object] t by (auto simp: representable_def takes_object unat_length)
  let ?t = "\<lambda>os. \<lparr>version = KTEST_VERSION, args = args t, symArgvs = symArgvs t, symArgvLen = symArgvLen t, ktObjects = os\<rparr>"
  have "takes (\<lambda>f. readBind (read_uint32 f) (\<lambda>(numObjects, f6). readBind (readMany read_object (unat numObjects) f6) (\<lambda>(os, f7). Read (?t os, f7))))
      (write_uint32 (word_of_nat (length (ktObjects t))) @ os) (?t (ktObjects t))"
    by (rule takes_bind, rule takes_uint32, rule takes_map, rule os) simp
  then have "takes (\<lambda>f. readBind (read_symArgs KTEST_VERSION f) (\<lambda>((argvs, argvLen), f5).
      readBind (read_uint32 f5) (\<lambda>(numObjects, f6). readBind (readMany read_object (unat numObjects) f6) (\<lambda>(os, f7).
        Read (\<lparr>version = KTEST_VERSION, args = args t, symArgvs = argvs, symArgvLen = argvLen, ktObjects = os\<rparr>, f7)))))
      ((write_uint32 (symArgvs t) @ write_uint32 (symArgvLen t)) @ write_uint32 (word_of_nat (length (ktObjects t))) @ os) (?t (ktObjects t))"
    by (intro takes_bind [OF takes_symArgs]) (simp only: prod.case)
  then have "takes read_test (write_uint32 KTEST_VERSION @ write_uint32 (word_of_nat (length (args t))) @ as @
      (write_uint32 (symArgvs t) @ write_uint32 (symArgvLen t)) @ write_uint32 (word_of_nat (length (ktObjects t))) @ os) (?t (ktObjects t))"
    unfolding read_test_def [abs_def]
    by (intro takes_bind [OF takes_uint32]) (simp only: less_irrefl if_False, intro takes_bind [OF takes_uint32] takes_bind [OF as])
  moreover have "?t (ktObjects t) = t\<lparr>version := KTEST_VERSION\<rparr>" by simp
  ultimately show ?thesis using w(3) by auto
qed

lemma header: "kTest_checkHeader (KTEST_MAGIC @ g) = Read g" "n < 5 \<Longrightarrow> kTest_checkHeader (take n f) = Failed"
  by (auto simp: kTest_checkHeader_def fread_def KTEST_MAGIC_def)

section \<open>Properties\<close>

text \<open>
  C39: test files. For a test whose strings with their terminating zero, and whose objects and counts,
  have sizes of 32 bits, writing succeeds exactly when no argument, no name and no object is empty,
  and then reading the file returns the test, with the current version.
\<close>

theorem kTest_roundtrip:
  assumes "representable t"
  shows "(kTest_toFile t \<noteq> None \<longleftrightarrow> (\<forall>a \<in> set (args t). a \<noteq> []) \<and> (\<forall>ob \<in> set (ktObjects t). oname ob \<noteq> [] \<and> obytes ob \<noteq> [])) \<and>
    (\<forall>f. kTest_toFile t = Some f \<longrightarrow> kTest_isKTestFile f \<and> kTest_fromFile f = Read (t\<lparr>version := KTEST_VERSION\<rparr>))"
proof
  have str: "write_string s \<noteq> None \<longleftrightarrow> s \<noteq> []" if "fitsString s" for s using write_string_Some [OF that] by auto
  have "write_object ob \<noteq> None \<longleftrightarrow> oname ob \<noteq> [] \<and> obytes ob \<noteq> []" if "fitsString (oname ob)" for ob
    using str [OF that] by (auto simp: write_object_def fwrite_def)
  then show "kTest_toFile t \<noteq> None \<longleftrightarrow> (\<forall>a \<in> set (args t). a \<noteq> []) \<and> (\<forall>ob \<in> set (ktObjects t). oname ob \<noteq> [] \<and> obytes ob \<noteq> [])"
    using writeMany_Some [of write_string "args t"] writeMany_Some [of write_object "ktObjects t"] str assms
    by (auto simp: kTest_toFile_def bind_eq_Some_conv representable_def)
  show "\<forall>f. kTest_toFile t = Some f \<longrightarrow> kTest_isKTestFile f \<and> kTest_fromFile f = Read (t\<lparr>version := KTEST_VERSION\<rparr>)"
  proof (intro allI impI)
    fix f assume "kTest_toFile t = Some f"
    from takes_test [OF assms this] obtain g where g: "f = KTEST_MAGIC @ g" "takes read_test g (t\<lparr>version := KTEST_VERSION\<rparr>)" by blast
    show "kTest_isKTestFile f \<and> kTest_fromFile f = Read (t\<lparr>version := KTEST_VERSION\<rparr>)"
      using takesD(1) [OF g(2), of "[]"] by (simp add: g(1) kTest_isKTestFile_def kTest_fromFile_def header)
  qed
qed

definition exampleTest :: KTest where
  "exampleTest =
     \<lparr>version = 2, args = [[97, 46, 98, 99]], symArgvs = 0, symArgvLen = 7, ktObjects = [\<lparr>oname = [120], obytes = [1, 0, 255]\<rparr>]\<rparr>"

lemma exampleTest_representable: "representable exampleTest"
  by (simp add: exampleTest_def representable_def fits32_def fitsString_def)

theorem kTest_roundtrip_witness:
  "\<exists>f. kTest_toFile exampleTest = Some f \<and> kTest_fromFile f = Read (exampleTest\<lparr>version := 3\<rparr>)"
  using kTest_roundtrip [OF exampleTest_representable] by (auto simp: exampleTest_def KTEST_VERSION_def)

text \<open>
  C40: a test file that was cut short is rejected: reading any proper prefix of the file of a test
  reports an error and stays within its buffers, and the prefix passes for a test file exactly when it
  holds the magic number.
\<close>

theorem kTest_truncated:
  assumes "representable t" "kTest_toFile t = Some f" "n < length f"
  shows "kTest_fromFile (take n f) = Failed \<and> (kTest_isKTestFile (take n f) \<longleftrightarrow> 5 \<le> n)"
proof -
  from takes_test [OF assms(1,2)] obtain g where g: "f = KTEST_MAGIC @ g" "takes read_test g (t\<lparr>version := KTEST_VERSION\<rparr>)" by blast
  have len: "length KTEST_MAGIC = 5" by (simp add: KTEST_MAGIC_def)
  show ?thesis
  proof (cases "n < 5")
    case True
    then show ?thesis by (simp add: kTest_fromFile_def kTest_isKTestFile_def header(2))
  next
    case False
    then have "take n f = KTEST_MAGIC @ take (n - 5) g" "n - 5 < length g" using assms(3) len by (auto simp: g(1))
    then show ?thesis using False takesD(2) [OF g(2), of "n - 5"] by (simp add: kTest_fromFile_def kTest_isKTestFile_def header(1))
  qed
qed

theorem kTest_truncated_witness: "\<exists>f. kTest_toFile exampleTest = Some f \<and> 20 < length f \<and> kTest_fromFile (take 20 f) = Failed"
proof -
  obtain f where f: "kTest_toFile exampleTest = Some f" "20 < length f"
    by (simp add: exampleTest_def kTest_toFile_def write_object_def write_string_def Let_def fwrite_def write_uint32_def KTEST_MAGIC_def)
  with kTest_truncated [OF exampleTest_representable f] show ?thesis by blast
qed

end
