(* ===== verification/Evaluator.thy ===== *)
theory Evaluator
  imports Visitor
begin

text \<open>
  Evaluation of expressions: the visitor \<open>ExprEvaluator\<close> of \<open>lib/Expr/ExprEvaluator.cpp\<close>, and
  assignments of bytes to arrays (\<open>include/klee/Expr/Assignment.h\<close>, \<open>lib/Expr/Assignment.cpp\<close>),
  which evaluate expressions and decide constraints.
\<close>

section \<open>The evaluator\<close>

text \<open>
  \<open>evalRead\<close> scans the update list for the value at a concrete index; \<open>getInitialValue\<close> is
  the virtual method that gives the initial bytes. An update at an unknown index stops the scan
  with a read of the remaining list.
\<close>

fun evalRead :: "bool \<Rightarrow> (Array \<Rightarrow> int \<Rightarrow> expr) \<Rightarrow> visitFn \<Rightarrow> visited \<Rightarrow> Array \<Rightarrow> (expr \<times> expr) list \<Rightarrow>
    int \<Rightarrow> (expr \<times> visited) result" where
  "evalRead co getInitialValue vf s A [] index =
     Ok (if isConstantArray A \<and> index < int (asize A) then ConstantExpr (constantValues A ! nat index)
         else getInitialValue A index, s)"
| "evalRead co getInitialValue vf s A ((ui, uv) # us) index =
     rbind (vf s ui) (\<lambda>(ui', s1).
       case ui' of
         ConstantExpr CE \<Rightarrow>
           if apValue CE = index then vf s1 uv
           else evalRead co getInitialValue vf s1 A us index
       | _ \<Rightarrow> Ok (ReadExpr_create co (A, (ui, uv) # us) (ConstantExpr (alloc index (adomain A))), s1))"

text \<open>The hook \<open>visitExpr\<close>: a node whose kids are all constant is rebuilt at once, reads apart.\<close>

definition evalVisitExpr :: "bool \<Rightarrow> expr \<Rightarrow> Action result" where
  "evalVisitExpr co e =
     (if getKids e = [] \<or> getKind e = KRead then Ok DoChildren
      else if \<exists>k \<in> set (getKids e). \<not> isConstantExpr k then Ok DoChildren
      else (case rebuild co e (getKids e) of None \<Rightarrow> Abort | Some e' \<Rightarrow> Ok (ChangeTo e')))"

definition visitRead :: "bool \<Rightarrow> (Array \<Rightarrow> int \<Rightarrow> expr) \<Rightarrow> visitFn \<Rightarrow> visited \<Rightarrow> Array \<Rightarrow> (expr \<times> expr) list \<Rightarrow>
    expr \<Rightarrow> (Action \<times> visited) result" where
  "visitRead co getInitialValue vf s A us i =
     rbind (vf s i) (\<lambda>(v, s1).
       case v of
         ConstantExpr CE \<Rightarrow>
           rbind (evalRead co getInitialValue vf s1 A us (apValue CE mod 2 ^ 32)) (\<lambda>(x, s2). Ok (ChangeTo x, s2))
       | _ \<Rightarrow> Ok (DoChildren, s1))"

text \<open>
  Division is protected: a divisor that evaluates to zero is left as it is.
\<close>

definition protectedDivOperation :: "bool \<Rightarrow> visitFn \<Rightarrow> visited \<Rightarrow> kind \<Rightarrow> expr \<Rightarrow> expr \<Rightarrow> (Action \<times> visited) result" where
  "protectedDivOperation co vf s k l r =
     rbind (vf s l) (\<lambda>(kl, s1).
     rbind (vf s1 r) (\<lambda>(kr, s2).
       let kr' = (case kr of ConstantExpr CE \<Rightarrow> if isZero CE then r else kr | _ \<Rightarrow> kr)
       in if kl \<noteq> l \<or> kr' \<noteq> r
          then (case rebuild co (BinaryExpr k l r) [kl, kr'] of None \<Rightarrow> Abort | Some e' \<Rightarrow> Ok (ChangeTo e', s2))
          else Ok (SkipChildren, s2)))"

definition evalVisitNode :: "bool \<Rightarrow> (Array \<Rightarrow> int \<Rightarrow> expr) \<Rightarrow> visitFn \<Rightarrow> visited \<Rightarrow> expr \<Rightarrow> (Action \<times> visited) result" where
  "evalVisitNode co getInitialValue vf s e =
     (case e of
        ReadExpr A us i \<Rightarrow> visitRead co getInitialValue vf s A us i
      | BinaryExpr k l r \<Rightarrow> if isDivKind k then protectedDivOperation co vf s k l r else Ok (DoChildren, s)
      | _ \<Rightarrow> Ok (DoChildren, s))"

definition evalVisitExprPost :: "expr \<Rightarrow> Action" where
  "evalVisitExprPost e = (case e of NotOptimizedExpr src \<Rightarrow> ChangeTo src | _ \<Rightarrow> SkipChildren)"

definition ExprEvaluator :: "bool \<Rightarrow> (Array \<Rightarrow> int \<Rightarrow> expr) \<Rightarrow> visitor" where
  "ExprEvaluator co getInitialValue =
     \<lparr>recursive = False, visitExpr = evalVisitExpr co,
      visitNode = evalVisitNode co getInitialValue, visitExprPost = evalVisitExprPost\<rparr>"

section \<open>Assignments\<close>

text \<open>The bindings are sorted by the address of the array, as in a \<open>std::map\<close> keyed by pointers.\<close>

record Assignment =
  allowFreeValues :: bool
  bindings :: "(Array \<times> int list) list"

definition bindingOf :: "Assignment \<Rightarrow> Array \<Rightarrow> int list option" where
  "bindingOf a A = map_option snd (find (\<lambda>(B, _). address B = address A) (bindings a))"

fun insertBinding :: "Array \<Rightarrow> int list \<Rightarrow> (Array \<times> int list) list \<Rightarrow> (Array \<times> int list) list" where
  "insertBinding A vs [] = [(A, vs)]"
| "insertBinding A vs ((B, ws) # bs) =
     (if address A < address B then (A, vs) # (B, ws) # bs
      else if address A = address B then (B, ws) # bs
      else (B, ws) # insertBinding A vs bs)"

text \<open>The constructor from the objects and values of a solver result; \<open>None\<close> if values are missing.\<close>

fun Assignment_insertAll :: "Array list \<Rightarrow> int list list \<Rightarrow> (Array \<times> int list) list \<Rightarrow> (Array \<times> int list) list option" where
  "Assignment_insertAll [] vs bs = Some bs"
| "Assignment_insertAll (A # As) [] bs = None"
| "Assignment_insertAll (A # As) (v # vs) bs = Assignment_insertAll As vs (insertBinding A v bs)"

definition Assignment_create :: "Array list \<Rightarrow> int list list \<Rightarrow> bool \<Rightarrow> Assignment option" where
  "Assignment_create objects values free =
     map_option (\<lambda>bs. \<lparr>allowFreeValues = free, bindings = bs\<rparr>) (Assignment_insertAll objects values [])"

definition evaluateByte :: "bool \<Rightarrow> Assignment \<Rightarrow> Array \<Rightarrow> int \<Rightarrow> expr" where
  "evaluateByte co a A index =
     (case bindingOf a A of
        Some bytes \<Rightarrow>
          if index < int (length bytes) then ConstantExpr (alloc (bytes ! nat index) (arange A))
          else if allowFreeValues a then ReadExpr_create co (A, []) (ConstantExpr (alloc index (adomain A)))
          else ConstantExpr (alloc 0 (arange A))
      | None \<Rightarrow>
          if allowFreeValues a then ReadExpr_create co (A, []) (ConstantExpr (alloc index (adomain A)))
          else ConstantExpr (alloc 0 (arange A)))"

text \<open>
  \<open>Assignment::evaluate\<close> and \<open>satisfies\<close>. The fuel is the size of the expression; the table of
  visited expressions lives as long as one evaluator, that is for all constraints of one call.
\<close>

definition AssignmentEvaluator :: "bool \<Rightarrow> Assignment \<Rightarrow> visitor" where
  "AssignmentEvaluator co a = ExprEvaluator co (evaluateByte co a)"

definition evalVisit :: "bool \<Rightarrow> bool \<Rightarrow> Assignment \<Rightarrow> visitFn" where
  "evalVisit co h a s e = visit co h (AssignmentEvaluator co a) (Suc (size e)) s e"

definition evaluate :: "bool \<Rightarrow> bool \<Rightarrow> Assignment \<Rightarrow> expr \<Rightarrow> expr result" where
  "evaluate co h a e = rbind (evalVisit co h a [] e) (\<lambda>(r, s). Ok r)"

text \<open>\<open>Expr::isTrue\<close>, which asserts that the width is 1.\<close>

fun isTrueExpr :: "expr \<Rightarrow> bool" where
  "isTrueExpr (ConstantExpr c) = isTrue c"
| "isTrueExpr _ = False"

fun satisfiesFrom :: "bool \<Rightarrow> bool \<Rightarrow> Assignment \<Rightarrow> visited \<Rightarrow> expr list \<Rightarrow> bool result" where
  "satisfiesFrom co h a s [] = Ok True"
| "satisfiesFrom co h a s (e # es) =
     rbind (evalVisit co h a s e) (\<lambda>(r, s1).
       if getWidth r \<noteq> 1 then Abort
       else if \<not> isTrueExpr r then Ok False
       else satisfiesFrom co h a s1 es)"

definition satisfies :: "bool \<Rightarrow> bool \<Rightarrow> Assignment \<Rightarrow> expr list \<Rightarrow> bool result" where
  "satisfies co h a es = satisfiesFrom co h a [] es"

definition createConstraintsFromAssignment :: "bool \<Rightarrow> Assignment \<Rightarrow> expr list" where
  "createConstraintsFromAssignment co a =
     concat (map (\<lambda>(A, values).
       map (\<lambda>i. EqExpr_create co
              (ReadExpr_create co (A, []) (ConstantExpr (alloc (int i) (adomain A))))
              (ConstantExpr (alloc (values ! i) (arange A)))) [0..<asize A]) (bindings a))"

section \<open>The evaluator returns\<close>

lemma evalRead_returns:
  "(\<And>s x. size x \<le> size_list (size_prod size size) us \<Longrightarrow> vf s x \<noteq> OutOfFuel) \<Longrightarrow>
   evalRead co giv vf s A us index \<noteq> OutOfFuel"
proof (induction us arbitrary: s)
  case (Cons u us)
  obtain ui uv where u: "u = (ui, uv)" by (cases u)
  from Cons show ?case
    by (auto simp: u rbind_eq_OutOfFuel split: expr.splits if_splits)
qed simp

interpretation eval_structural: structural_visitor "ExprEvaluator co giv" for co giv
proof unfold_locales
  fix e :: expr and vf :: visitFn and s
  assume "\<And>s x. size x < size e \<Longrightarrow> vf s x \<noteq> OutOfFuel"
  then show "visitNode (ExprEvaluator co giv) vf s e \<noteq> OutOfFuel"
    by (cases e) (auto simp: ExprEvaluator_def evalVisitNode_def visitRead_def protectedDivOperation_def
        rbind_eq_OutOfFuel Let_def evalRead_returns split: expr.splits if_splits option.splits)
qed (auto simp: ExprEvaluator_def evalVisitExpr_def split: option.splits)

section \<open>The evaluator preserves values\<close>

text \<open>The contract of the virtual method \<open>getInitialValue\<close>, under which the evaluator is sound.\<close>

locale initial_values =
  fixes co :: bool and giv :: "Array \<Rightarrow> int \<Rightarrow> expr" and \<Gamma> :: "env \<Rightarrow> bool"
  assumes giv_wf: "wf_array A \<Longrightarrow> fits (adomain A) i \<Longrightarrow> wf_expr (giv A i) \<and> getWidth (giv A i) = arange A"
    and giv_value: "wf_array A \<Longrightarrow> fits (adomain A) i \<Longrightarrow> wf_env co \<sigma> \<Longrightarrow> \<Gamma> \<sigma> \<Longrightarrow> \<sigma> A i = Some v \<Longrightarrow>
      \<not> (isConstantArray A \<and> i < int (asize A)) \<Longrightarrow> sem \<sigma> (giv A i) = Some v"
begin

abbreviation "R \<equiv> refinesOn (\<lambda>\<sigma>. wf_env co \<sigma> \<and> \<Gamma> \<sigma>)"

abbreviation "readAt A us i \<equiv> ReadExpr A us (ConstantExpr (APInt (adomain A) i))"

lemma R_const: "R e (ConstantExpr c) \<Longrightarrow> wf_expr e \<Longrightarrow> wf_env co \<sigma> \<Longrightarrow> \<Gamma> \<sigma> \<Longrightarrow> sem \<sigma> e = Some v \<Longrightarrow> apValue c = v"
  by (auto simp: refinesOn_def)

lemma evalRead_initial:
  "R (readAt A [] i) (if isConstantArray A \<and> i < int (asize A) then ConstantExpr (constantValues A ! nat i) else giv A i)"
proof -
  have "wf_expr (ConstantExpr (constantValues A ! nat i)) \<and> bitWidth (constantValues A ! nat i) = arange A"
    if "isConstantArray A" "i < int (asize A)" "wf_array A" "fits (adomain A) i"
  proof -
    have "constantValues A ! nat i \<in> set (constantValues A)"
      using that by (auto simp: wf_array_def isConstantArray_def fits_def)
    with that(3) show ?thesis by (auto simp: wf_array_def)
  qed
  then show ?thesis
    using giv_wf [of A i] giv_value [of A i] by (auto simp: refinesOn_def initialValue_def wf_const_def)
qed

lemma evalRead_sound:
  assumes "soundFn R vf"
  shows "evalRead co giv vf s A us i = Ok (x, s') \<Longrightarrow> tableOK R s \<Longrightarrow> tableOK R s' \<and> R (readAt A us i) x"
proof (induction us arbitrary: s)
  case Nil
  then show ?case using evalRead_initial [of A i] by auto
next
  case (Cons u us)
  obtain ui uv where u: "u = (ui, uv)" by (cases u)
  from Cons.prems(1) obtain ui' s1 where vf: "vf s ui = Ok (ui', s1)" by (auto simp: u)
  note ui' = soundFnD [OF assms vf Cons.prems(2)]
  show ?case
  proof (cases "isConstantExpr ui'")
    case True
    then obtain CE where CE: "ui' = ConstantExpr CE" by (rule isConstantExprE)
    then have RC: "R ui (ConstantExpr CE)" using ui' by simp
    show ?thesis
    proof (cases "apValue CE = i")
      case True
      with Cons.prems(1) vf CE have uv: "vf s1 uv = Ok (x, s')" by (simp add: u)
      from soundFnD [OF assms uv] ui' have "R uv x" "tableOK R s'" by auto
      moreover have "R (readAt A ((ui, uv) # us) i) uv"
        using True R_const [OF RC]
        by (auto simp: refinesOn_def Option.bind_eq_Some_conv split: if_splits)
      ultimately show ?thesis using refinesOn_trans u by blast
    next
      case False
      with Cons.prems(1) vf CE have "evalRead co giv vf s1 A us i = Ok (x, s')" by (simp add: u)
      from Cons.IH [OF this] ui' have "tableOK R s'" "R (readAt A us i) x" by auto
      moreover have "R (readAt A ((ui, uv) # us) i) (readAt A us i)"
        using False R_const [OF RC]
        by (auto simp: refinesOn_def Option.bind_eq_Some_conv split: if_splits)
      ultimately show ?thesis using refinesOn_trans u by blast
    qed
  next
    case False
    with Cons.prems(1) vf have x: "x = ReadExpr_create co (A, u # us) (ConstantExpr (alloc i (adomain A)))" "s' = s1"
      by (auto simp: u split: expr.splits)
    have "R (readAt A (u # us) i) x"
    proof (cases "fits (adomain A) i")
      case True
      then have "alloc i (adomain A) = APInt (adomain A) i" by (simp add: alloc_def fits_mod_eq)
      then show ?thesis
        unfolding x(1) by (simp only:) (rule refines_imp_refinesOn [OF ReadExpr_create_sound], simp)
    qed (simp add: refinesOn_def wf_const_def)
    with ui' x(2) show ?thesis by simp
  qed
qed

lemma visitRead_sound:
  assumes "soundFn R vf" "tableOK R s" "visitRead co giv vf s A us i = Ok (act, s')"
  shows "tableOK R s' \<and> (\<forall>x. act = ChangeTo x \<longrightarrow> R (ReadExpr A us i) x)"
proof -
  from assms(3) obtain v s1 where vf: "vf s i = Ok (v, s1)" by (auto simp: visitRead_def)
  note v = soundFnD [OF assms(1) vf assms(2)]
  show ?thesis
  proof (cases "isConstantExpr v")
    case True
    then obtain CE where CE: "v = ConstantExpr CE" by (rule isConstantExprE)
    with assms(3) vf obtain x where x: "evalRead co giv vf s1 A us (apValue CE mod 2 ^ 32) = Ok (x, s')" "act = ChangeTo x"
      by (auto simp: visitRead_def)
    from evalRead_sound [OF assms(1) x(1)] v have "tableOK R s'" and Rx: "R (readAt A us (apValue CE mod 2 ^ 32)) x"
      by auto
    moreover have "R (ReadExpr A us i) (readAt A us (apValue CE mod 2 ^ 32))"
    proof (cases "wf_expr (ReadExpr A us i)")
      case True
      then have "wf_const CE" "bitWidth CE = adomain A" "adomain A \<le> 32"
        using v CE by (auto simp: refinesOn_def wf_array_def)
      then have "fits 32 (apValue CE)" by (auto simp: wf_const_def intro: fits_mono)
      from fits_mod_eq [OF this] \<open>bitWidth CE = adomain A\<close>
      have "APInt (adomain A) (apValue CE mod 2 ^ 32) = CE" by (metis apint.exhaust_sel)
      moreover have "R (ReadExpr A us i) (ReadExpr A us (ConstantExpr CE))"
        by (rule withKids_refinesOn [where kids = "[ConstantExpr CE]"]) (use v CE in simp_all)
      ultimately show ?thesis by simp
    qed (simp add: refinesOn_def del: wf_expr.simps)
    ultimately show ?thesis using x(2) refinesOn_trans by blast
  next
    case False
    with assms(3) vf v show ?thesis by (auto simp: visitRead_def split: expr.splits)
  qed
qed

lemma protectedDivOperation_sound:
  assumes "soundFn R vf" "tableOK R s" "protectedDivOperation co vf s k l r = Ok (act, s')"
  shows "tableOK R s' \<and> (\<forall>x. act = ChangeTo x \<longrightarrow> R (BinaryExpr k l r) x)"
proof -
  from assms(3) obtain kl s1 kr where l: "vf s l = Ok (kl, s1)" and r: "vf s1 r = Ok (kr, s')"
    by (auto simp: protectedDivOperation_def Let_def split: if_splits option.splits)
  define kr' where "kr' = (case kr of ConstantExpr CE \<Rightarrow> if isZero CE then r else kr | _ \<Rightarrow> kr)"
  have "R l kl" "tableOK R s1" using soundFnD [OF assms(1) l assms(2)] by auto
  moreover from soundFnD [OF assms(1) r] this(2) have "R r kr" "tableOK R s'" by auto
  moreover from this(1) have "R r kr'" by (auto simp: kr'_def split: expr.splits)
  ultimately have "list_all2 R (getKids (BinaryExpr k l r)) [kl, kr']" by simp
  then have "rebuild co (BinaryExpr k l r) [kl, kr'] = Some x \<Longrightarrow> R (BinaryExpr k l r) x" for x
    by (rule rebuild_refinesOn [rotated]) auto
  with \<open>tableOK R s'\<close> assms(3) show ?thesis
    by (auto simp: protectedDivOperation_def l r kr'_def [symmetric] split: if_splits option.splits)
qed

end

sublocale initial_values \<subseteq> evaluator: sound_visitor co R "ExprEvaluator co giv"
proof unfold_locales
  fix e x
  assume "visitExpr (ExprEvaluator co giv) e = Ok (ChangeTo x)"
  then have "rebuild co e (getKids e) = Some x"
    by (auto simp: ExprEvaluator_def evalVisitExpr_def split: if_splits option.splits)
  then show "R e x" by (rule rebuild_refinesOn) (auto simp: list_all2_refl)
next
  fix vf s e act s'
  assume *: "soundFn R vf" "tableOK R s" "visitNode (ExprEvaluator co giv) vf s e = Ok (act, s')"
  show "tableOK R s' \<and> (\<forall>x. act = ChangeTo x \<longrightarrow> R e x)"
  proof (cases e)
    case (ReadExpr A us i)
    with *(3) visitRead_sound [OF *(1,2), of A us i] show ?thesis
      by (simp add: ExprEvaluator_def evalVisitNode_def)
  next
    case (BinaryExpr k l r)
    with *(2,3) protectedDivOperation_sound [OF *(1,2), of k l r] show ?thesis
      by (simp add: ExprEvaluator_def evalVisitNode_def split: if_splits)
  qed (use *(2,3) in \<open>simp_all add: ExprEvaluator_def evalVisitNode_def\<close>)
next
  fix e x
  assume "visitExprPost (ExprEvaluator co giv) e = ChangeTo x"
  then show "R e x"
    by (cases e) (simp_all add: ExprEvaluator_def evalVisitExprPost_def refinesOn_def)
qed

end
