(* ===== verification/ExprUtil.thy ===== *)
theory ExprUtil
  imports ExprModel
begin

text \<open>
  The traversals of \<open>lib/Expr/ExprUtil.cpp\<close>: the reads of an expression, and the symbolic and the
  constant arrays it refers to. The value of an expression depends on the bytes its reads name only.
\<close>

section \<open>Definitions\<close>

text \<open>
  \<open>findReads\<close> works on a stack, the top of which is the head of the list, and remembers the
  expressions it has pushed. \<open>updates\<close> holds the update lists it has walked through; the code
  remembers the address of their first node, and a second walk over an equal list at another address
  pushes nothing.
\<close>

definition push :: "expr \<Rightarrow> expr list \<times> expr list \<Rightarrow> expr list \<times> expr list" where
  "push k vs =
     (case vs of (visited, stack) \<Rightarrow>
        if \<not> isConstantExpr k \<and> k \<notin> set visited then (k # visited, k # stack) else (visited, stack))"

fun pushUpdates :: "(expr \<times> expr) list \<Rightarrow> expr list \<times> expr list \<Rightarrow> expr list \<times> expr list" where
  "pushUpdates [] vs = vs"
| "pushUpdates ((index, v) # un) vs = pushUpdates un (push v (push index vs))"

lemma push_sum: "sum_list (map size (snd (push k vs))) \<le> size k + sum_list (map size (snd vs))"
  by (simp add: push_def split: prod.splits)

lemma fold_push_sum: "sum_list (map size (snd (fold push ks vs))) \<le> sum_list (map size ks) + sum_list (map size (snd vs))"
proof (induction ks arbitrary: vs)
  case (Cons k ks)
  from Cons [of "push k vs"] push_sum [of k vs] show ?case by simp
qed simp

lemma pushUpdates_sum:
  "sum_list (map size (snd (pushUpdates us vs))) \<le> size_list (size_prod size size) us + sum_list (map size (snd vs))"
proof (induction us vs rule: pushUpdates.induct)
  case (2 index v un vs)
  with push_sum [of v "push index vs"] push_sum [of index vs] show ?case by simp
qed simp

lemma kids_sum: "\<not> isConstantExpr e \<Longrightarrow> sum_list (map size (getKids e)) < size e"
  by (cases e) auto

lemma kids_pushed: "\<not> isConstantExpr e \<Longrightarrow> sum_list (map size (snd (fold push (getKids e) (visited, stack)))) < size e + sum_list (map size stack)"
  using fold_push_sum [of "getKids e" "(visited, stack)"] kids_sum [of e] by simp

text \<open>\<open>dyn_cast<ReadExpr>\<close>\<close>

fun asRead :: "expr \<Rightarrow> (Array \<times> (expr \<times> expr) list \<times> expr) option" where
  "asRead (ReadExpr A us index) = Some (A, us, index)"
| "asRead e = None"

lemma asRead_Some [simp]: "asRead e = Some (A, us, index) \<longleftrightarrow> e = ReadExpr A us index"
  by (cases e) auto

lemma read_pushed:
  "sum_list (map size (snd (pushUpdates us (push index (visited, stack))))) < Suc (size_list (size_prod size size) us + size index + sum_list (map size stack))"
  "sum_list (map size (snd (push index (visited, stack)))) < Suc (size_list (size_prod size size) us + size index + sum_list (map size stack))"
  using pushUpdates_sum [of us "push index (visited, stack)"] push_sum [of index "(visited, stack)"] by simp_all

function findReadsLoop :: "bool \<Rightarrow> expr list \<times> expr list \<Rightarrow> (expr \<times> expr) list list \<Rightarrow> expr list \<Rightarrow> expr list" where
  "findReadsLoop visitUpdates (visited, []) updates results = results"
| "findReadsLoop visitUpdates (visited, e # stack) updates results =
     (case asRead e of
        Some (A, us, index) \<Rightarrow>
          if visitUpdates \<and> us \<notin> set updates
          then findReadsLoop visitUpdates (pushUpdates us (push index (visited, stack))) (us # updates) (results @ [e])
          else findReadsLoop visitUpdates (push index (visited, stack)) updates (results @ [e])
      | None \<Rightarrow>
          if isConstantExpr e then findReadsLoop visitUpdates (visited, stack) updates results
          else findReadsLoop visitUpdates (fold push (getKids e) (visited, stack)) updates results)"
  by pat_completeness auto
termination
  by (relation "measures [\<lambda>(b, vs, updates, results). sum_list (map size (snd vs)), \<lambda>(b, vs, updates, results). length (snd vs)]")
    (auto simp: read_pushed kids_pushed)

definition findReads :: "expr \<Rightarrow> bool \<Rightarrow> expr list" where
  "findReads e visitUpdates =
     (if isConstantExpr e then [] else findReadsLoop visitUpdates ([e], [e]) [] [])"

lemma kids_weight: "\<not> isConstantExpr e \<Longrightarrow> 6 * sum_list (map size (getKids e)) + 2 * length (getKids e) < Suc (6 * size e)"
  by (cases e) auto

text \<open>
  The visitors \<open>SymbolicObjectFinder\<close> and \<open>ConstantArrayFinder\<close>: \<open>hash\<close> is the option to remember
  visited expressions, \<open>wanted\<close> tells which arrays are collected. A read visits its updates first, then
  records its array, then visits its index; every other expression visits its kids.
\<close>

function visitArrays :: "bool \<Rightarrow> (Array \<Rightarrow> bool) \<Rightarrow> expr \<Rightarrow> expr list \<times> Array list \<Rightarrow> expr list \<times> Array list"
  and visitArraysList :: "bool \<Rightarrow> (Array \<Rightarrow> bool) \<Rightarrow> expr list \<Rightarrow> expr list \<times> Array list \<Rightarrow> expr list \<times> Array list"
  and visitArraysUpdates :: "bool \<Rightarrow> (Array \<Rightarrow> bool) \<Rightarrow> (expr \<times> expr) list \<Rightarrow> expr list \<times> Array list \<Rightarrow> expr list \<times> Array list" where
  "visitArrays hash wanted e s =
     (if isConstantExpr e \<or> hash \<and> e \<in> set (fst s) then s
      else
        let (visited, objects) =
          (case asRead e of
             Some (A, us, index) \<Rightarrow>
               (let (visited, objects) = visitArraysUpdates hash wanted us s
                in visitArrays hash wanted index
                     (visited, if wanted A \<and> A \<notin> set objects then objects @ [A] else objects))
           | None \<Rightarrow> visitArraysList hash wanted (getKids e) s)
        in (if hash then e # visited else visited, objects))"
| "visitArraysList hash wanted [] s = s"
| "visitArraysList hash wanted (k # ks) s = visitArraysList hash wanted ks (visitArrays hash wanted k s)"
| "visitArraysUpdates hash wanted [] s = s"
| "visitArraysUpdates hash wanted ((index, v) # un) s =
     visitArraysUpdates hash wanted un (visitArrays hash wanted v (visitArrays hash wanted index s))"
  by pat_completeness auto
termination
  by (relation "measure (\<lambda>x. case x of Inl (h, w, e, s) \<Rightarrow> 6 * size e + 1
      | Inr (Inl (h, w, ks, s)) \<Rightarrow> 6 * sum_list (map size ks) + 2 * length ks
      | Inr (Inr (h, w, us, s)) \<Rightarrow> 6 * size_list (size_prod size size) us)") (auto simp: kids_weight)

definition findSymbolicObjects :: "bool \<Rightarrow> expr list \<Rightarrow> Array list \<Rightarrow> Array list" where
  "findSymbolicObjects hash es results = results @ snd (visitArraysList hash isSymbolicArray es ([], []))"

definition ConstantArrayFinder :: "bool \<Rightarrow> expr \<Rightarrow> Array list" where
  "ConstantArrayFinder hash e = snd (visitArrays hash isConstantArray e ([], []))"

section \<open>All reads are found\<close>

text \<open>
  A set of expressions that is closed: it has the kids of its members and, for a read, the indices
  and values of its updates; and the reads in it are among the results.
\<close>

definition within :: "expr set \<Rightarrow> expr \<Rightarrow> bool" where
  "within V e \<longleftrightarrow> isConstantExpr e \<or> e \<in> V"

definition updatesIn :: "expr set \<Rightarrow> (expr \<times> expr) list \<Rightarrow> bool" where
  "updatesIn V us \<longleftrightarrow> (\<forall>p \<in> set us. within V (fst p) \<and> within V (snd p))"

definition closedAt :: "expr set \<Rightarrow> expr list \<Rightarrow> expr \<Rightarrow> bool" where
  "closedAt V results e \<longleftrightarrow>
     (case asRead e of
        Some (A, us, index) \<Rightarrow> e \<in> set results \<and> within V index \<and> updatesIn V us
      | None \<Rightarrow> \<forall>k \<in> set (getKids e). within V k)"

lemma within_mono: "within V e \<Longrightarrow> V \<subseteq> W \<Longrightarrow> within W e"
  by (auto simp: within_def)

lemma updatesIn_mono: "updatesIn V us \<Longrightarrow> V \<subseteq> W \<Longrightarrow> updatesIn W us"
  by (auto simp: updatesIn_def intro: within_mono)

lemma closedAt_mono: "closedAt V rs e \<Longrightarrow> V \<subseteq> W \<Longrightarrow> set rs \<subseteq> set rs' \<Longrightarrow> closedAt W rs' e"
  unfolding closedAt_def by (auto split: option.splits intro: within_mono updatesIn_mono)

lemma push_visited:
  "set (fst (push k vs)) = (if isConstantExpr k then set (fst vs) else insert k (set (fst vs)))"
  "set (fst vs) - set (snd vs) \<subseteq> X \<Longrightarrow> set (fst (push k vs)) - set (snd (push k vs)) \<subseteq> X"
  by (auto simp: push_def split: prod.splits)

lemma push_within: "within (set (fst (push k vs))) k"
  by (simp add: within_def push_visited)

lemma fold_push_visited:
  "set (fst vs) \<subseteq> set (fst (fold push ks vs))" "\<forall>k \<in> set ks. within (set (fst (fold push ks vs))) k"
  "set (fst vs) - set (snd vs) \<subseteq> X \<Longrightarrow> set (fst (fold push ks vs)) - set (snd (fold push ks vs)) \<subseteq> X"
proof (induction ks arbitrary: vs)
  case (Cons k ks)
  { case 1
    show ?case using Cons(1) [of "push k vs"] push_visited(1) [of k vs] by (auto split: if_splits)
  next
    case 2
    show ?case using Cons(2) [of "push k vs"] within_mono [OF push_within Cons(1)] by simp
  next
    case 3
    then show ?case using Cons(3) [OF push_visited(2)] by simp }
qed simp_all

lemma pushUpdates_fold: "pushUpdates us = fold push (concat (map (\<lambda>(i, v). [i, v]) us))"
proof
  show "pushUpdates us vs = fold push (concat (map (\<lambda>(i, v). [i, v]) us)) vs" for vs
    by (induction us vs rule: pushUpdates.induct) auto
qed

lemma pushUpdates_within: "updatesIn (set (fst (pushUpdates us vs))) us"
  using fold_push_visited(2) [of "concat (map (\<lambda>(i, v). [i, v]) us)" vs]
  by (force simp: updatesIn_def pushUpdates_fold)

text \<open>The expressions that have been taken off the stack are closed.\<close>

definition popped :: "expr list \<times> expr list \<Rightarrow> (expr \<times> expr) list list \<Rightarrow> expr list \<Rightarrow> bool" where
  "popped vs updates results \<longleftrightarrow>
     (\<forall>x \<in> set (fst vs) - set (snd vs). closedAt (set (fst vs)) results x) \<and>
     (\<forall>us \<in> set updates. updatesIn (set (fst vs)) us)"

lemma popped_push:
  assumes p: "popped (visited, e # stack) updates results" and rs: "set results \<subseteq> set results'"
    and e: "closedAt (set (fst (fold push ks (visited, stack)))) results' e"
    and us: "\<forall>us \<in> set updates' - set updates. updatesIn (set (fst (fold push ks (visited, stack)))) us"
  shows "popped (fold push ks (visited, stack)) updates' results'"
proof -
  let ?vs = "fold push ks (visited, stack)"
  have sub: "set visited \<subseteq> set (fst ?vs)" using fold_push_visited(1) [of "(visited, stack)" ks] by simp
  have rest: "set (fst ?vs) - set (snd ?vs) \<subseteq> insert e (set visited - set (e # stack))"
    by (rule fold_push_visited(3)) auto
  have "closedAt (set (fst ?vs)) results' x" if "x \<in> set (fst ?vs) - set (snd ?vs)" for x
  proof (cases "x = e")
    case False
    then have "closedAt (set visited) results x" using p rest that by (auto simp: popped_def)
    then show ?thesis by (rule closedAt_mono [OF _ sub rs])
  qed (use e in simp)
  moreover have "updatesIn (set (fst ?vs)) u" if "u \<in> set updates'" for u
    using us that p updatesIn_mono [OF _ sub, of u] by (cases "u \<in> set updates") (auto simp: popped_def)
  ultimately show ?thesis by (simp add: popped_def)
qed

lemma findReadsLoop_closed:
  assumes "popped vs updates results" "visitUpdates"
  shows "\<exists>V. set (fst vs) \<subseteq> V \<and> (\<forall>x \<in> V. closedAt V (findReadsLoop visitUpdates vs updates results) x)"
  using assms
proof (induction visitUpdates vs updates results rule: findReadsLoop.induct)
  case (1 b visited updates results)
  then show ?case by (intro exI [of _ "set visited"]) (simp add: popped_def)
next
  case (2 b visited e stack updates results)
  have mono: "(\<exists>V. set (fst (fold push ks (visited, stack))) \<subseteq> V \<and> P V) \<Longrightarrow> \<exists>V. set (fst (visited, e # stack)) \<subseteq> V \<and> P V" for ks P
    using fold_push_visited(1) [of "(visited, stack)" ks] by auto
  show ?case
  proof (cases "asRead e")
    case None
    show ?thesis
    proof (cases "isConstantExpr e")
      case True
      have "closedAt V results e" for V using True by (cases e) (simp_all add: closedAt_def)
      then have "popped (fold push [] (visited, stack)) updates results" by (intro popped_push [OF 2(5)]) simp_all
      with 2(1) [OF None True] mono [of "[]"] 2(6) None True show ?thesis by simp
    next
      case False
      let ?vs = "fold push (getKids e) (visited, stack)"
      have "popped ?vs updates results"
        by (rule popped_push [OF 2(5)]) (use fold_push_visited(2) None in \<open>simp_all add: closedAt_def\<close>)
      with 2(2) [OF None False] mono [of "getKids e"] 2(6) None False show ?thesis by simp
    qed
  next
    case (Some r)
    then obtain A us index where r: "r = (A, us, index)" "e = ReadExpr A us index" by (cases r) auto
    define ks where "ks = (if us \<notin> set updates then index # concat (map (\<lambda>(i, v). [i, v]) us) else [index])"
    let ?vs = "fold push ks (visited, stack)" and ?ups = "if us \<notin> set updates then us # updates else updates"
    have vs: "?vs = (if us \<notin> set updates then pushUpdates us (push index (visited, stack)) else push index (visited, stack))"
      by (simp add: ks_def pushUpdates_fold)
    have in_us: "updatesIn (set (fst ?vs)) us"
    proof (cases "us \<in> set updates")
      case True
      then have "updatesIn (set visited) us" using 2(5) by (simp add: popped_def)
      then show ?thesis by (rule updatesIn_mono) (use fold_push_visited(1) [of "(visited, stack)" ks] in simp)
    qed (use pushUpdates_within vs in simp)
    have "within (set (fst ?vs)) index" using fold_push_visited(2) [of ks "(visited, stack)"] by (simp add: ks_def split: if_splits)
    with in_us have "popped ?vs ?ups (results @ [e])"
      by (intro popped_push [OF 2(5)]) (auto simp: closedAt_def r(2))
    with 2(3,4) [OF Some r(1) [symmetric] refl] mono [of ks] 2(6) Some r vs show ?thesis by (auto split: if_splits)
  qed
qed

lemma findReads_closed:
  "\<exists>V. within V e \<and> (\<forall>x \<in> V. closedAt V (findReads e True) x)"
proof (cases "isConstantExpr e")
  case False
  have "popped ([e], [e]) [] []" by (simp add: popped_def)
  from findReadsLoop_closed [OF this] False show ?thesis by (auto simp: findReads_def within_def)
qed (auto simp: within_def)

text \<open>What holds of an expression and is inherited by its parts holds of the reads found in it.\<close>

lemma fold_push_stack: "set (snd (fold push ks vs)) \<subseteq> set (snd vs) \<union> set ks"
proof (induction ks arbitrary: vs)
  case (Cons k ks)
  have "set (snd (push k vs)) \<subseteq> insert k (set (snd vs))" by (auto simp: push_def split: prod.splits)
  with Cons [of "push k vs"] show ?case by auto
qed simp

lemma findReadsLoop_inherits:
  assumes kids: "\<And>x k. P x \<Longrightarrow> k \<in> set (getKids x) \<Longrightarrow> P k"
    and ups: "\<And>A us index p. P (ReadExpr A us index) \<Longrightarrow> p \<in> set us \<Longrightarrow> P (fst p) \<and> P (snd p)"
  shows "\<forall>x \<in> set (snd vs) \<union> set results. P x \<Longrightarrow> \<forall>x \<in> set (findReadsLoop visitUpdates vs updates results). P x"
proof (induction visitUpdates vs updates results rule: findReadsLoop.induct)
  case (2 b visited e stack updates results)
  have P: "\<forall>x \<in> set (snd (fold push ks (visited, stack))) \<union> set rs. P x" if "\<forall>k \<in> set ks. P k" "\<forall>x \<in> set rs. P x" for ks rs
    using 2(5) fold_push_stack [of ks "(visited, stack)"] that by auto
  show ?case
  proof (cases "asRead e")
    case None
    have rs: "\<forall>x \<in> set results. P x" and ks: "\<forall>k \<in> set (getKids e). P k" using kids 2(5) by auto
    show ?thesis
    proof (cases "isConstantExpr e")
      case True
      from 2(1) [OF None True] P [OF _ rs, of "[]"] show ?thesis using None True by simp
    next
      case False
      from 2(2) [OF None False P [OF ks rs]] show ?thesis using None False by simp
    qed
  next
    case (Some r)
    then obtain A us index where r: "r = (A, us, index)" "e = ReadExpr A us index" by (cases r) auto
    have e: "P e" using 2(5) by simp
    have "P index" "\<forall>p \<in> set us. P (fst p) \<and> P (snd p)" using kids [of e index] ups [of A us index] e r(2) by auto
    then have ks: "\<forall>k \<in> set (index # concat (map (\<lambda>(i, v). [i, v]) us)). P k" "\<forall>k \<in> set [index]. P k" by auto
    have rs: "\<forall>x \<in> set (results @ [e]). P x" using 2(5) by auto
    show ?thesis
    proof (cases "b \<and> us \<notin> set updates")
      case True
      from 2(3) [OF Some r(1) [symmetric] refl True] P [OF ks(1) rs] show ?thesis using Some r True by (simp add: pushUpdates_fold)
    next
      case False
      from 2(4) [OF Some r(1) [symmetric] refl False] P [OF ks(2) rs] show ?thesis using Some r False by (simp only: findReadsLoop.simps option.case prod.case if_False) simp
    qed
  qed
qed simp

lemma findReads_wf: "wf_expr e \<Longrightarrow> x \<in> set (findReads e b) \<Longrightarrow> wf_expr x"
proof -
  assume e: "wf_expr e" and x: "x \<in> set (findReads e b)"
  have "wf_expr y \<Longrightarrow> k \<in> set (getKids y) \<Longrightarrow> wf_expr k" for y k by (cases y) auto
  moreover have "wf_expr (ReadExpr A us index) \<Longrightarrow> p \<in> set us \<Longrightarrow> wf_expr (fst p) \<and> wf_expr (snd p)" for A us index p by fastforce
  ultimately show ?thesis
  proof -
    assume parts: "\<And>y k. wf_expr y \<Longrightarrow> k \<in> set (getKids y) \<Longrightarrow> wf_expr k"
      "\<And>A us index p. wf_expr (ReadExpr A us index) \<Longrightarrow> p \<in> set us \<Longrightarrow> wf_expr (fst p) \<and> wf_expr (snd p)"
    have "\<forall>x \<in> set (findReadsLoop b ([e], [e]) [] []). wf_expr x"
      by (rule findReadsLoop_inherits [OF parts]) (use e in simp_all)
    with x show ?thesis by (simp add: findReads_def split: if_splits)
  qed
qed

section \<open>The value depends on the reads\<close>

text \<open>
  Two environments agree on a read of an array: at its index when it is constant, everywhere
  otherwise. A constant array without updates is not looked up in the environment within its bounds.
\<close>

definition readAgrees :: "env \<Rightarrow> env \<Rightarrow> expr \<Rightarrow> bool" where
  "readAgrees \<sigma> \<tau> e \<longleftrightarrow>
     (case asRead e of
        Some (A, us, index) \<Rightarrow>
          isConstantArray A \<and> us = [] \<or>
          (case index of ConstantExpr c \<Rightarrow> \<sigma> A (apValue c) = \<tau> A (apValue c) | _ \<Rightarrow> \<forall>i. \<sigma> A i = \<tau> A i)
      | None \<Rightarrow> True)"

lemma initialValue_agree:
  assumes "wf_env True \<sigma>" "wf_env True \<tau>" "isConstantArray A \<or> \<sigma> A i = \<tau> A i"
  shows "initialValue \<sigma> A i = initialValue \<tau> A i"
  using assms by (auto simp: initialValue_def wf_env_def)

lemma sem_kids_agree:
  assumes "asRead e = None" "\<forall>k \<in> set (getKids e). sem \<sigma> k = sem \<tau> k"
  shows "sem \<sigma> e = sem \<tau> e"
  using assms by (cases e) simp_all

lemma semRead_agree:
  assumes "\<forall>p \<in> set us. sem \<sigma> (fst p) = sem \<tau> (fst p) \<and> sem \<sigma> (snd p) = sem \<tau> (snd p)" "initialValue \<sigma> A i = initialValue \<tau> A i"
  shows "semRead \<sigma> A us i = semRead \<tau> A us i"
  using assms by (induction us) (auto intro!: Option.bind_cong)

lemma sem_agree:
  assumes V: "\<And>x. x \<in> V \<Longrightarrow> closedAt V results x" and r: "\<And>x. x \<in> set results \<Longrightarrow> readAgrees \<sigma> \<tau> x"
    and wf: "wf_env True \<sigma>" "wf_env True \<tau>"
  shows "within V e \<Longrightarrow> sem \<sigma> e = sem \<tau> e"
proof (induction "size e" arbitrary: e rule: less_induct)
  case less
  show ?case
  proof (cases "isConstantExpr e")
    case True
    then show ?thesis by (rule isConstantExprE) simp
  next
    case False
    with less(2) V have c: "closedAt V results e" by (simp add: within_def)
    show ?thesis
    proof (cases "asRead e")
      case None
      have "sem \<sigma> k = sem \<tau> k" if "k \<in> set (getKids e)" for k
        using less(1) [of k] c None that kids_sum [OF False] member_le_sum_list [of "size k" "map size (getKids e)"]
        by (fastforce simp: closedAt_def)
      then show ?thesis by (intro sem_kids_agree [OF None]) blast
    next
      case (Some x)
      then obtain A us index where e: "e = ReadExpr A us index" by (cases x) auto
      have ok: "readAgrees \<sigma> \<tau> e" "within V index" "updatesIn V us" using c r by (simp_all add: closedAt_def e)
      have idx: "sem \<sigma> index = sem \<tau> index" using less(1) [OF _ ok(2)] by (simp add: e)
      have us: "sem \<sigma> (fst p) = sem \<tau> (fst p) \<and> sem \<sigma> (snd p) = sem \<tau> (snd p)" if p: "p \<in> set us" for p
        using less(1) [of "fst p"] less(1) [of "snd p"] ok(3) p size_list_estimation' [OF p, of "size_prod size size p" "size_prod size size"]
        by (cases p) (force simp: e updatesIn_def)
      have "semRead \<sigma> A us i = semRead \<tau> A us i" if "sem \<sigma> index = Some i" for i
      proof (rule semRead_agree)
        show "initialValue \<sigma> A i = initialValue \<tau> A i"
          using ok(1) initialValue_agree [OF wf, of A i] that by (cases index) (auto simp: readAgrees_def e)
      qed (use us in blast)
      then show ?thesis using idx unfolding e by (cases "sem \<sigma> index") (simp_all, metis bind.bind_lunit)
    qed
  qed
qed

end
