(* ===== verification/SeedInfo.thy ===== *)
theory SeedInfo
  imports KTest TimingSolver Evaluator ExprUtil
begin

text \<open>
  Seeds (\<open>lib/Core/SeedInfo.h\<close>, \<open>lib/Core/SeedInfo.cpp\<close>): inputs given to an execution, with the
  assignment of bytes to the arrays made so far. A seed that violates a new path constraint is patched
  with values of the solver. A failure of the solver is a failed assertion.
\<close>

section \<open>Definitions\<close>

record SeedInfo =
  assignment :: Assignment
  input :: KTest
  inputPosition :: nat
  used :: "nat set"

definition SeedInfo_new :: "KTest \<Rightarrow> SeedInfo" where
  "SeedInfo_new inp = \<lparr>assignment = \<lparr>allowFreeValues = True, bindings = []\<rparr>, input = inp, inputPosition = 0, used = {}\<rparr>"

text \<open>
  The object of the test for a memory object with a name and a size, by its number: by name, then the
  first unused one if its size fits, or by position.
\<close>

definition getNextInput :: "bytes \<Rightarrow> nat \<Rightarrow> bool \<Rightarrow> SeedInfo \<Rightarrow> nat option \<times> SeedInfo" where
  "getNextInput nam sz byName si =
     (let obs = ktObjects (input si); n = length obs
      in if byName then
           (case find (\<lambda>i. oname (obs ! i) = nam \<and> i \<notin> used si) [0..<n] of
              Some i \<Rightarrow> (Some i, si\<lparr>used := insert i (used si)\<rparr>)
            | None \<Rightarrow>
                (case find (\<lambda>i. i \<notin> used si) [0..<n] of
                   Some i \<Rightarrow> if length (obytes (obs ! i)) = sz then (Some i, si\<lparr>used := insert i (used si)\<rparr>) else (None, si)
                 | None \<Rightarrow> (None, si)))
         else if inputPosition si \<ge> n then (None, si)
         else (Some (inputPosition si), si\<lparr>inputPosition := inputPosition si + 1\<rparr>))"

subsection \<open>Patching\<close>

definition setByte :: "Array \<Rightarrow> nat \<Rightarrow> int \<Rightarrow> Assignment \<Rightarrow> Assignment" where
  "setByte A i v a = a\<lparr>bindings := map (\<lambda>(B, vals). (B, if address B = address A then vals[i := v] else vals)) (bindings a)\<rparr>"

definition readOf :: "bool \<Rightarrow> Array \<Rightarrow> nat \<Rightarrow> expr" where
  "readOf co A i = ReadExpr_create co (A, []) (ConstantExpr (alloc (int i) 32))"

text \<open>The reads of a constraint with a constant index, ordered by the address of the array and the index.\<close>

fun insertRead :: "Array \<times> nat \<Rightarrow> (Array \<times> nat) list \<Rightarrow> (Array \<times> nat) list" where
  "insertRead p [] = [p]"
| "insertRead p (x # xs) =
     (if (address (fst p), snd p) = (address (fst x), snd x) then x # xs
      else if address (fst p) < address (fst x) \<or> address (fst p) = address (fst x) \<and> snd p < snd x then p # x # xs
      else x # insertRead p xs)"

fun directReads :: "expr list \<Rightarrow> (Array \<times> nat) list \<Rightarrow> (Array \<times> nat) list result" where
  "directReads [] acc = Ok acc"
| "directReads (r # rs) acc =
     (case r of
        ReadExpr A us (ConstantExpr CE) \<Rightarrow>
          if bitWidth CE > 32 then Abort else directReads rs (insertRead (A, nat (apValue CE)) acc)
      | _ \<Rightarrow> directReads rs acc)"

text \<open>
  One byte of the seed: its value is kept if the constraints \<open>tmp\<close> allow it, otherwise it is replaced by
  a possible one, and the constraints are strengthened accordingly.
\<close>

definition patchByte :: "'q TimingSolver \<Rightarrow> (constraints \<Rightarrow> expr \<Rightarrow> nat) \<Rightarrow> Array \<Rightarrow> nat \<Rightarrow> constraints \<times> Assignment \<Rightarrow> 'q \<Rightarrow>
    ((constraints \<times> Assignment) \<times> 'q) result" where
  "patchByte T fuel A i s q =
     (case s of (tmp, a) \<Rightarrow>
        (case bindingOf a A of
           None \<Rightarrow> Abort
         | Some vals \<Rightarrow>
             if \<not> i < length vals then Abort
             else
               let co = tsCO T; read = readOf co A i;
                   isSeed = EqExpr_create co read (ConstantExpr (alloc (vals ! i) 8))
               in rbind (answered (TimingSolver_mustBeFalse T tmp isSeed q)) (\<lambda>(res, q1).
                    if res then
                      rbind (answered (TimingSolver_getValue T tmp read q1)) (\<lambda>(c, q2).
                      if bitWidth c > 8 then Abort
                      else
                        let e = EqExpr_create co read (ConstantExpr (alloc (apValue c) 8))
                        in rbind (addConstraint (tsOptions T) (fuel tmp e) tmp e) (\<lambda>tmp'. Ok ((tmp', setByte A i (apValue c) a), q2)))
                    else rbind (addConstraint (tsOptions T) (fuel tmp isSeed) tmp isSeed) (\<lambda>tmp'. Ok ((tmp', a), q1)))))"

fun patchBytes :: "'q TimingSolver \<Rightarrow> (constraints \<Rightarrow> expr \<Rightarrow> nat) \<Rightarrow> (Array \<times> nat) list \<Rightarrow> constraints \<times> Assignment \<Rightarrow> 'q \<Rightarrow>
    ((constraints \<times> Assignment) \<times> 'q) result" where
  "patchBytes T fuel [] s q = Ok (s, q)"
| "patchBytes T fuel ((A, i) # ps) s q = rbind (patchByte T fuel A i s q) (\<lambda>(s1, q1). patchBytes T fuel ps s1 q1)"

definition mayHold :: "'q TimingSolver \<Rightarrow> constraints \<Rightarrow> Assignment \<Rightarrow> expr \<Rightarrow> 'q \<Rightarrow> (bool \<times> 'q) result" where
  "mayHold T cs a condition q =
     rbind (evaluate (tsCO T) (UseVisitorHash (tsOptions T)) a condition) (\<lambda>e. answered (TimingSolver_mayBeTrue T cs e q))"

definition patchSeed :: "'q TimingSolver \<Rightarrow> (constraints \<Rightarrow> expr \<Rightarrow> nat) \<Rightarrow> constraints \<Rightarrow> expr \<Rightarrow> SeedInfo \<Rightarrow> 'q \<Rightarrow> (SeedInfo \<times> 'q) result" where
  "patchSeed T fuel cs condition si q0 =
     rbind (addConstraint (tsOptions T) (fuel cs condition) cs condition) (\<lambda>tmp.
     rbind (directReads (findReads condition False) []) (\<lambda>direct.
     rbind (patchBytes T fuel (filter (\<lambda>(A, i). bindingOf (assignment si) A \<noteq> None) direct) (tmp, assignment si) q0) (\<lambda>((tmp1, a1), q1).
     rbind (mayHold T cs a1 condition q1) (\<lambda>(res, q2).
     if res then Ok (si\<lparr>assignment := a1\<rparr>, q2)
     else
       rbind (patchBytes T fuel (concat (map (\<lambda>(A, vals). map (Pair A) [0..<asize A]) (bindings a1))) (tmp1, a1) q2) (\<lambda>((tmp2, a2), q3).
       rbind (mayHold T cs a2 condition q3) (\<lambda>(res, q4). if res then Ok (si\<lparr>assignment := a2\<rparr>, q4) else Abort))))))"

end
