(* ===== verification/Executor.thy ===== *)
theory Executor
  imports ExecState Searchers SeedInfo
begin

text \<open>
  The part of the executor that decides which paths exist (\<open>lib/Core/Executor.cpp\<close>): forking on a
  condition, branching over several conditions, adding path constraints, concretizing, and the end of
  states. Execution states are referred to by numbers, as the source does by pointers: \<open>store\<close> holds
  the objects that exist. \<open>'q\<close> is the state of the solver and \<open>'w\<close> the outside world with the random
  number generator. A failed assertion, a fatal error and a dangling pointer are \<open>Abort\<close>.
\<close>

section \<open>Definitions\<close>

text \<open>
  The options; \<open>staticLimit\<close> stands for the comparison of the statistics of the current instruction
  with the limits \<open>MaxStaticForkPct\<close> and the like after the first minute.
\<close>

record 'w ExecutorOptions =
  MaxForks :: nat
  MaxDepth :: nat
  MaxMemoryInhibit :: bool
  OnlyReplaySeeds :: bool
  OnlyOutputStatesCoveringNew :: bool
  AlwaysOutputSeeds :: bool
  ivcEnabled :: bool
  replayKTest :: bool
  replayPath :: "bool list option"
  pathWriter :: bool
  symPathWriter :: bool
  staticLimit :: "ExecutionState \<Rightarrow> 'w \<Rightarrow> bool"
  getInt32 :: "'w \<Rightarrow> 32 word \<times> 'w"

record ('q, 'w) Executor =
  store :: "nat \<rightharpoonup> ExecutionState"
  nextState :: nat
  states :: "nat set"
  addedStates :: "nat list"
  removedStates :: "nat list"
  seedMap :: "nat \<rightharpoonup> SeedInfo list"
  processTree :: "nat PTree"
  statForks :: nat
  pathsExplored :: nat
  testCases :: "(nat \<times> ExecutionState \<times> (string \<times> string) option) list"
  replayPosition :: nat
  atMemoryLimit :: bool
  inhibitForking :: bool
  solverState :: 'q
  world :: 'w

record 'q Solving =
  timing :: "'q TimingSolver"
  constraintFuel :: "constraints \<Rightarrow> expr \<Rightarrow> nat"

abbreviation solvingCO :: "'q Solving \<Rightarrow> bool" where
  "solvingCO V \<equiv> tsCO (timing V)"

definition getState :: "('q, 'w) Executor \<Rightarrow> nat \<Rightarrow> ExecutionState result" where
  "getState E s = (case store E s of Some es \<Rightarrow> Ok es | None \<Rightarrow> Abort)"

definition putState :: "nat \<Rightarrow> ExecutionState \<Rightarrow> ('q, 'w) Executor \<Rightarrow> ('q, 'w) Executor" where
  "putState s es E = E\<lparr>store := (store E)(s \<mapsto> es)\<rparr>"

text \<open>\<open>delete &state\<close>: the state and its field \<open>ptreeNode\<close> are gone.\<close>

definition deleteState :: "nat \<Rightarrow> ('q, 'w) Executor \<Rightarrow> ('q, 'w) Executor" where
  "deleteState s E =
     E\<lparr>store := (store E)(s := None),
       processTree := (processTree E)\<lparr>ptreeNode := (ptreeNode (processTree E))(s := None)\<rparr>\<rparr>"

definition removeFromTree :: "nat \<Rightarrow> ('q, 'w) Executor \<Rightarrow> ('q, 'w) Executor result" where
  "removeFromTree s E =
     (case ptreeNode (processTree E) s of
        None \<Rightarrow> Abort
      | Some n \<Rightarrow> rbind (remove n (processTree E)) (\<lambda>T. Ok (E\<lparr>processTree := T\<rparr>)))"

subsection \<open>The end of a state\<close>

definition terminateState :: "nat \<Rightarrow> ('q, 'w) Executor \<Rightarrow> ('q, 'w) Executor result" where
  "terminateState s E0 =
     (let E = E0\<lparr>pathsExplored := pathsExplored E0 + 1\<rparr>
      in if s \<notin> set (addedStates E)
         then rbind (getState E s) (\<lambda>es.
           Ok ((putState s (es\<lparr>pc := prevPC es\<rparr>) E)\<lparr>removedStates := removedStates E @ [s]\<rparr>))
         else rbind (removeFromTree s (E\<lparr>seedMap := (seedMap E)(s := None), addedStates := remove1 s (addedStates E)\<rparr>)) (\<lambda>E1.
           Ok (deleteState s E1)))"

text \<open>The handler writes a test case, with a message and a suffix where the state ended early.\<close>

definition processTestCase :: "nat \<Rightarrow> (string \<times> string) option \<Rightarrow> ('q, 'w) Executor \<Rightarrow> ('q, 'w) Executor result" where
  "processTestCase s message E = rbind (getState E s) (\<lambda>es. Ok (E\<lparr>testCases := testCases E @ [(s, es, message)]\<rparr>))"

definition wantsTest :: "'w ExecutorOptions \<Rightarrow> nat \<Rightarrow> ExecutionState \<Rightarrow> ('q, 'w) Executor \<Rightarrow> bool" where
  "wantsTest opts s es E \<longleftrightarrow> \<not> OnlyOutputStatesCoveringNew opts \<or> coveredNew es \<or> AlwaysOutputSeeds opts \<and> seedMap E s \<noteq> None"

definition terminateStateEarly :: "'w ExecutorOptions \<Rightarrow> nat \<Rightarrow> string \<Rightarrow> ('q, 'w) Executor \<Rightarrow> ('q, 'w) Executor result" where
  "terminateStateEarly opts s message E =
     rbind (getState E s) (\<lambda>es.
     rbind (if wantsTest opts s es E then processTestCase s (Some (message @ [CHR 0x0A], ''early'')) E else Ok E) (terminateState s))"

definition terminateStateOnExit :: "'w ExecutorOptions \<Rightarrow> nat \<Rightarrow> ('q, 'w) Executor \<Rightarrow> ('q, 'w) Executor result" where
  "terminateStateOnExit opts s E =
     rbind (getState E s) (\<lambda>es. rbind (if wantsTest opts s es E then processTestCase s None E else Ok E) (terminateState s))"

fun removeStates :: "nat list \<Rightarrow> ('q, 'w) Executor \<Rightarrow> ('q, 'w) Executor result" where
  "removeStates [] E = Ok E"
| "removeStates (s # ss) E =
     (if s \<notin> states E then Abort
      else rbind (removeFromTree s (E\<lparr>states := states E - {s}, seedMap := (seedMap E)(s := None)\<rparr>)) (\<lambda>E1.
        removeStates ss (deleteState s E1)))"

text \<open>The searcher is absent while seeds are executed.\<close>

definition updateStates :: "('sq, nat, 'w) Searcher option \<Rightarrow> nat option \<Rightarrow> 'sq \<times> ('q, 'w) Executor \<Rightarrow> ('sq \<times> ('q, 'w) Executor) result" where
  "updateStates srch current sE =
     (case sE of (sq, E) \<Rightarrow>
        rbind
          (case srch of
             Some S \<Rightarrow> rbind (update S current (addedStates E) (removedStates E) sq (world E)) (\<lambda>(sq1, w). Ok (sq1, E\<lparr>world := w\<rparr>))
           | None \<Rightarrow> Ok (sq, E)) (\<lambda>(sq1, E1).
        rbind (removeStates (removedStates E1) (E1\<lparr>states := states E1 \<union> set (addedStates E1), addedStates := []\<rparr>)) (\<lambda>E2.
          Ok (sq1, E2\<lparr>removedStates := []\<rparr>))))"

subsection \<open>Path constraints\<close>

text \<open>The seeds of a state are checked against the constraint, and patched where they violate it.\<close>

fun checkSeeds :: "'q Solving \<Rightarrow> constraints \<Rightarrow> expr \<Rightarrow> SeedInfo list \<Rightarrow> 'q \<Rightarrow> (SeedInfo list \<times> 'q) result" where
  "checkSeeds V cs condition [] q = Ok ([], q)"
| "checkSeeds V cs condition (si # sis) q =
     rbind (evaluate (solvingCO V) (UseVisitorHash (tsOptions (timing V))) (assignment si) condition) (\<lambda>e.
     rbind (answered (TimingSolver_mustBeFalse (timing V) cs e q)) (\<lambda>(res, q1).
     rbind (if res then patchSeed (timing V) (constraintFuel V) cs condition si q1 else Ok (si, q1)) (\<lambda>(si', q2).
     rbind (checkSeeds V cs condition sis q2) (\<lambda>(sis', q3). Ok (si' # sis', q3)))))"

definition Executor_addConstraint :: "'q Solving \<Rightarrow> 'w ExecutorOptions \<Rightarrow> nat \<Rightarrow> expr \<Rightarrow> ('q, 'w) Executor \<Rightarrow> ('q, 'w) Executor result" where
  "Executor_addConstraint V opts s condition E =
     (case condition of
        ConstantExpr CE \<Rightarrow> if isTrue CE then Ok E else Abort
      | _ \<Rightarrow>
          rbind (getState E s) (\<lambda>es.
          rbind
            (case seedMap E s of
               Some sis \<Rightarrow> rbind (checkSeeds V (pathConstraints es) condition sis (solverState E)) (\<lambda>(sis', q).
                 Ok (E\<lparr>seedMap := (seedMap E)(s \<mapsto> sis'), solverState := q\<rparr>))
             | None \<Rightarrow> Ok E) (\<lambda>E1.
          rbind (ES_addConstraint (tsOptions (timing V)) (constraintFuel V) condition es) (\<lambda>es'.
            if ivcEnabled opts then Abort else Ok (putState s es' E1)))))"

definition toConstant :: "'q Solving \<Rightarrow> 'w ExecutorOptions \<Rightarrow> nat \<Rightarrow> expr \<Rightarrow> ('q, 'w) Executor \<Rightarrow> (apint \<times> ('q, 'w) Executor) result" where
  "toConstant V opts s e E =
     rbind (getState E s) (\<lambda>es.
     rbind (simplifyExpr (tsOptions (timing V)) (tsFuel (timing V) (pathConstraints es) e) (pathConstraints es) e) (\<lambda>e1.
       case e1 of
         ConstantExpr CE \<Rightarrow> Ok (CE, E)
       | _ \<Rightarrow>
           rbind (answered (TimingSolver_getValue (timing V) (pathConstraints es) e1 (solverState E))) (\<lambda>(c, q).
           rbind (Executor_addConstraint V opts s (EqExpr_create (solvingCO V) e1 (ConstantExpr c)) (E\<lparr>solverState := q\<rparr>)) (\<lambda>E1.
             Ok (c, E1)))))"

subsection \<open>Random choices\<close>

text \<open>\<open>RNG::getBool\<close> is the parity of the bits drawn.\<close>

definition getBool :: "('w \<Rightarrow> 32 word \<times> 'w) \<Rightarrow> 'w \<Rightarrow> bool \<times> 'w" where
  "getBool draw w =
     (let (b0, w') = draw w;
          b1 = b0 XOR drop_bit 16 b0;
          b2 = b1 XOR drop_bit 8 b1;
          b3 = b2 XOR drop_bit 4 b2;
          b4 = b3 XOR drop_bit 2 b3;
          b5 = b4 XOR drop_bit 1 b4
      in (b5 AND 1 \<noteq> 0, w'))"

subsection \<open>Forking\<close>

text \<open>The value of a condition under a seed.\<close>

definition seedHolds :: "'q Solving \<Rightarrow> constraints \<Rightarrow> expr \<Rightarrow> SeedInfo \<Rightarrow> 'q \<Rightarrow> (bool \<times> 'q) result" where
  "seedHolds V cs condition si q =
     rbind (evaluate (solvingCO V) (UseVisitorHash (tsOptions (timing V))) (assignment si) condition) (\<lambda>e.
     rbind (answered (TimingSolver_getValue (timing V) cs e q)) (\<lambda>(c, q1).
       if bitWidth c \<noteq> 1 then Abort else Ok (isTrue c, q1)))"

fun splitSeeds :: "'q Solving \<Rightarrow> constraints \<Rightarrow> expr \<Rightarrow> SeedInfo list \<Rightarrow> 'q \<Rightarrow> ((SeedInfo list \<times> SeedInfo list) \<times> 'q) result" where
  "splitSeeds V cs condition [] q = Ok (([], []), q)"
| "splitSeeds V cs condition (si # sis) q =
     rbind (seedHolds V cs condition si q) (\<lambda>(t, q1).
     rbind (splitSeeds V cs condition sis q1) (\<lambda>((ts, fs), q2). Ok (if t then (si # ts, fs) else (ts, si # fs), q2)))"

fun seedSides :: "'q Solving \<Rightarrow> constraints \<Rightarrow> expr \<Rightarrow> SeedInfo list \<Rightarrow> bool \<times> bool \<Rightarrow> 'q \<Rightarrow> ((bool \<times> bool) \<times> 'q) result" where
  "seedSides V cs condition [] tf q = Ok (tf, q)"
| "seedSides V cs condition (si # sis) (t, f) q =
     rbind (seedHolds V cs condition si q) (\<lambda>(b, q1).
       let tf = (t \<or> b, f \<or> \<not> b) in if fst tf \<and> snd tf then Ok (tf, q1) else seedSides V cs condition sis tf q1)"

text \<open>The condition is fixed to a possible value when the statistics of its instruction are over the limit.\<close>

definition fixCondition :: "'q Solving \<Rightarrow> 'w ExecutorOptions \<Rightarrow> nat \<Rightarrow> expr \<Rightarrow> ('q, 'w) Executor \<Rightarrow> (expr \<times> ('q, 'w) Executor) result" where
  "fixCondition V opts s condition E =
     rbind (getState E s) (\<lambda>es.
       if seedMap E s = None \<and> \<not> isConstantExpr condition \<and> staticLimit opts es (world E)
       then
         rbind (answered (TimingSolver_getValue (timing V) (pathConstraints es) condition (solverState E))) (\<lambda>(c, q).
         rbind (Executor_addConstraint V opts s (EqExpr_create (solvingCO V) (ConstantExpr c) condition) (E\<lparr>solverState := q\<rparr>)) (\<lambda>E1.
           Ok (ConstantExpr c, E1)))
       else Ok (condition, E))"

definition takeSide :: "'q Solving \<Rightarrow> 'w ExecutorOptions \<Rightarrow> nat \<Rightarrow> expr \<Rightarrow> bool \<Rightarrow> ('q, 'w) Executor \<Rightarrow> (Validity \<times> ('q, 'w) Executor) result" where
  "takeSide V opts s condition side E =
     rbind (Executor_addConstraint V opts s (if side then condition else createIsZero (solvingCO V) condition) E) (\<lambda>E1.
       Ok (if side then VTrue else VFalse, E1))"

definition mayNotFork :: "'w ExecutorOptions \<Rightarrow> ExecutionState \<Rightarrow> ('q, 'w) Executor \<Rightarrow> bool" where
  "mayNotFork opts es E \<longleftrightarrow>
     MaxMemoryInhibit opts \<and> atMemoryLimit E \<or> forkDisabled es \<or> inhibitForking E \<or>
     MaxForks opts \<noteq> 2 ^ 32 - 1 \<and> statForks E \<ge> MaxForks opts"

text \<open>The validity after the replay of a path, the limits on forks, and the seeds have been considered.\<close>

definition restrictBranch :: "'q Solving \<Rightarrow> 'w ExecutorOptions \<Rightarrow> nat \<Rightarrow> expr \<Rightarrow> bool \<Rightarrow> Validity \<Rightarrow> ('q, 'w) Executor \<Rightarrow> (Validity \<times> ('q, 'w) Executor) result" where
  "restrictBranch V opts s condition isInternal res E =
     rbind (getState E s) (\<lambda>es.
       if replayPath opts \<noteq> None \<and> \<not> isInternal then
         (let path = the (replayPath opts); p = replayPosition E
          in if \<not> p < length path then Abort
             else
               let branch = path ! p; E1 = E\<lparr>replayPosition := p + 1\<rparr>
               in (case res of
                     VTrue \<Rightarrow> if branch then Ok (res, E1) else Abort
                   | VFalse \<Rightarrow> if branch then Abort else Ok (res, E1)
                   | VUnknown \<Rightarrow> takeSide V opts s condition branch E1))
       else if res = VUnknown then
         (if replayKTest opts then Abort
          else if mayNotFork opts es E
          then (case getBool (getInt32 opts) (world E) of (side, w) \<Rightarrow> takeSide V opts s condition side (E\<lparr>world := w\<rparr>))
          else Ok (res, E))
       else Ok (res, E))"

definition restrictSeeds :: "'q Solving \<Rightarrow> 'w ExecutorOptions \<Rightarrow> nat \<Rightarrow> expr \<Rightarrow> SeedInfo list \<Rightarrow> Validity \<Rightarrow> ('q, 'w) Executor \<Rightarrow> (Validity \<times> ('q, 'w) Executor) result" where
  "restrictSeeds V opts s condition sis res E =
     rbind (getState E s) (\<lambda>es.
       if (forkDisabled es \<or> OnlyReplaySeeds opts) \<and> res = VUnknown then
         rbind (seedSides V (pathConstraints es) condition sis (False, False) (solverState E)) (\<lambda>((t, f), q).
           let E1 = E\<lparr>solverState := q\<rparr>
           in if t \<and> f then Ok (res, E1) else if \<not> t \<and> \<not> f then Abort else takeSide V opts s condition t E1)
       else Ok (res, E))"

text \<open>The seeds of the state are divided between its two copies.\<close>

definition divideSeeds :: "'q Solving \<Rightarrow> expr \<Rightarrow> nat \<Rightarrow> nat \<Rightarrow> ('q, 'w) Executor \<Rightarrow> ('q, 'w) Executor result" where
  "divideSeeds V condition t f E =
     (case seedMap E t of
        None \<Rightarrow> Ok E
      | Some sis \<Rightarrow>
          rbind (getState E t) (\<lambda>ts.
          rbind (getState E f) (\<lambda>fs.
          rbind (splitSeeds V (pathConstraints ts) condition sis (solverState E)) (\<lambda>((trueSeeds, falseSeeds), q).
            let E1 = E\<lparr>seedMap := (seedMap E)(t := if trueSeeds = [] then None else Some trueSeeds,
                                              f := if falseSeeds = [] then None else Some falseSeeds),
                       solverState := q\<rparr>
            in Ok (if trueSeeds = []
                   then putState t (ts\<lparr>coveredNew := coveredNew fs, coveredLines := coveredLines fs\<rparr>)
                          (putState f (fs\<lparr>coveredNew := coveredNew ts, coveredLines := coveredLines ts\<rparr>) E1)
                   else E1)))))"

definition pathBit :: "bool \<Rightarrow> nat \<Rightarrow> bool \<Rightarrow> ('q, 'w) Executor \<Rightarrow> ('q, 'w) Executor result" where
  "pathBit on s b E = (if on then rbind (getState E s) (\<lambda>es. Ok (putState s (es\<lparr>pathOS := pathOS es @ [b]\<rparr>) E)) else Ok E)"

definition symPathBit :: "bool \<Rightarrow> nat \<Rightarrow> bool \<Rightarrow> ('q, 'w) Executor \<Rightarrow> ('q, 'w) Executor result" where
  "symPathBit on s b E = (if on then rbind (getState E s) (\<lambda>es. Ok (putState s (es\<lparr>symPathOS := symPathOS es @ [b]\<rparr>) E)) else Ok E)"

text \<open>
  \<open>trueState->branch()\<close> with the new state among the added ones; the copy of the field \<open>ptreeNode\<close> is
  part of the copy of the state.
\<close>

definition branchState :: "nat \<Rightarrow> ('q, 'w) Executor \<Rightarrow> (nat \<times> ('q, 'w) Executor) result" where
  "branchState s E =
     rbind (getState E s) (\<lambda>es.
       let (es', ns) = branch es; f = nextState E; T = processTree E
       in Ok (f, E\<lparr>store := (store E)(s \<mapsto> es', f \<mapsto> ns), nextState := f + 1, addedStates := addedStates E @ [f],
                   processTree := T\<lparr>ptreeNode := (ptreeNode T)(f := ptreeNode T s)\<rparr>\<rparr>))"

definition attachStates :: "nat \<Rightarrow> nat \<Rightarrow> nat \<Rightarrow> ('q, 'w) Executor \<Rightarrow> ('q, 'w) Executor result" where
  "attachStates s l r E =
     (case ptreeNode (processTree E) s of
        None \<Rightarrow> Abort
      | Some n \<Rightarrow> rbind (attach n l r (processTree E)) (\<lambda>T. Ok (E\<lparr>processTree := T\<rparr>)))"

definition forkPair :: "'q Solving \<Rightarrow> 'w ExecutorOptions \<Rightarrow> nat \<Rightarrow> expr \<Rightarrow> bool \<Rightarrow> ('q, 'w) Executor \<Rightarrow> (nat \<times> ('q, 'w) Executor) result" where
  "forkPair V opts t condition isInternal E =
     rbind (branchState t (E\<lparr>statForks := statForks E + 1\<rparr>)) (\<lambda>(f, E1).
     rbind (divideSeeds V condition t f E1) (\<lambda>E2.
     rbind (attachStates t f t E2) (\<lambda>E3.
     rbind (pathBit (pathWriter opts \<and> \<not> isInternal) t True E3) (\<lambda>E4.
     rbind (pathBit (pathWriter opts \<and> \<not> isInternal) f False E4) (\<lambda>E5.
     rbind (symPathBit (symPathWriter opts \<and> \<not> isInternal) t True E5) (\<lambda>E6.
     rbind (symPathBit (symPathWriter opts \<and> \<not> isInternal) f False E6) (\<lambda>E7.
     rbind (Executor_addConstraint V opts t condition E7) (\<lambda>E8.
     rbind (Executor_addConstraint V opts f (createIsZero (solvingCO V) condition) E8) (\<lambda>E9. Ok (f, E9))))))))))"

definition forkBoth :: "'q Solving \<Rightarrow> 'w ExecutorOptions \<Rightarrow> nat \<Rightarrow> expr \<Rightarrow> bool \<Rightarrow> ('q, 'w) Executor \<Rightarrow> ((nat option \<times> nat option) \<times> ('q, 'w) Executor) result" where
  "forkBoth V opts t condition isInternal E0 =
     rbind (forkPair V opts t condition isInternal E0) (\<lambda>(f, E).
     rbind (getState E t) (\<lambda>ts.
       if MaxDepth opts \<noteq> 0 \<and> MaxDepth opts \<le> depth ts
       then rbind (terminateStateEarly opts t ''max-depth exceeded.'' E) (\<lambda>E1.
            rbind (terminateStateEarly opts f ''max-depth exceeded.'' E1) (\<lambda>E2. Ok ((None, None), E2)))
       else Ok ((Some t, Some f), E)))"

definition fork :: "'q Solving \<Rightarrow> 'w ExecutorOptions \<Rightarrow> nat \<Rightarrow> expr \<Rightarrow> bool \<Rightarrow> ('q, 'w) Executor \<Rightarrow> ((nat option \<times> nat option) \<times> ('q, 'w) Executor) result" where
  "fork V opts s condition0 isInternal E0 =
     rbind (fixCondition V opts s condition0 E0) (\<lambda>(condition, E).
     rbind (getState E s) (\<lambda>es.
     rbind (TimingSolver_evaluate (timing V) (pathConstraints es) condition (solverState E)) (\<lambda>(r, q).
       let E1 = E\<lparr>solverState := q\<rparr>
       in case r of
            None \<Rightarrow>
              rbind (terminateStateEarly opts s ''Query timed out (fork).'' (putState s (es\<lparr>pc := prevPC es\<rparr>) E1)) (\<lambda>E2.
                Ok ((None, None), E2))
          | Some res \<Rightarrow>
              rbind
                (case seedMap E1 s of
                   None \<Rightarrow> restrictBranch V opts s condition isInternal res E1
                 | Some sis \<Rightarrow> restrictSeeds V opts s condition sis res E1) (\<lambda>(res', E2).
                case res' of
                  VTrue \<Rightarrow> rbind (pathBit (pathWriter opts \<and> \<not> isInternal) s True E2) (\<lambda>E3. Ok ((Some s, None), E3))
                | VFalse \<Rightarrow> rbind (pathBit (pathWriter opts \<and> \<not> isInternal) s False E2) (\<lambda>E3. Ok ((None, Some s), E3))
                | VUnknown \<Rightarrow> forkBoth V opts s condition isInternal E2))))"

subsection \<open>Branching\<close>

text \<open>Every further condition gets a copy of one of the states made so far, chosen at random.\<close>

fun branchStates :: "('w \<Rightarrow> 32 word \<times> 'w) \<Rightarrow> nat \<Rightarrow> nat list \<Rightarrow> ('q, 'w) Executor \<Rightarrow> (nat list \<times> ('q, 'w) Executor) result" where
  "branchStates draw 0 result E = Ok (result, E)"
| "branchStates draw (Suc k) result E =
     (case draw (world E) of (r, w) \<Rightarrow>
        let es = result ! (unat r mod length result)
        in rbind (branchState es (E\<lparr>world := w\<rparr>)) (\<lambda>(ns, E1).
           rbind (attachStates es ns es E1) (\<lambda>E2. branchStates draw k (result @ [ns]) E2)))"

text \<open>The first condition a seed satisfies, or a random one.\<close>

fun firstHolding :: "'q Solving \<Rightarrow> constraints \<Rightarrow> expr list \<Rightarrow> SeedInfo \<Rightarrow> nat \<Rightarrow> 'q \<Rightarrow> (nat option \<times> 'q) result" where
  "firstHolding V cs [] si i q = Ok (None, q)"
| "firstHolding V cs (c # conds) si i q =
     rbind (seedHolds V cs c si q) (\<lambda>(b, q1). if b then Ok (Some i, q1) else firstHolding V cs conds si (i + 1) q1)"

fun assignSeeds :: "'q Solving \<Rightarrow> ('w \<Rightarrow> 32 word \<times> 'w) \<Rightarrow> constraints \<Rightarrow> expr list \<Rightarrow> nat option list \<Rightarrow> SeedInfo list \<Rightarrow> ('q, 'w) Executor \<Rightarrow> ('q, 'w) Executor result" where
  "assignSeeds V draw cs conds result [] E = Ok E"
| "assignSeeds V draw cs conds result (si # sis) E =
     rbind (firstHolding V cs conds si 0 (solverState E)) (\<lambda>(found, q).
       let (i, w) = (case found of Some i \<Rightarrow> (i, world E)
                     | None \<Rightarrow> (case draw (world E) of (r, w) \<Rightarrow> (unat r mod length conds, w)));
           E1 = E\<lparr>solverState := q, world := w\<rparr>
       in assignSeeds V draw cs conds result sis
            (case result ! i of
               Some t \<Rightarrow> E1\<lparr>seedMap := (seedMap E1)(t \<mapsto> (case seedMap E1 t of Some ss \<Rightarrow> ss | None \<Rightarrow> []) @ [si])\<rparr>
             | None \<Rightarrow> E1))"

fun killUnseeded :: "nat option list \<Rightarrow> ('q, 'w) Executor \<Rightarrow> (nat option list \<times> ('q, 'w) Executor) result" where
  "killUnseeded [] E = Ok ([], E)"
| "killUnseeded (r # rs) E =
     rbind
       (case r of
          Some t \<Rightarrow> if seedMap E t = None then rbind (terminateState t E) (\<lambda>E1. Ok (None, E1)) else Ok (r, E)
        | None \<Rightarrow> Ok (r, E)) (\<lambda>(r', E1).
     rbind (killUnseeded rs E1) (\<lambda>(rs', E2). Ok (r' # rs', E2)))"

fun constrainAll :: "'q Solving \<Rightarrow> 'w ExecutorOptions \<Rightarrow> (nat option \<times> expr) list \<Rightarrow> ('q, 'w) Executor \<Rightarrow> ('q, 'w) Executor result" where
  "constrainAll V opts [] E = Ok E"
| "constrainAll V opts ((r, c) # rs) E =
     rbind (case r of Some t \<Rightarrow> Executor_addConstraint V opts t c E | None \<Rightarrow> Ok E) (constrainAll V opts rs)"

definition Executor_branch :: "'q Solving \<Rightarrow> 'w ExecutorOptions \<Rightarrow> nat \<Rightarrow> expr list \<Rightarrow> ('q, 'w) Executor \<Rightarrow> (nat option list \<times> ('q, 'w) Executor) result" where
  "Executor_branch V opts s conditions E =
     (let N = length conditions
      in if N = 0 then Abort
         else
           rbind
             (if MaxForks opts \<noteq> 2 ^ 32 - 1 \<and> statForks E \<ge> MaxForks opts
              then (case getInt32 opts (world E) of (r, w) \<Rightarrow>
                Ok (map (\<lambda>i. if i = unat r mod N then Some s else None) [0..<N], E\<lparr>world := w\<rparr>))
              else rbind (branchStates (getInt32 opts) (N - 1) [s] (E\<lparr>statForks := statForks E + (N - 1)\<rparr>)) (\<lambda>(ss, E1). Ok (map Some ss, E1)))
             (\<lambda>(result, E1).
           rbind
             (case seedMap E1 s of
                None \<Rightarrow> Ok (result, E1)
              | Some sis \<Rightarrow>
                  rbind (getState E1 s) (\<lambda>es.
                  rbind (assignSeeds V (getInt32 opts) (pathConstraints es) conditions result sis (E1\<lparr>seedMap := (seedMap E1)(s := None)\<rparr>)) (\<lambda>E2.
                    if OnlyReplaySeeds opts then killUnseeded result E2 else Ok (result, E2))))
             (\<lambda>(result', E2).
           rbind (constrainAll V opts (zip result' conditions) E2) (\<lambda>E3. Ok (result', E3)))))"

end
