(* ===== verification/PointerResolution.thy ===== *)
theory PointerResolution
  imports AddressSpace "HOL-Library.Sublist"
begin

text \<open>
  The resolution of symbolic pointers finds exactly the objects the pointer may point to, over any
  solver that answers queries truthfully.
\<close>

section \<open>The queries\<close>

lemma word_sub_value:
  assumes "fits 64 v"
  shows "uint (word_of_int v - b :: 64 word) = (v - uint b) mod 2 ^ 64"
  using assms by (simp add: uint_word_ariths uint_word_of_int fits_def)

lemma inside_value:
  assumes "fits 64 v"
  shows "inside mo (word_of_int v) \<longleftrightarrow>
    (if moSize mo = 0 then (v - uint (moAddress mo)) mod 2 ^ 64 = 0 else (v - uint (moAddress mo)) mod 2 ^ 64 < int (moSize mo))"
proof -
  let ?d = "word_of_int v - moAddress mo :: 64 word"
  have "unat ?d < moSize mo \<longleftrightarrow> uint ?d < int (moSize mo)"
    by (simp only: of_nat_less_iff [symmetric, where 'a = int] uint_nat [symmetric])
  moreover have "word_of_int v = moAddress mo \<longleftrightarrow> uint ?d = 0" by (simp add: uint_0_iff)
  ultimately show ?thesis unfolding inside_def word_sub_value [OF assms] by auto
qed

lemma bounds_check:
  assumes "wf_expr p" "getWidth p = 64" "getPointerWidth C = 64" "moSize mo < 2 ^ 32"
  shows "wf_expr (getBoundsCheckPointer C mo p)" "getWidth (getBoundsCheckPointer C mo p) = 1"
    "wf_env (constArrayOpt C) \<sigma> \<Longrightarrow> sem \<sigma> p = Some v \<Longrightarrow> sem \<sigma> (getBoundsCheckPointer C mo p) = Some (of_bool (inside mo (word_of_int v)))"
proof -
  let ?co = "constArrayOpt C" and ?off = "BinaryExpr Sub p (getBaseExpr C mo)"
  let ?raw = "if moSize mo = 0 then EqExpr ?off (ConstantExpr (alloc 0 64)) else BinaryExpr Ult ?off (getSizeExpr C mo)"
  have sub: "refines ?co ?off (getOffsetExpr C mo p)" unfolding getOffsetExpr_def by (rule AddSub_create_sound(2))
  have ref: "refines ?co ?raw (getBoundsCheckPointer C mo p)"
    unfolding getBoundsCheckPointer_def getBoundsCheckOffset_def using assms(3)
    by (auto intro: refines_trans [OF refines_binary [OF sub refines_refl] EqExpr_create_sound]
        refines_trans [OF refines_binary [OF sub refines_refl] cmp_create_sound(1)])
  have wf: "wf_expr ?raw" using assms by (simp add: getBaseExpr_def getSizeExpr_def kind_simps)
  show "wf_expr (getBoundsCheckPointer C mo p)" "getWidth (getBoundsCheckPointer C mo p) = 1"
    using refinesD(1,2) [OF ref wf] by (simp_all add: kind_simps split: if_splits)
  assume s: "wf_env ?co \<sigma>" "sem \<sigma> p = Some v"
  have v: "fits 64 v" using sem_fits(1) [OF s(2,1) assms(1)] assms(2) by simp
  have "uint (moAddress mo) mod 2 ^ 64 = uint (moAddress mo)" using uint_bounded [of "moAddress mo"] by simp
  moreover have "int (moSize mo) mod 2 ^ 64 = int (moSize mo)" using assms(4) by simp
  ultimately have "sem \<sigma> ?raw = Some (of_bool (inside mo (word_of_int v)))"
    unfolding inside_value [OF v] using s assms(2,3) by (simp add: getBaseExpr_def getSizeExpr_def kind_simps)
  with refinesD(3) [OF ref wf s(1)] show "sem \<sigma> (getBoundsCheckPointer C mo p) = Some (of_bool (inside mo (word_of_int v)))" by blast
qed

lemma base_checks:
  assumes "wf_expr p" "getWidth p = 64" "getPointerWidth C = 64"
  shows "wf_expr (UgeExpr_create (constArrayOpt C) p (getBaseExpr C mo))" "getWidth (UgeExpr_create (constArrayOpt C) p (getBaseExpr C mo)) = 1"
    "wf_expr (UltExpr_create (constArrayOpt C) p (getBaseExpr C mo))" "getWidth (UltExpr_create (constArrayOpt C) p (getBaseExpr C mo)) = 1"
    "wf_env (constArrayOpt C) \<sigma> \<Longrightarrow> sem \<sigma> p = Some v \<Longrightarrow>
      sem \<sigma> (UgeExpr_create (constArrayOpt C) p (getBaseExpr C mo)) = Some (of_bool (moAddress mo \<le> word_of_int v))"
    "wf_env (constArrayOpt C) \<sigma> \<Longrightarrow> sem \<sigma> p = Some v \<Longrightarrow>
      sem \<sigma> (UltExpr_create (constArrayOpt C) p (getBaseExpr C mo)) = Some (of_bool (word_of_int v < moAddress mo))"
proof -
  let ?co = "constArrayOpt C" and ?b = "getBaseExpr C mo"
  have ge: "refines ?co (BinaryExpr Uge p ?b) (UgeExpr_create ?co p ?b)"
    unfolding UgeExpr_create_def by (rule refines_trans [OF cmp_swap(2) cmp_create_sound(2)])
  have lt: "refines ?co (BinaryExpr Ult p ?b) (UltExpr_create ?co p ?b)" by (rule cmp_create_sound(1))
  have wf: "wf_expr (BinaryExpr k p ?b)" for k using assms by (simp add: getBaseExpr_def)
  show "wf_expr (UgeExpr_create ?co p ?b)" "getWidth (UgeExpr_create ?co p ?b) = 1" "wf_expr (UltExpr_create ?co p ?b)" "getWidth (UltExpr_create ?co p ?b) = 1"
    using refinesD(1,2) [OF ge wf] refinesD(1,2) [OF lt wf] by (simp_all add: kind_simps)
  assume s: "wf_env ?co \<sigma>" "sem \<sigma> p = Some v"
  have v: "fits 64 v" using sem_fits(1) [OF s(2,1) assms(1)] assms(2) by simp
  then have u: "uint (word_of_int v :: 64 word) = v" by (simp add: uint_word_of_int fits_def)
  have b: "sem \<sigma> ?b = Some (uint (moAddress mo))" using uint_bounded [of "moAddress mo"] assms(3) by (simp add: getBaseExpr_def)
  show "sem \<sigma> (UgeExpr_create ?co p ?b) = Some (of_bool (moAddress mo \<le> word_of_int v))"
    by (rule refinesD(3) [OF ge wf s(1)]) (simp add: s(2) b kind_simps word_le_def u)
  show "sem \<sigma> (UltExpr_create ?co p ?b) = Some (of_bool (word_of_int v < moAddress mo))"
    by (rule refinesD(3) [OF lt wf s(1)]) (simp add: s(2) b kind_simps word_less_def u)
qed

section \<open>The addresses of a pointer\<close>

definition pointerOK :: "bool \<Rightarrow> env set \<Rightarrow> Context \<Rightarrow> expr \<Rightarrow> bool" where
  "pointerOK co M C p \<longleftrightarrow> definedIn M p \<and> getWidth p = 64 \<and> getPointerWidth C = 64 \<and> constArrayOpt C = co"

definition pointees :: "env set \<Rightarrow> expr \<Rightarrow> 64 word set" where
  "pointees M p = {a. \<exists>\<sigma> \<in> M. \<exists>v. sem \<sigma> p = Some v \<and> a = word_of_int v}"

definition hits :: "env set \<Rightarrow> expr \<Rightarrow> ObjectPair \<Rightarrow> bool" where
  "hits M p op \<longleftrightarrow> (\<exists>a \<in> pointees M p. inside (fst op) a)"

context timing_solver
begin

lemma value_quantifiers:
  assumes "definedIn (modelsOf U cs) p" "\<And>\<sigma> v. \<sigma> \<in> modelsOf U cs \<Longrightarrow> sem \<sigma> p = Some v \<Longrightarrow> sem \<sigma> e = Some (of_bool (B (word_of_int v :: 64 word)))"
  shows "(\<exists>\<sigma> \<in> modelsOf U cs. sem \<sigma> e = Some 1) \<longleftrightarrow> (\<exists>a \<in> pointees (modelsOf U cs) p. B a)"
    "(\<forall>\<sigma> \<in> modelsOf U cs. sem \<sigma> e = Some 1) \<longleftrightarrow> (\<forall>a \<in> pointees (modelsOf U cs) p. B a)"
proof -
  have d: "\<exists>v. sem \<sigma> p = Some v" if "\<sigma> \<in> modelsOf U cs" for \<sigma> using assms(1) that by (auto simp: definedIn_def)
  have s: "sem \<sigma> e = Some 1 \<longleftrightarrow> B (word_of_int v)" if "\<sigma> \<in> modelsOf U cs" "sem \<sigma> p = Some v" for \<sigma> v using assms(2) [OF that] by simp
  show "(\<exists>\<sigma> \<in> modelsOf U cs. sem \<sigma> e = Some 1) \<longleftrightarrow> (\<exists>a \<in> pointees (modelsOf U cs) p. B a)"
    unfolding pointees_def using d s by fastforce
  show "(\<forall>\<sigma> \<in> modelsOf U cs. sem \<sigma> e = Some 1) \<longleftrightarrow> (\<forall>a \<in> pointees (modelsOf U cs) p. B a)"
    unfolding pointees_def using d s by fastforce
qed

lemma pointees_ne: "definedIn (modelsOf U cs) p \<Longrightarrow> pointees (modelsOf U cs) p \<noteq> {}"
  using value_quantifiers(2) [of p "ConstantExpr (alloc 0 1)" "\<lambda>a. False"] sat_cs by (auto simp: pointees_def definedIn_def)

lemma pointer_queries:
  assumes "pointerOK (tsCO T) (modelsOf U cs) C p" "moSize mo < 2 ^ 32"
  shows "returns reliable I (TimingSolver_mayBeTrue T cs (getBoundsCheckPointer C mo p)) (\<lambda>b. b = (\<exists>a \<in> pointees (modelsOf U cs) p. inside mo a))"
    "returns reliable I (TimingSolver_mustBeTrue T cs (getBoundsCheckPointer C mo p)) (\<lambda>b. b = (\<forall>a \<in> pointees (modelsOf U cs) p. inside mo a))"
    "returns reliable I (TimingSolver_mustBeTrue T cs (UgeExpr_create (constArrayOpt C) p (getBaseExpr C mo)))
      (\<lambda>b. b = (\<forall>a \<in> pointees (modelsOf U cs) p. moAddress mo \<le> a))"
    "returns reliable I (TimingSolver_mustBeTrue T cs (UltExpr_create (constArrayOpt C) p (getBaseExpr C mo)))
      (\<lambda>b. b = (\<forall>a \<in> pointees (modelsOf U cs) p. a < moAddress mo))"
proof -
  have p: "definedIn (modelsOf U cs) p" "wf_expr p" "getWidth p = 64" "getPointerWidth C = 64" "constArrayOpt C = tsCO T"
    using assms(1) by (auto simp: pointerOK_def definedIn_def)
  have env: "wf_env (constArrayOpt C) \<sigma>" if "\<sigma> \<in> modelsOf U cs" for \<sigma> using wf_U that p(5) by (simp add: modelsOf_def)
  have d: "definedIn (modelsOf U cs) e" if "wf_expr e" "\<And>\<sigma> v. \<sigma> \<in> modelsOf U cs \<Longrightarrow> sem \<sigma> p = Some v \<Longrightarrow> sem \<sigma> e = Some (x v)" for e x
    using p(1) that by (force simp: definedIn_def)
  note bc = bounds_check [OF p(2-4) assms(2)] and bs = base_checks [OF p(2-4), where mo = mo]
  note vq = value_quantifiers [OF p(1)]
  note vb = vq [where B = "inside mo", OF bc(3) [OF env]] and vge = vq [where B = "\<lambda>a. moAddress mo \<le> a", OF bs(5) [OF env]]
    and vlt = vq [where B = "\<lambda>a. a < moAddress mo", OF bs(6) [OF env]]
  have db: "definedIn (modelsOf U cs) (getBoundsCheckPointer C mo p)"
    by (rule d [OF bc(1)]) (rule bc(3) [OF env])
  have dge: "definedIn (modelsOf U cs) (UgeExpr_create (constArrayOpt C) p (getBaseExpr C mo))"
    by (rule d [OF bs(1)]) (rule bs(5) [OF env])
  have dlt: "definedIn (modelsOf U cs) (UltExpr_create (constArrayOpt C) p (getBaseExpr C mo))"
    by (rule d [OF bs(3)]) (rule bs(6) [OF env])
  show "returns reliable I (TimingSolver_mayBeTrue T cs (getBoundsCheckPointer C mo p)) (\<lambda>b. b = (\<exists>a \<in> pointees (modelsOf U cs) p. inside mo a))"
    using ts_mayBeTrue [OF db bc(2)] vb(1) by simp
  show "returns reliable I (TimingSolver_mustBeTrue T cs (getBoundsCheckPointer C mo p)) (\<lambda>b. b = (\<forall>a \<in> pointees (modelsOf U cs) p. inside mo a))"
    using ts_mustBeTrue [OF db bc(2)] vb(2) by simp
  show "returns reliable I (TimingSolver_mustBeTrue T cs (UgeExpr_create (constArrayOpt C) p (getBaseExpr C mo)))
      (\<lambda>b. b = (\<forall>a \<in> pointees (modelsOf U cs) p. moAddress mo \<le> a))"
    using ts_mustBeTrue [OF dge bs(2)] vge(2) by simp
  show "returns reliable I (TimingSolver_mustBeTrue T cs (UltExpr_create (constArrayOpt C) p (getBaseExpr C mo)))
      (\<lambda>b. b = (\<forall>a \<in> pointees (modelsOf U cs) p. a < moAddress mo))"
    using ts_mustBeTrue [OF dlt bs(4)] vlt(2) by simp
qed

end

section \<open>The loops of \<open>resolve\<close>\<close>

lemma returns_cases:
  assumes "returns reliable I m (\<lambda>b. b = B)" "I q"
  obtains (failed) q' where "m q = Ok (None, q')" "I q'" "\<not> reliable" | (answered) q' where "m q = Ok (Some B, q')" "I q'"
proof -
  from assms(1) [unfolded returns_def, THEN spec, THEN mp, OF assms(2)]
  obtain r q' where r: "m q = Ok (r, q')" "I q'" "\<forall>x. r = Some x \<longrightarrow> x = B" "reliable \<longrightarrow> r \<noteq> None"
    by (elim exE conjE)
  show thesis
  proof (cases r)
    case None
    with r show thesis by (intro failed [of q']) simp_all
  next
    case (Some b)
    with r show thesis by (intro answered [of q']) simp_all
  qed
qed

text \<open>
  The results of \<open>checkPointerInObject\<close> and of the loops, in terms of the objects the pointer may
  point to (\<open>hit\<close>) and must point to (\<open>sure\<close>).
\<close>

definition checkOutcome :: "bool \<Rightarrow> (ObjectPair \<Rightarrow> bool) \<Rightarrow> (ObjectPair \<Rightarrow> bool) \<Rightarrow> nat \<Rightarrow> ObjectPair \<Rightarrow> ObjectPair list \<Rightarrow> nat \<Rightarrow> ObjectPair list \<Rightarrow> bool" where
  "checkOutcome reliable hit sure mx op rl inc rl' \<longleftrightarrow>
     inc = 2 \<and> rl' = rl @ filter hit [op] \<and> (hit op \<and> rl \<noteq> [] \<longrightarrow> length rl' \<noteq> mx) \<or>
     inc = 0 \<and> rl = [] \<and> rl' = [op] \<and> sure op \<and> hit op \<or>
     inc = 1 \<and> \<not> reliable \<and> (rl' = rl \<or> rl' = rl @ [op] \<and> hit op \<and> rl = []) \<or>
     inc = 1 \<and> rl' = rl @ [op] \<and> hit op \<and> rl \<noteq> [] \<and> length rl' = mx"

definition returnOutcome :: "bool \<Rightarrow> (nat \<Rightarrow> bool) \<Rightarrow> (ObjectPair \<Rightarrow> bool) \<Rightarrow> (ObjectPair \<Rightarrow> bool) \<Rightarrow> nat \<Rightarrow> ObjectPair list \<Rightarrow> ObjectPair list \<Rightarrow> bool \<Rightarrow>
    ObjectPair list \<Rightarrow> bool" where
  "returnOutcome reliable expired hit sure mx xs rl inc rl' \<longleftrightarrow>
     (\<not> inc \<longrightarrow> (\<exists>op \<in> set xs. rl' = [op] \<and> sure op)) \<and>
     (\<exists>ys. rl' = rl @ ys \<and> prefix ys (filter hit xs)) \<and>
     (inc \<longrightarrow> \<not> reliable \<or> (\<exists>i. expired i) \<or> 1 < mx \<and> length rl' = mx) \<and>
     (1 < mx \<and> length rl < mx \<longrightarrow> length rl' \<le> mx)"

definition loopOutcome :: "('q \<Rightarrow> bool) \<Rightarrow> bool \<Rightarrow> (nat \<Rightarrow> bool) \<Rightarrow> (ObjectPair \<Rightarrow> bool) \<Rightarrow> (ObjectPair \<Rightarrow> bool) \<Rightarrow> nat \<Rightarrow> ObjectPair list \<Rightarrow> ObjectPair list \<Rightarrow>
    ('q resolution, (bool \<times> ObjectPair list) \<times> 'q) control \<Rightarrow> bool" where
  "loopOutcome I reliable expired hit sure mx xs rl c \<longleftrightarrow>
     (case c of
        Break (rl', i', q') \<Rightarrow> I q' \<and> rl' = rl @ filter hit xs \<and> (1 < mx \<and> length rl < mx \<longrightarrow> length rl' < mx)
      | Return ((inc, rl'), q') \<Rightarrow> I q' \<and> returnOutcome reliable expired hit sure mx xs rl inc rl'
      | Continue s \<Rightarrow> False)"

lemma returnOutcome_step:
  assumes "returnOutcome reliable expired hit sure mx xs (rl @ filter hit [op]) inc rl'"
    and "1 < mx \<and> length rl < mx \<longrightarrow> length (rl @ filter hit [op]) < mx"
  shows "returnOutcome reliable expired hit sure mx (op # xs) rl inc rl'"
proof -
  obtain ys where ys: "rl' = (rl @ filter hit [op]) @ ys" "prefix ys (filter hit xs)" using assms(1) by (auto simp: returnOutcome_def)
  then have "prefix (filter hit [op] @ ys) (filter hit (op # xs))" by simp
  with ys(1) have "\<exists>zs. rl' = rl @ zs \<and> prefix zs (filter hit (op # xs))" by (intro exI [of _ "filter hit [op] @ ys"]) simp
  with assms show ?thesis by (auto simp: returnOutcome_def)
qed

lemma loopOutcome_step:
  assumes "loopOutcome I reliable expired hit sure mx xs (rl @ filter hit [op]) c"
    and "1 < mx \<and> length rl < mx \<longrightarrow> length (rl @ filter hit [op]) < mx"
  shows "loopOutcome I reliable expired hit sure mx (op # xs) rl c"
  using assms returnOutcome_step [OF _ assms(2)]
  by (auto simp: loopOutcome_def split: control.splits)

text \<open>An outcome of the check that ends the loop.\<close>

lemma checkOutcome_return:
  assumes "checkOutcome reliable hit sure mx op rl inc rl'" "inc \<noteq> 2"
  shows "returnOutcome reliable expired hit sure mx (op # xs) rl (inc \<noteq> 0) rl'"
proof -
  have p: "\<exists>ys. rl' = rl @ ys \<and> prefix ys (filter hit (op # xs))"
    using assms by (auto simp: checkOutcome_def)
  have "1 < mx \<and> length rl < mx \<longrightarrow> length rl' \<le> mx" using assms by (auto simp: checkOutcome_def)
  moreover have "inc \<noteq> 0 \<longrightarrow> \<not> reliable \<or> (\<exists>i. expired i) \<or> 1 < mx \<and> length rl' = mx"
    using assms by (auto simp: checkOutcome_def Suc_le_eq neq_Nil_conv)
  moreover have "\<not> inc \<noteq> 0 \<longrightarrow> (\<exists>op' \<in> set (op # xs). rl' = [op'] \<and> sure op')" using assms by (auto simp: checkOutcome_def)
  ultimately show ?thesis using p by (simp only: returnOutcome_def)
qed

lemma checkOutcome_goes_on:
  assumes "checkOutcome reliable hit sure mx op rl 2 rl'"
  shows "rl' = rl @ filter hit [op]" "1 < mx \<and> length rl < mx \<longrightarrow> length rl' < mx"
proof -
  show r: "rl' = rl @ filter hit [op]" using assms by (auto simp: checkOutcome_def)
  show "1 < mx \<and> length rl < mx \<longrightarrow> length rl' < mx"
    using assms r by (cases "rl = []") (auto simp: checkOutcome_def)
qed

lemma returnOutcome_failed:
  "\<not> reliable \<or> (\<exists>i. expired i) \<Longrightarrow> prefix rl' (rl @ filter hit xs) \<Longrightarrow> prefix rl rl' \<Longrightarrow> (1 < mx \<and> length rl < mx \<longrightarrow> length rl' < mx) \<Longrightarrow>
   returnOutcome reliable expired hit sure mx xs rl True rl'"
  by (auto simp: returnOutcome_def prefix_def)

definition mustHit :: "env set \<Rightarrow> expr \<Rightarrow> ObjectPair \<Rightarrow> bool" where
  "mustHit M p op \<longleftrightarrow> (\<forall>a \<in> pointees M p. inside (fst op) a)"

context timing_solver
begin

lemma check_pointer:
  assumes p: "pointerOK (tsCO T) (modelsOf U cs) C p" and mo: "moSize (fst op) < 2 ^ 32" and q: "I q"
  shows "\<exists>inc rl' q'. checkPointerInObject C T cs p op rl mx q = Ok ((inc, rl'), q') \<and> I q' \<and>
    checkOutcome reliable (hits (modelsOf U cs) p) (mustHit (modelsOf U cs) p) mx op rl inc rl'"
  using pointer_queries(1) [OF p mo] q
proof (cases rule: returns_cases)
  case (failed q1)
  then show ?thesis by (simp add: checkPointerInObject_def Let_def checkOutcome_def)
next
  case (answered q1)
  note may = answered
  show ?thesis
  proof (cases "hits (modelsOf U cs) p op")
    case False
    with may show ?thesis by (simp add: checkPointerInObject_def Let_def checkOutcome_def hits_def)
  next
    case hit: True
    show ?thesis
    proof (cases "rl = []")
      case False
      with may hit show ?thesis by (simp add: checkPointerInObject_def Let_def checkOutcome_def hits_def)
    next
      case True
      from pointer_queries(2) [OF p mo] may(2) show ?thesis
        by (cases rule: returns_cases)
           (use may hit True in \<open>simp_all add: checkPointerInObject_def Let_def checkOutcome_def hits_def mustHit_def\<close>)
    qed
  qed
qed

lemma back_loop:
  assumes p: "pointerOK (tsCO T) (modelsOf U cs) C p"
  shows "\<forall>op \<in> set xs. moSize (fst op) < 2 ^ 32 \<Longrightarrow>
    sorted_wrt (\<lambda>x y. (\<forall>a \<in> pointees (modelsOf U cs) p. moAddress (fst x) \<le> a) \<longrightarrow> \<not> hits (modelsOf U cs) p y) xs \<Longrightarrow> I q \<Longrightarrow>
    \<exists>c. listLoop (resolve_back C T cs expired p mx) xs (rl, i, q) = Ok c \<and>
      loopOutcome I reliable expired (hits (modelsOf U cs) p) (mustHit (modelsOf U cs) p) mx xs rl c"
proof (induction xs arbitrary: rl i q)
  case (Cons op xs)
  let ?M = "modelsOf U cs"
  let ?out = "loopOutcome I reliable expired (hits ?M p) (mustHit ?M p) mx (op # xs) rl"
  from Cons.prems have mo: "moSize (fst op) < 2 ^ 32" and rest: "\<forall>op \<in> set xs. moSize (fst op) < 2 ^ 32"
    "sorted_wrt (\<lambda>x y. (\<forall>a \<in> pointees ?M p. moAddress (fst x) \<le> a) \<longrightarrow> \<not> hits ?M p y) xs" by simp_all
  show ?case
  proof (cases "expired i")
    case True
    then have "?out (Return ((True, rl), q))" using Cons.prems(3) by (auto simp: loopOutcome_def intro!: returnOutcome_failed)
    with True show ?thesis by (simp add: resolve_back_def)
  next
    case False
    obtain inc rl' q1 where chk: "checkPointerInObject C T cs p op rl mx q = Ok ((inc, rl'), q1)" "I q1"
        "checkOutcome reliable (hits ?M p) (mustHit ?M p) mx op rl inc rl'"
      using check_pointer [OF p mo Cons.prems(3)] by blast
    show ?thesis
    proof (cases "inc = 2")
      case two: False
      with checkOutcome_return [OF chk(3), of expired xs] chk(2) have "?out (Return ((inc \<noteq> 0, rl'), q1))" by (simp add: loopOutcome_def)
      with False two chk(1) show ?thesis by (simp add: resolve_back_def)
    next
      case two: True
      note on = checkOutcome_goes_on [OF chk(3) [unfolded two]]
      from pointer_queries(3) [OF p mo] chk(2) show ?thesis
      proof (cases rule: returns_cases)
        case (failed q2)
        then have "?out (Return ((True, rl'), q2))" using on by (auto simp: loopOutcome_def intro!: returnOutcome_failed)
        with False two chk(1) failed show ?thesis by (simp add: resolve_back_def [of C T cs expired p mx op] ask_def)
      next
        case (answered q2)
        show ?thesis
        proof (cases "\<forall>a \<in> pointees ?M p. moAddress (fst op) \<le> a")
          case True
          then have "filter (hits ?M p) xs = []" using Cons.prems(2) by (simp add: filter_empty_conv)
          then have "?out (Break (rl', Suc i, q2))" using on answered(2) by (simp add: loopOutcome_def)
          with False two chk(1) answered True show ?thesis by (simp add: resolve_back_def [of C T cs expired p mx op] ask_def)
        next
          case go: False
          obtain c where c: "listLoop (resolve_back C T cs expired p mx) xs (rl', Suc i, q2) = Ok c"
              "loopOutcome I reliable expired (hits ?M p) (mustHit ?M p) mx xs rl' c"
            using Cons.IH [OF rest answered(2), of rl' "Suc i"] by blast
          have "TimingSolver_mustBeTrue T cs (UgeExpr_create (constArrayOpt C) p (getBaseExpr C (fst op))) q1 = Ok (Some False, q2)"
            using go answered(1) by auto
          moreover have "?out c" using loopOutcome_step [OF c(2) [unfolded on(1)]] on by simp
          ultimately show ?thesis using c(1) False two chk(1) by (simp add: resolve_back_def [of C T cs expired p mx op] ask_def)
        qed
      qed
    qed
  qed
qed (simp add: loopOutcome_def)

lemma forward_loop:
  assumes p: "pointerOK (tsCO T) (modelsOf U cs) C p"
  shows "\<forall>op \<in> set xs. moSize (fst op) < 2 ^ 32 \<Longrightarrow>
    sorted_wrt (\<lambda>x y. (\<forall>a \<in> pointees (modelsOf U cs) p. a < moAddress (fst x)) \<longrightarrow> \<not> hits (modelsOf U cs) p y) xs \<Longrightarrow>
    \<forall>x \<in> set xs. (\<forall>a \<in> pointees (modelsOf U cs) p. a < moAddress (fst x)) \<longrightarrow> \<not> hits (modelsOf U cs) p x \<Longrightarrow> I q \<Longrightarrow>
    \<exists>c. listLoop (resolve_forward C T cs expired p mx) xs (rl, i, q) = Ok c \<and>
      loopOutcome I reliable expired (hits (modelsOf U cs) p) (mustHit (modelsOf U cs) p) mx xs rl c"
proof (induction xs arbitrary: rl i q)
  case (Cons op xs)
  let ?M = "modelsOf U cs"
  let ?out = "loopOutcome I reliable expired (hits ?M p) (mustHit ?M p) mx (op # xs) rl"
  from Cons.prems have mo: "moSize (fst op) < 2 ^ 32" and rest: "\<forall>op \<in> set xs. moSize (fst op) < 2 ^ 32"
    "sorted_wrt (\<lambda>x y. (\<forall>a \<in> pointees ?M p. a < moAddress (fst x)) \<longrightarrow> \<not> hits ?M p y) xs"
    "\<forall>x \<in> set xs. (\<forall>a \<in> pointees ?M p. a < moAddress (fst x)) \<longrightarrow> \<not> hits ?M p x" by simp_all
  show ?case
  proof (cases "expired i")
    case True
    then have "?out (Return ((True, rl), q))" using Cons.prems(4) by (auto simp: loopOutcome_def intro!: returnOutcome_failed)
    with True show ?thesis by (simp add: resolve_forward_def)
  next
    case False
    from pointer_queries(4) [OF p mo] Cons.prems(4) show ?thesis
    proof (cases rule: returns_cases)
      case (failed q1)
      then have "?out (Return ((True, rl), q1))" by (auto simp: loopOutcome_def intro!: returnOutcome_failed)
      with False failed show ?thesis by (simp add: resolve_forward_def [of C T cs expired p mx op] ask_def)
    next
      case (answered q1)
      show ?thesis
      proof (cases "\<forall>a \<in> pointees ?M p. a < moAddress (fst op)")
        case True
        then have "filter (hits ?M p) (op # xs) = []" using Cons.prems(2,3) by (simp add: filter_empty_conv)
        then have "?out (Break (rl, Suc i, q1))" using answered(2) by (simp add: loopOutcome_def)
        with False answered True show ?thesis by (simp add: resolve_forward_def [of C T cs expired p mx op] ask_def)
      next
        case go: False
        have ans: "TimingSolver_mustBeTrue T cs (UltExpr_create (constArrayOpt C) p (getBaseExpr C (fst op))) q = Ok (Some False, q1)"
          using go answered(1) by auto
        obtain inc rl' q2 where chk: "checkPointerInObject C T cs p op rl mx q1 = Ok ((inc, rl'), q2)" "I q2"
            "checkOutcome reliable (hits ?M p) (mustHit ?M p) mx op rl inc rl'"
          using check_pointer [OF p mo answered(2)] by blast
        show ?thesis
        proof (cases "inc = 2")
          case two: False
          with checkOutcome_return [OF chk(3), of expired xs] chk(2) have "?out (Return ((inc \<noteq> 0, rl'), q2))" by (simp add: loopOutcome_def)
          with False two chk(1) ans show ?thesis by (simp add: resolve_forward_def [of C T cs expired p mx op] ask_def)
        next
          case two: True
          note on = checkOutcome_goes_on [OF chk(3) [unfolded two]]
          obtain c where c: "listLoop (resolve_forward C T cs expired p mx) xs (rl', Suc i, q2) = Ok c"
              "loopOutcome I reliable expired (hits ?M p) (mustHit ?M p) mx xs rl' c"
            using Cons.IH [OF rest chk(2), of rl' "Suc i"] by blast
          have "?out c" using loopOutcome_step [OF c(2) [unfolded on(1)]] on by simp
          with c(1) False two chk(1) ans show ?thesis by (simp add: resolve_forward_def [of C T cs expired p mx op] ask_def)
        qed
      qed
    qed
  qed
qed (simp add: loopOutcome_def)

end

section \<open>Resolution\<close>

lemma hackObject_address [simp]: "moAddress (hackObject a) = a"
  by (simp add: hackObject_def)

text \<open>The two directions of the search, around the position of an example address.\<close>

abbreviation upTo :: "64 word \<Rightarrow> MemoryMap \<Rightarrow> ObjectPair list" where
  "upTo a t \<equiv> rev (takeWhile (\<lambda>v. moAddress (fst v) \<le> a) (inorder t))"

abbreviation above :: "64 word \<Rightarrow> MemoryMap \<Rightarrow> ObjectPair list" where
  "above a t \<equiv> dropWhile (\<lambda>v. moAddress (fst v) \<le> a) (inorder t)"

lemma directions:
  obtains xs where "inorder t = xs @ above a t" "upTo a t = rev xs"
  using takeWhile_dropWhile_id [of "\<lambda>v. moAddress (fst v) \<le> a" "inorder t", symmetric] by blast

lemma upTo_above:
  "set (upTo a t) \<union> set (above a t) = set (inorder t)" "set (upTo a t) \<subseteq> set (inorder t)" "set (above a t) \<subseteq> set (inorder t)"
proof -
  obtain xs where "inorder t = xs @ above a t" "upTo a t = rev xs" by (rule directions)
  then show "set (upTo a t) \<union> set (above a t) = set (inorder t)" "set (upTo a t) \<subseteq> set (inorder t)" "set (above a t) \<subseteq> set (inorder t)"
    by (metis set_append set_rev, metis Un_upper1 set_append set_rev, metis Un_upper2 set_append)
qed

lemma distinct_directions:
  assumes "distinct (inorder t)"
  shows "distinct (filter h (upTo a t) @ filter h (above a t))"
proof -
  obtain xs where xs: "inorder t = xs @ above a t" "upTo a t = rev xs" by (rule directions)
  from assms have "distinct (xs @ above a t)" by (subst (asm) xs(1))
  then show ?thesis unfolding xs(2) by auto
qed

lemma search_order:
  assumes "layoutOK t"
  shows "sorted_wrt (\<lambda>x y. (\<forall>a \<in> pointees M p. moAddress (fst x) \<le> a) \<longrightarrow> \<not> hits M p y) (upTo e t)"
    "sorted_wrt (\<lambda>x y. (\<forall>a \<in> pointees M p. a < moAddress (fst x)) \<longrightarrow> \<not> hits M p y) (above e t)"
    "\<forall>x \<in> set (above e t). (\<forall>a \<in> pointees M p. a < moAddress (fst x)) \<longrightarrow> \<not> hits M p x"
proof -
  note i = inside_iff [OF layoutD(2) [OF assms]]
  have asc: "sorted_wrt (\<lambda>x y. moAddress (fst x) < moAddress (fst y)) (inorder t)"
    using layoutD(1) [OF assms] by (simp add: memory_map.search_def memory_map.asc_def)
  have low: "\<not> hits M p x" if "x \<in> set (inorder t)" "y \<in> set (inorder t)" "moAddress (fst x) < moAddress (fst y)"
      "\<forall>a \<in> pointees M p. moAddress (fst y) \<le> a" for x y
    using layoutD(3) [OF assms that(1-3)] i [OF that(1)] that(4) by (fastforce simp: hits_def word_le_def)
  have high: "\<not> hits M p y" if "y \<in> set (inorder t)" "moAddress (fst x) \<le> moAddress (fst y)" "\<forall>a \<in> pointees M p. a < moAddress (fst x)" for x y
    using i [OF that(1)] that(2,3) by (fastforce simp: hits_def word_le_def word_less_def)
  have "sorted_wrt (\<lambda>x y. moAddress (fst x) < moAddress (fst y)) (takeWhile (\<lambda>v. moAddress (fst v) \<le> e) (inorder t) @ above e t)"
    using asc by (simp only: takeWhile_dropWhile_id)
  then have parts: "sorted_wrt (\<lambda>x y. moAddress (fst x) < moAddress (fst y)) (takeWhile (\<lambda>v. moAddress (fst v) \<le> e) (inorder t))"
    "sorted_wrt (\<lambda>x y. moAddress (fst x) < moAddress (fst y)) (above e t)" by (simp_all only: sorted_wrt_append)
  have "sorted_wrt (\<lambda>x y. (\<forall>a \<in> pointees M p. moAddress (fst y) \<le> a) \<longrightarrow> \<not> hits M p x) (takeWhile (\<lambda>v. moAddress (fst v) \<le> e) (inorder t))"
    by (rule sorted_wrt_mono_rel [OF _ parts(1)]) (rule impI, rule low, blast dest: set_takeWhileD, blast dest: set_takeWhileD, assumption+)
  then show "sorted_wrt (\<lambda>x y. (\<forall>a \<in> pointees M p. moAddress (fst x) \<le> a) \<longrightarrow> \<not> hits M p y) (upTo e t)" by (simp add: sorted_wrt_rev)
  show "sorted_wrt (\<lambda>x y. (\<forall>a \<in> pointees M p. a < moAddress (fst x)) \<longrightarrow> \<not> hits M p y) (above e t)"
    by (rule sorted_wrt_mono_rel [OF _ parts(2)]) (rule impI, rule high, blast dest: set_dropWhileD, erule less_imp_le, assumption)
  show "\<forall>x \<in> set (above e t). (\<forall>a \<in> pointees M p. a < moAddress (fst x)) \<longrightarrow> \<not> hits M p x"
    by (intro ballI impI, rule high [OF _ order_refl], blast dest: set_dropWhileD, assumption)
qed

text \<open>What a resolution promises.\<close>

definition resolution :: "bool \<Rightarrow> (nat \<Rightarrow> bool) \<Rightarrow> env set \<Rightarrow> expr \<Rightarrow> nat \<Rightarrow> MemoryMap \<Rightarrow> bool \<Rightarrow> ObjectPair list \<Rightarrow> bool" where
  "resolution reliable expired M p mx t inc rl \<longleftrightarrow>
     distinct rl \<and> set rl \<subseteq> {op \<in> set (inorder t). hits M p op} \<and>
     (\<not> inc \<longrightarrow> set rl = {op \<in> set (inorder t). hits M p op}) \<and>
     (inc \<longrightarrow> \<not> reliable \<or> (\<exists>i. expired i) \<or> 1 < mx \<and> length rl = mx) \<and>
     (1 < mx \<longrightarrow> length rl \<le> mx)"

lemma mustHit_only:
  assumes "layoutOK t" "op \<in> set (inorder t)" "mustHit M p op" "pointees M p \<noteq> {}"
  shows "{x \<in> set (inorder t). hits M p x} = {op}"
  using assms(2-4) inside_unique [OF assms(1) _ assms(2)] by (auto simp: hits_def mustHit_def)

lemma returnOutcome_resolution:
  assumes "returnOutcome reliable expired (hits M p) (mustHit M p) mx xs rl inc rl'" "layoutOK t" "pointees M p \<noteq> {}"
    and "distinct (rl @ filter (hits M p) xs)" "set rl \<subseteq> {op \<in> set (inorder t). hits M p op}" "set xs \<subseteq> set (inorder t)" "1 < mx \<longrightarrow> length rl < mx"
  shows "resolution reliable expired M p mx t inc rl'"
proof -
  obtain ys zs where ys: "rl' = rl @ ys" "filter (hits M p) xs = ys @ zs" using assms(1) by (auto simp: returnOutcome_def prefix_def)
  have "set ys \<subseteq> set (filter (hits M p) xs)" using ys(2) by simp
  then have "set rl' \<subseteq> {op \<in> set (inorder t). hits M p op}" using assms(5,6) ys(1) by auto
  moreover have "distinct rl'" using assms(4) ys by auto
  moreover have "\<not> inc \<longrightarrow> set rl' = {op \<in> set (inorder t). hits M p op}"
  proof
    assume "\<not> inc"
    then obtain op where op: "op \<in> set xs" "rl' = [op]" "mustHit M p op" using assms(1) by (auto simp: returnOutcome_def)
    then have "op \<in> set (inorder t)" using assms(6) by blast
    from mustHit_only [OF assms(2) this op(3) assms(3)] op(2) show "set rl' = {op \<in> set (inorder t). hits M p op}" by simp
  qed
  ultimately show ?thesis using assms(1,7) by (auto simp: resolution_def returnOutcome_def)
qed

lemma breakOutcome_resolution:
  assumes "layoutOK t" "1 < mx \<longrightarrow> length (filter (hits M p) (upTo a t) @ filter (hits M p) (above a t)) < mx"
  shows "resolution reliable expired M p mx t False (filter (hits M p) (upTo a t) @ filter (hits M p) (above a t))"
  using distinct_directions [OF memory_map.search_distinct [OF layoutD(1) [OF assms(1)]], of "hits M p" a] upTo_above(1) [of a t] assms(2)
  by (auto simp: resolution_def simp del: set_rev)

context timing_solver
begin

lemma pointer_value:
  assumes "pointerOK (tsCO T) (modelsOf U cs) C p" "I q"
  obtains (failed) q' where "TimingSolver_getValue T cs p q = Ok (None, q')" "I q'" "\<not> reliable"
    | (found) c q' where "TimingSolver_getValue T cs p q = Ok (Some c, q')" "I q'" "addressOf c = Ok (word_of_int (apValue c))"
      "word_of_int (apValue c) \<in> pointees (modelsOf U cs) p"
proof -
  have p: "definedIn (modelsOf U cs) p" "getWidth p = 64" using assms(1) by (auto simp: pointerOK_def)
  from ts_getValue [OF p(1), unfolded returns_def, THEN spec, THEN mp, OF assms(2)]
  obtain r q' where r: "TimingSolver_getValue T cs p q = Ok (r, q')" "I q'" "\<forall>c. r = Some c \<longrightarrow> valueIn U (queryOf p) c" "reliable \<longrightarrow> r \<noteq> None"
    by (elim exE conjE)
  show thesis
  proof (cases r)
    case None
    with r show thesis by (intro failed [of q']) simp_all
  next
    case (Some c)
    with r have c: "valueIn U (queryOf p) c" by simp
    then have "addressOf c = Ok (word_of_int (apValue c))" using p(2) by (simp add: addressOf_def valueIn_def)
    moreover have "word_of_int (apValue c) \<in> pointees (modelsOf U cs) p" using c by (auto simp: valueIn_def pointees_def)
    ultimately show thesis using r Some by (intro found [of c q']) simp_all
  qed
qed

lemma resolve_symbolic:
  assumes lay: "layoutOK (objects as)" and p: "pointerOK (tsCO T) (modelsOf U cs) C p" and q: "I q" and nc: "\<not> isConstantExpr p"
  shows "\<exists>inc rl q'. resolve C T cs expired p [] mx as q = Ok ((inc, rl), q') \<and> I q' \<and>
    resolution reliable expired (modelsOf U cs) p mx (objects as) inc rl"
proof -
  let ?M = "modelsOf U cs" and ?t = "objects as"
  note ne = pointees_ne [of p]
  have ne: "pointees ?M p \<noteq> {}" using pointees_ne p by (simp add: pointerOK_def)
  have sizes: "\<forall>op \<in> set (inorder ?t). moSize (fst op) < 2 ^ 32" using layoutD(4) [OF lay] by blast
  from p q show ?thesis
  proof (cases rule: pointer_value)
    case (failed q1)
    then have "resolve C T cs expired p [] mx as q = Ok ((True, []), q1)" using nc by (cases p) (simp_all add: resolve_def)
    with failed show ?thesis by (auto simp: resolution_def)
  next
    case (found c q1)
    define a :: "64 word" where "a = word_of_int (apValue c)"
    have run: "resolve C T cs expired p [] mx as q =
        rbind (listLoop (resolve_back C T cs expired p mx) (upTo a ?t) ([], 0, q1)) (\<lambda>c1. case c1 of
          Return x \<Rightarrow> Ok x
        | Break s1 \<Rightarrow> rbind (listLoop (resolve_forward C T cs expired p mx) (above a ?t) s1) (\<lambda>c2.
            case c2 of Return x \<Rightarrow> Ok x | Break (rl', i, q2) \<Rightarrow> Ok ((False, rl'), q2) | Continue s2 \<Rightarrow> Abort)
        | Continue s1 \<Rightarrow> Abort)"
      using found(1,3) nc
      by (cases p) (simp_all add: resolve_def Let_def a_def [symmetric] memory_map.walkBack_upper_bound [OF layoutD(1) [OF lay]]
        memory_map.walkForward_upper_bound [OF layoutD(1) [OF lay]] del: walkBack.simps walkForward.simps)
    have "\<forall>op \<in> set (upTo a ?t). moSize (fst op) < 2 ^ 32" "\<forall>op \<in> set (above a ?t). moSize (fst op) < 2 ^ 32"
      using sizes upTo_above(2,3) [of a ?t] by blast+
    note szs = this and ord = search_order [OF lay, where M = ?M and p = p and e = a]
    obtain c1 where c1: "listLoop (resolve_back C T cs expired p mx) (upTo a ?t) ([], 0, q1) = Ok c1"
        "loopOutcome I reliable expired (hits ?M p) (mustHit ?M p) mx (upTo a ?t) [] c1"
      using back_loop [OF p szs(1) ord(1) found(2)] by blast
    have dist: "distinct (filter (hits ?M p) (upTo a ?t) @ filter (hits ?M p) (above a ?t))"
      by (rule distinct_directions [OF memory_map.search_distinct [OF layoutD(1) [OF lay]]])
    show ?thesis
    proof (cases c1)
      case (Return x)
      then obtain inc rl q' where x: "x = ((inc, rl), q')" by (metis prod.collapse)
      with c1(2) Return have "I q'" "returnOutcome reliable expired (hits ?M p) (mustHit ?M p) mx (upTo a ?t) [] inc rl" by (auto simp: loopOutcome_def)
      moreover from this(2) have "resolution reliable expired ?M p mx ?t inc rl"
        by (rule returnOutcome_resolution [OF _ lay ne]) (use dist upTo_above(2) [of a ?t] in \<open>simp_all del: set_rev\<close>)
      moreover have "resolve C T cs expired p [] mx as q = Ok ((inc, rl), q')" using run c1(1) Return x by simp
      ultimately show ?thesis by blast
    next
      case (Break s1)
      then obtain i q2 where s1: "s1 = (filter (hits ?M p) (upTo a ?t), i, q2)" "I q2" "1 < mx \<longrightarrow> length (filter (hits ?M p) (upTo a ?t)) < mx"
        using c1(2) by (cases s1) (auto simp: loopOutcome_def)
      obtain c2 where c2: "listLoop (resolve_forward C T cs expired p mx) (above a ?t) s1 = Ok c2"
          "loopOutcome I reliable expired (hits ?M p) (mustHit ?M p) mx (above a ?t) (filter (hits ?M p) (upTo a ?t)) c2"
        using forward_loop [OF p szs(2) ord(2,3) s1(2)] s1(1) by blast
      show ?thesis
      proof (cases c2)
        case R: (Return x)
        then obtain inc rl q' where x: "x = ((inc, rl), q')" by (metis prod.collapse)
        with c2(2) R have "I q'" "returnOutcome reliable expired (hits ?M p) (mustHit ?M p) mx (above a ?t) (filter (hits ?M p) (upTo a ?t)) inc rl"
          by (auto simp: loopOutcome_def)
        moreover from this(2) have "resolution reliable expired ?M p mx ?t inc rl"
          by (rule returnOutcome_resolution [OF _ lay ne dist]) (use s1(3) upTo_above(2,3) [of a ?t] in \<open>auto simp del: set_rev\<close>)
        moreover have "resolve C T cs expired p [] mx as q = Ok ((inc, rl), q')" using run c1(1) Break c2(1) R x by simp
        ultimately show ?thesis by blast
      next
        case B: (Break s2)
        obtain rl i' q' where s2: "s2 = (rl, i', q')" by (metis prod.collapse)
        with c2(2) B s1(3) have "I q'" "rl = filter (hits ?M p) (upTo a ?t) @ filter (hits ?M p) (above a ?t)" "1 < mx \<longrightarrow> length rl < mx"
          by (auto simp: loopOutcome_def)
        moreover from this have "resolution reliable expired ?M p mx ?t False rl" using breakOutcome_resolution [OF lay, where mx = mx and M = ?M and p = p and a = a] by simp
        moreover have "resolve C T cs expired p [] mx as q = Ok ((False, rl), q')" using run c1(1) Break c2(1) B s2 by simp
        ultimately show ?thesis by blast
      qed (use c2(2) in \<open>simp add: loopOutcome_def\<close>)
    qed (use c1(2) in \<open>simp add: loopOutcome_def\<close>)
  qed
qed

end

section \<open>Resolution to one object\<close>

definition oneOutcome :: "('q \<Rightarrow> bool) \<Rightarrow> bool \<Rightarrow> (ObjectPair \<Rightarrow> bool) \<Rightarrow> ObjectPair list \<Rightarrow> ('q, ObjectPair option option \<times> 'q) control \<Rightarrow> bool" where
  "oneOutcome I reliable hit xs c \<longleftrightarrow>
     (case c of
        Break q' \<Rightarrow> I q' \<and> filter hit xs = []
      | Return (None, q') \<Rightarrow> I q' \<and> \<not> reliable
      | Return (Some (Some op), q') \<Rightarrow> I q' \<and> op \<in> set xs \<and> hit op
      | _ \<Rightarrow> False)"

lemma oneOutcome_step: "oneOutcome I reliable hit xs c \<Longrightarrow> \<not> hit op \<Longrightarrow> oneOutcome I reliable hit (op # xs) c"
  by (auto simp: oneOutcome_def split: control.splits option.splits prod.splits)

context timing_solver
begin

lemma one_back_loop:
  assumes p: "pointerOK (tsCO T) (modelsOf U cs) C p"
  shows "\<forall>op \<in> set xs. moSize (fst op) < 2 ^ 32 \<Longrightarrow>
    sorted_wrt (\<lambda>x y. (\<forall>a \<in> pointees (modelsOf U cs) p. moAddress (fst x) \<le> a) \<longrightarrow> \<not> hits (modelsOf U cs) p y) xs \<Longrightarrow> I q \<Longrightarrow>
    \<exists>c. listLoop (resolveOne_back C T cs p) xs q = Ok c \<and> oneOutcome I reliable (hits (modelsOf U cs) p) xs c"
proof (induction xs arbitrary: q)
  case (Cons op xs)
  let ?M = "modelsOf U cs"
  let ?out = "oneOutcome I reliable (hits ?M p) (op # xs)"
  from Cons.prems have mo: "moSize (fst op) < 2 ^ 32" and rest: "\<forall>op \<in> set xs. moSize (fst op) < 2 ^ 32"
    "sorted_wrt (\<lambda>x y. (\<forall>a \<in> pointees ?M p. moAddress (fst x) \<le> a) \<longrightarrow> \<not> hits ?M p y) xs" by simp_all
  from pointer_queries(1) [OF p mo] Cons.prems(3) show ?case
  proof (cases rule: returns_cases)
    case (failed q1)
    then have "?out (Return (None, q1))" by (simp add: oneOutcome_def)
    with failed show ?thesis by (simp add: resolveOne_back_def [of C T cs p op] ask_def)
  next
    case may: (answered q1)
    show ?thesis
    proof (cases "hits ?M p op")
      case True
      then have "?out (Return (Some (Some op), q1))" using may by (simp add: oneOutcome_def)
      with True may show ?thesis by (simp add: resolveOne_back_def [of C T cs p op] ask_def hits_def [of ?M p op])
    next
      case miss: False
      then have ans: "TimingSolver_mayBeTrue T cs (getBoundsCheckPointer C (fst op) p) q = Ok (Some False, q1)" using may(1) by (auto simp: hits_def)
      from pointer_queries(3) [OF p mo] may(2) show ?thesis
      proof (cases rule: returns_cases)
        case (failed q2)
        then have "?out (Return (None, q2))" by (simp add: oneOutcome_def)
        with failed ans show ?thesis by (simp add: resolveOne_back_def [of C T cs p op] ask_def)
      next
        case (answered q2)
        show ?thesis
        proof (cases "\<forall>a \<in> pointees ?M p. moAddress (fst op) \<le> a")
          case True
          then have "filter (hits ?M p) (op # xs) = []" using Cons.prems(2) miss by (simp add: filter_empty_conv)
          then have "?out (Break q2)" using answered(2) by (simp add: oneOutcome_def)
          with True ans answered show ?thesis by (simp add: resolveOne_back_def [of C T cs p op] ask_def)
        next
          case False
          obtain c where c: "listLoop (resolveOne_back C T cs p) xs q2 = Ok c" "oneOutcome I reliable (hits ?M p) xs c"
            using Cons.IH [OF rest answered(2)] by blast
          have "TimingSolver_mustBeTrue T cs (UgeExpr_create (constArrayOpt C) p (getBaseExpr C (fst op))) q1 = Ok (Some False, q2)"
            using False answered(1) by auto
          with oneOutcome_step [OF c(2) miss] c(1) ans show ?thesis by (simp add: resolveOne_back_def [of C T cs p op] ask_def)
        qed
      qed
    qed
  qed
qed (simp add: oneOutcome_def)

lemma one_forward_loop:
  assumes p: "pointerOK (tsCO T) (modelsOf U cs) C p"
  shows "\<forall>op \<in> set xs. moSize (fst op) < 2 ^ 32 \<Longrightarrow>
    sorted_wrt (\<lambda>x y. (\<forall>a \<in> pointees (modelsOf U cs) p. a < moAddress (fst x)) \<longrightarrow> \<not> hits (modelsOf U cs) p y) xs \<Longrightarrow>
    \<forall>x \<in> set xs. (\<forall>a \<in> pointees (modelsOf U cs) p. a < moAddress (fst x)) \<longrightarrow> \<not> hits (modelsOf U cs) p x \<Longrightarrow> I q \<Longrightarrow>
    \<exists>c. listLoop (resolveOne_forward C T cs p) xs q = Ok c \<and> oneOutcome I reliable (hits (modelsOf U cs) p) xs c"
proof (induction xs arbitrary: q)
  case (Cons op xs)
  let ?M = "modelsOf U cs"
  let ?out = "oneOutcome I reliable (hits ?M p) (op # xs)"
  from Cons.prems have mo: "moSize (fst op) < 2 ^ 32" and rest: "\<forall>op \<in> set xs. moSize (fst op) < 2 ^ 32"
    "sorted_wrt (\<lambda>x y. (\<forall>a \<in> pointees ?M p. a < moAddress (fst x)) \<longrightarrow> \<not> hits ?M p y) xs"
    "\<forall>x \<in> set xs. (\<forall>a \<in> pointees ?M p. a < moAddress (fst x)) \<longrightarrow> \<not> hits ?M p x" by simp_all
  from pointer_queries(4) [OF p mo] Cons.prems(4) show ?case
  proof (cases rule: returns_cases)
    case (failed q1)
    then have "?out (Return (None, q1))" by (simp add: oneOutcome_def)
    with failed show ?thesis by (simp add: resolveOne_forward_def [of C T cs p op] ask_def)
  next
    case must: (answered q1)
    show ?thesis
    proof (cases "\<forall>a \<in> pointees ?M p. a < moAddress (fst op)")
      case True
      then have "filter (hits ?M p) (op # xs) = []" using Cons.prems(2,3) by (simp add: filter_empty_conv)
      then have "?out (Break q1)" using must(2) by (simp add: oneOutcome_def)
      with True must show ?thesis by (simp add: resolveOne_forward_def [of C T cs p op] ask_def)
    next
      case False
      then have ans: "TimingSolver_mustBeTrue T cs (UltExpr_create (constArrayOpt C) p (getBaseExpr C (fst op))) q = Ok (Some False, q1)"
        using must(1) by auto
      from pointer_queries(1) [OF p mo] must(2) show ?thesis
      proof (cases rule: returns_cases)
        case (failed q2)
        then have "?out (Return (None, q2))" by (simp add: oneOutcome_def)
        with failed ans show ?thesis by (simp add: resolveOne_forward_def [of C T cs p op] ask_def)
      next
        case (answered q2)
        show ?thesis
        proof (cases "hits ?M p op")
          case True
          then have "?out (Return (Some (Some op), q2))" using answered by (simp add: oneOutcome_def)
          with True ans answered show ?thesis by (simp add: resolveOne_forward_def [of C T cs p op] ask_def hits_def [of ?M p op])
        next
          case miss: False
          obtain c where c: "listLoop (resolveOne_forward C T cs p) xs q2 = Ok c" "oneOutcome I reliable (hits ?M p) xs c"
            using Cons.IH [OF rest answered(2)] by blast
          have "TimingSolver_mayBeTrue T cs (getBoundsCheckPointer C (fst op) p) q1 = Ok (Some False, q2)"
            using miss answered(1) by (auto simp: hits_def)
          with oneOutcome_step [OF c(2) miss] c(1) ans show ?thesis by (simp add: resolveOne_forward_def [of C T cs p op] ask_def)
        qed
      qed
    qed
  qed
qed (simp add: oneOutcome_def)

end

text \<open>What \<open>resolveOne\<close> promises: an object the pointer may point to, or that there is none.\<close>

definition resolvedOne :: "bool \<Rightarrow> env set \<Rightarrow> expr \<Rightarrow> MemoryMap \<Rightarrow> ObjectPair option option \<Rightarrow> bool" where
  "resolvedOne reliable M p t r \<longleftrightarrow>
     (case r of
        None \<Rightarrow> \<not> reliable
      | Some None \<Rightarrow> \<forall>op \<in> set (inorder t). \<not> hits M p op
      | Some (Some op) \<Rightarrow> op \<in> set (inorder t) \<and> hits M p op)"

lemma oneOutcome_return:
  assumes "oneOutcome I reliable (hits M p) xs (Return x)" "set xs \<subseteq> set (inorder t)"
  shows "I (snd x) \<and> resolvedOne reliable M p t (fst x)"
  using assms by (cases x) (auto simp: oneOutcome_def resolvedOne_def split: option.splits)

context timing_solver
begin

lemma resolveOne_symbolic:
  assumes lay: "layoutOK (objects as)" and p: "pointerOK (tsCO T) (modelsOf U cs) C p" and q: "I q" and nc: "\<not> isConstantExpr p"
  shows "\<exists>r q'. resolveOne C T cs p as q = Ok (r, q') \<and> I q' \<and> resolvedOne reliable (modelsOf U cs) p (objects as) r"
proof -
  let ?M = "modelsOf U cs" and ?t = "objects as"
  have sizes: "\<forall>op \<in> set (inorder ?t). moSize (fst op) < 2 ^ 32" using layoutD(4) [OF lay] by blast
  from p q show ?thesis
  proof (cases rule: pointer_value)
    case (failed q1)
    then have "resolveOne C T cs p as q = Ok (None, q1)" using nc by (cases p) (simp_all add: resolveOne_def)
    with failed show ?thesis by (auto simp: resolvedOne_def)
  next
    case (found c q1)
    define a :: "64 word" where "a = word_of_int (apValue c)"
    let ?search = "rbind (listLoop (resolveOne_back C T cs p) (upTo a ?t) q1) (\<lambda>c1. case c1 of
        Return x \<Rightarrow> Ok x
      | Break s1 \<Rightarrow> rbind (listLoop (resolveOne_forward C T cs p) (above a ?t) s1) (\<lambda>c2.
          case c2 of Return x \<Rightarrow> Ok x | Break q2 \<Rightarrow> Ok (Some None, q2) | Continue s2 \<Rightarrow> Abort)
      | Continue s1 \<Rightarrow> Abort)"
    have run: "resolveOne C T cs p as q =
        (case lookup_previous fst MemoryObjectLT (hackObject a) ?t of
           Some (mo, os) \<Rightarrow> if unat (a - moAddress mo) < moSize mo then Ok (Some (Some (mo, os)), q1) else resolveOne_search C T cs p ?t a q1
         | None \<Rightarrow> resolveOne_search C T cs p ?t a q1)"
      using found(1,3) nc by (simp add: resolveOne_def case_nonconst a_def [symmetric])
    have loops: "resolveOne_search C T cs p ?t a q1 = ?search"
      by (simp add: resolveOne_search_def Let_def memory_map.walkBack_upper_bound [OF layoutD(1) [OF lay]]
        memory_map.walkForward_upper_bound [OF layoutD(1) [OF lay]] del: walkBack.simps walkForward.simps)
    have "\<forall>op \<in> set (upTo a ?t). moSize (fst op) < 2 ^ 32" "\<forall>op \<in> set (above a ?t). moSize (fst op) < 2 ^ 32"
      using sizes upTo_above(2,3) [of a ?t] by blast+
    note szs = this and ord = search_order [OF lay, where M = ?M and p = p and e = a]
    obtain c1 where c1: "listLoop (resolveOne_back C T cs p) (upTo a ?t) q1 = Ok c1" "oneOutcome I reliable (hits ?M p) (upTo a ?t) c1"
      using one_back_loop [OF p szs(1) ord(1) found(2)] by blast
    have "\<exists>r q'. ?search = Ok (r, q') \<and> I q' \<and> resolvedOne reliable ?M p ?t r"
    proof (cases c1)
      case (Return x)
      with oneOutcome_return [OF c1(2) [unfolded Return] upTo_above(2)] c1(1) show ?thesis by (cases x) auto
    next
      case (Break q2)
      then have b: "I q2" "filter (hits ?M p) (upTo a ?t) = []" using c1(2) by (simp_all add: oneOutcome_def)
      obtain c2 where c2: "listLoop (resolveOne_forward C T cs p) (above a ?t) q2 = Ok c2" "oneOutcome I reliable (hits ?M p) (above a ?t) c2"
        using one_forward_loop [OF p szs(2) ord(2,3) b(1)] by blast
      show ?thesis
      proof (cases c2)
        case R: (Return x)
        with oneOutcome_return [OF c2(2) [unfolded R] upTo_above(3)] c1(1) c2(1) Break show ?thesis by (cases x) auto
      next
        case B: (Break q3)
        then have "I q3" "filter (hits ?M p) (above a ?t) = []" using c2(2) by (simp_all add: oneOutcome_def)
        with b(2) have "\<forall>op \<in> set (upTo a ?t) \<union> set (above a ?t). \<not> hits ?M p op" unfolding filter_empty_conv by blast
        then have "\<forall>op \<in> set (inorder ?t). \<not> hits ?M p op" unfolding upTo_above(1) .
        with \<open>I q3\<close> c1(1) c2(1) Break B show ?thesis by (simp add: resolvedOne_def)
      qed (use c2(2) in \<open>simp add: oneOutcome_def\<close>)
    qed (use c1(2) in \<open>simp add: oneOutcome_def\<close>)
    then have search: "\<exists>r q'. resolveOne_search C T cs p ?t a q1 = Ok (r, q') \<and> I q' \<and> resolvedOne reliable ?M p ?t r"
      unfolding loops .
    show ?thesis
    proof (cases "lookup_previous fst MemoryObjectLT (hackObject a) ?t")
      case (Some op)
      have asc: "memory_map.asc (inorder ?t)" using layoutD(1) [OF lay] by (simp add: memory_map.search_def)
      have op: "op \<in> set (inorder ?t)"
        using Some memory_map.lookup_previous_eq [OF layoutD(1) [OF lay], of "hackObject a"] memory_map.previous_Some [OF asc] by simp
      show ?thesis
      proof (cases "unat (a - moAddress (fst op)) < moSize (fst op)")
        case True
        then have "hits ?M p op" using found(4) by (auto simp: hits_def inside_def a_def)
        with True Some run op found(2) show ?thesis by (cases op) (simp add: resolvedOne_def)
      next
        case False
        with Some run search show ?thesis by (cases op) simp
      qed
    qed (use run search in simp)
  qed
qed

end

end
