(* ===== verification/SolverCorrect.thy ===== *)
theory SolverCorrect
  imports SolverChain
begin

text \<open>
  The properties of the solver interface and of the chain of solvers, over an arbitrary solver that
  keeps the contract of the implementations, and a solver that enumerates a list of environments,
  which keeps it.
\<close>

section \<open>A solver by enumeration\<close>

definition enumModels :: "env list \<Rightarrow> expr list \<Rightarrow> env list" where
  "enumModels us cs = filter (\<lambda>\<sigma>. satisfied \<sigma> cs) us"

definition EnumSolver :: "env list \<Rightarrow> 'q SolverImpl" where
  "EnumSolver us =
     \<lparr>computeTruth = (\<lambda>Q q. Ok (Some (\<forall>\<sigma> \<in> set (enumModels us (constraints Q)). sem \<sigma> (qexpr Q) = Some 1), q)),
      computeValidity = (\<lambda>Q q. Ok (Some
        (if \<forall>\<sigma> \<in> set (enumModels us (constraints Q)). sem \<sigma> (qexpr Q) = Some 1 then VTrue
         else if \<forall>\<sigma> \<in> set (enumModels us (constraints Q)). sem \<sigma> (qexpr Q) = Some 0 then VFalse else VUnknown), q)),
      computeValue = (\<lambda>Q q. Ok
        (case enumModels us (constraints Q) of
           [] \<Rightarrow> None
         | \<sigma> # _ \<Rightarrow> map_option (\<lambda>v. ConstantExpr (APInt (getWidth (qexpr Q)) v)) (sem \<sigma> (qexpr Q)), q)),
      computeInitialValues = (\<lambda>Q objects q. Ok
        (case filter (\<lambda>\<sigma>. sem \<sigma> (qexpr Q) \<noteq> Some 1) (enumModels us (constraints Q)) of
           [] \<Rightarrow> Some ([], False)
         | \<sigma> # _ \<Rightarrow> Some (map (\<lambda>A. map (\<lambda>j. the (\<sigma> A (int j))) [0..<asize A]) objects, True), q))\<rparr>"

lemma enumModels_set: "set (enumModels us cs) = modelsOf (set us) cs"
  by (auto simp: enumModels_def modelsOf_def)

lemma EnumSolver_contract:
  assumes wf: "\<And>\<sigma>. \<sigma> \<in> set us \<Longrightarrow> wf_env co \<sigma>"
  shows "solver_impl co (set us) reliable (\<lambda>q. True) (EnumSolver us)"
proof
  fix Q assume ok: "okQuery (set us) Q"
  show "getWidth (qexpr Q) = 1 \<Longrightarrow> returns reliable (\<lambda>q. True) (computeTruth (EnumSolver us) Q) (\<lambda>b. b = validIn (set us) Q)"
    "getWidth (qexpr Q) = 1 \<Longrightarrow> returns reliable (\<lambda>q. True) (computeValidity (EnumSolver us) Q) (\<lambda>v. v = validityIn (set us) Q)"
    by (simp_all add: returns_def EnumSolver_def enumModels_set validIn_def validityIn_def unsatIn_def)
  { assume "modelsOf (set us) (constraints Q) \<noteq> {}" "\<not> isConstantExpr (qexpr Q)"
    then obtain \<sigma> ms where ms: "enumModels us (constraints Q) = \<sigma> # ms"
      by (cases "enumModels us (constraints Q)") (auto simp flip: enumModels_set)
    then have m: "\<sigma> \<in> modelsOf (set us) (constraints Q)" by (simp flip: enumModels_set)
    then obtain v where v: "sem \<sigma> (qexpr Q) = Some v" using ok by (auto simp: okQuery_def)
    have "wf_env co \<sigma>" "wf_expr (qexpr Q)" using m wf ok by (auto simp: modelsOf_def okQuery_def)
    from sem_fits(1) [OF v this] m v wf_expr_width_pos [OF this(2)]
    have "valueIn (set us) Q (APInt (getWidth (qexpr Q)) v)" by (auto simp: valueIn_def wf_const_def)
    with ms v show "returns reliable (\<lambda>q. True) (computeValue (EnumSolver us) Q) (\<lambda>e. \<exists>c. e = ConstantExpr c \<and> valueIn (set us) Q c)"
      by (simp add: returns_def EnumSolver_def) }
  fix objects assume w: "getWidth (qexpr Q) = 1" and def: "definedOn (set us) objects"
  let ?f = "filter (\<lambda>\<sigma>. sem \<sigma> (qexpr Q) \<noteq> Some 1) (enumModels us (constraints Q))"
  show "returns reliable (\<lambda>q. True) (computeInitialValues (EnumSolver us) Q objects)
    (\<lambda>(vals, hasSolution). (hasSolution \<longleftrightarrow> \<not> validIn (set us) Q) \<and> (hasSolution \<longrightarrow> initialIn (set us) Q objects vals))"
  proof (cases ?f)
    case Nil
    then have "validIn (set us) Q" by (auto simp: validIn_def filter_empty_conv simp flip: enumModels_set)
    with Nil show ?thesis by (auto simp: returns_def EnumSolver_def)
  next
    case (Cons \<sigma> ms)
    then have "\<sigma> \<in> set ?f" by simp
    then have m: "\<sigma> \<in> modelsOf (set us) (constraints Q)" "sem \<sigma> (qexpr Q) \<noteq> Some 1" by (auto simp: enumModels_set)
    then obtain v where v: "sem \<sigma> (qexpr Q) = Some v" using ok by (auto simp: okQuery_def)
    have "wf_env co \<sigma>" "wf_expr (qexpr Q)" using m wf ok by (auto simp: modelsOf_def okQuery_def)
    from sem_fits(1) [OF v this] v m(2) w have "sem \<sigma> (qexpr Q) = Some 0" by (auto simp: fits_one_iff)
    moreover have "\<sigma> A (int j) = Some (the (\<sigma> A (int j)))" if "A \<in> set objects" "j < asize A" for A j
      using def m(1) that by (auto simp: definedOn_def modelsOf_def)
    ultimately have "initialIn (set us) Q objects (map (\<lambda>A. map (\<lambda>j. the (\<sigma> A (int j))) [0..<asize A]) objects)"
      using m(1) by (auto simp: initialIn_def)
    moreover have "\<not> validIn (set us) Q" using m by (auto simp: validIn_def)
    ultimately show ?thesis using Cons by (auto simp: returns_def EnumSolver_def)
  qed
qed (rule wf)

section \<open>Properties\<close>

text \<open>
  C29: \<open>Solver::getRange\<close> over a solver that keeps its contract and does not fail returns the tight
  range: the constants it returns are the least and the greatest value the expression takes in the
  environments that satisfy the constraints, for every width up to 64 bits.
\<close>

theorem getRange_tight:
  assumes "solver_impl co U True I S" "okQuery U Q" "modelsOf U (constraints Q) \<noteq> {}" "getWidth (qexpr Q) \<le> 64" "I q"
  shows "\<exists>mn mx q'. Solver_getRange co S Q q = Ok ((ConstantExpr (alloc (int mn) (getWidth (qexpr Q))), ConstantExpr (alloc (int mx) (getWidth (qexpr Q)))), q') \<and>
    I q' \<and>
    (\<forall>\<sigma> \<in> modelsOf U (constraints Q). \<exists>v. sem \<sigma> (qexpr Q) = Some v \<and> int mn \<le> v \<and> v \<le> int mx) \<and>
    (\<exists>\<sigma> \<in> modelsOf U (constraints Q). sem \<sigma> (qexpr Q) = Some (int mn)) \<and>
    (\<exists>\<sigma> \<in> modelsOf U (constraints Q). sem \<sigma> (qexpr Q) = Some (int mx))"
  using solver_impl.range_tight [OF assms(1) TrueI assms(2,3) refl assms(4,5)] unfolding tightRange_def rangeExpr_def .

text \<open>A solver over the two environments in which every byte of the buffer is 3 or is 7.\<close>

abbreviation exampleSolver :: "unit SolverImpl" where
  "exampleSolver \<equiv> EnumSolver [env8 3, env8 7]"

abbreviation exampleQuery :: "expr \<Rightarrow> Query" where
  "exampleQuery e \<equiv> \<lparr>constraints = [], qexpr = e\<rparr>"

lemma exampleSolver_contract: "solver_impl False {env8 3, env8 7} True (\<lambda>q :: unit. True) exampleSolver"
proof -
  have "solver_impl False (set [env8 3, env8 7]) True (\<lambda>q :: unit. True) exampleSolver"
    by (rule EnumSolver_contract) auto
  then show ?thesis by simp
qed

lemma exampleQuery_ok:
  "okQuery {env8 3, env8 7} (exampleQuery (bufAt 1))" "okQuery {env8 3, env8 7} (exampleQuery (EqExpr (c8 3) (bufAt 1)))"
  "modelsOf {env8 3, env8 7} [] = {env8 3, env8 7}"
  by (auto simp: okQuery_def modelsOf_def satisfied_def example_simps wf_constraints_def)

theorem getRange_tight_witness:
  "\<exists>mn mx q'. Solver_getRange False exampleSolver (exampleQuery (bufAt 1)) () =
      Ok ((ConstantExpr (alloc (int mn) 8), ConstantExpr (alloc (int mx) 8)), q') \<and> mn \<le> 3 \<and> 7 \<le> mx"
  using getRange_tight [OF exampleSolver_contract exampleQuery_ok(1)] by (fastforce simp: exampleQuery_ok(3) example_simps)

text \<open>
  C30: the caching solver keeps the contract of the solver below it: over any sequence of queries that
  starts with an empty cache, truth and validity are answered as the solver below would, from the
  cache or not, and the answers it stores stay sound.
\<close>

theorem CachingSolver_correct:
  assumes "solver_impl co U reliable I S"
  shows "(\<forall>q. I q \<longrightarrow> cachingInv U I (q, Map.empty)) \<and>
    (\<forall>Q. okQuery U Q \<and> modelsOf U (constraints Q) \<noteq> {} \<and> getWidth (qexpr Q) = 1 \<longrightarrow>
       returns reliable (cachingInv U I) (computeTruth (CachingSolver co cmp S) Q) (\<lambda>b. b = validIn U Q) \<and>
       returns reliable (cachingInv U I) (computeValidity (CachingSolver co cmp S) Q) (\<lambda>v. v = validityIn U Q)) \<and>
    (\<forall>Q. okQuery U Q \<and> modelsOf U (constraints Q) \<noteq> {} \<and> \<not> isConstantExpr (qexpr Q) \<longrightarrow>
       returns reliable (cachingInv U I) (computeValue (CachingSolver co cmp S) Q) (\<lambda>e. \<exists>c. e = ConstantExpr c \<and> valueIn U Q c))"
proof -
  note c = solver_impl.caching_solver [OF assms, of cmp]
  have "I q \<Longrightarrow> cachingInv U I (q, Map.empty)" for q by (simp add: cachingInv_def cacheOK_def)
  with solver_impl.truth [OF c] solver_impl.validity [OF c] solver_impl.val [OF c] show ?thesis by blast
qed

theorem CachingSolver_correct_witness:
  "\<exists>s. computeTruth (CachingSolver False (\<lambda>a b. 1) exampleSolver) (exampleQuery (EqExpr (c8 3) (bufAt 1))) ((), Map.empty) = Ok (Some False, s)"
proof -
  let ?U = "{env8 3, env8 7}" and ?Q = "exampleQuery (EqExpr (c8 3) (bufAt 1))"
  have v: "\<not> validIn ?U ?Q" by (auto simp: validIn_def exampleQuery_ok(3) example_simps kind_simps)
  have "returns True (cachingInv ?U (\<lambda>q :: unit. True)) (computeTruth (CachingSolver False (\<lambda>a b. 1) exampleSolver) ?Q) (\<lambda>b. b = validIn ?U ?Q)"
    using CachingSolver_correct [OF exampleSolver_contract, of "\<lambda>a b. 1"] exampleQuery_ok by (simp add: kind_simps)
  then show ?thesis
    using CachingSolver_correct [OF exampleSolver_contract, of "\<lambda>a b. 1"] v unfolding returns_def by fastforce
qed

end
