(* ===== verification/ResolveCorrect.thy ===== *)
theory ResolveCorrect
  imports PointerResolution SolverCorrect
begin

text \<open>
  The properties of \<open>AddressSpace::resolve\<close> and \<open>AddressSpace::resolveOne\<close>
  (\<open>lib/Core/AddressSpace.cpp\<close>) for constant and symbolic pointers.
\<close>

section \<open>Constant pointers\<close>

lemma constant_hits:
  assumes "M \<noteq> {}"
  shows "hits M (ConstantExpr c) op \<longleftrightarrow> inside (fst op) (word_of_int (apValue c))"
  using assms by (auto simp: hits_def pointees_def)

lemma resolve_constant:
  assumes "layoutOK (objects as)" "bitWidth c = 64" "M \<noteq> {}"
  shows "\<exists>rl. resolve C T cs expired (ConstantExpr c) [] mx as q = Ok ((False, rl), q) \<and>
    resolution reliable expired M (ConstantExpr c) mx (objects as) False rl"
proof -
  obtain r where r: "resolveOne_const c as = Ok r"
    "\<And>op. r = Some op \<longleftrightarrow> op \<in> set (inorder (objects as)) \<and> inside (fst op) (word_of_int (apValue c))"
    using resolveOne_const_eq [OF assms(1), of c] assms(2) by auto
  let ?rl = "case r of Some op \<Rightarrow> [op] | None \<Rightarrow> []"
  have "set ?rl = {op \<in> set (inorder (objects as)). hits M (ConstantExpr c) op}"
    unfolding constant_hits [OF assms(3)] r(2) [symmetric] by (auto split: option.splits)
  then have "resolution reliable expired M (ConstantExpr c) mx (objects as) False ?rl"
    by (auto simp: resolution_def split: option.splits)
  with r(1) show ?thesis by (auto simp: resolve_def split: option.splits)
qed

lemma resolveOne_constant:
  assumes "layoutOK (objects as)" "bitWidth c = 64" "M \<noteq> {}"
  shows "\<exists>r. resolveOne C T cs (ConstantExpr c) as q = Ok (r, q) \<and> resolvedOne reliable M (ConstantExpr c) (objects as) r"
proof -
  obtain r where r: "resolveOne_const c as = Ok r"
    "\<And>op. r = Some op \<longleftrightarrow> op \<in> set (inorder (objects as)) \<and> inside (fst op) (word_of_int (apValue c))"
    using resolveOne_const_eq [OF assms(1), of c] assms(2) by auto
  have "resolvedOne reliable M (ConstantExpr c) (objects as) (Some r)"
    using r(2) unfolding resolvedOne_def constant_hits [OF assms(3)] by (cases r) auto
  with r(1) show ?thesis by (auto simp: resolveOne_def)
qed

section \<open>Properties\<close>

text \<open>
  An address space with one object of four bytes, and a pointer to its fourth byte or beyond its
  end.
\<close>

definition exampleTiming :: "unit TimingSolver" where
  "exampleTiming = \<lparr>tsSolver = exampleSolver, simplifyExprs = False, tsOptions = exampleOptions, tsFuel = \<lambda>cs e. 0\<rparr>"

definition exampleSpace :: AddressSpace where
  "exampleSpace = \<lparr>cowKey = 1, objects = Node Terminator Terminator (exampleMemory, 0) 1\<rparr>"

definition examplePointer :: expr where
  "examplePointer = AddExpr (ConstantExpr (APInt 64 4096)) (ZExtExpr (bufAt 1) 64)"

lemma exampleTiming_contract: "timing_solver {env8 3, env8 7} True (\<lambda>q. True) exampleTiming []"
  using exampleSolver_contract
  by (simp add: timing_solver_def timing_solver_axioms_def exampleTiming_def enoughFuel_def wf_constraints_def exampleQuery_ok(3))

lemma exampleSpace_layout: "layoutOK (objects exampleSpace)"
  by (simp add: layoutOK_def exampleSpace_def exampleMemory_def searchTree_def extent_def balanced.simps)

lemma examplePointer_ok: "pointerOK (tsCO exampleTiming) (modelsOf {env8 3, env8 7} []) exampleContext examplePointer"
  by (auto simp: pointerOK_def definedIn_def examplePointer_def exampleTiming_def exampleQuery_ok(3) example_simps kind_simps wf_const_def fits_def)

lemma examplePointer_hits: "{op \<in> set (inorder (objects exampleSpace)). hits (modelsOf {env8 3, env8 7} []) examplePointer op} = {(exampleMemory, 0)}"
proof -
  have "sem (env8 3) examplePointer = Some 4099" by (simp add: examplePointer_def example_simps kind_simps)
  then have "4099 \<in> pointees (modelsOf {env8 3, env8 7} []) examplePointer" by (force simp: pointees_def exampleQuery_ok(3))
  then have "hits (modelsOf {env8 3, env8 7} []) examplePointer (exampleMemory, 0)"
    by (force simp: hits_def inside_def exampleMemory_def)
  then show ?thesis by (auto simp: exampleSpace_def)
qed

text \<open>
  C31: \<open>AddressSpace::resolve\<close> on a layout without overlaps and a pointer of 64 bits with a value in
  every model of the constraints. It returns distinct objects that the pointer may point into; when it
  reports a complete result, the list has every such object; it reports an incomplete one only after a
  failure of the solver, an expired timer or when the limit, greater than one, is reached; and such a
  limit is respected.
\<close>

theorem resolve_correct:
  assumes "timing_solver U reliable I T cs" "layoutOK (objects as)" "pointerOK (tsCO T) (modelsOf U cs) C p" "I q"
  shows "\<exists>inc rl q'. resolve C T cs expired p [] mx as q = Ok ((inc, rl), q') \<and> I q' \<and>
    distinct rl \<and> set rl \<subseteq> {op \<in> set (inorder (objects as)). hits (modelsOf U cs) p op} \<and>
    (\<not> inc \<longrightarrow> set rl = {op \<in> set (inorder (objects as)). hits (modelsOf U cs) p op}) \<and>
    (inc \<longrightarrow> \<not> reliable \<or> (\<exists>i. expired i) \<or> 1 < mx \<and> length rl = mx) \<and> (1 < mx \<longrightarrow> length rl \<le> mx)"
proof (cases "isConstantExpr p")
  case True
  then obtain c where c: "p = ConstantExpr c" by (rule isConstantExprE)
  with assms(3) have "bitWidth c = 64" by (simp add: pointerOK_def)
  note run = resolve_constant [OF assms(2) this timing_solver.sat_cs [OF assms(1)], of C T cs expired mx q reliable]
  from run show ?thesis unfolding c resolution_def by (elim exE conjE) (intro exI conjI, assumption, rule assms(4), assumption+)
next
  case False
  from timing_solver.resolve_symbolic [OF assms False] show ?thesis unfolding resolution_def .
qed

lemma distinct_singleton: "distinct xs \<Longrightarrow> set xs = {x} \<Longrightarrow> xs = [x]"
  using distinct_card [of xs] by (cases xs; cases "tl xs") auto

theorem resolve_correct_witness:
  "\<exists>q'. resolve exampleContext exampleTiming [] (\<lambda>i. False) examplePointer [] 0 exampleSpace () = Ok ((False, [(exampleMemory, 0)]), q')"
  using resolve_correct [OF exampleTiming_contract exampleSpace_layout examplePointer_ok TrueI, of "\<lambda>i. False" 0 "()"]
  unfolding examplePointer_hits by (elim exE conjE) (auto dest: distinct_singleton)

text \<open>
  C32: \<open>AddressSpace::resolveOne\<close> under the same conditions. It fails only when the solver does; an
  object it returns is one the pointer may point into; and when it reports that there is none, the
  pointer is out of the bounds of every object in every model.
\<close>

theorem resolveOne_correct:
  assumes "timing_solver U reliable I T cs" "layoutOK (objects as)" "pointerOK (tsCO T) (modelsOf U cs) C p" "I q"
  shows "\<exists>r q'. resolveOne C T cs p as q = Ok (r, q') \<and> I q' \<and>
    (r = None \<longrightarrow> \<not> reliable) \<and>
    (r = Some None \<longrightarrow> (\<forall>op \<in> set (inorder (objects as)). \<not> hits (modelsOf U cs) p op)) \<and>
    (\<forall>op. r = Some (Some op) \<longrightarrow> op \<in> set (inorder (objects as)) \<and> hits (modelsOf U cs) p op)"
proof -
  have "\<exists>r q'. resolveOne C T cs p as q = Ok (r, q') \<and> I q' \<and> resolvedOne reliable (modelsOf U cs) p (objects as) r"
  proof (cases "isConstantExpr p")
    case True
    then obtain c where c: "p = ConstantExpr c" by (rule isConstantExprE)
    with assms(3) have "bitWidth c = 64" by (simp add: pointerOK_def)
    note run = resolveOne_constant [OF assms(2) this timing_solver.sat_cs [OF assms(1)], of C T cs q reliable]
    from run assms(4) show ?thesis unfolding c by blast
  qed (rule timing_solver.resolveOne_symbolic [OF assms])
  then show ?thesis by (elim exE conjE) (intro exI conjI, assumption+, auto simp: resolvedOne_def)
qed

theorem resolveOne_correct_witness:
  "\<exists>q'. resolveOne exampleContext exampleTiming [] examplePointer exampleSpace () = Ok (Some (Some (exampleMemory, 0)), q')"
proof -
  let ?M = "modelsOf {env8 3, env8 7} []"
  from resolveOne_correct [OF exampleTiming_contract exampleSpace_layout examplePointer_ok TrueI, of "()"]
  obtain r q' where r: "resolveOne exampleContext exampleTiming [] examplePointer exampleSpace () = Ok (r, q')" "r \<noteq> None"
    "r = Some None \<longrightarrow> (\<forall>op \<in> set (inorder (objects exampleSpace)). \<not> hits ?M examplePointer op)"
    "\<forall>op. r = Some (Some op) \<longrightarrow> op \<in> set (inorder (objects exampleSpace)) \<and> hits ?M examplePointer op" by auto
  have "r \<noteq> Some None" using r(3) examplePointer_hits by blast
  with r(2) obtain op where "r = Some (Some op)" by (cases r) auto
  with r(1,4) show ?thesis by (auto simp: exampleSpace_def)
qed

end
