(* ===== verification/ExecutorPaths.thy ===== *)
theory ExecutorPaths
  imports Executor ResolveCorrect
begin

text \<open>
  What the executor guarantees about the paths it explores: the bookkeeping of states, the division of
  the inputs by a fork, and that no input is lost along an exploration.
\<close>

section \<open>The bookkeeping of states\<close>

text \<open>The states that are still to be executed.\<close>

definition live :: "('q, 'w) Executor \<Rightarrow> nat set" where
  "live E = dom (store E) - set (removedStates E)"

definition execOK :: "('q, 'w) Executor \<Rightarrow> bool" where
  "execOK E \<longleftrightarrow>
     states E \<inter> set (addedStates E) = {} \<and> distinct (addedStates E) \<and>
     distinct (removedStates E) \<and> set (removedStates E) \<subseteq> states E \<and>
     (\<forall>u. store E u = None \<longleftrightarrow> u \<notin> states E \<union> set (addedStates E)) \<and>
     (\<forall>u \<in> states E \<union> set (addedStates E). u < nextState E) \<and>
     ptreeOK (processTree E) \<and> (\<forall>u. ptreeNode (processTree E) u = None \<longleftrightarrow> u \<notin> states E \<union> set (addedStates E)) \<and>
     (\<forall>u. u \<notin> states E \<union> set (addedStates E) \<longrightarrow> seedMap E u = None)"

lemma execOKD:
  assumes "execOK E"
  shows "states E \<inter> set (addedStates E) = {}" "distinct (addedStates E)" "distinct (removedStates E)" "set (removedStates E) \<subseteq> states E"
    "store E u = None \<longleftrightarrow> u \<notin> states E \<union> set (addedStates E)" "u \<in> states E \<union> set (addedStates E) \<Longrightarrow> u < nextState E"
    "ptreeOK (processTree E)" "ptreeNode (processTree E) u = None \<longleftrightarrow> u \<notin> states E \<union> set (addedStates E)"
    "u \<notin> states E \<union> set (addedStates E) \<Longrightarrow> seedMap E u = None"
    "dom (store E) = states E \<union> set (addedStates E)"
proof -
  show "dom (store E) = states E \<union> set (addedStates E)" using assms by (auto simp: execOK_def dom_def)
qed (use assms in \<open>simp_all add: execOK_def\<close>)

lemma live_states: "execOK E \<Longrightarrow> live E = states E \<union> set (addedStates E) - set (removedStates E)"
  by (simp add: live_def execOKD(10))

text \<open>\<open>E'\<close> differs from \<open>E\<close> in the fields of the bookkeeping only.\<close>

definition sameRun :: "('q, 'w) Executor \<Rightarrow> ('q, 'w) Executor \<Rightarrow> bool" where
  "sameRun E E' \<longleftrightarrow> nextState E' = nextState E \<and> testCases E' = testCases E \<and> solverState E' = solverState E \<and>
     inhibitForking E' = inhibitForking E \<and> atMemoryLimit E' = atMemoryLimit E \<and> statForks E' = statForks E"

lemma sameRun_trans: "sameRun E E' \<Longrightarrow> sameRun E' E'' \<Longrightarrow> sameRun E E''"
  by (simp add: sameRun_def)

lemma getState_ok: "store E s = Some es \<Longrightarrow> getState E s = Ok es"
  by (simp add: getState_def)

lemma execOK_put: "execOK E \<Longrightarrow> s \<in> states E \<union> set (addedStates E) \<Longrightarrow> execOK (E\<lparr>store := (store E)(s \<mapsto> es)\<rparr>)"
  by (auto simp: execOK_def)

lemma removeFromTree_ok:
  assumes "ptreeOK (processTree E)" "ptreeNode (processTree E) s \<noteq> None"
  shows "\<exists>T. removeFromTree s E = Ok (E\<lparr>processTree := T\<rparr>) \<and> ptreeNode T = ptreeNode (processTree E) \<and>
    ptreeOK (T\<lparr>ptreeNode := (ptreeNode T)(s := None)\<rparr>)"
proof -
  obtain n where n: "ptreeNode (processTree E) s = Some n" using assms(2) by blast
  from remove_ok [OF assms(1) n] n show ?thesis by (auto simp: removeFromTree_def)
qed

lemma terminateState_ok:
  assumes ok: "execOK E" and s: "s \<in> live E"
  shows "\<exists>E'. terminateState s E = Ok E' \<and> execOK E' \<and> live E' = live E - {s} \<and> sameRun E E' \<and> states E' = states E \<and>
    (\<forall>u. u \<noteq> s \<longrightarrow> store E' u = store E u) \<and>
    (store E' s = None \<or> (\<exists>es. store E s = Some es \<and> store E' s = Some (es\<lparr>pc := prevPC es\<rparr>)))"
proof (cases "s \<in> set (addedStates E)")
  case False
  obtain es where es: "store E s = Some es" using s by (auto simp: live_def)
  let ?E = "E\<lparr>pathsExplored := pathsExplored E + 1, store := (store E)(s \<mapsto> es\<lparr>pc := prevPC es\<rparr>), removedStates := removedStates E @ [s]\<rparr>"
  have run: "terminateState s E = Ok ?E" using False es by (simp add: terminateState_def Let_def getState_def putState_def)
  have "execOK ?E" using ok s False by (auto simp: live_states) (auto simp: execOK_def)
  moreover have "live ?E = live E - {s}" using es by (auto simp: live_def)
  ultimately show ?thesis using run es by (auto simp: sameRun_def)
next
  case True
  let ?E1 = "E\<lparr>pathsExplored := pathsExplored E + 1, seedMap := (seedMap E)(s := None), addedStates := remove1 s (addedStates E)\<rparr>"
  have "ptreeNode (processTree E) s \<noteq> None" using execOKD(8) [OF ok] s by (simp add: live_states [OF ok])
  then obtain T where T: "removeFromTree s ?E1 = Ok (?E1\<lparr>processTree := T\<rparr>)" "ptreeNode T = ptreeNode (processTree E)"
      "ptreeOK (T\<lparr>ptreeNode := (ptreeNode T)(s := None)\<rparr>)"
    using removeFromTree_ok [of ?E1 s] execOKD(7) [OF ok] by auto
  let ?E = "deleteState s (?E1\<lparr>processTree := T\<rparr>)"
  have run: "terminateState s E = Ok ?E" using True T(1) by (simp add: terminateState_def Let_def)
  have "execOK ?E" using ok True T(2,3) by (auto simp: execOK_def deleteState_def)
  moreover have "live ?E = live E - {s}" by (auto simp: live_def deleteState_def)
  ultimately show ?thesis using run by (auto simp: sameRun_def deleteState_def)
qed

lemma removeStates_ok:
  assumes "distinct ss" "set ss \<subseteq> states E" "execOK (E\<lparr>removedStates := []\<rparr>)" "addedStates E = []"
  shows "\<exists>E'. removeStates ss E = Ok E' \<and> store E' = (store E) |` (- set ss) \<and> states E' = states E - set ss \<and>
    execOK (E'\<lparr>removedStates := []\<rparr>) \<and> addedStates E' = [] \<and> sameRun E E'"
  using assms
proof (induction ss arbitrary: E)
  case Nil
  then show ?case by (auto simp: sameRun_def restrict_map_def fun_eq_iff)
next
  case (Cons s ss)
  let ?E1 = "E\<lparr>states := states E - {s}, seedMap := (seedMap E)(s := None)\<rparr>"
  note ok = Cons.prems(3)
  have "ptreeNode (processTree E) s \<noteq> None" "ptreeOK (processTree E)" using execOKD(7,8) [OF ok] Cons.prems(2) by auto
  then obtain T where T: "removeFromTree s ?E1 = Ok (?E1\<lparr>processTree := T\<rparr>)" "ptreeNode T = ptreeNode (processTree E)"
      "ptreeOK (T\<lparr>ptreeNode := (ptreeNode T)(s := None)\<rparr>)"
    using removeFromTree_ok [of ?E1 s] by auto
  let ?E2 = "deleteState s (?E1\<lparr>processTree := T\<rparr>)"
  have E2: "store ?E2 = (store E)(s := None)" "states ?E2 = states E - {s}" "addedStates ?E2 = addedStates E" "sameRun E ?E2"
    by (simp_all add: deleteState_def sameRun_def)
  have step: "removeStates (s # ss) E = removeStates ss ?E2" using Cons.prems(2) T(1) by simp
  have "execOK (?E2\<lparr>removedStates := []\<rparr>)"
    using ok T(2,3) Cons.prems(4) by (auto simp: execOK_def deleteState_def)
  then have "\<exists>E'. removeStates ss ?E2 = Ok E' \<and> store E' = (store ?E2) |` (- set ss) \<and> states E' = states ?E2 - set ss \<and>
      execOK (E'\<lparr>removedStates := []\<rparr>) \<and> addedStates E' = [] \<and> sameRun ?E2 E'"
    using Cons.prems E2(2,3) by (intro Cons.IH) auto
  then obtain E' where E': "removeStates ss ?E2 = Ok E'" "store E' = (store ?E2) |` (- set ss)" "states E' = states ?E2 - set ss"
      "execOK (E'\<lparr>removedStates := []\<rparr>)" "addedStates E' = []" "sameRun ?E2 E'" by blast
  have "store E' = (store E) |` (- set (s # ss))" unfolding E'(2) E2(1) by (auto simp: restrict_map_def fun_eq_iff)
  moreover have "states E' = states E - set (s # ss)" unfolding E'(3) E2(2) by auto
  ultimately show ?case using step E'(1,4,5) sameRun_trans [OF E2(4) E'(6)] by auto
qed

text \<open>The searcher and the executor agree on the states that exist.\<close>

lemma updateStates_ok:
  assumes srch: "searcher S held ready J" and q: "J sq" "held sq = states E" and ok: "execOK E"
    and c: "\<forall>c. current = Some c \<longrightarrow> c \<in> ready sq"
  shows "\<exists>sq' E'. updateStates (Some S) current (sq, E) = Ok (sq', E') \<and> J sq' \<and> held sq' = states E' \<and> execOK E' \<and>
    states E' = live E \<and> addedStates E' = [] \<and> removedStates E' = [] \<and> store E' = (store E) |` live E \<and> sameRun E E'"
proof -
  have "okUpdate (held sq) (ready sq) current (addedStates E) (removedStates E)"
    using ok c q(2) by (auto simp: okUpdate_def execOK_def)
  then obtain sq' w' where u: "update S current (addedStates E) (removedStates E) sq (world E) = Ok (sq', w')" "J sq'"
      "held sq' = (held sq \<union> set (addedStates E)) - set (removedStates E)"
    using searcher.update [OF srch q(1)] by blast
  let ?E1 = "E\<lparr>world := w', states := states E \<union> set (addedStates E), addedStates := []\<rparr>"
  have "execOK (?E1\<lparr>removedStates := []\<rparr>)" using ok by (auto simp: execOK_def)
  then have "\<exists>E'. removeStates (removedStates E) ?E1 = Ok E' \<and> store E' = (store ?E1) |` (- set (removedStates E)) \<and>
      states E' = states ?E1 - set (removedStates E) \<and> execOK (E'\<lparr>removedStates := []\<rparr>) \<and> addedStates E' = [] \<and> sameRun ?E1 E'"
    using execOKD(3,4) [OF ok] by (intro removeStates_ok) auto
  then obtain E2 where E2: "removeStates (removedStates E) ?E1 = Ok E2" "store E2 = (store E) |` (- set (removedStates E))"
      "states E2 = states E \<union> set (addedStates E) - set (removedStates E)" "execOK (E2\<lparr>removedStates := []\<rparr>)"
      "addedStates E2 = []" "sameRun E E2"
    by (auto simp: sameRun_def)
  let ?E' = "E2\<lparr>removedStates := []\<rparr>"
  have run: "updateStates (Some S) current (sq, E) = Ok (sq', ?E')" using u(1) E2(1) by (simp add: updateStates_def)
  have live: "states ?E' = live E" using E2(3) live_states [OF ok] by simp
  have "store ?E' = (store E) |` live E" unfolding live_def using E2(2) by (auto simp: restrict_map_def fun_eq_iff)
  moreover have "held sq' = states ?E'" using u(3) q(2) E2(3) by simp
  moreover have "sameRun E ?E'" using E2(6) by (simp add: sameRun_def)
  ultimately show ?thesis using run u(2) live E2(4,5) by auto
qed

section \<open>Adding a constraint to a path\<close>

definition soundSolving :: "'q Solving \<Rightarrow> env set \<Rightarrow> bool \<Rightarrow> ('q \<Rightarrow> bool) \<Rightarrow> bool" where
  "soundSolving V U reliable I \<longleftrightarrow>
     solver_impl (solvingCO V) U reliable I (tsSolver (timing V)) \<and> enoughFuel (timing V) \<and>
     (\<forall>cs e. addConstraint (tsOptions (timing V)) (constraintFuel V cs e) cs e \<noteq> OutOfFuel)"

definition feasible :: "env set \<Rightarrow> constraints \<Rightarrow> bool" where
  "feasible U cs \<longleftrightarrow> wf_constraints cs \<and> modelsOf U cs \<noteq> {}"

text \<open>
  \<open>cs'\<close> has the inputs of \<open>cs\<close> for which the condition has the value \<open>b\<close>, and no others when there are
  no divisions.
\<close>

definition narrows :: "env set \<Rightarrow> constraints \<Rightarrow> expr \<Rightarrow> int \<Rightarrow> constraints \<Rightarrow> bool" where
  "narrows U cs c b cs' \<longleftrightarrow>
     wf_constraints cs' \<and> {\<sigma> \<in> modelsOf U cs. sem \<sigma> c = Some b} \<subseteq> modelsOf U cs' \<and>
     (\<forall>S. divFreeAll S (c # cs) \<and> (\<forall>\<sigma> \<in> U. totalOn S \<sigma>) \<longrightarrow>
        divFreeAll S cs' \<and> modelsOf U cs' \<subseteq> {\<sigma> \<in> modelsOf U cs. sem \<sigma> c = Some b})"

lemma soundSolving_wf: "soundSolving V U reliable I \<Longrightarrow> \<sigma> \<in> U \<Longrightarrow> wf_env (solvingCO V) \<sigma>"
  using solver_impl.wf_U by (fastforce simp: soundSolving_def)

lemma soundSolving_timing: "soundSolving V U reliable I \<Longrightarrow> feasible U cs \<Longrightarrow> timing_solver U reliable I (timing V) cs"
  by (simp add: timing_solver_def timing_solver_axioms_def soundSolving_def feasible_def)

lemma narrows_models:
  assumes "sameModels (wf_env co) (c # cs) cs'" "wf_constraints (c # cs)" "\<forall>\<sigma> \<in> U. wf_env co \<sigma>"
  shows "narrows U cs c 1 cs'"
  unfolding narrows_def
proof (intro conjI allI impI)
  show "wf_constraints cs'" using sameModelsD(1) [OF assms(1,2)] .
  show "{\<sigma> \<in> modelsOf U cs. sem \<sigma> c = Some 1} \<subseteq> modelsOf U cs'"
    using sameModelsD(2) [OF assms(1,2)] assms(3) by (auto simp: modelsOf_def)
  fix S assume S: "divFreeAll S (c # cs) \<and> (\<forall>\<sigma> \<in> U. totalOn S \<sigma>)"
  show "divFreeAll S cs'" using sameModelsD(3) [OF assms(1,2)] S by blast
  have "satisfied \<sigma> (c # cs)" if "\<sigma> \<in> U" "satisfied \<sigma> cs'" for \<sigma>
    using sameModelsD(4) [OF assms(1,2)] S assms(3) that by blast
  then show "modelsOf U cs' \<subseteq> {\<sigma> \<in> modelsOf U cs. sem \<sigma> c = Some 1}" by (auto simp: modelsOf_def)
qed

lemma bool_value:
  assumes "definedIn (modelsOf U cs) c" "getWidth c = 1" "\<forall>\<sigma> \<in> U. wf_env co \<sigma>" "\<sigma> \<in> modelsOf U cs"
  shows "sem \<sigma> c = Some 0 \<or> sem \<sigma> c = Some 1"
proof -
  obtain v where "sem \<sigma> c = Some v" using assms(1,4) by (auto simp: definedIn_def)
  with sem_fits(1) [OF this, of co] assms show ?thesis by (auto simp: modelsOf_def definedIn_def fits_one_iff)
qed

lemma negated_value:
  assumes "definedIn (modelsOf U cs) c" "getWidth c = 1" "\<forall>\<sigma> \<in> U. wf_env co \<sigma>"
  shows "definedIn (modelsOf U cs) (createIsZero co c)" "getWidth (createIsZero co c) = 1"
    and "\<sigma> \<in> modelsOf U cs \<Longrightarrow> sem \<sigma> (createIsZero co c) = Some 1 \<longleftrightarrow> sem \<sigma> c = Some 0"
proof -
  have wf: "wf_expr c" using assms(1) by (simp add: definedIn_def)
  note r = refinesD [OF createIsZero_sound [of co c]]
  have wfz: "wf_expr (BinaryExpr Eq c (ConstantExpr (alloc 0 (getWidth c))))" using wf assms(2) by (simp add: kind_simps)
  have v: "sem \<sigma> (createIsZero co c) = Some (of_bool (sem \<sigma> c = Some 0))" if "\<sigma> \<in> modelsOf U cs" for \<sigma>
    using r(3) [OF wfz, of \<sigma>] bool_value [OF assms that] assms(2,3) that by (auto simp: modelsOf_def kind_simps)
  show "definedIn (modelsOf U cs) (createIsZero co c)" using v r(1) [OF wfz] by (auto simp: definedIn_def)
  show "getWidth (createIsZero co c) = 1" using r(2) [OF wfz] by (simp add: kind_simps)
  show "\<sigma> \<in> modelsOf U cs \<Longrightarrow> sem \<sigma> (createIsZero co c) = Some 1 \<longleftrightarrow> sem \<sigma> c = Some 0" using v by simp
qed

lemma divFree_createIsZero: "divFree S c \<Longrightarrow> divFree S (createIsZero co c)"
  using pure.createIsZero_weight [of S co c] by (simp add: divFree_def)

lemma narrows_negated:
  assumes "narrows U cs (createIsZero co c) 1 cs'" "definedIn (modelsOf U cs) c" "getWidth c = 1" "\<forall>\<sigma> \<in> U. wf_env co \<sigma>"
  shows "narrows U cs c 0 cs'"
proof -
  have "{\<sigma> \<in> modelsOf U cs. sem \<sigma> (createIsZero co c) = Some 1} = {\<sigma> \<in> modelsOf U cs. sem \<sigma> c = Some 0}"
    using negated_value(3) [OF assms(2-4)] by auto
  note same = this
  show ?thesis
    using assms(1) unfolding narrows_def same divFreeAll_simps by (meson divFree_createIsZero)
qed

lemma constrain_ok:
  assumes sol: "soundSolving V U reliable I" and opts: "\<not> ivcEnabled opts" "store E s = Some es" "seedMap E s = None"
    and cs: "wf_constraints (pathConstraints es)" and c: "definedIn (modelsOf U (pathConstraints es)) c" "getWidth c = 1"
    and \<sigma>: "\<sigma> \<in> modelsOf U (pathConstraints es)" "sem \<sigma> c = Some 1"
  shows "\<exists>cs'. Executor_addConstraint V opts s c E = Ok (E\<lparr>store := (store E)(s \<mapsto> es\<lparr>pathConstraints := cs'\<rparr>)\<rparr>) \<and>
    narrows U (pathConstraints es) c 1 cs'"
proof -
  let ?cs = "pathConstraints es" and ?o = "tsOptions (timing V)"
  have wf: "wf_constraints (c # ?cs)" using cs c by (simp add: definedIn_def)
  have U: "\<forall>\<sigma> \<in> U. wf_env (ConstArrayOpt ?o) \<sigma>" using soundSolving_wf [OF sol] by simp
  show ?thesis
  proof (cases "isConstantExpr c")
    case True
    then obtain k where k: "c = ConstantExpr k" by (rule isConstantExprE)
    have t: "isTrue k" using \<sigma>(2) c(2) by (simp add: k isTrue_def)
    have "sem \<tau> c = Some 1" for \<tau> using \<sigma>(2) by (simp add: k)
    then have "narrows U ?cs c 1 ?cs" using cs by (auto simp: narrows_def)
    moreover have "Executor_addConstraint V opts s c E = Ok E" using t by (simp add: Executor_addConstraint_def k)
    moreover have "E\<lparr>store := (store E)(s \<mapsto> es\<lparr>pathConstraints := ?cs\<rparr>)\<rparr> = E" using opts(2) by (simp add: fun_upd_idem)
    ultimately show ?thesis by metis
  next
    case False
    have "addConstraint ?o (constraintFuel V ?cs c) ?cs c \<noteq> OutOfFuel" using sol by (simp add: soundSolving_def)
    then obtain cs' where cs': "addConstraint ?o (constraintFuel V ?cs c) ?cs c = Ok cs'"
      using addConstraint_returns [OF wf, of ?o \<sigma>] U \<sigma> by (auto simp: modelsOf_def)
    have "ES_addConstraint ?o (constraintFuel V) c es = Ok (es\<lparr>pathConstraints := cs'\<rparr>)" using cs' by (simp add: ES_addConstraint_def)
    then have "Executor_addConstraint V opts s c E = Ok (E\<lparr>store := (store E)(s \<mapsto> es\<lparr>pathConstraints := cs'\<rparr>)\<rparr>)"
      using False opts by (cases c) (simp_all add: Executor_addConstraint_def getState_def putState_def)
    with narrows_models [OF addConstraint_models [OF cs'] wf U] show ?thesis by blast
  qed
qed

section \<open>Forking\<close>

text \<open>The copies of a state have its registers and its objects.\<close>

definition inherits :: "ExecutionState \<Rightarrow> ExecutionState \<Rightarrow> bool" where
  "inherits es ts \<longleftrightarrow> stack ts = stack es \<and> objects (addressSpace ts) = objects (addressSpace es) \<and> forkDisabled ts = forkDisabled es"

lemma inherits_refl [simp]: "inherits es es"
  by (simp add: inherits_def)

lemma inherits_trans: "inherits a b \<Longrightarrow> inherits b c \<Longrightarrow> inherits a c"
  by (simp add: inherits_def)

lemma inherits_constraints [simp]: "inherits es (ts\<lparr>pathConstraints := cs\<rparr>) = inherits es ts"
  by (simp add: inherits_def)

lemma branch_inherits: "branch es = (a, b) \<Longrightarrow> inherits es a \<and> inherits es b"
  by (auto simp: inherits_def branch_def AddressSpace_copy_def Let_def)

lemma pathBit_ok:
  assumes "store E s = Some es"
  shows "\<exists>es'. pathBit on s b E = Ok (E\<lparr>store := (store E)(s \<mapsto> es')\<rparr>) \<and> pathConstraints es' = pathConstraints es \<and> inherits es es'"
    and "\<exists>es'. symPathBit on s b E = Ok (E\<lparr>store := (store E)(s \<mapsto> es')\<rparr>) \<and> pathConstraints es' = pathConstraints es \<and> inherits es es'"
proof -
  have idem: "E = E\<lparr>store := (store E)(s \<mapsto> es)\<rparr>" using assms by (simp add: fun_upd_idem)
  show "\<exists>es'. pathBit on s b E = Ok (E\<lparr>store := (store E)(s \<mapsto> es')\<rparr>) \<and> pathConstraints es' = pathConstraints es \<and> inherits es es'"
    "\<exists>es'. symPathBit on s b E = Ok (E\<lparr>store := (store E)(s \<mapsto> es')\<rparr>) \<and> pathConstraints es' = pathConstraints es \<and> inherits es es'"
    using assms idem by (cases on; force simp: pathBit_def symPathBit_def getState_def putState_def inherits_def)+
qed

lemma forkPair_ok:
  assumes sol: "soundSolving V U reliable I" and opts: "\<not> ivcEnabled opts" and ok: "execOK E"
    and s: "store E s = Some es" "seedMap E s = None" and cs: "wf_constraints (pathConstraints es)"
    and c: "definedIn (modelsOf U (pathConstraints es)) c" "getWidth c = 1"
    and both: "\<sigma> \<in> modelsOf U (pathConstraints es)" "sem \<sigma> c = Some 1" "\<tau> \<in> modelsOf U (pathConstraints es)" "sem \<tau> c = Some 0"
  shows "\<exists>T ts fs. forkPair V opts s c isInternal E =
      Ok (nextState E, E\<lparr>store := (store E)(s \<mapsto> ts, nextState E \<mapsto> fs), nextState := nextState E + 1,
        addedStates := addedStates E @ [nextState E], processTree := T, statForks := statForks E + 1\<rparr>) \<and>
    ptreeOK T \<and> dom (ptreeNode T) = insert (nextState E) (dom (ptreeNode (processTree E))) \<and>
    narrows U (pathConstraints es) c 1 (pathConstraints ts) \<and> narrows U (pathConstraints es) c 0 (pathConstraints fs) \<and>
    inherits es ts \<and> inherits es fs"
proof -
  let ?f = "nextState E" and ?co = "solvingCO V" and ?cs = "pathConstraints es"
  have U: "\<forall>\<sigma> \<in> U. wf_env ?co \<sigma>" using soundSolving_wf [OF sol] by blast
  have in_s: "s \<in> states E \<union> set (addedStates E)" using s(1) execOKD(5) [OF ok, of s] by auto
  have sf: "s \<noteq> ?f" "?f \<notin> states E \<union> set (addedStates E)" using execOKD(6) [OF ok] in_s by (meson less_irrefl)+
  have seedf: "seedMap E ?f = None" using execOKD(9) [OF ok sf(2)] .
  obtain es1 fs1 where br: "branch es = (es1, fs1)" by (cases "branch es")
  then have pcs: "pathConstraints es1 = ?cs" "pathConstraints fs1 = ?cs" by (auto simp: branch_def Let_def split: prod.splits)
  have inh: "inherits es es1" "inherits es fs1" using branch_inherits [OF br] by simp_all
  obtain n where n: "ptreeNode (processTree E) s = Some n" using execOKD(8) [OF ok, of s] in_s by auto
  let ?T0 = "(processTree E)\<lparr>ptreeNode := (ptreeNode (processTree E))(?f := Some n)\<rparr>"
  define E1 where "E1 = E\<lparr>statForks := statForks E + 1, store := (store E)(s \<mapsto> es1, ?f \<mapsto> fs1), nextState := ?f + 1,
    addedStates := addedStates E @ [?f], processTree := ?T0\<rparr>"
  have b1: "branchState s (E\<lparr>statForks := statForks E + 1\<rparr>) = Ok (?f, E1)"
    using s(1) br n by (simp add: branchState_def getState_def E1_def Let_def)
  have b2: "divideSeeds V c s ?f E1 = Ok E1" using s(2) by (simp add: divideSeeds_def E1_def)
  have "ptreeNode (processTree E) ?f = None" using execOKD(8) [OF ok, of ?f] sf(2) by simp
  then obtain T where T: "attach n ?f s ?T0 = Ok T" "ptreeOK T" "dom (ptreeNode T) = insert ?f (dom (ptreeNode (processTree E)))"
    using fork_ok [OF execOKD(7) [OF ok] n] by blast
  define E3 where "E3 = E1\<lparr>processTree := T\<rparr>"
  have b3: "attachStates s ?f s E1 = Ok E3" using T(1) n sf(1) by (simp add: attachStates_def E1_def E3_def)
  have st: "store E3 s = Some es1" "store E3 ?f = Some fs1" "store E3 = (store E)(s \<mapsto> es1, ?f \<mapsto> fs1)" using sf(1) by (simp_all add: E3_def E1_def)
  obtain a where a: "pathBit (pathWriter opts \<and> \<not> isInternal) s True E3 = Ok (E3\<lparr>store := (store E3)(s \<mapsto> a)\<rparr>)" "pathConstraints a = ?cs" "inherits es a"
    using pathBit_ok(1) [OF st(1)] pcs inh inherits_trans by metis
  obtain b where b: "pathBit (pathWriter opts \<and> \<not> isInternal) ?f False (E3\<lparr>store := (store E3)(s \<mapsto> a)\<rparr>) = Ok (E3\<lparr>store := (store E3)(s \<mapsto> a, ?f \<mapsto> b)\<rparr>)"
      "pathConstraints b = ?cs" "inherits es b"
    using pathBit_ok(1) [of "E3\<lparr>store := (store E3)(s \<mapsto> a)\<rparr>" ?f fs1] st sf(1) pcs inherits_trans [OF inh(2)] by fastforce
  obtain d where d: "symPathBit (symPathWriter opts \<and> \<not> isInternal) s True (E3\<lparr>store := (store E3)(s \<mapsto> a, ?f \<mapsto> b)\<rparr>) =
      Ok (E3\<lparr>store := (store E3)(s \<mapsto> d, ?f \<mapsto> b)\<rparr>)" "pathConstraints d = ?cs" "inherits es d"
    using pathBit_ok(2) [of "E3\<lparr>store := (store E3)(s \<mapsto> a, ?f \<mapsto> b)\<rparr>" s a] sf(1) a(2) inherits_trans [OF a(3)] by (fastforce simp: fun_upd_twist)
  obtain e where e: "symPathBit (symPathWriter opts \<and> \<not> isInternal) ?f False (E3\<lparr>store := (store E3)(s \<mapsto> d, ?f \<mapsto> b)\<rparr>) =
      Ok (E3\<lparr>store := (store E3)(s \<mapsto> d, ?f \<mapsto> e)\<rparr>)" "pathConstraints e = ?cs" "inherits es e"
    using pathBit_ok(2) [of "E3\<lparr>store := (store E3)(s \<mapsto> d, ?f \<mapsto> b)\<rparr>" ?f b] sf(1) b(2) inherits_trans [OF b(3)] by fastforce
  let ?E7 = "E3\<lparr>store := (store E3)(s \<mapsto> d, ?f \<mapsto> e)\<rparr>"
  obtain ct where ct: "Executor_addConstraint V opts s c ?E7 = Ok (?E7\<lparr>store := (store ?E7)(s \<mapsto> d\<lparr>pathConstraints := ct\<rparr>)\<rparr>)" "narrows U ?cs c 1 ct"
    using constrain_ok [OF sol opts, of ?E7 s d c \<sigma>] sf(1) s(2) cs c both d(2) by (auto simp: E3_def E1_def)
  let ?E8 = "?E7\<lparr>store := (store ?E7)(s \<mapsto> d\<lparr>pathConstraints := ct\<rparr>)\<rparr>"
  note z = negated_value [OF c U]
  obtain cf where cf: "Executor_addConstraint V opts ?f (createIsZero ?co c) ?E8 = Ok (?E8\<lparr>store := (store ?E8)(?f \<mapsto> e\<lparr>pathConstraints := cf\<rparr>)\<rparr>)"
      "narrows U ?cs (createIsZero ?co c) 1 cf"
    using constrain_ok [OF sol opts, of ?E8 ?f e "createIsZero ?co c" \<tau>] sf(1) seedf cs z both e(2) by (auto simp: E3_def E1_def)
  have "forkPair V opts s c isInternal E = Ok (?f, ?E8\<lparr>store := (store ?E8)(?f \<mapsto> e\<lparr>pathConstraints := cf\<rparr>)\<rparr>)"
    using b1 b2 b3 a(1) b(1) d(1) e(1) ct(1) cf(1) by (simp add: forkPair_def)
  moreover have "(store ?E8)(?f \<mapsto> e\<lparr>pathConstraints := cf\<rparr>) = (store E)(s \<mapsto> d\<lparr>pathConstraints := ct\<rparr>, ?f \<mapsto> e\<lparr>pathConstraints := cf\<rparr>)"
    using sf(1) st(3) by (auto simp: fun_eq_iff)
  ultimately have run: "forkPair V opts s c isInternal E = Ok (?f, ?E8\<lparr>store := (store E)(s \<mapsto> d\<lparr>pathConstraints := ct\<rparr>, ?f \<mapsto> e\<lparr>pathConstraints := cf\<rparr>)\<rparr>)"
    by simp
  show ?thesis
    by (rule exI [of _ T], rule exI [of _ "d\<lparr>pathConstraints := ct\<rparr>"], rule exI [of _ "e\<lparr>pathConstraints := cf\<rparr>"])
       (use run T(2,3) ct(2) narrows_negated [OF cf(2) c U] d(3) e(3) in \<open>simp add: E3_def E1_def\<close>)
qed

definition pathsOK :: "env set \<Rightarrow> ('q, 'w) Executor \<Rightarrow> bool" where
  "pathsOK U E \<longleftrightarrow> (\<forall>u es. store E u = Some es \<longrightarrow> feasible U (pathConstraints es))"

text \<open>No option and no seed keeps a fork from following both sides.\<close>

definition unrestricted :: "'w ExecutorOptions \<Rightarrow> nat \<Rightarrow> ExecutionState \<Rightarrow> ('q, 'w) Executor \<Rightarrow> bool" where
  "unrestricted opts s es E \<longleftrightarrow>
     \<not> ivcEnabled opts \<and> \<not> staticLimit opts es (world E) \<and> replayPath opts = None \<and> \<not> replayKTest opts \<and> seedMap E s = None \<and>
     \<not> mayNotFork opts es E"

text \<open>A state has ended, and a test has been written for it.\<close>

definition finished :: "nat \<Rightarrow> ExecutionState \<Rightarrow> ('q, 'w) Executor \<Rightarrow> ('q, 'w) Executor \<Rightarrow> bool" where
  "finished s es E E' \<longleftrightarrow>
     execOK E' \<and> live E' = live E - {s} \<and> states E' = states E \<and> (\<forall>u. u \<noteq> s \<longrightarrow> store E' u = store E u) \<and>
     (\<forall>es'. store E' s = Some es' \<longrightarrow> pathConstraints es' = pathConstraints es) \<and>
     solverState E' = solverState E \<and> (\<exists>m. testCases E' = testCases E @ [(s, es, m)])"

lemma terminate_finished:
  assumes ok: "execOK E" and s: "s \<in> live E" "store E s = Some es"
  shows "\<exists>E'. terminateState s (E\<lparr>testCases := testCases E @ [(s, es, m)]\<rparr>) = Ok E' \<and> finished s es E E'"
proof -
  let ?E = "E\<lparr>testCases := testCases E @ [(s, es, m)]\<rparr>"
  have "execOK ?E" "live ?E = live E" using ok by (simp_all add: execOK_def live_def)
  with terminateState_ok [of ?E s] s show ?thesis by (fastforce simp: finished_def sameRun_def)
qed

lemma terminateStateEarly_ok:
  assumes "execOK E" "s \<in> live E" "store E s = Some es" "\<not> OnlyOutputStatesCoveringNew opts"
  shows "\<exists>E'. terminateStateEarly opts s m E = Ok E' \<and> finished s es E E'"
    and "\<exists>E'. terminateStateOnExit opts s E = Ok E' \<and> finished s es E E'"
  using terminate_finished [OF assms(1-3)] assms(3,4)
  by (simp_all add: terminateStateEarly_def terminateStateOnExit_def processTestCase_def wantsTest_def getState_def)

lemma fork_cases:
  assumes sol: "soundSolving V U reliable I" and ok: "execOK E" and q: "I (solverState E)" and s: "s \<in> live E" "store E s = Some es"
    and cs: "feasible U (pathConstraints es)" and c: "definedIn (modelsOf U (pathConstraints es)) c" "getWidth c = 1"
    and un: "unrestricted opts s es E"
  obtains (fails) q' where "\<not> reliable" "I q'" "fork V opts s c isInternal E =
      rbind (terminateStateEarly opts s ''Query timed out (fork).'' (E\<lparr>solverState := q', store := (store E)(s \<mapsto> es\<lparr>pc := prevPC es\<rparr>)\<rparr>)) (\<lambda>E2. Ok ((None, None), E2))"
  | (true) q' es' where "I q'" "pathConstraints es' = pathConstraints es" "inherits es es'" "\<forall>\<sigma> \<in> modelsOf U (pathConstraints es). sem \<sigma> c = Some 1"
      "fork V opts s c isInternal E = Ok ((Some s, None), E\<lparr>solverState := q', store := (store E)(s \<mapsto> es')\<rparr>)"
  | (false) q' es' where "I q'" "pathConstraints es' = pathConstraints es" "inherits es es'" "\<forall>\<sigma> \<in> modelsOf U (pathConstraints es). sem \<sigma> c = Some 0"
      "fork V opts s c isInternal E = Ok ((None, Some s), E\<lparr>solverState := q', store := (store E)(s \<mapsto> es')\<rparr>)"
  | (both) q' \<sigma> \<tau> where "I q'" "fork V opts s c isInternal E = forkBoth V opts s c isInternal (E\<lparr>solverState := q'\<rparr>)"
      "\<sigma> \<in> modelsOf U (pathConstraints es)" "sem \<sigma> c = Some 1" "\<tau> \<in> modelsOf U (pathConstraints es)" "sem \<tau> c = Some 0"
proof -
  let ?cs = "pathConstraints es" and ?M = "modelsOf U (pathConstraints es)"
  have U: "\<forall>\<sigma> \<in> U. wf_env (solvingCO V) \<sigma>" using soundSolving_wf [OF sol] by blast
  obtain r q' where r: "TimingSolver_evaluate (timing V) ?cs c (solverState E) = Ok (r, q')" "I q'" "reliable \<longrightarrow> r \<noteq> None"
      "\<forall>v. r = Some v \<longrightarrow> v = validityIn U \<lparr>constraints = ?cs, qexpr = c\<rparr>"
    using timing_solver.ts_evaluate [OF soundSolving_timing [OF sol cs] c] q unfolding returns_def by blast
  have fixed: "fixCondition V opts s c E = Ok (c, E)" using un s(2) by (simp add: fixCondition_def getState_def unrestricted_def)
  let ?E1 = "E\<lparr>solverState := q'\<rparr>"
  have st1: "store ?E1 s = Some es" "seedMap ?E1 s = None" using s(2) un by (simp_all add: unrestricted_def)
  have rest: "restrictBranch V opts s c isInternal v ?E1 = Ok (v, ?E1)" for v
    using un s(2) by (auto simp: restrictBranch_def getState_def unrestricted_def mayNotFork_def)
  note b = bool_value [OF c U]
  note run = fork_def [of V opts s c isInternal E]
  show thesis
  proof (cases r)
    case None
    then show thesis using fails [of q'] r fixed s(2) run by (simp add: getState_def putState_def)
  next
    case (Some v)
    with r(4) have v: "v = validityIn U \<lparr>constraints = ?cs, qexpr = c\<rparr>" by simp
    have go: "fork V opts s c isInternal E =
        (case v of
           VTrue \<Rightarrow> rbind (pathBit (pathWriter opts \<and> \<not> isInternal) s True ?E1) (\<lambda>E3. Ok ((Some s, None), E3))
         | VFalse \<Rightarrow> rbind (pathBit (pathWriter opts \<and> \<not> isInternal) s False ?E1) (\<lambda>E3. Ok ((None, Some s), E3))
         | VUnknown \<Rightarrow> forkBoth V opts s c isInternal ?E1)"
      using Some r(1) fixed s(2) st1(2) rest by (simp add: run getState_def)
    show thesis
    proof (cases v)
      case VTrue
      then have "validIn U \<lparr>constraints = ?cs, qexpr = c\<rparr>" using v by (auto simp: validityIn_def split: if_splits)
      then have "\<forall>\<sigma> \<in> ?M. sem \<sigma> c = Some 1" by (simp add: validIn_def)
      then show thesis using true [OF r(2)] pathBit_ok(1) [OF st1(1), of "pathWriter opts \<and> \<not> isInternal" True] go VTrue by force
    next
      case VFalse
      then have "unsatIn U \<lparr>constraints = ?cs, qexpr = c\<rparr>" using v by (auto simp: validityIn_def split: if_splits)
      then have "\<forall>\<sigma> \<in> ?M. sem \<sigma> c = Some 0" by (simp add: unsatIn_def)
      then show thesis using false [OF r(2)] pathBit_ok(1) [OF st1(1), of "pathWriter opts \<and> \<not> isInternal" False] go VFalse by force
    next
      case VUnknown
      then have "\<not> validIn U \<lparr>constraints = ?cs, qexpr = c\<rparr>" "\<not> unsatIn U \<lparr>constraints = ?cs, qexpr = c\<rparr>"
        using v by (auto simp: validityIn_def split: if_splits)
      then obtain \<sigma> \<tau> where "\<tau> \<in> ?M" "sem \<tau> c \<noteq> Some 1" "\<sigma> \<in> ?M" "sem \<sigma> c \<noteq> Some 0" by (auto simp: validIn_def unsatIn_def)
      with both [OF r(2), of \<sigma> \<tau>] b [of \<sigma>] b [of \<tau>] go VUnknown show thesis by auto
    qed
  qed
qed

text \<open>What a side of a fork returns: a state that has the inputs of this side, or none if there are none.\<close>

definition sideOf :: "env set \<Rightarrow> ('q, 'w) Executor \<Rightarrow> ExecutionState \<Rightarrow> expr \<Rightarrow> int \<Rightarrow> nat option \<Rightarrow> bool" where
  "sideOf U E es c b t =
     (case t of
        None \<Rightarrow> \<forall>\<sigma> \<in> modelsOf U (pathConstraints es). sem \<sigma> c \<noteq> Some b
      | Some u \<Rightarrow> (\<exists>\<sigma> \<in> modelsOf U (pathConstraints es). sem \<sigma> c = Some b) \<and> u \<in> live E \<and>
          (\<exists>ts. store E u = Some ts \<and> inherits es ts \<and> narrows U (pathConstraints es) c b (pathConstraints ts)))"

text \<open>The limits, the seeds and the tests written so far are as before.\<close>

definition sameMode :: "('q, 'w) Executor \<Rightarrow> ('q, 'w) Executor \<Rightarrow> bool" where
  "sameMode E E' \<longleftrightarrow> testCases E' = testCases E \<and> states E' = states E \<and> seedMap E' = seedMap E \<and>
     atMemoryLimit E' = atMemoryLimit E \<and> inhibitForking E' = inhibitForking E"

lemma sideOf_Some: "sideOf U E es c b t \<Longrightarrow> \<sigma> \<in> modelsOf U (pathConstraints es) \<Longrightarrow> sem \<sigma> c = Some b \<Longrightarrow> t \<noteq> None"
  by (auto simp: sideOf_def split: option.splits)

lemma narrows_feasible: "narrows U cs c b cs' \<Longrightarrow> \<sigma> \<in> modelsOf U cs \<Longrightarrow> sem \<sigma> c = Some b \<Longrightarrow> feasible U cs'"
  by (auto simp: narrows_def feasible_def)

lemma narrows_all: "wf_constraints cs \<Longrightarrow> \<forall>\<sigma> \<in> modelsOf U cs. sem \<sigma> c = Some b \<Longrightarrow> narrows U cs c b cs"
  by (auto simp: narrows_def)

lemma live_put: "store E s = Some es \<Longrightarrow> live (E\<lparr>solverState := q, store := (store E)(s \<mapsto> es')\<rparr>) = live E"
  by (auto simp: live_def)

lemma pathsOK_put:
  "pathsOK U E \<Longrightarrow> feasible U (pathConstraints es') \<Longrightarrow> pathsOK U (E\<lparr>solverState := q, store := (store E)(s \<mapsto> es')\<rparr>)"
  by (simp add: pathsOK_def)

lemma execOK_solver [simp]: "execOK (E\<lparr>solverState := q\<rparr>) = execOK E" "execOK (E\<lparr>solverState := q, store := st\<rparr>) = execOK (E\<lparr>store := st\<rparr>)"
  by (simp_all add: execOK_def)

lemma oneSide:
  assumes "execOK E" "pathsOK U E" "s \<in> live E" "store E s = Some es" "pathConstraints es' = pathConstraints es" "inherits es es'"
    and "\<forall>\<sigma> \<in> modelsOf U (pathConstraints es). sem \<sigma> c = Some b" and "E' = E\<lparr>solverState := q, store := (store E)(s \<mapsto> es')\<rparr>"
  shows "execOK E' \<and> pathsOK U E' \<and> solverState E' = q \<and> live E' = live E \<and> sameMode E E' \<and> (\<forall>u \<in> live E - {s}. store E' u = store E u) \<and>
    sideOf U E' es c b (Some s) \<and> (\<forall>b'. b' \<noteq> b \<longrightarrow> sideOf U E' es c b' None)"
proof -
  have cs: "feasible U (pathConstraints es)" using assms(2,4) by (auto simp: pathsOK_def)
  have in_s: "s \<in> states E \<union> set (addedStates E)" using assms(3) live_states [OF assms(1)] by auto
  have live: "live E' = live E" using live_put [OF assms(4)] by (simp add: assms(8))
  have "execOK E'" using execOK_put [OF assms(1) in_s] by (simp add: assms(8))
  moreover have "pathsOK U E'" using pathsOK_put [OF assms(2)] cs assms(5) by (simp add: assms(8))
  moreover have "\<exists>\<sigma> \<in> modelsOf U (pathConstraints es). sem \<sigma> c = Some b" using cs assms(7) by (auto simp: feasible_def)
  then have "sideOf U E' es c b (Some s)"
    using narrows_all [OF _ assms(7)] cs live assms(3,5,6) by (simp add: sideOf_def assms(8) feasible_def)
  moreover have "sideOf U E' es c b' None" if "b' \<noteq> b" for b' using that assms(7) by (simp add: sideOf_def)
  ultimately show ?thesis using live by (simp add: assms(8) sameMode_def)
qed

text \<open>The pair of states after a fork that follows both sides.\<close>

lemma forkPair_result:
  assumes "soundSolving V U reliable I" "execOK E" "pathsOK U E" "s \<in> live E" "store E s = Some es" "unrestricted opts s es E"
    and c: "definedIn (modelsOf U (pathConstraints es)) c" "getWidth c = 1"
    and both: "\<sigma> \<in> modelsOf U (pathConstraints es)" "sem \<sigma> c = Some 1" "\<tau> \<in> modelsOf U (pathConstraints es)" "sem \<tau> c = Some 0"
  shows "\<exists>f E'. forkPair V opts s c isInternal E = Ok (f, E') \<and> execOK E' \<and> pathsOK U E' \<and> solverState E' = solverState E \<and>
    sameMode E E' \<and> f \<notin> live E \<and> s \<noteq> f \<and> live E' = insert f (live E) \<and> (\<forall>u \<in> live E - {s}. store E' u = store E u) \<and>
    sideOf U E' es c 1 (Some s) \<and> sideOf U E' es c 0 (Some f)"
proof -
  let ?f = "nextState E"
  have cs: "wf_constraints (pathConstraints es)" using assms(3,5) by (auto simp: pathsOK_def feasible_def)
  have opts: "\<not> ivcEnabled opts" "seedMap E s = None" using assms(6) by (simp_all add: unrestricted_def)
  obtain T ts fs where fp: "forkPair V opts s c isInternal E =
        Ok (?f, E\<lparr>store := (store E)(s \<mapsto> ts, ?f \<mapsto> fs), nextState := ?f + 1, addedStates := addedStates E @ [?f],
          processTree := T, statForks := statForks E + 1\<rparr>)"
      and T: "ptreeOK T" "dom (ptreeNode T) = insert ?f (dom (ptreeNode (processTree E)))"
      and n: "narrows U (pathConstraints es) c 1 (pathConstraints ts)" "narrows U (pathConstraints es) c 0 (pathConstraints fs)"
        "inherits es ts" "inherits es fs"
    using forkPair_ok [OF assms(1) opts(1) assms(2,5) opts(2) cs c both, of isInternal] by blast
  let ?E' = "E\<lparr>store := (store E)(s \<mapsto> ts, ?f \<mapsto> fs), nextState := ?f + 1, addedStates := addedStates E @ [?f],
      processTree := T, statForks := statForks E + 1\<rparr>"
  note d = execOKD [OF assms(2)]
  have fresh: "?f \<notin> states E \<union> set (addedStates E)" using d(6) by blast
  have in_s: "s \<in> states E \<union> set (addedStates E)" "s \<notin> set (removedStates E)" using assms(4) live_states [OF assms(2)] by auto
  then have sf: "s \<noteq> ?f" using fresh by auto
  have "ptreeNode T u = None \<longleftrightarrow> u \<notin> states ?E' \<union> set (addedStates ?E')" for u
  proof -
    have "u \<in> dom (ptreeNode T) \<longleftrightarrow> u = ?f \<or> u \<in> dom (ptreeNode (processTree E))" unfolding T(2) by blast
    then show ?thesis using d(8) [of u] by auto
  qed
  moreover have "u < ?f + 1" if "u \<in> states ?E' \<union> set (addedStates ?E')" for u using that d(6) [of u] by auto
  ultimately have ok: "execOK ?E'"
    unfolding execOK_def using d(1-5,9) fresh in_s T(1) by auto
  have live: "live ?E' = insert ?f (live E)" unfolding live_states [OF ok] live_states [OF assms(2)] using d(4) fresh by auto
  have "feasible U (pathConstraints ts)" "feasible U (pathConstraints fs)"
    using narrows_feasible [OF n(1) both(1,2)] narrows_feasible [OF n(2) both(3,4)] .
  then have "pathsOK U ?E'" using assms(3) by (auto simp: pathsOK_def)
  moreover have "\<exists>\<sigma> \<in> modelsOf U (pathConstraints es). sem \<sigma> c = Some 1" "\<exists>\<sigma> \<in> modelsOf U (pathConstraints es). sem \<sigma> c = Some 0"
    using both by blast+
  ultimately show ?thesis
    using fp ok live n sf assms(4) fresh live_states [OF assms(2)] by (intro exI [of _ ?f] exI [of _ ?E']) (auto simp: sideOf_def sameMode_def)
qed

text \<open>An execution that starts with one state, over the two inputs of the example solver.\<close>

definition exampleExecOptions :: "unit ExecutorOptions" where
  "exampleExecOptions =
     \<lparr>MaxForks = 2 ^ 32 - 1, MaxDepth = 0, MaxMemoryInhibit = True, OnlyReplaySeeds = False, OnlyOutputStatesCoveringNew = False,
      AlwaysOutputSeeds = True, ivcEnabled = False, replayKTest = False, replayPath = None, pathWriter = True, symPathWriter = False,
      staticLimit = \<lambda>es w. False, getInt32 = \<lambda>w. (0, w)\<rparr>"

definition exampleExecutor :: "(unit, unit) Executor" where
  "exampleExecutor =
     \<lparr>store = [0 \<mapsto> ExecutionState_new \<lparr>kfunction = 1, numRegisters = 1, firstInstruction = 7\<rparr>], nextState = 1, states = {0},
      addedStates = [], removedStates = [], seedMap = Map.empty, processTree = PTree_new 0, statForks = 0, pathsExplored = 0,
      testCases = [], replayPosition = 0, atMemoryLimit = False, inhibitForking = False, solverState = (), world = ()\<rparr>"

lemma constraintFuel_exists: "\<exists>fuel. \<forall>cs e. addConstraint opts (fuel cs e) cs e \<noteq> OutOfFuel"
proof -
  have "\<forall>cs e. \<exists>n. addConstraint opts n cs e \<noteq> OutOfFuel" using addConstraint_ends by blast
  then show ?thesis by metis
qed

lemma exampleSolving_sound:
  assumes "\<forall>cs e. addConstraint exampleOptions (fuel cs e) cs e \<noteq> OutOfFuel"
  shows "soundSolving \<lparr>timing = exampleTiming, constraintFuel = fuel\<rparr> {env8 3, env8 7} True (\<lambda>q. True)"
  using exampleSolver_contract assms by (simp add: soundSolving_def exampleTiming_def enoughFuel_def)

lemma exampleExecutor_ok:
  "execOK exampleExecutor" "pathsOK {env8 3, env8 7} exampleExecutor" "live exampleExecutor = {0}"
  "store exampleExecutor 0 = Some (ExecutionState_new \<lparr>kfunction = 1, numRegisters = 1, firstInstruction = 7\<rparr>)"
  "pathConstraints (ExecutionState_new f) = []" "unrestricted exampleExecOptions 0 es exampleExecutor = (\<not> forkDisabled es)"
  "\<not> forkDisabled (ExecutionState_new f)"
proof -
  show new: "pathConstraints (ExecutionState_new f) = []" "\<not> forkDisabled (ExecutionState_new f)" for f
    by (simp_all add: ExecutionState_new_def ExecutionState_assuming_def pushFrame_def)
  have "ptreeNode (PTree_new (0 :: nat)) = [0 \<mapsto> 0]" by (simp add: PTree_new_def PTreeNode_new_def)
  then show "execOK exampleExecutor" using PTree_new_ok [of "0 :: nat"] by (simp add: execOK_def exampleExecutor_def)
  show "pathsOK {env8 3, env8 7} exampleExecutor" by (simp add: pathsOK_def exampleExecutor_def feasible_def new exampleQuery_ok(3))
qed (simp_all add: live_def exampleExecutor_def unrestricted_def exampleExecOptions_def mayNotFork_def)

lemma exampleCondition_ok:
  "definedIn {env8 3, env8 7} (EqExpr (c8 3) (bufAt 1))" "getWidth (EqExpr (c8 3) (bufAt 1)) = 1"
  "sem (env8 3) (EqExpr (c8 3) (bufAt 1)) = Some 1" "sem (env8 7) (EqExpr (c8 3) (bufAt 1)) = Some 0"
  by (simp_all add: definedIn_def example_simps kind_simps)

lemma fork_step:
  assumes "soundSolving V U True I" "execOK E" "pathsOK U E" "I (solverState E)" "s \<in> live E" "store E s = Some es"
    and "definedIn (modelsOf U (pathConstraints es)) c" "getWidth c = 1" "unrestricted opts s es E" "MaxDepth opts = 0"
  shows "\<exists>t f E'. fork V opts s c isInternal E = Ok ((t, f), E') \<and> execOK E' \<and> pathsOK U E' \<and> I (solverState E') \<and>
    sameMode E E' \<and> live E' = live E - {s} \<union> set_option t \<union> set_option f \<and> (\<forall>u \<in> live E - {s}. store E' u = store E u) \<and>
    (t = None \<or> t \<noteq> f) \<and> (set_option t \<union> set_option f) \<inter> (live E - {s}) = {} \<and> sideOf U E' es c 1 t \<and> sideOf U E' es c 0 f"
proof -
  have cs: "feasible U (pathConstraints es)" using assms(3,6) by (auto simp: pathsOK_def)
  show ?thesis
  proof (rule fork_cases [OF assms(1,2,4,5,6) cs assms(7-9), where isInternal = isInternal])
    fix q' es' assume q: "I q'" and es': "pathConstraints es' = pathConstraints es" "inherits es es'" "\<forall>\<sigma> \<in> modelsOf U (pathConstraints es). sem \<sigma> c = Some 1"
      and run: "fork V opts s c isInternal E = Ok ((Some s, None), E\<lparr>solverState := q', store := (store E)(s \<mapsto> es')\<rparr>)"
    from oneSide [OF assms(2,3,5,6) es' refl, of q'] q assms(5)
    show ?thesis unfolding run by (intro exI [of _ "Some s"] exI [of _ None] exI conjI) (rule refl, auto)
  next
    fix q' es' assume q: "I q'" and es': "pathConstraints es' = pathConstraints es" "inherits es es'" "\<forall>\<sigma> \<in> modelsOf U (pathConstraints es). sem \<sigma> c = Some 0"
      and run: "fork V opts s c isInternal E = Ok ((None, Some s), E\<lparr>solverState := q', store := (store E)(s \<mapsto> es')\<rparr>)"
    from oneSide [OF assms(2,3,5,6) es' refl, of q'] q assms(5)
    show ?thesis unfolding run by (intro exI [of _ None] exI [of _ "Some s"] exI conjI) (rule refl, auto)
  next
    fix q' \<sigma> \<tau> assume q: "I q'" and run: "fork V opts s c isInternal E = forkBoth V opts s c isInternal (E\<lparr>solverState := q'\<rparr>)"
      and both: "\<sigma> \<in> modelsOf U (pathConstraints es)" "sem \<sigma> c = Some 1" "\<tau> \<in> modelsOf U (pathConstraints es)" "sem \<tau> c = Some 0"
    let ?E1 = "E\<lparr>solverState := q'\<rparr>"
    have E1: "live ?E1 = live E" "pathsOK U ?E1" "unrestricted opts s es ?E1"
      using assms(3,9) by (simp_all add: live_def pathsOK_def unrestricted_def mayNotFork_def)
    have E1': "execOK ?E1" "s \<in> live ?E1" "store ?E1 s = Some es" using assms(2,5,6) E1(1) by simp_all
    obtain f E' where p: "forkPair V opts s c isInternal ?E1 = Ok (f, E')" "execOK E'" "pathsOK U E'" "solverState E' = solverState ?E1" "sameMode ?E1 E'"
        "live E' = insert f (live ?E1)" "\<forall>u \<in> live ?E1 - {s}. store E' u = store ?E1 u"
        "sideOf U E' es c 1 (Some s)" "sideOf U E' es c 0 (Some f)" "f \<notin> live ?E1" "s \<noteq> f"
      using forkPair_result [OF assms(1) E1'(1) E1(2) E1'(2,3) E1(3) assms(7,8) both, of isInternal] by blast
    then obtain ts where "store E' s = Some ts" by (auto simp: sideOf_def)
    then have pair: "fork V opts s c isInternal E = Ok ((Some s, Some f), E')"
      using p(1) assms(10) by (simp add: run forkBoth_def getState_def)
    have "live E' = live E - {s} \<union> set_option (Some s) \<union> set_option (Some f)" using p(6) E1(1) assms(5) by auto
    moreover have "\<forall>u \<in> live E - {s}. store E' u = store E u" using p(7) E1(1) by simp
    moreover have "I (solverState E')" "sameMode E E'" using p(4,5) q by (simp_all add: sameMode_def)
    moreover have "Some s \<noteq> Some f" "(set_option (Some s) \<union> set_option (Some f)) \<inter> (live E - {s}) = {}" using p(10,11) E1(1) by auto
    ultimately show ?thesis using pair p(2,3,8,9) by blast
  qed simp
qed

text \<open>
  C2: a fork. When the solver answers, and no limit, replay or seed decides otherwise, a fork divides the
  inputs of a path: each side is followed exactly when it has an input, the state of a side has all the
  inputs of the path with the value of this side, and no others where there are no divisions. The
  other states are as before, and so is the bookkeeping.
\<close>

theorem fork_divides:
  assumes "soundSolving V U True I" "execOK E" "pathsOK U E" "I (solverState E)" "s \<in> live E" "store E s = Some es"
    and "definedIn (modelsOf U (pathConstraints es)) c" "getWidth c = 1" "unrestricted opts s es E" "MaxDepth opts = 0"
  shows "\<exists>t f E'. fork V opts s c isInternal E = Ok ((t, f), E') \<and> execOK E' \<and> pathsOK U E' \<and> I (solverState E') \<and>
    sameMode E E' \<and> live E' = live E - {s} \<union> set_option t \<union> set_option f \<and> (\<forall>u \<in> live E - {s}. store E' u = store E u) \<and>
    sideOf U E' es c 1 t \<and> sideOf U E' es c 0 f"
  using fork_step [OF assms, of isInternal] by blast

theorem fork_divides_witness:
  "\<exists>fuel t f E'. fork \<lparr>timing = exampleTiming, constraintFuel = fuel\<rparr> exampleExecOptions 0 (EqExpr (c8 3) (bufAt 1)) False exampleExecutor =
     Ok ((Some t, Some f), E') \<and> live E' = {t, f}"
proof -
  let ?c = "EqExpr (c8 3) (bufAt 1)" and ?U = "{env8 3, env8 7}" and ?es = "ExecutionState_new \<lparr>kfunction = 1, numRegisters = 1, firstInstruction = 7\<rparr>"
  obtain fuel where fuel: "\<forall>cs e. addConstraint exampleOptions (fuel cs e) cs e \<noteq> OutOfFuel" using constraintFuel_exists by blast
  let ?V = "\<lparr>timing = exampleTiming, constraintFuel = fuel\<rparr>"
  obtain t f E' where r: "fork ?V exampleExecOptions 0 ?c False exampleExecutor = Ok ((t, f), E')" "live E' = {0} - {0} \<union> set_option t \<union> set_option f"
      "sideOf ?U E' ?es ?c 1 t" "sideOf ?U E' ?es ?c 0 f"
    using fork_divides [OF exampleSolving_sound [OF fuel] exampleExecutor_ok(1,2), of 0 ?es ?c exampleExecOptions False] exampleExecutor_ok(3-7)
      exampleCondition_ok(1,2) exampleQuery_ok(3) by (auto simp: exampleExecOptions_def)
  have m: "env8 3 \<in> modelsOf ?U (pathConstraints ?es)" "env8 7 \<in> modelsOf ?U (pathConstraints ?es)"
    using exampleQuery_ok(3) exampleExecutor_ok(5) by simp_all
  have "t \<noteq> None" "f \<noteq> None" using sideOf_Some [OF r(3) m(1) exampleCondition_ok(3)] sideOf_Some [OF r(4) m(2) exampleCondition_ok(4)] .
  then obtain u v where "t = Some u" "f = Some v" by blast
  with r(1,2) have "fork ?V exampleExecOptions 0 ?c False exampleExecutor = Ok ((Some u, Some v), E') \<and> live E' = {u, v}" by auto
  then show ?thesis by blast
qed

section \<open>No input is lost\<close>

text \<open>An input is accounted for when it belongs to a path that is still live, or to one that ended with a test.\<close>

definition accounted :: "('q, 'w) Executor \<Rightarrow> env \<Rightarrow> bool" where
  "accounted E \<sigma> \<longleftrightarrow>
     (\<exists>u \<in> live E. \<exists>es. store E u = Some es \<and> satisfied \<sigma> (pathConstraints es)) \<or>
     (\<exists>(u, es, m) \<in> set (testCases E). satisfied \<sigma> (pathConstraints es))"

definition advances :: "env set \<Rightarrow> ('q, 'w) Executor \<Rightarrow> ('q, 'w) Executor \<Rightarrow> bool" where
  "advances U E E' \<longleftrightarrow> execOK E' \<and> pathsOK U E' \<and> states E' = states E \<and> (\<forall>\<sigma> \<in> U. accounted E \<sigma> \<longrightarrow> accounted E' \<sigma>)"

lemma advances_trans: "advances U E E' \<Longrightarrow> advances U E' E'' \<Longrightarrow> advances U E E''"
  by (simp add: advances_def)

text \<open>A step that concerns one state only.\<close>

lemma accountedI:
  assumes "accounted E \<sigma>" "\<forall>u \<in> live E - {s}. u \<in> live E' \<and> store E' u = store E u" "set (testCases E) \<subseteq> set (testCases E')"
    and "\<And>es. s \<in> live E \<Longrightarrow> store E s = Some es \<Longrightarrow> satisfied \<sigma> (pathConstraints es) \<Longrightarrow> accounted E' \<sigma>"
  shows "accounted E' \<sigma>"
  using assms(1) unfolding accounted_def
proof (elim disjE bexE exE conjE)
  fix u es assume u: "u \<in> live E" "store E u = Some es" "satisfied \<sigma> (pathConstraints es)"
  show "(\<exists>u \<in> live E'. \<exists>es. store E' u = Some es \<and> satisfied \<sigma> (pathConstraints es)) \<or>
      (\<exists>(u, es, m) \<in> set (testCases E'). satisfied \<sigma> (pathConstraints es))"
  proof (cases "u = s")
    case True
    with assms(4) u show ?thesis unfolding accounted_def by blast
  next
    case False
    with assms(2) u show ?thesis by (metis Diff_iff singletonD)
  qed
qed (use assms(3) in blast)

lemma sideOf_accounted:
  assumes "sideOf U E es c b t" "\<sigma> \<in> modelsOf U (pathConstraints es)" "sem \<sigma> c = Some b"
  shows "accounted E \<sigma>"
  using assms by (auto simp: sideOf_def accounted_def narrows_def modelsOf_def split: option.splits)

lemma finished_advances:
  assumes "finished s es E E'" "pathsOK U E" "store E s = Some es"
  shows "advances U E E'"
proof -
  have f: "execOK E'" "live E' = live E - {s}" "\<And>u. u \<noteq> s \<Longrightarrow> store E' u = store E u"
      "\<And>es'. store E' s = Some es' \<Longrightarrow> pathConstraints es' = pathConstraints es" "(s, es) \<in> (\<lambda>(u, es, m). (u, es)) ` set (testCases E')"
      "set (testCases E) \<subseteq> set (testCases E')"
    using assms(1) by (force simp: finished_def)+
  have "pathsOK U E'" unfolding pathsOK_def
  proof (intro allI impI)
    fix u eu assume "store E' u = Some eu"
    with f(3,4) assms(2,3) show "feasible U (pathConstraints eu)" by (cases "u = s") (auto simp: pathsOK_def)
  qed
  moreover have "accounted E' \<sigma>" if "accounted E \<sigma>" for \<sigma>
  proof (rule accountedI [OF that, of s])
    show "\<And>es. s \<in> live E \<Longrightarrow> store E s = Some es \<Longrightarrow> satisfied \<sigma> (pathConstraints es) \<Longrightarrow> accounted E' \<sigma>"
      using f(5) assms(3) by (force simp: accounted_def)
  qed (use f in auto)
  ultimately show ?thesis using assms(1) by (simp add: advances_def finished_def)
qed

lemma exit_advances:
  assumes "execOK E" "pathsOK U E" "s \<in> live E" "\<not> OnlyOutputStatesCoveringNew opts"
  shows "\<exists>E'. terminateStateEarly opts s m E = Ok E' \<and> advances U E E' \<and> solverState E' = solverState E \<and> live E' = live E - {s}"
    and "\<exists>E'. terminateStateOnExit opts s E = Ok E' \<and> advances U E E' \<and> solverState E' = solverState E \<and> live E' = live E - {s}"
proof -
  obtain es where es: "store E s = Some es" using assms(3) by (auto simp: live_def)
  have fin: "advances U E E' \<and> solverState E' = solverState E \<and> live E' = live E - {s}" if "finished s es E E'" for E'
    using finished_advances [OF that assms(2) es] that by (simp add: finished_def)
  obtain E1 where "terminateStateEarly opts s m E = Ok E1" "finished s es E E1"
    using terminateStateEarly_ok(1) [OF assms(1,3) es assms(4)] by blast
  with fin show "\<exists>E'. terminateStateEarly opts s m E = Ok E' \<and> advances U E E' \<and> solverState E' = solverState E \<and> live E' = live E - {s}"
    by blast
  obtain E2 where "terminateStateOnExit opts s E = Ok E2" "finished s es E E2"
    using terminateStateEarly_ok(2) [OF assms(1,3) es assms(4)] by blast
  with fin show "\<exists>E'. terminateStateOnExit opts s E = Ok E' \<and> advances U E E' \<and> solverState E' = solverState E \<and> live E' = live E - {s}"
    by blast
qed

lemma put_advances:
  assumes "execOK E" "pathsOK U E" "s \<in> live E" "store E s = Some es" "pathConstraints es' = pathConstraints es"
  shows "advances U E (E\<lparr>solverState := q, store := (store E)(s \<mapsto> es')\<rparr>)" (is "advances U E ?E'")
proof -
  have in_s: "s \<in> states E \<union> set (addedStates E)" using assms(3) live_states [OF assms(1)] by auto
  have "accounted ?E' \<sigma>" if "accounted E \<sigma>" for \<sigma>
  proof (rule accountedI [OF that, of s])
    show "\<And>es. s \<in> live E \<Longrightarrow> store E s = Some es \<Longrightarrow> satisfied \<sigma> (pathConstraints es) \<Longrightarrow> accounted ?E' \<sigma>"
      unfolding accounted_def live_put [OF assms(4)] using assms(4,5) by (intro disjI1 bexI [of _ s]) auto
  qed (use live_put [OF assms(4)] in auto)
  moreover have "feasible U (pathConstraints es')" using assms(2,4,5) by (auto simp: pathsOK_def)
  ultimately show ?thesis
    using execOK_put [OF assms(1) in_s] pathsOK_put [OF assms(2)] by (simp add: advances_def)
qed

lemma fork_advances:
  assumes sol: "soundSolving V U reliable I" and ok: "execOK E" "pathsOK U E" and q: "I (solverState E)"
    and s: "s \<in> live E" "store E s = Some es" and c: "definedIn (modelsOf U (pathConstraints es)) c" "getWidth c = 1"
    and opts: "unrestricted opts s es E" "\<not> OnlyOutputStatesCoveringNew opts"
  shows "\<exists>r E'. fork V opts s c isInternal E = Ok (r, E') \<and> advances U E E' \<and> I (solverState E')"
proof -
  have cs: "feasible U (pathConstraints es)" using ok(2) s(2) by (auto simp: pathsOK_def)
  show ?thesis
  proof (rule fork_cases [OF sol ok(1) q s cs c opts(1), where isInternal = isInternal])
    fix q' let ?E1 = "E\<lparr>solverState := q', store := (store E)(s \<mapsto> es\<lparr>pc := prevPC es\<rparr>)\<rparr>"
    assume "I q'" and run: "fork V opts s c isInternal E = rbind (terminateStateEarly opts s ''Query timed out (fork).'' ?E1) (\<lambda>E2. Ok ((None, None), E2))"
    have adv: "advances U E ?E1" by (rule put_advances [OF ok s]) simp
    then have "execOK ?E1" "pathsOK U ?E1" by (simp_all only: advances_def)
    moreover have "s \<in> live ?E1" using live_put [OF s(2)] s(1) by simp
    ultimately obtain E2 where "terminateStateEarly opts s ''Query timed out (fork).'' ?E1 = Ok E2" "advances U ?E1 E2" "solverState E2 = solverState ?E1"
      using exit_advances(1) [OF _ _ _ opts(2)] by blast
    with run \<open>I q'\<close> advances_trans [OF adv] show ?thesis by simp
  next
    fix q' \<sigma> \<tau> assume q': "I q'" and run: "fork V opts s c isInternal E = forkBoth V opts s c isInternal (E\<lparr>solverState := q'\<rparr>)"
      and both: "\<sigma> \<in> modelsOf U (pathConstraints es)" "sem \<sigma> c = Some 1" "\<tau> \<in> modelsOf U (pathConstraints es)" "sem \<tau> c = Some 0"
    let ?E1 = "E\<lparr>solverState := q'\<rparr>"
    have E1: "execOK ?E1" "pathsOK U ?E1" "s \<in> live ?E1" "store ?E1 s = Some es" "unrestricted opts s es ?E1" "live ?E1 = live E"
      using ok s opts(1) by (simp_all add: live_def pathsOK_def unrestricted_def mayNotFork_def)
    obtain f E' where p: "forkPair V opts s c isInternal ?E1 = Ok (f, E')" "execOK E'" "pathsOK U E'" "solverState E' = solverState ?E1"
        "sameMode ?E1 E'" "s \<noteq> f" "live E' = insert f (live ?E1)" "\<forall>u \<in> live ?E1 - {s}. store E' u = store ?E1 u"
        "sideOf U E' es c 1 (Some s)" "sideOf U E' es c 0 (Some f)"
      using forkPair_result [OF sol E1(1-5) c both, of isInternal] by blast
    have "accounted E' \<upsilon>" if "accounted E \<upsilon>" "\<upsilon> \<in> U" for \<upsilon>
    proof (rule accountedI [OF that(1), of s])
      fix es' assume "store E s = Some es'" "satisfied \<upsilon> (pathConstraints es')"
      then have m: "\<upsilon> \<in> modelsOf U (pathConstraints es)" using s(2) that(2) by (simp add: modelsOf_def)
      have "\<forall>\<sigma> \<in> U. wf_env (solvingCO V) \<sigma>" using soundSolving_wf [OF sol] by blast
      from bool_value [OF c this m] sideOf_accounted [OF p(9) m] sideOf_accounted [OF p(10) m] show "accounted E' \<upsilon>" by blast
    qed (use p(5,7,8) E1(6) in \<open>auto simp: sameMode_def\<close>)
    then have adv: "advances U E E'" using p(2,3,5) by (simp add: advances_def sameMode_def)
    obtain ts where ts: "store E' s = Some ts" using p(9) by (auto simp: sideOf_def)
    show ?thesis
    proof (cases "MaxDepth opts \<noteq> 0 \<and> MaxDepth opts \<le> depth ts")
      case False
      then have "fork V opts s c isInternal E = Ok ((Some s, Some f), E')" using ts p(1) by (auto simp: run forkBoth_def getState_def)
      with adv q' p(4) show ?thesis by simp
    next
      case True
      have "s \<in> live E'" "f \<in> live E'" using p(7) s(1) E1(6) by auto
      obtain E2 where E2: "terminateStateEarly opts s ''max-depth exceeded.'' E' = Ok E2" "advances U E' E2" "solverState E2 = solverState E'"
          "live E2 = live E' - {s}"
        using exit_advances(1) [OF p(2,3) \<open>s \<in> live E'\<close> opts(2)] by blast
      have "execOK E2" "pathsOK U E2" "f \<in> live E2" using E2(2,4) \<open>f \<in> live E'\<close> p(6) by (auto simp: advances_def)
      then obtain E3 where E3: "terminateStateEarly opts f ''max-depth exceeded.'' E2 = Ok E3" "advances U E2 E3" "solverState E3 = solverState E2"
        using exit_advances(1) [OF _ _ _ opts(2)] by blast
      have "fork V opts s c isInternal E = Ok ((None, None), E3)" using ts p(1) True E2(1) E3(1) by (simp add: run forkBoth_def getState_def)
      moreover have "advances U E E3" using advances_trans [OF advances_trans [OF adv E2(2)] E3(2)] .
      ultimately show ?thesis using q' p(4) E2(3) E3(3) by simp
    qed
  qed (use put_advances [OF ok s] in auto)
qed

text \<open>
  The main loop of the executor: the searcher selects a state, instructions of the state compute, fork
  or end paths, and the states and the searcher are updated. A computation may change everything in
  its state but the path condition.
\<close>

inductive runs :: "('sq, nat, 'w) Searcher \<Rightarrow> 'q Solving \<Rightarrow> 'w ExecutorOptions \<Rightarrow> env set \<Rightarrow>
    'sq \<times> ('q, 'w) Executor \<Rightarrow> nat option \<Rightarrow> 'sq \<Rightarrow> ('q, 'w) Executor \<Rightarrow> bool" for S V opts U c0 where
  start: "c0 = (sq, E) \<Longrightarrow> runs S V opts U c0 None sq E"
| select: "runs S V opts U c0 None sq E \<Longrightarrow> states E \<noteq> {} \<Longrightarrow> selectState S sq (world E) = Ok (s, sq', w') \<Longrightarrow>
    runs S V opts U c0 (Some s) sq' (E\<lparr>world := w'\<rparr>)"
| compute: "runs S V opts U c0 cur sq E \<Longrightarrow> s \<in> live E \<Longrightarrow> store E s = Some es \<Longrightarrow> pathConstraints es' = pathConstraints es \<Longrightarrow>
    runs S V opts U c0 cur sq (putState s es' E)"
| fork: "runs S V opts U c0 cur sq E \<Longrightarrow> s \<in> live E \<Longrightarrow> store E s = Some es \<Longrightarrow>
    definedIn (modelsOf U (pathConstraints es)) c \<Longrightarrow> getWidth c = 1 \<Longrightarrow> unrestricted opts s es E \<Longrightarrow>
    fork V opts s c isInternal E = Ok (r, E') \<Longrightarrow> runs S V opts U c0 cur sq E'"
| early: "runs S V opts U c0 cur sq E \<Longrightarrow> s \<in> live E \<Longrightarrow> terminateStateEarly opts s m E = Ok E' \<Longrightarrow> runs S V opts U c0 cur sq E'"
| exit: "runs S V opts U c0 cur sq E \<Longrightarrow> s \<in> live E \<Longrightarrow> terminateStateOnExit opts s E = Ok E' \<Longrightarrow> runs S V opts U c0 cur sq E'"
| update: "runs S V opts U c0 cur sq E \<Longrightarrow> updateStates (Some S) cur (sq, E) = Ok (sq', E') \<Longrightarrow> runs S V opts U c0 None sq' E'"

definition runOK :: "('sq \<Rightarrow> nat set) \<Rightarrow> ('sq \<Rightarrow> nat set) \<Rightarrow> ('sq \<Rightarrow> bool) \<Rightarrow> ('q \<Rightarrow> bool) \<Rightarrow> env set \<Rightarrow> nat option \<Rightarrow> 'sq \<Rightarrow> ('q, 'w) Executor \<Rightarrow> bool" where
  "runOK held ready J I U cur sq E \<longleftrightarrow>
     J sq \<and> held sq = states E \<and> (\<forall>s. cur = Some s \<longrightarrow> s \<in> ready sq) \<and> execOK E \<and> pathsOK U E \<and> I (solverState E)"

lemma advances_runOK:
  assumes "runOK held ready J I U cur sq E \<and> (\<forall>\<sigma> \<in> U. accounted E0 \<sigma> \<longrightarrow> accounted E \<sigma>)" "advances U E E'" "I (solverState E')"
  shows "runOK held ready J I U cur sq E' \<and> (\<forall>\<sigma> \<in> U. accounted E0 \<sigma> \<longrightarrow> accounted E' \<sigma>)"
  using assms by (simp add: runOK_def advances_def)

lemma world_simps [simp]: "execOK (E\<lparr>world := w\<rparr>) = execOK E" "pathsOK U (E\<lparr>world := w\<rparr>) = pathsOK U E"
  by (simp_all add: execOK_def pathsOK_def)

lemma runs_ok:
  assumes srch: "searcher S held ready J" and sol: "soundSolving V U reliable I" and opts: "\<not> OnlyOutputStatesCoveringNew opts"
    and start: "runOK held ready J I U None sq0 E0"
  shows "runs S V opts U (sq0, E0) cur sq E \<Longrightarrow>
    runOK held ready J I U cur sq E \<and> (\<forall>\<sigma> \<in> U. accounted E0 \<sigma> \<longrightarrow> accounted E \<sigma>)"
proof (induction rule: runs.induct)
  case (start sq E)
  then show ?case using assms(4) by simp
next
  case (select sq E s sq' w')
  then have ok: "J sq" "held sq = states E" "runOK held ready J I U None sq E" by (simp_all add: runOK_def)
  obtain s1 q1 w1 where "selectState S sq (world E) = Ok (s1, q1, w1)" "s1 \<in> ready q1" "J q1" "held q1 = held sq"
    using searcher.select [OF srch ok(1)] select.hyps(2) ok(2) by metis
  with select ok show ?case by (auto simp: runOK_def accounted_def live_def)
next
  case (compute cur sq E s es es')
  have adv: "advances U E (putState s es' E)"
    using put_advances [of E U s es es' "solverState E"] compute by (simp add: runOK_def putState_def)
  have "I (solverState (putState s es' E))" using compute.IH by (simp add: runOK_def putState_def)
  then show ?case by (rule advances_runOK [OF compute.IH adv])
next
  case (fork cur sq E s es c isInternal r E')
  have ok: "execOK E" "pathsOK U E" "I (solverState E)" using fork.IH by (simp_all add: runOK_def)
  have "advances U E E' \<and> I (solverState E')"
    using fork_advances [OF sol ok fork.hyps(2-6) opts, of isInternal] fork.hyps(7) by simp
  then show ?case using advances_runOK [OF fork.IH] ok(3) by simp
next
  case (early cur sq E s m E')
  have ok: "execOK E" "pathsOK U E" "I (solverState E)" using early.IH by (simp_all add: runOK_def)
  have "advances U E E' \<and> solverState E' = solverState E" using exit_advances(1) [OF ok(1,2) early.hyps(2) opts, of m] early.hyps(3) by simp
  then show ?case using advances_runOK [OF early.IH] ok(3) by simp
next
  case (exit cur sq E s E')
  have ok: "execOK E" "pathsOK U E" "I (solverState E)" using exit.IH by (simp_all add: runOK_def)
  have "advances U E E' \<and> solverState E' = solverState E" using exit_advances(2) [OF ok(1,2) exit.hyps(2) opts] exit.hyps(3) by simp
  then show ?case using advances_runOK [OF exit.IH] ok(3) by simp
next
  case (update cur sq E sq' E')
  have ok: "J sq" "held sq = states E" "execOK E" "\<forall>s. cur = Some s \<longrightarrow> s \<in> ready sq" "pathsOK U E" "I (solverState E)"
    using update.IH by (simp_all add: runOK_def)
  have u: "J sq'" "held sq' = states E'" "execOK E'" "removedStates E' = []" "store E' = store E |` live E" "sameRun E E'"
    using updateStates_ok [OF srch ok(1-4)] update.hyps(2) by auto
  have same: "live E' = live E" "testCases E' = testCases E" using u(4-6) by (auto simp: live_def sameRun_def)
  have "pathsOK U E'" "I (solverState E')" using ok(5,6) u(5,6) by (auto simp: pathsOK_def sameRun_def restrict_map_def split: if_splits)
  moreover have "accounted E' \<sigma> = accounted E \<sigma>" for \<sigma> using u(5) same by (simp add: accounted_def)
  ultimately show ?case using u(1-3) update.IH by (simp add: runOK_def)
qed

text \<open>
  C1: no input is lost. Along every run of the executor in which no limit, replay or seed keeps a fork
  from following both sides and every path that ends is given a test, each input of the initial
  paths belongs to a live path or to one that ended with a test; so when no state is left every input
  has a test for its path. And no step fails an assertion: the searcher selects and is updated, every
  fork and every end of a state returns, also when the solver fails. The steps of a run are selections,
  computations, forks, ends of states and updates; \<open>branch\<close>, concretizations and ends with an error are not
  among them.
\<close>

theorem no_input_lost:
  assumes "searcher S held ready J" "soundSolving V U reliable I" "\<not> OnlyOutputStatesCoveringNew opts"
    and "J sq0" "held sq0 = states E0" "execOK E0" "pathsOK U E0" "I (solverState E0)"
    and "runs S V opts U (sq0, E0) cur sq E"
  shows "(\<forall>\<sigma> \<in> U. accounted E0 \<sigma> \<longrightarrow> accounted E \<sigma> \<and>
      (live E = {} \<longrightarrow> (\<exists>(u, es, m) \<in> set (testCases E). satisfied \<sigma> (pathConstraints es)))) \<and>
    (states E \<noteq> {} \<longrightarrow> (\<exists>s sq' w'. selectState S sq (world E) = Ok (s, sq', w') \<and> s \<in> states E)) \<and>
    (\<exists>sq' E'. updateStates (Some S) cur (sq, E) = Ok (sq', E') \<and> states E' = live E) \<and>
    (\<forall>s es c isInternal. s \<in> live E \<and> store E s = Some es \<and> definedIn (modelsOf U (pathConstraints es)) c \<and> getWidth c = 1 \<and>
      unrestricted opts s es E \<longrightarrow> (\<exists>r E'. fork V opts s c isInternal E = Ok (r, E'))) \<and>
    (\<forall>s \<in> live E. \<exists>E'. terminateStateOnExit opts s E = Ok E')"
proof -
  have "runOK held ready J I U None sq0 E0" using assms(4-8) by (simp add: runOK_def)
  from runs_ok [OF assms(1-3) this assms(9)]
  have run: "J sq" "held sq = states E" "\<forall>s. cur = Some s \<longrightarrow> s \<in> ready sq" "execOK E" "pathsOK U E" "I (solverState E)"
    and acc: "\<forall>\<sigma> \<in> U. accounted E0 \<sigma> \<longrightarrow> accounted E \<sigma>" by (simp_all add: runOK_def)
  have "\<exists>s sq' w'. selectState S sq (world E) = Ok (s, sq', w') \<and> s \<in> states E" if "states E \<noteq> {}"
    using searcher.select [OF assms(1) run(1), of "world E"] searcher.ready_held [OF assms(1)] run(2) that by (metis subsetD)
  moreover have "\<exists>sq' E'. updateStates (Some S) cur (sq, E) = Ok (sq', E') \<and> states E' = live E"
    using updateStates_ok [OF assms(1) run(1,2,4,3)] by blast
  moreover have "\<exists>r E'. fork V opts s c isInternal E = Ok (r, E')"
    if "s \<in> live E \<and> store E s = Some es \<and> definedIn (modelsOf U (pathConstraints es)) c \<and> getWidth c = 1 \<and> unrestricted opts s es E" for s es c isInternal
    using fork_advances [OF assms(2) run(4-6) _ _ _ _ _ assms(3)] that by metis
  moreover have "\<exists>E'. terminateStateOnExit opts s E = Ok E'" if "s \<in> live E" for s
    using exit_advances(2) [OF run(4,5) that assms(3)] by blast
  moreover have "\<exists>(u, es, m) \<in> set (testCases E). satisfied \<sigma> (pathConstraints es)" if "accounted E \<sigma>" "live E = {}" for \<sigma>
    using that by (simp add: accounted_def)
  ultimately show ?thesis using acc by blast
qed

theorem no_input_lost_witness:
  "\<exists>fuel r E'. fork \<lparr>timing = exampleTiming, constraintFuel = fuel\<rparr> exampleExecOptions 0 (EqExpr (c8 3) (bufAt 1)) False exampleExecutor = Ok (r, E') \<and>
     accounted E' (env8 7)"
proof -
  let ?c = "EqExpr (c8 3) (bufAt 1)" and ?U = "{env8 3, env8 7}" and ?E = exampleExecutor
  obtain fuel where fuel: "\<forall>cs e. addConstraint exampleOptions (fuel cs e) cs e \<noteq> OutOfFuel" using constraintFuel_exists by blast
  let ?V = "\<lparr>timing = exampleTiming, constraintFuel = fuel\<rparr>"
  have start: "runs DFSSearcher ?V exampleExecOptions ?U ([0], ?E) None [0] ?E" by (rule runs.start) simp
  have opt: "\<not> OnlyOutputStatesCoveringNew exampleExecOptions" by (simp add: exampleExecOptions_def)
  have held: "distinct [0 :: nat]" "set [0] = states ?E" by (simp_all add: exampleExecutor_def)
  note lost = no_input_lost [OF dfs.searcher_axioms exampleSolving_sound [OF fuel] opt held exampleExecutor_ok(1,2) TrueI]
  have s: "0 \<in> live ?E" "unrestricted exampleExecOptions 0 (ExecutionState_new \<lparr>kfunction = 1, numRegisters = 1, firstInstruction = 7\<rparr>) ?E"
    using exampleExecutor_ok by simp_all
  have c: "definedIn (modelsOf ?U (pathConstraints (ExecutionState_new \<lparr>kfunction = 1, numRegisters = 1, firstInstruction = 7\<rparr>))) ?c"
    using exampleCondition_ok(1) exampleQuery_ok(3) exampleExecutor_ok(5) by simp
  obtain r E' where r: "fork ?V exampleExecOptions 0 ?c False ?E = Ok (r, E')"
    using lost [OF start] s c exampleExecutor_ok(4) exampleCondition_ok(2) by blast
  have "accounted ?E (env8 7)" using exampleExecutor_ok(3-5) by (simp add: accounted_def)
  with lost [OF runs.fork [OF start s(1) exampleExecutor_ok(4) c exampleCondition_ok(2) s(2) r]] r show ?thesis by blast
qed

end
