(* ===== verification/ExecutorMemory.thy ===== *)
theory ExecutorMemory
  imports ExecutorPaths
begin

text \<open>
  The memory operations of the executor (\<open>lib/Core/Executor.cpp\<close>): loads and stores through symbolic
  pointers, with the fast path for a pointer into one object and the forks over all the objects it may
  point into, the release of objects, and the end of states with an error. The machine adds to the
  executor the heap of object states that all address spaces share. Registers of a frame are referred
  to by their number. What the optimizer of array expressions does when it is asked for is a
  parameter; by default it is off. The report of an error is the state of the test with the message, the suffix and what
  is said about the address; its text, with the source lines and the stack, is not made.
\<close>

section \<open>Definitions\<close>

datatype TerminateReason =
    AbortReason | AssertReason | BadVectorAccess | ExecReason | ExternalReason | FreeReason | ModelReason | OverflowReason
  | Ptr | ReadOnly | ReportError | UserReason | Unhandled

definition TerminateReasonNames :: "TerminateReason \<Rightarrow> string" where
  "TerminateReasonNames r =
     (case r of
        AbortReason \<Rightarrow> ''abort'' | AssertReason \<Rightarrow> ''assert'' | BadVectorAccess \<Rightarrow> ''bad_vector_access'' | ExecReason \<Rightarrow> ''exec''
      | ExternalReason \<Rightarrow> ''external'' | FreeReason \<Rightarrow> ''free'' | ModelReason \<Rightarrow> ''model'' | OverflowReason \<Rightarrow> ''overflow''
      | Ptr \<Rightarrow> ''ptr'' | ReadOnly \<Rightarrow> ''readonly'' | ReportError \<Rightarrow> ''reporterror'' | UserReason \<Rightarrow> ''user'' | Unhandled \<Rightarrow> ''xxx'')"

datatype ArrayOptimizationType = NONE | ALL | INDEX | VALUE

text \<open>The options, and what the operations use of the module and of the outside world.\<close>

record 'w MachineOptions =
  target :: Context
  execOptions :: "'w ExecutorOptions"
  OptimizeArray :: ArrayOptimizationType
  arrayOptimization :: "expr \<Rightarrow> bool \<Rightarrow> expr"
  instructionFunction :: "nat \<Rightarrow> nat"
  internalFunctions :: "nat set"
  EmitAllErrors :: bool
  ExitOnErrorType :: "TerminateReason list"
  SimplifySymIndices :: bool
  MaxSymArraySize :: nat
  MakeConcreteSymbolic :: nat
  randomNumber :: "'w \<Rightarrow> nat \<times> 'w"
  rrwsAddress :: "nat \<Rightarrow> nat"
  resolveExpired :: "'w \<Rightarrow> nat \<Rightarrow> bool"

record AddressInfo =
  infoAddress :: expr
  infoExample :: "64 word"
  infoRange :: "(expr \<times> expr) option"
  nextObject :: "MemoryObject option"
  previousObject :: "MemoryObject option"

record ('q, 'w) Machine =
  exec :: "('q, 'w) Executor"
  objectHeap :: heap
  arrayCount :: nat
  rrwsCount :: nat
  emittedErrors :: "(nat \<times> string) set"
  errorReports :: "(nat \<times> AddressInfo option) list"
  haltExecution :: bool

text \<open>The optimizer returns its argument at once unless an optimization is chosen.\<close>

definition optimizeExpr :: "'w MachineOptions \<Rightarrow> expr \<Rightarrow> bool \<Rightarrow> expr" where
  "optimizeExpr X e valueOnly = (if isConstantExpr e \<or> OptimizeArray X = NONE then e else arrayOptimization X e valueOnly)"

abbreviation stateOf :: "('q, 'w) Machine \<Rightarrow> nat \<Rightarrow> ExecutionState result" where
  "stateOf M s \<equiv> getState (exec M) s"

definition setState :: "nat \<Rightarrow> ExecutionState \<Rightarrow> ('q, 'w) Machine \<Rightarrow> ('q, 'w) Machine" where
  "setState s es M = M\<lparr>exec := putState s es (exec M)\<rparr>"

definition onExec :: "(('q, 'w) Executor \<Rightarrow> ('q, 'w) Executor result) \<Rightarrow> ('q, 'w) Machine \<Rightarrow> ('q, 'w) Machine result" where
  "onExec f M = rbind (f (exec M)) (\<lambda>E. Ok (M\<lparr>exec := E\<rparr>))"

definition forkState :: "'q Solving \<Rightarrow> 'w MachineOptions \<Rightarrow> nat \<Rightarrow> expr \<Rightarrow> ('q, 'w) Machine \<Rightarrow> ((nat option \<times> nat option) \<times> ('q, 'w) Machine) result" where
  "forkState V X s condition M = rbind (fork V (execOptions X) s condition True (exec M)) (\<lambda>(r, E). Ok (r, M\<lparr>exec := E\<rparr>))"

subsection \<open>Errors\<close>

text \<open>The loop over the frames from the innermost one, without the frame of \<open>main\<close>.\<close>

definition getLastNonKleeInternalInstruction :: "'w MachineOptions \<Rightarrow> ExecutionState \<Rightarrow> nat result" where
  "getLastNonKleeInternalInstruction X es =
     (if stack es = [] then Abort
      else
        let start = (if kfunction (kf (last (stack es))) \<notin> internalFunctions X then Some (prevPC es) else None);
            found = foldl (\<lambda>ii sf. if instructionFunction X (caller sf) \<in> internalFunctions X then None
                                   else if ii = None then Some (caller sf) else ii) start (rev (tl (stack es)))
        in Ok (case found of Some i \<Rightarrow> i | None \<Rightarrow> prevPC es))"

definition shouldExitOn :: "'w MachineOptions \<Rightarrow> TerminateReason \<Rightarrow> bool" where
  "shouldExitOn X r \<longleftrightarrow> r \<in> set (ExitOnErrorType X)"

text \<open>
  What a report says about an address. The solver must answer; the search for the objects around the
  address is made with its low 32 bits.
\<close>

definition getAddressInfo :: "'q Solving \<Rightarrow> nat \<Rightarrow> expr \<Rightarrow> ('q, 'w) Machine \<Rightarrow> (AddressInfo \<times> ('q, 'w) Machine) result" where
  "getAddressInfo V s p M =
     rbind (stateOf M s) (\<lambda>es.
     rbind
       (case p of
          ConstantExpr CE \<Rightarrow> rbind (addressOf CE) (\<lambda>example. Ok ((example, None), solverState (exec M)))
        | _ \<Rightarrow>
            rbind (answered (TimingSolver_getValue (timing V) (pathConstraints es) p (solverState (exec M)))) (\<lambda>(value, q1).
            rbind (addressOf value) (\<lambda>example.
            rbind (TimingSolver_getRange (timing V) (pathConstraints es) p q1) (\<lambda>(res, q2). Ok ((example, Some res), q2))))) (\<lambda>((example, range), q).
       let t = objects (addressSpace es);
           lower = upper_bound fst MemoryObjectLT (hackObject (ucast (ucast example :: 32 word))) t
       in Ok (\<lparr>infoAddress = p, infoExample = example, infoRange = range,
                nextObject = (if iterator.stack lower = iterator.stack (endT t) then None else map_option fst (deref lower)),
                previousObject = (if iterator.stack lower = iterator.stack (beginT t) then None else map_option fst (deref (iteratorDecr lower)))\<rparr>,
              M\<lparr>exec := (exec M)\<lparr>solverState := q\<rparr>\<rparr>)))"

definition terminateStateOnError :: "'w MachineOptions \<Rightarrow> nat \<Rightarrow> string \<Rightarrow> TerminateReason \<Rightarrow> AddressInfo option \<Rightarrow> ('q, 'w) Machine \<Rightarrow> ('q, 'w) Machine result" where
  "terminateStateOnError X s message reason info M =
     rbind (stateOf M s) (\<lambda>es.
     rbind (getLastNonKleeInternalInstruction X es) (\<lambda>lastInst.
     rbind
       (if EmitAllErrors X \<or> (lastInst, message) \<notin> emittedErrors M
        then rbind (onExec (processTestCase s (Some (message, TerminateReasonNames reason @ ''.err''))) M) (\<lambda>M1.
               Ok (M1\<lparr>emittedErrors := (if EmitAllErrors X then emittedErrors M else insert (lastInst, message) (emittedErrors M)),
                      errorReports := errorReports M @ [(s, info)]\<rparr>))
        else Ok M) (\<lambda>M1.
     rbind (onExec (terminateState s) M1) (\<lambda>M2. Ok (if shouldExitOn X reason then M2\<lparr>haltExecution := True\<rparr> else M2)))))"

text \<open>An error with a report on an address; the report is made first.\<close>

definition addressError :: "'q Solving \<Rightarrow> 'w MachineOptions \<Rightarrow> nat \<Rightarrow> string \<Rightarrow> TerminateReason \<Rightarrow> expr \<Rightarrow> ('q, 'w) Machine \<Rightarrow> ('q, 'w) Machine result" where
  "addressError V X s message reason p M =
     rbind (getAddressInfo V s p M) (\<lambda>(info, M1). terminateStateOnError X s message reason (Some info) M1)"

subsection \<open>Registers and objects\<close>

definition bindLocal :: "nat \<Rightarrow> nat \<Rightarrow> expr \<Rightarrow> ('q, 'w) Machine \<Rightarrow> ('q, 'w) Machine result" where
  "bindLocal dest s v M =
     rbind (stateOf M s) (\<lambda>es.
       if stack es = [] \<or> \<not> dest < length (locals (last (stack es))) then Abort
       else Ok (setState s (es\<lparr>stack := butlast (stack es) @ [(last (stack es))\<lparr>locals := (locals (last (stack es)))[dest := Some v]\<rparr>]\<rparr>) M))"

definition bindObjectInState :: "nat \<Rightarrow> MemoryObject \<Rightarrow> bool \<Rightarrow> ObjectState \<Rightarrow> ('q, 'w) Machine \<Rightarrow> ('q, 'w) Machine result" where
  "bindObjectInState s mo isLoc os M =
     rbind (stateOf M s) (\<lambda>es.
     rbind (bindObject mo (length (objectHeap M)) (objectHeap M @ [os], addressSpace es)) (\<lambda>(h, as).
       if isLoc \<and> stack es = [] then Abort
       else Ok ((setState s (es\<lparr>addressSpace := as,
                  stack := (if isLoc then butlast (stack es) @ [(last (stack es))\<lparr>allocas := allocas (last (stack es)) @ [mo]\<rparr>] else stack es)\<rparr>) M)
                \<lparr>objectHeap := h\<rparr>)))"

definition replaceReadWithSymbolic :: "'q Solving \<Rightarrow> 'w MachineOptions \<Rightarrow> nat \<Rightarrow> expr \<Rightarrow> ('q, 'w) Machine \<Rightarrow> (expr \<times> ('q, 'w) Machine) result" where
  "replaceReadWithSymbolic V X s e M =
     (let n = MakeConcreteSymbolic X
      in if n = 0 \<or> replayKTest (execOptions X) \<or> replayPath (execOptions X) \<noteq> None \<or> \<not> isConstantExpr e then Ok (e, M)
         else
           let (keep, M1) = (if n \<noteq> 1 then (case randomNumber X (world (exec M)) of (r, w) \<Rightarrow> (r mod n \<noteq> 0, M\<lparr>exec := (exec M)\<lparr>world := w\<rparr>\<rparr>))
                             else (False, M))
           in if keep then Ok (e, M1)
              else
                let i = (rrwsCount M1 + 1) mod 2 ^ 32;
                    A = \<lparr>address = rrwsAddress X i, aname = ''rrws_arr'' @ utostr (target X) i, asize = (getWidth e + 7) div 8,
                         adomain = 32, arange = 8, constantValues = []\<rparr>
                in (case createTempRead (solvingCO V) A (getWidth e) of
                      None \<Rightarrow> Abort
                    | Some res \<Rightarrow>
                        rbind (stateOf M1 s) (\<lambda>es.
                        rbind (ES_addConstraint (tsOptions (timing V)) (constraintFuel V) (NotOptimizedExpr (EqExpr_create (solvingCO V) e res)) es) (\<lambda>es'.
                          Ok (res, (setState s es' M1)\<lparr>rrwsCount := i\<rparr>)))))"

subsection \<open>Loads and stores\<close>

datatype access = Load nat nat | Store expr

definition accessWidth :: "access \<Rightarrow> nat" where
  "accessWidth a = (case a of Load w dest \<Rightarrow> w | Store v \<Rightarrow> getWidth v)"

definition getMinBytesForWidth :: "nat \<Rightarrow> nat" where
  "getMinBytesForWidth w = (w + 7) div 8"

definition storeAt :: "'w MachineOptions \<Rightarrow> nat \<Rightarrow> ObjectPair \<Rightarrow> expr \<Rightarrow> expr \<Rightarrow> ('q, 'w) Machine \<Rightarrow> ('q, 'w) Machine result" where
  "storeAt X s op offset v M =
     (case op of (mo, r) \<Rightarrow>
        if \<not> r < length (objectHeap M) then Abort
        else if readOnly (objectHeap M ! r) then terminateStateOnError X s ''memory error: object read only'' ReadOnly None M
        else
          rbind (stateOf M s) (\<lambda>es.
          rbind (getWriteable mo r (objectHeap M, addressSpace es)) (\<lambda>(wos, h, as).
            case write_expr (target X) offset v (h ! wos) of
              None \<Rightarrow> Abort
            | Some os \<Rightarrow> Ok ((setState s (es\<lparr>addressSpace := as\<rparr>) M)\<lparr>objectHeap := h[wos := os]\<rparr>))))"

definition loadAt :: "'w MachineOptions \<Rightarrow> ObjectPair \<Rightarrow> expr \<Rightarrow> nat \<Rightarrow> ('q, 'w) Machine \<Rightarrow> (expr \<times> ('q, 'w) Machine) result" where
  "loadAt X op offset w M =
     (case op of (mo, r) \<Rightarrow>
        if \<not> r < length (objectHeap M) then Abort
        else
          (case read_expr (target X) (objectHeap M ! r, arrayCount M) offset w of
             None \<Rightarrow> Abort
           | Some (e, os, n) \<Rightarrow> Ok (e, M\<lparr>objectHeap := (objectHeap M)[r := os], arrayCount := n\<rparr>)))"

text \<open>The fast path: the access is in the bounds of one object in every case.\<close>

definition fastAccess :: "'q Solving \<Rightarrow> 'w MachineOptions \<Rightarrow> nat \<Rightarrow> access \<Rightarrow> ObjectPair \<Rightarrow> expr \<Rightarrow> ('q, 'w) Machine \<Rightarrow> ('q, 'w) Machine result" where
  "fastAccess V X s a op offset M =
     (case a of
        Store v \<Rightarrow> storeAt X s op offset v M
      | Load w dest \<Rightarrow>
          rbind (loadAt X op offset w M) (\<lambda>(e, M1).
          rbind (replaceReadWithSymbolic V X s e M1) (\<lambda>(result, M2). bindLocal dest s result M2)))"

text \<open>The loop over the objects the pointer may point into; the result is the state that is in none of them.\<close>

definition accessOne :: "'q Solving \<Rightarrow> 'w MachineOptions \<Rightarrow> access \<Rightarrow> expr \<Rightarrow> nat \<Rightarrow> ObjectPair \<Rightarrow> nat \<Rightarrow> ('q, 'w) Machine \<Rightarrow> (nat option \<times> ('q, 'w) Machine) result" where
  "accessOne V X a ptr bytes op unbound M =
     rbind (forkState V X unbound (getBoundsCheckPointerBytes (target X) (fst op) ptr bytes) M) (\<lambda>((bound, rest), M1).
     rbind
       (case bound of
          None \<Rightarrow> Ok M1
        | Some b \<Rightarrow>
            (case a of
               Store v \<Rightarrow> storeAt X b op (getOffsetExpr (target X) (fst op) ptr) v M1
             | Load w dest \<Rightarrow>
                 rbind (loadAt X op (getOffsetExpr (target X) (fst op) ptr) w M1) (\<lambda>(e, M2). bindLocal dest b e M2))) (\<lambda>M2.
       Ok (rest, M2)))"

fun accessAll :: "'q Solving \<Rightarrow> 'w MachineOptions \<Rightarrow> access \<Rightarrow> expr \<Rightarrow> nat \<Rightarrow> ObjectPair list \<Rightarrow> nat \<Rightarrow> ('q, 'w) Machine \<Rightarrow> (nat option \<times> ('q, 'w) Machine) result" where
  "accessAll V X a ptr bytes [] unbound M = Ok (Some unbound, M)"
| "accessAll V X a ptr bytes (op # rl) unbound M =
     rbind (accessOne V X a ptr bytes op unbound M) (\<lambda>(rest, M1).
       case rest of None \<Rightarrow> Ok (None, M1) | Some u \<Rightarrow> accessAll V X a ptr bytes rl u M1)"

text \<open>The path for pointers that are not known to be in the bounds of one object.\<close>

definition slowAccess :: "'q Solving \<Rightarrow> 'w MachineOptions \<Rightarrow> nat \<Rightarrow> access \<Rightarrow> expr \<Rightarrow> nat \<Rightarrow> ('q, 'w) Machine \<Rightarrow> ('q, 'w) Machine result" where
  "slowAccess V X s a ptr0 bytes M =
     (let ptr = optimizeExpr X ptr0 True
      in rbind (stateOf M s) (\<lambda>es.
         rbind (resolve (target X) (timing V) (pathConstraints es) (resolveExpired X (world (exec M))) ptr [] 0 (addressSpace es) (solverState (exec M)))
           (\<lambda>((incomplete, rl), q).
         rbind (accessAll V X a ptr bytes rl s (M\<lparr>exec := (exec M)\<lparr>solverState := q\<rparr>\<rparr>)) (\<lambda>(unbound, M1).
           case unbound of
             None \<Rightarrow> Ok M1
           | Some u \<Rightarrow>
               if incomplete then onExec (terminateStateEarly (execOptions X) u ''Query timed out (resolve).'') M1
               else addressError V X u ''memory error: out of bound pointer'' Ptr ptr M1))))"

definition simplifyIndex :: "'q Solving \<Rightarrow> bool \<Rightarrow> constraints \<Rightarrow> expr \<Rightarrow> expr result" where
  "simplifyIndex V on cs e =
     (if on \<and> \<not> isConstantExpr e then simplifyExpr (tsOptions (timing V)) (tsFuel (timing V) cs e) cs e else Ok e)"

text \<open>
  The first resolution. When the solver fails the address is concretized, with a constraint on the
  state. The result is the address with the object found.
\<close>

definition resolveFast :: "'q Solving \<Rightarrow> 'w MachineOptions \<Rightarrow> nat \<Rightarrow> expr \<Rightarrow> ('q, 'w) Machine \<Rightarrow> ((expr \<times> ObjectPair option) \<times> ('q, 'w) Machine) result" where
  "resolveFast V X s ptr M =
     rbind (stateOf M s) (\<lambda>es.
     rbind (resolveOne (target X) (timing V) (pathConstraints es) ptr (addressSpace es) (solverState (exec M))) (\<lambda>(r, q).
       let M1 = M\<lparr>exec := (exec M)\<lparr>solverState := q\<rparr>\<rparr>
       in case r of
            Some op \<Rightarrow> Ok ((ptr, op), M1)
          | None \<Rightarrow>
              rbind (toConstant V (execOptions X) s ptr (exec M1)) (\<lambda>(c, E).
              rbind (stateOf (M1\<lparr>exec := E\<rparr>) s) (\<lambda>es1.
              rbind (resolveOne_const c (addressSpace es1)) (\<lambda>op. Ok ((ConstantExpr c, op), M1\<lparr>exec := E\<rparr>))))))"

definition executeMemoryOperation :: "'q Solving \<Rightarrow> 'w MachineOptions \<Rightarrow> nat \<Rightarrow> access \<Rightarrow> expr \<Rightarrow> ('q, 'w) Machine \<Rightarrow> ('q, 'w) Machine result" where
  "executeMemoryOperation V X s a0 ptr0 M0 =
     (let C = target X; bytes = getMinBytesForWidth (accessWidth a0); optimizer = (\<lambda>e. optimizeExpr X e True)
      in rbind (stateOf M0 s) (\<lambda>es.
         rbind (simplifyIndex V (SimplifySymIndices X) (pathConstraints es) ptr0) (\<lambda>ptr1.
         rbind (case a0 of Store v \<Rightarrow> rbind (simplifyIndex V (SimplifySymIndices X) (pathConstraints es) v) (\<lambda>v'. Ok (Store v')) | _ \<Rightarrow> Ok a0) (\<lambda>a.
         rbind (resolveFast V X s (optimizer ptr1) M0) (\<lambda>((ptr2, op), M1).
           case op of
             None \<Rightarrow> slowAccess V X s a ptr2 bytes M1
           | Some (mo, r) \<Rightarrow>
               rbind (if MaxSymArraySize X \<noteq> 0 \<and> moSize mo \<ge> MaxSymArraySize X
                      then rbind (toConstant V (execOptions X) s ptr2 (exec M1)) (\<lambda>(c, E). Ok (ConstantExpr c, M1\<lparr>exec := E\<rparr>))
                      else Ok (ptr2, M1)) (\<lambda>(ptr3, M2).
                 let offset = getOffsetExpr C mo ptr3; check = optimizer (getBoundsCheckOffsetBytes C mo offset bytes)
                 in rbind (stateOf M2 s) (\<lambda>es2.
                    rbind (TimingSolver_mustBeTrue (timing V) (pathConstraints es2) check (solverState (exec M2))) (\<lambda>(inBounds, q).
                      let M3 = M2\<lparr>exec := (exec M2)\<lparr>solverState := q\<rparr>\<rparr>
                      in case inBounds of
                           None \<Rightarrow>
                             onExec (terminateStateEarly (execOptions X) s ''Query timed out (bounds check).'') (setState s (es2\<lparr>pc := prevPC es2\<rparr>) M3)
                         | Some True \<Rightarrow> fastAccess V X s a (mo, r) offset M3
                         | Some False \<Rightarrow> slowAccess V X s a ptr3 bytes M3))))))))"

subsection \<open>Release of memory\<close>

fun resolveExactAll :: "'q Solving \<Rightarrow> 'w MachineOptions \<Rightarrow> expr \<Rightarrow> ObjectPair list \<Rightarrow> nat \<Rightarrow> ('q, 'w) Machine \<Rightarrow>
    (((ObjectPair \<times> nat) list \<times> nat option) \<times> ('q, 'w) Machine) result" where
  "resolveExactAll V X p [] unbound M = Ok (([], Some unbound), M)"
| "resolveExactAll V X p (op # rl) unbound M =
     rbind (forkState V X unbound (EqExpr_create (solvingCO V) p (getBaseExpr (target X) (fst op))) M) (\<lambda>((bound, rest), M1).
       let found = (case bound of Some b \<Rightarrow> [(op, b)] | None \<Rightarrow> [])
       in case rest of
            None \<Rightarrow> Ok ((found, None), M1)
          | Some u \<Rightarrow> rbind (resolveExactAll V X p rl u M1) (\<lambda>((results, ub), M2). Ok ((found @ results, ub), M2)))"

definition resolveExact :: "'q Solving \<Rightarrow> 'w MachineOptions \<Rightarrow> nat \<Rightarrow> expr \<Rightarrow> string \<Rightarrow> ('q, 'w) Machine \<Rightarrow> ((ObjectPair \<times> nat) list \<times> ('q, 'w) Machine) result" where
  "resolveExact V X s p0 name M =
     (let p = optimizeExpr X p0 True
      in rbind (stateOf M s) (\<lambda>es.
         rbind (resolve (target X) (timing V) (pathConstraints es) (\<lambda>i. False) p [] 0 (addressSpace es) (solverState (exec M))) (\<lambda>((incomplete, rl), q).
         rbind (resolveExactAll V X p rl s (M\<lparr>exec := (exec M)\<lparr>solverState := q\<rparr>\<rparr>)) (\<lambda>((results, unbound), M1).
         rbind (case unbound of None \<Rightarrow> Ok M1 | Some u \<Rightarrow> addressError V X u (''memory error: invalid pointer: '' @ name) Ptr p M1) (\<lambda>M2.
           Ok (results, M2))))))"

definition createPointer :: "Context \<Rightarrow> int \<Rightarrow> expr" where
  "createPointer C v = ConstantExpr (alloc v (getPointerWidth C))"

definition bindTarget :: "nat option \<Rightarrow> nat \<Rightarrow> expr \<Rightarrow> ('q, 'w) Machine \<Rightarrow> ('q, 'w) Machine result" where
  "bindTarget dest s v M = (case dest of Some d \<Rightarrow> bindLocal d s v M | None \<Rightarrow> Ok M)"

fun freeAll :: "'q Solving \<Rightarrow> 'w MachineOptions \<Rightarrow> expr \<Rightarrow> nat option \<Rightarrow> (ObjectPair \<times> nat) list \<Rightarrow> ('q, 'w) Machine \<Rightarrow> ('q, 'w) Machine result" where
  "freeAll V X ptr dest [] M = Ok M"
| "freeAll V X ptr dest (((mo, r), s) # rl) M =
     rbind
       (if isLocal mo then addressError V X s ''free of alloca'' FreeReason ptr M
        else if isGlobal mo then addressError V X s ''free of global'' FreeReason ptr M
        else
          rbind (stateOf M s) (\<lambda>es.
            bindTarget dest s (createPointer (target X) 0) (setState s (es\<lparr>addressSpace := unbindObject mo (addressSpace es)\<rparr>) M)))
       (freeAll V X ptr dest rl)"

definition executeFree :: "'q Solving \<Rightarrow> 'w MachineOptions \<Rightarrow> nat \<Rightarrow> expr \<Rightarrow> nat option \<Rightarrow> ('q, 'w) Machine \<Rightarrow> ('q, 'w) Machine result" where
  "executeFree V X s ptr0 dest M =
     (let ptr = optimizeExpr X ptr0 True
      in rbind (forkState V X s (createIsZero (solvingCO V) ptr) M) (\<lambda>((zero, other), M1).
         rbind (case zero of Some z \<Rightarrow> bindTarget dest z (createPointer (target X) 0) M1 | None \<Rightarrow> Ok M1) (\<lambda>M2.
           case other of
             None \<Rightarrow> Ok M2
           | Some u \<Rightarrow> rbind (resolveExact V X u ptr ''free'' M2) (\<lambda>(rl, M3). freeAll V X ptr dest rl M3))))"

end
