(* ===== verification/MemoryOperation.thy ===== *)
theory MemoryOperation
  imports ExecutorMemory
begin

text \<open>
  Loads through symbolic pointers (\<open>Executor::executeMemoryOperation\<close>): every input whose access lies
  in an object continues with the bytes stored there, and every other input is reported.
\<close>

section \<open>Reading keeps the contents\<close>

text \<open>
  A read may flush bytes and create arrays. The object holds the same bytes afterwards in every
  environment, also in those in which the offset is out of bounds.
\<close>

definition keeps :: "Context \<Rightarrow> env \<Rightarrow> int list \<Rightarrow> ostate \<Rightarrow> (expr \<times> ostate) option \<Rightarrow> bool" where
  "keeps C \<sigma> bs s r \<longleftrightarrow> (\<forall>e s'. r = Some (e, s') \<longrightarrow> holdsBytes C \<sigma> bs (fst s') \<and> osize (fst s') = osize (fst s))"

lemma read8_keeps: "holdsBytes C \<sigma> bs (fst s) \<Longrightarrow> keeps C \<sigma> bs s (read8 C s offset)"
  using getUpdates_holds [of C \<sigma> bs "fst s" "snd s"]
  by (auto simp: keeps_def read8_def Let_def split: if_splits option.splits prod.splits)

lemma read8_expr_keeps:
  assumes "holdsBytes C \<sigma> bs (fst s)"
  shows "keeps C \<sigma> bs s (read8_expr C s offset)"
proof -
  obtain os1 where os1: "flushRangeForRead 0 (osize (fst s)) (fst s) = Some os1" "holdsBytes C \<sigma> bs os1" "osize os1 = osize (fst s)"
    using flushRangeForRead_holds [OF assms] by blast
  with getUpdates_holds [OF os1(2), of "snd s"] show ?thesis
    by (auto simp: keeps_def read8_expr_def fastRangeCheckOffset_def Let_def split: if_splits option.splits prod.splits)
qed

lemma readLoop_keeps:
  assumes "\<And>s idx. holdsBytes C \<sigma> bs (fst s) \<Longrightarrow> keeps C \<sigma> bs s (rd s idx)"
  shows "holdsBytes C \<sigma> bs (fst s) \<Longrightarrow> readLoop rd idxs s Res = Some (Res', s') \<Longrightarrow>
    holdsBytes C \<sigma> bs (fst s') \<and> osize (fst s') = osize (fst s)"
proof (induction idxs arbitrary: s Res)
  case (Cons idx idxs)
  then obtain e s1 where "rd s idx = Some (e, s1)" by (auto split: option.splits)
  moreover from this assms [OF Cons.prems(1), of idx] have "holdsBytes C \<sigma> bs (fst s1) \<and> osize (fst s1) = osize (fst s)"
    unfolding keeps_def by blast
  ultimately show ?case using Cons.IH [of s1] Cons.prems(2) by simp
qed simp

lemma readBytes_keeps:
  assumes "\<And>s idx. holdsBytes C \<sigma> bs (fst s) \<Longrightarrow> keeps C \<sigma> bs s (rd s idx)" "holdsBytes C \<sigma> bs (fst s)"
  shows "keeps C \<sigma> bs s (readBytes C rd w s)"
  using readLoop_keeps [OF assms, where Res = None] assms(1) [OF assms(2), of 0]
  by (auto simp: keeps_def readBytes_def Let_def split: option.splits if_splits)

lemma read_expr_keeps:
  assumes "holdsBytes C \<sigma> bs (fst s)" "read_expr C s offset w = Some (e, s')"
  shows "holdsBytes C \<sigma> bs (fst s') \<and> osize (fst s') = osize (fst s)"
proof -
  have "keeps C \<sigma> bs s (read_at C s off w)" for off
    unfolding read_at_def by (rule readBytes_keeps [OF read8_keeps assms(1)])
  moreover have "keeps C \<sigma> bs s (readBytes C (\<lambda>s idx. read8_expr C s (f idx)) w s)" for f
    by (rule readBytes_keeps [OF read8_expr_keeps assms(1)])
  moreover have "keeps C \<sigma> bs s (map_option (\<lambda>(e, s'). (ExtractExpr_create e 0 1, s')) (read8_expr C s off))" for off
    using read8_expr_keeps [OF assms(1), of off] by (auto simp: keeps_def)
  ultimately have "keeps C \<sigma> bs s (read_expr C s offset w)"
    by (cases "w = 1") (simp_all add: read_expr_def Let_def split: expr.split)
  with assms(2) show ?thesis unfolding keeps_def by blast
qed

section \<open>Accesses within bounds\<close>

text \<open>The address a pointer has in an environment, and whether an access of \<open>n\<close> bytes there lies in an object.\<close>

definition addressIn :: "env \<Rightarrow> expr \<Rightarrow> 64 word" where
  "addressIn \<sigma> p = word_of_int (the (sem \<sigma> p))"

definition fitsIn :: "MemoryObject \<Rightarrow> 64 word \<Rightarrow> nat \<Rightarrow> bool" where
  "fitsIn mo a n \<longleftrightarrow> unat (a - moAddress mo) + n \<le> moSize mo"

lemma fitsIn_int: "fitsIn mo a n \<longleftrightarrow> uint (a - moAddress mo) + int n \<le> int (moSize mo)"
  unfolding fitsIn_def uint_nat by linarith

lemma fitsIn_inside: "fitsIn mo a n \<Longrightarrow> 0 < n \<Longrightarrow> inside mo a"
  by (auto simp: fitsIn_def inside_def)

lemma offset_value:
  assumes "wf_expr p" "getWidth p = 64" "getPointerWidth C = 64"
  shows "wf_expr (getOffsetExpr C mo p)" "getWidth (getOffsetExpr C mo p) = 64"
    "wf_env (constArrayOpt C) \<sigma> \<Longrightarrow> sem \<sigma> p = Some v \<Longrightarrow> sem \<sigma> (getOffsetExpr C mo p) = Some (uint (word_of_int v - moAddress mo :: 64 word))"
proof -
  let ?co = "constArrayOpt C" and ?off = "BinaryExpr Sub p (getBaseExpr C mo)"
  have ref: "refines ?co ?off (getOffsetExpr C mo p)" unfolding getOffsetExpr_def by (rule AddSub_create_sound(2))
  have wf: "wf_expr ?off" using assms by (simp add: getBaseExpr_def kind_simps)
  show "wf_expr (getOffsetExpr C mo p)" "getWidth (getOffsetExpr C mo p) = 64"
    using refinesD(1,2) [OF ref wf] assms(2) by (simp_all add: kind_simps)
  assume s: "wf_env ?co \<sigma>" "sem \<sigma> p = Some v"
  have v: "fits 64 v" using sem_fits(1) [OF s(2,1) assms(1)] assms(2) by simp
  have "uint (moAddress mo) mod 2 ^ 64 = uint (moAddress mo)" using uint_bounded [of "moAddress mo"] by simp
  then have "sem \<sigma> ?off = Some (uint (word_of_int v - moAddress mo :: 64 word))"
    unfolding word_sub_value [OF v] using s assms(2,3) by (simp add: getBaseExpr_def kind_simps)
  with refinesD(3) [OF ref wf s(1)] show "sem \<sigma> (getOffsetExpr C mo p) = Some (uint (word_of_int v - moAddress mo :: 64 word))" by simp
qed

lemma bytes_check:
  assumes "wf_expr p" "getWidth p = 64" "getPointerWidth C = 64" "moSize mo < 2 ^ 32"
  shows "wf_expr (getBoundsCheckPointerBytes C mo p n)" "getWidth (getBoundsCheckPointerBytes C mo p n) = 1"
    "wf_env (constArrayOpt C) \<sigma> \<Longrightarrow> sem \<sigma> p = Some v \<Longrightarrow> sem \<sigma> (getBoundsCheckPointerBytes C mo p n) = Some (of_bool (fitsIn mo (word_of_int v) n))"
proof -
  let ?co = "constArrayOpt C" and ?k = "int (moSize mo - n + 1)"
  let ?o = "getOffsetExpr C mo p"
  let ?raw = "if n \<le> moSize mo then BinaryExpr Ult ?o (ConstantExpr (alloc ?k 64)) else ConstantExpr (alloc 0 1)"
  note o = offset_value [OF assms(1-3), where mo = mo]
  have ref: "refines ?co ?raw (getBoundsCheckPointerBytes C mo p n)"
    unfolding getBoundsCheckPointerBytes_def getBoundsCheckOffsetBytes_def using assms(3) by (auto intro: cmp_create_sound(1))
  have wf: "wf_expr ?raw" using o by (simp add: kind_simps)
  show "wf_expr (getBoundsCheckPointerBytes C mo p n)" "getWidth (getBoundsCheckPointerBytes C mo p n) = 1"
    using refinesD(1,2) [OF ref wf] by (simp_all add: kind_simps split: if_splits)
  assume s: "wf_env ?co \<sigma>" "sem \<sigma> p = Some v"
  have "fitsIn mo (word_of_int v) n \<Longrightarrow> n \<le> moSize mo" by (simp add: fitsIn_def)
  moreover have "?k mod 2 ^ 64 = ?k" using assms(4) by simp
  ultimately have "sem \<sigma> ?raw = Some (of_bool (fitsIn mo (word_of_int v) n))"
    using o(2) o(3) [OF s] by (auto simp: kind_simps fitsIn_int)
  with refinesD(3) [OF ref wf s(1)] show "sem \<sigma> (getBoundsCheckPointerBytes C mo p n) = Some (of_bool (fitsIn mo (word_of_int v) n))" by blast
qed

lemma divFree_check: "divFree S p \<Longrightarrow> divFree S (getBoundsCheckPointerBytes C mo p n)"
proof -
  assume p: "divFree S p"
  have o: "divFree S (getOffsetExpr C mo p)"
    using pure.AddSub_create_weight [of S "constArrayOpt C" p "getBaseExpr C mo"] p
    by (simp add: getOffsetExpr_def getBaseExpr_def divFree_def)
  let ?k = "ConstantExpr (alloc (int (moSize mo - n + 1)) (getPointerWidth C))"
  show ?thesis
    using pure.shift_cmp_create_weight(4) [of S "constArrayOpt C" "getOffsetExpr C mo p" ?k] p o
    by (cases "n \<le> moSize mo") (simp_all add: getBoundsCheckPointerBytes_def getBoundsCheckOffsetBytes_def divFree_def)
qed

section \<open>Reading from the memory of a state\<close>

text \<open>
  Every object of the map holds its bytes in every input; a byte may depend on the input.
\<close>

definition memoryHolds :: "Context \<Rightarrow> env set \<Rightarrow> (env \<Rightarrow> nat \<Rightarrow> int list) \<Rightarrow> MemoryMap \<Rightarrow> heap \<Rightarrow> bool" where
  "memoryHolds C U content t h \<longleftrightarrow>
     (\<forall>(mo, r) \<in> set (inorder t). r < length h \<and> osize (h ! r) = moSize mo \<and> (\<forall>\<sigma> \<in> U. holdsBytes C \<sigma> (content \<sigma> r) (h ! r)))"

text \<open>
  A pointer that has a value in every input. Its offset into an object is a constant, or stays an
  expression when the index of a byte is added, as it does for expressions in canonical form.
\<close>

definition accessOK :: "Context \<Rightarrow> env set \<Rightarrow> MemoryMap \<Rightarrow> expr \<Rightarrow> nat \<Rightarrow> bool" where
  "accessOK C U t p n \<longleftrightarrow>
     wf_expr p \<and> getWidth p = 64 \<and> getPointerWidth C = 64 \<and> (\<forall>\<sigma> \<in> U. wf_env (constArrayOpt C) \<sigma> \<and> sem \<sigma> p \<noteq> None) \<and>
     (\<forall>(mo, r) \<in> set (inorder t). isConstantExpr (ZExtExpr_create (getOffsetExpr C mo p) 32) \<or>
        symbolicOffset C (ZExtExpr_create (getOffsetExpr C mo p) 32) n)"

text \<open>The value of \<open>w\<close> bits at an address of an object that holds the bytes \<open>bs\<close>.\<close>

definition valueAt :: "Context \<Rightarrow> int list \<Rightarrow> MemoryObject \<Rightarrow> 64 word \<Rightarrow> nat \<Rightarrow> int" where
  "valueAt C bs mo a w = littleEnd (bytesAt C bs (unat (a - moAddress mo)) (numBytes w)) mod 2 ^ w"

lemma accessOKD:
  assumes "accessOK C U t p n"
  shows "wf_expr p" "getWidth p = 64" "getPointerWidth C = 64" "\<sigma> \<in> U \<Longrightarrow> wf_env (constArrayOpt C) \<sigma>"
    "\<sigma> \<in> U \<Longrightarrow> \<exists>v. sem \<sigma> p = Some v \<and> addressIn \<sigma> p = word_of_int v"
  using assms by (auto simp: accessOK_def addressIn_def)

lemma fits_offsetAt:
  assumes "accessOK C U t p n" "(mo, r) \<in> set (inorder t)" "\<sigma> \<in> U" "fitsIn mo (addressIn \<sigma> p) n" "moSize mo < 2 ^ 32"
  shows "offsetAt C \<sigma> (getOffsetExpr C mo p) n (unat (addressIn \<sigma> p - moAddress mo))"
proof -
  note a = accessOKD [OF assms(1)]
  obtain v where v: "sem \<sigma> p = Some v" "addressIn \<sigma> p = word_of_int v" using a(5) [OF assms(3)] by blast
  have o: "wf_expr (getOffsetExpr C mo p)" "sem \<sigma> (getOffsetExpr C mo p) = Some (uint (addressIn \<sigma> p - moAddress mo))"
    using offset_value [OF a(1-3), where mo = mo] a(4) [OF assms(3)] v by simp_all
  have "uint (addressIn \<sigma> p - moAddress mo) + int n \<le> int (moSize mo)" using assms(4) by (simp add: fitsIn_int)
  moreover have "int (moSize mo) < 2 ^ 32" using assms(5) by simp
  ultimately have "uint (addressIn \<sigma> p - moAddress mo) < 2 ^ 32" by linarith
  then have "uint (addressIn \<sigma> p - moAddress mo) mod 2 ^ 32 = uint (addressIn \<sigma> p - moAddress mo)"
    using uint_ge_0 [of "addressIn \<sigma> p - moAddress mo"] by (intro mod_pos_pos_trivial)
  with o assms(1,2) show ?thesis by (auto simp: offsetAt_def accessOK_def)
qed

lemma loadAt_ok:
  assumes mem: "memoryHolds (target X) U content t (objectHeap M)" and p: "accessOK (target X) U t p (numBytes w)"
    and op: "(mo, r) \<in> set (inorder t)" and size: "moSize mo < 2 ^ 32" and w: "memoryWidth w"
    and some: "\<sigma>0 \<in> U" "fitsIn mo (addressIn \<sigma>0 p) (numBytes w)"
  shows "\<exists>e h n. loadAt X (mo, r) (getOffsetExpr (target X) mo p) w M = Ok (e, M\<lparr>objectHeap := h, arrayCount := n\<rparr>) \<and>
    memoryHolds (target X) U content t h \<and>
    (\<forall>\<sigma> \<in> U. fitsIn mo (addressIn \<sigma> p) (numBytes w) \<longrightarrow> sem \<sigma> e = Some (valueAt (target X) (content \<sigma> r) mo (addressIn \<sigma> p) w))"
proof -
  let ?C = "target X" and ?s = "(objectHeap M ! r, arrayCount M)" and ?o = "getOffsetExpr (target X) mo p"
  have r: "r < length (objectHeap M)" "osize (objectHeap M ! r) = moSize mo" "\<And>\<sigma>. \<sigma> \<in> U \<Longrightarrow> holdsBytes ?C \<sigma> (content \<sigma> r) (objectHeap M ! r)"
    using mem op by (auto simp: memoryHolds_def)
  have read: "\<exists>e s'. read_expr ?C ?s ?o w = Some (e, s') \<and> sem \<sigma> e = Some (valueAt ?C (content \<sigma> r) mo (addressIn \<sigma> p) w)"
    if "\<sigma> \<in> U" "fitsIn mo (addressIn \<sigma> p) (numBytes w)" for \<sigma>
    using read_expr_value [of ?C \<sigma> "content \<sigma> r" ?s w ?o "unat (addressIn \<sigma> p - moAddress mo)"] r that w
      fits_offsetAt [OF p op that size] by (auto simp: fitsIn_def valueAt_def hasValue_def)
  obtain e os n where e: "read_expr ?C ?s ?o w = Some (e, os, n)" using read [OF some] by auto
  have os: "holdsBytes ?C \<sigma> (content \<sigma> r) os \<and> osize os = moSize mo" if "\<sigma> \<in> U" for \<sigma>
    using read_expr_keeps [OF _ e, of \<sigma> "content \<sigma> r"] r that by simp
  have "memoryHolds ?C U content t ((objectHeap M)[r := os])"
    unfolding memoryHolds_def
  proof clarify
    fix mo' r' assume m: "(mo', r') \<in> set (inorder t)"
    then have "r' < length (objectHeap M)" "osize (objectHeap M ! r') = moSize mo'" "\<forall>\<sigma> \<in> U. holdsBytes ?C \<sigma> (content \<sigma> r') (objectHeap M ! r')"
      using mem by (auto simp: memoryHolds_def)
    with os os [OF some(1)] r(2)
    show "r' < length ((objectHeap M)[r := os]) \<and> osize ((objectHeap M)[r := os] ! r') = moSize mo' \<and>
        (\<forall>\<sigma> \<in> U. holdsBytes ?C \<sigma> (content \<sigma> r') ((objectHeap M)[r := os] ! r'))"
      by (cases "r' = r") simp_all
  qed
  moreover have "\<forall>\<sigma> \<in> U. fitsIn mo (addressIn \<sigma> p) (numBytes w) \<longrightarrow> sem \<sigma> e = Some (valueAt ?C (content \<sigma> r) mo (addressIn \<sigma> p) w)"
    using read e by auto
  ultimately show ?thesis using r(1) e by (auto simp: loadAt_def)
qed

section \<open>The loop over the objects\<close>

text \<open>Nothing keeps a fork from following both sides.\<close>

definition unlimited :: "'w ExecutorOptions \<Rightarrow> bool" where
  "unlimited opts \<longleftrightarrow> \<not> ivcEnabled opts \<and> (\<forall>es w. \<not> staticLimit opts es w) \<and> replayPath opts = None \<and> \<not> replayKTest opts \<and>
     MaxForks opts = 2 ^ 32 - 1 \<and> MaxDepth opts = 0"

text \<open>An error of this kind is reported: every one is, or none has been at any instruction.\<close>

definition boundsMessage :: string where
  "boundsMessage = ''memory error: out of bound pointer''"

definition reports :: "'w MachineOptions \<Rightarrow> ('q, 'w) Machine \<Rightarrow> bool" where
  "reports X M \<longleftrightarrow> EmitAllErrors X \<or> (\<forall>i. (i, boundsMessage) \<notin> emittedErrors M)"

text \<open>The machine with the contents of the objects in the memory map \<open>t\<close>.\<close>

definition machineOK :: "'w MachineOptions \<Rightarrow> env set \<Rightarrow> ('q \<Rightarrow> bool) \<Rightarrow> (env \<Rightarrow> nat \<Rightarrow> int list) \<Rightarrow> MemoryMap \<Rightarrow> ('q, 'w) Machine \<Rightarrow> bool" where
  "machineOK X U I content t M \<longleftrightarrow>
     execOK (exec M) \<and> pathsOK U (exec M) \<and> I (solverState (exec M)) \<and> seedMap (exec M) = Map.empty \<and>
     \<not> atMemoryLimit (exec M) \<and> \<not> inhibitForking (exec M) \<and> memoryHolds (target X) U content t (objectHeap M) \<and> reports X M"

lemma machineOKD:
  assumes "machineOK X U I content t M"
  shows "execOK (exec M)" "pathsOK U (exec M)" "I (solverState (exec M))" "seedMap (exec M) = Map.empty"
    "\<not> atMemoryLimit (exec M)" "\<not> inhibitForking (exec M)" "memoryHolds (target X) U content t (objectHeap M)" "reports X M"
  using assms by (simp_all add: machineOK_def)

lemma machine_unrestricted:
  "machineOK X U I content t M \<Longrightarrow> unlimited opts \<Longrightarrow> \<not> forkDisabled es \<Longrightarrow> unrestricted opts s es (exec M)"
  by (simp add: machineOK_def unlimited_def unrestricted_def mayNotFork_def)

text \<open>In the state \<open>u\<close> the register has the value \<open>v\<close> for the input.\<close>

definition loadedAt :: "('q, 'w) Executor \<Rightarrow> nat \<Rightarrow> nat \<Rightarrow> env \<Rightarrow> int \<Rightarrow> bool" where
  "loadedAt E u dest \<sigma> v \<longleftrightarrow> u \<in> live E \<and> (\<exists>ts e. store E u = Some ts \<and> satisfied \<sigma> (pathConstraints ts) \<and>
     stack ts \<noteq> [] \<and> dest < length (locals (last (stack ts))) \<and> locals (last (stack ts)) ! dest = Some e \<and> sem \<sigma> e = Some v)"

text \<open>The states of \<open>L\<close> are not changed.\<close>

definition untouched :: "nat set \<Rightarrow> ('q, 'w) Executor \<Rightarrow> ('q, 'w) Executor \<Rightarrow> bool" where
  "untouched L E E' \<longleftrightarrow> (\<forall>u \<in> L. u \<in> live E' \<and> store E' u = store E u)"

lemma untouched_loaded: "untouched L E E' \<Longrightarrow> u \<in> L \<Longrightarrow> loadedAt E u dest \<sigma> v \<Longrightarrow> loadedAt E' u dest \<sigma> v"
  by (auto simp: untouched_def loadedAt_def)

lemma untouched_trans: "untouched L E E1 \<Longrightarrow> untouched L1 E1 E2 \<Longrightarrow> L \<subseteq> L1 \<Longrightarrow> untouched L E E2"
  unfolding untouched_def by (metis subsetD)

definition hasRegister :: "nat \<Rightarrow> ExecutionState \<Rightarrow> bool" where
  "hasRegister dest es \<longleftrightarrow> stack es \<noteq> [] \<and> dest < length (locals (last (stack es)))"

lemma bindLocal_ok:
  assumes "machineOK X U I content t M" "b \<in> live (exec M)" "store (exec M) b = Some ts" "hasRegister dest ts"
  shows "\<exists>M'. bindLocal dest b e M = Ok M' \<and> machineOK X U I content t M' \<and> live (exec M') = live (exec M) \<and> testCases (exec M') = testCases (exec M) \<and>
    (\<forall>u. u \<noteq> b \<longrightarrow> store (exec M') u = store (exec M) u) \<and>
    (\<forall>\<sigma> v. satisfied \<sigma> (pathConstraints ts) \<and> sem \<sigma> e = Some v \<longrightarrow> loadedAt (exec M') b dest \<sigma> v)"
proof -
  let ?sf = "last (stack ts)"
  let ?ts = "ts\<lparr>stack := butlast (stack ts) @ [?sf\<lparr>locals := (locals ?sf)[dest := Some e]\<rparr>]\<rparr>"
  let ?M = "setState b ?ts M"
  have run: "bindLocal dest b e M = Ok ?M" using assms(3,4) by (simp add: bindLocal_def getState_def hasRegister_def)
  have st: "store (exec ?M) = (store (exec M))(b \<mapsto> ?ts)" by (simp add: setState_def putState_def)
  have live: "live (exec ?M) = live (exec M)" using assms(3) by (auto simp: live_def setState_def putState_def)
  note m = machineOKD [OF assms(1)]
  have "b \<in> states (exec M) \<union> set (addedStates (exec M))" using assms(2) live_states [OF m(1)] by auto
  from execOK_put [OF m(1) this, of ?ts] have "execOK (exec ?M)" by (simp add: setState_def putState_def)
  moreover have "pathsOK U (exec ?M)" using m(2) assms(3) unfolding pathsOK_def st by auto
  ultimately have "machineOK X U I content t ?M" using m(3-8) by (simp add: machineOK_def reports_def setState_def putState_def)
  moreover have "loadedAt (exec ?M) b dest \<sigma> v" if "satisfied \<sigma> (pathConstraints ts)" "sem \<sigma> e = Some v" for \<sigma> v
    unfolding loadedAt_def st live using assms(2,4) that by (simp add: hasRegister_def)
  ultimately show ?thesis using run live by (intro exI [of _ ?M]) (simp add: setState_def putState_def)
qed

lemma check_defined:
  assumes "accessOK C U t p n" "moSize mo < 2 ^ 32"
  shows "definedIn U (getBoundsCheckPointerBytes C mo p n)" "getWidth (getBoundsCheckPointerBytes C mo p n) = 1"
    "\<sigma> \<in> U \<Longrightarrow> sem \<sigma> (getBoundsCheckPointerBytes C mo p n) = Some (of_bool (fitsIn mo (addressIn \<sigma> p) n))"
proof -
  note a = accessOKD [OF assms(1)] and b = bytes_check [OF accessOKD(1-3) [OF assms(1)] assms(2), where n = n]
  show v: "sem \<sigma> (getBoundsCheckPointerBytes C mo p n) = Some (of_bool (fitsIn mo (addressIn \<sigma> p) n))" if "\<sigma> \<in> U" for \<sigma>
    using a(5) [OF that] b(3) [OF a(4) [OF that]] by auto
  show "definedIn U (getBoundsCheckPointerBytes C mo p n)" "getWidth (getBoundsCheckPointerBytes C mo p n) = 1"
    using v b(1,2) by (auto simp: definedIn_def)
qed

lemma definedIn_mono: "definedIn U e \<Longrightarrow> definedIn (modelsOf U cs) e"
  by (auto simp: definedIn_def modelsOf_def)

text \<open>The states of the loop: \<open>u\<close> is the one that is in none of the objects so far.\<close>

definition canLoad :: "'q Solving \<Rightarrow> 'w MachineOptions \<Rightarrow> env set \<Rightarrow> ('q \<Rightarrow> bool) \<Rightarrow> MemoryMap \<Rightarrow> expr \<Rightarrow> nat \<Rightarrow> nat \<Rightarrow> ExecutionState \<Rightarrow> bool" where
  "canLoad V X U I t p w dest es \<longleftrightarrow>
     soundSolving V U True I \<and> constArrayOpt (target X) = solvingCO V \<and> unlimited (execOptions X) \<and> layoutOK t \<and> accessOK (target X) U t p (numBytes w) \<and> memoryWidth w \<and>
     hasRegister dest es \<and> \<not> forkDisabled es"

lemma accessOne_ok:
  assumes can: "canLoad V X U I t p w dest ts" and M: "machineOK X U I content t M"
    and u: "u \<in> live (exec M)" "store (exec M) u = Some ts" and op: "(mo, r) \<in> set (inorder t)"
  shows "\<exists>rest M'. accessOne V X (Load w dest) p (numBytes w) (mo, r) u M = Ok (rest, M') \<and> machineOK X U I content t M' \<and>
    testCases (exec M') = testCases (exec M) \<and> untouched (live (exec M) - {u}) (exec M) (exec M') \<and> set_option rest \<inter> (live (exec M) - {u}) = {} \<and>
    (\<forall>\<sigma> \<in> modelsOf U (pathConstraints ts). fitsIn mo (addressIn \<sigma> p) (numBytes w) \<longrightarrow>
       (\<exists>b. b \<notin> set_option rest \<and> loadedAt (exec M') b dest \<sigma> (valueAt (target X) (content \<sigma> r) mo (addressIn \<sigma> p) w))) \<and>
    sideOf U (exec M') ts (getBoundsCheckPointerBytes (target X) mo p (numBytes w)) 0 rest"
proof -
  let ?C = "target X" and ?n = "numBytes w" and ?cs = "pathConstraints ts"
  let ?c = "getBoundsCheckPointerBytes ?C mo p ?n"
  have c: "soundSolving V U True I" "unlimited (execOptions X)" "layoutOK t" "accessOK ?C U t p ?n" "memoryWidth w" "hasRegister dest ts" "\<not> forkDisabled ts"
    using can by (simp_all add: canLoad_def)
  have size: "moSize mo < 2 ^ 32" using layoutD(4) [OF c(3) op] by simp
  note chk = check_defined [OF c(4) size] and m = machineOKD [OF M]
  have "MaxDepth (execOptions X) = 0" using c(2) by (simp add: unlimited_def)
  from fork_step [OF c(1) m(1-3) u definedIn_mono [OF chk(1)] chk(2) machine_unrestricted [OF M c(2,7)] this, of True]
  obtain bound rest E where f: "fork V (execOptions X) u ?c True (exec M) = Ok ((bound, rest), E)" "execOK E" "pathsOK U E" "I (solverState E)" "sameMode (exec M) E"
      "live E = live (exec M) - {u} \<union> set_option bound \<union> set_option rest" "\<forall>v \<in> live (exec M) - {u}. store E v = store (exec M) v"
      "bound = None \<or> bound \<noteq> rest" "(set_option bound \<union> set_option rest) \<inter> (live (exec M) - {u}) = {}" "sideOf U E ts ?c 1 bound" "sideOf U E ts ?c 0 rest"
    by (elim exE conjE)
  let ?M1 = "M\<lparr>exec := E\<rparr>"
  have run1: "forkState V X u ?c M = Ok ((bound, rest), ?M1)" using f(1) by (simp add: forkState_def)
  have M1: "machineOK X U I content t ?M1" using f(2-5) m(4-8) by (simp add: machineOK_def reports_def sameMode_def)
  have same: "testCases E = testCases (exec M)" using f(5) by (simp add: sameMode_def)
  have out: "set_option rest \<inter> (live (exec M) - {u}) = {}" using f(9) by auto
  show ?thesis
  proof (cases bound)
    case None
    then have run: "accessOne V X (Load w dest) p ?n (mo, r) u M = Ok (rest, ?M1)" using run1 by (simp add: accessOne_def)
    have "\<not> fitsIn mo (addressIn \<sigma> p) ?n" if "\<sigma> \<in> modelsOf U ?cs" for \<sigma>
      using f(10) chk(3) [of \<sigma>] that unfolding None by (auto simp: sideOf_def modelsOf_def)
    moreover have "untouched (live (exec M) - {u}) (exec M) (exec ?M1)" using f(6,7) by (auto simp: untouched_def)
    ultimately show ?thesis using run M1 same out f(11) by (intro exI [of _ rest] exI [of _ ?M1]) simp
  next
    case (Some b)
    obtain \<sigma>0 bs where b: "\<sigma>0 \<in> modelsOf U ?cs" "sem \<sigma>0 ?c = Some 1" "b \<in> live E" "store E b = Some bs" "inherits ts bs" "narrows U ?cs ?c 1 (pathConstraints bs)"
      using f(10) unfolding Some by (auto simp: sideOf_def)
    have fit0: "\<sigma>0 \<in> U" "fitsIn mo (addressIn \<sigma>0 p) ?n" using b(1,2) chk(3) [of \<sigma>0] by (auto simp: modelsOf_def split: if_splits)
    obtain e h k where ld: "loadAt X (mo, r) (getOffsetExpr ?C mo p) w ?M1 = Ok (e, ?M1\<lparr>objectHeap := h, arrayCount := k\<rparr>)" "memoryHolds ?C U content t h"
        "\<forall>\<sigma> \<in> U. fitsIn mo (addressIn \<sigma> p) ?n \<longrightarrow> sem \<sigma> e = Some (valueAt ?C (content \<sigma> r) mo (addressIn \<sigma> p) w)"
      using loadAt_ok [OF machineOKD(7) [OF M1] c(4) op size c(5) fit0] by blast
    let ?M2 = "?M1\<lparr>objectHeap := h, arrayCount := k\<rparr>"
    have M2: "machineOK X U I content t ?M2" using M1 ld(2) by (simp add: machineOK_def reports_def)
    have reg: "hasRegister dest bs" using c(6) b(5) by (simp add: hasRegister_def inherits_def)
    obtain M' where M': "bindLocal dest b e ?M2 = Ok M'" "machineOK X U I content t M'" "live (exec M') = live (exec ?M2)" "testCases (exec M') = testCases (exec ?M2)"
        "\<forall>v. v \<noteq> b \<longrightarrow> store (exec M') v = store (exec ?M2) v"
        "\<forall>\<sigma> v. satisfied \<sigma> (pathConstraints bs) \<and> sem \<sigma> e = Some v \<longrightarrow> loadedAt (exec M') b dest \<sigma> v"
      using bindLocal_ok [OF M2, of b bs dest e] b(3,4) reg by auto
    have run: "accessOne V X (Load w dest) p ?n (mo, r) u M = Ok (rest, M')" using run1 Some ld(1) M'(1) by (simp add: accessOne_def)
    have br: "b \<notin> set_option rest" "b \<notin> live (exec M) - {u}" using f(8,9) Some by auto
    have "v \<in> live (exec M') \<and> store (exec M') v = store (exec M) v" if v: "v \<in> live (exec M) - {u}" for v
    proof -
      have "v \<noteq> b" using br(2) v by blast
      with f(6,7) M'(3,5) v show ?thesis by simp
    qed
    then have "untouched (live (exec M) - {u}) (exec M) (exec M')" by (simp add: untouched_def)
    moreover have "sideOf U (exec M') ts ?c 0 rest" using f(11) M'(3,5) br(1) by (auto simp: sideOf_def split: option.splits)
    moreover have "loadedAt (exec M') b dest \<sigma> (valueAt ?C (content \<sigma> r) mo (addressIn \<sigma> p) w)"
      if "\<sigma> \<in> modelsOf U ?cs" "fitsIn mo (addressIn \<sigma> p) ?n" for \<sigma>
    proof -
      have s: "\<sigma> \<in> U" "sem \<sigma> ?c = Some 1" using that chk(3) [of \<sigma>] by (simp_all add: modelsOf_def)
      then have "satisfied \<sigma> (pathConstraints bs)" using b(6) that(1) by (auto simp: narrows_def modelsOf_def)
      with M'(6) ld(3) s(1) that(2) show ?thesis by blast
    qed
    ultimately show ?thesis using run M'(2,4) same out br(1) by (intro exI [of _ rest] exI [of _ M']) auto
  qed
qed

text \<open>The inputs of a path whose access lies in none of the objects of a list.\<close>

definition outsideAll :: "env set \<Rightarrow> expr \<Rightarrow> nat \<Rightarrow> ObjectPair list \<Rightarrow> ExecutionState \<Rightarrow> env set" where
  "outsideAll U p n rl ts = {\<sigma> \<in> modelsOf U (pathConstraints ts). \<forall>op \<in> set rl. \<not> fitsIn (fst op) (addressIn \<sigma> p) n}"

text \<open>They are the inputs of the remaining state, which exists when there are any.\<close>

definition remains :: "env set \<Rightarrow> ('q, 'w) Executor \<Rightarrow> expr \<Rightarrow> nat \<Rightarrow> ObjectPair list \<Rightarrow> ExecutionState \<Rightarrow> nat option \<Rightarrow> bool" where
  "remains U E p n rl ts rest =
     (case rest of
        None \<Rightarrow> outsideAll U p n rl ts = {}
      | Some u \<Rightarrow> u \<in> live E \<and> (\<exists>us. store E u = Some us \<and> inherits ts us \<and> outsideAll U p n rl ts \<subseteq> modelsOf U (pathConstraints us) \<and>
          (\<forall>S. divFreeAll S (p # pathConstraints ts) \<and> (\<forall>\<sigma> \<in> U. totalOn S \<sigma>) \<longrightarrow>
             divFreeAll S (pathConstraints us) \<and> modelsOf U (pathConstraints us) \<subseteq> outsideAll U p n rl ts)))"

lemma fits_unique:
  assumes "layoutOK t" "op \<in> set (inorder t)" "op' \<in> set (inorder t)" "fitsIn (fst op) a n" "fitsIn (fst op') a n" "0 < n"
  shows "op = op'"
  using inside_unique [OF assms(1-3)] fitsIn_inside assms(4-6) by blast

lemma remains_Cons:
  assumes side: "sideOf U E1 ts (getBoundsCheckPointerBytes C (fst op) p n) 0 (Some u1)" and us1: "store E1 u1 = Some us1"
    and p: "accessOK C U t p n" "moSize (fst op) < 2 ^ 32" and rem: "remains U E p n rl us1 rest"
  shows "remains U E p n (op # rl) ts rest"
proof -
  let ?c = "getBoundsCheckPointerBytes C (fst op) p n"
  note chk = check_defined [OF p]
  have n: "inherits ts us1" "narrows U (pathConstraints ts) ?c 0 (pathConstraints us1)" using side us1 by (auto simp: sideOf_def)
  have zero: "sem \<sigma> ?c = Some 0 \<longleftrightarrow> \<not> fitsIn (fst op) (addressIn \<sigma> p) n" if "\<sigma> \<in> U" for \<sigma> using chk(3) [OF that] by simp
  have sub: "outsideAll U p n (op # rl) ts \<subseteq> outsideAll U p n rl us1"
    using n(2) zero by (auto simp: outsideAll_def narrows_def modelsOf_def)
  show ?thesis
  proof (cases rest)
    case None
    with rem sub show ?thesis by (simp add: remains_def)
  next
    case (Some u)
    then obtain us where us: "u \<in> live E" "store E u = Some us" "inherits us1 us" "outsideAll U p n rl us1 \<subseteq> modelsOf U (pathConstraints us)"
        "\<forall>S. divFreeAll S (p # pathConstraints us1) \<and> (\<forall>\<sigma> \<in> U. totalOn S \<sigma>) \<longrightarrow>
           divFreeAll S (pathConstraints us) \<and> modelsOf U (pathConstraints us) \<subseteq> outsideAll U p n rl us1"
      using rem [unfolded remains_def Some option.case] by blast
    have "divFreeAll S (pathConstraints us) \<and> modelsOf U (pathConstraints us) \<subseteq> outsideAll U p n (op # rl) ts"
      if S: "divFreeAll S (p # pathConstraints ts) \<and> (\<forall>\<sigma> \<in> U. totalOn S \<sigma>)" for S
    proof -
      have "divFree S ?c" using divFree_check S by simp
      then have d: "divFreeAll S (pathConstraints us1)" "modelsOf U (pathConstraints us1) \<subseteq> {\<sigma> \<in> modelsOf U (pathConstraints ts). sem \<sigma> ?c = Some 0}"
        using n(2) S unfolding narrows_def divFreeAll_simps by blast+
      then have "outsideAll U p n rl us1 \<subseteq> outsideAll U p n (op # rl) ts"
        using zero by (auto simp: outsideAll_def modelsOf_def)
      then show ?thesis using us(5) d(1) S by auto
    qed
    then show ?thesis using Some us(1,2,4) inherits_trans [OF n(1) us(3)] sub by (auto simp: remains_def)
  qed
qed

lemma accessAll_ok:
  assumes "canLoad V X U I t p w dest ts" "machineOK X U I content t M" "u \<in> live (exec M)" "store (exec M) u = Some ts" "set rl \<subseteq> set (inorder t)"
  shows "\<exists>rest M'. accessAll V X (Load w dest) p (numBytes w) rl u M = Ok (rest, M') \<and> machineOK X U I content t M' \<and>
    testCases (exec M') = testCases (exec M) \<and> untouched (live (exec M) - {u}) (exec M) (exec M') \<and> set_option rest \<inter> (live (exec M) - {u}) = {} \<and>
    (\<forall>\<sigma> \<in> modelsOf U (pathConstraints ts). \<forall>(mo, r) \<in> set rl. fitsIn mo (addressIn \<sigma> p) (numBytes w) \<longrightarrow>
       (\<exists>b. b \<notin> set_option rest \<and> loadedAt (exec M') b dest \<sigma> (valueAt (target X) (content \<sigma> r) mo (addressIn \<sigma> p) w))) \<and>
    remains U (exec M') p (numBytes w) rl ts rest"
  using assms
proof (induction rl arbitrary: u M ts)
  case Nil
  have "remains U (exec M) p (numBytes w) [] ts (Some u)" using Nil.prems(3,4) by (auto simp: remains_def outsideAll_def)
  moreover have "untouched (live (exec M) - {u}) (exec M) (exec M)" by (simp add: untouched_def)
  ultimately show ?case using Nil.prems(2) by (intro exI [of _ "Some u"] exI [of _ M]) simp
next
  case (Cons op rl)
  obtain mo r where op: "op = (mo, r)" by (cases op)
  let ?C = "target X" and ?n = "numBytes w"
  let ?load = "\<lambda>E rest \<sigma> mo r. \<exists>b. b \<notin> set_option rest \<and> loadedAt E b dest \<sigma> (valueAt ?C (content \<sigma> r) mo (addressIn \<sigma> p) w)"
  have c: "layoutOK t" "accessOK ?C U t p ?n" "memoryWidth w" using Cons.prems(1) by (simp_all add: canLoad_def)
  have int: "op \<in> set (inorder t)" "set rl \<subseteq> set (inorder t)" using Cons.prems(5) by simp_all
  have size: "moSize (fst op) < 2 ^ 32" using layoutD(4) [OF c(1) int(1)] .
  note chk = check_defined [OF c(2) size] and unique = fits_unique [OF c(1) _ _ _ _ numBytes_pos [OF c(3)]]
  obtain rest1 M1 where one: "accessOne V X (Load w dest) p ?n op u M = Ok (rest1, M1)" "machineOK X U I content t M1" "testCases (exec M1) = testCases (exec M)"
      "untouched (live (exec M) - {u}) (exec M) (exec M1)" "set_option rest1 \<inter> (live (exec M) - {u}) = {}"
      "\<forall>\<sigma> \<in> modelsOf U (pathConstraints ts). fitsIn mo (addressIn \<sigma> p) ?n \<longrightarrow> ?load (exec M1) rest1 \<sigma> mo r"
      "sideOf U (exec M1) ts (getBoundsCheckPointerBytes ?C mo p ?n) 0 rest1"
    using accessOne_ok [OF Cons.prems(1-4) int(1) [unfolded op]] unfolding op by blast
  show ?case
  proof (cases rest1)
    case None
    have fit: "fitsIn mo (addressIn \<sigma> p) ?n" if "\<sigma> \<in> modelsOf U (pathConstraints ts)" for \<sigma>
      using one(7) chk(3) [of \<sigma>] that unfolding None op by (auto simp: sideOf_def modelsOf_def split: if_splits)
    have "?load (exec M1) None \<sigma> mo' r'" if "\<sigma> \<in> modelsOf U (pathConstraints ts)" "(mo', r') \<in> set (op # rl)" "fitsIn mo' (addressIn \<sigma> p) ?n" for \<sigma> mo' r'
    proof -
      have "(mo', r') = op" using unique [of "(mo', r')" op] that int fit [OF that(1)] op by auto
      with one(6) that op None show ?thesis by auto
    qed
    moreover have "remains U (exec M1) p ?n (op # rl) ts None" using fit op by (auto simp: remains_def outsideAll_def)
    ultimately show ?thesis using one(1-5) None by (intro exI [of _ None] exI [of _ M1]) auto
  next
    case (Some u1)
    obtain us1 where us1: "u1 \<in> live (exec M1)" "store (exec M1) u1 = Some us1" "inherits ts us1" "narrows U (pathConstraints ts) (getBoundsCheckPointerBytes ?C mo p ?n) 0 (pathConstraints us1)"
      using one(7) unfolding Some by (auto simp: sideOf_def)
    have can1: "canLoad V X U I t p w dest us1" using Cons.prems(1) us1(3) by (simp add: canLoad_def hasRegister_def inherits_def)
    obtain rest M' where IH: "accessAll V X (Load w dest) p ?n rl u1 M1 = Ok (rest, M')" "machineOK X U I content t M'" "testCases (exec M') = testCases (exec M1)"
        "untouched (live (exec M1) - {u1}) (exec M1) (exec M')" "set_option rest \<inter> (live (exec M1) - {u1}) = {}"
        "\<forall>\<sigma> \<in> modelsOf U (pathConstraints us1). \<forall>(mo, r) \<in> set rl. fitsIn mo (addressIn \<sigma> p) ?n \<longrightarrow> ?load (exec M') rest \<sigma> mo r"
        "remains U (exec M') p ?n rl us1 rest"
      using Cons.IH [OF can1 one(2) us1(1,2) int(2)] by blast
    have run: "accessAll V X (Load w dest) p ?n (op # rl) u M = Ok (rest, M')" using one(1) IH(1) Some by simp
    have sub: "live (exec M) - {u} \<subseteq> live (exec M1) - {u1}" using one(4,5) Some by (auto simp: untouched_def)
    have "untouched (live (exec M) - {u}) (exec M) (exec M')" using untouched_trans [OF one(4) IH(4) sub] .
    moreover have "set_option rest \<inter> (live (exec M) - {u}) = {}" using IH(5) sub by blast
    moreover have "?load (exec M') rest \<sigma> mo' r'" if hit: "\<sigma> \<in> modelsOf U (pathConstraints ts)" "(mo', r') \<in> set (op # rl)" "fitsIn mo' (addressIn \<sigma> p) ?n" for \<sigma> mo' r'
    proof (cases "(mo', r') = op")
      case True
      then obtain b where b: "b \<noteq> u1" "loadedAt (exec M1) b dest \<sigma> (valueAt ?C (content \<sigma> r) mo (addressIn \<sigma> p) w)"
        using one(6) hit op Some by auto
      then have "b \<in> live (exec M1) - {u1}" by (simp add: loadedAt_def)
      with untouched_loaded [OF IH(4) this b(2)] IH(5) True op show ?thesis by auto
    next
      case False
      then have "\<not> fitsIn mo (addressIn \<sigma> p) ?n" using unique [of "(mo', r')" op] hit int op by auto
      then have "\<sigma> \<in> modelsOf U (pathConstraints us1)" using chk(3) [of \<sigma>] hit(1) us1(4) op by (auto simp: narrows_def modelsOf_def)
      then show ?thesis using IH(6) hit(2,3) False by auto
    qed
    moreover have "remains U (exec M') p ?n (op # rl) ts rest"
      using remains_Cons [OF _ us1(2) c(2) size IH(7)] one(7) Some op by simp
    ultimately show ?thesis using run IH(2,3) one(3) by (intro exI [of _ rest] exI [of _ M']) auto
  qed
qed

section \<open>The report of an error\<close>

lemma pointer_ok:
  assumes "canLoad V X U I t p w dest es"
  shows "pointerOK (solvingCO V) (modelsOf U cs) (target X) p"
proof -
  have "accessOK (target X) U t p (numBytes w)" "constArrayOpt (target X) = solvingCO V" using assms by (simp_all add: canLoad_def)
  then show ?thesis by (auto simp: accessOK_def pointerOK_def definedIn_def modelsOf_def)
qed

lemma case_not_constant: "\<not> isConstantExpr p \<Longrightarrow> (case p of ConstantExpr c \<Rightarrow> f c | _ \<Rightarrow> g) = g"
  by (cases p) simp_all

lemma getAddressInfo_ok:
  assumes can: "canLoad V X U I t p w dest ts" and u: "store (exec M) u = Some us" "feasible U (pathConstraints us)" and q: "I (solverState (exec M))"
  shows "\<exists>q info. getAddressInfo V u p M = Ok (info, M\<lparr>exec := (exec M)\<lparr>solverState := q\<rparr>\<rparr>) \<and> I q"
proof -
  let ?cs = "pathConstraints us" and ?q = "solverState (exec M)"
  have sol: "soundSolving V U True I" using can by (simp add: canLoad_def)
  note T = soundSolving_timing [OF sol u(2)] and ptr = pointer_ok [OF can, of ?cs]
  have w: "getWidth p = 64" "definedIn (modelsOf U ?cs) p" using ptr by (simp_all add: pointerOK_def)
  show ?thesis
  proof (cases "isConstantExpr p")
    case True
    then obtain c where c: "p = ConstantExpr c" by (rule isConstantExprE)
    with w(1) u(1) q show ?thesis
      by (auto simp: getAddressInfo_def getState_def addressOf_def Let_def intro!: exI [of _ ?q])
  next
    case False
    obtain c q1 where g: "TimingSolver_getValue (timing V) ?cs p ?q = Ok (Some c, q1)" "I q1" "addressOf c = Ok (word_of_int (apValue c))"
      using timing_solver.pointer_value [OF T ptr q] by (metis (full_types))
    have ok: "okQuery U \<lparr>constraints = ?cs, qexpr = p\<rparr>" using timing_solver.ok_queryOf [OF T w(2)] .
    have imp: "solver_impl (solvingCO V) U True I (tsSolver (timing V))" using sol by (simp add: soundSolving_def)
    have ne: "modelsOf U (constraints \<lparr>constraints = ?cs, qexpr = p\<rparr>) \<noteq> {}" using u(2) by (simp add: feasible_def)
    obtain r q2 where r: "TimingSolver_getRange (timing V) ?cs p q1 = Ok (r, q2)" "I q2"
      using solver_impl.range_tight [OF imp TrueI ok ne refl _ g(2)] w(1) by (auto simp: TimingSolver_getRange_def)
    from g r u(1) show ?thesis
      by (intro exI [of _ q2] exI) (simp add: getAddressInfo_def getState_def answered_def Let_def case_not_constant [OF False])
  qed
qed

lemma terminateStateOnError_ok:
  assumes "execOK (exec M)" "s \<in> live (exec M)" "store (exec M) s = Some es" "stack es \<noteq> []" "EmitAllErrors X \<or> (\<forall>i. (i, msg) \<notin> emittedErrors M)"
  shows "\<exists>M'. terminateStateOnError X s msg reason info M = Ok M' \<and> finished s es (exec M) (exec M') \<and>
    testCases (exec M') = testCases (exec M) @ [(s, es, Some (msg, TerminateReasonNames reason @ ''.err''))]"
proof -
  let ?m = "Some (msg, TerminateReasonNames reason @ ''.err'')"
  let ?E1 = "(exec M)\<lparr>testCases := testCases (exec M) @ [(s, es, ?m)]\<rparr>"
  have "execOK ?E1" "live ?E1 = live (exec M)" using assms(1) by (simp_all add: execOK_def live_def)
  then obtain E' where E': "terminateState s ?E1 = Ok E'" "finished s es (exec M) E'" "testCases E' = testCases ?E1"
    using terminateState_ok [of ?E1 s] assms(2,3) by (fastforce simp: finished_def sameRun_def)
  obtain i where i: "getLastNonKleeInternalInstruction X es = Ok i" using assms(4) by (simp add: getLastNonKleeInternalInstruction_def Let_def)
  have "EmitAllErrors X \<or> (i, msg) \<notin> emittedErrors M" using assms(5) by blast
  then show ?thesis using assms(3) i E'
    by (auto simp: terminateStateOnError_def getState_def onExec_def processTestCase_def)
qed

section \<open>Loads\<close>

text \<open>The options of the operation have their default values, and the time for a resolution does not run out.\<close>

definition defaultAccess :: "'w MachineOptions \<Rightarrow> bool" where
  "defaultAccess X \<longleftrightarrow> OptimizeArray X = NONE \<and> \<not> SimplifySymIndices X \<and> MaxSymArraySize X = 0 \<and> MakeConcreteSymbolic X = 0 \<and>
     (\<forall>w i. \<not> resolveExpired X w i)"

text \<open>
  What a load promises. In the input \<open>\<sigma>\<close> the access lies in the object \<open>mo\<close>: then the input goes on in a
  live state whose register has the value stored there. It lies in none: then a test with the error
  is written for it. Without divisions the error is reported only if it can happen.
\<close>

definition loads :: "'w MachineOptions \<Rightarrow> env set \<Rightarrow> (env \<Rightarrow> nat \<Rightarrow> int list) \<Rightarrow> expr \<Rightarrow> nat \<Rightarrow> nat \<Rightarrow> ExecutionState \<Rightarrow>
    ('q, 'w) Executor \<Rightarrow> ('q, 'w) Executor \<Rightarrow> bool" where
  "loads X U content p w dest es E E' \<longleftrightarrow>
     (\<forall>\<sigma> \<in> modelsOf U (pathConstraints es). \<forall>(mo, r) \<in> set (inorder (objects (addressSpace es))). fitsIn mo (addressIn \<sigma> p) (numBytes w) \<longrightarrow>
        (\<exists>u. loadedAt E' u dest \<sigma> (valueAt (target X) (content \<sigma> r) mo (addressIn \<sigma> p) w))) \<and>
     (\<forall>\<sigma> \<in> outsideAll U p (numBytes w) (inorder (objects (addressSpace es))) es.
        \<exists>(u, us, m) \<in> set (testCases E'). satisfied \<sigma> (pathConstraints us) \<and> m = Some (boundsMessage, ''ptr.err'')) \<and>
     (testCases E' \<noteq> testCases E \<longrightarrow>
        (\<forall>S. divFreeAll S (p # pathConstraints es) \<and> (\<forall>\<sigma> \<in> U. totalOn S \<sigma>) \<longrightarrow>
           outsideAll U p (numBytes w) (inorder (objects (addressSpace es))) es \<noteq> {}))"

lemma finished_loaded: "finished u us E E' \<Longrightarrow> b \<noteq> u \<Longrightarrow> loadedAt E b dest \<sigma> v \<Longrightarrow> loadedAt E' b dest \<sigma> v"
  by (auto simp: finished_def loadedAt_def)

lemma addressError_ok:
  assumes can: "canLoad V X U I t p w dest ts" and M: "machineOK X U I content t M"
    and u: "u \<in> live (exec M)" "store (exec M) u = Some us" "inherits ts us"
  shows "\<exists>q M'. addressError V X u boundsMessage Ptr p M = Ok M' \<and> finished u us ((exec M)\<lparr>solverState := q\<rparr>) (exec M') \<and>
    testCases (exec M') = testCases (exec M) @ [(u, us, Some (boundsMessage, ''ptr.err''))]"
proof -
  note m = machineOKD [OF M]
  have feas: "feasible U (pathConstraints us)" using m(2) u(2) by (auto simp: pathsOK_def)
  obtain info q where g: "getAddressInfo V u p M = Ok (info, M\<lparr>exec := (exec M)\<lparr>solverState := q\<rparr>\<rparr>)"
    using getAddressInfo_ok [where M = M, OF can u(2) feas m(3)] by blast
  let ?M1 = "M\<lparr>exec := (exec M)\<lparr>solverState := q\<rparr>\<rparr>"
  have st: "stack us \<noteq> []" using can u(3) by (simp add: canLoad_def hasRegister_def inherits_def)
  have ok: "execOK (exec ?M1)" "u \<in> live (exec ?M1)" "store (exec ?M1) u = Some us" using m(1) u(1,2) by (simp_all add: live_def)
  have "EmitAllErrors X \<or> (\<forall>i. (i, boundsMessage) \<notin> emittedErrors ?M1)" using m(8) by (simp add: reports_def)
  from terminateStateOnError_ok [OF ok st this, of Ptr "Some info"]
  obtain M' where M': "terminateStateOnError X u boundsMessage Ptr (Some info) ?M1 = Ok M'" "finished u us (exec ?M1) (exec M')"
      "testCases (exec M') = testCases (exec M) @ [(u, us, Some (boundsMessage, ''ptr.err''))]"
    by (auto simp: TerminateReasonNames_def)
  then show ?thesis using g by (intro exI [of _ q] exI [of _ M']) (simp add: addressError_def)
qed

lemma resolve_reliable:
  assumes can: "canLoad V X U I t p w dest es" and cs: "feasible U cs" and t: "objects as = t" and ex: "\<forall>i. \<not> expired i" and q: "I q"
  shows "\<exists>rl q'. resolve (target X) (timing V) cs expired p [] 0 as q = Ok ((False, rl), q') \<and> I q' \<and>
    set rl = {op \<in> set (inorder t). hits (modelsOf U cs) p op}"
proof -
  have sol: "soundSolving V U True I" and lay: "layoutOK (objects as)" using can t by (simp_all add: canLoad_def)
  note T = soundSolving_timing [OF sol cs] and ptr = pointer_ok [OF can, of cs]
  have "\<exists>inc rl q'. resolve (target X) (timing V) cs expired p [] 0 as q = Ok ((inc, rl), q') \<and> I q' \<and>
    resolution True expired (modelsOf U cs) p 0 (objects as) inc rl"
  proof (cases "isConstantExpr p")
    case True
    then obtain c where c: "p = ConstantExpr c" by (rule isConstantExprE)
    with ptr have "bitWidth c = 64" by (simp add: pointerOK_def)
    from resolve_constant [OF lay this timing_solver.sat_cs [OF T], of "target X" "timing V" cs expired 0 q True] q show ?thesis unfolding c by blast
  qed (rule timing_solver.resolve_symbolic [OF T lay ptr q])
  then show ?thesis using ex t by (auto simp: resolution_def)
qed

lemma resolveOne_reliable:
  assumes can: "canLoad V X U I t p w dest es" and cs: "feasible U cs" and t: "objects as = t" and q: "I q"
  shows "\<exists>r q'. resolveOne (target X) (timing V) cs p as q = Ok (Some r, q') \<and> I q' \<and> (\<forall>op. r = Some op \<longrightarrow> op \<in> set (inorder t))"
proof -
  have sol: "soundSolving V U True I" and lay: "layoutOK (objects as)" using can t by (simp_all add: canLoad_def)
  note T = soundSolving_timing [OF sol cs] and ptr = pointer_ok [OF can, of cs]
  have "\<exists>r q'. resolveOne (target X) (timing V) cs p as q = Ok (r, q') \<and> I q' \<and> resolvedOne True (modelsOf U cs) p (objects as) r"
  proof (cases "isConstantExpr p")
    case True
    then obtain c where c: "p = ConstantExpr c" by (rule isConstantExprE)
    with ptr have "bitWidth c = 64" by (simp add: pointerOK_def)
    from resolveOne_constant [OF lay this timing_solver.sat_cs [OF T], of "target X" "timing V" cs q True] q show ?thesis unfolding c by blast
  qed (rule timing_solver.resolveOne_symbolic [OF T lay ptr q])
  then show ?thesis using t by (fastforce simp: resolvedOne_def split: option.splits)
qed

text \<open>An input whose access lies in an object points into it, so that the resolution has found it.\<close>

lemma outside_hits:
  assumes can: "canLoad V X U I t p w dest es" and rl: "set rl = {op \<in> set (inorder t). hits (modelsOf U (pathConstraints es)) p op}"
  shows "\<sigma> \<in> modelsOf U (pathConstraints es) \<Longrightarrow> op \<in> set (inorder t) \<Longrightarrow> fitsIn (fst op) (addressIn \<sigma> p) (numBytes w) \<Longrightarrow> op \<in> set rl"
    and "outsideAll U p (numBytes w) (inorder t) es = outsideAll U p (numBytes w) rl es"
proof -
  have c: "accessOK (target X) U t p (numBytes w)" "memoryWidth w" using can by (simp_all add: canLoad_def)
  show hit: "op \<in> set rl" if "\<sigma> \<in> modelsOf U (pathConstraints es)" "op \<in> set (inorder t)" "fitsIn (fst op) (addressIn \<sigma> p) (numBytes w)" for \<sigma> op
  proof -
    have "\<sigma> \<in> U" using that(1) by (simp add: modelsOf_def)
    then have "addressIn \<sigma> p \<in> pointees (modelsOf U (pathConstraints es)) p" using accessOKD(5) [OF c(1)] that(1) by (force simp: pointees_def)
    with fitsIn_inside [OF that(3) numBytes_pos [OF c(2)]] that(2) rl show ?thesis by (auto simp: hits_def)
  qed
  show "outsideAll U p (numBytes w) (inorder t) es = outsideAll U p (numBytes w) rl es"
    unfolding outsideAll_def using hit rl by blast
qed

lemma slowAccess_ok:
  assumes can: "canLoad V X U I t p w dest es" and M: "machineOK X U I content t M" and opts: "defaultAccess X"
    and s: "s \<in> live (exec M)" "store (exec M) s = Some es" "objects (addressSpace es) = t"
  shows "\<exists>M'. slowAccess V X s (Load w dest) p (numBytes w) M = Ok M' \<and> execOK (exec M') \<and> pathsOK U (exec M') \<and>
    untouched (live (exec M) - {s}) (exec M) (exec M') \<and> loads X U content p w dest es (exec M) (exec M')"
proof -
  let ?C = "target X" and ?n = "numBytes w" and ?cs = "pathConstraints es"
  note m = machineOKD [OF M]
  have feas: "feasible U ?cs" using m(2) s(2) by (auto simp: pathsOK_def)
  have o: "optimizeExpr X p True = p" "\<forall>i. \<not> resolveExpired X (world (exec M)) i" using opts by (simp_all add: defaultAccess_def optimizeExpr_def)
  obtain rl q where rl: "resolve ?C (timing V) ?cs (resolveExpired X (world (exec M))) p [] 0 (addressSpace es) (solverState (exec M)) = Ok ((False, rl), q)" "I q"
      "set rl = {op \<in> set (inorder t). hits (modelsOf U ?cs) p op}"
    using resolve_reliable [OF can feas s(3) o(2) m(3)] by blast
  let ?M1 = "M\<lparr>exec := (exec M)\<lparr>solverState := q\<rparr>\<rparr>"
  have M1: "machineOK X U I content t ?M1" "s \<in> live (exec ?M1)" "store (exec ?M1) s = Some es" "live (exec ?M1) = live (exec M)"
    using m rl(2) s by (simp_all add: machineOK_def live_def pathsOK_def reports_def)
  note hit = outside_hits [OF can rl(3)]
  have "set rl \<subseteq> set (inorder t)" using rl(3) by blast
  from accessAll_ok [OF can M1(1-3) this] obtain rest M2 where all: "accessAll V X (Load w dest) p ?n rl s ?M1 = Ok (rest, M2)" "machineOK X U I content t M2"
      "testCases (exec M2) = testCases (exec ?M1)" "untouched (live (exec ?M1) - {s}) (exec ?M1) (exec M2)" "set_option rest \<inter> (live (exec ?M1) - {s}) = {}"
      "\<forall>\<sigma> \<in> modelsOf U ?cs. \<forall>(mo, r) \<in> set rl. fitsIn mo (addressIn \<sigma> p) ?n \<longrightarrow>
         (\<exists>b. b \<notin> set_option rest \<and> loadedAt (exec M2) b dest \<sigma> (valueAt ?C (content \<sigma> r) mo (addressIn \<sigma> p) w))"
      "remains U (exec M2) p ?n rl es rest"
    by (elim exE conjE)
  have loaded: "\<exists>b. b \<notin> set_option rest \<and> loadedAt (exec M2) b dest \<sigma> (valueAt ?C (content \<sigma> r) mo (addressIn \<sigma> p) w)"
    if fit: "\<sigma> \<in> modelsOf U ?cs" "(mo, r) \<in> set (inorder t)" "fitsIn mo (addressIn \<sigma> p) ?n" for \<sigma> mo r
    using all(6) hit(1) [OF fit(1,2)] fit by auto
  have un: "untouched (live (exec M) - {s}) (exec M) (exec M2)" using all(4) M1(4) by (simp add: untouched_def)
  show ?thesis
  proof (cases rest)
    case None
    have run: "slowAccess V X s (Load w dest) p ?n M = Ok M2" using s(2) rl(1) all(1) None by (simp add: slowAccess_def o(1) getState_def)
    have "outsideAll U p ?n (inorder t) es = {}" using all(7) None hit(2) by (simp add: remains_def)
    moreover have "\<forall>\<sigma> \<in> modelsOf U ?cs. \<forall>(mo, r) \<in> set (inorder t). fitsIn mo (addressIn \<sigma> p) ?n \<longrightarrow>
        (\<exists>u. loadedAt (exec M2) u dest \<sigma> (valueAt ?C (content \<sigma> r) mo (addressIn \<sigma> p) w))"
      using loaded by blast
    ultimately have "loads X U content p w dest es (exec M) (exec M2)" unfolding loads_def s(3) using all(3) by simp
    then show ?thesis using run machineOKD(1,2) [OF all(2)] un by blast
  next
    case (Some u)
    obtain us where us: "u \<in> live (exec M2)" "store (exec M2) u = Some us" "inherits es us" "outsideAll U p ?n rl es \<subseteq> modelsOf U (pathConstraints us)"
        "\<forall>S. divFreeAll S (p # ?cs) \<and> (\<forall>\<sigma> \<in> U. totalOn S \<sigma>) \<longrightarrow>
           divFreeAll S (pathConstraints us) \<and> modelsOf U (pathConstraints us) \<subseteq> outsideAll U p ?n rl es"
      using all(7) [unfolded remains_def Some option.case] by blast
    obtain q' M' where M': "addressError V X u boundsMessage Ptr p M2 = Ok M'" "finished u us ((exec M2)\<lparr>solverState := q'\<rparr>) (exec M')"
        "testCases (exec M') = testCases (exec M2) @ [(u, us, Some (boundsMessage, ''ptr.err''))]"
      using addressError_ok [OF can all(2) us(1-3)] by blast
    have run: "slowAccess V X s (Load w dest) p ?n M = Ok M'"
      using s(2) rl(1) all(1) Some M'(1) by (simp add: slowAccess_def o(1) getState_def boundsMessage_def)
    have paths: "pathsOK U ((exec M2)\<lparr>solverState := q'\<rparr>)" "store ((exec M2)\<lparr>solverState := q'\<rparr>) u = Some us"
      using machineOKD(2) [OF all(2)] us(2) by (simp_all add: pathsOK_def)
    have ok: "execOK (exec M')" "pathsOK U (exec M')" using finished_advances [OF M'(2) paths] by (simp_all add: advances_def)
    have fin: "live (exec M') = live (exec M2) - {u}" "\<forall>v. v \<noteq> u \<longrightarrow> store (exec M') v = store (exec M2) v"
      using M'(2) by (simp_all add: finished_def live_def)
    have "u \<notin> live (exec M) - {s}" using all(5) M1(4) Some by auto
    then have "untouched (live (exec M) - {s}) (exec M) (exec M')" using un fin by (auto simp: untouched_def)
    moreover have "loads X U content p w dest es (exec M) (exec M')"
      unfolding loads_def s(3)
    proof (intro conjI ballI impI allI)
      fix \<sigma> op assume \<sigma>: "\<sigma> \<in> modelsOf U ?cs" "op \<in> set (inorder t)"
      show "case op of (mo, r) \<Rightarrow> fitsIn mo (addressIn \<sigma> p) ?n \<longrightarrow> (\<exists>u. loadedAt (exec M') u dest \<sigma> (valueAt ?C (content \<sigma> r) mo (addressIn \<sigma> p) w))"
      proof (clarify)
        fix mo r assume op: "op = (mo, r)" "fitsIn mo (addressIn \<sigma> p) ?n"
        then obtain b where b: "b \<noteq> u" "loadedAt (exec M2) b dest \<sigma> (valueAt ?C (content \<sigma> r) mo (addressIn \<sigma> p) w)"
          using loaded [of \<sigma> mo r] \<sigma> Some by auto
        then have "loadedAt (exec M') b dest \<sigma> (valueAt ?C (content \<sigma> r) mo (addressIn \<sigma> p) w)" using fin by (auto simp: loadedAt_def)
        then show "\<exists>u. loadedAt (exec M') u dest \<sigma> (valueAt ?C (content \<sigma> r) mo (addressIn \<sigma> p) w)" by blast
      qed
    next
      fix \<sigma> assume "\<sigma> \<in> outsideAll U p ?n (inorder t) es"
      then have "satisfied \<sigma> (pathConstraints us)" using us(4) hit(2) by (auto simp: modelsOf_def)
      then show "\<exists>(u, us, m) \<in> set (testCases (exec M')). satisfied \<sigma> (pathConstraints us) \<and> m = Some (boundsMessage, ''ptr.err'')"
        using M'(3) by auto
    next
      fix S assume "divFreeAll S (p # ?cs) \<and> (\<forall>\<sigma> \<in> U. totalOn S \<sigma>)"
      then have "modelsOf U (pathConstraints us) \<subseteq> outsideAll U p ?n (inorder t) es" using us(5) hit(2) by simp
      moreover have "modelsOf U (pathConstraints us) \<noteq> {}" using machineOKD(2) [OF all(2)] us(2) by (auto simp: pathsOK_def feasible_def)
      ultimately show "outsideAll U p ?n (inorder t) es \<noteq> {}" by blast
    qed
    ultimately show ?thesis using run ok by blast
  qed
qed

lemma getMinBytes_numBytes: "memoryWidth w \<Longrightarrow> getMinBytesForWidth w = numBytes w"
  by (auto simp: memoryWidth_def numBytes_def getMinBytesForWidth_def)

text \<open>The fast path: the access lies in one object for every input of the path.\<close>

lemma fastAccess_ok:
  assumes can: "canLoad V X U I t p w dest es" and M: "machineOK X U I content t M" and opts: "defaultAccess X"
    and s: "s \<in> live (exec M)" "store (exec M) s = Some es" "objects (addressSpace es) = t" and op: "(mo, r) \<in> set (inorder t)"
    and fit: "\<forall>\<sigma> \<in> modelsOf U (pathConstraints es). fitsIn mo (addressIn \<sigma> p) (numBytes w)"
  shows "\<exists>M'. fastAccess V X s (Load w dest) (mo, r) (getOffsetExpr (target X) mo p) M = Ok M' \<and> execOK (exec M') \<and> pathsOK U (exec M') \<and>
    untouched (live (exec M) - {s}) (exec M) (exec M') \<and> loads X U content p w dest es (exec M) (exec M')"
proof -
  let ?C = "target X" and ?n = "numBytes w" and ?cs = "pathConstraints es"
  have c: "layoutOK t" "accessOK ?C U t p ?n" "memoryWidth w" "hasRegister dest es" using can by (simp_all add: canLoad_def)
  note m = machineOKD [OF M]
  have "feasible U ?cs" using m(2) s(2) by (auto simp: pathsOK_def)
  then obtain \<sigma>0 where \<sigma>0: "\<sigma>0 \<in> U" "fitsIn mo (addressIn \<sigma>0 p) ?n" using fit by (auto simp: feasible_def modelsOf_def)
  have size: "moSize mo < 2 ^ 32" using layoutD(4) [OF c(1) op] by simp
  obtain e h k where ld: "loadAt X (mo, r) (getOffsetExpr ?C mo p) w M = Ok (e, M\<lparr>objectHeap := h, arrayCount := k\<rparr>)" "memoryHolds ?C U content t h"
      "\<forall>\<sigma> \<in> U. fitsIn mo (addressIn \<sigma> p) ?n \<longrightarrow> sem \<sigma> e = Some (valueAt ?C (content \<sigma> r) mo (addressIn \<sigma> p) w)"
    using loadAt_ok [OF m(7) c(2) op size c(3) \<sigma>0] by blast
  let ?M2 = "M\<lparr>objectHeap := h, arrayCount := k\<rparr>"
  have M2: "machineOK X U I content t ?M2" using M ld(2) by (simp add: machineOK_def reports_def)
  obtain M' where M': "bindLocal dest s e ?M2 = Ok M'" "machineOK X U I content t M'" "live (exec M') = live (exec ?M2)" "testCases (exec M') = testCases (exec ?M2)"
      "\<forall>v. v \<noteq> s \<longrightarrow> store (exec M') v = store (exec ?M2) v"
      "\<forall>\<sigma> v. satisfied \<sigma> ?cs \<and> sem \<sigma> e = Some v \<longrightarrow> loadedAt (exec M') s dest \<sigma> v"
    using bindLocal_ok [OF M2, of s es dest e] s c(4) by auto
  have run: "fastAccess V X s (Load w dest) (mo, r) (getOffsetExpr ?C mo p) M = Ok M'"
    using ld(1) M'(1) opts by (simp add: fastAccess_def replaceReadWithSymbolic_def defaultAccess_def)
  have "\<exists>u. loadedAt (exec M') u dest \<sigma> (valueAt ?C (content \<sigma> r') mo' (addressIn \<sigma> p) w)"
    if hit: "\<sigma> \<in> modelsOf U ?cs" "(mo', r') \<in> set (inorder t)" "fitsIn mo' (addressIn \<sigma> p) ?n" for \<sigma> mo' r'
  proof -
    have "(mo', r') = (mo, r)" using fits_unique [OF c(1) hit(2) op _ _ numBytes_pos [OF c(3)]] hit fit by auto
    then show ?thesis using M'(6) ld(3) hit by (auto simp: modelsOf_def)
  qed
  then have "\<forall>\<sigma> \<in> modelsOf U ?cs. \<forall>(mo, r) \<in> set (inorder t). fitsIn mo (addressIn \<sigma> p) ?n \<longrightarrow>
      (\<exists>u. loadedAt (exec M') u dest \<sigma> (valueAt ?C (content \<sigma> r) mo (addressIn \<sigma> p) w))" by blast
  moreover have "outsideAll U p ?n (inorder t) es = {}" using fit op by (force simp: outsideAll_def)
  ultimately have "loads X U content p w dest es (exec M) (exec M')" unfolding loads_def s(3) using M'(4) by simp
  moreover have "untouched (live (exec M) - {s}) (exec M) (exec M')" using M'(3,5) by (simp add: untouched_def live_def)
  ultimately show ?thesis using run machineOKD(1,2) [OF M'(2)] by blast
qed

lemma load_ok:
  assumes can: "canLoad V X U I t p w dest es" and M: "machineOK X U I content t M" and opts: "defaultAccess X"
    and s: "s \<in> live (exec M)" "store (exec M) s = Some es" "objects (addressSpace es) = t"
  shows "\<exists>M'. executeMemoryOperation V X s (Load w dest) p M = Ok M' \<and> execOK (exec M') \<and> pathsOK U (exec M') \<and>
    untouched (live (exec M) - {s}) (exec M) (exec M') \<and> loads X U content p w dest es (exec M) (exec M')"
proof -
  let ?C = "target X" and ?n = "numBytes w" and ?cs = "pathConstraints es"
  note m = machineOKD [OF M]
  have c: "soundSolving V U True I" "layoutOK t" "accessOK ?C U t p ?n" "memoryWidth w" using can by (simp_all add: canLoad_def)
  have feas: "feasible U ?cs" using m(2) s(2) by (auto simp: pathsOK_def)
  have bytes: "getMinBytesForWidth (accessWidth (Load w dest)) = ?n" using getMinBytes_numBytes [OF c(4)] by (simp add: accessWidth_def)
  have o: "optimizeExpr X e True = e" "simplifyIndex V (SimplifySymIndices X) ?cs p = Ok p" "MaxSymArraySize X = 0" for e
    using opts by (simp_all add: defaultAccess_def optimizeExpr_def simplifyIndex_def)
  obtain r q where r: "resolveOne ?C (timing V) ?cs p (addressSpace es) (solverState (exec M)) = Ok (Some r, q)" "I q" "\<forall>op. r = Some op \<longrightarrow> op \<in> set (inorder t)"
    using resolveOne_reliable [OF can feas s(3) m(3)] by blast
  have solver: "machineOK X U I content t (M\<lparr>exec := (exec M)\<lparr>solverState := q\<rparr>\<rparr>)" if "I q" for q
    using m that by (simp add: machineOK_def reports_def pathsOK_def)
  have st: "s \<in> live (exec (M\<lparr>exec := (exec M)\<lparr>solverState := q\<rparr>\<rparr>))" "store (exec (M\<lparr>exec := (exec M)\<lparr>solverState := q\<rparr>\<rparr>)) s = Some es" for q
    using s(1,2) by (simp_all add: live_def)
  have lift: "untouched (live (exec M) - {s}) (exec M) E \<and> loads X U content p w dest es (exec M) E"
    if "untouched (live (exec (M\<lparr>exec := (exec M)\<lparr>solverState := q\<rparr>\<rparr>)) - {s}) (exec (M\<lparr>exec := (exec M)\<lparr>solverState := q\<rparr>\<rparr>)) E"
      "loads X U content p w dest es (exec (M\<lparr>exec := (exec M)\<lparr>solverState := q\<rparr>\<rparr>)) E" for q E
    using that by (simp add: untouched_def live_def loads_def)
  let ?M1 = "M\<lparr>exec := (exec M)\<lparr>solverState := q\<rparr>\<rparr>"
  have fast: "resolveFast V X s p M = Ok ((p, r), ?M1)" using s(2) r(1) by (simp add: resolveFast_def getState_def Let_def)
  show ?thesis
  proof (cases r)
    case None
    have "executeMemoryOperation V X s (Load w dest) p M = slowAccess V X s (Load w dest) p ?n ?M1"
      using s(2) fast None by (simp add: executeMemoryOperation_def Let_def getState_def o bytes)
    with slowAccess_ok [OF can solver [OF r(2)] opts st s(3)] lift show ?thesis by metis
  next
    case (Some op)
    then obtain mo ref where op: "r = Some (mo, ref)" "(mo, ref) \<in> set (inorder t)" using r(3) by (cases op) auto
    let ?c = "getBoundsCheckPointerBytes ?C mo p ?n"
    have size: "moSize mo < 2 ^ 32" using layoutD(4) [OF c(2) op(2)] by simp
    note chk = check_defined [OF c(3) size]
    define B where "B \<longleftrightarrow> (\<forall>\<sigma> \<in> modelsOf U ?cs. sem \<sigma> ?c = Some 1)"
    obtain q' where q': "TimingSolver_mustBeTrue (timing V) ?cs ?c q = Ok (Some B, q')" "I q'"
      unfolding B_def using returns_reliable [OF timing_solver.ts_mustBeTrue [OF soundSolving_timing [OF c(1) feas] definedIn_mono [OF chk(1)] chk(2)] r(2)] by blast
    let ?M3 = "M\<lparr>exec := (exec M)\<lparr>solverState := q'\<rparr>\<rparr>"
    have run: "executeMemoryOperation V X s (Load w dest) p M =
        (if B then fastAccess V X s (Load w dest) (mo, ref) (getOffsetExpr ?C mo p) ?M3
         else slowAccess V X s (Load w dest) p ?n ?M3)"
      using s(2) fast op(1) q'(1) by (cases B) (simp_all add: executeMemoryOperation_def Let_def getState_def o bytes getBoundsCheckPointerBytes_def)
    show ?thesis
    proof (cases B)
      case True
      then have fit: "\<forall>\<sigma> \<in> modelsOf U ?cs. fitsIn mo (addressIn \<sigma> p) ?n" using chk(3) by (auto simp: B_def modelsOf_def split: if_splits)
      from fastAccess_ok [OF can solver [OF q'(2)] opts st s(3) op(2) fit] lift run True show ?thesis by metis
    next
      case False
      from slowAccess_ok [OF can solver [OF q'(2)] opts st s(3)] lift run False show ?thesis by metis
    qed
  qed
qed

section \<open>Properties\<close>

text \<open>A machine with one state, whose memory has one object of four bytes.\<close>

definition exampleMachineOptions :: "unit MachineOptions" where
  "exampleMachineOptions =
     \<lparr>target = exampleContext, execOptions = exampleExecOptions, OptimizeArray = NONE, arrayOptimization = \<lambda>e b. e,
      instructionFunction = \<lambda>i. 1, internalFunctions = {}, EmitAllErrors = False, ExitOnErrorType = [], SimplifySymIndices = False,
      MaxSymArraySize = 0, MakeConcreteSymbolic = 0, randomNumber = \<lambda>w. (0, w), rrwsAddress = \<lambda>i. 200 + i, resolveExpired = \<lambda>w i. False\<rparr>"

definition exampleLoader :: ExecutionState where
  "exampleLoader = (ExecutionState_new \<lparr>kfunction = 1, numRegisters = 1, firstInstruction = 7\<rparr>)\<lparr>addressSpace := exampleSpace\<rparr>"

definition exampleMachine :: "(unit, unit) Machine" where
  "exampleMachine =
     \<lparr>exec = exampleExecutor\<lparr>store := [0 \<mapsto> exampleLoader]\<rparr>, objectHeap = [ObjectState_new exampleMemory None], arrayCount = 0, rrwsCount = 0,
      emittedErrors = {}, errorReports = [], haltExecution = False\<rparr>"

lemma exampleLoader_fields:
  "pathConstraints exampleLoader = []" "objects (addressSpace exampleLoader) = objects exampleSpace" "hasRegister 0 exampleLoader" "\<not> forkDisabled exampleLoader"
  by (simp_all add: exampleLoader_def ExecutionState_new_def ExecutionState_assuming_def pushFrame_def hasRegister_def StackFrame_new_def)

lemma exampleMachine_ok:
  "machineOK exampleMachineOptions {env8 3, env8 7} (\<lambda>q. True) (\<lambda>\<sigma> r. [0, 0, 0, 0]) (objects exampleSpace) exampleMachine"
  "0 \<in> live (exec exampleMachine)" "store (exec exampleMachine) 0 = Some exampleLoader"
proof -
  let ?E = "exampleExecutor\<lparr>store := [0 \<mapsto> exampleLoader]\<rparr>"
  have "store exampleExecutor = [0 \<mapsto> ExecutionState_new \<lparr>kfunction = 1, numRegisters = 1, firstInstruction = 7\<rparr>]" by (simp add: exampleExecutor_def)
  then have E: "?E = exampleExecutor\<lparr>store := (store exampleExecutor)(0 \<mapsto> exampleLoader)\<rparr>" by simp
  have "0 \<in> states exampleExecutor \<union> set (addedStates exampleExecutor)" by (simp add: exampleExecutor_def)
  then have "execOK ?E" unfolding E by (rule execOK_put [OF exampleExecutor_ok(1)])
  moreover have "pathsOK {env8 3, env8 7} ?E" by (simp add: pathsOK_def feasible_def exampleLoader_fields exampleQuery_ok(3))
  moreover have "memoryHolds exampleContext {env8 3, env8 7} (\<lambda>\<sigma> r. [0, 0, 0, 0]) (objects exampleSpace) [ObjectState_new exampleMemory None]"
    using example_holds holdsBytesD(3) [OF example_holds [of 3]] by (simp add: memoryHolds_def exampleSpace_def exampleMemory_def)
  ultimately show "machineOK exampleMachineOptions {env8 3, env8 7} (\<lambda>q. True) (\<lambda>\<sigma> r. [0, 0, 0, 0]) (objects exampleSpace) exampleMachine"
    by (simp add: machineOK_def reports_def exampleMachine_def exampleMachineOptions_def exampleExecutor_def)
qed (simp_all add: exampleMachine_def exampleExecutor_def live_def)

lemma example_indexable: "symbolicOffset exampleContext (ZExtExpr_create (getOffsetExpr exampleContext exampleMemory examplePointer) 32) 1"
proof -
  have "ZExtExpr_create (getOffsetExpr exampleContext exampleMemory examplePointer) 32 = ExtractExpr (ZExtExpr (bufAt 1) 64) 0 32"
    by code_simp
  moreover have "AddExpr_create False (ExtractExpr (ZExtExpr (bufAt 1) 64) 0 32) (offsetExpr 0) = ExtractExpr (ZExtExpr (bufAt 1) 64) 0 32" by code_simp
  ultimately show ?thesis by (simp add: symbolicOffset_def example_simps)
qed

lemma exampleLoad_ok:
  assumes "\<forall>cs e. addConstraint exampleOptions (fuel cs e) cs e \<noteq> OutOfFuel"
  shows "canLoad \<lparr>timing = exampleTiming, constraintFuel = fuel\<rparr> exampleMachineOptions {env8 3, env8 7} (\<lambda>q. True) (objects exampleSpace) examplePointer 8 0 exampleLoader"
proof -
  have ptr: "wf_expr examplePointer" "getWidth examplePointer = 64" "\<forall>\<sigma> \<in> {env8 3, env8 7}. wf_env False \<sigma> \<and> sem \<sigma> examplePointer \<noteq> None"
    using examplePointer_ok exampleQuery_ok(3) exampleSolver_contract solver_impl.wf_U by (fastforce simp: pointerOK_def definedIn_def)+
  have "inorder (objects exampleSpace) = [(exampleMemory, 0)]" by (simp add: exampleSpace_def)
  then have "accessOK exampleContext {env8 3, env8 7} (objects exampleSpace) examplePointer (numBytes 8)"
    using ptr example_indexable by (simp add: accessOK_def numBytes_def)
  then show ?thesis using exampleSolving_sound [OF assms] exampleSpace_layout exampleLoader_fields
    by (simp add: canLoad_def unlimited_def exampleMachineOptions_def exampleExecOptions_def exampleTiming_def memoryWidth_def)
qed

text \<open>
  C3: a load through a pointer, with the default options of the executor, and where bounds errors are
  reported: all errors are emitted, or no bounds error was emitted before. It returns, whatever path it takes: the pointer is constant or symbolic,
  points into one object, several or none, always or for some inputs. For every input of the state whose access
  lies in an object, the input goes on in a live state and the register of the load has the value of
  the bytes stored there in the byte order of the target; for every other input a test with the error
  is written, and, where there are no divisions, only if there is such an input. Other states are as
  before, and the invariants of the executor are kept.
\<close>

theorem load_correct:
  assumes "canLoad V X U I (objects (addressSpace es)) p w dest es" "machineOK X U I content (objects (addressSpace es)) M" "defaultAccess X"
    and "s \<in> live (exec M)" "store (exec M) s = Some es"
  shows "\<exists>M'. executeMemoryOperation V X s (Load w dest) p M = Ok M' \<and> execOK (exec M') \<and> pathsOK U (exec M') \<and>
    untouched (live (exec M) - {s}) (exec M) (exec M') \<and> loads X U content p w dest es (exec M) (exec M')"
  by (rule load_ok [OF assms refl])

theorem load_correct_witness:
  "\<exists>fuel M' u. executeMemoryOperation \<lparr>timing = exampleTiming, constraintFuel = fuel\<rparr> exampleMachineOptions 0 (Load 8 0) examplePointer exampleMachine = Ok M' \<and>
     loadedAt (exec M') u 0 (env8 3) 0 \<and>
     (\<exists>(v, es, m) \<in> set (testCases (exec M')). satisfied (env8 7) (pathConstraints es) \<and> m = Some (boundsMessage, ''ptr.err''))"
proof -
  let ?U = "{env8 3, env8 7}" and ?X = exampleMachineOptions and ?c = "\<lambda>\<sigma> r :: nat. [0, 0, 0, 0 :: int]"
  obtain fuel where fuel: "\<forall>cs e. addConstraint exampleOptions (fuel cs e) cs e \<noteq> OutOfFuel" using constraintFuel_exists by blast
  let ?V = "\<lparr>timing = exampleTiming, constraintFuel = fuel\<rparr>"
  have d: "defaultAccess ?X" by (simp add: defaultAccess_def exampleMachineOptions_def)
  obtain M' where M': "executeMemoryOperation ?V ?X 0 (Load 8 0) examplePointer exampleMachine = Ok M'"
      "loads ?X ?U ?c examplePointer 8 0 exampleLoader (exec exampleMachine) (exec M')"
    using load_correct [of ?V ?X ?U "\<lambda>q. True" exampleLoader examplePointer 8 0 ?c exampleMachine 0] exampleLoad_ok [OF fuel] exampleMachine_ok d
    by (auto simp: exampleLoader_fields)
  have m: "env8 3 \<in> modelsOf ?U (pathConstraints exampleLoader)" "env8 7 \<in> modelsOf ?U (pathConstraints exampleLoader)"
    using exampleQuery_ok(3) exampleLoader_fields(1) by simp_all
  have a: "addressIn (env8 3) examplePointer = 4099" "addressIn (env8 7) examplePointer = 4103"
    by (simp_all add: addressIn_def examplePointer_def example_simps kind_simps)
  have obj: "inorder (objects (addressSpace exampleLoader)) = [(exampleMemory, 0)]" by (simp add: exampleLoader_fields exampleSpace_def)
  have fit: "fitsIn exampleMemory 4099 1" "\<not> fitsIn exampleMemory 4103 1" by (simp_all add: fitsIn_def exampleMemory_def)
  obtain u where "loadedAt (exec M') u 0 (env8 3) (valueAt exampleContext [0, 0, 0, 0] exampleMemory 4099 8)"
    using M'(2) [unfolded loads_def obj, THEN conjunct1, THEN bspec, OF m(1)] a(1) fit(1) by (auto simp: numBytes_def exampleMachineOptions_def)
  moreover have "valueAt exampleContext [0, 0, 0, 0] exampleMemory 4099 8 = 0"
    by (simp add: valueAt_def numBytes_def bytesAt_def byteIndex_def exampleMemory_def)
  moreover have "env8 7 \<in> outsideAll ?U examplePointer (numBytes 8) (inorder (objects (addressSpace exampleLoader))) exampleLoader"
    using m(2) a(2) fit(2) by (simp add: outsideAll_def obj numBytes_def)
  ultimately show ?thesis using M' unfolding loads_def by (intro exI [of _ fuel] exI [of _ M'] exI [of _ u]) auto
qed

end
