(* ===== verification/AssignmentSound.thy ===== *)
theory AssignmentSound
  imports Evaluator
begin

text \<open>
  Evaluation under an assignment agrees with the values of expressions: a defined value is
  found, as a constant, whatever the option \<open>--use-visitor-hash\<close> says. The same for the decision
  of constraints and the constraints that pin an assignment down.
\<close>

section \<open>The environment of an assignment\<close>

definition assignmentEnv :: "bool \<Rightarrow> Assignment \<Rightarrow> env" where
  "assignmentEnv co a A i =
     (if co \<and> isConstantArray A \<and> int (asize A) \<le> i then None
      else
        (case bindingOf a A of
           Some bytes \<Rightarrow>
             if i < int (length bytes) then Some ((bytes ! nat i) mod 2 ^ arange A)
             else if allowFreeValues a then None else Some 0
         | None \<Rightarrow> if allowFreeValues a then None else Some 0))"

definition agrees :: "bool \<Rightarrow> Assignment \<Rightarrow> env \<Rightarrow> bool" where
  "agrees co a \<sigma> \<longleftrightarrow> (\<forall>A i v. assignmentEnv co a A i = Some v \<longrightarrow> \<sigma> A i = Some v)"

lemma wf_assignmentEnv [simp]: "wf_env co (assignmentEnv co a)"
  by (auto simp: wf_env_def assignmentEnv_def split: option.splits if_splits)

lemma agrees_self [simp]: "agrees co a (assignmentEnv co a)"
  by (simp add: agrees_def)

lemma read_initial_sem:
  assumes "wf_array A" "fits (adomain A) i"
  shows "wf_expr (ReadExpr_create co (A, []) (ConstantExpr (alloc i (adomain A))))"
    and "getWidth (ReadExpr_create co (A, []) (ConstantExpr (alloc i (adomain A)))) = arange A"
    and "wf_env co \<sigma> \<Longrightarrow> initialValue \<sigma> A i = Some v \<Longrightarrow>
      sem \<sigma> (ReadExpr_create co (A, []) (ConstantExpr (alloc i (adomain A)))) = Some v"
proof -
  have wf: "wf_expr (ReadExpr A [] (ConstantExpr (alloc i (adomain A))))"
    using assms by (simp add: wf_array_def)
  note R = refinesD [OF ReadExpr_create_sound [of co] wf]
  show "wf_expr (ReadExpr_create co (A, []) (ConstantExpr (alloc i (adomain A))))"
    "getWidth (ReadExpr_create co (A, []) (ConstantExpr (alloc i (adomain A)))) = arange A"
    using R(1,2) by simp_all
  show "wf_env co \<sigma> \<Longrightarrow> initialValue \<sigma> A i = Some v \<Longrightarrow>
      sem \<sigma> (ReadExpr_create co (A, []) (ConstantExpr (alloc i (adomain A)))) = Some v"
    using R(3) assms by (simp add: fits_mod_eq)
qed

interpretation assignment_values: initial_values co "evaluateByte co a" "agrees co a" for co a
proof unfold_locales
  fix A i assume A: "wf_array A" "fits (adomain A) i"
  then have "0 < arange A" by (simp add: wf_array_def)
  with read_initial_sem(1,2) [OF A, of co]
  show "wf_expr (evaluateByte co a A i) \<and> getWidth (evaluateByte co a A i) = arange A"
    by (auto simp: evaluateByte_def split: option.splits)
  fix \<sigma> v
  assume *: "wf_env co \<sigma>" "agrees co a \<sigma>" "\<sigma> A i = Some v" "\<not> (isConstantArray A \<and> i < int (asize A))"
  then have "\<not> (co \<and> isConstantArray A \<and> int (asize A) \<le> i)" by (auto simp: wf_env_def)
  moreover have ag: "assignmentEnv co a A i = Some w \<Longrightarrow> w = v" for w using *(2,3) by (auto simp: agrees_def)
  moreover have "initialValue \<sigma> A i = Some v" using * by (auto simp: initialValue_def)
  ultimately show "sem \<sigma> (evaluateByte co a A i) = Some v"
    using *(1) ag read_initial_sem(3) [OF A, of co \<sigma> v]
    by (auto simp: evaluateByte_def assignmentEnv_def split: option.splits if_splits)
qed



section \<open>Complete evaluation\<close>

text \<open>
  Expressions without an opaque constant, that is a \<open>NotOptimizedExpr\<close> directly over a constant.
\<close>

fun plain :: "expr \<Rightarrow> bool" where
  "plain (ConstantExpr c) = True"
| "plain (NotOptimizedExpr e) = (\<not> isConstantExpr e \<and> plain e)"
| "plain (ReadExpr A us i) = (plain i \<and> (\<forall>(ui, uv) \<in> set us. plain ui \<and> plain uv))"
| "plain (SelectExpr c t f) = (plain c \<and> plain t \<and> plain f)"
| "plain (ConcatExpr l r) = (plain l \<and> plain r)"
| "plain (ExtractExpr e off w) = plain e"
| "plain (ZExtExpr e w) = plain e"
| "plain (SExtExpr e w) = plain e"
| "plain (NotExpr e) = plain e"
| "plain (BinaryExpr k l r) = (plain l \<and> plain r)"

text \<open>A node over constants whose value is defined is rebuilt to a constant.\<close>

lemma BinaryExpr_create_const:
  assumes "bvOp k (bitWidth a) (apValue a) (apValue b) = Some v" "bitWidth a = bitWidth b"
  shows "\<exists>c. BinaryExpr_create co k (ConstantExpr a) (ConstantExpr b) = Some (ConstantExpr c)"
  using assms
  by (cases k) (auto simp: BinaryExpr_create_def AddExpr_create.simps SubExpr_create.simps MulExpr_create_def DivExpr_create_def
      AndExpr_create_def OrExpr_create_def XorExpr_create_def ShlExpr_create_def LShrExpr_create_def
      AShrExpr_create_def EqExpr_create_def NeExpr_create_def UltExpr_create_def UleExpr_create_def
      SltExpr_create_def SleExpr_create_def UgtExpr_create_def UgeExpr_create_def SgtExpr_create_def
      SgeExpr_create_def bcreate_R_def bcreate_def CE_binary_def bvOp_def isDivKind_def isZero_def split: if_splits)

lemma rebuild_const:
  assumes "withKids e kids = Some n" "\<forall>k \<in> set kids. isConstantExpr k" "getKind e \<noteq> KRead" "getKind e \<noteq> KNotOptimized"
    and "sem \<sigma> n = Some v" "wf_expr n"
  shows "\<exists>c. rebuild co e kids = Some (ConstantExpr c)"
proof (cases "(e, kids)" rule: withKids.cases)
  case (9 k _ _ l r)
  with assms(2) obtain a b where "l = ConstantExpr a" "r = ConstantExpr b" by (auto elim!: isConstantExprE)
  with 9 assms(1,5,6) BinaryExpr_create_const [of k a b v] show ?thesis by (auto simp: rebuild_def)
qed (use assms in \<open>auto elim!: isConstantExprE simp: rebuild_def
    SelectExpr_create_def ConcatExpr_create.simps ExtractExpr_create.simps ZExtExpr_create_def SExtExpr_create_def
    NotExpr_create_def Let_def if_distrib [where f = ConstantExpr, symmetric]\<close>)

definition good :: "bool \<Rightarrow> Assignment \<Rightarrow> expr \<Rightarrow> bool" where
  "good co a e \<longleftrightarrow> wf_expr e \<and> plain e \<and> sem (assignmentEnv co a) e \<noteq> None"

abbreviation RA :: "bool \<Rightarrow> Assignment \<Rightarrow> expr \<Rightarrow> expr \<Rightarrow> bool" where
  "RA co a \<equiv> refinesOn (\<lambda>\<sigma>. wf_env co \<sigma> \<and> agrees co a \<sigma>)"

definition tableC :: "bool \<Rightarrow> Assignment \<Rightarrow> visited \<Rightarrow> bool" where
  "tableC co a s \<longleftrightarrow> tableOK (RA co a) s \<and> (\<forall>(k, r) \<in> set s. good co a k \<longrightarrow> isConstantExpr r)"

definition constFn :: "bool \<Rightarrow> Assignment \<Rightarrow> nat \<Rightarrow> visitFn \<Rightarrow> bool" where
  "constFn co a N vf \<longleftrightarrow>
     soundFn (RA co a) vf \<and>
     (\<forall>s e. tableC co a s \<longrightarrow> good co a e \<longrightarrow> size e < N \<longrightarrow>
        (\<exists>c s'. vf s e = Ok (ConstantExpr c, s') \<and> tableC co a s'))"

lemma tableC_Nil [simp]: "tableC co a []"
  by (simp add: tableC_def)

lemma constFnD:
  assumes "constFn co a N vf" "tableC co a s" "good co a e" "size e < N"
  shows "\<exists>c s'. vf s e = Ok (ConstantExpr c, s') \<and> tableC co a s' \<and> RA co a e (ConstantExpr c)"
proof -
  obtain c s' where c: "vf s e = Ok (ConstantExpr c, s')" "tableC co a s'"
    using assms unfolding constFn_def by blast
  have "soundFn (RA co a) vf" "tableOK (RA co a) s" using assms(1,2) by (auto simp: constFn_def tableC_def)
  from soundFnD [OF this(1) c(1) this(2)] c show ?thesis by blast
qed

lemma RA_value:
  assumes "RA co a e (ConstantExpr c)" "wf_expr e" "sem (assignmentEnv co a) e = Some v"
  shows "apValue c = v \<and> bitWidth c = getWidth e"
  using refinesOnD(2) [OF assms(1,2)] refinesOnD(3) [OF assms(1,2) _ assms(3)] by simp

lemma good_kids: "good co a e \<Longrightarrow> k \<in> set (getKids e) \<Longrightarrow> good co a k"
  by (cases e) (auto simp: good_def Option.bind_eq_Some_conv case_prod_beta)

lemma evalRead_const:
  assumes "constFn co a N vf"
  shows "\<lbrakk>\<forall>(ui, uv) \<in> set us. wf_expr ui \<and> wf_expr uv \<and> plain ui \<and> plain uv \<and> size ui < N \<and> size uv < N;
    semRead (assignmentEnv co a) A us i = Some v; tableC co a s\<rbrakk> \<Longrightarrow>
    \<exists>c s'. evalRead co (evaluateByte co a) vf s A us i = Ok (ConstantExpr c, s') \<and> tableC co a s'"
proof (induction us arbitrary: s)
  case Nil
  then show ?case by (auto simp: evaluateByte_def initialValue_def assignmentEnv_def split: option.splits if_splits)
next
  case (Cons u us)
  obtain ui uv where u: "u = (ui, uv)" by (cases u)
  from Cons.prems(2) obtain k where k: "sem (assignmentEnv co a) ui = Some k"
    by (auto simp: u Option.bind_eq_Some_conv)
  then have "good co a ui" using Cons.prems(1) by (simp add: u good_def)
  then obtain c s1 where c: "vf s ui = Ok (ConstantExpr c, s1)" "tableC co a s1" "RA co a ui (ConstantExpr c)"
    using constFnD [OF assms Cons.prems(3), of ui] Cons.prems(1) by (auto simp: u)
  have ck: "apValue c = k" using RA_value [OF c(3) _ k] Cons.prems(1) by (simp add: u)
  show ?case
  proof (cases "k = i")
    case True
    then have "good co a uv" using Cons.prems(1,2) k by (auto simp: u good_def)
    then show ?thesis
      using constFnD [OF assms c(2), of uv] Cons.prems(1) c ck True by (auto simp: u)
  next
    case False
    with Cons.IH [of s1] Cons.prems k c ck show ?thesis by (simp add: u)
  qed
qed

lemma visitKids_const:
  assumes "constFn co a N vf"
  shows "\<lbrakk>\<forall>k \<in> set ks. good co a k \<and> size k < N; tableC co a s\<rbrakk> \<Longrightarrow>
    \<exists>ks' s'. visitKids vf s ks = Ok (ks', s') \<and> tableC co a s' \<and> (\<forall>k \<in> set ks'. isConstantExpr k) \<and>
      list_all2 (RA co a) ks ks'"
proof (induction ks arbitrary: s)
  case (Cons k ks)
  then obtain c s1 where c: "vf s k = Ok (ConstantExpr c, s1)" "tableC co a s1" "RA co a k (ConstantExpr c)"
    using constFnD [OF assms, of s k] by auto
  with Cons.IH [of s1] Cons.prems show ?case by auto
qed simp

lemma rebuild_const_kids:
  assumes "good co a e" "list_all2 (RA co a) (getKids e) ks" "\<forall>k \<in> set ks. isConstantExpr k"
    and "\<not> isConstantExpr e" "getKind e \<noteq> KRead" "getKind e \<noteq> KNotOptimized"
  shows "\<exists>c. rebuild co e ks = Some (ConstantExpr c)"
proof -
  obtain n where n: "withKids e ks = Some n"
    using withKids_exists assms(2,4) by (metis list_all2_lengthD)
  have "sem (assignmentEnv co a) n \<noteq> None" "wf_expr n"
    using withKids_refinesOn [OF n assms(2)] assms(1) by (auto simp: refinesOn_def good_def)
  then show ?thesis using rebuild_const [OF n assms(3,5,6)] by auto
qed

lemma evalVisitExpr_cases:
  assumes "good co a e" "\<not> isConstantExpr e"
  shows "(\<exists>c. evalVisitExpr co e = Ok (ChangeTo (ConstantExpr c))) \<or>
    evalVisitExpr co e = Ok DoChildren \<and> (getKind e = KRead \<or> (\<exists>k \<in> set (getKids e). \<not> isConstantExpr k))"
proof (cases "getKind e = KRead \<or> (\<exists>k \<in> set (getKids e). \<not> isConstantExpr k)")
  case False
  then have "getKind e \<noteq> KNotOptimized" using assms(1) by (cases e) (auto simp: good_def)
  then obtain c where "rebuild co e (getKids e) = Some (ConstantExpr c)"
    using rebuild_const_kids [OF assms(1), of "getKids e"] False assms(2) by (auto simp: list_all2_refl)
  moreover have "getKids e \<noteq> []" using assms(2) by (cases e) auto
  ultimately show ?thesis using False by (simp add: evalVisitExpr_def)
qed (auto simp: evalVisitExpr_def)

lemma visitRead_const:
  assumes "constFn co a N vf" "good co a (ReadExpr A us i)" "tableC co a s"
    and "size (ReadExpr A us i) \<le> N"
  shows "\<exists>c s'. visitRead co (evaluateByte co a) vf s A us i = Ok (ChangeTo (ConstantExpr c), s') \<and> tableC co a s'"
proof -
  from assms(2) obtain n v where n: "sem (assignmentEnv co a) i = Some n" "semRead (assignmentEnv co a) A us n = Some v"
    by (auto simp: good_def Option.bind_eq_Some_conv)
  have wf: "wf_expr i" "getWidth i = adomain A" "adomain A \<le> 32"
    using assms(2) by (auto simp: good_def wf_array_def)
  have "good co a i" using good_kids [OF assms(2)] by simp
  then obtain c s1 where c: "vf s i = Ok (ConstantExpr c, s1)" "tableC co a s1" "RA co a i (ConstantExpr c)"
    using constFnD [OF assms(1,3), of i] assms(4) by auto
  have "apValue c = n" using RA_value [OF c(3) wf(1) n(1)] by simp
  moreover have "fits 32 n" using sem_fits(1) [OF n(1) wf_assignmentEnv wf(1)] wf by (auto intro: fits_mono)
  ultimately have idx: "apValue c mod 2 ^ 32 = n" by (simp add: fits_def)
  have "\<forall>(ui, uv) \<in> set us. wf_expr ui \<and> wf_expr uv \<and> plain ui \<and> plain uv \<and> size ui < N \<and> size uv < N"
    using assms(2,4) size_list_estimation' [of _ us _ "size_prod size size"] 
    by (fastforce simp: good_def)
  from evalRead_const [OF assms(1) this n(2) c(2)] c(1) idx show ?thesis
    by (auto simp: visitRead_def)
qed

lemma protectedDivOperation_const:
  assumes "constFn co a N vf" "good co a (BinaryExpr k l r)" "tableC co a s" "isDivKind k"
    and "size (BinaryExpr k l r) \<le> N" "\<not> (isConstantExpr l \<and> isConstantExpr r)"
  shows "\<exists>c s'. protectedDivOperation co vf s k l r = Ok (ChangeTo (ConstantExpr c), s') \<and> tableC co a s'"
proof -
  have g: "good co a l" "good co a r" using good_kids [OF assms(2)] by simp_all
  from assms(2) obtain x where r: "sem (assignmentEnv co a) r = Some x" "x \<noteq> 0" "wf_expr r"
    using assms(4) by (auto simp: good_def Option.bind_eq_Some_conv bvOp_def split: if_splits)
  obtain cl s1 where cl: "vf s l = Ok (ConstantExpr cl, s1)" "tableC co a s1" "RA co a l (ConstantExpr cl)"
    using constFnD [OF assms(1,3) g(1)] assms(5) by auto
  obtain cr s2 where cr: "vf s1 r = Ok (ConstantExpr cr, s2)" "tableC co a s2" "RA co a r (ConstantExpr cr)"
    using constFnD [OF assms(1) cl(2) g(2)] assms(5) by auto
  have "\<not> isZero cr" using RA_value [OF cr(3) r(3,1)] r(2) by (simp add: isZero_def)
  moreover obtain c where "rebuild co (BinaryExpr k l r) [ConstantExpr cl, ConstantExpr cr] = Some (ConstantExpr c)"
    using rebuild_const_kids [OF assms(2), of "[ConstantExpr cl, ConstantExpr cr]"] cl(3) cr(3) by auto
  moreover have "ConstantExpr cl \<noteq> l \<or> ConstantExpr cr \<noteq> r" using assms(6) by auto
  ultimately show ?thesis using cl cr by (auto simp: protectedDivOperation_def)
qed

lemma visitRebuild_const:
  assumes "good co a e" "list_all2 (RA co a) (getKids e) ks" "\<forall>k \<in> set ks. isConstantExpr k"
    and "\<exists>k \<in> set (getKids e). \<not> isConstantExpr k" "\<not> isConstantExpr e" "getKind e \<noteq> KRead"
  shows "\<exists>e' c. visitRebuild co (AssignmentEvaluator co a) vf s e ks = Ok (e', s) \<and>
    visitPost (AssignmentEvaluator co a) e' = ConstantExpr c"
proof -
  have ks: "ks \<noteq> getKids e" using assms(3,4) by blast
  show ?thesis
  proof (cases "getKind e = KNotOptimized")
    case True
    then obtain x c where "e = NotOptimizedExpr x" "ks = [ConstantExpr c]"
      using assms(2,3) by (cases e) (auto simp: list_all2_Cons1 elim!: isConstantExprE)
    with ks show ?thesis
      by (auto simp: visitRebuild_def rebuild_def visitPost_def AssignmentEvaluator_def ExprEvaluator_def evalVisitExprPost_def)
  next
    case False
    with rebuild_const_kids [OF assms(1-3,5,6)] ks show ?thesis
      by (auto simp: visitRebuild_def visitPost_def AssignmentEvaluator_def ExprEvaluator_def)
  qed
qed

lemma visitActual_const:
  assumes "constFn co a (size e) vf" "good co a e" "tableC co a s"
  shows "\<exists>c s'. visitActual co (AssignmentEvaluator co a) vf s e = Ok (ConstantExpr c, s') \<and> tableC co a s'"
proof (cases "isConstantExpr e")
  case False
  let ?V = "AssignmentEvaluator co a"
  have V [simp]: "visitExpr ?V = evalVisitExpr co" "visitNode ?V = evalVisitNode co (evaluateByte co a)"
    by (simp_all add: AssignmentEvaluator_def ExprEvaluator_def)
  from evalVisitExpr_cases [OF assms(2) False] show ?thesis
  proof (elim disjE exE conjE)
    fix c assume "evalVisitExpr co e = Ok (ChangeTo (ConstantExpr c))"
    with False assms(3) show ?thesis by (simp add: visitActual_def)
  next
    assume do: "evalVisitExpr co e = Ok DoChildren" and "getKind e = KRead"
    then obtain A us i where e: "e = ReadExpr A us i" by (cases e) auto
    from visitRead_const [OF assms(1) assms(2,3) [unfolded e]] do show ?thesis
      by (auto simp: visitActual_def e evalVisitNode_def)
  next
    assume do: "evalVisitExpr co e = Ok DoChildren" and nonconst: "\<exists>k \<in> set (getKids e). \<not> isConstantExpr k"
    show ?thesis
    proof (cases "getKind e = KRead \<or> (\<exists>k. getKind e = KBinary k \<and> isDivKind k)")
      case True
      then show ?thesis
      proof
        assume "getKind e = KRead"
        then obtain A us i where e: "e = ReadExpr A us i" by (cases e) auto
        from visitRead_const [OF assms(1) assms(2,3) [unfolded e]] do show ?thesis
          by (auto simp: visitActual_def e evalVisitNode_def)
      next
        assume "\<exists>k. getKind e = KBinary k \<and> isDivKind k"
        then obtain k l r where e: "e = BinaryExpr k l r" "isDivKind k" by (cases e) auto
        from protectedDivOperation_const [OF assms(1) assms(2,3) [unfolded e(1)] e(2)] do nonconst e show ?thesis
          by (auto simp: visitActual_def evalVisitNode_def)
      qed
    next
      case nd: False
      then have node: "evalVisitNode co (evaluateByte co a) vf s e = Ok (DoChildren, s)"
        by (cases e) (auto simp: evalVisitNode_def)
      from visitKids_const [OF assms(1) _ assms(3), of "getKids e"] good_kids [OF assms(2)] size_getKids
      obtain ks s' where ks: "visitKids vf s (getKids e) = Ok (ks, s')" "tableC co a s'"
          "\<forall>k \<in> set ks. isConstantExpr k" "list_all2 (RA co a) (getKids e) ks" by blast
      from visitRebuild_const [OF assms(2) ks(4,3) nonconst False] nd obtain e' c where
        "visitRebuild co ?V vf s' e ks = Ok (e', s')" "visitPost ?V e' = ConstantExpr c" by blast
      with do node ks(1,2) False show ?thesis by (simp add: visitActual_def)
    qed
  qed
qed (use assms(3) in \<open>auto simp: visitActual_def elim!: isConstantExprE\<close>)

lemma tableC_insert:
  assumes "tableC co a s" "RA co a e (ConstantExpr c)"
  shows "tableC co a (insertVisited s e (ConstantExpr c))"
  using assms tableOK_insert [of "RA co a" s e "ConstantExpr c"] by (auto simp: tableC_def insertVisited_def)

lemma tableC_lookup:
  assumes "tableC co a s" "map_of s e = Some r" "good co a e"
  shows "isConstantExpr r"
  using assms by (auto simp: tableC_def dest!: map_of_SomeD)

lemma visit_const:
  "constFn co a n (visit co h (AssignmentEvaluator co a) n)"
proof (induction n)
  case 0
  then show ?case by (simp add: constFn_def soundFn_def)
next
  case (Suc n)
  let ?V = "AssignmentEvaluator co a"
  have sound: "soundFn (RA co a) (visit co h ?V m)" for m
    unfolding AssignmentEvaluator_def by (rule assignment_values.evaluator.visit_soundFn)
  have "\<exists>c s'. visit co h ?V (Suc n) s e = Ok (ConstantExpr c, s') \<and> tableC co a s'"
    if "tableC co a s" "good co a e" "size e < Suc n" for s e
  proof -
    have "constFn co a (size e) (visit co h ?V n)" using Suc that(3) by (auto simp: constFn_def)
    from visitActual_const [OF this that(2,1)] obtain c s' where
      c: "visitActual co ?V (visit co h ?V n) s e = Ok (ConstantExpr c, s')" "tableC co a s'" by blast
    have "RA co a e (ConstantExpr c)"
      using assignment_values.evaluator.visitActual_sound [OF sound [unfolded AssignmentEvaluator_def]] c(1) that(1)
      by (auto simp: AssignmentEvaluator_def tableC_def)
    with c tableC_lookup [OF that(1) _ that(2)] that(1) tableC_insert [OF c(2)] show ?thesis
      by (auto split: option.splits elim!: isConstantExprE)
  qed
  with sound [of "Suc n"] show ?case by (simp add: constFn_def del: visit.simps)
qed

lemma evalVisit_const:
  assumes "good co a e" "tableC co a s"
  shows "\<exists>c s'. evalVisit co h a s e = Ok (ConstantExpr c, s') \<and> tableC co a s' \<and> RA co a e (ConstantExpr c)"
  unfolding evalVisit_def by (rule constFnD [OF visit_const assms(2,1)]) simp

lemma evaluate_value:
  assumes "wf_expr e" "plain e" "sem (assignmentEnv co a) e = Some v"
  shows "evaluate co h a e = Ok (ConstantExpr (APInt (getWidth e) v))"
proof -
  have "good co a e" using assms by (simp add: good_def)
  from evalVisit_const [OF this tableC_Nil] obtain c s' where
    c: "evalVisit co h a [] e = Ok (ConstantExpr c, s')" "RA co a e (ConstantExpr c)" by blast
  from RA_value [OF c(2) assms(1,3)] have "c = APInt (getWidth e) v" by (metis apint.exhaust_sel)
  with c(1) show ?thesis by (simp add: evaluate_def)
qed

lemma satisfiesFrom_decides:
  "\<lbrakk>\<forall>e \<in> set es. good co a e \<and> getWidth e = 1; tableC co a s\<rbrakk> \<Longrightarrow>
    satisfiesFrom co h a s es = Ok (\<forall>e \<in> set es. sem (assignmentEnv co a) e = Some 1)"
proof (induction es arbitrary: s)
  case (Cons e es)
  then have e: "good co a e" "getWidth e = 1" by simp_all
  from evalVisit_const [OF e(1) Cons.prems(2)] obtain c s1 where
    c: "evalVisit co h a s e = Ok (ConstantExpr c, s1)" "tableC co a s1" "RA co a e (ConstantExpr c)" by blast
  from e(1) obtain v where v: "sem (assignmentEnv co a) e = Some v" "wf_expr e" by (auto simp: good_def)
  have "fits 1 v" using sem_fits(1) [OF v(1) wf_assignmentEnv v(2)] e(2) by simp
  then have "v = 0 \<or> v = 1" by (auto simp: fits_def)
  moreover have "apValue c = v" "bitWidth c = 1" using RA_value [OF c(3) v(2,1)] e(2) by simp_all
  ultimately show ?case using c Cons v(1) by (auto simp: isTrue_def)
qed simp

lemma createConstraints_value:
  assumes "wf_array A" "isSymbolicArray A" "i < asize A" "wf_env co \<sigma>" "\<sigma> A (int i) = Some v"
  shows "sem \<sigma> (EqExpr_create co (ReadExpr_create co (A, []) (ConstantExpr (alloc (int i) (adomain A))))
      (ConstantExpr (alloc b (arange A)))) = Some (of_bool (v = b mod 2 ^ arange A))"
proof -
  have "int i < int (2 ^ adomain A)"
    using assms(1,3) by (simp only: of_nat_less_iff) (simp add: wf_array_def)
  then have fit: "fits (adomain A) (int i)" by (simp add: fits_def)
  have "initialValue \<sigma> A (int i) = Some v"
    using assms(2,5) by (simp add: initialValue_def isConstantArray_def)
  note rd = read_initial_sem(1,2) [OF assms(1) fit, of co] read_initial_sem(3) [OF assms(1) fit assms(4) this]
  show ?thesis
    using refinesD(3) [OF EqExpr_create_sound [of co "ReadExpr_create co (A, []) (ConstantExpr (alloc (int i) (adomain A)))"
        "ConstantExpr (alloc b (arange A))"] _ assms(4)] rd assms(1)
    by (simp add: wf_array_def kind_simps)
qed

section \<open>Properties\<close>

text \<open>
  C14: \<open>Assignment::evaluate\<close> computes: a well-formed expression with a value under the assignment,
  in which a byte that is not bound is 0 or, when free values are allowed, has no value, evaluates to the constant of its width with that value, memoised or not. The
  expression must not contain a \<open>NotOptimizedExpr\<close> directly over a constant.
\<close>

theorem evaluate_computes_value:
  assumes "wf_expr e" "plain e" "sem (assignmentEnv co a) e = Some v"
  shows "evaluate co h a e = Ok (ConstantExpr (APInt (getWidth e) v))"
  by (rule evaluate_value [OF assms])

definition exampleAssignment :: Assignment where
  "exampleAssignment = \<lparr>allowFreeValues = False, bindings = [(buf, [10, 20, 30, 40])]\<rparr>"

lemma exampleAssignment_env:
  "assignmentEnv co exampleAssignment buf i =
     Some (if i < 4 then [10, 20, 30, 40] ! nat i mod 256 else 0)"
  by (simp add: assignmentEnv_def exampleAssignment_def bindingOf_def)

theorem evaluate_computes_value_witness:
  "evaluate False True exampleAssignment (BinaryExpr UDiv (bufAt 3) (AddExpr (c8 1) (bufAt 0))) =
     Ok (ConstantExpr (APInt 8 3))"
  using evaluate_computes_value [of
      "BinaryExpr UDiv (bufAt 3) (AddExpr (c8 1) (bufAt 0))" False exampleAssignment 3 True]
  by (simp add: example_simps exampleAssignment_env bvOp_def isDivKind_def)



text \<open>
  C16: \<open>Assignment::satisfies\<close> decides a list of boolean constraints that have a value under the
  assignment: it returns true exactly when each has the value 1. No constraint may contain a
  \<open>NotOptimizedExpr\<close> directly over a constant, which evaluation does not fold.
\<close>

theorem satisfies_decides:
  assumes "\<forall>e \<in> set es. wf_expr e \<and> plain e \<and> getWidth e = 1 \<and> sem (assignmentEnv co a) e \<noteq> None"
  shows "satisfies co h a es = Ok (\<forall>e \<in> set es. sem (assignmentEnv co a) e = Some 1)"
  unfolding satisfies_def using satisfiesFrom_decides [OF _ tableC_Nil] assms by (simp add: good_def)

theorem satisfies_decides_witness:
  "satisfies False True exampleAssignment [EqExpr (c8 10) (bufAt 0), EqExpr (c8 20) (bufAt 2)] = Ok False"
  using satisfies_decides [of "[EqExpr (c8 10) (bufAt 0), EqExpr (c8 20) (bufAt 2)]" False exampleAssignment True]
  by (simp add: example_simps exampleAssignment_env)

text \<open>
  C17: the constraints \<open>createConstraintsFromAssignment\<close> builds pin the assignment down: an
  environment satisfies all of them exactly when it gives every bound byte its value.
\<close>

theorem createConstraints_pin:
  assumes "\<forall>(A, values) \<in> set (bindings a). wf_array A \<and> isSymbolicArray A \<and> length values = asize A \<and>
      (\<forall>i < asize A. \<sigma> A (int i) \<noteq> None)"
    and "wf_env co \<sigma>"
  shows "(\<forall>e \<in> set (createConstraintsFromAssignment co a). sem \<sigma> e = Some 1) \<longleftrightarrow>
    (\<forall>(A, values) \<in> set (bindings a). \<forall>i < asize A. \<sigma> A (int i) = Some (values ! i mod 2 ^ arange A))"
  using assms(1) createConstraints_value [OF _ _ _ assms(2)]
  by (fastforce simp: createConstraintsFromAssignment_def)

theorem createConstraints_pin_witness:
  "\<not> (\<forall>e \<in> set (createConstraintsFromAssignment False exampleAssignment). sem (env8 10) e = Some 1)"
proof -
  have "\<not> (\<forall>i<4. [10, 20, 30, 40] ! i mod 256 = (10::int))" by (auto intro!: exI [of _ 1])
  then show ?thesis
    using createConstraints_pin [of exampleAssignment "env8 10" False]
    by (simp add: exampleAssignment_def isSymbolicArray_def env8_apply)
qed

text \<open>
  A \<open>NotOptimizedExpr\<close> directly over a constant is not folded by evaluation, although the
  evaluator's \<open>visitExprPost\<close> is meant to fold these nodes: the hook \<open>visitExpr\<close> rebuilds the
  node first and ends the visit.
\<close>

lemma evaluate_keeps_opaque_constant:
  "evaluate co h a (NotOptimizedExpr (ConstantExpr c)) = Ok (NotOptimizedExpr (ConstantExpr c))"
  by (simp add: evaluate_def evalVisit_def visitActual_def AssignmentEvaluator_def ExprEvaluator_def
      evalVisitExpr_def rebuild_def)

end
