(* ===== verification/Independence.thy ===== *)
theory Independence
  imports ExprUtil AssignmentSound SolverChain "HOL-Library.AList"
begin

text \<open>
  The independent solver of \<open>lib/Solver/IndependentSolver.cpp\<close>: the elements of the arrays a
  constraint refers to, the constraints a query depends on, the factors of a query, and the solver
  that asks the solver below about them only.
\<close>

section \<open>Definitions\<close>

subsection \<open>Sets of elements\<close>

text \<open>
  A \<open>DenseSet\<close> is a \<open>std::set\<close> of indices and \<open>elements\<close> a \<open>std::map\<close> from arrays; both are lists here,
  and no operation depends on their order. \<open>DenseSet::add\<close> tells whether the set changed.
\<close>

type_synonym DenseSet = "nat list"

definition DenseSet_add :: "DenseSet \<Rightarrow> DenseSet \<Rightarrow> DenseSet \<times> bool" where
  "DenseSet_add s b = fold (\<lambda>x (s, modified). if modified \<or> x \<notin> set s then (List.insert x s, True) else (s, modified)) b (s, False)"

definition DenseSet_intersects :: "DenseSet \<Rightarrow> DenseSet \<Rightarrow> bool" where
  "DenseSet_intersects s b \<longleftrightarrow> (\<exists>x \<in> set s. x \<in> set b)"

record IndependentElementSet =
  elements :: "(Array \<times> DenseSet) list"
  wholeObjects :: "Array list"
  exprs :: "expr list"

definition addRead :: "expr \<Rightarrow> IndependentElementSet \<Rightarrow> IndependentElementSet result" where
  "addRead re s =
     (case asRead re of
        Some (A, us, index) \<Rightarrow>
          if isConstantArray A \<and> us = [] then Ok s
          else if A \<in> set (wholeObjects s) then Ok s
          else
            (case index of
               ConstantExpr CE \<Rightarrow>
                 if 32 < bitWidth CE then Abort
                 else
                   (let dis = (case map_of (elements s) A of Some ds \<Rightarrow> ds | None \<Rightarrow> [])
                    in Ok (s\<lparr>elements := AList.update A (List.insert (nat (apValue CE)) dis) (elements s)\<rparr>))
             | _ \<Rightarrow> Ok (s\<lparr>elements := AList.delete A (elements s), wholeObjects := A # wholeObjects s\<rparr>))
      | None \<Rightarrow> Ok s)"

fun addReads :: "expr list \<Rightarrow> IndependentElementSet \<Rightarrow> IndependentElementSet result" where
  "addReads [] s = Ok s"
| "addReads (re # reads) s = rbind (addRead re s) (addReads reads)"

definition IndependentElementSet_new :: "expr \<Rightarrow> IndependentElementSet result" where
  "IndependentElementSet_new e = addReads (findReads e True) \<lparr>elements = [], wholeObjects = [], exprs = [e]\<rparr>"

definition intersects :: "IndependentElementSet \<Rightarrow> IndependentElementSet \<Rightarrow> bool" where
  "intersects a b \<longleftrightarrow>
     (\<exists>A \<in> set (wholeObjects a). A \<in> set (wholeObjects b) \<or> map_of (elements b) A \<noteq> None) \<or>
     (\<exists>(A, ds) \<in> set (elements a). A \<in> set (wholeObjects b) \<or>
        (case map_of (elements b) A of Some ds' \<Rightarrow> DenseSet_intersects ds ds' | None \<Rightarrow> False))"

definition addWhole :: "Array \<Rightarrow> IndependentElementSet \<times> bool \<Rightarrow> IndependentElementSet \<times> bool" where
  "addWhole A sm =
     (case sm of (s, modified) \<Rightarrow>
        if map_of (elements s) A \<noteq> None
        then (s\<lparr>elements := AList.delete A (elements s), wholeObjects := List.insert A (wholeObjects s)\<rparr>, True)
        else if A \<notin> set (wholeObjects s) then (s\<lparr>wholeObjects := A # wholeObjects s\<rparr>, True)
        else (s, modified))"

definition addElements :: "Array \<times> DenseSet \<Rightarrow> IndependentElementSet \<times> bool \<Rightarrow> IndependentElementSet \<times> bool" where
  "addElements p sm =
     (case (p, sm) of ((A, ds), (s, modified)) \<Rightarrow>
        if A \<notin> set (wholeObjects s) then
          (case map_of (elements s) A of
             None \<Rightarrow> (s\<lparr>elements := AList.update A ds (elements s)\<rparr>, True)
           | Some ds' \<Rightarrow>
               (let (ds'', m) = DenseSet_add ds' ds
                in (s\<lparr>elements := AList.update A ds'' (elements s)\<rparr>, modified \<or> m)))
        else (s, modified))"

definition addSet :: "IndependentElementSet \<Rightarrow> IndependentElementSet \<Rightarrow> IndependentElementSet \<times> bool" where
  "addSet a b = fold addElements (elements b) (fold addWhole (wholeObjects b) (a\<lparr>exprs := exprs a @ exprs b\<rparr>, False))"

subsection \<open>The constraints a query depends on\<close>

type_synonym worklist = "(expr \<times> IndependentElementSet) list"

fun closurePass :: "worklist \<Rightarrow> IndependentElementSet \<Rightarrow> bool \<Rightarrow> expr list \<Rightarrow> worklist \<Rightarrow>
    worklist \<times> IndependentElementSet \<times> bool \<times> expr list" where
  "closurePass [] eltsClosure fin result newWorklist = (newWorklist, eltsClosure, fin, result)"
| "closurePass ((c, s) # worklist) eltsClosure fin result newWorklist =
     (if intersects s eltsClosure then
        (let (eltsClosure', modified) = addSet eltsClosure s
         in closurePass worklist eltsClosure' (fin \<and> \<not> modified) (result @ [c]) newWorklist)
      else closurePass worklist eltsClosure fin result (newWorklist @ [(c, s)]))"

lemma closurePass_length:
  "closurePass worklist s fin result new = (new', s', fin', result') \<Longrightarrow>
     length new' \<le> length worklist + length new \<and> (fin \<and> \<not> fin' \<longrightarrow> length new' < length worklist + length new)"
proof (induction worklist arbitrary: s fin result new)
  case (Cons p worklist)
  obtain c t where p: "p = (c, t)" by (cases p)
  obtain s1 m where s1: "addSet s t = (s1, m)" by (cases "addSet s t")
  show ?case
  proof (cases "intersects t s")
    case True
    with Cons(2) p s1 have "closurePass worklist s1 (fin \<and> \<not> m) (result @ [c]) new = (new', s', fin', result')" by simp
    from Cons(1) [OF this] show ?thesis by auto
  next
    case False
    with Cons(2) p have "closurePass worklist s fin result (new @ [(c, t)]) = (new', s', fin', result')" by simp
    from Cons(1) [OF this] show ?thesis by auto
  qed
qed simp

function closureLoop :: "worklist \<Rightarrow> IndependentElementSet \<Rightarrow> expr list \<Rightarrow> worklist \<times> IndependentElementSet \<times> expr list" where
  "closureLoop worklist eltsClosure result =
     (case closurePass worklist eltsClosure True result [] of
        (newWorklist, eltsClosure', finished, result') \<Rightarrow>
          if finished then (newWorklist, eltsClosure', result') else closureLoop newWorklist eltsClosure' result')"
  by pat_completeness auto
termination
  by (relation "measure (\<lambda>(w, s, r). length w)") (auto dest!: closurePass_length [OF sym])

fun newSets :: "expr list \<Rightarrow> worklist result" where
  "newSets [] = Ok []"
| "newSets (c # cs) = rbind (IndependentElementSet_new c) (\<lambda>s. rbind (newSets cs) (\<lambda>w. Ok ((c, s) # w)))"

definition getIndependentConstraints :: "Query \<Rightarrow> (IndependentElementSet \<times> expr list) result" where
  "getIndependentConstraints Q =
     rbind (IndependentElementSet_new (qexpr Q)) (\<lambda>s.
       rbind (newSets (constraints Q)) (\<lambda>worklist.
         case closureLoop worklist s [] of (rest, eltsClosure, result) \<Rightarrow> Ok (eltsClosure, result)))"

subsection \<open>The factors of a query\<close>

fun absorb :: "IndependentElementSet \<Rightarrow> IndependentElementSet list \<Rightarrow> bool \<Rightarrow> IndependentElementSet list \<Rightarrow>
    IndependentElementSet \<times> IndependentElementSet list \<times> bool" where
  "absorb current [] doneLoop keep = (current, keep, doneLoop)"
| "absorb current (other # factors) doneLoop keep =
     (if intersects current other then
        (let (current', modified) = addSet current other
         in absorb current' factors (doneLoop \<and> \<not> modified) keep)
      else absorb current factors doneLoop (keep @ [other]))"

lemma absorb_length:
  "absorb current factors d keep = (current', keep', d') \<Longrightarrow>
     length keep' \<le> length factors + length keep \<and> (d \<and> \<not> d' \<longrightarrow> length keep' < length factors + length keep)"
proof (induction factors arbitrary: current d keep)
  case (Cons other factors)
  obtain s m where s: "addSet current other = (s, m)" by (cases "addSet current other")
  show ?case
  proof (cases "intersects current other")
    case True
    with Cons(2) s have "absorb s factors (d \<and> \<not> m) keep = (current', keep', d')" by simp
    from Cons(1) [OF this] show ?thesis by auto
  next
    case False
    with Cons(2) have "absorb current factors d (keep @ [other]) = (current', keep', d')" by simp
    from Cons(1) [OF this] show ?thesis by auto
  qed
qed simp

function factorPass :: "IndependentElementSet list \<Rightarrow> bool \<Rightarrow> IndependentElementSet list \<Rightarrow> IndependentElementSet list \<times> bool" where
  "factorPass [] doneLoop finished = (finished, doneLoop)"
| "factorPass (current # factors) doneLoop finished =
     (case absorb current factors doneLoop [] of
        (current', keep, doneLoop') \<Rightarrow> factorPass keep doneLoop' (finished @ [current']))"
  by pat_completeness auto
termination
  by (relation "measure (\<lambda>(fs, d, fin). length fs)") (auto dest!: absorb_length [OF sym])

lemma factorPass_length:
  "factorPass factors d fin = (fin', d') \<Longrightarrow>
     length fin' \<le> length factors + length fin \<and> (d \<and> \<not> d' \<longrightarrow> length fin' < length factors + length fin)"
proof (induction factors d fin rule: factorPass.induct)
  case (2 current factors d fin)
  obtain c k d1 where a: "absorb current factors d [] = (c, k, d1)" by (cases "absorb current factors d []") auto
  from 2(1) [OF a [symmetric] refl] 2(2) absorb_length [OF a] a show ?case by auto
qed simp

function factorLoop :: "IndependentElementSet list \<Rightarrow> IndependentElementSet list" where
  "factorLoop factors =
     (case factorPass factors True [] of
        (finished, doneLoop) \<Rightarrow> if doneLoop then finished else factorLoop finished)"
  by pat_completeness auto
termination
  by (relation "measure length") (auto dest!: factorPass_length [OF sym])

definition getAllIndependentConstraintsSets :: "bool \<Rightarrow> Query \<Rightarrow> IndependentElementSet list result" where
  "getAllIndependentConstraintsSets co Q =
     rbind (case qexpr Q of
              ConstantExpr CE \<Rightarrow> if isFalse CE then Ok [] else Abort
            | _ \<Rightarrow> rbind (IndependentElementSet_new (createIsZero co (qexpr Q))) (\<lambda>s. Ok [s])) (\<lambda>first.
       rbind (newSets (constraints Q)) (\<lambda>worklist. Ok (factorLoop (first @ map snd worklist))))"

text \<open>The arrays of a factor, in the order of their addresses.\<close>

definition calculateArrayReferences :: "IndependentElementSet \<Rightarrow> Array list" where
  "calculateArrayReferences ie = sort_key address (remdups (map fst (elements ie) @ wholeObjects ie))"

subsection \<open>The solver\<close>

definition onRequired :: "Query \<Rightarrow> (Query \<Rightarrow> ('q, 'a) query) \<Rightarrow> ('q, 'a) query" where
  "onRequired Q f q =
     rbind (getIndependentConstraints Q) (\<lambda>(eltsClosure, required). f (Q\<lparr>constraints := required\<rparr>) q)"

text \<open>
  The values of one factor are stored: the first values of an array are taken as they are, later
  ones at the elements of the factor. An index beyond the end of the vectors is undefined
  behaviour.
\<close>

type_synonym retMap = "(Array \<times> int list) list"

fun storeElements :: "nat list \<Rightarrow> int list \<Rightarrow> int list \<Rightarrow> int list result" where
  "storeElements [] new old = Ok old"
| "storeElements (index # ds) new old =
     (if index < length old \<and> index < length new then storeElements ds new (old[index := new ! index]) else Abort)"

fun storeValues :: "IndependentElementSet \<Rightarrow> Array list \<Rightarrow> int list list \<Rightarrow> retMap \<Rightarrow> retMap result" where
  "storeValues ie [] [] retMap = Ok retMap"
| "storeValues ie (A # As) (v # vs) retMap =
     (case map_of retMap A of
        Some old \<Rightarrow>
          if length old \<noteq> length v then Abort
          else rbind (storeElements (case map_of (elements ie) A of Some ds \<Rightarrow> ds | None \<Rightarrow> []) v old) (\<lambda>new.
                 storeValues ie As vs (AList.update A new retMap))
      | None \<Rightarrow> storeValues ie As vs (AList.update A v retMap))"
| "storeValues ie As vs retMap = Abort"

text \<open>The loop over the factors; \<open>None\<close> as the result tells that a factor has no solution.\<close>

fun solveFactors :: "'q SolverImpl \<Rightarrow> IndependentElementSet list \<Rightarrow> retMap \<Rightarrow> ('q, retMap option) query" where
  "solveFactors S [] retMap = qreturn (Some retMap)"
| "solveFactors S (ie # factors) retMap =
     (let arraysInFactor = calculateArrayReferences ie
      in if exprs ie = [] then qabort
         else if arraysInFactor = [] then solveFactors S factors retMap
         else
           qbind (computeInitialValues S \<lparr>constraints = exprs ie, qexpr = ConstantExpr (alloc 0 1)\<rparr> arraysInFactor)
             (\<lambda>(tempValues, hasSolution).
                if \<not> hasSolution then qreturn None
                else (\<lambda>q. rbind (storeValues ie arraysInFactor tempValues retMap) (\<lambda>retMap'. solveFactors S factors retMap' q))))"

text \<open>The assertion at the end of \<open>computeInitialValues\<close>.\<close>

definition evaluatesTo :: "bool \<Rightarrow> bool \<Rightarrow> Assignment \<Rightarrow> expr \<Rightarrow> apint result" where
  "evaluatesTo co h a e = rbind (evaluate co h a e) (\<lambda>r. case r of ConstantExpr c \<Rightarrow> Ok c | _ \<Rightarrow> Abort)"

fun allHold :: "bool \<Rightarrow> bool \<Rightarrow> Assignment \<Rightarrow> expr list \<Rightarrow> bool result" where
  "allHold co h a [] = Ok True"
| "allHold co h a (c # cs) = rbind (evaluatesTo co h a c) (\<lambda>v. if isFalse v then Ok False else allHold co h a cs)"

definition assertCreatedPointEvaluatesToTrue :: "bool \<Rightarrow> bool \<Rightarrow> Query \<Rightarrow> Array list \<Rightarrow> int list list \<Rightarrow> retMap \<Rightarrow> bool result" where
  "assertCreatedPointEvaluatesToTrue co h Q objects vals retMap =
     (case Assignment_create objects vals True of
        None \<Rightarrow> Abort
      | Some a \<Rightarrow>
          (let assign = a\<lparr>bindings := fold (\<lambda>(A, v). insertBinding A v) retMap (bindings a)\<rparr>
           in rbind (allHold co h assign (constraints Q)) (\<lambda>holds.
                if \<not> holds then Ok False
                else rbind (evaluatesTo co h assign (createIsZero co (qexpr Q))) (\<lambda>v. Ok (isTrue v)))))"

definition Independent_computeInitialValues :: "bool \<Rightarrow> bool \<Rightarrow> 'q SolverImpl \<Rightarrow> Query \<Rightarrow> Array list \<Rightarrow>
    ('q, int list list \<times> bool) query" where
  "Independent_computeInitialValues co h S Q objects q =
     rbind (getAllIndependentConstraintsSets co Q) (\<lambda>factors.
       qbind (solveFactors S factors []) (\<lambda>found. case found of
           None \<Rightarrow> qreturn ([], False)
         | Some retMap \<Rightarrow>
             (let vals = map (\<lambda>A. case map_of retMap A of None \<Rightarrow> replicate (asize A) 0 | Some v \<Rightarrow> v) objects
              in (\<lambda>q. rbind (assertCreatedPointEvaluatesToTrue co h Q objects vals retMap) (\<lambda>ok.
                   if ok then Ok (Some (vals, True), q) else Abort)))) q)"

definition IndependentSolver :: "bool \<Rightarrow> bool \<Rightarrow> 'q SolverImpl \<Rightarrow> 'q SolverImpl" where
  "IndependentSolver co h S =
     \<lparr>computeTruth = (\<lambda>Q. onRequired Q (computeTruth S)),
      computeValidity = (\<lambda>Q. onRequired Q (computeValidity S)),
      computeValue = (\<lambda>Q. onRequired Q (computeValue S)),
      computeInitialValues = Independent_computeInitialValues co h S\<rparr>"

end
