(* ===== verification/IndependenceSound.thy ===== *)
theory IndependenceSound
  imports Independence SolverCorrect "HOL-Library.Multiset"
begin

text \<open>
  The independent solver answers as the solver below it would on the whole query: the constraints it
  leaves out share no element of an array with the query and the constraints it keeps, so that a
  model of the kept constraints and a model of all constraints can be joined.
\<close>

declare closureLoop.simps [simp del] factorLoop.simps [simp del]

section \<open>Elements\<close>

definition covers :: "IndependentElementSet \<Rightarrow> Array \<Rightarrow> nat \<Rightarrow> bool" where
  "covers s A n \<longleftrightarrow> A \<in> set (wholeObjects s) \<or> (\<exists>ds. map_of (elements s) A = Some ds \<and> n \<in> set ds)"

lemma covers_exprs [simp]: "covers (s\<lparr>exprs := es\<rparr>) = covers s"
  by (simp add: covers_def fun_eq_iff)

lemma intersects_exprs [simp]: "intersects a (b\<lparr>exprs := es\<rparr>) = intersects a b" "intersects (a\<lparr>exprs := es\<rparr>) b = intersects a b"
  by (simp_all add: intersects_def)

lemma intersects_disjoint: "\<not> intersects a b \<Longrightarrow> covers a A n \<Longrightarrow> \<not> covers b A n"
  unfolding intersects_def covers_def DenseSet_intersects_def
  by (elim disjE exE conjE) (fastforce dest: map_of_SomeD)+

lemma update_same: "map_of xs k = Some v \<Longrightarrow> AList.update k v xs = xs"
  by (induction xs) auto

subsection \<open>Unions\<close>

lemma DenseSet_add_fold:
  "fold (\<lambda>x (s, modified). if modified \<or> x \<notin> set s then (List.insert x s, True) else (s, modified)) b (s, m) = (s', m') \<Longrightarrow>
     set s' = set s \<union> set b \<and> (\<not> m' \<longrightarrow> s' = s \<and> \<not> m)"
proof (induction b arbitrary: s m)
  case (Cons x b)
  show ?case
  proof (cases "m \<or> x \<notin> set s")
    case True
    with Cons(1) [of "List.insert x s" True] Cons(2) show ?thesis by auto
  next
    case False
    with Cons(1) [of s m] Cons(2) show ?thesis by auto
  qed
qed simp

lemma DenseSet_add_result:
  assumes "DenseSet_add s b = (s', m)"
  shows "set s' = set s \<union> set b" "\<not> m \<Longrightarrow> s' = s"
  using DenseSet_add_fold [OF assms [unfolded DenseSet_add_def]] by blast+

text \<open>A step of a union keeps what is covered and changes nothing when it does not set the flag.\<close>

definition grows :: "(IndependentElementSet \<times> bool \<Rightarrow> IndependentElementSet \<times> bool) \<Rightarrow> bool" where
  "grows f \<longleftrightarrow> (\<forall>s m s' m'. f (s, m) = (s', m') \<longrightarrow> (\<forall>A n. covers s A n \<longrightarrow> covers s' A n) \<and> exprs s' = exprs s \<and> (\<not> m' \<longrightarrow> s' = s \<and> \<not> m))"

lemma growsD:
  assumes "grows f" "f (s, m) = (s', m')"
  shows "covers s A n \<Longrightarrow> covers s' A n" "exprs s' = exprs s" "\<not> m' \<Longrightarrow> s' = s \<and> \<not> m"
  using assms unfolding grows_def by blast+

lemma addWhole_grows: "grows (addWhole A)"
  unfolding grows_def addWhole_def by (auto simp: covers_def map_of_delete split: if_splits)

lemma addWhole_covers: "addWhole A (s, m) = (s', m') \<Longrightarrow> A \<in> set (wholeObjects s')"
  by (auto simp: addWhole_def split: if_splits)

lemma addElements_result:
  assumes "addElements (A, ds) (s, m) = (s', m')"
  shows "(\<forall>B n. covers s B n \<longrightarrow> covers s' B n) \<and> exprs s' = exprs s \<and> (\<not> m' \<longrightarrow> s' = s \<and> \<not> m)" "n \<in> set ds \<Longrightarrow> covers s' A n"
proof -
  have "((\<forall>B n. covers s B n \<longrightarrow> covers s' B n) \<and> exprs s' = exprs s \<and> (\<not> m' \<longrightarrow> s' = s \<and> \<not> m)) \<and> (n \<in> set ds \<longrightarrow> covers s' A n)"
  proof (cases "A \<in> set (wholeObjects s)")
    case True
    with assms show ?thesis by (auto simp: addElements_def covers_def)
  next
    case False
    show ?thesis
    proof (cases "map_of (elements s) A")
      case None
      with assms False show ?thesis by (auto simp: addElements_def covers_def update_conv' split: if_splits)
    next
      case (Some ds')
      obtain ds'' m1 where d: "DenseSet_add ds' ds = (ds'', m1)" by (cases "DenseSet_add ds' ds")
      with assms False Some have s': "s' = s\<lparr>elements := AList.update A ds'' (elements s)\<rparr>" "m' = (m \<or> m1)"
        by (auto simp: addElements_def)
      show ?thesis using DenseSet_add_result [OF d] Some False update_same [OF Some]
        by (auto simp: s' covers_def update_conv')
    qed
  qed
  then show "(\<forall>B n. covers s B n \<longrightarrow> covers s' B n) \<and> exprs s' = exprs s \<and> (\<not> m' \<longrightarrow> s' = s \<and> \<not> m)" "n \<in> set ds \<Longrightarrow> covers s' A n"
    by blast+
qed

lemma addElements_grows: "grows (addElements p)"
  unfolding grows_def using addElements_result(1) by (cases p) metis

lemma fold_grows:
  assumes "\<And>x. grows (f x)"
  shows "grows (fold f xs)"
proof (induction xs)
  case Nil
  show ?case by (simp add: grows_def)
next
  case (Cons x xs)
  show ?case
    unfolding grows_def
  proof (intro allI impI)
    fix s m s' m' assume run: "fold f (x # xs) (s, m) = (s', m')"
    obtain s1 m1 where s1: "f x (s, m) = (s1, m1)" by (cases "f x (s, m)")
    with run have "fold f xs (s1, m1) = (s', m')" by simp
    from growsD [OF Cons this] growsD [OF assms s1]
    show "(\<forall>A n. covers s A n \<longrightarrow> covers s' A n) \<and> exprs s' = exprs s \<and> (\<not> m' \<longrightarrow> s' = s \<and> \<not> m)" by auto
  qed
qed

lemma folds_grow: "grows (fold addWhole As)" "grows (fold addElements ps)"
  by (rule fold_grows, rule addWhole_grows) (rule fold_grows, rule addElements_grows)

lemma fold_addWhole: "fold addWhole As (s, m) = (s', m') \<Longrightarrow> A \<in> set As \<Longrightarrow> covers s' A n"
proof (induction As arbitrary: s m)
  case (Cons B As)
  obtain s1 m1 where s1: "addWhole B (s, m) = (s1, m1)" by (cases "addWhole B (s, m)")
  have "covers s1 B n" using addWhole_covers [OF s1] by (simp add: covers_def)
  then show ?case
    using Cons s1 growsD(1) [OF folds_grow(1), of As s1 m1 s' m'] by (cases "A = B") auto
qed simp

lemma fold_addElements: "fold addElements ps (s, m) = (s', m') \<Longrightarrow> (A, ds) \<in> set ps \<Longrightarrow> n \<in> set ds \<Longrightarrow> covers s' A n"
proof (induction ps arbitrary: s m)
  case (Cons p ps)
  obtain s1 m1 where s1: "addElements p (s, m) = (s1, m1)" by (cases "addElements p (s, m)")
  show ?case
  proof (cases "p = (A, ds)")
    case True
    with addElements_result(2) s1 Cons(4) have "covers s1 A n" by blast
    then show ?thesis using Cons(2) s1 growsD(1) [OF folds_grow(2), of ps s1 m1 s' m'] by simp
  qed (use Cons s1 in auto)
qed simp

lemma addSet_result:
  assumes "addSet a b = (s, m)"
  shows "covers a A n \<or> covers b A n \<Longrightarrow> covers s A n" "exprs s = exprs a @ exprs b" "\<not> m \<Longrightarrow> s = a\<lparr>exprs := exprs a @ exprs b\<rparr>"
proof -
  let ?a = "a\<lparr>exprs := exprs a @ exprs b\<rparr>"
  obtain s1 m1 where s1: "fold addWhole (wholeObjects b) (?a, False) = (s1, m1)"
    by (cases "fold addWhole (wholeObjects b) (?a, False)")
  with assms have s: "fold addElements (elements b) (s1, m1) = (s, m)" by (simp add: addSet_def)
  note g1 = growsD [OF folds_grow(1) s1] and g = growsD [OF folds_grow(2) s]
  show "exprs s = exprs a @ exprs b" "\<not> m \<Longrightarrow> s = ?a" using g1 g by simp_all
  assume "covers a A n \<or> covers b A n"
  then consider "covers a A n" | "A \<in> set (wholeObjects b)" | ds where "map_of (elements b) A = Some ds" "n \<in> set ds"
    by (auto simp: covers_def)
  then show "covers s A n"
  proof cases
    case 1
    then show ?thesis using g1(1) [of A n] g(1) [of A n] by simp
  next
    case 2
    then show ?thesis using fold_addWhole [OF s1] g(1) by blast
  next
    case 3
    then show ?thesis using fold_addElements [OF s] map_of_SomeD by fast
  qed
qed

subsection \<open>The elements of an expression\<close>

definition coversRead :: "IndependentElementSet \<Rightarrow> expr \<Rightarrow> bool" where
  "coversRead s re \<longleftrightarrow>
     (case asRead re of
        Some (A, us, index) \<Rightarrow>
          isConstantArray A \<and> us = [] \<or>
          (case index of ConstantExpr c \<Rightarrow> covers s A (nat (apValue c)) | _ \<Rightarrow> A \<in> set (wholeObjects s))
      | None \<Rightarrow> True)"

lemma addRead_result:
  assumes "wf_expr re"
  shows "\<exists>s'. addRead re s = Ok s' \<and> (\<forall>A n. covers s A n \<longrightarrow> covers s' A n) \<and> set (wholeObjects s) \<subseteq> set (wholeObjects s') \<and>
    coversRead s' re \<and> exprs s' = exprs s"
proof (cases "asRead re")
  case None
  then show ?thesis by (simp add: addRead_def coversRead_def)
next
  case (Some x)
  then obtain A us index where re: "re = ReadExpr A us index" by (cases x) auto
  show ?thesis
  proof (cases "isConstantArray A \<and> us = [] \<or> A \<in> set (wholeObjects s)")
    case True
    then show ?thesis by (cases index) (auto simp: addRead_def coversRead_def covers_def re)
  next
    case False
    show ?thesis
    proof (cases "isConstantExpr index")
      case True
      then obtain c where c: "index = ConstantExpr c" by (rule isConstantExprE)
      have "\<not> 32 < bitWidth c" using assms by (auto simp: re c wf_array_def)
      then show ?thesis using False
        by (auto simp: addRead_def coversRead_def covers_def re c update_conv' split: option.splits)
    next
      case nc: False
      have "addRead re s = Ok (s\<lparr>elements := AList.delete A (elements s), wholeObjects := A # wholeObjects s\<rparr>)"
        using False nc by (auto simp: addRead_def re)
      moreover have "coversRead (s\<lparr>elements := AList.delete A (elements s), wholeObjects := A # wholeObjects s\<rparr>) re"
        using nc by (simp add: coversRead_def re)
      ultimately show ?thesis by (auto simp: covers_def map_of_delete)
    qed
  qed
qed

lemma coversRead_mono:
  assumes "coversRead s re" "\<forall>A n. covers s A n \<longrightarrow> covers s' A n" "set (wholeObjects s) \<subseteq> set (wholeObjects s')"
  shows "coversRead s' re"
proof (cases "asRead re")
  case (Some x)
  then obtain A us index where re: "re = ReadExpr A us index" by (cases x) auto
  from assms show ?thesis by (cases index) (auto simp: coversRead_def re)
qed (simp add: coversRead_def)

lemma addReads_result:
  assumes "\<forall>re \<in> set res. wf_expr re"
  shows "\<exists>s'. addReads res s = Ok s' \<and> (\<forall>A n. covers s A n \<longrightarrow> covers s' A n) \<and> set (wholeObjects s) \<subseteq> set (wholeObjects s') \<and>
    (\<forall>re \<in> set res. coversRead s' re) \<and> exprs s' = exprs s"
  using assms
proof (induction res arbitrary: s)
  case (Cons re res)
  then have "wf_expr re" by simp
  from addRead_result [OF this, of s] obtain s1 where s1: "addRead re s = Ok s1" "\<forall>A n. covers s A n \<longrightarrow> covers s1 A n"
    "set (wholeObjects s) \<subseteq> set (wholeObjects s1)" "coversRead s1 re" "exprs s1 = exprs s" by blast
  from Cons(1) [of s1] Cons(2) obtain s' where s': "addReads res s1 = Ok s'" "\<forall>A n. covers s1 A n \<longrightarrow> covers s' A n"
    "set (wholeObjects s1) \<subseteq> set (wholeObjects s')" "\<forall>re \<in> set res. coversRead s' re" "exprs s' = exprs s1" by auto
  from coversRead_mono [OF s1(4) s'(2,3)] s1 s' show ?case by auto
qed simp

lemma new_result:
  assumes "wf_expr e"
  shows "\<exists>s. IndependentElementSet_new e = Ok s \<and> exprs s = [e] \<and> (\<forall>re \<in> set (findReads e True). coversRead s re)"
proof -
  have "\<forall>re \<in> set (findReads e True). wf_expr re" using findReads_wf [OF assms] by blast
  from addReads_result [OF this, of "\<lparr>elements = [], wholeObjects = [], exprs = [e]\<rparr>"] show ?thesis
    by (auto simp: IndependentElementSet_new_def)
qed

text \<open>An expression has the same value in environments that agree on its elements.\<close>

definition agreeOn :: "(Array \<Rightarrow> nat \<Rightarrow> bool) \<Rightarrow> env \<Rightarrow> env \<Rightarrow> bool" where
  "agreeOn P \<sigma> \<tau> \<longleftrightarrow> (\<forall>A i. P A (nat i) \<longrightarrow> \<sigma> A i = \<tau> A i)"

lemma sem_covers:
  assumes "IndependentElementSet_new e = Ok s" "wf_expr e" "agreeOn P \<sigma> \<tau>" "\<And>A n. covers s A n \<Longrightarrow> P A n" "wf_env True \<sigma>" "wf_env True \<tau>"
  shows "sem \<sigma> e = sem \<tau> e"
proof -
  obtain V where V: "within V e" "\<And>x. x \<in> V \<Longrightarrow> closedAt V (findReads e True) x" using findReads_closed by blast
  have "readAgrees \<sigma> \<tau> re" if re: "re \<in> set (findReads e True)" for re
  proof -
    have c: "coversRead s re" using new_result [OF assms(2)] assms(1) re by auto
    have "P A n \<Longrightarrow> nat i = n \<Longrightarrow> \<sigma> A i = \<tau> A i" for A i n using assms(3) by (auto simp: agreeOn_def)
    with assms(4) have agree: "covers s A (nat i) \<Longrightarrow> \<sigma> A i = \<tau> A i" for A i by blast
    show ?thesis
    proof (cases "asRead re")
      case (Some x)
      then obtain A us index where re: "re = ReadExpr A us index" by (cases x) auto
      have "A \<in> set (wholeObjects s) \<Longrightarrow> \<forall>i. \<sigma> A i = \<tau> A i" using agree by (simp add: covers_def)
      with c agree show ?thesis by (cases index) (auto simp: coversRead_def readAgrees_def re)
    qed (simp add: readAgrees_def)
  qed
  from sem_agree [OF V(2) this assms(5,6) V(1)] show ?thesis .
qed

section \<open>The required constraints\<close>

definition coveredBy :: "IndependentElementSet \<Rightarrow> IndependentElementSet \<Rightarrow> bool" where
  "coveredBy a b \<longleftrightarrow> (\<forall>A n. covers a A n \<longrightarrow> covers b A n)"

lemma coveredBy_refl [simp]: "coveredBy a a"
  by (simp add: coveredBy_def)

lemma coveredBy_trans: "coveredBy a b \<Longrightarrow> coveredBy b c \<Longrightarrow> coveredBy a c"
  by (simp add: coveredBy_def)

lemma addSet_coveredBy: "addSet a b = (s, m) \<Longrightarrow> coveredBy a s \<and> coveredBy b s"
  using addSet_result(1) by (auto simp: coveredBy_def)

text \<open>
  The outcome of a worklist: each constraint is in the result, and its elements are in the closure,
  or it stays in the worklist; and when the pass changes nothing, those that stay do not intersect
  the closure.
\<close>

definition settled :: "expr list \<Rightarrow> IndependentElementSet \<Rightarrow> worklist \<Rightarrow> expr \<times> IndependentElementSet \<Rightarrow> bool" where
  "settled result clo rest p \<longleftrightarrow> fst p \<in> set result \<and> coveredBy (snd p) clo \<or> p \<in> set rest"

lemma closurePass_fin: "closurePass w clo fin result new = (new', clo', fin', result') \<Longrightarrow> fin' \<Longrightarrow> fin"
proof (induction w arbitrary: clo fin result new)
  case (Cons p w)
  obtain c t where p: "p = (c, t)" by (cases p)
  obtain s m where s: "addSet clo t = (s, m)" by (cases "addSet clo t")
  show ?case
    using Cons(2,3) Cons(1) [of s "fin \<and> \<not> m" "result @ [c]" new] Cons(1) [of clo "fin" "result" "new @ [(c, t)]"] p s
    by (auto split: if_splits)
qed simp

lemma closurePass_result:
  assumes "closurePass w clo fin result new = (new', clo', fin', result')"
  shows "coveredBy clo clo' \<and> set result \<subseteq> set result' \<and> set result' \<subseteq> set result \<union> fst ` set w \<and> set new \<subseteq> set new' \<and>
    (\<forall>p \<in> set w. settled result' clo' new' p) \<and>
    (fin' \<longrightarrow> clo' = clo\<lparr>exprs := exprs clo'\<rparr> \<and> (\<forall>p \<in> set new'. p \<in> set new \<or> \<not> intersects (snd p) clo'))"
  using assms
proof (induction w arbitrary: clo fin result new)
  case (Cons p w)
  obtain c t where p: "p = (c, t)" by (cases p)
  show ?case
  proof (cases "intersects t clo")
    case True
    obtain s m where s: "addSet clo t = (s, m)" by (cases "addSet clo t")
    from Cons(2) True s p have "closurePass w s (fin \<and> \<not> m) (result @ [c]) new = (new', clo', fin', result')" by simp
    note IH = Cons(1) [OF this]
    note cv = addSet_coveredBy [OF s]
    have "settled result' clo' new' p"
      using IH cv coveredBy_trans by (auto simp: settled_def p)
    moreover have "fin' \<longrightarrow> \<not> m" using \<open>closurePass w s (fin \<and> \<not> m) (result @ [c]) new = (new', clo', fin', result')\<close>
      by (metis closurePass_fin)
    ultimately show ?thesis using IH cv addSet_result(3) [OF s] p by (auto intro: coveredBy_trans)
  next
    case False
    with Cons(2) p have "closurePass w clo fin result (new @ [(c, t)]) = (new', clo', fin', result')" by simp
    note IH = Cons(1) [OF this]
    have "settled result' clo' new' p" using IH by (auto simp: settled_def p)
    moreover have "fin' \<longrightarrow> (\<forall>x \<in> set new'. x \<in> set new \<or> \<not> intersects (snd x) clo')"
      using IH False p by (metis Un_iff empty_iff intersects_exprs(1) list.set(1,2) set_append singletonD snd_conv insert_iff)
    ultimately show ?thesis using IH p by auto
  qed
qed (simp add: settled_def)

lemma closurePass_new: "closurePass w clo fin result new = (new', clo', fin', result') \<Longrightarrow> set new' \<subseteq> set new \<union> set w"
proof (induction w arbitrary: clo fin result new)
  case (Cons p w)
  obtain c t where p: "p = (c, t)" by (cases p)
  obtain s m where s: "addSet clo t = (s, m)" by (cases "addSet clo t")
  show ?case
    using Cons(2) Cons(1) [of s "fin \<and> \<not> m" "result @ [c]" new] Cons(1) [of clo "fin" "result" "new @ [(c, t)]"] p s
    by (auto split: if_splits)
qed simp

lemma closureLoop_result:
  assumes "closureLoop w clo result = (rest, clo', result')"
  shows "coveredBy clo clo' \<and> set result \<subseteq> set result' \<and> set result' \<subseteq> set result \<union> fst ` set w \<and>
    (\<forall>p \<in> set w. fst p \<in> set result' \<and> coveredBy (snd p) clo' \<or> \<not> intersects (snd p) clo')"
  using assms
proof (induction w clo result rule: closureLoop.induct)
  case (1 w clo result)
  obtain new s fin res where pass: "closurePass w clo True result [] = (new, s, fin, res)"
    by (cases "closurePass w clo True result []") auto
  note r = closurePass_result [OF pass]
  show ?case
  proof (cases fin)
    case True
    with 1(2) pass have "rest = new" "clo' = s" "result' = res" by (simp_all add: closureLoop.simps [of w])
    with r True show ?thesis by (auto simp: settled_def)
  next
    case False
    with 1(2) pass have "closureLoop new s res = (rest, clo', result')" by (simp add: closureLoop.simps [of w])
    note IH = 1(1) [OF pass [symmetric] refl refl False this]
    have "set new \<subseteq> set w" using closurePass_new [OF pass] by simp
    moreover have "fst p \<in> set result' \<and> coveredBy (snd p) clo' \<or> \<not> intersects (snd p) clo'" if "p \<in> set w" for p
    proof -
      have "fst p \<in> set res \<and> coveredBy (snd p) s \<or> p \<in> set new" using r that by (simp add: settled_def)
      then show ?thesis using IH coveredBy_trans [of "snd p" s clo'] by blast
    qed
    moreover have "coveredBy clo clo'" using IH r coveredBy_trans [of clo s clo'] by blast
    moreover have "set result \<subseteq> set result'" "set result' \<subseteq> set result \<union> fst ` set w" using IH r \<open>set new \<subseteq> set w\<close> by blast+
    ultimately show ?thesis by blast
  qed
qed

lemma newSets_result:
  assumes "\<forall>c \<in> set cs. wf_expr c"
  shows "\<exists>w. newSets cs = Ok w \<and> map fst w = cs \<and> (\<forall>p \<in> set w. IndependentElementSet_new (fst p) = Ok (snd p))"
  using assms
proof (induction cs)
  case (Cons c cs)
  then have "wf_expr c" by simp
  from new_result [OF this] obtain s where "IndependentElementSet_new c = Ok s" by blast
  with Cons show ?case by auto
qed simp

text \<open>
  The constraints are the required ones, whose elements the closure covers, and others whose
  elements it does not meet.
\<close>

lemma getIndependentConstraints_result:
  assumes "wf_expr (qexpr Q)" "\<forall>c \<in> set (constraints Q). wf_expr c"
  shows "\<exists>clo req. getIndependentConstraints Q = Ok (clo, req) \<and> set req \<subseteq> set (constraints Q) \<and>
    (\<forall>s. IndependentElementSet_new (qexpr Q) = Ok s \<longrightarrow> coveredBy s clo) \<and>
    (\<forall>c \<in> set (constraints Q). \<exists>s. IndependentElementSet_new c = Ok s \<and> (c \<in> set req \<and> coveredBy s clo \<or> \<not> intersects s clo))"
proof -
  obtain s where s: "IndependentElementSet_new (qexpr Q) = Ok s" using new_result [OF assms(1)] by blast
  obtain w where w: "newSets (constraints Q) = Ok w" "map fst w = constraints Q" "\<forall>p \<in> set w. IndependentElementSet_new (fst p) = Ok (snd p)"
    using newSets_result [OF assms(2)] by blast
  obtain rest clo req where l: "closureLoop w s [] = (rest, clo, req)" by (cases "closureLoop w s []") auto
  note r = closureLoop_result [OF l]
  have fst: "fst ` set w = set (constraints Q)" using w(2) by (metis set_map)
  have "\<exists>t. IndependentElementSet_new c = Ok t \<and> (c \<in> set req \<and> coveredBy t clo \<or> \<not> intersects t clo)" if c: "c \<in> set (constraints Q)" for c
  proof -
    obtain p where "p \<in> set w" "fst p = c" using c unfolding fst [symmetric] by blast
    with w(3) r show ?thesis by blast
  qed
  moreover have "set req \<subseteq> set (constraints Q)" using r fst by auto
  ultimately show ?thesis using s w(1) l r by (auto simp: getIndependentConstraints_def)
qed

section \<open>Joining models\<close>

definition joined :: "(Array \<Rightarrow> nat \<Rightarrow> bool) \<Rightarrow> env \<Rightarrow> env \<Rightarrow> env" where
  "joined P \<sigma> \<tau> A i = (if P A (nat i) then \<sigma> A i else \<tau> A i)"

lemma joined_agrees: "agreeOn P (joined P \<sigma> \<tau>) \<sigma>" "agreeOn (\<lambda>A n. \<not> P A n) (joined P \<sigma> \<tau>) \<tau>"
  by (simp_all add: agreeOn_def joined_def)

locale joinable =
  fixes U :: "env set"
  assumes bounded: "\<sigma> \<in> U \<Longrightarrow> wf_env True \<sigma>"
    and join: "\<sigma> \<in> U \<Longrightarrow> \<tau> \<in> U \<Longrightarrow> joined P \<sigma> \<tau> \<in> U"
begin

lemma sem_joined:
  assumes "wf_expr e" "IndependentElementSet_new e = Ok s" "\<sigma> \<in> U" "\<tau> \<in> U"
  shows "coveredBy s clo \<Longrightarrow> sem (joined (covers clo) \<sigma> \<tau>) e = sem \<sigma> e" "\<not> intersects s clo \<Longrightarrow> sem (joined (covers clo) \<sigma> \<tau>) e = sem \<tau> e"
  using sem_covers [OF assms(2,1) joined_agrees(1)] sem_covers [OF assms(2,1) joined_agrees(2)] assms(3,4) bounded join intersects_disjoint
  by (auto simp: coveredBy_def)

lemma join_models:
  assumes ok: "wf_expr (qexpr Q)" "\<forall>c \<in> set (constraints Q). wf_expr c" and g: "getIndependentConstraints Q = Ok (clo, req)"
    and s: "\<sigma> \<in> modelsOf U req" and t: "\<tau> \<in> modelsOf U (constraints Q)"
  shows "joined (covers clo) \<sigma> \<tau> \<in> modelsOf U (constraints Q)" "sem (joined (covers clo) \<sigma> \<tau>) (qexpr Q) = sem \<sigma> (qexpr Q)"
proof -
  let ?r = "joined (covers clo) \<sigma> \<tau>"
  have U: "\<sigma> \<in> U" "\<tau> \<in> U" using s t by (auto simp: modelsOf_def)
  note gi = getIndependentConstraints_result [OF ok, unfolded g]
  from gi have q: "\<forall>s. IndependentElementSet_new (qexpr Q) = Ok s \<longrightarrow> coveredBy s clo"
    and c: "\<forall>c \<in> set (constraints Q). \<exists>s. IndependentElementSet_new c = Ok s \<and> (c \<in> set req \<and> coveredBy s clo \<or> \<not> intersects s clo)" by auto
  obtain sq where sq: "IndependentElementSet_new (qexpr Q) = Ok sq" using new_result [OF ok(1)] by blast
  then show "sem ?r (qexpr Q) = sem \<sigma> (qexpr Q)" using sem_joined(1) [OF ok(1) sq U] q by blast
  have "sem ?r x = Some 1" if x: "x \<in> set (constraints Q)" for x
  proof -
    obtain sx where sx: "IndependentElementSet_new x = Ok sx" "x \<in> set req \<and> coveredBy sx clo \<or> \<not> intersects sx clo" using c x by blast
    have wx: "wf_expr x" using ok(2) x by blast
    have "x \<in> set req \<Longrightarrow> sem \<sigma> x = Some 1" "sem \<tau> x = Some 1" using s t x by (auto simp: modelsOf_def satisfied_def)
    with sx(2) sem_joined [OF wx sx(1) U] show ?thesis by auto
  qed
  then show "?r \<in> modelsOf U (constraints Q)" using join [OF U] by (simp add: modelsOf_def satisfied_def)
qed

end

section \<open>The factors\<close>

text \<open>A factor covers the elements of each of its expressions.\<close>

definition factorOK :: "IndependentElementSet \<Rightarrow> bool" where
  "factorOK f \<longleftrightarrow> exprs f \<noteq> [] \<and> (\<forall>e \<in> set (exprs f). \<exists>s. IndependentElementSet_new e = Ok s \<and> coveredBy s f)"

definition exprsOf :: "IndependentElementSet list \<Rightarrow> expr multiset" where
  "exprsOf fs = sum_list (map (\<lambda>f. mset (exprs f)) fs)"

lemma exprsOf_simps [simp]: "exprsOf [] = {#}" "exprsOf (f # fs) = mset (exprs f) + exprsOf fs" "exprsOf (fs @ gs) = exprsOf fs + exprsOf gs"
  by (simp_all add: exprsOf_def)

lemma in_exprsOf: "f \<in> set fs \<Longrightarrow> e \<in> set (exprs f) \<Longrightarrow> e \<in># exprsOf fs"
  by (induction fs) auto

lemma factorOK_addSet:
  assumes "addSet a b = (s, m)" "factorOK a" "factorOK b"
  shows "factorOK s"
proof -
  note c = addSet_coveredBy [OF assms(1)] and e = addSet_result(2) [OF assms(1)]
  have "\<exists>t. IndependentElementSet_new x = Ok t \<and> coveredBy t s" if "x \<in> set (exprs s)" for x
    using that assms(2,3) c coveredBy_trans [of _ a s] coveredBy_trans [of _ b s] unfolding e factorOK_def by fastforce
  then show ?thesis using assms(2) by (simp add: factorOK_def e)
qed

lemma absorb_result:
  assumes "absorb cur fs d keep = (cur', keep', d')" "factorOK cur" "\<forall>f \<in> set fs \<union> set keep. factorOK f"
  shows "mset (exprs cur') + exprsOf keep' = mset (exprs cur) + exprsOf fs + exprsOf keep \<and> factorOK cur' \<and> set keep' \<subseteq> set keep \<union> set fs \<and>
    (d' \<longrightarrow> d \<and> cur' = cur\<lparr>exprs := exprs cur'\<rparr> \<and> (\<forall>f \<in> set keep'. f \<in> set keep \<or> \<not> intersects cur' f))"
  using assms
proof (induction fs arbitrary: cur d keep)
  case (Cons f fs)
  show ?case
  proof (cases "intersects cur f")
    case True
    obtain s m where s: "addSet cur f = (s, m)" by (cases "addSet cur f")
    from Cons(2) True s have run: "absorb s fs (d \<and> \<not> m) keep = (cur', keep', d')" by simp
    have ok: "factorOK s" using factorOK_addSet [OF s] Cons(3,4) by simp
    note IH = Cons(1) [OF run ok] and r = addSet_result [OF s]
    have "d' \<longrightarrow> s = cur\<lparr>exprs := exprs s\<rparr>" using IH Cons(4) r(2,3) by auto
    with IH Cons(4) r(2) show ?thesis by (auto simp: ac_simps)
  next
    case False
    with Cons(2) have "absorb cur fs d (keep @ [f]) = (cur', keep', d')" by simp
    note IH = Cons(1) [OF this Cons(3)]
    have "d' \<longrightarrow> (\<forall>x \<in> set keep'. x \<in> set keep \<or> \<not> intersects cur' x)"
    proof (intro impI ballI)
      fix x assume "d'" "x \<in> set keep'"
      with IH Cons(4) have "x \<in> set (keep @ [f]) \<or> \<not> intersects cur' x" "cur' = cur\<lparr>exprs := exprs cur'\<rparr>" by auto
      with False show "x \<in> set keep \<or> \<not> intersects cur' x" by (metis Un_iff empty_iff insert_iff intersects_exprs(2) list.set set_append)
    qed
    with IH Cons(4) show ?thesis by (auto simp: ac_simps)
  qed
qed simp

text \<open>Factors of which no one intersects a later one.\<close>

definition separate :: "IndependentElementSet list \<Rightarrow> bool" where
  "separate fs \<longleftrightarrow> sorted_wrt (\<lambda>a b. \<not> intersects a b) fs"

lemma factorPass_result:
  assumes "factorPass fs d fin = (fin', d')" "\<forall>f \<in> set fs \<union> set fin. factorOK f"
  shows "exprsOf fin' = exprsOf fs + exprsOf fin \<and> (\<forall>f \<in> set fin'. factorOK f) \<and>
    (d' \<longrightarrow> d \<and> (separate fin \<and> (\<forall>a \<in> set fin. \<forall>f \<in> set fs. \<not> intersects a f) \<longrightarrow> separate fin'))"
  using assms
proof (induction fs d fin rule: factorPass.induct)
  case (2 cur fs d fin)
  obtain c k d1 where a: "absorb cur fs d [] = (c, k, d1)" by (cases "absorb cur fs d []") auto
  have "factorOK cur" "\<forall>f \<in> set fs \<union> set []. factorOK f" using 2(3) by auto
  note r = absorb_result [OF a this]
  have run: "factorPass k d1 (fin @ [c]) = (fin', d')" using 2(2) a by simp
  have "\<forall>f \<in> set k \<union> set (fin @ [c]). factorOK f" using r 2(3) by auto
  note IH = 2(1) [OF a [symmetric] refl run this]
  have "separate (fin @ [c]) \<and> (\<forall>a \<in> set (fin @ [c]). \<forall>f \<in> set k. \<not> intersects a f)"
    if "d'" "separate fin" "\<forall>a \<in> set fin. \<forall>f \<in> set (cur # fs). \<not> intersects a f"
  proof -
    have c: "c = cur\<lparr>exprs := exprs c\<rparr>" "\<forall>f \<in> set k. \<not> intersects c f" "set k \<subseteq> set fs" using r IH that(1) by auto
    have "\<forall>a \<in> set fin. \<not> intersects a c" using that(3) c(1) by (metis intersects_exprs(1) list.set_intros(1))
    with c that show ?thesis by (auto simp: separate_def sorted_wrt_append)
  qed
  with IH r show ?case by (auto simp: ac_simps)
qed simp

lemma factorLoop_result:
  assumes "\<forall>f \<in> set fs. factorOK f"
  shows "exprsOf (factorLoop fs) = exprsOf fs \<and> (\<forall>f \<in> set (factorLoop fs). factorOK f) \<and> separate (factorLoop fs)"
  using assms
proof (induction fs rule: factorLoop.induct)
  case (1 fs)
  obtain fin d where p: "factorPass fs True [] = (fin, d)" by (cases "factorPass fs True []")
  have "\<forall>f \<in> set fs \<union> set []. factorOK f" using 1(2) by simp
  note r = factorPass_result [OF p this]
  show ?case
  proof (cases d)
    case True
    then have "factorLoop fs = fin" using p by (simp add: factorLoop.simps [of fs])
    with r True show ?thesis by (simp add: separate_def)
  next
    case False
    then have "factorLoop fs = factorLoop fin" using p by (simp add: factorLoop.simps [of fs])
    with r 1(1) [OF p [symmetric] False] show ?thesis by simp
  qed
qed

lemma separate_disjoint:
  "separate fs \<Longrightarrow> i < length fs \<Longrightarrow> j < length fs \<Longrightarrow> i \<noteq> j \<Longrightarrow> covers (fs ! i) A n \<Longrightarrow> \<not> covers (fs ! j) A n"
  unfolding separate_def sorted_wrt_iff_nth_less using intersects_disjoint by (metis linorder_neqE_nat)

section \<open>The solver\<close>

locale independent_solver = solver_impl co U reliable I S + joinable U
  for co U reliable I and S :: "'q SolverImpl"
begin

lemma required_query:
  assumes ok: "okQuery U Q" and ne: "modelsOf U (constraints Q) \<noteq> {}"
  shows "\<exists>clo req. getIndependentConstraints Q = Ok (clo, req) \<and> okQuery U (Q\<lparr>constraints := req\<rparr>) \<and> modelsOf U req \<noteq> {} \<and>
    validIn U (Q\<lparr>constraints := req\<rparr>) = validIn U Q \<and> unsatIn U (Q\<lparr>constraints := req\<rparr>) = unsatIn U Q \<and>
    (\<forall>c. valueIn U (Q\<lparr>constraints := req\<rparr>) c \<longrightarrow> valueIn U Q c)"
proof -
  have wf: "wf_expr (qexpr Q)" "\<forall>c \<in> set (constraints Q). wf_expr c" and width: "\<forall>c \<in> set (constraints Q). getWidth c = 1"
    using ok by (auto simp: okQuery_def wf_constraints_def)
  obtain clo req where g: "getIndependentConstraints Q = Ok (clo, req)" and sub: "set req \<subseteq> set (constraints Q)"
    using getIndependentConstraints_result [OF wf] by blast
  have models: "modelsOf U (constraints Q) \<subseteq> modelsOf U req" using sub by (auto simp: modelsOf_def satisfied_def)
  obtain \<tau> where t: "\<tau> \<in> modelsOf U (constraints Q)" using ne by blast
  have lift: "\<exists>\<rho> \<in> modelsOf U (constraints Q). sem \<rho> (qexpr Q) = sem \<sigma> (qexpr Q)" if "\<sigma> \<in> modelsOf U req" for \<sigma>
    using join_models [OF wf g that t] by blast
  have same: "(\<forall>\<sigma> \<in> modelsOf U req. P (sem \<sigma> (qexpr Q))) \<longleftrightarrow> (\<forall>\<sigma> \<in> modelsOf U (constraints Q). P (sem \<sigma> (qexpr Q)))" for P
    using lift models by (metis subsetD)
  have "wf_constraints req" using wf(2) width sub by (auto simp: wf_constraints_def)
  then have "okQuery U (Q\<lparr>constraints := req\<rparr>)" using ok wf(1) same [of "\<lambda>v. v \<noteq> None"] by (simp add: okQuery_def)
  moreover have "valueIn U Q c" if "valueIn U (Q\<lparr>constraints := req\<rparr>) c" for c
    using that lift unfolding valueIn_def by fastforce
  ultimately show ?thesis
    using g ne models same [of "\<lambda>v. v = Some 1"] same [of "\<lambda>v. v = Some 0"] by (auto simp: validIn_def unsatIn_def)
qed

lemma returns_onRequired:
  assumes "getIndependentConstraints Q = Ok (clo, req)" "returns reliable I (f (Q\<lparr>constraints := req\<rparr>)) P"
  shows "returns reliable I (onRequired Q f) P"
  using assms by (simp add: returns_def onRequired_def)

lemma independent_truth:
  assumes "okQuery U Q" "modelsOf U (constraints Q) \<noteq> {}" "getWidth (qexpr Q) = 1"
  shows "returns reliable I (computeTruth (IndependentSolver co h S) Q) (\<lambda>b. b = validIn U Q)"
    and "returns reliable I (computeValidity (IndependentSolver co h S) Q) (\<lambda>v. v = validityIn U Q)"
proof -
  obtain clo req where g: "getIndependentConstraints Q = Ok (clo, req)" and r: "okQuery U (Q\<lparr>constraints := req\<rparr>)" "modelsOf U req \<noteq> {}"
    "validIn U (Q\<lparr>constraints := req\<rparr>) = validIn U Q" "unsatIn U (Q\<lparr>constraints := req\<rparr>) = unsatIn U Q"
    using required_query [OF assms(1,2)] by blast
  show "returns reliable I (computeTruth (IndependentSolver co h S) Q) (\<lambda>b. b = validIn U Q)"
    using returns_onRequired [OF g, of "computeTruth S"] truth [OF r(1)] r assms(3) by (simp add: IndependentSolver_def)
  have "validityIn U (Q\<lparr>constraints := req\<rparr>) = validityIn U Q" using r by (simp add: validityIn_def)
  then show "returns reliable I (computeValidity (IndependentSolver co h S) Q) (\<lambda>v. v = validityIn U Q)"
    using returns_onRequired [OF g, of "computeValidity S"] validity [OF r(1)] r assms(3) by (simp add: IndependentSolver_def)
qed

lemma independent_value:
  assumes "okQuery U Q" "modelsOf U (constraints Q) \<noteq> {}" "\<not> isConstantExpr (qexpr Q)"
  shows "returns reliable I (computeValue (IndependentSolver co h S) Q) (\<lambda>e. \<exists>c. e = ConstantExpr c \<and> valueIn U Q c)"
proof -
  obtain clo req where g: "getIndependentConstraints Q = Ok (clo, req)" and r: "okQuery U (Q\<lparr>constraints := req\<rparr>)" "modelsOf U req \<noteq> {}"
    "\<forall>c. valueIn U (Q\<lparr>constraints := req\<rparr>) c \<longrightarrow> valueIn U Q c"
    using required_query [OF assms(1,2)] by blast
  have "returns reliable I (computeValue S (Q\<lparr>constraints := req\<rparr>)) (\<lambda>e. \<exists>c. e = ConstantExpr c \<and> valueIn U Q c)"
    by (rule returns_mono [OF val [OF r(1)]]) (use r assms(3) in auto)
  from returns_onRequired [of Q clo req "computeValue S", OF g this] show ?thesis by (simp add: IndependentSolver_def)
qed

end

interpretation all_envs: joinable "{\<sigma>. wf_env True \<sigma>}"
  by unfold_locales (auto simp: wf_env_def joined_def split: if_splits)

interpretation independent_dummy: independent_solver co "{\<sigma>. wf_env True \<sigma>}" False "\<lambda>q :: unit. True" DummySolver
  by (intro independent_solver.intro all_envs.joinable_axioms)
     (unfold_locales, auto simp: wf_env_def returns_def DummySolver_def)

section \<open>Properties\<close>

text \<open>
  C33: the independent solver answers truth, validity and value queries as its contract demands,
  although it passes only the constraints that share elements, directly or through other constraints,
  with the query: over environments that can be joined element by element, each answer is the one for
  all constraints.
\<close>

theorem IndependentSolver_correct:
  assumes "solver_impl co U reliable I S" "\<forall>\<sigma> \<in> U. wf_env True \<sigma>" "\<forall>\<sigma> \<in> U. \<forall>\<tau> \<in> U. \<forall>P. joined P \<sigma> \<tau> \<in> U"
    and "okQuery U Q" "modelsOf U (constraints Q) \<noteq> {}"
  shows "(getWidth (qexpr Q) = 1 \<longrightarrow>
      returns reliable I (computeTruth (IndependentSolver co h S) Q) (\<lambda>b. b = validIn U Q) \<and>
      returns reliable I (computeValidity (IndependentSolver co h S) Q) (\<lambda>v. v = validityIn U Q)) \<and>
    (\<not> isConstantExpr (qexpr Q) \<longrightarrow>
      returns reliable I (computeValue (IndependentSolver co h S) Q) (\<lambda>e. \<exists>c. e = ConstantExpr c \<and> valueIn U Q c))"
proof -
  have "independent_solver co U reliable I S"
    using assms(1-3) by (simp add: independent_solver_def joinable_def)
  from independent_solver.independent_truth [OF this assms(4,5)] independent_solver.independent_value [OF this assms(4,5)]
  show ?thesis by blast
qed

text \<open>A single environment, in which every byte of the buffer is 3.\<close>

theorem IndependentSolver_correct_witness:
  "\<exists>q'. computeTruth (IndependentSolver False True (EnumSolver [env8 3]))
     \<lparr>constraints = [EqExpr (c8 3) (bufAt 0), EqExpr (c8 3) (bufAt 2)], qexpr = EqExpr (c8 3) (bufAt 1)\<rparr> () = Ok (Some True, q')"
proof -
  let ?U = "{env8 3}" and ?Q = "\<lparr>constraints = [EqExpr (c8 3) (bufAt 0), EqExpr (c8 3) (bufAt 2)], qexpr = EqExpr (c8 3) (bufAt 1)\<rparr>"
  have "solver_impl False (set [env8 3]) True (\<lambda>q :: unit. True) (EnumSolver [env8 3])" by (rule EnumSolver_contract) simp
  then have S: "solver_impl False ?U True (\<lambda>q :: unit. True) (EnumSolver [env8 3])" by simp
  have models: "modelsOf ?U (constraints ?Q) = ?U" by (auto simp: modelsOf_def satisfied_def example_simps kind_simps)
  have ok: "okQuery ?U ?Q" using models by (auto simp: okQuery_def wf_constraints_def example_simps kind_simps)
  have join: "joined P (env8 3) (env8 3) = env8 3" for P by (simp add: joined_def fun_eq_iff)
  have "returns True (\<lambda>q :: unit. True) (computeTruth (IndependentSolver False True (EnumSolver [env8 3])) ?Q) (\<lambda>b. b = validIn ?U ?Q)"
    using IndependentSolver_correct [OF S _ _ ok, of True] models join by (simp add: kind_simps)
  moreover have "validIn ?U ?Q" using models by (simp add: validIn_def example_simps kind_simps)
  ultimately show ?thesis by (fastforce simp: returns_def)
qed

text \<open>
  C36: the factors of a query are independent: the code returns, the factors together hold the negated
  query, unless it is the constant false, and every constraint, each as often as it occurs; the value of
  an expression of a factor depends on elements of the factor only; and no element belongs to two
  factors.
\<close>

theorem factors_independent:
  assumes "wf_expr (qexpr Q)" "getWidth (qexpr Q) = 1" "\<forall>c \<in> set (constraints Q). wf_expr c"
    and "\<forall>c. qexpr Q = ConstantExpr c \<longrightarrow> isFalse c"
  shows "\<exists>fs. getAllIndependentConstraintsSets co Q = Ok fs \<and>
    exprsOf fs = (if isConstantExpr (qexpr Q) then {#} else {#createIsZero co (qexpr Q)#}) + mset (constraints Q) \<and>
    (\<forall>f \<in> set fs. \<forall>e \<in> set (exprs f). \<forall>\<sigma> \<tau>. wf_env True \<sigma> \<and> wf_env True \<tau> \<and> agreeOn (covers f) \<sigma> \<tau> \<longrightarrow> sem \<sigma> e = sem \<tau> e) \<and>
    (\<forall>i < length fs. \<forall>j < length fs. i \<noteq> j \<longrightarrow> (\<forall>A n. covers (fs ! i) A n \<longrightarrow> \<not> covers (fs ! j) A n))"
proof -
  let ?neg = "createIsZero co (qexpr Q)"
  have neg: "wf_expr ?neg"
    using refinesD(1) [OF createIsZero_sound [of co "qexpr Q"]] assms(1,2) by (simp add: kind_simps)
  obtain w where w: "newSets (constraints Q) = Ok w" "map fst w = constraints Q" "\<forall>p \<in> set w. IndependentElementSet_new (fst p) = Ok (snd p)"
    using newSets_result [OF assms(3)] by blast
  obtain s where s: "IndependentElementSet_new ?neg = Ok s" using new_result [OF neg] by blast
  let ?first = "if isConstantExpr (qexpr Q) then [] else [s]"
  let ?fs = "?first @ map snd w"
  have run: "getAllIndependentConstraintsSets co Q = Ok (factorLoop ?fs)"
    using w(1) s assms(4) by (cases "qexpr Q") (simp_all add: getAllIndependentConstraintsSets_def)
  have one: "factorOK t" "exprs t = [c]" if "IndependentElementSet_new c = Ok t" "wf_expr c" for c t
    using new_result [OF that(2)] that(1) by (auto simp: factorOK_def)
  have ok: "\<forall>f \<in> set ?fs. factorOK f" 
  proof -
    have "factorOK (snd p)" if p: "p \<in> set w" for p
      using one(1) [of "fst p" "snd p"] w(3) p assms(3) w(2) by (metis image_eqI set_map)
    with one(1) [OF s neg] show ?thesis by auto
  qed
  note r = factorLoop_result [OF ok]
  have "exprsOf (map snd w) = mset (map fst w)" if "\<forall>p \<in> set w. exprs (snd p) = [fst p]" for w :: worklist
    using that by (induction w) auto
  moreover have "\<forall>p \<in> set w. exprs (snd p) = [fst p]" using one(2) w(2,3) assms(3) by (metis image_eqI set_map)
  ultimately have "exprsOf (map snd w) = mset (constraints Q)" using w(2) by metis
  then have ex: "exprsOf ?fs = (if isConstantExpr (qexpr Q) then {#} else {#?neg#}) + mset (constraints Q)"
    using one(2) [OF s neg] by simp
  have sem: "sem \<sigma> e = sem \<tau> e" if f: "f \<in> set (factorLoop ?fs)" "e \<in> set (exprs f)" and env: "wf_env True \<sigma>" "wf_env True \<tau>" "agreeOn (covers f) \<sigma> \<tau>" for f e \<sigma> \<tau>
  proof -
    obtain t where t: "IndependentElementSet_new e = Ok t" "coveredBy t f" using r f by (auto simp: factorOK_def)
    have "e \<in># exprsOf (factorLoop ?fs)" using in_exprsOf f by blast
    then have "e \<in># (if isConstantExpr (qexpr Q) then {#} else {#?neg#}) + mset (constraints Q)"
      unfolding r [THEN conjunct1] ex .
    then have "wf_expr e" using neg assms(3) by (auto split: if_splits)
    from sem_covers [OF t(1) this env(3) _ env(1,2)] t(2) show ?thesis by (auto simp: coveredBy_def)
  qed
  show ?thesis
  proof (intro exI conjI)
    show "getAllIndependentConstraintsSets co Q = Ok (factorLoop ?fs)" by (rule run)
    show "exprsOf (factorLoop ?fs) = (if isConstantExpr (qexpr Q) then {#} else {#?neg#}) + mset (constraints Q)" using r ex by simp
    show "\<forall>f \<in> set (factorLoop ?fs). \<forall>e \<in> set (exprs f). \<forall>\<sigma> \<tau>. wf_env True \<sigma> \<and> wf_env True \<tau> \<and> agreeOn (covers f) \<sigma> \<tau> \<longrightarrow> sem \<sigma> e = sem \<tau> e"
      using sem by blast
    have "separate (factorLoop ?fs)" using r by blast
    then show "\<forall>i < length (factorLoop ?fs). \<forall>j < length (factorLoop ?fs). i \<noteq> j \<longrightarrow>
        (\<forall>A n. covers (factorLoop ?fs ! i) A n \<longrightarrow> \<not> covers (factorLoop ?fs ! j) A n)"
      using separate_disjoint by blast
  qed
qed

theorem factors_independent_witness:
  "\<exists>fs. getAllIndependentConstraintsSets False
     \<lparr>constraints = [EqExpr (bufAt 0) (bufAt 1), EqExpr (c8 3) (bufAt 2)], qexpr = ConstantExpr (alloc 0 1)\<rparr> = Ok fs \<and>
     exprsOf fs = {#EqExpr (bufAt 0) (bufAt 1), EqExpr (c8 3) (bufAt 2)#} \<and>
     (\<forall>i < length fs. \<forall>j < length fs. i \<noteq> j \<longrightarrow> (\<forall>A n. covers (fs ! i) A n \<longrightarrow> \<not> covers (fs ! j) A n))"
  using factors_independent [of "\<lparr>constraints = [EqExpr (bufAt 0) (bufAt 1), EqExpr (c8 3) (bufAt 2)], qexpr = ConstantExpr (alloc 0 1)\<rparr>" False]
  by (elim meta_impE) (auto simp: example_simps kind_simps alloc_def wf_const_def isFalse_def)

end
