(* ===== verification/MapOfSets.thy ===== *)
theory MapOfSets
  imports Visitor "HOL-Library.Sublist"
begin

text \<open>
  Maps whose keys are sets (\<open>include/klee/Internal/ADT/MapOfSets.h\<close>), with queries for subsets and
  supersets of a set. A set is the list of its elements in the order of \<open>std::set\<close>; it is stored as a
  path in a tree, whose children are in the same order. A node has a value when it is the end of a set.
  \<open>lt\<close> is \<open>operator<\<close> of the elements and equality is their \<open>operator==\<close>.
\<close>

section \<open>Definitions\<close>

datatype ('k, nodeValues: 'v) setNode = SetNode (nodeValue: "'v option") (nodeChildren: "('k \<times> ('k, 'v) setNode) list")

definition emptyNode :: "('k, 'v) setNode" where
  "emptyNode = SetNode None []"

definition clearSets :: "('k, 'v) setNode \<Rightarrow> ('k, 'v) setNode" where
  "clearSets root = SetNode None []"

text \<open>\<open>std::map::insert\<close> of an empty node unless there is a child with this key, and the change of the child.\<close>

fun updateChild :: "('k \<Rightarrow> 'k \<Rightarrow> bool) \<Rightarrow> 'k \<Rightarrow> (('k, 'v) setNode \<Rightarrow> ('k, 'v) setNode) \<Rightarrow> ('k \<times> ('k, 'v) setNode) list \<Rightarrow> ('k \<times> ('k, 'v) setNode) list" where
  "updateChild lt k f [] = [(k, f emptyNode)]"
| "updateChild lt k f ((k', n) # cs) =
     (if k = k' then (k', f n) # cs
      else if lt k k' then (k, f emptyNode) # (k', n) # cs
      else (k', n) # updateChild lt k f cs)"

primrec insertSet :: "('k \<Rightarrow> 'k \<Rightarrow> bool) \<Rightarrow> 'k list \<Rightarrow> 'v \<Rightarrow> ('k, 'v) setNode \<Rightarrow> ('k, 'v) setNode" where
  "insertSet lt [] v n = SetNode (Some v) (nodeChildren n)"
| "insertSet lt (k # ks) v n = SetNode (nodeValue n) (updateChild lt k (insertSet lt ks v) (nodeChildren n))"

primrec lookupSet :: "'k list \<Rightarrow> ('k, 'v) setNode \<Rightarrow> 'v option" where
  "lookupSet [] n = nodeValue n"
| "lookupSet (k # ks) n = (case map_of (nodeChildren n) k of None \<Rightarrow> None | Some c \<Rightarrow> lookupSet ks c)"

text \<open>
  The predicate of a search may fail an assertion. In \<open>findSubset\<close> the elements of the set and the
  children of the node are run through together; the loops that advance one of them are steps of
  \<open>subsetLoop\<close>.
\<close>

definition holdsAt :: "('v \<Rightarrow> bool result) \<Rightarrow> 'v option \<Rightarrow> bool result" where
  "holdsAt p v = (case v of None \<Rightarrow> Ok False | Some x \<Rightarrow> p x)"

definition childrenSize :: "('k \<times> ('k, 'v) setNode) list \<Rightarrow> nat" where
  "childrenSize cs = size_list (size_prod (\<lambda>k. 0) size) cs"

lemma childrenSize_simps [simp]: "childrenSize [] = 0" "childrenSize ((k, n) # cs) = Suc (Suc (size n + childrenSize cs))"
  by (simp_all add: childrenSize_def)

lemma size_childrenSize: "size (SetNode v cs) = Suc (size v + childrenSize cs)"
  by (simp add: childrenSize_def)

lemma childrenSize_dropWhile: "childrenSize (dropWhile P cs) \<le> childrenSize cs"
  by (induction cs) auto

lemma childrenSize_dropped: "dropWhile P cs = (k, n) # cs' \<Longrightarrow> size n < childrenSize cs"
  using childrenSize_dropWhile [of P cs] by simp

function (sequential) findSubset :: "('k \<Rightarrow> 'k \<Rightarrow> bool) \<Rightarrow> ('v \<Rightarrow> bool result) \<Rightarrow> 'k list \<Rightarrow> ('k, 'v) setNode \<Rightarrow> 'v option result"
  and subsetLoop :: "('k \<Rightarrow> 'k \<Rightarrow> bool) \<Rightarrow> ('v \<Rightarrow> bool result) \<Rightarrow> 'k list \<Rightarrow> ('k \<times> ('k, 'v) setNode) list \<Rightarrow> 'v option result" where
  "findSubset lt p its (SetNode v cs) =
     rbind (holdsAt p v) (\<lambda>hit.
       if hit then Ok v
       else if its = [] then Ok None
       else subsetLoop lt p its (dropWhile (\<lambda>(k, c). lt k (hd its)) cs))"
| "subsetLoop lt p its [] = Ok None"
| "subsetLoop lt p [] cs = Ok None"
| "subsetLoop lt p (i # its) ((k, c) # cs) =
     (if lt i k then subsetLoop lt p its ((k, c) # cs)
      else if i = k
      then rbind (findSubset lt p its c) (\<lambda>res. if res \<noteq> None \<or> its = [] then Ok res else subsetLoop lt p its ((k, c) # cs))
      else subsetLoop lt p (i # its) cs)"
  by pat_completeness auto
termination
  by (relation "measure (\<lambda>x. case x of Inl (lt, p, its, n) \<Rightarrow> length its + size n | Inr (lt, p, its, cs) \<Rightarrow> length its + childrenSize cs)")
    (auto simp: size_childrenSize le_imp_less_Suc trans_le_add2 [OF childrenSize_dropWhile] simp del: setNode.size)

function (sequential) findSuperset :: "('k \<Rightarrow> 'k \<Rightarrow> bool) \<Rightarrow> ('v \<Rightarrow> bool result) \<Rightarrow> 'k list \<Rightarrow> ('k, 'v) setNode \<Rightarrow> 'v option result"
  and supersetLoop :: "('k \<Rightarrow> 'k \<Rightarrow> bool) \<Rightarrow> ('v \<Rightarrow> bool result) \<Rightarrow> 'k list \<Rightarrow> ('k \<times> ('k, 'v) setNode) list \<Rightarrow> 'v option result" where
  "findSuperset lt p [] (SetNode v cs) = rbind (holdsAt p v) (\<lambda>hit. if hit then Ok v else supersetLoop lt p [] cs)"
| "findSuperset lt p (i # its) (SetNode v cs) =
     rbind (supersetLoop lt p (i # its) cs) (\<lambda>res.
       if res \<noteq> None then Ok res
       else (case dropWhile (\<lambda>(k, c). lt k i) cs of
               [] \<Rightarrow> Ok None
             | kc # rest \<Rightarrow> if i = fst kc then findSuperset lt p its (snd kc) else Ok None))"
| "supersetLoop lt p its [] = Ok None"
| "supersetLoop lt p its ((k, c) # cs) = rbind (findSuperset lt p its c) (\<lambda>res. if res \<noteq> None then Ok res else supersetLoop lt p its cs)"
  by pat_completeness auto
termination
  by (relation "measure (\<lambda>x. case x of Inl (lt, p, its, n) \<Rightarrow> size n | Inr (lt, p, its, cs) \<Rightarrow> childrenSize cs)")
    (auto dest: childrenSize_dropped simp: size_childrenSize simp del: setNode.size)

text \<open>The enumerations of all subsets and all supersets, with the elements on the path so far.\<close>

function (sequential) findSubsets :: "'k list \<Rightarrow> 'k list \<Rightarrow> ('k, 'v) setNode \<Rightarrow> ('k list \<times> 'v) list"
  and subsetsFrom :: "'k list \<Rightarrow> 'k list \<Rightarrow> ('k \<times> ('k, 'v) setNode) list \<Rightarrow> ('k list \<times> 'v) list" where
  "findSubsets accum its (SetNode v cs) = (case v of Some x \<Rightarrow> [(accum, x)] | None \<Rightarrow> []) @ subsetsFrom accum its cs"
| "subsetsFrom accum [] cs = []"
| "subsetsFrom accum (i # its) cs =
     (case map_of cs i of Some c \<Rightarrow> findSubsets (accum @ [i]) its c | None \<Rightarrow> []) @ subsetsFrom accum its cs"
  by pat_completeness auto
termination
  by (relation "measure (\<lambda>x. case x of Inl (a, its, n) \<Rightarrow> Suc (2 * length its) | Inr (a, its, cs) \<Rightarrow> 2 * length its)") auto

function (sequential) findSupersets :: "('k \<Rightarrow> 'k \<Rightarrow> bool) \<Rightarrow> 'k list \<Rightarrow> 'k list \<Rightarrow> ('k, 'v) setNode \<Rightarrow> ('k list \<times> 'v) list"
  and supersetsFrom :: "('k \<Rightarrow> 'k \<Rightarrow> bool) \<Rightarrow> 'k list \<Rightarrow> 'k list \<Rightarrow> ('k \<times> ('k, 'v) setNode) list \<Rightarrow> ('k list \<times> 'v) list" where
  "findSupersets lt accum its (SetNode v cs) =
     (if its = [] then (case v of Some x \<Rightarrow> [(accum, x)] | None \<Rightarrow> []) else []) @ supersetsFrom lt accum its cs"
| "supersetsFrom lt accum its [] = []"
| "supersetsFrom lt accum [] ((k, c) # cs) = findSupersets lt (accum @ [k]) [] c @ supersetsFrom lt accum [] cs"
| "supersetsFrom lt accum (i # its) ((k, c) # cs) =
     (if i = k then findSupersets lt (accum @ [k]) its c @ supersetsFrom lt accum (i # its) cs
      else if lt k i then findSupersets lt (accum @ [k]) (i # its) c @ supersetsFrom lt accum (i # its) cs
      else [])"
  by pat_completeness auto
termination
  by (relation "measure (\<lambda>x. case x of Inl (lt, a, its, n) \<Rightarrow> size n | Inr (lt, a, its, cs) \<Rightarrow> childrenSize cs)")
    (auto simp: size_childrenSize simp del: setNode.size)

definition subsets :: "'k list \<Rightarrow> ('k, 'v) setNode \<Rightarrow> ('k list \<times> 'v) list" where
  "subsets ks n = findSubsets [] ks n"

definition supersets :: "('k \<Rightarrow> 'k \<Rightarrow> bool) \<Rightarrow> 'k list \<Rightarrow> ('k, 'v) setNode \<Rightarrow> ('k list \<times> 'v) list" where
  "supersets lt ks n = findSupersets lt [] ks n"

section \<open>Sets as sorted lists\<close>

text \<open>The order of the elements, on the elements that occur.\<close>

locale set_order =
  fixes lt :: "'k \<Rightarrow> 'k \<Rightarrow> bool" and D :: "'k set"
  assumes irrefl: "a \<in> D \<Longrightarrow> \<not> lt a a"
    and trans: "a \<in> D \<Longrightarrow> b \<in> D \<Longrightarrow> c \<in> D \<Longrightarrow> lt a b \<Longrightarrow> lt b c \<Longrightarrow> lt a c"
    and total: "a \<in> D \<Longrightarrow> b \<in> D \<Longrightarrow> a \<noteq> b \<Longrightarrow> lt a b \<or> lt b a"

definition isSet :: "('k \<Rightarrow> 'k \<Rightarrow> bool) \<Rightarrow> 'k set \<Rightarrow> 'k list \<Rightarrow> bool" where
  "isSet lt D ks \<longleftrightarrow> sorted_wrt lt ks \<and> set ks \<subseteq> D"

lemma isSet_simps [simp]: "isSet lt D []" "isSet lt D (k # ks) \<longleftrightarrow> k \<in> D \<and> (\<forall>x \<in> set ks. lt k x) \<and> isSet lt D ks"
  by (auto simp: isSet_def)

text \<open>The children of every node are in order.\<close>

fun sortedNode :: "('k \<Rightarrow> 'k \<Rightarrow> bool) \<Rightarrow> 'k set \<Rightarrow> ('k, 'v) setNode \<Rightarrow> bool" where
  "sortedNode lt D (SetNode v cs) \<longleftrightarrow> isSet lt D (map fst cs) \<and> (\<forall>x \<in> set cs. sortedNode lt D (snd x))"

definition setMapOK :: "('k \<Rightarrow> 'k \<Rightarrow> bool) \<Rightarrow> 'k set \<Rightarrow> ('k, 'v) setNode \<Rightarrow> bool" where
  "setMapOK lt D n \<longleftrightarrow> sortedNode lt D n \<and> (\<forall>ks v. lookupSet ks n = Some v \<longrightarrow> isSet lt D ks)"

lemma updateChild_keys: "set (map fst (updateChild lt k f cs)) = insert k (set (map fst cs))"
  by (induction lt k f cs rule: updateChild.induct) (simp_all add: insert_commute)

lemma updateChild_children:
  "\<forall>x \<in> set cs. Q (snd x) \<Longrightarrow> Q emptyNode \<Longrightarrow> (\<And>n. Q n \<Longrightarrow> Q (f n)) \<Longrightarrow> \<forall>x \<in> set (updateChild lt k f cs). Q (snd x)"
  by (induction lt k f cs rule: updateChild.induct) simp_all

lemma sortedNode_child: "sortedNode lt D n \<Longrightarrow> map_of (nodeChildren n) k = Some c \<Longrightarrow> sortedNode lt D c"
  by (cases n) (auto dest!: map_of_SomeD)

lemma map_of_dropWhile: "\<not> P k \<Longrightarrow> map_of (dropWhile (\<lambda>(k, c). P k) cs) k = map_of cs k"
  by (induction cs) auto

lemma isSet_dropWhile: "isSet lt D (map fst cs) \<Longrightarrow> isSet lt D (map fst (dropWhile P cs))"
  by (induction cs) auto

lemma lookup_childless: "lookupSet ks (SetNode None []) = None"
  by (cases ks) simp_all

lemma lookup_subseq_Nil: "subseq ks [] \<Longrightarrow> lookupSet ks (SetNode None cs) = None"
  by (cases ks) simp_all

lemma lookup_first: "lookupSet (k # ks) (SetNode v cs) = lookupSet (k # ks) (SetNode w cs)"
  by simp

text \<open>What the two searches promise.\<close>

definition subsetResult :: "('v \<Rightarrow> bool) \<Rightarrow> 'k list \<Rightarrow> ('k, 'v) setNode \<Rightarrow> 'v option \<Rightarrow> bool" where
  "subsetResult P its n r =
     (case r of
        Some v \<Rightarrow> P v \<and> (\<exists>ks. subseq ks its \<and> lookupSet ks n = Some v)
      | None \<Rightarrow> \<forall>ks v. subseq ks its \<and> lookupSet ks n = Some v \<longrightarrow> \<not> P v)"

definition supersetResult :: "('v \<Rightarrow> bool) \<Rightarrow> 'k list \<Rightarrow> ('k, 'v) setNode \<Rightarrow> 'v option \<Rightarrow> bool" where
  "supersetResult P its n r =
     (case r of
        Some v \<Rightarrow> P v \<and> (\<exists>ks. subseq its ks \<and> lookupSet ks n = Some v)
      | None \<Rightarrow> \<forall>ks v. subseq its ks \<and> lookupSet ks n = Some v \<longrightarrow> \<not> P v)"

context set_order
begin

lemma asym: "a \<in> D \<Longrightarrow> b \<in> D \<Longrightarrow> lt a b \<Longrightarrow> \<not> lt b a"
  using irrefl trans by blast

lemma isSet_distinct: "isSet lt D ks \<Longrightarrow> distinct ks"
proof (induction ks)
  case (Cons k ks)
  then show ?case using irrefl by auto
qed simp

lemma subset_subseq:
  "isSet lt D xs \<Longrightarrow> isSet lt D ys \<Longrightarrow> subseq xs ys \<longleftrightarrow> set xs \<subseteq> set ys"
proof (induction ys arbitrary: xs)
  case (Cons y ys)
  show ?case
  proof (cases xs)
    case (Cons x xs')
    note prems = Cons.prems [unfolded Cons]
    have D: "x \<in> D" "y \<in> D" "set ys \<subseteq> D" "\<forall>z \<in> set ys. lt y z" "\<forall>z \<in> set xs'. lt x z" using prems by (auto simp: isSet_def)
    show ?thesis
    proof (cases "x = y")
      case True
      have "y \<notin> set xs'" using D irrefl True by blast
      then have "set xs' \<subseteq> set (y # ys) \<longleftrightarrow> set xs' \<subseteq> set ys" by auto
      then show ?thesis using Cons.IH [of xs'] prems True unfolding Cons by auto
    next
      case False
      have "y \<in> set (x # xs') \<Longrightarrow> x \<notin> set (y # ys)" using D False asym by (metis set_ConsD subsetD)
      then have "set (x # xs') \<subseteq> set (y # ys) \<longleftrightarrow> set (x # xs') \<subseteq> set ys" by auto
      then show ?thesis using Cons.IH [of "x # xs'"] prems False unfolding Cons by auto
    qed
  qed simp
qed auto

subsection \<open>Insertion and lookup\<close>

lemma updateChild_sorted: "k \<in> D \<Longrightarrow> isSet lt D (map fst cs) \<Longrightarrow> isSet lt D (map fst (updateChild lt k f cs))"
proof (induction cs)
  case (Cons x cs)
  obtain k' n where x: "x = (k', n)" by (cases x)
  have D: "k' \<in> D" "\<forall>z \<in> fst ` set cs. lt k' z \<and> z \<in> D" "isSet lt D (map fst cs)" using Cons.prems(2) by (auto simp: x isSet_def)
  have keys: "fst ` set (updateChild lt k f cs) = insert k (fst ` set cs)" using updateChild_keys [of lt k f cs] by simp
  have "lt k z" if "lt k k'" "z \<in> fst ` set cs" for z using D(1,2) trans Cons.prems(1) that by blast
  moreover have "lt k' k" if "k \<noteq> k'" "\<not> lt k k'" using total Cons.prems(1) D(1) that by blast
  ultimately show ?case using Cons D keys by (auto simp: x)
qed simp

lemma updateChild_map:
  "k \<in> D \<Longrightarrow> isSet lt D (map fst cs) \<Longrightarrow>
   map_of (updateChild lt k f cs) k' = (if k' = k then Some (f (case map_of cs k of Some c \<Rightarrow> c | None \<Rightarrow> emptyNode)) else map_of cs k')"
proof (induction cs)
  case (Cons x cs)
  obtain l n where x: "x = (l, n)" by (cases x)
  have "map_of cs k = None" if "lt k l" "k \<noteq> l"
  proof -
    have "k \<notin> fst ` set cs" using Cons.prems that asym by (fastforce simp: x isSet_def)
    then show ?thesis by (simp add: map_of_eq_None_iff)
  qed
  with Cons show ?case by (auto simp: x)
qed simp

lemma insertSet_lookup:
  "isSet lt D ks \<Longrightarrow> sortedNode lt D n \<Longrightarrow> lookupSet ks' (insertSet lt ks v n) = (if ks' = ks then Some v else lookupSet ks' n)"
proof (induction ks arbitrary: n ks')
  case Nil
  show ?case by (cases ks') simp_all
next
  case (Cons k ks)
  obtain w cs where n: "n = SetNode w cs" by (cases n)
  have e: "lookupSet l emptyNode = None" for l :: "'k list" by (cases l) (simp_all add: emptyNode_def)
  have se: "sortedNode lt D emptyNode" by (simp add: emptyNode_def)
  show ?case
  proof (cases ks')
    case (Cons k1 ks1)
    have cs: "isSet lt D (map fst cs)" using Cons.prems(2) by (simp add: n)
    let ?c = "case map_of cs k of Some c \<Rightarrow> c | None \<Rightarrow> emptyNode"
    have "sortedNode lt D ?c" using sortedNode_child [OF Cons.prems(2), of k] se by (auto simp: n split: option.split)
    from Cons.IH [OF _ this, of ks1] Cons.prems(1) updateChild_map [OF _ cs, of k "insertSet lt ks v" k1] show ?thesis
      unfolding Cons n using e by (auto split: option.split)
  qed (simp add: n)
qed

lemma insertSet_sorted: "isSet lt D ks \<Longrightarrow> sortedNode lt D n \<Longrightarrow> sortedNode lt D (insertSet lt ks v n)"
proof (induction ks arbitrary: n)
  case Nil
  then show ?case by (cases n) simp
next
  case (Cons k ks)
  obtain w cs where n: "n = SetNode w cs" by (cases n)
  have se: "sortedNode lt D emptyNode" by (simp add: emptyNode_def)
  have "\<forall>x \<in> set (updateChild lt k (insertSet lt ks v) cs). sortedNode lt D (snd x)"
    by (rule updateChild_children) (use Cons.prems Cons.IH se in \<open>auto simp: n\<close>)
  then show ?case using updateChild_sorted [of k cs "insertSet lt ks v"] Cons.prems by (simp add: n)
qed

subsection \<open>Searches\<close>

lemma subseq_Cons_lookup:
  assumes "\<And>ks'. ks = i # ks' \<Longrightarrow> subseq ks' its \<Longrightarrow> lookupSet ks n \<noteq> Some v" "subseq ks (i # its)" "lookupSet ks n = Some v"
  shows "subseq ks its"
  using assms by (cases ks) (auto split: if_splits)

lemma smaller_absent:
  assumes "isSet lt D (map fst ((k, c) # cs))" "i \<in> D" "lt i k"
  shows "map_of ((k, c) # cs) i = None"
proof -
  have "k \<in> D" "\<forall>x \<in> fst ` set cs. lt k x \<and> x \<in> D" using assms(1) by (auto simp: isSet_def)
  then have "i \<noteq> k" "\<forall>x \<in> fst ` set cs. i \<noteq> x" using assms(2,3) irrefl trans asym by metis+
  then show ?thesis by (auto simp: map_of_eq_None_iff)
qed

end

lemma subseq_set: "subseq xs ys \<Longrightarrow> set xs \<subseteq> set ys"
  by (induction rule: list_emb.induct) auto

lemma subsetResult_cong:
  assumes "\<And>ks. subseq ks its \<Longrightarrow> ks \<noteq> [] \<Longrightarrow> lookupSet ks n = lookupSet ks n'" "nodeValue n = None \<or> \<not> P (the (nodeValue n))" "nodeValue n' = None"
    and "subsetResult P its n' r"
  shows "subsetResult P its n r"
proof (cases r)
  case None
  have "\<not> P v" if "subseq ks its" "lookupSet ks n = Some v" for ks v
    using that assms None by (cases "ks = []") (auto simp: subsetResult_def)
  then show ?thesis using None by (auto simp: subsetResult_def)
next
  case (Some v)
  then obtain ks where ks: "P v" "subseq ks its" "lookupSet ks n' = Some v" using assms(4) by (auto simp: subsetResult_def)
  then have "ks \<noteq> []" using assms(3) by auto
  with ks assms(1) show ?thesis using Some by (auto simp: subsetResult_def)
qed

lemma subset_extend:
  assumes "subsetResult P its (SetNode None ((k, c) # cs)) r" "\<And>ks v. subseq ks its \<Longrightarrow> lookupSet (i # ks) (SetNode None ((k, c) # cs)) = Some v \<Longrightarrow> \<not> P v"
  shows "subsetResult P (i # its) (SetNode None ((k, c) # cs)) r"
proof (cases r)
  case None
  have "\<not> P v" if sub: "subseq ks (i # its)" "lookupSet ks (SetNode None ((k, c) # cs)) = Some v" for ks v
  proof (cases "subseq ks its")
    case True
    then show ?thesis using assms(1) None sub(2) by (auto simp: subsetResult_def)
  next
    case False
    then obtain ks' where "ks = i # ks'" "subseq ks' its" using sub(1) by (cases ks) (auto split: if_splits)
    then show ?thesis using assms(2) sub(2) by blast
  qed
  then show ?thesis unfolding subsetResult_def None option.case by blast
next
  case (Some v)
  then show ?thesis using assms(1) by (auto simp: subsetResult_def)
qed

lemma subset_skip_child:
  assumes "set_order lt D" "isSet lt D (i # its)" "isSet lt D (map fst ((k, c) # cs))" "\<not> lt i k" "i \<noteq> k" "subsetResult P (i # its) (SetNode None cs) r"
  shows "subsetResult P (i # its) (SetNode None ((k, c) # cs)) r"
proof (rule subsetResult_cong [OF _ _ _ assms(6)])
  fix ks assume ks: "subseq ks (i # its)" "ks \<noteq> []"
  have D: "i \<in> D" "k \<in> D" "\<forall>x \<in> set its. x \<in> D \<and> lt i x" using assms(2,3) by (auto simp: isSet_def)
  have "lt k i" using set_order.total [OF assms(1) D(1,2) assms(5)] assms(4) by blast
  then have "k \<notin> set its" using D set_order.asym [OF assms(1)] by blast
  moreover have "set ks \<subseteq> set (i # its)" using subseq_set [OF ks(1)] .
  ultimately show "lookupSet ks (SetNode None ((k, c) # cs)) = lookupSet ks (SetNode None cs)"
    using ks(2) assms(5) by (cases ks) auto
qed simp_all

lemma findSubset_search:
  shows "set_order lt D \<Longrightarrow> \<forall>x \<in> nodeValues n. p x = Ok (P x) \<Longrightarrow> sortedNode lt D n \<Longrightarrow> isSet lt D its \<Longrightarrow>
      \<exists>r. findSubset lt p its n = Ok r \<and> subsetResult P its n r"
    and "set_order lt D \<Longrightarrow> \<forall>x \<in> nodeValues (SetNode None cs). p x = Ok (P x) \<Longrightarrow> sortedNode lt D (SetNode None cs) \<Longrightarrow> isSet lt D its \<Longrightarrow>
      \<exists>r. subsetLoop lt p its cs = Ok r \<and> subsetResult P its (SetNode None cs) r"
proof (induction lt p its n and lt p its cs rule: findSubset_subsetLoop.induct)
  case (1 lt p its v cs)
  show ?case
  proof (cases "\<exists>x. v = Some x \<and> P x")
    case True
    then obtain x where x: "v = Some x" "P x" by blast
    have "lookupSet [] (SetNode v cs) = Some x" by (simp add: x)
    then have "subsetResult P its (SetNode v cs) (Some x)" using x(2) unfolding subsetResult_def by (auto intro: exI [of _ "[]"])
    then show ?thesis using x 1(3) by (simp add: holdsAt_def)
  next
    case False
    then have hit: "holdsAt p v = Ok False" using 1(3) by (auto simp: holdsAt_def split: option.split)
    show ?thesis
    proof (cases its)
      case Nil
      have "\<not> P w" if "subseq ks []" "lookupSet ks (SetNode v cs) = Some w" for ks w using that False by (cases ks) auto
      then have "subsetResult P [] (SetNode v cs) None" by (auto simp: subsetResult_def)
      then show ?thesis using hit Nil by simp
    next
      case (Cons i its')
      let ?cs = "dropWhile (\<lambda>(k, c). lt k i) cs"
      have "sortedNode lt D (SetNode None ?cs)" using 1(4) isSet_dropWhile [of lt D cs] by (auto dest: set_dropWhileD)
      moreover have "\<forall>x \<in> nodeValues (SetNode None ?cs). p x = Ok (P x)" using 1(3) by (auto dest!: set_dropWhileD)
      ultimately obtain r where r: "subsetLoop lt p its ?cs = Ok r" "subsetResult P its (SetNode None ?cs) r"
        using 1(1) [OF _ _ 1(2) _ _ 1(5), of False] Cons by auto
      have "subsetResult P its (SetNode v cs) r"
      proof (rule subsetResult_cong [OF _ _ _ r(2)])
        fix ks assume ks: "subseq ks its" "ks \<noteq> []"
        then have "hd ks \<in> set its" using subseq_set hd_in_set by blast
        then have "\<not> lt (hd ks) i" using 1(2,5) Cons set_order.asym [OF 1(2)] set_order.irrefl [OF 1(2)] by (auto simp: isSet_def)
        then show "lookupSet ks (SetNode v cs) = lookupSet ks (SetNode None ?cs)"
          using ks(2) map_of_dropWhile [of "\<lambda>k. lt k i" "hd ks" cs] by (cases ks) auto
      qed (use False in auto)
      then show ?thesis using hit r(1) Cons by simp
    qed
  qed
next
  case (2 lt p its)
  show ?case by (simp add: subsetResult_def lookup_childless)
next
  case (3 lt p x cs)
  show ?case by (auto simp: subsetResult_def lookup_subseq_Nil)
next
  case (4 lt p i its k c cs)
  note ord = 4(5)
  have p: "\<forall>x \<in> nodeValues c. p x = Ok (P x)" "\<forall>x \<in> nodeValues (SetNode None cs). p x = Ok (P x)" using 4(6) by auto
  have D: "isSet lt D (map fst ((k, c) # cs))" "sortedNode lt D c" "sortedNode lt D (SetNode None cs)" "isSet lt D its" "i \<in> D" using 4(7,8) by auto
  consider "lt i k" | "\<not> lt i k" "i = k" | "\<not> lt i k" "i \<noteq> k" by blast
  then show ?case
  proof cases
    case 1
    then obtain r where r: "subsetLoop lt p its ((k, c) # cs) = Ok r" "subsetResult P its (SetNode None ((k, c) # cs)) r"
      using 4(1) [OF 1 ord 4(6,7) D(4)] by blast
    have "subsetResult P (i # its) (SetNode None ((k, c) # cs)) r"
      using subset_extend [OF r(2), of i] set_order.smaller_absent [OF ord D(1,5) 1] by simp
    then show ?thesis using r(1) 1 by simp
  next
    case 2
    then obtain rc where rc: "findSubset lt p its c = Ok rc" "subsetResult P its c rc" using 4(2) [OF 2 ord p(1) D(2,4)] by blast
    show ?thesis
    proof (cases rc)
      case (Some v)
      then obtain ks where "P v" "subseq ks its" "lookupSet ks c = Some v" using rc(2) by (auto simp: subsetResult_def)
      then have "subsetResult P (i # its) (SetNode None ((k, c) # cs)) (Some v)"
        unfolding subsetResult_def using 2(2) by (auto intro!: exI [of _ "i # ks"])
      then show ?thesis using 2 rc(1) Some by simp
    next
      case None
      obtain r where r: "its \<noteq> [] \<Longrightarrow> subsetLoop lt p its ((k, c) # cs) = Ok r" "its = [] \<Longrightarrow> r = None" "subsetResult P its (SetNode None ((k, c) # cs)) r"
      proof (cases "its = []")
        case True
        then have "subsetResult P its (SetNode None ((k, c) # cs)) None" by (auto simp: subsetResult_def lookup_subseq_Nil)
        then show thesis using that [of None] True by blast
      next
        case False
        then show thesis using 4(3) [of None, OF 2 _ ord 4(6,7) D(4)] that by auto
      qed
      have "subsetResult P (i # its) (SetNode None ((k, c) # cs)) r"
        using subset_extend [OF r(3), of i] rc(2) None 2(2) by (auto simp: subsetResult_def)
      then show ?thesis using 2 rc(1) None r(1,2) by auto
    qed
  next
    case 3
    then obtain r where r: "subsetLoop lt p (i # its) cs = Ok r" "subsetResult P (i # its) (SetNode None cs) r"
      using 4(4) [OF 3 ord p(2) D(3) 4(8)] by blast
    with subset_skip_child [OF ord 4(8) D(1) 3 r(2)] 3 show ?thesis by simp
  qed
qed

text \<open>Supersets: a child may have an element that is not asked for.\<close>

definition supersetKids :: "('v \<Rightarrow> bool) \<Rightarrow> 'k list \<Rightarrow> ('k \<times> ('k, 'v) setNode) list \<Rightarrow> 'v option \<Rightarrow> bool" where
  "supersetKids P its cs r =
     (case r of
        Some v \<Rightarrow> \<exists>x \<in> set cs. supersetResult P its (snd x) (Some v)
      | None \<Rightarrow> \<forall>x \<in> set cs. supersetResult P its (snd x) None)"

lemma supersetResult_Some: "supersetResult P its n (Some v) \<longleftrightarrow> P v \<and> (\<exists>ks. subseq its ks \<and> lookupSet ks n = Some v)"
  and supersetResult_None: "supersetResult P its n None \<longleftrightarrow> (\<forall>ks v. subseq its ks \<and> lookupSet ks n = Some v \<longrightarrow> \<not> P v)"
  by (simp_all add: supersetResult_def)

lemma map_of_child: "distinct (map fst cs) \<Longrightarrow> x \<in> set cs \<Longrightarrow> map_of cs (fst x) = Some (snd x)"
  by (cases x) simp

lemma superset_Nil:
  assumes "distinct (map fst cs)" "supersetKids P [] cs r" "\<And>x. v = Some x \<Longrightarrow> \<not> P x"
  shows "supersetResult P [] (SetNode v cs) r"
proof (cases r)
  case None
  have "\<not> P w" if "lookupSet ks (SetNode v cs) = Some w" for ks w
    using that assms(2,3) None
    by (cases ks) (auto simp: supersetKids_def supersetResult_None split: option.splits dest!: map_of_SomeD)
  then show ?thesis using None by (auto simp: supersetResult_None)
next
  case (Some w)
  then obtain x ks where "x \<in> set cs" "P w" "lookupSet ks (snd x) = Some w" using assms(2) by (auto simp: supersetKids_def supersetResult_Some)
  then have "P w \<and> lookupSet (fst x # ks) (SetNode v cs) = Some w" using map_of_child [OF assms(1)] by simp
  then show ?thesis unfolding Some supersetResult_Some by blast
qed

lemma superset_found:
  assumes "distinct (map fst cs)" "supersetKids P (i # its) cs (Some w)"
  shows "supersetResult P (i # its) (SetNode v cs) (Some w)"
proof -
  obtain x ks where x: "x \<in> set cs" "P w" "subseq (i # its) ks" "lookupSet ks (snd x) = Some w"
    using assms(2) by (auto simp: supersetKids_def supersetResult_Some)
  then have "P w \<and> subseq (i # its) (fst x # ks) \<and> lookupSet (fst x # ks) (SetNode v cs) = Some w"
    using map_of_child [OF assms(1) x(1)] by (auto dest: subseq_Cons')
  then show ?thesis unfolding supersetResult_Some by blast
qed

lemma superset_other:
  assumes kids: "supersetKids P (i # its) cs None" and r: "case map_of cs i of None \<Rightarrow> r = None | Some c \<Rightarrow> supersetResult P its c r"
  shows "supersetResult P (i # its) (SetNode v cs) r"
proof (cases r)
  case (Some w)
  then obtain c ks where c: "map_of cs i = Some c" "P w" "subseq its ks" "lookupSet ks c = Some w" using r by (auto simp: supersetResult_Some split: option.splits)
  then have "P w \<and> subseq (i # its) (i # ks) \<and> lookupSet (i # ks) (SetNode v cs) = Some w" by simp
  then show ?thesis unfolding Some supersetResult_Some by blast
next
  case None
  have "\<not> P w" if sub: "subseq (i # its) ks" "lookupSet ks (SetNode v cs) = Some w" for ks w
  proof -
    obtain k ks' c where ks: "ks = k # ks'" "map_of cs k = Some c" "lookupSet ks' c = Some w" using sub by (cases ks) (auto split: option.splits)
    show ?thesis
    proof (cases "subseq (i # its) ks'")
      case True
      have "supersetResult P (i # its) c None" using kids map_of_SomeD [OF ks(2)] by (force simp: supersetKids_def)
      then show ?thesis using True ks(3) unfolding supersetResult_None by blast
    next
      case False
      then have "k = i" "subseq its ks'" using sub(1) ks(1) by (auto split: if_splits)
      then show ?thesis using r ks None by (auto simp: supersetResult_None)
    qed
  qed
  then show ?thesis unfolding None supersetResult_None by blast
qed

lemma dropWhile_map_of:
  assumes "set_order lt D" "isSet lt D (map fst cs)" "i \<in> D"
  shows "map_of cs i = (case dropWhile (\<lambda>(k, c). lt k i) cs of [] \<Rightarrow> None | kc # rest \<Rightarrow> if i = fst kc then Some (snd kc) else None)"
proof -
  have "\<not> lt i i" using set_order.irrefl [OF assms(1,3)] .
  then have m: "map_of cs i = map_of (dropWhile (\<lambda>(k, c). lt k i) cs) i" using map_of_dropWhile [of "\<lambda>k. lt k i" i cs] by simp
  show ?thesis
  proof (cases "dropWhile (\<lambda>(k, c). lt k i) cs")
    case (Cons kc rest)
    obtain k c where kc: "kc = (k, c)" by (cases kc)
    have set: "isSet lt D (map fst ((k, c) # rest))" using isSet_dropWhile [OF assms(2), of "\<lambda>(k, c). lt k i"] Cons kc by simp
    have "\<not> lt k i" using Cons kc hd_dropWhile [of "\<lambda>(k, c). lt k i" cs] by force
    then have "lt i k \<or> i = k" using set_order.total [OF assms(1,3), of k] set by auto
    then show ?thesis using m Cons kc set_order.smaller_absent [OF assms(1) set assms(3)] by auto
  next
    case Nil
    show ?thesis unfolding m Nil by simp
  qed
qed

lemma findSuperset_search:
  shows "set_order lt D \<Longrightarrow> \<forall>x \<in> nodeValues n. p x = Ok (P x) \<Longrightarrow> sortedNode lt D n \<Longrightarrow> isSet lt D its \<Longrightarrow>
      \<exists>r. findSuperset lt p its n = Ok r \<and> supersetResult P its n r"
    and "set_order lt D \<Longrightarrow> \<forall>x \<in> nodeValues (SetNode None cs). p x = Ok (P x) \<Longrightarrow> sortedNode lt D (SetNode None cs) \<Longrightarrow> isSet lt D its \<Longrightarrow>
      \<exists>r. supersetLoop lt p its cs = Ok r \<and> supersetKids P its cs r"
proof (induction lt p its n and lt p its cs rule: findSuperset_supersetLoop.induct)
  case (1 lt p v cs)
  have d: "distinct (map fst cs)" "sortedNode lt D (SetNode None cs)" using 1(4) set_order.isSet_distinct [OF 1(2)] by auto
  have p: "\<forall>x \<in> nodeValues (SetNode None cs). p x = Ok (P x)" using 1(3) by auto
  show ?case
  proof (cases "\<exists>x. v = Some x \<and> P x")
    case True
    then obtain x where x: "v = Some x" "P x" by blast
    then have "lookupSet [] (SetNode v cs) = Some x" by simp
    then have "supersetResult P [] (SetNode v cs) (Some x)" using x(2) unfolding supersetResult_Some by (blast intro: list_emb_Nil)
    then show ?thesis using x 1(3) by (simp add: holdsAt_def)
  next
    case False
    then have hit: "holdsAt p v = Ok False" using 1(3) by (auto simp: holdsAt_def split: option.split)
    obtain r where "supersetLoop lt p [] cs = Ok r" "supersetKids P [] cs r" using 1(1) [OF _ 1(2) p d(2) 1(5), of False] by auto
    with superset_Nil [OF d(1)] hit False show ?thesis by auto
  qed
next
  case (2 lt p i its v cs)
  have d: "distinct (map fst cs)" "sortedNode lt D (SetNode None cs)" "isSet lt D (map fst cs)" "i \<in> D" "isSet lt D its"
    using 2(5,6) set_order.isSet_distinct [OF 2(3)] by auto
  have p: "\<forall>x \<in> nodeValues (SetNode None cs). p x = Ok (P x)" using 2(4) by auto
  obtain r1 where r1: "supersetLoop lt p (i # its) cs = Ok r1" "supersetKids P (i # its) cs r1" using 2(1) [OF 2(3) p d(2) 2(6)] by blast
  show ?case
  proof (cases "\<exists>c. r1 = None \<and> map_of cs i = Some c")
    case True
    then obtain c where c: "r1 = None" "map_of cs i = Some c" by blast
    then obtain rest where rest: "dropWhile (\<lambda>(k, c). lt k i) cs = (i, c) # rest"
      using dropWhile_map_of [OF 2(3) d(3,4)] by (auto split: list.splits if_splits)
    have "sortedNode lt D c" using sortedNode_child [OF 2(5)] c(2) by simp
    moreover have "\<forall>x \<in> nodeValues c. p x = Ok (P x)" using 2(4) map_of_SomeD [OF c(2)] by force
    ultimately obtain r2 where r2: "findSuperset lt p its c = Ok r2" "supersetResult P its c r2" using 2(2) [of None, OF _ rest _ 2(3) _ _ d(5)] by auto
    have "supersetResult P (i # its) (SetNode v cs) r2" using superset_other [OF r1(2) [unfolded c(1)], of r2] c(2) r2(2) by simp
    then show ?thesis using r1(1) c(1) rest r2(1) by simp
  next
    case False
    have "findSuperset lt p (i # its) (SetNode v cs) = Ok r1 \<and> supersetResult P (i # its) (SetNode v cs) r1"
    proof (cases r1)
      case None
      then have "map_of cs i = None" using False by auto
      moreover from this have "(case dropWhile (\<lambda>(k, c). lt k i) cs of [] \<Rightarrow> Ok None
          | kc # rest \<Rightarrow> if i = fst kc then findSuperset lt p its (snd kc) else Ok None) = Ok None"
        using dropWhile_map_of [OF 2(3) d(3,4)] by (auto simp del: dropWhile_eq_Nil_conv split: list.splits if_splits)
      ultimately show ?thesis using r1(1) None superset_other [OF r1(2) [unfolded None], of None] by simp
    next
      case (Some w)
      then show ?thesis using r1(1) superset_found [OF d(1) r1(2) [unfolded Some]] by simp
    qed
    then show ?thesis by blast
  qed
next
  case (3 lt p its)
  show ?case by (simp add: supersetKids_def)
next
  case (4 lt p its k c cs)
  have d: "sortedNode lt D c" "sortedNode lt D (SetNode None cs)" using 4(5) by auto
  have p: "\<forall>x \<in> nodeValues c. p x = Ok (P x)" "\<forall>x \<in> nodeValues (SetNode None cs). p x = Ok (P x)" using 4(4) by auto
  obtain rc where rc: "findSuperset lt p its c = Ok rc" "supersetResult P its c rc" using 4(1) [OF 4(3) p(1) d(1) 4(6)] by blast
  show ?case
  proof (cases rc)
    case (Some w)
    then show ?thesis using rc by (auto simp: supersetKids_def)
  next
    case None
    obtain r where r: "supersetLoop lt p its cs = Ok r" "supersetKids P its cs r" using 4(2) [of None, OF _ 4(3) p(2) d(2) 4(6)] by auto
    then show ?thesis using rc None by (cases r) (auto simp: supersetKids_def)
  qed
qed

text \<open>The enumerations.\<close>

lemma findSubsets_set:
  fixes n :: "('k, 'v) setNode" and cs :: "('k \<times> ('k, 'v) setNode) list"
  shows "set (findSubsets accum its n) = {(accum @ ks, v) |ks v. subseq ks its \<and> lookupSet ks n = Some v}"
    and "set (subsetsFrom accum its cs) = {(accum @ ks, v) |ks v. subseq ks its \<and> lookupSet ks (SetNode None cs) = Some v}"
proof (induction accum its n and accum its cs rule: findSubsets_subsetsFrom.induct)
  case (1 accum its v cs)
  have "lookupSet ks (SetNode v cs) = Some w \<longleftrightarrow> ks = [] \<and> v = Some w \<or> lookupSet ks (SetNode None cs) = Some w" for ks w
    by (cases ks) auto
  then show ?case using 1 by (auto split: option.split)
next
  case (2 accum cs)
  show ?case by (auto simp: lookup_subseq_Nil)
next
  case (3 accum i its cs)
  let ?n = "SetNode None cs :: ('k, 'v) setNode"
  have "subseq ks (i # its) \<and> lookupSet ks ?n = Some v \<longleftrightarrow>
      (\<exists>c ks'. map_of cs i = Some c \<and> ks = i # ks' \<and> subseq ks' its \<and> lookupSet ks' c = Some v) \<or> subseq ks its \<and> lookupSet ks ?n = Some v" for ks v
    by (cases ks) (auto split: option.splits if_splits dest: subseq_Cons')
  then show ?case using 3 by (cases "map_of cs i") auto
qed

lemma lookup_split: "lookupSet ks (SetNode v cs) = Some w \<longleftrightarrow> ks = [] \<and> v = Some w \<or> lookupSet ks (SetNode None cs) = Some w"
  by (cases ks) auto

lemma lookup_step:
  "lookupSet ks (SetNode None ((k, c) # cs)) = Some v \<longleftrightarrow>
    (\<exists>ks'. ks = k # ks' \<and> lookupSet ks' c = Some v) \<or> (ks = [] \<or> hd ks \<noteq> k) \<and> lookupSet ks (SetNode None cs) = Some v"
  by (cases ks) auto

lemma lookup_head: "lookupSet ks (SetNode None cs) = Some v \<Longrightarrow> ks \<noteq> [] \<and> hd ks \<in> fst ` set cs"
  by (cases ks) (auto split: option.splits dest!: map_of_SomeD intro: rev_image_eqI)

lemma setMapOK_child: "setMapOK lt D (SetNode v ((k, c) # cs)) \<Longrightarrow> setMapOK lt D c"
proof -
  assume ok: "setMapOK lt D (SetNode v ((k, c) # cs))"
  have "isSet lt D ks" if "lookupSet ks c = Some w" for ks w
  proof -
    have "lookupSet (k # ks) (SetNode v ((k, c) # cs)) = Some w" using that by simp
    then have "isSet lt D (k # ks)" using ok unfolding setMapOK_def by blast
    then show ?thesis by simp
  qed
  then show "setMapOK lt D c" using ok by (auto simp: setMapOK_def)
qed

lemma setMapOK_rest:
  assumes ord: "set_order lt D" and ok: "setMapOK lt D (SetNode v ((k, c) # cs))"
  shows "setMapOK lt D (SetNode None cs)"
proof -
  have s: "isSet lt D (map fst ((k, c) # cs))" using ok by (simp add: setMapOK_def)
  have "isSet lt D ks" if look: "lookupSet ks (SetNode None cs) = Some w" for ks w
  proof -
    have "k \<notin> fst ` set cs" using set_order.isSet_distinct [OF ord s] by simp
    then have "lookupSet ks (SetNode v ((k, c) # cs)) = Some w" using look lookup_head [OF look] by (cases ks) auto
    then show ?thesis using ok unfolding setMapOK_def by blast
  qed
  then show ?thesis using ok by (auto simp: setMapOK_def)
qed

text \<open>The supersets of a set are those at the first child and those at the others.\<close>

lemma supersets_split:
  assumes ord: "set_order lt D" and ok: "setMapOK lt D (SetNode None ((k, c) # cs))"
    and its: "\<And>ks. subseq its (k # ks) \<longleftrightarrow> subseq its' ks"
  shows "{(accum @ ks, v) |ks v. subseq its ks \<and> lookupSet ks (SetNode None ((k, c) # cs)) = Some v} =
    {((accum @ [k]) @ ks, v) |ks v. subseq its' ks \<and> lookupSet ks c = Some v} \<union>
    {(accum @ ks, v) |ks v. subseq its ks \<and> lookupSet ks (SetNode None cs) = Some v}"
proof -
  have "isSet lt D (map fst ((k, c) # cs))" using ok by (simp add: setMapOK_def)
  from set_order.isSet_distinct [OF ord this] have "k \<notin> fst ` set cs" by simp
  then have "ks = [] \<or> hd ks \<noteq> k" if "lookupSet ks (SetNode None cs) = Some v" for ks v using lookup_head [OF that] by auto
  then have "subseq its ks \<and> lookupSet ks (SetNode None ((k, c) # cs)) = Some v \<longleftrightarrow>
      (\<exists>ks'. ks = k # ks' \<and> subseq its' ks' \<and> lookupSet ks' c = Some v) \<or> subseq its ks \<and> lookupSet ks (SetNode None cs) = Some v" for ks v
    using its by (subst lookup_step) blast
  then show ?thesis by auto
qed

lemma superset_none:
  assumes ord: "set_order lt D" and ok: "setMapOK lt D (SetNode None ((k, c) # cs))" and i: "i \<in> D" "lt i k"
    and ks: "subseq (i # its) ks" "lookupSet ks (SetNode None ((k, c) # cs)) = Some v"
  shows False
proof -
  have s: "isSet lt D (map fst ((k, c) # cs))" "isSet lt D ks" using ok ks(2) unfolding setMapOK_def by auto
  obtain h t where h: "ks = h # t" "h \<in> insert k (fst ` set cs)" using lookup_head [OF ks(2)] by (cases ks) auto
  have D: "k \<in> D" "h \<in> D" "h = k \<or> lt k h" "\<forall>x \<in> set t. lt h x \<and> x \<in> D" using s h by (auto simp: isSet_def)
  then have ih: "lt i h" using i set_order.trans [OF ord] by blast
  have "i \<in> set ks" using subseq_set [OF ks(1)] by simp
  then consider "i = h" | "i \<in> set t" using h by auto
  then show False using ih D i set_order.irrefl [OF ord] set_order.asym [OF ord] by cases blast+
qed

lemma findSupersets_set:
  fixes n :: "('k, 'v) setNode" and cs :: "('k \<times> ('k, 'v) setNode) list"
  shows "set_order lt D \<Longrightarrow> setMapOK lt D n \<Longrightarrow> isSet lt D its \<Longrightarrow>
      set (findSupersets lt accum its n) = {(accum @ ks, v) |ks v. subseq its ks \<and> lookupSet ks n = Some v}"
    and "set_order lt D \<Longrightarrow> setMapOK lt D (SetNode None cs) \<Longrightarrow> isSet lt D its \<Longrightarrow>
      set (supersetsFrom lt accum its cs) = {(accum @ ks, v) |ks v. subseq its ks \<and> lookupSet ks (SetNode None cs) = Some v}"
proof (induction lt accum its n and lt accum its cs rule: findSupersets_supersetsFrom.induct)
  case (1 lt accum its v cs)
  have "setMapOK lt D (SetNode None cs)" using 1(3) lookup_split [of _ v cs] by (simp add: setMapOK_def)
  note IH = 1(1) [OF 1(2) this 1(4)]
  have "subseq its ks \<and> lookupSet ks (SetNode v cs) = Some w \<longleftrightarrow>
      its = [] \<and> ks = [] \<and> v = Some w \<or> subseq its ks \<and> lookupSet ks (SetNode None cs) = Some w" for ks w
    using lookup_split [of ks v cs w] by auto
  then have e: "{(accum @ ks, w) |ks w. subseq its ks \<and> lookupSet ks (SetNode v cs) = Some w} =
      {(accum, w) |w. its = [] \<and> v = Some w} \<union> {(accum @ ks, w) |ks w. subseq its ks \<and> lookupSet ks (SetNode None cs) = Some w}" by auto
  have "set (if its = [] then (case v of Some x \<Rightarrow> [(accum, x)] | None \<Rightarrow> []) else []) = {(accum, w) |w. its = [] \<and> v = Some w}" (is "?l = ?r")
  proof (rule set_eqI)
    fix x show "x \<in> ?l \<longleftrightarrow> x \<in> ?r" by (cases "its = []") (auto split: option.split)
  qed
  then show ?case unfolding findSupersets.simps set_append IH e by (rule arg_cong [where f = "\<lambda>A. A \<union> _"])
next
  case (2 lt accum its)
  show ?case by (simp add: lookup_childless)
next
  case (3 lt accum k c cs)
  show ?case
    using 3(1) [OF 3(3) setMapOK_child [OF 3(4)]] 3(2) [OF 3(3) setMapOK_rest [OF 3(3,4)]] supersets_split [OF 3(3,4), of "[]" "[]" accum] by simp
next
  case (4 lt accum i its k c cs)
  note child = setMapOK_child [OF 4(6)] and rest = setMapOK_rest [OF 4(5,6)]
  consider "i = k" | "i \<noteq> k" "lt k i" | "i \<noteq> k" "\<not> lt k i" by blast
  then show ?case
  proof cases
    case 1
    then show ?thesis using 4(1) [OF 1 4(5) child] 4(2) [OF 1 4(5) rest 4(7)] 4(7) supersets_split [OF 4(5,6), of "i # its" its accum] by simp
  next
    case 2
    have "subseq (i # its) (k # ks) \<longleftrightarrow> subseq (i # its) ks" for ks using 2(1) by simp
    from supersets_split [OF 4(5,6) this, of accum] show ?thesis
      using 4(3) [OF 2 4(5) child 4(7)] 4(4) [OF 2 4(5) rest 4(7)] 2 by simp
  next
    case 3
    have "lt i k" using set_order.total [OF 4(5), of i k] 3 4(6,7) by (auto simp: setMapOK_def)
    then have "\<not> (subseq (i # its) ks \<and> lookupSet ks (SetNode None ((k, c) # cs)) = Some v)" for ks v
      using superset_none [OF 4(5,6)] 4(7) by auto
    then show ?thesis using 3 by (simp del: lookupSet.simps)
  qed
qed

section \<open>The map\<close>

lemma lookup_emptyNode [simp]: "lookupSet ks emptyNode = None"
  by (cases ks) (simp_all add: emptyNode_def)

lemma setMapOK_emptyNode: "setMapOK lt D emptyNode"
proof -
  have "sortedNode lt D emptyNode" by (simp add: emptyNode_def)
  then show ?thesis by (simp add: setMapOK_def)
qed

lemma insertSet_OK: "set_order lt D \<Longrightarrow> isSet lt D ks \<Longrightarrow> setMapOK lt D n \<Longrightarrow> setMapOK lt D (insertSet lt ks v n)"
  using set_order.insertSet_lookup [of lt D ks n _ v] set_order.insertSet_sorted [of lt D ks n v] by (auto simp: setMapOK_def split: if_splits)

lemma updateChild_values:
  assumes "\<And>n. nodeValues (f n) \<subseteq> nodeValues n \<union> V" "x \<in> set (updateChild lt k f cs)"
  shows "nodeValues (snd x) \<subseteq> (\<Union>y \<in> set cs. nodeValues (snd y)) \<union> V"
  using assms(2)
proof (induction cs)
  case Nil
  then show ?case using assms(1) [of emptyNode] by (simp add: emptyNode_def)
next
  case (Cons y cs)
  obtain k' n where y: "y = (k', n)" by (cases y)
  consider "x = (k', f n)" | "x = (k, f emptyNode)" | "x \<in> set (y # cs)" | "x \<in> set (updateChild lt k f cs)"
    using Cons.prems by (auto simp: y split: if_splits)
  then show ?case
  proof cases
    case 1
    then show ?thesis using assms(1) [of n] by (auto simp: y)
  next
    case 2
    then show ?thesis using assms(1) [of emptyNode] by (auto simp: emptyNode_def)
  qed (use Cons.IH in auto)
qed

lemma insertSet_values: "nodeValues (insertSet lt ks v n) \<subseteq> nodeValues n \<union> {v}"
proof (induction ks arbitrary: n)
  case Nil
  then show ?case by (cases n) auto
next
  case (Cons k ks)
  obtain w cs where n: "n = SetNode w cs" by (cases n)
  show ?case using updateChild_values [of "insertSet lt ks v" "{v}" _ lt k cs, OF Cons.IH] unfolding n by fastforce
qed

lemma lookup_value: "lookupSet ks n = Some v \<Longrightarrow> v \<in> nodeValues n"
proof (induction ks arbitrary: n)
  case Nil
  then show ?case by (cases n) simp
next
  case (Cons k ks)
  obtain w cs where n: "n = SetNode w cs" by (cases n)
  from Cons.prems obtain c where "map_of cs k = Some c" "lookupSet ks c = Some v" by (auto simp: n split: option.splits)
  then show ?case using Cons.IH map_of_SomeD [of cs k c] by (force simp: n)
qed

text \<open>The searches, in terms of sets.\<close>

lemma stored_subset:
  assumes "set_order lt D" "setMapOK lt D n" "isSet lt D ks" "lookupSet ks' n = Some v"
  shows "subseq ks' ks \<longleftrightarrow> set ks' \<subseteq> set ks" "subseq ks ks' \<longleftrightarrow> set ks \<subseteq> set ks'"
proof -
  have "isSet lt D ks'" using assms(2,4) unfolding setMapOK_def by blast
  then show "subseq ks' ks \<longleftrightarrow> set ks' \<subseteq> set ks" "subseq ks ks' \<longleftrightarrow> set ks \<subseteq> set ks'"
    using set_order.subset_subseq [OF assms(1)] assms(3) by blast+
qed

definition foundIn :: "('v \<Rightarrow> bool) \<Rightarrow> 'v set \<Rightarrow> 'v option \<Rightarrow> bool" where
  "foundIn P V r = (case r of Some v \<Rightarrow> v \<in> V \<and> P v | None \<Rightarrow> \<forall>v \<in> V. \<not> P v)"

lemma findSubset_found:
  assumes "set_order lt D" "setMapOK lt D n" "isSet lt D ks" "\<forall>x \<in> nodeValues n. p x = Ok (P x)"
  shows "\<exists>r. findSubset lt p ks n = Ok r \<and> foundIn P {v. \<exists>ks'. set ks' \<subseteq> set ks \<and> lookupSet ks' n = Some v} r"
proof -
  have "sortedNode lt D n" using assms(2) by (simp add: setMapOK_def)
  from findSubset_search(1) [OF assms(1,4) this assms(3)] obtain r where r: "findSubset lt p ks n = Ok r" "subsetResult P ks n r" by blast
  have "foundIn P {v. \<exists>ks'. set ks' \<subseteq> set ks \<and> lookupSet ks' n = Some v} r"
    using r(2) stored_subset(1) [OF assms(1-3)] by (cases r) (auto simp: subsetResult_def foundIn_def)
  with r(1) show ?thesis by blast
qed

lemma findSuperset_found:
  assumes "set_order lt D" "setMapOK lt D n" "isSet lt D ks" "\<forall>x \<in> nodeValues n. p x = Ok (P x)"
  shows "\<exists>r. findSuperset lt p ks n = Ok r \<and> foundIn P {v. \<exists>ks'. set ks \<subseteq> set ks' \<and> lookupSet ks' n = Some v} r"
proof -
  have "sortedNode lt D n" using assms(2) by (simp add: setMapOK_def)
  from findSuperset_search(1) [OF assms(1,4) this assms(3)] obtain r where r: "findSuperset lt p ks n = Ok r" "supersetResult P ks n r" by blast
  have "foundIn P {v. \<exists>ks'. set ks \<subseteq> set ks' \<and> lookupSet ks' n = Some v} r"
    using r(2) stored_subset(2) [OF assms(1-3)] by (cases r) (auto simp: supersetResult_def foundIn_def)
  with r(1) show ?thesis by blast
qed

interpretation natural_order: set_order "(<) :: 'a::linorder \<Rightarrow> 'a \<Rightarrow> bool" UNIV
  by unfold_locales auto

section \<open>Properties\<close>

text \<open>
  C35: \<open>MapOfSets\<close> is a map from sets: it is empty after \<open>clear\<close>; inserting a set changes its value only, and keeps the invariant
  of the tree. \<open>findSubset\<close> and \<open>findSuperset\<close> find a value that satisfies the predicate whenever there
  is one at a subset or superset of the given set, and the enumerations list exactly the subsets and
  supersets that are present, with their values.
\<close>

theorem MapOfSets_correct:
  assumes "set_order lt D" "setMapOK lt D n" "isSet lt D ks"
  shows "setMapOK lt D (clearSets n) \<and> (\<forall>ks'. lookupSet ks' (clearSets n) = None) \<and> setMapOK lt D (insertSet lt ks v n) \<and>
    (\<forall>ks'. lookupSet ks' (insertSet lt ks v n) = (if ks' = ks then Some v else lookupSet ks' n)) \<and>
    (\<forall>p P. (\<forall>x \<in> nodeValues n. p x = Ok (P x)) \<longrightarrow>
      (\<exists>r. findSubset lt p ks n = Ok r \<and> foundIn P {v. \<exists>ks'. set ks' \<subseteq> set ks \<and> lookupSet ks' n = Some v} r) \<and>
      (\<exists>r. findSuperset lt p ks n = Ok r \<and> foundIn P {v. \<exists>ks'. set ks \<subseteq> set ks' \<and> lookupSet ks' n = Some v} r)) \<and>
    set (subsets ks n) = {(ks', v). set ks' \<subseteq> set ks \<and> lookupSet ks' n = Some v} \<and>
    set (supersets lt ks n) = {(ks', v). set ks \<subseteq> set ks' \<and> lookupSet ks' n = Some v}"
proof (intro conjI allI impI)
  have clear: "clearSets n = emptyNode" by (simp add: clearSets_def emptyNode_def)
  show "setMapOK lt D (clearSets n)" "lookupSet ks' (clearSets n) = None" for ks' unfolding clear by (rule setMapOK_emptyNode, simp)
  have "sortedNode lt D n" using assms(2) by (simp add: setMapOK_def)
  then show "lookupSet ks' (insertSet lt ks v n) = (if ks' = ks then Some v else lookupSet ks' n)" for ks'
    by (rule set_order.insertSet_lookup [OF assms(1,3)])
  show "set (subsets ks n) = {(ks', v). set ks' \<subseteq> set ks \<and> lookupSet ks' n = Some v}"
    unfolding subsets_def findSubsets_set(1) using stored_subset(1) [OF assms] by auto
  show "set (supersets lt ks n) = {(ks', v). set ks \<subseteq> set ks' \<and> lookupSet ks' n = Some v}"
    unfolding supersets_def findSupersets_set(1) [OF assms] using stored_subset(2) [OF assms] by auto
qed (use insertSet_OK [OF assms(1,3,2)] findSubset_found [OF assms] findSuperset_found [OF assms] in blast)+

definition exampleSets :: "(nat, string) setNode" where
  "exampleSets = insertSet (<) [1, 2, 5] ''a'' (insertSet (<) [2] ''b'' (insertSet (<) [2, 3] ''c'' emptyNode))"

theorem MapOfSets_correct_witness:
  "setMapOK (<) UNIV exampleSets \<and> lookupSet [2] (insertSet (<) [2, 5] ''d'' exampleSets) = Some ''b'' \<and>
   set (supersets (<) [2, 5] exampleSets) = {([1, 2, 5], ''a'')}"
proof -
  have ok: "setMapOK (<) UNIV exampleSets" unfolding exampleSets_def
    by (intro insertSet_OK [OF natural_order.set_order_axioms] setMapOK_emptyNode) simp_all
  have b: "lookupSet [2] exampleSets = Some ''b''" by (simp add: exampleSets_def emptyNode_def)
  have "set (supersets (<) [2, 5] exampleSets) = {([1, 2, 5], ''a'')}"
    by (simp add: exampleSets_def emptyNode_def supersets_def)
  with ok b MapOfSets_correct [OF natural_order.set_order_axioms ok, of "[2, 5]" "''d''"] show ?thesis by simp
qed

end
