(* ===== verification/CexCaching.thy ===== *)
theory CexCaching
  imports MapOfSets AssignmentSound ExprCompare ExprUtil SolverCorrect
begin

text \<open>
  The counterexample cache (\<open>lib/Solver/CexCachingSolver.cpp\<close>). It maps the set of constraints of a
  query, with the negated expression, to an assignment that satisfies them all, or to \<open>None\<close> when there
  is none, and answers a query from the entry of a subset or a superset when it can.
\<close>

section \<open>Definitions\<close>

record cexOptions =
  DebugCexCacheCheckBinding :: bool
  CexCacheTryAll :: bool
  CexCacheSuperSet :: bool
  CexCacheExperimental :: bool
  UseVisitorHash :: bool

record cexState =
  cexCache :: "(expr, Assignment option) setNode"
  assignmentsTable :: "Assignment list"

text \<open>
  \<open>KeyType\<close> is a \<open>std::set<ref<Expr>>\<close>: expressions in the order \<open>lt\<close> of \<open>Expr::compare\<close>, without
  duplicates.
\<close>

fun insertKey :: "(expr \<Rightarrow> expr \<Rightarrow> bool) \<Rightarrow> expr \<Rightarrow> expr list \<Rightarrow> expr list" where
  "insertKey lt e [] = [e]"
| "insertKey lt e (k # ks) = (if lt e k then e # k # ks else if lt k e then k # insertKey lt e ks else k # ks)"

definition keyOf :: "(expr \<Rightarrow> expr \<Rightarrow> bool) \<Rightarrow> expr list \<Rightarrow> expr list" where
  "keyOf lt es = fold (insertKey lt) es []"

text \<open>
  \<open>AssignmentLessThan\<close> compares the maps of two assignments, from arrays (by address) to bytes,
  lexicographically. The table is a set in this order; inserting returns the element that it holds.
\<close>

fun bytesLess :: "int list \<Rightarrow> int list \<Rightarrow> bool" where
  "bytesLess vs [] = False"
| "bytesLess [] (w # ws) = True"
| "bytesLess (v # vs) (w # ws) = (v < w \<or> v = w \<and> bytesLess vs ws)"

fun bindingsLess :: "(Array \<times> int list) list \<Rightarrow> (Array \<times> int list) list \<Rightarrow> bool" where
  "bindingsLess as [] = False"
| "bindingsLess [] (b # bs) = True"
| "bindingsLess ((A, v) # as) ((B, w) # bs) =
     (address A < address B \<or> address A = address B \<and> (bytesLess v w \<or> \<not> bytesLess w v \<and> bindingsLess as bs))"

fun insertAssignment :: "Assignment \<Rightarrow> Assignment list \<Rightarrow> Assignment \<times> Assignment list" where
  "insertAssignment a [] = (a, [a])"
| "insertAssignment a (b # bs) =
     (if bindingsLess (bindings a) (bindings b) then (a, a # b # bs)
      else if bindingsLess (bindings b) (bindings a)
      then (let (c, cs) = insertAssignment a bs in (c, b # cs))
      else (b, b # bs))"

text \<open>The predicates of the searches.\<close>

definition NullAssignment :: "Assignment option \<Rightarrow> bool result" where
  "NullAssignment a = Ok (a = None)"

definition NonNullAssignment :: "Assignment option \<Rightarrow> bool result" where
  "NonNullAssignment a = Ok (a \<noteq> None)"

definition NullOrSatisfyingAssignment :: "bool \<Rightarrow> bool \<Rightarrow> expr list \<Rightarrow> Assignment option \<Rightarrow> bool result" where
  "NullOrSatisfyingAssignment co h key a = (case a of None \<Rightarrow> Ok True | Some b \<Rightarrow> satisfies co h b key)"

text \<open>The loop over the table of assignments.\<close>

fun tryAssignments :: "bool \<Rightarrow> bool \<Rightarrow> expr list \<Rightarrow> Assignment list \<Rightarrow> Assignment option result" where
  "tryAssignments co h key [] = Ok None"
| "tryAssignments co h key (a # as) =
     rbind (satisfies co h a key) (\<lambda>sat. if sat then Ok (Some a) else tryAssignments co h key as)"

text \<open>
  A search finds a result (\<open>Some\<close>), which is an assignment or \<open>None\<close> for an unsatisfiable key, or
  nothing.
\<close>

definition searchForAssignment :: "cexOptions \<Rightarrow> bool \<Rightarrow> (expr \<Rightarrow> expr \<Rightarrow> bool) \<Rightarrow> expr list \<Rightarrow> cexState \<Rightarrow> Assignment option option result" where
  "searchForAssignment opts co lt key st =
     (case lookupSet key (cexCache st) of
        Some result \<Rightarrow> Ok (Some result)
      | None \<Rightarrow>
          if CexCacheTryAll opts then
            rbind (if CexCacheSuperSet opts then findSuperset lt NonNullAssignment key (cexCache st) else Ok None) (\<lambda>superset.
            rbind (if superset = None then findSubset lt NullAssignment key (cexCache st) else Ok superset) (\<lambda>found.
              if found \<noteq> None then Ok found
              else rbind (tryAssignments co (UseVisitorHash opts) key (assignmentsTable st)) (\<lambda>a.
                Ok (map_option Some a))))
          else
            rbind (if CexCacheSuperSet opts then findSuperset lt NonNullAssignment key (cexCache st) else Ok None) (\<lambda>superset.
              if superset = None
              then findSubset lt (NullOrSatisfyingAssignment co (UseVisitorHash opts) key) key (cexCache st)
              else Ok superset))"

definition lookupAssignment :: "cexOptions \<Rightarrow> bool \<Rightarrow> (expr \<Rightarrow> expr \<Rightarrow> bool) \<Rightarrow> Query \<Rightarrow> cexState \<Rightarrow> (expr list \<times> Assignment option option) result" where
  "lookupAssignment opts co lt Q st =
     (let key = keyOf lt (constraints Q); neg = createIsZero co (qexpr Q); search = (\<lambda>key. rbind (searchForAssignment opts co lt key st) (\<lambda>found. Ok (key, found)))
      in case neg of
           ConstantExpr CE \<Rightarrow> if isFalse CE then Ok (key, Some None) else search key
         | _ \<Rightarrow> search (insertKey lt neg key))"

text \<open>
  \<open>Assignment(objects, values)\<close> reads a value for each object; \<open>klee_error\<close> ends the program.
\<close>

definition memoize :: "cexOptions \<Rightarrow> bool \<Rightarrow> (expr \<Rightarrow> expr \<Rightarrow> bool) \<Rightarrow> expr list \<Rightarrow> Array list \<Rightarrow> int list list \<times> bool \<Rightarrow> cexState \<Rightarrow> (Assignment option \<times> cexState) result" where
  "memoize opts co lt key objects solution st =
     (let (vals, hasSolution) = solution
      in if hasSolution then
           (case Assignment_create objects vals False of
              None \<Rightarrow> Abort
            | Some new \<Rightarrow>
                (let (binding, table) = insertAssignment new (assignmentsTable st)
                 in rbind (if DebugCexCacheCheckBinding opts then satisfies co (UseVisitorHash opts) binding key else Ok True) (\<lambda>ok.
                      if ok then Ok (Some binding, \<lparr>cexCache = insertSet lt key (Some binding) (cexCache st), assignmentsTable = table\<rparr>)
                      else Abort)))
         else Ok (None, st\<lparr>cexCache := insertSet lt key None (cexCache st)\<rparr>))"

definition getAssignment :: "cexOptions \<Rightarrow> bool \<Rightarrow> (expr \<Rightarrow> expr \<Rightarrow> bool) \<Rightarrow> 'q SolverImpl \<Rightarrow> Query \<Rightarrow> ('q \<times> cexState, Assignment option) query" where
  "getAssignment opts co lt S Q s =
     rbind (lookupAssignment opts co lt Q (snd s)) (\<lambda>(key, found).
       case found of
         Some result \<Rightarrow> Ok (Some result, s)
       | None \<Rightarrow>
           (let objects = findSymbolicObjects (UseVisitorHash opts) key []
            in qbind (onSolver (computeInitialValues S Q objects)) (\<lambda>solution (q, st).
                 rbind (memoize opts co lt key objects solution st) (\<lambda>(result, st'). Ok (Some result, q, st'))) s))"

definition Cex_computeValidity :: "cexOptions \<Rightarrow> bool \<Rightarrow> (expr \<Rightarrow> expr \<Rightarrow> bool) \<Rightarrow> 'q SolverImpl \<Rightarrow> Query \<Rightarrow> ('q \<times> cexState, Validity) query" where
  "Cex_computeValidity opts co lt S Q =
     qbind (getAssignment opts co lt S (withFalse Q)) (\<lambda>a s.
       case a of
         None \<Rightarrow> Abort
       | Some b \<Rightarrow>
           rbind (evaluate co (UseVisitorHash opts) b (qexpr Q)) (\<lambda>q.
             case q of
               ConstantExpr c \<Rightarrow>
                 (if isTrue c
                  then qbind (getAssignment opts co lt S Q) (\<lambda>a. qreturn (if a = None then VTrue else VUnknown))
                  else qbind (getAssignment opts co lt S (negateExpr co Q)) (\<lambda>a. qreturn (if a = None then VFalse else VUnknown))) s
             | _ \<Rightarrow> Abort))"

definition Cex_computeTruth :: "cexOptions \<Rightarrow> bool \<Rightarrow> (expr \<Rightarrow> expr \<Rightarrow> bool) \<Rightarrow> 'q SolverImpl \<Rightarrow> Query \<Rightarrow> ('q \<times> cexState, bool) query" where
  "Cex_computeTruth opts co lt S Q s =
     rbind (if CexCacheExperimental opts then lookupAssignment opts co lt (negateExpr co Q) (snd s) else Ok ([], None)) (\<lambda>(key, found).
       if found = Some None then Ok (None, s)
       else qbind (getAssignment opts co lt S Q) (\<lambda>a. qreturn (a = None)) s)"

definition Cex_computeValue :: "cexOptions \<Rightarrow> bool \<Rightarrow> (expr \<Rightarrow> expr \<Rightarrow> bool) \<Rightarrow> 'q SolverImpl \<Rightarrow> Query \<Rightarrow> ('q \<times> cexState, expr) query" where
  "Cex_computeValue opts co lt S Q =
     qbind (getAssignment opts co lt S (withFalse Q)) (\<lambda>a s.
       case a of
         None \<Rightarrow> Abort
       | Some b \<Rightarrow> rbind (evaluate co (UseVisitorHash opts) b (qexpr Q)) (\<lambda>r. if isConstantExpr r then Ok (Some r, s) else Abort))"

definition Cex_computeInitialValues :: "cexOptions \<Rightarrow> bool \<Rightarrow> (expr \<Rightarrow> expr \<Rightarrow> bool) \<Rightarrow> 'q SolverImpl \<Rightarrow> Query \<Rightarrow> Array list \<Rightarrow> ('q \<times> cexState, int list list \<times> bool) query" where
  "Cex_computeInitialValues opts co lt S Q objects =
     qbind (getAssignment opts co lt S Q) (\<lambda>a.
       case a of
         None \<Rightarrow> qreturn ([], False)
       | Some b \<Rightarrow> qreturn (map (\<lambda>os. case bindingOf b os of None \<Rightarrow> replicate (asize os) 0 | Some bytes \<Rightarrow> bytes) objects, True))"

definition CexCachingSolver :: "cexOptions \<Rightarrow> bool \<Rightarrow> (expr \<Rightarrow> expr \<Rightarrow> bool) \<Rightarrow> 'q SolverImpl \<Rightarrow> ('q \<times> cexState) SolverImpl" where
  "CexCachingSolver opts co lt S =
     \<lparr>computeTruth = Cex_computeTruth opts co lt S,
      computeValidity = Cex_computeValidity opts co lt S,
      computeValue = Cex_computeValue opts co lt S,
      computeInitialValues = Cex_computeInitialValues opts co lt S\<rparr>"

definition emptyCex :: cexState where
  "emptyCex = \<lparr>cexCache = emptyNode, assignmentsTable = []\<rparr>"

end
