(* ===== verification/CexKeys.thy ===== *)
theory CexKeys
  imports CexCaching
begin

text \<open>
  What the counterexample cache relies on: the negated expression stays over the same arrays, the
  symbolic objects of a key are found, a value depends on the arrays of the expression only, and an
  assignment holds the values it is made from.
\<close>

section \<open>The negated expression\<close>

text \<open>A predicate that holds for an expression exactly if it holds for its kids.\<close>

locale hereditary =
  fixes P :: "expr \<Rightarrow> bool"
  assumes const: "P (ConstantExpr c)"
    and binary: "P (BinaryExpr k l r) \<longleftrightarrow> P l \<and> P r"
    and sext: "P (SExtExpr e w) \<Longrightarrow> P e"
    and zext: "P (ZExtExpr e w) \<Longrightarrow> P e"
    and index: "P (ReadExpr A us i) \<Longrightarrow> P i"
begin

lemma bcreate: "P l \<Longrightarrow> P r \<Longrightarrow> P (AndExpr_create l r)" "P l \<Longrightarrow> P r \<Longrightarrow> P (OrExpr_create l r)"
  by (cases l; cases r; auto simp: AndExpr_create_def OrExpr_create_def bcreate_R_def bcreate_def AndExpr_createPartial_def
      AndExpr_createPartialR_def OrExpr_createPartial_def OrExpr_createPartialR_def const binary)+

lemma EqExpr_createNN: "P l \<Longrightarrow> P r \<Longrightarrow> P (EqExpr_createNN l r)"
  by (simp add: EqExpr_createNN_def const binary)

lemma constArrayLoop: "(\<And>i. P (mkEq i)) \<Longrightarrow> P dflt \<Longrightarrow> P res \<Longrightarrow> P (TryConstArrayOpt_loop mkEq dflt cl vs i n res)"
  by (induction mkEq dflt cl vs i n res rule: TryConstArrayOpt_loop.induct) (simp_all add: bcreate)

lemma constArray: "(\<And>i. P (mkEq i)) \<Longrightarrow> P (ReadExpr A us i) \<Longrightarrow> P (TryConstArrayOpt mkEq cl A us i)"
  unfolding TryConstArrayOpt_def Let_def by (auto intro!: EqExpr_createNN const constArrayLoop)

end

lemma eq_hereditary:
  shows "hereditary P \<Longrightarrow> P r \<Longrightarrow> P (EqExpr_createPartialR co cl r)"
    and "hereditary P \<Longrightarrow> P e \<Longrightarrow> P (EqExpr_createK co e c)"
proof (induction co cl r and co e c rule: EqExpr_createPartialR_EqExpr_createK.induct)
  case (1 co cl r)
  note h = 1(8) and r = 1(9)
  have d: "P (EqExpr_createNN (ConstantExpr cl) r)" using hereditary.EqExpr_createNN [OF h hereditary.const [OF h] r] .
  note unf = EqExpr_createPartialR.simps [of co cl] Let_def
  show ?case
  proof (cases r)
    case (BinaryExpr k a b)
    have ab: "P a" "P b" using r hereditary.binary [OF h] by (simp_all add: BinaryExpr)
    show ?thesis
    proof (cases "bitWidth cl = 1")
      case True
      have "P right" if "constLeft Eq r = Some (CE, right)" for CE right
        using constLeft_SomeD [OF that] r hereditary.binary [OF h] by simp
      then show ?thesis
        using d r True 1(1) [OF refl refl True _ BinaryExpr _ _ h ab(1)] 1(2) [OF refl refl True _ BinaryExpr _ _ h ab(2)] hereditary.bcreate(1) [OF h]
        unfolding unf BinaryExpr by (auto split: option.split)
    next
      case False
      then show ?thesis
        using d 1(6) [OF refl refl False BinaryExpr _ _ h ab(2)] 1(7) [OF refl refl False BinaryExpr _ _ _ h ab(2)]
        unfolding unf BinaryExpr by (auto split: expr.split)
    qed
  next
    case (ReadExpr A us i)
    have "P i" using r hereditary.index [OF h] ReadExpr by blast
    then show ?thesis
      using d r 1(3) [OF refl refl _ ReadExpr _ h] hereditary.constArray [OF h] unfolding unf ReadExpr by auto
  next
    case (SExtExpr e w)
    have "P e" using r hereditary.sext [OF h] SExtExpr by blast
    then show ?thesis using d r 1(5) [OF refl refl _ SExtExpr refl _ h] hereditary.const [OF h] unfolding unf SExtExpr by auto
  next
    case (ZExtExpr e w)
    have "P e" using r hereditary.zext [OF h] ZExtExpr by blast
    then show ?thesis using d r 1(4) [OF refl refl _ ZExtExpr refl _ h] hereditary.const [OF h] unfolding unf ZExtExpr by auto
  qed (use d r in \<open>simp_all add: unf\<close>)
next
  case (2 co e c)
  then show ?case by (cases e) (auto simp: EqExpr_createK.simps [of _ _ c] hereditary.const)
qed

interpretation plain_kids: hereditary plain
  by unfold_locales simp_all

interpretation array_kids: hereditary "\<lambda>e. set (arraysOf e) \<subseteq> S" for S
  by unfold_locales auto

lemma createIsZero_keeps:
  assumes "hereditary P" "P e"
  shows "P (createIsZero co e)"
  unfolding createIsZero_def EqExpr_create_K by (rule eq_hereditary(2) [OF assms])

section \<open>The symbolic objects of a key\<close>

definition wantedIn :: "(Array \<Rightarrow> bool) \<Rightarrow> expr \<Rightarrow> Array list \<Rightarrow> bool" where
  "wantedIn wanted e objects \<longleftrightarrow> {A \<in> set (arraysOf e). wanted A} \<subseteq> set objects"

definition finderOK :: "(Array \<Rightarrow> bool) \<Rightarrow> expr list \<times> Array list \<Rightarrow> bool" where
  "finderOK wanted s \<longleftrightarrow> (\<forall>e \<in> set (fst s). wantedIn wanted e (snd s)) \<and> distinct (snd s)"

definition finds :: "(Array \<Rightarrow> bool) \<Rightarrow> expr set \<Rightarrow> expr list \<times> Array list \<Rightarrow> expr list \<times> Array list \<Rightarrow> bool" where
  "finds wanted es s s' \<longleftrightarrow> finderOK wanted s' \<and> set (snd s) \<subseteq> set (snd s') \<and> (\<forall>e \<in> es. wantedIn wanted e (snd s')) \<and>
     set (snd s') \<subseteq> set (snd s) \<union> {A \<in> (\<Union>e \<in> es. set (arraysOf e)). wanted A}"

lemma finds_trans: "finds w es s s' \<Longrightarrow> finds w fs s' s'' \<Longrightarrow> finds w (es \<union> fs) s s''"
  unfolding finds_def wantedIn_def by blast

lemma arraysOf_kids: "asRead e = None \<Longrightarrow> set (arraysOf e) = (\<Union>k \<in> set (getKids e). set (arraysOf k))"
  by (cases e) auto

declare visitArrays.simps [simp del]

lemma finds_visited:
  assumes "finderOK w (visited, objects)" "set (snd s) \<subseteq> set objects" "wantedIn w e objects"
    and "set objects \<subseteq> set (snd s) \<union> {A \<in> set (arraysOf e). w A}"
  shows "finds w {e} s (if hash then e # visited else visited, objects)"
  using assms by (auto simp: finds_def finderOK_def)

lemma visitArrays_finds:
  shows "finderOK wanted s \<Longrightarrow> finds wanted {e} s (visitArrays hash wanted e s)"
    and "finderOK wanted s \<Longrightarrow> finds wanted (set ks) s (visitArraysList hash wanted ks s)"
    and "finderOK wanted s \<Longrightarrow> finds wanted (fst ` set us \<union> snd ` set us) s (visitArraysUpdates hash wanted us s)"
proof (induction hash wanted e s and hash wanted ks s and hash wanted us s rule: visitArrays_visitArraysList_visitArraysUpdates.induct)
  case (1 hash wanted e s)
  note ok = 1(4)
  show ?case
  proof (cases "isConstantExpr e \<or> hash \<and> e \<in> set (fst s)")
    case True
    then have "wantedIn wanted e (snd s)" using ok by (auto elim!: isConstantExprE simp: finderOK_def wantedIn_def)
    then show ?thesis using True ok by (subst visitArrays.simps) (simp add: finds_def)
  next
    case False
    show ?thesis
    proof (cases "asRead e")
      case None
      obtain visited objects where v: "visitArraysList hash wanted (getKids e) s = (visited, objects)" by fastforce
      have f: "finds wanted (set (getKids e)) s (visited, objects)" using 1(1) [OF False None ok] v by simp
      have "finds wanted {e} s (if hash then e # visited else visited, objects)"
        by (rule finds_visited) (use f arraysOf_kids [OF None] in \<open>auto simp: finds_def wantedIn_def\<close>)
      then show ?thesis unfolding visitArrays.simps [of hash wanted e] using False None v by auto
    next
      case (Some x)
      obtain A us index where x: "x = (A, us, index)" by (cases x)
      have e: "e = ReadExpr A us index" using Some x by simp
      obtain v1 o1 where u: "visitArraysUpdates hash wanted us s = (v1, o1)" by fastforce
      let ?o = "if wanted A \<and> A \<notin> set o1 then o1 @ [A] else o1"
      obtain v2 o2 where i: "visitArrays hash wanted index (v1, ?o) = (v2, o2)" by fastforce
      have fu: "finds wanted (fst ` set us \<union> snd ` set us) s (v1, o1)" using 1(2) [OF False Some _ _ ok] x u by fastforce
      then have "finderOK wanted (v1, ?o)" by (auto simp: finds_def finderOK_def wantedIn_def)
      then have fi: "finds wanted {index} (v1, ?o) (v2, o2)" using 1(3) [OF False Some, of A "(us, index)" us index] x u i by fastforce
      have s: "set o1 \<subseteq> set o2" "wanted A \<Longrightarrow> A \<in> set o2" using fi by (auto simp: finds_def split: if_splits)
      have ae: "set (arraysOf e) = {A} \<union> (\<Union>k \<in> fst ` set us \<union> snd ` set us. set (arraysOf k)) \<union> set (arraysOf index)" by (auto simp: e)
      have "wantedIn wanted k o2" if "k \<in> fst ` set us \<union> snd ` set us" for k
      proof -
        have "wantedIn wanted k o1" using fu that unfolding finds_def snd_conv by (elim conjE) (rule bspec)
        then show ?thesis using s(1) by (auto simp: wantedIn_def)
      qed
      moreover have "wantedIn wanted index o2" using fi by (simp add: finds_def)
      ultimately have "wantedIn wanted e o2" using s(2) unfolding wantedIn_def ae by blast
      moreover have "set o1 \<subseteq> set (snd s) \<union> {A \<in> set (arraysOf e). wanted A}" using fu unfolding finds_def ae by auto
      then have "set o2 \<subseteq> set (snd s) \<union> {A \<in> set (arraysOf e). wanted A}" using fi unfolding finds_def ae by (auto split: if_splits)
      ultimately have "finds wanted {e} s (if hash then e # v2 else v2, o2)"
        by (intro finds_visited) (use fu fi s in \<open>auto simp: finds_def\<close>)
      then show ?thesis unfolding visitArrays.simps [of hash wanted e] using False Some x u i by auto
    qed
  qed
next
  case (2 hash wanted s)
  then show ?case by (simp add: finds_def)
next
  case (3 hash wanted k ks s)
  have a: "finds wanted {k} s (visitArrays hash wanted k s)" by (rule 3(1) [OF 3(3)])
  then have b: "finds wanted (set ks) (visitArrays hash wanted k s) (visitArraysList hash wanted ks (visitArrays hash wanted k s))"
    by (intro 3(2)) (simp only: finds_def)
  from finds_trans [OF a b] show ?case by simp
next
  case (4 hash wanted s)
  then show ?case by (simp add: finds_def)
next
  case (5 hash wanted index v un s)
  let ?s1 = "visitArrays hash wanted index s" let ?s2 = "visitArrays hash wanted v ?s1"
  have a: "finds wanted {index} s ?s1" by (rule 5(1) [OF 5(4)])
  then have b: "finds wanted {v} ?s1 ?s2" by (intro 5(2)) (simp only: finds_def)
  then have c: "finds wanted (fst ` set un \<union> snd ` set un) ?s2 (visitArraysUpdates hash wanted un ?s2)" by (intro 5(3)) (simp only: finds_def)
  have e: "{index} \<union> {v} \<union> (fst ` set un \<union> snd ` set un) = fst ` set ((index, v) # un) \<union> snd ` set ((index, v) # un)" by auto
  from finds_trans [OF finds_trans [OF a b] c] show ?case unfolding e visitArraysUpdates.simps .
qed

lemma findSymbolicObjects_finds:
  "set (findSymbolicObjects hash es []) = {A. isSymbolicArray A \<and> (\<exists>e \<in> set es. A \<in> set (arraysOf e))}"
  "distinct (findSymbolicObjects hash es [])"
proof -
  have "finderOK isSymbolicArray ([], [])" by (simp add: finderOK_def)
  from visitArrays_finds(2) [OF this, of es hash]
  show "set (findSymbolicObjects hash es []) = {A. isSymbolicArray A \<and> (\<exists>e \<in> set es. A \<in> set (arraysOf e))}"
    "distinct (findSymbolicObjects hash es [])"
    unfolding findSymbolicObjects_def by (auto simp: finds_def finderOK_def wantedIn_def)
qed

section \<open>The value depends on the arrays\<close>

lemma sem_arrays:
  "wf_expr e \<Longrightarrow> wf_env co \<sigma> \<Longrightarrow> wf_env co \<tau> \<Longrightarrow> (\<And>A i. A \<in> set (arraysOf e) \<Longrightarrow> 0 \<le> i \<Longrightarrow> initialValue \<sigma> A i = initialValue \<tau> A i) \<Longrightarrow>
   sem \<sigma> e = sem \<tau> e"
proof (induction "size e" arbitrary: e rule: less_induct)
  case less
  have step: "sem \<sigma> k = sem \<tau> k" if "size k < size e" "wf_expr k" "set (arraysOf k) \<subseteq> set (arraysOf e)" for k
    by (rule less(1)) (use that less(3-5) in auto)
  show ?case
  proof (cases "asRead e")
    case None
    show ?thesis
    proof (cases "isConstantExpr e")
      case True
      then show ?thesis by (rule isConstantExprE) simp
    next
      case False
      have "sem \<sigma> k = sem \<tau> k" if k: "k \<in> set (getKids e)" for k
      proof (rule step)
        show "size k < size e" using kids_sum [OF False] member_le_sum_list [of "size k" "map size (getKids e)"] k by fastforce
        show "wf_expr k" using less(2) k by (cases e) auto
        show "set (arraysOf k) \<subseteq> set (arraysOf e)" using arraysOf_kids [OF None] k by blast
      qed
      then show ?thesis by (intro sem_kids_agree [OF None]) blast
    qed
  next
    case (Some x)
    then obtain A us index where e: "e = ReadExpr A us index" by (cases x) auto
    have wf: "wf_expr index" "\<forall>(ui, uv) \<in> set us. wf_expr ui \<and> wf_expr uv" using less(2) by (auto simp: e)
    have idx: "sem \<sigma> index = sem \<tau> index" by (rule step) (use wf in \<open>auto simp: e\<close>)
    have us: "sem \<sigma> (fst p) = sem \<tau> (fst p) \<and> sem \<sigma> (snd p) = sem \<tau> (snd p)" if p: "p \<in> set us" for p
    proof -
      obtain ui uv where pq: "p = (ui, uv)" by (cases p)
      have "size ui < size e" "size uv < size e" using size_list_estimation' [OF p, of "size_prod size size p" "size_prod size size"] by (auto simp: e pq)
      moreover have "set (arraysOf ui) \<subseteq> set (arraysOf e)" "set (arraysOf uv) \<subseteq> set (arraysOf e)" using p by (auto simp: e pq)
      ultimately show ?thesis using step [of ui] step [of uv] wf(2) p by (auto simp: pq)
    qed
    have "semRead \<sigma> A us i = semRead \<tau> A us i" if "sem \<sigma> index = Some i" for i
    proof (rule semRead_agree)
      have "0 \<le> i" using sem_fits(1) [OF that less(3) wf(1)] by (simp add: fits_def)
      then show "initialValue \<sigma> A i = initialValue \<tau> A i" using less(5) by (simp add: e)
    qed (use us in blast)
    then show ?thesis using idx unfolding e by (cases "sem \<sigma> index") (simp_all, metis bind.bind_lunit)
  qed
qed

section \<open>The assignment of a solution\<close>

abbreviation bindingAt :: "nat \<Rightarrow> (Array \<times> int list) list \<Rightarrow> (Array \<times> int list) option" where
  "bindingAt x bs \<equiv> find (\<lambda>(B, _). address B = x) bs"

lemma insertBinding_find:
  "bindingAt (address A) bs = None \<Longrightarrow> bindingAt x (insertBinding A vs bs) = (if x = address A then Some (A, vs) else bindingAt x bs)"
  by (induction A vs bs rule: insertBinding.induct) (auto split: if_splits)

lemma insertBinding_set: "set (insertBinding A vs bs) \<subseteq> insert (A, vs) (set bs)"
  by (induction A vs bs rule: insertBinding.induct) auto

lemma insertAll_find:
  "length vals = length objects \<Longrightarrow> distinct (map address objects) \<Longrightarrow> \<forall>A \<in> set objects. bindingAt (address A) bs = None \<Longrightarrow>
   \<exists>bs'. Assignment_insertAll objects vals bs = Some bs' \<and> set bs' \<subseteq> set bs \<union> set (zip objects vals) \<and>
     (\<forall>x. bindingAt x bs' = (case bindingAt x (zip objects vals) of Some r \<Rightarrow> Some r | None \<Rightarrow> bindingAt x bs))"
proof (induction objects arbitrary: vals bs)
  case (Cons A objects)
  obtain v vs where vals: "vals = v # vs" using Cons.prems(1) by (cases vals) auto
  have find: "bindingAt x (insertBinding A v bs) = (if x = address A then Some (A, v) else bindingAt x bs)" for x
    using insertBinding_find Cons.prems(3) by simp
  have ne: "address B \<noteq> address A" if "B \<in> set objects" for B using Cons.prems(2) image_eqI [OF _ that, of "address A" address] by auto
  have free: "\<forall>B \<in> set objects. bindingAt (address B) (insertBinding A v bs) = None" using ne Cons.prems(3) by (simp add: find)
  from Cons.IH [OF _ _ free, of vs] Cons.prems(1,2) obtain bs' where
    bs': "Assignment_insertAll objects vs (insertBinding A v bs) = Some bs'" "set bs' \<subseteq> set (insertBinding A v bs) \<union> set (zip objects vs)"
      "\<forall>x. bindingAt x bs' = (case bindingAt x (zip objects vs) of Some r \<Rightarrow> Some r | None \<Rightarrow> bindingAt x (insertBinding A v bs))"
    by (auto simp: vals)
  have "bindingAt (address A) (zip objects vs) = None" using ne by (auto simp: find_None_iff dest!: set_zip_leftD)
  then have "bindingAt x bs' = (case bindingAt x (zip (A # objects) vals) of Some r \<Rightarrow> Some r | None \<Rightarrow> bindingAt x bs)" for x
    using bs'(3) find by (auto simp: vals split: option.split)
  moreover have "set bs' \<subseteq> set bs \<union> set (zip (A # objects) vals)" using bs'(2) insertBinding_set [of A v bs] by (auto simp: vals)
  ultimately show ?case using bs'(1) by (auto simp: vals)
qed simp

text \<open>The values of an environment on some objects, and the assignment that holds them.\<close>

definition solutionOf :: "env \<Rightarrow> Array list \<Rightarrow> int list list \<Rightarrow> bool" where
  "solutionOf \<sigma> objects vals \<longleftrightarrow>
     length vals = length objects \<and>
     (\<forall>i < length objects. length (vals ! i) = asize (objects ! i) \<and>
        (\<forall>j < asize (objects ! i). \<sigma> (objects ! i) (int j) = Some (vals ! i ! j)))"

lemma oneObject_distinct: "oneObject S \<Longrightarrow> set objects \<subseteq> S \<Longrightarrow> distinct objects \<Longrightarrow> distinct (map address objects)"
  by (auto simp: distinct_map inj_on_def oneObject_def)

lemma create_binding:
  assumes one: "oneObject S" "set objects \<subseteq> S" "distinct objects" and vals: "solutionOf \<sigma> objects vals"
  shows "\<exists>a. Assignment_create objects vals False = Some a \<and> \<not> allowFreeValues a \<and> set (bindings a) \<subseteq> set (zip objects vals) \<and>
    (\<forall>i < length objects. bindingOf a (objects ! i) = Some (vals ! i)) \<and> (\<forall>A \<in> S - set objects. bindingOf a A = None)"
proof -
  have len: "length vals = length objects" using vals by (simp add: solutionOf_def)
  have d: "distinct (map address objects)" by (rule oneObject_distinct [OF one])
  from insertAll_find [OF len d, of "[]"] obtain bs where
    bs: "Assignment_insertAll objects vals [] = Some bs" "set bs \<subseteq> set (zip objects vals)"
      "\<forall>x. bindingAt x bs = (case bindingAt x (zip objects vals) of Some r \<Rightarrow> Some r | None \<Rightarrow> None)"
    by (auto cong: option.case_cong)
  have "bindingAt (address (objects ! i)) (zip objects vals) = Some (objects ! i, vals ! i)" if i: "i < length objects" for i
    using d i len nth_eq_iff_index_eq [OF d] by (auto simp: find_Some_iff intro!: exI [of _ i])
  moreover have "bindingAt (address A) (zip objects vals) = None" if "A \<in> S - set objects" for A
    using that one(1,2) by (auto simp: find_None_iff oneObject_def dest!: set_zip_leftD)
  ultimately show ?thesis using bs by (simp add: Assignment_create_def bindingOf_def)
qed

end
