(* ===== verification/CexSound.thy ===== *)
theory CexSound
  imports CexKeys
begin

text \<open>
  The counterexample cache answers as its contract demands: an entry that is found decides the query.
\<close>

section \<open>Inputs, keys and entries\<close>

text \<open>
  The inputs over which the answers are right: every byte of a symbolic array has a value, bytes beyond
  the end of an array read as 0, as they do under an assignment, and the assignment of the values that a
  solver finds is one of them. Keys hold expressions over the arrays in \<open>S\<close>, in the order \<open>lt\<close>.
\<close>

locale cex_envs =
  fixes co :: bool and U :: "env set" and S :: "Array set" and lt :: "expr \<Rightarrow> expr \<Rightarrow> bool"
  assumes wf_envs: "\<sigma> \<in> U \<Longrightarrow> wf_env co \<sigma>"
    and one: "oneObject S"
    and order: "set_order lt {e. set (arraysOf e) \<subseteq> S}"
    and bytes: "\<sigma> \<in> U \<Longrightarrow> A \<in> S \<Longrightarrow> isSymbolicArray A \<Longrightarrow> j < asize A \<Longrightarrow> \<sigma> A (int j) \<noteq> None"
    and beyond: "\<sigma> \<in> U \<Longrightarrow> A \<in> S \<Longrightarrow> int (asize A) \<le> i \<Longrightarrow> \<sigma> A i = (if co \<and> isConstantArray A then None else Some 0)"
    and closed: "\<sigma> \<in> U \<Longrightarrow> set objects \<subseteq> S \<Longrightarrow> distinct objects \<Longrightarrow> solutionOf \<sigma> objects vals \<Longrightarrow>
      Assignment_create objects vals False = Some a \<Longrightarrow> assignmentEnv co a \<in> U"

text \<open>
  The expressions of a query have a value in all these inputs, and no opaque constant.
\<close>

definition exprGood :: "env set \<Rightarrow> Array set \<Rightarrow> expr \<Rightarrow> bool" where
  "exprGood U S e \<longleftrightarrow> wf_expr e \<and> plain e \<and> set (arraysOf e) \<subseteq> S \<and> (\<forall>\<sigma> \<in> U. sem \<sigma> e \<noteq> None)"

definition keyGood :: "env set \<Rightarrow> Array set \<Rightarrow> expr \<Rightarrow> bool" where
  "keyGood U S e \<longleftrightarrow> exprGood U S e \<and> getWidth e = 1"

definition cexQuery :: "env set \<Rightarrow> Array set \<Rightarrow> Query \<Rightarrow> bool" where
  "cexQuery U S Q \<longleftrightarrow> (\<forall>c \<in> set (constraints Q). keyGood U S c) \<and> exprGood U S (qexpr Q)"

text \<open>What the cache and the table hold.\<close>

definition assignOK :: "bool \<Rightarrow> env set \<Rightarrow> Array set \<Rightarrow> Assignment \<Rightarrow> bool" where
  "assignOK co U S a \<longleftrightarrow>
     \<not> allowFreeValues a \<and> assignmentEnv co a \<in> U \<and>
     (\<forall>(A, vs) \<in> set (bindings a). A \<in> S \<and> length vs = asize A \<and> (\<forall>v \<in> set vs. fits (arange A) v))"

definition decides :: "bool \<Rightarrow> env set \<Rightarrow> Array set \<Rightarrow> expr list \<Rightarrow> Assignment option \<Rightarrow> bool" where
  "decides co U S key r =
     (case r of
        None \<Rightarrow> \<forall>\<sigma> \<in> U. \<not> satisfied \<sigma> key
      | Some a \<Rightarrow> assignOK co U S a \<and> satisfied (assignmentEnv co a) key)"

definition cexOK :: "bool \<Rightarrow> env set \<Rightarrow> Array set \<Rightarrow> (expr \<Rightarrow> expr \<Rightarrow> bool) \<Rightarrow> cexState \<Rightarrow> bool" where
  "cexOK co U S lt st \<longleftrightarrow>
     setMapOK lt {e. set (arraysOf e) \<subseteq> S} (cexCache st) \<and>
     (\<forall>key r. lookupSet key (cexCache st) = Some r \<longrightarrow> decides co U S key r) \<and>
     (\<forall>a. Some a \<in> nodeValues (cexCache st) \<longrightarrow> assignOK co U S a) \<and>
     (\<forall>a \<in> set (assignmentsTable st). assignOK co U S a)"

lemma decides_subset:
  assumes "set key \<subseteq> set key'"
  shows "decides co U S key None \<Longrightarrow> decides co U S key' None" "decides co U S key' (Some a) \<Longrightarrow> decides co U S key (Some a)"
  using assms by (auto simp: decides_def satisfied_def)

lemma satisfies_key:
  assumes "\<forall>e \<in> set key. keyGood U S e" "assignOK co U S a"
  shows "satisfies co h a key = Ok (satisfied (assignmentEnv co a) key)"
proof -
  have "\<forall>e \<in> set key. good co a e \<and> getWidth e = 1" using assms by (auto simp: keyGood_def exprGood_def assignOK_def good_def)
  from satisfiesFrom_decides [OF this tableC_Nil] show ?thesis by (simp add: satisfies_def satisfied_def)
qed

lemma tryAssignments_result:
  assumes "\<forall>e \<in> set key. keyGood U S e" "\<forall>a \<in> set as. assignOK co U S a"
  shows "\<exists>r. tryAssignments co h key as = Ok r \<and> (\<forall>a. r = Some a \<longrightarrow> decides co U S key (Some a))"
  using assms(2)
proof (induction as)
  case (Cons a as)
  then show ?case using satisfies_key [OF assms(1), of co a h] by (auto simp: decides_def)
qed simp

text \<open>The table returns an assignment with the same bytes for the same addresses.\<close>

definition boundBytes :: "(Array \<times> int list) list \<Rightarrow> (nat \<times> int list) list" where
  "boundBytes bs = map (\<lambda>(A, vs). (address A, vs)) bs"

lemma bytesLess_total: "\<not> bytesLess vs ws \<Longrightarrow> \<not> bytesLess ws vs \<Longrightarrow> vs = ws"
proof (induction vs ws rule: bytesLess.induct)
  case (1 vs)
  then show ?case by (cases vs) auto
qed auto

lemma bindingsLess_total: "\<not> bindingsLess as bs \<Longrightarrow> \<not> bindingsLess bs as \<Longrightarrow> boundBytes as = boundBytes bs"
proof (induction as bs rule: bindingsLess.induct)
  case (1 as)
  then show ?case by (cases as) auto
qed (auto simp: boundBytes_def dest: bytesLess_total)

lemma insertAssignment_result:
  "insertAssignment a as = (b, bs) \<Longrightarrow>
   set bs \<subseteq> insert a (set as) \<and> b \<in> insert a (set as) \<and> boundBytes (bindings b) = boundBytes (bindings a)"
proof (induction a as arbitrary: bs rule: insertAssignment.induct)
  case (2 a c cs)
  then show ?case by (auto split: if_splits prod.splits dest: bindingsLess_total)
qed simp

lemma boundBytes_inj:
  assumes "oneObject S" "fst ` set as \<subseteq> S" "fst ` set bs \<subseteq> S" "boundBytes as = boundBytes bs"
  shows "as = bs"
proof -
  have "map_prod address id x = map_prod address id y \<Longrightarrow> x = y" if "fst x \<in> S" "fst y \<in> S" for x y :: "Array \<times> int list"
    using assms(1) that by (cases x; cases y) (auto simp: oneObject_def)
  moreover have "fst x \<in> S" if "x \<in> set as \<union> set bs" for x using assms(2,3) that by blast
  ultimately have "inj_on (map_prod address id) (set as \<union> set bs)" by (intro inj_onI) blast
  moreover have "map (map_prod address id) as = map (map_prod address id) bs" using assms(4) by (simp add: boundBytes_def map_prod_def)
  ultimately show ?thesis by (intro map_inj_on [of "map_prod address id"])
qed

text \<open>The key of a query, and what a result says about the query.\<close>

definition queryKey :: "env set \<Rightarrow> Array set \<Rightarrow> (expr \<Rightarrow> expr \<Rightarrow> bool) \<Rightarrow> Query \<Rightarrow> expr list \<Rightarrow> bool" where
  "queryKey U S lt Q key \<longleftrightarrow>
     isSet lt {e. set (arraysOf e) \<subseteq> S} key \<and> (\<forall>e \<in> set key. keyGood U S e) \<and>
     (\<forall>\<sigma> \<in> U. satisfied \<sigma> key \<longleftrightarrow> satisfied \<sigma> (constraints Q) \<and> sem \<sigma> (qexpr Q) = Some 0)"

definition answers :: "bool \<Rightarrow> env set \<Rightarrow> Array set \<Rightarrow> Query \<Rightarrow> Assignment option \<Rightarrow> bool" where
  "answers co U S Q r =
     (case r of
        None \<Rightarrow> validIn U Q
      | Some a \<Rightarrow> assignOK co U S a \<and> satisfied (assignmentEnv co a) (constraints Q) \<and> sem (assignmentEnv co a) (qexpr Q) = Some 0)"

context cex_envs
begin

lemma insertKey_set:
  assumes "isSet lt {e. set (arraysOf e) \<subseteq> S} ks" "set (arraysOf e) \<subseteq> S"
  shows "isSet lt {e. set (arraysOf e) \<subseteq> S} (insertKey lt e ks) \<and> set (insertKey lt e ks) = insert e (set ks)"
  using assms(1)
proof (induction ks)
  case (Cons k ks)
  have k: "set (arraysOf k) \<subseteq> S" "\<forall>x \<in> set ks. lt k x \<and> set (arraysOf x) \<subseteq> S" using Cons.prems by (auto simp: isSet_def)
  have "e = k" if "\<not> lt e k" "\<not> lt k e" using set_order.total [OF order, of e k] assms(2) k(1) that by auto
  moreover have "lt e x" if "lt e k" "x \<in> set ks" for x using set_order.trans [OF order, of e k x] assms(2) k that by auto
  ultimately show ?case using Cons assms(2) by auto
qed (use assms(2) in simp)

lemma keyOf_set:
  assumes "\<forall>e \<in> set es. set (arraysOf e) \<subseteq> S"
  shows "isSet lt {e. set (arraysOf e) \<subseteq> S} (keyOf lt es) \<and> set (keyOf lt es) = set es"
proof -
  have "isSet lt {e. set (arraysOf e) \<subseteq> S} ks \<Longrightarrow> \<forall>e \<in> set es. set (arraysOf e) \<subseteq> S \<Longrightarrow>
      isSet lt {e. set (arraysOf e) \<subseteq> S} (fold (insertKey lt) es ks) \<and> set (fold (insertKey lt) es ks) = set es \<union> set ks" for ks
    by (induction es arbitrary: ks) (auto simp: insertKey_set)
  from this [of "[]"] assms show ?thesis by (simp add: keyOf_def)
qed

lemma search_result:
  assumes ok: "cexOK co U S lt st" and set: "isSet lt {e. set (arraysOf e) \<subseteq> S} key" and key: "\<forall>e \<in> set key. keyGood U S e"
  shows "\<exists>r. searchForAssignment opts co lt key st = Ok r \<and> (\<forall>x. r = Some x \<longrightarrow> decides co U S key x)"
proof (cases "lookupSet key (cexCache st)")
  case (Some r)
  then show ?thesis using ok by (simp add: searchForAssignment_def cexOK_def)
next
  case None
  let ?c = "cexCache st" and ?h = "UseVisitorHash opts"
  have m: "setMapOK lt {e. set (arraysOf e) \<subseteq> S} ?c" and e: "\<And>k r. lookupSet k ?c = Some r \<Longrightarrow> decides co U S k r"
    and v: "\<And>a. Some a \<in> nodeValues ?c \<Longrightarrow> assignOK co U S a" and t: "\<forall>a \<in> set (assignmentsTable st). assignOK co U S a"
    using ok by (auto simp: cexOK_def)
  let ?sup = "if CexCacheSuperSet opts then findSuperset lt NonNullAssignment key ?c else Ok None"
  obtain sup where sup: "?sup = Ok sup" "\<And>x. sup = Some x \<Longrightarrow> decides co U S key x"
  proof (cases "CexCacheSuperSet opts")
    case True
    have "\<forall>x \<in> nodeValues ?c. NonNullAssignment x = Ok (x \<noteq> None)" by (simp add: NonNullAssignment_def)
    from findSuperset_found [OF order m set this] obtain r where
      r: "findSuperset lt NonNullAssignment key ?c = Ok r" "foundIn (\<lambda>x. x \<noteq> None) {v. \<exists>ks'. set key \<subseteq> set ks' \<and> lookupSet ks' ?c = Some v} r" by blast
    have "decides co U S key x" if "r = Some x" for x using r(2) that e decides_subset(2) by (auto simp: foundIn_def)
    then show thesis using that [of r] r(1) True by simp
  qed simp
  have subset: "\<exists>r. findSubset lt p key ?c = Ok r \<and> (\<forall>x. r = Some x \<longrightarrow> decides co U S key x)"
    if p: "\<forall>x \<in> nodeValues ?c. p x = Ok (P x)" and P: "\<And>a. P (Some a) \<Longrightarrow> assignOK co U S a \<Longrightarrow> satisfied (assignmentEnv co a) key" for p P
  proof -
    from findSubset_found [OF order m set p] obtain r where
      r: "findSubset lt p key ?c = Ok r" "foundIn P {v. \<exists>ks'. set ks' \<subseteq> set key \<and> lookupSet ks' ?c = Some v} r" by blast
    have "decides co U S key x" if rx: "r = Some x" for x
    proof -
      obtain k where k: "set k \<subseteq> set key" "lookupSet k ?c = Some x" "P x" using r(2) rx by (auto simp: foundIn_def)
      show ?thesis using decides_subset(1) [OF k(1)] e [OF k(2)] P k(3) v lookup_value [OF k(2)] by (cases x) (auto simp: decides_def)
    qed
    with r(1) show ?thesis by blast
  qed
  show ?thesis
  proof (cases "CexCacheTryAll opts")
    case True
    have "\<forall>x \<in> nodeValues ?c. NullAssignment x = Ok (x = None)" by (simp add: NullAssignment_def)
    from subset [OF this] obtain sub where sub: "findSubset lt NullAssignment key ?c = Ok sub" "\<And>x. sub = Some x \<Longrightarrow> decides co U S key x" by auto
    obtain r where r: "tryAssignments co ?h key (assignmentsTable st) = Ok r" "\<And>a. r = Some a \<Longrightarrow> decides co U S key (Some a)"
      using tryAssignments_result [OF key t] by blast
    show ?thesis using None True sup sub r by (auto simp: searchForAssignment_def)
  next
    case False
    have "\<forall>x \<in> nodeValues ?c. NullOrSatisfyingAssignment co ?h key x = Ok (case x of None \<Rightarrow> True | Some a \<Rightarrow> satisfied (assignmentEnv co a) key)"
      using satisfies_key [OF key] v by (auto simp: NullOrSatisfyingAssignment_def split: option.split)
    from subset [OF this] obtain sub where
      sub: "findSubset lt (NullOrSatisfyingAssignment co ?h key) key ?c = Ok sub" "\<And>x. sub = Some x \<Longrightarrow> decides co U S key x" by auto
    show ?thesis using None False sup sub by (auto simp: searchForAssignment_def)
  qed
qed

lemma negated_key:
  assumes "exprGood U S e" "getWidth e = 1"
  shows "keyGood U S (createIsZero co e)" "\<And>\<sigma>. \<sigma> \<in> U \<Longrightarrow> sem \<sigma> (createIsZero co e) = Some (if sem \<sigma> e = Some 0 then 1 else 0)"
    "\<And>\<sigma>. \<sigma> \<in> U \<Longrightarrow> sem \<sigma> e = Some 0 \<or> sem \<sigma> e = Some 1"
proof -
  let ?z = "EqExpr e (ConstantExpr (alloc 0 1))"
  have e: "wf_expr e" "plain e" "set (arraysOf e) \<subseteq> S" "\<And>\<sigma>. \<sigma> \<in> U \<Longrightarrow> sem \<sigma> e \<noteq> None" using assms(1) by (auto simp: exprGood_def)
  have ref: "refines co ?z (createIsZero co e)" using createIsZero_sound [of co e] assms(2) by simp
  have wf: "wf_expr ?z" using e(1) assms(2) by (simp add: kind_simps)
  show bit: "sem \<sigma> e = Some 0 \<or> sem \<sigma> e = Some 1" if u: "\<sigma> \<in> U" for \<sigma>
  proof -
    obtain v where v: "sem \<sigma> e = Some v" using e(4) [OF u] by blast
    have "fits 1 v" using sem_fits(1) [OF v wf_envs [OF u] e(1)] assms(2) by simp
    then show ?thesis using v by (auto simp: fits_def)
  qed
  show sem: "sem \<sigma> (createIsZero co e) = Some (if sem \<sigma> e = Some 0 then 1 else 0)" if "\<sigma> \<in> U" for \<sigma>
    using refinesD(3) [OF ref wf wf_envs [OF that]] bit [OF that] assms(2) by (auto simp: kind_simps)
  show "keyGood U S (createIsZero co e)"
    using refinesD(1,2) [OF ref wf] createIsZero_keeps [OF plain_kids.hereditary_axioms e(2)] createIsZero_keeps [OF array_kids.hereditary_axioms e(3)] sem
    by (auto simp: keyGood_def exprGood_def kind_simps)
qed

lemma lookup_result:
  assumes ok: "cexOK co U S lt st" and Q: "cexQuery U S Q" "getWidth (qexpr Q) = 1"
  shows "\<exists>key found. lookupAssignment opts co lt Q st = Ok (key, found) \<and> (\<forall>x. found = Some x \<longrightarrow> answers co U S Q x) \<and>
    (found = None \<longrightarrow> queryKey U S lt Q key)"
proof -
  let ?neg = "createIsZero co (qexpr Q)" and ?k = "keyOf lt (constraints Q)"
  let ?search = "\<lambda>key. rbind (searchForAssignment opts co lt key st) (\<lambda>found. Ok (key, found))"
  have c: "\<forall>c \<in> set (constraints Q). keyGood U S c" and e: "exprGood U S (qexpr Q)" using Q(1) by (auto simp: cexQuery_def)
  note neg = negated_key [OF e Q(2)]
  have k: "isSet lt {e. set (arraysOf e) \<subseteq> S} ?k \<and> set ?k = set (constraints Q)"
    by (rule keyOf_set) (use c in \<open>auto simp: keyGood_def exprGood_def\<close>)
  have search: "\<exists>key' found. ?search key = Ok (key', found) \<and> (\<forall>x. found = Some x \<longrightarrow> answers co U S Q x) \<and> (found = None \<longrightarrow> queryKey U S lt Q key')"
    if key: "queryKey U S lt Q key" for key
  proof -
    obtain r where r: "searchForAssignment opts co lt key st = Ok r" "\<And>x. r = Some x \<Longrightarrow> decides co U S key x"
      using search_result [OF ok, of key opts] key by (auto simp: queryKey_def)
    have "answers co U S Q x" if "decides co U S key x" for x
      using that key neg(3) by (cases x) (auto simp: decides_def answers_def queryKey_def validIn_def modelsOf_def assignOK_def)
    then show ?thesis using r key by auto
  qed
  have sat: "satisfied \<sigma> ?k \<longleftrightarrow> satisfied \<sigma> (constraints Q)" for \<sigma> using k by (simp add: satisfied_def)
  show ?thesis
  proof (cases "isConstantExpr ?neg")
    case True
    then obtain CE where CE: "?neg = ConstantExpr CE" by (auto elim: isConstantExprE)
    have w: "bitWidth CE = 1" using neg(1) CE by (simp add: keyGood_def)
    show ?thesis
    proof (cases "isFalse CE")
      case True
      then have "sem \<sigma> (qexpr Q) = Some 1" if "\<sigma> \<in> U" for \<sigma> using neg(2) [OF that] neg(3) [OF that] CE by (auto simp: isFalse_def split: if_splits)
      then have "answers co U S Q None" by (auto simp: answers_def validIn_def modelsOf_def)
      then show ?thesis using CE True by (simp add: lookupAssignment_def)
    next
      case False
      then have "sem \<sigma> (qexpr Q) = Some 0" if "\<sigma> \<in> U" for \<sigma> using neg(2) [OF that] neg(3) [OF that] CE w by (auto simp: isFalse_def split: if_splits)
      then have "queryKey U S lt Q ?k" using k c sat by (auto simp: queryKey_def)
      note found = search [OF this]
      have "lookupAssignment opts co lt Q st = ?search ?k" using CE False by (simp add: lookupAssignment_def Let_def)
      then show ?thesis using found by presburger
    qed
  next
    case False
    have n: "set (arraysOf ?neg) \<subseteq> S" using neg(1) by (simp add: keyGood_def exprGood_def)
    have i: "isSet lt {e. set (arraysOf e) \<subseteq> S} (insertKey lt ?neg ?k) \<and> set (insertKey lt ?neg ?k) = insert ?neg (set (constraints Q))"
      using insertKey_set [OF _ n, of ?k] k by simp
    then have "queryKey U S lt Q (insertKey lt ?neg ?k)" using c neg by (auto simp: queryKey_def satisfied_def)
    note found = search [OF this]
    have "lookupAssignment opts co lt Q st = ?search (insertKey lt ?neg ?k)" using False by (cases ?neg) (simp_all add: lookupAssignment_def Let_def)
    then show ?thesis using found by presburger
  qed
qed

lemma table_same:
  assumes "insertAssignment a as = (b, bs)" "assignOK co U S a" "\<forall>c \<in> set as. assignOK co U S c"
  shows "b = a \<and> (\<forall>c \<in> set bs. assignOK co U S c)"
proof -
  note r = insertAssignment_result [OF assms(1)]
  have ok: "assignOK co U S b" "\<forall>c \<in> set bs. assignOK co U S c" using r assms(2,3) by auto
  have "fst ` set (bindings c) \<subseteq> S" if "assignOK co U S c" for c using that by (auto simp: assignOK_def)
  then have "fst ` set (bindings b) \<subseteq> S" "fst ` set (bindings a) \<subseteq> S" using ok(1) assms(2) by blast+
  moreover have "boundBytes (bindings b) = boundBytes (bindings a)" using r by blast
  ultimately have "bindings b = bindings a" by (rule boundBytes_inj [OF one])
  moreover have "allowFreeValues b = allowFreeValues a" using ok(1) assms(2) by (simp add: assignOK_def)
  ultimately have "b = a" by (intro Assignment.equality) simp_all
  then show ?thesis using ok(2) by blast
qed

lemma assigned_bytes:
  assumes \<sigma>: "\<sigma> \<in> U" and objects: "set objects \<subseteq> S" "\<forall>A \<in> set objects. isSymbolicArray A" and vals: "solutionOf \<sigma> objects vals"
    and a: "\<not> allowFreeValues a" "\<forall>i < length objects. bindingOf a (objects ! i) = Some (vals ! i)" "\<forall>A \<in> S - set objects. bindingOf a A = None"
    and A: "A \<in> S" "isSymbolicArray A \<Longrightarrow> A \<in> set objects" "0 \<le> i"
  shows "initialValue \<sigma> A i = initialValue (assignmentEnv co a) A i"
proof (cases "int (asize A) \<le> i")
  case True
  have "assignmentEnv co a A i = (if co \<and> isConstantArray A then None else Some 0)"
  proof (cases "A \<in> set objects")
    case inside: True
    then obtain n where "n < length objects" "A = objects ! n" by (auto simp: in_set_conv_nth)
    then show ?thesis using True a(1,2) vals by (auto simp: assignmentEnv_def solutionOf_def)
  next
    case False
    then show ?thesis using True a(1,3) A(1) by (simp add: assignmentEnv_def)
  qed
  then show ?thesis using True beyond [OF \<sigma> A(1) True] by (simp add: initialValue_def)
next
  case False
  show ?thesis
  proof (cases "isConstantArray A")
    case True
    then show ?thesis using False by (simp add: initialValue_def)
  next
    case sym: False
    then have "A \<in> set objects" using A(2) by (simp add: isConstantArray_def)
    then obtain n where n: "n < length objects" "A = objects ! n" by (auto simp: in_set_conv_nth)
    then have "\<forall>j < asize A. \<sigma> A (int j) = Some (vals ! n ! j)" "length (vals ! n) = asize A" using vals by (auto simp: solutionOf_def)
    moreover have "nat i < asize A" using False A(3) by simp
    ultimately have v: "\<sigma> A (int (nat i)) = Some (vals ! n ! nat i)" "length (vals ! n) = asize A" by blast+
    then have "fits (arange A) (vals ! n ! nat i)" using wf_envs [OF \<sigma>] by (auto simp: wf_env_def)
    then show ?thesis using a(1,2) n v sym False A(3) by (simp add: assignmentEnv_def initialValue_def fits_mod_eq)
  qed
qed

lemma solution_assignment:
  assumes key: "queryKey U S lt Q key" and objects: "objects = findSymbolicObjects h key []" and sol: "initialIn U Q objects vals"
  shows "\<exists>a. Assignment_create objects vals False = Some a \<and> decides co U S key (Some a)"
proof -
  obtain \<sigma> where \<sigma>: "\<sigma> \<in> U" "satisfied \<sigma> (constraints Q)" "sem \<sigma> (qexpr Q) = Some 0" "solutionOf \<sigma> objects vals"
    using sol by (auto simp: initialIn_def modelsOf_def solutionOf_def)
  have good: "\<forall>e \<in> set key. keyGood U S e" and sat: "satisfied \<sigma> key" using key \<sigma> by (auto simp: queryKey_def)
  have obj: "set objects = {A. isSymbolicArray A \<and> (\<exists>e \<in> set key. A \<in> set (arraysOf e))}" "distinct objects"
    unfolding objects by (rule findSymbolicObjects_finds)+
  then have S: "set objects \<subseteq> S" "\<forall>A \<in> set objects. isSymbolicArray A" using good by (auto simp: keyGood_def exprGood_def)
  from create_binding [OF one S(1) obj(2) \<sigma>(4)] obtain a where
    a: "Assignment_create objects vals False = Some a" "\<not> allowFreeValues a" "set (bindings a) \<subseteq> set (zip objects vals)"
      "\<forall>i < length objects. bindingOf a (objects ! i) = Some (vals ! i)" "\<forall>A \<in> S - set objects. bindingOf a A = None" by blast
  have U: "assignmentEnv co a \<in> U" by (rule closed [OF \<sigma>(1) S(1) obj(2) \<sigma>(4) a(1)])
  have "A \<in> S \<and> length vs = asize A \<and> (\<forall>v \<in> set vs. fits (arange A) v)" if bound: "(A, vs) \<in> set (bindings a)" for A vs
  proof -
    obtain n where n: "n < length objects" "A = objects ! n" "vs = vals ! n" using a(3) bound by (auto simp: set_zip)
    then have v: "length vs = asize A" "\<forall>j < asize A. \<sigma> A (int j) = Some (vs ! j)" using \<sigma>(4) by (auto simp: solutionOf_def)
    have fit: "\<sigma> A i = Some v \<Longrightarrow> fits (arange A) v" for i v using wf_envs [OF \<sigma>(1)] by (auto simp: wf_env_def)
    have "\<forall>v \<in> set vs. fits (arange A) v" using v fit by (metis in_set_conv_nth)
    then show ?thesis using v(1) n S(1) nth_mem by blast
  qed
  then have "assignOK co U S a" using a(2) U by (auto simp: assignOK_def)
  moreover have "sem (assignmentEnv co a) e = Some 1" if e: "e \<in> set key" for e
  proof -
    have ek: "wf_expr e" "set (arraysOf e) \<subseteq> S" using good e by (auto simp: keyGood_def exprGood_def)
    have "sem \<sigma> e = sem (assignmentEnv co a) e"
      by (rule sem_arrays [OF ek(1) wf_envs [OF \<sigma>(1)] wf_assignmentEnv]) (rule assigned_bytes [OF \<sigma>(1) S \<sigma>(4) a(2,4,5)], use ek e obj(1) in auto)
    then show ?thesis using sat e by (simp add: satisfied_def)
  qed
  ultimately have "decides co U S key (Some a)" by (simp add: decides_def satisfied_def)
  with a(1) show ?thesis by blast
qed

lemma cexOK_insert:
  assumes ok: "cexOK co U S lt st" and key: "isSet lt {e. set (arraysOf e) \<subseteq> S} key" "decides co U S key r" and tab: "\<forall>a \<in> set tab. assignOK co U S a"
  shows "cexOK co U S lt \<lparr>cexCache = insertSet lt key r (cexCache st), assignmentsTable = tab\<rparr>"
proof -
  let ?D = "{e. set (arraysOf e) \<subseteq> S}"
  have m: "setMapOK lt ?D (cexCache st)" using ok by (simp add: cexOK_def)
  have look: "lookupSet k (insertSet lt key r (cexCache st)) = (if k = key then Some r else lookupSet k (cexCache st))" for k
    by (rule set_order.insertSet_lookup [OF order key(1)]) (use m in \<open>simp add: setMapOK_def\<close>)
  have "assignOK co U S a" if "Some a \<in> nodeValues (insertSet lt key r (cexCache st))" for a
  proof -
    have "Some a \<in> nodeValues (cexCache st) \<or> Some a = r" using insertSet_values [of lt key r "cexCache st"] that by blast
    then show ?thesis using ok key(2) by (auto simp: cexOK_def decides_def)
  qed
  then show ?thesis using insertSet_OK [OF order key(1) m] look ok key(2) tab by (auto simp: cexOK_def split: if_splits)
qed

lemma memoize_result:
  assumes ok: "cexOK co U S lt st" and key: "queryKey U S lt Q key" and objects: "objects = findSymbolicObjects h key []"
    and Q: "cexQuery U S Q" "getWidth (qexpr Q) = 1" and sol: "hasSolution \<longleftrightarrow> \<not> validIn U Q" "hasSolution \<Longrightarrow> initialIn U Q objects vals"
  shows "\<exists>r st'. memoize opts co lt key objects (vals, hasSolution) st = Ok (r, st') \<and> cexOK co U S lt st' \<and> answers co U S Q r"
proof (cases hasSolution)
  case True
  obtain a where a: "Assignment_create objects vals False = Some a" "decides co U S key (Some a)"
    using solution_assignment [OF key objects sol(2) [OF True]] by blast
  obtain b tab where t: "insertAssignment a (assignmentsTable st) = (b, tab)" by fastforce
  have aok: "assignOK co U S a" "satisfied (assignmentEnv co a) key" using a(2) by (simp_all add: decides_def)
  have b: "b = a" "\<forall>c \<in> set tab. assignOK co U S c" using table_same [OF t aok(1)] ok by (auto simp: cexOK_def)
  have good: "\<forall>e \<in> set key. keyGood U S e" "isSet lt {e. set (arraysOf e) \<subseteq> S} key" using key by (simp_all add: queryKey_def)
  have "satisfies co (UseVisitorHash opts) a key = Ok True" using satisfies_key [OF good(1) aok(1)] aok(2) by simp
  then have m: "memoize opts co lt key objects (vals, hasSolution) st =
      Ok (Some a, \<lparr>cexCache = insertSet lt key (Some a) (cexCache st), assignmentsTable = tab\<rparr>)"
    using True a(1) t b(1) by (auto simp: memoize_def)
  moreover have "answers co U S Q (Some a)" using aok key by (auto simp: answers_def queryKey_def assignOK_def)
  ultimately show ?thesis using cexOK_insert [OF ok good(2) a(2) b(2)] by blast
next
  case False
  then have valid: "validIn U Q" using sol(1) by blast
  then have none: "decides co U S key None" using key by (auto simp: decides_def queryKey_def validIn_def modelsOf_def)
  have "cexOK co U S lt (st\<lparr>cexCache := insertSet lt key None (cexCache st)\<rparr>)"
    using cexOK_insert [OF ok _ none, of "assignmentsTable st"] key ok by (simp add: queryKey_def cexOK_def)
  then show ?thesis using False valid by (auto simp: memoize_def answers_def)
qed

end

text \<open>A solver below the cache.\<close>

definition cexInv :: "bool \<Rightarrow> env set \<Rightarrow> Array set \<Rightarrow> (expr \<Rightarrow> expr \<Rightarrow> bool) \<Rightarrow> ('q \<Rightarrow> bool) \<Rightarrow> 'q \<times> cexState \<Rightarrow> bool" where
  "cexInv co U S lt I s \<longleftrightarrow> I (fst s) \<and> cexOK co U S lt (snd s)"

locale cex_solver = solver_impl co U reliable I T + cex_envs co U S lt
  for co U reliable I and T :: "'q SolverImpl" and S lt
begin

lemma okQuery_cex: "cexQuery U S Q \<Longrightarrow> okQuery U Q"
  by (auto simp: cexQuery_def keyGood_def exprGood_def okQuery_def wf_constraints_def modelsOf_def)

lemma getAssignment_returns:
  assumes Q: "cexQuery U S Q" "getWidth (qexpr Q) = 1"
  shows "returns reliable (cexInv co U S lt I) (getAssignment opts co lt T Q) (answers co U S Q)"
  unfolding returns_def
proof (intro allI impI)
  fix s assume "cexInv co U S lt I s"
  then obtain q st where s: "s = (q, st)" "I q" "cexOK co U S lt st" by (cases s) (auto simp: cexInv_def)
  from lookup_result [OF s(3) Q, of opts] obtain key found where
    l: "lookupAssignment opts co lt Q st = Ok (key, found)" "\<And>x. found = Some x \<Longrightarrow> answers co U S Q x" "found = None \<Longrightarrow> queryKey U S lt Q key" by blast
  show "\<exists>r s'. getAssignment opts co lt T Q s = Ok (r, s') \<and> cexInv co U S lt I s' \<and> (\<forall>x. r = Some x \<longrightarrow> answers co U S Q x) \<and> (reliable \<longrightarrow> r \<noteq> None)"
  proof (cases found)
    case (Some x)
    then show ?thesis using l s by (auto simp: getAssignment_def cexInv_def)
  next
    case None
    define objects where "objects = findSymbolicObjects (UseVisitorHash opts) key []"
    note key = l(3) [OF None]
    have "set objects \<subseteq> S" "\<forall>A \<in> set objects. isSymbolicArray A"
      using key unfolding objects_def findSymbolicObjects_finds by (auto simp: queryKey_def keyGood_def exprGood_def)
    then have "definedOn U objects" using bytes by (auto simp: definedOn_def)
    note init = initial [OF okQuery_cex [OF Q(1)] Q(2) this, unfolded returns_def, THEN spec, THEN mp, OF s(2)]
    then obtain r q' where r: "computeInitialValues T Q objects q = Ok (r, q')" "I q'" "reliable \<Longrightarrow> r \<noteq> None"
      and res: "\<forall>x. r = Some x \<longrightarrow> (\<lambda>(vals, has). (has \<longleftrightarrow> \<not> validIn U Q) \<and> (has \<longrightarrow> initialIn U Q objects vals)) x" by blast
    show ?thesis
    proof (cases r)
      case N: None
      then show ?thesis using l(1) None s r by (auto simp: getAssignment_def qbind_def onSolver_def cexInv_def simp flip: objects_def)
    next
      case (Some x)
      obtain vals has where x: "x = (vals, has)" by (cases x)
      have sol: "has \<longleftrightarrow> \<not> validIn U Q" "has \<Longrightarrow> initialIn U Q objects vals" using res Some x by auto
      from memoize_result [OF s(3) key objects_def Q sol, of opts] obtain y st' where
        y: "memoize opts co lt key objects (vals, has) st = Ok (y, st')" "cexOK co U S lt st'" "answers co U S Q y" by blast
      then show ?thesis using l(1) None s r(1,2) Some x by (simp add: getAssignment_def qbind_def onSolver_def cexInv_def flip: objects_def)
    qed
  qed
qed

lemma cexQuery_withFalse: "cexQuery U S Q \<Longrightarrow> cexQuery U S (withFalse Q)" "getWidth (qexpr (withFalse Q)) = 1"
  by (auto simp: cexQuery_def withFalse_def withExpr_def exprGood_def)

lemma cexQuery_negate: "cexQuery U S Q \<Longrightarrow> getWidth (qexpr Q) = 1 \<Longrightarrow> cexQuery U S (negateExpr co Q)"
  using negated_key(1) by (auto simp: cexQuery_def negateExpr_def withExpr_def keyGood_def)

lemma answers_withFalse:
  assumes "answers co U S (withFalse Q) r" "modelsOf U (constraints Q) \<noteq> {}"
  shows "\<exists>a. r = Some a \<and> assignOK co U S a \<and> assignmentEnv co a \<in> modelsOf U (constraints Q)"
  using assms by (cases r) (auto simp: answers_def withFalse_def withExpr_def validIn_def modelsOf_def assignOK_def)

lemma answers_truth: "answers co U S Q r \<Longrightarrow> r = None \<longleftrightarrow> validIn U Q"
  by (cases r) (auto simp: answers_def validIn_def modelsOf_def assignOK_def)

text \<open>An assignment evaluates the expression of a query to a constant.\<close>

lemma evaluate_query:
  assumes "cexQuery U S Q" "assignOK co U S a"
  shows "\<exists>v. evaluate co h a (qexpr Q) = Ok (ConstantExpr (APInt (getWidth (qexpr Q)) v)) \<and> sem (assignmentEnv co a) (qexpr Q) = Some v"
proof -
  have "assignmentEnv co a \<in> U" "exprGood U S (qexpr Q)" using assms by (auto simp: assignOK_def cexQuery_def)
  then obtain v where "wf_expr (qexpr Q)" "plain (qexpr Q)" "sem (assignmentEnv co a) (qexpr Q) = Some v" by (auto simp: exprGood_def)
  then show ?thesis using evaluate_value by blast
qed

lemma cex_truth:
  assumes Q: "cexQuery U S Q" "getWidth (qexpr Q) = 1"
  shows "returns (reliable \<and> \<not> CexCacheExperimental opts) (cexInv co U S lt I) (computeTruth (CexCachingSolver opts co lt T) Q) (\<lambda>b. b = validIn U Q)"
proof -
  have main: "returns reliable (cexInv co U S lt I) (qbind (getAssignment opts co lt T Q) (\<lambda>a. qreturn (a = None))) (\<lambda>b. b = validIn U Q)"
    by (rule returns_qbind [OF getAssignment_returns [OF Q]]) (simp add: answers_truth)
  show ?thesis unfolding returns_def
  proof (intro allI impI)
    fix s assume inv: "cexInv co U S lt I s"
    then have ok: "cexOK co U S lt (snd s)" by (simp add: cexInv_def)
    from main [unfolded returns_def, THEN spec, THEN mp, OF inv] obtain r s' where m: "qbind (getAssignment opts co lt T Q) (\<lambda>a. qreturn (a = None)) s = Ok (r, s')" "cexInv co U S lt I s'"
      "\<forall>b. r = Some b \<longrightarrow> b = validIn U Q" "reliable \<longrightarrow> r \<noteq> None" by (elim exE conjE)
    from lookup_result [OF ok cexQuery_negate [OF Q] query_negate(2) [OF okQuery_cex [OF Q(1)] Q(2)], of opts]
    obtain key found where l: "lookupAssignment opts co lt (negateExpr co Q) (snd s) = Ok (key, found)" by (elim exE conjE)
    show "\<exists>r s'. computeTruth (CexCachingSolver opts co lt T) Q s = Ok (r, s') \<and> cexInv co U S lt I s' \<and>
        (\<forall>b. r = Some b \<longrightarrow> b = validIn U Q) \<and> (reliable \<and> \<not> CexCacheExperimental opts \<longrightarrow> r \<noteq> None)"
    proof (cases "CexCacheExperimental opts \<and> found = Some None")
      case True
      then have "computeTruth (CexCachingSolver opts co lt T) Q s = Ok (None, s)" using l by (simp add: CexCachingSolver_def Cex_computeTruth_def)
      then show ?thesis using inv True by (intro exI [of _ None] exI [of _ s]) simp
    next
      case False
      then have "computeTruth (CexCachingSolver opts co lt T) Q s = Ok (r, s')"
        using l m(1) by (cases "CexCacheExperimental opts") (simp_all add: CexCachingSolver_def Cex_computeTruth_def)
      then show ?thesis using m(2-4) by (intro exI [of _ r] exI [of _ s']) simp
    qed
  qed
qed

lemma cex_validity:
  assumes Q: "cexQuery U S Q" "getWidth (qexpr Q) = 1" and ne: "modelsOf U (constraints Q) \<noteq> {}"
  shows "returns reliable (cexInv co U S lt I) (computeValidity (CexCachingSolver opts co lt T) Q) (\<lambda>v. v = validityIn U Q)"
proof -
  let ?h = "UseVisitorHash opts"
  note neg = query_negate [OF okQuery_cex [OF Q(1)] Q(2)]
  have "returns reliable (cexInv co U S lt I) (\<lambda>s. case a of None \<Rightarrow> Abort | Some b \<Rightarrow>
      rbind (evaluate co ?h b (qexpr Q)) (\<lambda>q. case q of
        ConstantExpr c \<Rightarrow>
          (if isTrue c
           then qbind (getAssignment opts co lt T Q) (\<lambda>a. qreturn (if a = None then VTrue else VUnknown))
           else qbind (getAssignment opts co lt T (negateExpr co Q)) (\<lambda>a. qreturn (if a = None then VFalse else VUnknown))) s
      | _ \<Rightarrow> Abort)) (\<lambda>v. v = validityIn U Q)"
    if a: "answers co U S (withFalse Q) a" for a
  proof -
    obtain b where b: "a = Some b" "assignOK co U S b" "assignmentEnv co b \<in> modelsOf U (constraints Q)" using answers_withFalse [OF a ne] by blast
    obtain v where v: "evaluate co ?h b (qexpr Q) = Ok (ConstantExpr (APInt 1 v))" "sem (assignmentEnv co b) (qexpr Q) = Some v"
      using evaluate_query [OF Q(1) b(2)] Q(2) by auto
    have "v = 0 \<or> v = 1" using negated_key(3) [of "qexpr Q" "assignmentEnv co b"] Q b(3) v(2) by (auto simp: cexQuery_def modelsOf_def)
    moreover have "v = 1 \<Longrightarrow> \<not> unsatIn U Q" "v = 0 \<Longrightarrow> \<not> validIn U Q" using b(3) v(2) by (force simp: validIn_def unsatIn_def)+
    ultimately consider "v = 1" "\<not> unsatIn U Q" | "v = 0" "\<not> validIn U Q" by blast
    then show ?thesis
    proof cases
      case 1
      have "returns reliable (cexInv co U S lt I) (qbind (getAssignment opts co lt T Q) (\<lambda>a. qreturn (if a = None then VTrue else VUnknown))) (\<lambda>v. v = validityIn U Q)"
        by (rule returns_qbind [OF getAssignment_returns [OF Q]]) (use 1 answers_truth in \<open>auto simp: validityIn_def\<close>)
      then show ?thesis using 1 b(1) v(1) by (simp add: isTrue_def)
    next
      case 2
      have "returns reliable (cexInv co U S lt I) (qbind (getAssignment opts co lt T (negateExpr co Q)) (\<lambda>a. qreturn (if a = None then VFalse else VUnknown))) (\<lambda>v. v = validityIn U Q)"
        by (rule returns_qbind [OF getAssignment_returns [OF cexQuery_negate [OF Q] neg(2)]]) (use 2 answers_truth neg(3) in \<open>auto simp: validityIn_def\<close>)
      then show ?thesis using 2 b(1) v(1) by (simp add: isTrue_def)
    qed
  qed
  from returns_qbind [OF getAssignment_returns [OF cexQuery_withFalse(1) [OF Q(1)] cexQuery_withFalse(2)] this] show ?thesis
    by (simp add: CexCachingSolver_def Cex_computeValidity_def)
qed

lemma cex_value:
  assumes Q: "cexQuery U S Q" and ne: "modelsOf U (constraints Q) \<noteq> {}"
  shows "returns reliable (cexInv co U S lt I) (computeValue (CexCachingSolver opts co lt T) Q) (\<lambda>e. \<exists>c. e = ConstantExpr c \<and> valueIn U Q c)"
proof -
  let ?h = "UseVisitorHash opts"
  have "returns reliable (cexInv co U S lt I)
      (\<lambda>s. case a of None \<Rightarrow> Abort | Some b \<Rightarrow> rbind (evaluate co ?h b (qexpr Q)) (\<lambda>r. if isConstantExpr r then Ok (Some r, s) else Abort))
      (\<lambda>e. \<exists>c. e = ConstantExpr c \<and> valueIn U Q c)"
    if a: "answers co U S (withFalse Q) a" for a
  proof -
    obtain b where b: "a = Some b" "assignOK co U S b" "assignmentEnv co b \<in> modelsOf U (constraints Q)" using answers_withFalse [OF a ne] by blast
    obtain v where v: "evaluate co ?h b (qexpr Q) = Ok (ConstantExpr (APInt (getWidth (qexpr Q)) v))" "sem (assignmentEnv co b) (qexpr Q) = Some v"
      using evaluate_query [OF Q b(2)] by auto
    have wf: "wf_expr (qexpr Q)" using Q by (simp add: cexQuery_def exprGood_def)
    have "valueIn U Q (APInt (getWidth (qexpr Q)) v)"
      using sem_fits(1) [OF v(2) wf_assignmentEnv wf] wf_expr_width_pos [OF wf] b(3) v(2) by (auto simp: valueIn_def wf_const_def)
    then show ?thesis using b(1) v(1) by (simp add: returns_def)
  qed
  from returns_qbind [OF getAssignment_returns [OF cexQuery_withFalse(1) [OF Q] cexQuery_withFalse(2)] this] show ?thesis
    by (simp add: CexCachingSolver_def Cex_computeValue_def)
qed

lemma assignment_values:
  assumes a: "assignOK co U S a" and A: "A \<in> S"
  shows "length (case bindingOf a A of None \<Rightarrow> replicate (asize A) 0 | Some bytes \<Rightarrow> bytes) = asize A"
    and "j < asize A \<Longrightarrow> assignmentEnv co a A (int j) = Some ((case bindingOf a A of None \<Rightarrow> replicate (asize A) 0 | Some bytes \<Rightarrow> bytes) ! j)"
proof -
  have bound: "length bs = asize A \<and> (\<forall>v \<in> set bs. fits (arange A) v)" if b: "bindingOf a A = Some bs" for bs
  proof -
    obtain B where B: "(B, bs) \<in> set (bindings a)" "address B = address A" using b
      by (auto simp: bindingOf_def find_Some_iff) (metis nth_mem)
    then have "B \<in> S" using a by (auto simp: assignOK_def)
    then have "B = A" using B(2) A one by (simp add: oneObject_def)
    then show ?thesis using a B(1) by (auto simp: assignOK_def)
  qed
  then show "length (case bindingOf a A of None \<Rightarrow> replicate (asize A) 0 | Some bytes \<Rightarrow> bytes) = asize A"
    by (auto split: option.split)
  show "assignmentEnv co a A (int j) = Some ((case bindingOf a A of None \<Rightarrow> replicate (asize A) 0 | Some bytes \<Rightarrow> bytes) ! j)" if "j < asize A"
    using bound a that by (auto simp: assignmentEnv_def assignOK_def fits_mod_eq split: option.split)
qed

lemma cex_initial:
  assumes Q: "cexQuery U S Q" "getWidth (qexpr Q) = 1" and objects: "set objects \<subseteq> S"
  shows "returns reliable (cexInv co U S lt I) (computeInitialValues (CexCachingSolver opts co lt T) Q objects)
    (\<lambda>(vals, hasSolution). (hasSolution \<longleftrightarrow> \<not> validIn U Q) \<and> (hasSolution \<longrightarrow> initialIn U Q objects vals))"
proof -
  let ?bytes = "\<lambda>b. map (\<lambda>os. case bindingOf b os of None \<Rightarrow> replicate (asize os) 0 | Some bytes \<Rightarrow> bytes) objects"
  have "initialIn U Q objects (?bytes b)" if "answers co U S Q (Some b)" for b
  proof -
    have b: "assignOK co U S b" "assignmentEnv co b \<in> modelsOf U (constraints Q)" "sem (assignmentEnv co b) (qexpr Q) = Some 0"
      using that by (auto simp: answers_def modelsOf_def assignOK_def)
    have "objects ! i \<in> S" if "i < length objects" for i using objects nth_mem [OF that] by blast
    then show ?thesis unfolding initialIn_def using b assignment_values [OF b(1)] by (auto intro!: bexI [OF _ b(2)])
  qed
  then have "returns reliable (cexInv co U S lt I) (case a of None \<Rightarrow> qreturn ([], False) | Some b \<Rightarrow> qreturn (?bytes b, True))
      (\<lambda>(vals, hasSolution). (hasSolution \<longleftrightarrow> \<not> validIn U Q) \<and> (hasSolution \<longrightarrow> initialIn U Q objects vals))"
    if "answers co U S Q a" for a using answers_truth [OF that] that by (cases a) auto
  from returns_qbind [OF getAssignment_returns [OF Q] this] show ?thesis
    by (simp add: CexCachingSolver_def Cex_computeInitialValues_def)
qed

end

section \<open>The order of expressions and the environments of the program\<close>

lemma compare_set_order:
  assumes "sharing sh shl" "oneObject S"
  shows "set_order (\<lambda>a b. compare hv sh shl a b < 0) {e. set (arraysOf e) \<subseteq> S}"
proof
  fix a b c assume D: "a \<in> {e. set (arraysOf e) \<subseteq> S}" "b \<in> {e. set (arraysOf e) \<subseteq> S}"
  show "\<not> compare hv sh shl a a < 0" using compareRef_refl by (simp add: compare_ref [OF assms(1)])
  show "compare hv sh shl a b < 0 \<Longrightarrow> compare hv sh shl b c < 0 \<Longrightarrow> compare hv sh shl a c < 0"
    using compareRef_tri(1) [of hv a b c] by (auto simp: compare_ref [OF assms(1)] tri_def split: if_splits)
  assume "a \<noteq> b"
  then have "compareRef hv a b \<noteq> 0" using compareRef_zero(1) [OF assms(2)] D by (auto simp: ExprCompare.within_def)
  then show "compare hv sh shl a b < 0 \<or> compare hv sh shl b a < 0"
    using compareRef_minus(1) [of hv a b] by (simp add: compare_ref [OF assms(1)]) linarith
qed

text \<open>The arrays that live at the addresses of the program, and the inputs for them.\<close>

definition arraysAt :: "(nat \<Rightarrow> Array) \<Rightarrow> Array set" where
  "arraysAt pool = {A. pool (address A) = A}"

definition zeroEnvs :: "bool \<Rightarrow> Array set \<Rightarrow> env set" where
  "zeroEnvs co S =
     {\<sigma>. wf_env co \<sigma> \<and> (\<forall>A \<in> S. (\<forall>j < asize A. \<sigma> A (int j) \<noteq> None) \<and>
       (\<forall>i. int (asize A) \<le> i \<longrightarrow> \<sigma> A i = (if co \<and> isConstantArray A then None else Some 0)))}"

lemma oneObject_arraysAt: "oneObject (arraysAt pool)"
  unfolding oneObject_def
proof (intro ballI impI)
  fix A B assume *: "A \<in> arraysAt pool" "B \<in> arraysAt pool" "address A = address B"
  have "A = pool (address A)" "pool (address B) = B" using *(1,2) by (simp_all add: arraysAt_def)
  then show "A = B" using *(3) by (metis (no_types))
qed

lemma zeroEnvs_closed:
  assumes "oneObject S" "\<sigma> \<in> zeroEnvs co S" "set objects \<subseteq> S" "distinct objects" "solutionOf \<sigma> objects vals" "Assignment_create objects vals False = Some a"
  shows "assignmentEnv co a \<in> zeroEnvs co S"
proof -
  from create_binding [OF assms(1,3,4,5)] assms(6) have
    a: "\<not> allowFreeValues a" "\<forall>i < length objects. bindingOf a (objects ! i) = Some (vals ! i)" "\<forall>A \<in> S - set objects. bindingOf a A = None" by auto
  have len: "length bs = asize A" if A: "A \<in> S" "bindingOf a A = Some bs" for A bs
  proof -
    have "A \<in> set objects" using a(3) A by force
    then obtain i where "i < length objects" "A = objects ! i" by (auto simp: in_set_conv_nth)
    then show ?thesis using a(2) A(2) assms(5) by (auto simp: solutionOf_def)
  qed
  have "assignmentEnv co a A (int j) \<noteq> None" if "j < asize A" for A j using a(1) that by (auto simp: assignmentEnv_def split: option.split)
  moreover have "assignmentEnv co a A i = (if co \<and> isConstantArray A then None else Some 0)" if "A \<in> S" "int (asize A) \<le> i" for A i
    using a(1) that len [OF that(1)] by (simp add: assignmentEnv_def split: option.split)
  ultimately show ?thesis by (simp add: zeroEnvs_def)
qed

interpretation klee_envs: cex_envs co "zeroEnvs co (arraysAt pool)" "arraysAt pool" "\<lambda>a b. compare hv (=) (=) a b < 0" for co pool hv
proof (rule cex_envs.intro)
  show "oneObject (arraysAt pool)" by (rule oneObject_arraysAt)
  show "set_order (\<lambda>a b. compare hv (=) (=) a b < 0) {e. set (arraysOf e) \<subseteq> arraysAt pool}"
    by (rule compare_set_order [OF _ oneObject_arraysAt]) (simp add: sharing_def)
qed ((rule zeroEnvs_closed [OF oneObject_arraysAt]; assumption) | simp add: zeroEnvs_def)+

interpretation cex_dummy: cex_solver co "zeroEnvs co (arraysAt pool)" False "\<lambda>q :: unit. True" DummySolver "arraysAt pool" "\<lambda>a b. compare hv (=) (=) a b < 0" for co pool hv
  by (intro cex_solver.intro klee_envs.cex_envs_axioms) (unfold_locales, auto simp: zeroEnvs_def returns_def DummySolver_def)

section \<open>Properties\<close>

text \<open>
  C34: the counterexample cache keeps the contract of the solver below it: on expressions that have a
  value on all inputs, over any sequence of queries that starts with an empty cache, truth, validity,
  values and initial values are right, also when they come from the entry of a subset or of a superset, or
  from an assignment that was found for another query. This holds for every setting of the options, with
  one exception: with \<open>--cex-cache-exp\<close> a truth query may report failure although the solver below answers.
\<close>

theorem CexCachingSolver_correct:
  assumes "solver_impl co U reliable I T" "cex_envs co U S lt"
  shows "(\<forall>q. I q \<longrightarrow> cexInv co U S lt I (q, emptyCex)) \<and>
    (\<forall>Q. cexQuery U S Q \<and> getWidth (qexpr Q) = 1 \<longrightarrow>
       returns (reliable \<and> \<not> CexCacheExperimental opts) (cexInv co U S lt I) (computeTruth (CexCachingSolver opts co lt T) Q) (\<lambda>b. b = validIn U Q) \<and>
       (\<forall>objects. set objects \<subseteq> S \<longrightarrow>
         returns reliable (cexInv co U S lt I) (computeInitialValues (CexCachingSolver opts co lt T) Q objects)
           (\<lambda>(vals, hasSolution). (hasSolution \<longleftrightarrow> \<not> validIn U Q) \<and> (hasSolution \<longrightarrow> initialIn U Q objects vals))) \<and>
       (modelsOf U (constraints Q) \<noteq> {} \<longrightarrow>
         returns reliable (cexInv co U S lt I) (computeValidity (CexCachingSolver opts co lt T) Q) (\<lambda>v. v = validityIn U Q))) \<and>
    (\<forall>Q. cexQuery U S Q \<and> modelsOf U (constraints Q) \<noteq> {} \<longrightarrow>
       returns reliable (cexInv co U S lt I) (computeValue (CexCachingSolver opts co lt T) Q) (\<lambda>e. \<exists>c. e = ConstantExpr c \<and> valueIn U Q c))"
proof -
  have c: "cex_solver co U reliable I T S lt" using assms by (simp add: cex_solver_def)
  have "cexOK co U S lt emptyCex" using setMapOK_emptyNode by (simp add: cexOK_def emptyCex_def) (simp add: emptyNode_def)
  then have "I q \<Longrightarrow> cexInv co U S lt I (q, emptyCex)" for q by (simp add: cexInv_def)
  with cex_solver.cex_truth [OF c] cex_solver.cex_initial [OF c] cex_solver.cex_validity [OF c] cex_solver.cex_value [OF c] show ?thesis by blast
qed

lemma returns_answer: "returns True J m P \<Longrightarrow> J s \<Longrightarrow> \<exists>x s'. m s = Ok (Some x, s') \<and> P x"
  unfolding returns_def by blast

text \<open>Two inputs: every byte of the buffer is 7, or is 0.\<close>

definition sevens :: Assignment where
  "sevens = \<lparr>allowFreeValues = False, bindings = [(buf, [7, 7, 7, 7])]\<rparr>"

definition zeros :: Assignment where
  "zeros = \<lparr>allowFreeValues = False, bindings = []\<rparr>"

lemma example_env:
  "assignmentEnv False zeros = (\<lambda>A i. Some 0)"
  "assignmentEnv False sevens buf i = (if i < 4 then Some 7 else Some 0)"
  by (auto simp: assignmentEnv_def zeros_def sevens_def bindingOf_def buf_def nth_Cons' intro!: ext)

lemma example_closed:
  assumes "\<sigma> = assignmentEnv False sevens \<or> \<sigma> = assignmentEnv False zeros" "set objects \<subseteq> {buf}" "distinct objects" "solutionOf \<sigma> objects vals"
    and "Assignment_create objects vals False = Some a"
  shows "assignmentEnv False a \<in> {assignmentEnv False sevens, assignmentEnv False zeros}"
proof (cases "objects = []")
  case True
  then have "a = zeros" using assms(5) by (simp add: Assignment_create_def zeros_def)
  then show ?thesis by simp
next
  case False
  then have objects: "objects = [buf]" using assms(2,3) by (cases objects) (auto simp: subset_singleton_iff distinct_length_2_or_more neq_Nil_conv)
  obtain v where vals: "vals = [v]" "length v = 4" "\<forall>j < 4. \<sigma> buf (int j) = Some (v ! j)"
    using assms(4) by (auto simp: objects solutionOf_def length_Suc_conv buf_def)
  obtain x where x: "x = 7 \<and> \<sigma> = assignmentEnv False sevens \<or> x = 0 \<and> \<sigma> = assignmentEnv False zeros" "\<forall>j < 4. \<sigma> buf (int j) = Some x"
  proof (cases "\<sigma> = assignmentEnv False sevens")
    case True
    then show thesis using that [of 7] by (simp add: example_env(2))
  next
    case False
    then show thesis using that [of 0] assms(1) by (simp add: example_env(1))
  qed
  have "v = [x, x, x, x]" using vals(2,3) x(2) by (intro nth_equalityI) (auto simp: nth_Cons' less_Suc_eq)
  then have a: "a = \<lparr>allowFreeValues = False, bindings = [(buf, [x, x, x, x])]\<rparr>" using assms(5) by (simp add: objects vals(1) Assignment_create_def)
  show ?thesis
  proof (cases "x = 7")
    case True
    then show ?thesis by (simp add: a sevens_def)
  next
    case False
    then have "assignmentEnv False a = assignmentEnv False zeros" unfolding example_env
      using x(1) by (auto simp: a assignmentEnv_def bindingOf_def nth_Cons' intro!: ext)
    then show ?thesis by simp
  qed
qed

lemma example_cex_envs:
  "cex_envs False (set [assignmentEnv False sevens, assignmentEnv False zeros]) {buf} (\<lambda>a b. compare hv (=) (=) a b < 0)"
proof (rule cex_envs.intro)
  have size: "asize buf = 4" by (simp add: buf_def)
  show "\<sigma> \<in> set [assignmentEnv False sevens, assignmentEnv False zeros] \<Longrightarrow> wf_env False \<sigma>" for \<sigma> by auto
  show "\<sigma> A (int j) \<noteq> None" if "\<sigma> \<in> set [assignmentEnv False sevens, assignmentEnv False zeros]" "A \<in> {buf}" "j < asize A" for \<sigma> A j
    using that by (auto simp: example_env)
  show "\<sigma> A i = (if False \<and> isConstantArray A then None else Some 0)"
    if "\<sigma> \<in> set [assignmentEnv False sevens, assignmentEnv False zeros]" "A \<in> {buf}" "int (asize A) \<le> i" for \<sigma> A i
    using that size by (auto simp: example_env)
  show "oneObject {buf}" by (simp add: oneObject_def)
  show "set_order (\<lambda>a b. compare hv (=) (=) a b < 0) {e. set (arraysOf e) \<subseteq> {buf}}"
    by (rule compare_set_order) (simp_all add: sharing_def oneObject_def)
  fix \<sigma> objects vals a
  assume "\<sigma> \<in> set [assignmentEnv False sevens, assignmentEnv False zeros]" "set objects \<subseteq> {buf}" "distinct objects" "solutionOf \<sigma> objects vals"
    "Assignment_create objects vals False = Some a"
  then show "assignmentEnv False a \<in> set [assignmentEnv False sevens, assignmentEnv False zeros]" using example_closed by simp
qed

theorem CexCachingSolver_correct_witness:
  "\<exists>s. computeTruth (CexCachingSolver \<lparr>DebugCexCacheCheckBinding = True, CexCacheTryAll = False, CexCacheSuperSet = True, CexCacheExperimental = False, UseVisitorHash = True\<rparr>
     False (\<lambda>a b. compare (\<lambda>_. 0) (=) (=) a b < 0) (EnumSolver [assignmentEnv False sevens, assignmentEnv False zeros]))
     (exampleQuery (EqExpr (c8 7) (bufAt 1))) ((), emptyCex) = Ok (Some False, s)"
proof -
  let ?us = "[assignmentEnv False sevens, assignmentEnv False zeros]" and ?Q = "exampleQuery (EqExpr (c8 7) (bufAt 1))" and ?lt = "\<lambda>a b. compare (\<lambda>_. 0) (=) (=) a b < 0"
  let ?opts = "\<lparr>DebugCexCacheCheckBinding = True, CexCacheTryAll = False, CexCacheSuperSet = True, CexCacheExperimental = False, UseVisitorHash = True\<rparr>"
  have S: "solver_impl False (set ?us) True (\<lambda>q :: unit. True) (EnumSolver ?us)" by (rule EnumSolver_contract) auto
  have v: "\<not> validIn (set ?us) ?Q" by (auto simp: validIn_def modelsOf_def example_env example_simps kind_simps)
  have q: "cexQuery (set ?us) {buf} ?Q" "getWidth (qexpr ?Q) = 1" by (auto simp: cexQuery_def exprGood_def example_env example_simps kind_simps)
  let ?inv = "cexInv False (set ?us) {buf} ?lt (\<lambda>q :: unit. True)"
  note c = CexCachingSolver_correct [OF S example_cex_envs, of "\<lambda>_. 0" ?opts]
  have rel: "(True \<and> \<not> CexCacheExperimental ?opts) = True" by simp
  have "?inv ((), emptyCex)" using c [THEN conjunct1] by simp
  from returns_answer [OF c [THEN conjunct2, THEN conjunct1, THEN spec, THEN mp, OF conjI [OF q], THEN conjunct1, unfolded rel] this]
  obtain x s where x: "computeTruth (CexCachingSolver ?opts False ?lt (EnumSolver ?us)) ?Q ((), emptyCex) = Ok (Some x, s)" "x = validIn (set ?us) ?Q"
    by (elim exE conjE)
  have "x = False" unfolding x(2) using v by (rule Eq_FalseI [THEN meta_eq_to_obj_eq])
  with x(1) show ?thesis by (intro exI [of _ s]) (simp only:)
qed

end
