(* ===== verification/Spec2Isabelle.thy ===== *)
theory Spec2Isabelle
  imports MemoryOperation IndependenceSound CexSound
begin

text \<open>
  A verification of the core of DD-KLEE, the symbolic execution engine KLEE with the data-driven
  search heuristics of ParaDySE (sources under \<open>src/klee\<close>).

  \<^bold>\<open>The program.\<close> KLEE runs a program on symbolic inputs. A value is an expression over the bytes of
  symbolic arrays (\<open>lib/Expr\<close>); an execution state (\<open>lib/Core/ExecutionState.cpp\<close>) holds the stack with
  its registers, an address space with the contents of memory, and the path condition, a list of
  constraints. At a branch the executor (\<open>lib/Core/Executor.cpp\<close>) asks a chain of solvers
  (\<open>lib/Solver\<close>) whether both sides have inputs and forks the state. A load or store through a
  symbolic pointer asks which objects the pointer may point into and forks over them. A searcher
  (\<open>lib/Core/Searcher.cpp\<close>) selects the state that is run next; when a path ends, its inputs are
  written as a test file (\<open>lib/Basic/KTest.cpp\<close>).

  \<^bold>\<open>The theories\<close>, in the order of their dependence:

  \<^item> \<open>Prelude\<close>: collections of rewrite rules and facts on options, lists and powers of two.
  \<^item> \<open>ConstantOps\<close>, \<open>ExprModel\<close> (\<open>Expr.h\<close>): constants with their folding operations, the expression
    classes, arrays and update lists as datatypes, and \<open>sem\<close>, the value of an expression in an
    environment that gives the bytes of the arrays.
  \<^item> \<open>ExprCreate\<close>, \<open>ExprConcat\<close>, \<open>ExprRead\<close> (\<open>Expr.cpp\<close>, \<open>Updates.cpp\<close>): the simplifying constructors
    of every class. \<open>ExprCreateSound\<close> and \<open>ExprCorrect\<close> show that each gives an expression of the right
    type with the value of the operation. The assertion of the binary classes that their operands have
    one width is in \<open>BinaryExpr_create\<close>; those of the other classes on widths are hypotheses.
  \<^item> \<open>ExprCompare\<close> (\<open>Expr::compare\<close>, \<open>computeHash\<close>): the comparison is a total order whose equality is
    structural equality.
  \<^item> \<open>Visitor\<close>, \<open>Evaluator\<close> (\<open>ExprVisitor.cpp\<close>, \<open>ExprEvaluator.cpp\<close>, \<open>Assignment.cpp\<close>) with
    \<open>AssignmentSound\<close>: traversals with their table of visited nodes; evaluation under an assignment
    finds the value of an expression, and \<open>satisfies\<close> decides the constraints, where no opaque node
    (\<open>NotOptimizedExpr\<close>) stands directly over a constant; rebuilding a node keeps its type, and is rejected
    only for a division of constants by zero.
  \<^item> \<open>ExprWeight\<close>, \<open>Constraints\<close>, \<open>VisitorSafe\<close> (\<open>Constraints.cpp\<close>): the constraint manager.
    Simplification and the addition of a constraint end, keep the models of the path condition and fail
    no assertion on satisfiable constraints; the measure is a weight no constructor increases.
  \<^item> \<open>ImmutableTree\<close>, \<open>TreeLoops\<close> (\<open>ImmutableTree.h\<close>, \<open>ImmutableMap.h\<close>, \<open>ImmutableSet.h\<close>): the
    persistent balanced trees refine finite maps, and loops over their iterators run over the list of
    their values.
  \<^item> \<open>BitArray\<close>, \<open>Memory\<close>, \<open>MemoryAccess\<close>, \<open>MemoryCorrect\<close> (\<open>BitArray.h\<close>, \<open>Memory.h\<close>, \<open>Memory.cpp\<close>): object
    states, which hold a byte as a number, as an expression or in an update list. \<open>holdsBytes\<close> is the
    abstract content; reads return it, writes update it, at constant and symbolic offsets.
  \<^item> \<open>Solver\<close>, \<open>SolverRange\<close>, \<open>SolverChain\<close>, \<open>SolverCorrect\<close> (\<open>Solver.cpp\<close>, \<open>IncompleteSolver.cpp\<close>,
    \<open>CachingSolver.cpp\<close>, \<open>DummySolver.cpp\<close>): the contract of a solver as the locale \<open>solver_impl\<close>, the
    operations over it, the search for the range of an expression, and the solvers over other solvers.
  \<^item> \<open>ExprUtil\<close>, \<open>Independence\<close>, \<open>IndependenceSound\<close> (\<open>ExprUtil.cpp\<close>, \<open>IndependentSolver.cpp\<close>): the solver
    that drops the constraints unconnected with a query keeps the contract.
  \<^item> \<open>MapOfSets\<close>, \<open>CexCaching\<close>, \<open>CexKeys\<close>, \<open>CexSound\<close> (\<open>MapOfSets.h\<close>, \<open>CexCachingSolver.cpp\<close>): maps from sets with
    searches for subsets and supersets, and the cache of counterexamples over them, which keeps the
    contract for expressions that have a value on all inputs, where a byte beyond an array reads as 0
    (with \<open>--cex-cache-exp\<close> a truth query may fail).
  \<^item> \<open>TimingSolver\<close> (\<open>TimingSolver.cpp\<close>): the queries of the executor.
  \<^item> \<open>AddressSpace\<close>, \<open>CopyOnWrite\<close>, \<open>PointerResolution\<close>, \<open>ResolveCorrect\<close> (\<open>AddressSpace.cpp\<close>): the memory
    map, sharing of object states between states, and the resolution of pointers to objects.
  \<^item> \<open>PTree\<close>, \<open>Searchers\<close> (\<open>PTree.cpp\<close>, \<open>Searcher.cpp\<close>): the tree of states with the random walk, and the
    searchers with their contract, the locales \<open>searcher\<close> and \<open>core_searcher\<close>.
  \<^item> \<open>ExecState\<close> (\<open>ExecutionState.cpp\<close>): states, their copy, and the merge of two states.
  \<^item> \<open>KTest\<close>, \<open>SeedInfo\<close> (\<open>KTest.cpp\<close>, \<open>SeedInfo.cpp\<close>): test files, which read back as written and are
    rejected when cut short, and seeds.
  \<^item> \<open>Executor\<close>, \<open>ExecutorPaths\<close> (\<open>Executor.cpp\<close>): fork, branch, constraints, the end of states and the
    update of the searcher; a fork divides the inputs of a path, and no input is lost on a run.
  \<^item> \<open>ExecutorMemory\<close>, \<open>MemoryOperation\<close> (\<open>Executor.cpp\<close>): loads, stores and releases, and the end of a
    state with an error; a load continues every input whose access lies in an object with the bytes
    stored there, and reports every other input.

  \<^bold>\<open>How the model reads the code.\<close> An \<open>APInt\<close> is its width with its unsigned value. An assertion that
  fails, a null dereference and a division of constants by zero are \<open>Abort\<close> (or \<open>None\<close>), an answer the
  solver cannot give is \<open>None\<close>. Widths are natural numbers; addresses are words of 64 bits, offsets wrap
  at 32 bits where the code keeps them in an \<open>unsigned\<close>. Equality of \<open>ref<Expr>\<close> is structural equality,
  as \<open>compare_equal_iff\<close> justifies; the identity of an array is its field \<open>address\<close>. Objects with an
  identity that code shares or changes live in heaps: object states and nodes of the process tree in
  lists, execution states in a map under numbers. Reference counts, statistics, messages and time
  limits are left out. A solver, a searcher and a visitor are records of their methods, with a state
  that each method returns. The clock and the random number generator are functions of a world that is
  passed on. Sets ordered by pointers are sets or lists, and the theorems hold for every order.
  The option \<open>--const-array-opt\<close> is an argument of the constructors. A read beyond a constant array has
  no value; the theorems on constructors are refinements, so that an undefined value may become any.

  \<^bold>\<open>Loops and fuel.\<close> Loops that run along data are structural recursions. Fuel bounds the visitor,
  whose hooks may rebuild what is visited next, the constraint manager, loops over iterators, the
  closure and the factors of the independent solver, the climb in the process tree and the binary
  search. Running out of fuel is the value \<open>OutOfFuel\<close>, different from every result of the code: for
  each loop a lemma gives an amount that is enough, and the theorems state that a result is returned.

  \<^bold>\<open>Not modelled\<close>: the execution of single LLVM instructions, calls and external functions, the module
  passes and the memory manager (they are written over the LLVM library and the host's allocator), the
  translations to STP, Z3 and metaSMT, the fast counterexample solver and debugging solvers, the KQuery
  language with its builders and printers, the array optimizer, the floating point scores of ParaDySE
  and the searchers driven by them, statistics, tools and the C runtime. What the modelled code uses of
  them is a parameter.
\<close>

end
